(* ===== verification/Ov_Prelude.thy ===== *)
theory Ov_Prelude
  imports Main "HOL-Library.Word"
begin

text \<open>
  Shared vocabulary of the development.

  Machine integers are words of the width the C code gives them. A C buffer is the list of
  its bytes; a pointer that may be NULL is an \<open>option\<close>. A C expression over \<open>uint8_t\<close>
  operands is computed in \<open>int\<close>, which is a 32 bit word here (no expression of the modelled
  code leaves the non-negative range of \<open>int\<close>).
\<close>

unbundle bit_operations_syntax

type_synonym u8 = "8 word"
type_synonym u16 = "16 word"
type_synonym u32 = "32 word"
type_synonym u64 = "64 word"
type_synonym bytes = "u8 list"

subsection \<open>Words bit by bit\<close>

text \<open>
  An equation between words of the four widths is decided bit by bit: the equation is the
  conjunction over the bit positions, and every position of a shift, mask or cast evaluates.
\<close>

lemma All_less_add:
  "(\<forall>n<k + j. P n) \<longleftrightarrow> (\<forall>n<j. P n) \<and> (\<forall>n<k. P (n + j))" for k j :: nat
proof (intro iffI conjI)
  assume *: "(\<forall>n<j. P n) \<and> (\<forall>n<k. P (n + j))"
  show "\<forall>n<k + j. P n"
  proof (intro allI impI)
    fix n assume n: "n < k + j"
    show "P n"
    proof (cases "n < j")
      case False
      then have "n - j < k" and eq: "n - j + j = n" using n by auto
      with * have "P (n - j + j)" by blast
      then show ?thesis by (simp only: eq)
    qed (use * in blast)
  qed
qed auto

lemma All_less_8:
  "(\<forall>n<8. P n) \<longleftrightarrow> P 0 \<and> P 1 \<and> P 2 \<and> P 3 \<and> P 4 \<and> P 5 \<and> P 6 \<and> P (7::nat)"
  by (simp add: numeral_eq_Suc All_less_Suc2)

lemma All_less_16: "(\<forall>n<16. P n) \<longleftrightarrow> (\<forall>n<8. P n) \<and> (\<forall>n<8. P (n + 8::nat))"
  using All_less_add [of 8 8] by simp

lemma All_less_32: "(\<forall>n<32. P n) \<longleftrightarrow> (\<forall>n<16. P n) \<and> (\<forall>n<16. P (n + 16::nat))"
  using All_less_add [of 16 16] by simp

lemma All_less_64: "(\<forall>n<64. P n) \<longleftrightarrow> (\<forall>n<32. P n) \<and> (\<forall>n<32. P (n + 32::nat))"
  using All_less_add [of 32 32] by simp

lemma u8_eq_iff: "(a::u8) = b \<longleftrightarrow> (\<forall>n<8. bit a n = bit b n)"
  by (auto intro: bit_word_eqI)

lemma u16_eq_iff: "(a::u16) = b \<longleftrightarrow> (\<forall>n<16. bit a n = bit b n)"
  by (auto intro: bit_word_eqI)

lemma u32_eq_iff: "(a::u32) = b \<longleftrightarrow> (\<forall>n<32. bit a n = bit b n)"
  by (auto intro: bit_word_eqI)

lemma u64_eq_iff: "(a::u64) = b \<longleftrightarrow> (\<forall>n<64. bit a n = bit b n)"
  by (auto intro: bit_word_eqI)

lemma u8_bit_beyond: "8 \<le> n \<Longrightarrow> \<not> bit (w::u8) n"
  by (auto dest: bit_imp_le_length)

lemma u16_bit_beyond: "16 \<le> n \<Longrightarrow> \<not> bit (w::u16) n"
  by (auto dest: bit_imp_le_length)

lemma u32_bit_beyond: "32 \<le> n \<Longrightarrow> \<not> bit (w::u32) n"
  by (auto dest: bit_imp_le_length)

lemma u64_bit_beyond: "64 \<le> n \<Longrightarrow> \<not> bit (w::u64) n"
  by (auto dest: bit_imp_le_length)

lemmas word_bits = u8_eq_iff u16_eq_iff u32_eq_iff u64_eq_iff
  All_less_8 All_less_16 All_less_32 All_less_64 bit_simps
  u8_bit_beyond u16_bit_beyond u32_bit_beyond u64_bit_beyond

lemma word_less_bit_beyond:
  fixes w :: "'a::len word"
  assumes "unat w < 2 ^ k" "k \<le> i"
  shows "\<not> bit w i"
proof
  assume "bit w i"
  then have "bit (unat w) i" by (simp add: bit_unsigned_iff bit_imp_le_length)
  then have "odd (unat w div 2 ^ i)" by (simp add: bit_iff_odd)
  moreover have "unat w < 2 ^ i"
    using assms less_le_trans power_increasing [of k i "2::nat"] by fastforce
  ultimately show False by simp
qed

subsection \<open>Words as numbers\<close>

lemma nat_or_shift: "b < 2 ^ k \<Longrightarrow> (2 ^ k * a) OR b = 2 ^ k * a + (b::nat)"
proof (rule disjunctive_add_eq_or [symmetric], rule bit_eqI)
  fix n assume b: "b < 2 ^ k"
  have "\<not> bit b n" if "k \<le> n"
    using b that by (simp add: bit_iff_odd less_le_trans [OF b power_increasing])
  moreover have "\<not> bit (2 ^ k * a) n" if "n < k"
    using that by (simp add: mult.commute [of _ a] flip: push_bit_eq_mult) (simp add: bit_push_bit_iff)
  ultimately show "bit ((2 ^ k * a) AND b) n = bit 0 n"
    by (simp add: bit_and_iff) (meson not_le)
qed

lemma nat_mask_and: "(2 ^ j - Suc 0) AND m = m mod 2 ^ j" for m :: nat
  by (metis One_nat_def and.commute mask_eq_exp_minus_1 take_bit_eq_mask take_bit_eq_mod)

lemma unat_join:
  fixes x y :: u32
  assumes "unat x = 2 ^ k * a" "unat y < 2 ^ k"
  shows "unat (x OR y) = unat x + unat y"
  using assms by (simp add: unsigned_or_eq nat_or_shift)

lemmas word_nats = word_le_nat_alt word_less_nat_alt word_unat_eq_iff

lemma le_addE: assumes "c \<le> (v::nat)" obtains x where "v = c + x"
  using assms le_Suc_ex by blast

lemma map_unat_inj: "map unat (xs :: bytes) = map unat ys \<Longrightarrow> xs = ys"
  by (rule map_injective) (auto intro: injI simp: word_unat_eq_iff)

lemma unat_u32_u64: "unat (ucast (w :: u32) :: u64) = unat w"
proof -
  have "unat w < 2 ^ LENGTH(32)" by (rule unsigned_less)
  then show ?thesis by (simp add: unsigned_ucast_eq take_bit_eq_mod)
qed

subsection \<open>Memory\<close>

text \<open>\<open>memcpy (buf + off, bs, length bs)\<close>: the bytes of \<open>buf\<close> outside the range are kept.\<close>

definition write_at :: "'a list \<Rightarrow> nat \<Rightarrow> 'a list \<Rightarrow> 'a list" where
  "write_at buf off bs = take off buf @ bs @ drop (off + length bs) buf"

lemma length_write_at [simp]:
  "off + length bs \<le> length buf \<Longrightarrow> length (write_at buf off bs) = length buf"
  by (simp add: write_at_def)

lemma write_at_0: "write_at buf 0 bs = bs @ drop (length bs) buf"
  by (simp add: write_at_def)

lemma nth_write_at:
  assumes "off + length bs \<le> length buf" "i < length buf"
  shows "write_at buf off bs ! i =
    (if off \<le> i \<and> i < off + length bs then bs ! (i - off) else buf ! i)"
  using assms by (auto simp: write_at_def nth_append min_def)

lemma take_write_at [simp]:
  "off \<le> length buf \<Longrightarrow> take off (write_at buf off bs) = take off buf"
  by (simp add: write_at_def)

lemma write_zeros_behind: "length zs \<le> n \<Longrightarrow> write_at (xs @ replicate n 0) (length xs) zs = (xs @ zs) @ replicate (n - length zs) 0"
  by (simp add: write_at_def)

lemma take_drop_write_at [simp]:
  "off + length bs \<le> length buf \<Longrightarrow>
    take (length bs) (drop off (write_at buf off bs)) = bs"
  by (simp add: write_at_def)

subsection \<open>Byte order\<close>

text \<open>
  \<open>htons\<close>/\<open>htonl\<close> followed by a store, and a load followed by \<open>ntohs\<close>/\<open>ntohl\<close>: on every
  host the bytes in memory are the big-endian representation.
\<close>

definition htons :: "u16 \<Rightarrow> bytes" where
  "htons w = [ucast (drop_bit 8 w), ucast w]"

definition ntohs :: "bytes \<Rightarrow> u16" where
  "ntohs bs = push_bit 8 (ucast (bs ! 0)) OR ucast (bs ! 1)"

definition htonl :: "u32 \<Rightarrow> bytes" where
  "htonl w = [ucast (drop_bit 24 w), ucast (drop_bit 16 w), ucast (drop_bit 8 w), ucast w]"

definition ntohl :: "bytes \<Rightarrow> u32" where
  "ntohl bs = push_bit 24 (ucast (bs ! 0)) OR push_bit 16 (ucast (bs ! 1)) OR
              push_bit 8 (ucast (bs ! 2)) OR ucast (bs ! 3)"

lemma length_htons [simp]: "length (htons w) = 2"
  by (simp add: htons_def)

lemma length_htonl [simp]: "length (htonl w) = 4"
  by (simp add: htonl_def)

lemma ntohs_htons [simp]: "ntohs (htons w) = w"
  by (simp add: ntohs_def htons_def word_bits)

lemma htons_ntohs [simp]: "htons (ntohs [a, b]) = [a, b]"
  by (simp add: ntohs_def htons_def word_bits)

lemma ntohl_htonl [simp]: "ntohl (htonl w) = w"
  by (simp add: ntohl_def htonl_def word_bits)

lemma htonl_ntohl [simp]: "htonl (ntohl [a, b, c, d]) = [a, b, c, d]"
  by (simp add: ntohl_def htonl_def word_bits)

end
