(* ===== verification/Ov_Utf8.thy ===== *)
theory Ov_Utf8
  imports Ov_Prelude
begin

text \<open>
  The UTF-8 codec of \<open>ov_base/src/encodings/ov_utf8.c\<close>: the validator
  (\<open>ov_utf8_last_valid\<close>, \<open>ov_utf8_validate_sequence\<close>), the encoder and the decoder of
  single code points. Pointers into the buffer are offsets; the loop state of the validator
  is the current position, the start of the last accepted character and the open length.
\<close>

subsection \<open>Validation\<close>

text \<open>
  One pass of the loop body of \<open>ov_utf8_last_valid\<close>: the number of bytes accepted at
  position \<open>p\<close> with \<open>open\<close> bytes left, or \<open>None\<close> for \<open>break\<close>.
\<close>

definition utf8_accept :: "bytes \<Rightarrow> nat \<Rightarrow> nat \<Rightarrow> nat option" where
  "utf8_accept buf p open =
    (if buf ! p \<le> 0x7F then Some 1
     else if buf ! p < 0xC2 then None
     else if buf ! p \<le> 0xDF then
       (if open < 2 then None
        else if drop_bit 6 (buf ! (p + 1)) \<noteq> 0x02 then None
        else Some 2)
     else if buf ! p < 0xF0 then
       (if open < 3 then None
        else if buf ! p = 0xE0 \<and> buf ! (p + 1) < 0xA0 then None
        else if buf ! p = 0xED \<and> buf ! (p + 1) > 0x9F then None
        else if drop_bit 6 (buf ! (p + 1)) \<noteq> 0x02 then None
        else if drop_bit 6 (buf ! (p + 2)) \<noteq> 0x02 then None
        else Some 3)
     else if buf ! p \<le> 0xF4 then
       (if open < 4 then None
        else if buf ! p = 0xF0 \<and> buf ! (p + 1) < 0x90 then None
        else if buf ! p = 0xF4 \<and> buf ! (p + 1) > 0x8F then None
        else if drop_bit 6 (buf ! (p + 1)) \<noteq> 0x02 then None
        else if drop_bit 6 (buf ! (p + 2)) \<noteq> 0x02 then None
        else if drop_bit 6 (buf ! (p + 3)) \<noteq> 0x02 then None
        else Some 4)
     else None)"

lemma utf8_accept_bounds:
  "utf8_accept buf p open = Some k \<Longrightarrow> 0 < open \<Longrightarrow> 0 < k \<and> k \<le> open"
  by (auto simp: utf8_accept_def split: if_splits)

function utf8_scan :: "bytes \<Rightarrow> nat \<Rightarrow> nat option \<Rightarrow> nat \<Rightarrow> nat \<times> nat option" where
  "utf8_scan buf p c open =
    (if open > 0 then
       (case utf8_accept buf p open of
          None \<Rightarrow> (p, c)
        | Some k \<Rightarrow> utf8_scan buf (p + k) (Some p) (open - k))
     else (p, c))"
  by pat_completeness auto
termination
  by (relation "measure (\<lambda>(buf, p, c, open). open)") (auto dest: utf8_accept_bounds)

declare utf8_scan.simps [simp del]

text \<open>The result is the returned pointer as an offset from \<open>start\<close>; NULL is \<open>None\<close>.\<close>

definition ov_utf8_last_valid :: "bytes option \<Rightarrow> nat \<Rightarrow> bool \<Rightarrow> nat option" where
  "ov_utf8_last_valid start len character_start =
    (case start of
       None \<Rightarrow> None
     | Some buf \<Rightarrow>
         (let (p, c) = utf8_scan buf 0 None len
          in if character_start then c else Some p))"

definition ov_utf8_validate_sequence :: "bytes option \<Rightarrow> nat \<Rightarrow> bool" where
  "ov_utf8_validate_sequence start len =
    (if start = None \<or> len < 1 then False
     else case ov_utf8_last_valid start len False of
            None \<Rightarrow> False
          | Some result \<Rightarrow> result = len)"

subsection \<open>Encoding\<close>

text \<open>
  \<open>ov_utf8_encode_code_point (number, start, open, used)\<close>. \<open>start\<close> is the pointer to the
  caller's array pointer: \<open>None\<close> if that pointer is NULL, \<open>Some None\<close> if it points to NULL
  (the function allocates), \<open>Some (Some array)\<close> otherwise. \<open>used_given\<close> says whether \<open>used\<close>
  is non-NULL. The result is the return value, the array pointer afterwards and the value
  stored in \<open>*used\<close>.
\<close>

definition utf8_store :: "bytes option \<Rightarrow> nat \<Rightarrow> bytes \<Rightarrow> bool \<times> bytes option option \<times> nat option" where
  "utf8_store array open bs =
    (case array of
       None \<Rightarrow> (True, Some (Some (write_at (replicate (length bs) 0) 0 bs)), Some (length bs))
     | Some a \<Rightarrow>
         if open < length bs then (False, Some (Some a), Some 0)
         else (True, Some (Some (write_at a 0 bs)), Some (length bs)))"

definition ov_utf8_encode_code_point ::
  "u64 \<Rightarrow> bytes option option \<Rightarrow> nat \<Rightarrow> bool \<Rightarrow> bool \<times> bytes option option \<times> nat option" where
  "ov_utf8_encode_code_point number start open used_given =
    (case start of
       None \<Rightarrow> (False, None, None)
     | Some array \<Rightarrow>
         if \<not> used_given then (False, Some array, None)
         else if number \<le> 127 then
           utf8_store array open [ucast (number AND 0x7F)]
         else if number \<le> 0x07FF then
           utf8_store array open
             [ucast (0xC0 OR (0x1F AND drop_bit 6 number)),
              ucast (0x80 OR (0x3F AND number))]
         else if number \<ge> 0xD800 \<and> number \<le> 0xDFFF then (False, Some array, Some 0)
         else if number \<le> 0xFFFF then
           utf8_store array open
             [ucast (0xE0 OR (0x0F AND drop_bit 12 number)),
              ucast (0x80 OR (0x3F AND drop_bit 6 number)),
              ucast (0x80 OR (0x3F AND number))]
         else if number \<le> 0x10FFFF then
           utf8_store array open
             [ucast (0xF0 OR (0x07 AND drop_bit 18 number)),
              ucast (0x80 OR (0x3F AND drop_bit 12 number)),
              ucast (0x80 OR (0x3F AND drop_bit 6 number)),
              ucast (0x80 OR (0x3F AND number))]
         else (False, Some array, Some 0))"

subsection \<open>Decoding\<close>

text \<open>
  The shifts are computed in \<open>int\<close>: the byte is widened to 32 bits first. The result is the
  returned code point and the value stored in \<open>*bytes\<close> (\<open>None\<close>: nothing is stored).
\<close>

definition ov_utf8_decode_code_point ::
  "bytes option \<Rightarrow> nat \<Rightarrow> bool \<Rightarrow> u64 \<times> nat option" where
  "ov_utf8_decode_code_point ptr open bytes_given =
    (case ptr of
       None \<Rightarrow> (0, None)
     | Some p \<Rightarrow>
         if open < 1 \<or> \<not> bytes_given then (0, None)
         else if p ! 0 \<le> 0x7F then (ucast (p ! 0 AND 0x7F), Some 1)
         else if p ! 0 < 0xC2 then (0, Some 0)
         else if p ! 0 \<le> 0xDF then
           (if open < 2 then (0, Some 0)
            else if drop_bit 6 (p ! 1) \<noteq> 0x02 then (0, Some 0)
            else (ucast ((push_bit 6 (ucast (p ! 0) :: u32) AND 0x07C0) OR
                         (ucast (p ! 1) AND 0x3F)), Some 2))
         else if p ! 0 < 0xF0 then
           (if open < 3 then (0, Some 0)
            else if p ! 0 = 0xE0 \<and> p ! 1 < 0xA0 then (0, Some 0)
            else if p ! 0 = 0xED \<and> p ! 1 > 0x9F then (0, Some 0)
            else if drop_bit 6 (p ! 1) \<noteq> 0x02 then (0, Some 0)
            else if drop_bit 6 (p ! 2) \<noteq> 0x02 then (0, Some 0)
            else (ucast ((push_bit 12 (ucast (p ! 0) :: u32) AND 0xF000) OR
                         (push_bit 6 (ucast (p ! 1)) AND 0x0FC0) OR
                         (ucast (p ! 2) AND 0x3F)), Some 3))
         else if p ! 0 \<le> 0xF4 then
           (if open < 4 then (0, Some 0)
            else if p ! 0 = 0xF0 \<and> p ! 1 < 0x90 then (0, Some 0)
            else if p ! 0 = 0xF4 \<and> p ! 1 > 0x8F then (0, Some 0)
            else if drop_bit 6 (p ! 1) \<noteq> 0x02 then (0, Some 0)
            else if drop_bit 6 (p ! 2) \<noteq> 0x02 then (0, Some 0)
            else if drop_bit 6 (p ! 3) \<noteq> 0x02 then (0, Some 0)
            else (ucast ((push_bit 18 (ucast (p ! 0) :: u32) AND 0x1C0000) OR
                         (push_bit 12 (ucast (p ! 1)) AND 0x3F000) OR
                         (push_bit 6 (ucast (p ! 2)) AND 0x0FC0) OR
                         (ucast (p ! 3) AND 0x3F)), Some 4))
         else (0, Some 0))"

subsection \<open>Reference definitions\<close>

text \<open>
  Unicode scalar values, and the byte sequences of RFC 3629 over natural numbers: the lead
  byte carries the sequence length, every other byte is a tail byte, overlong forms and the
  surrogates are excluded.
\<close>

definition utf8_valid :: "u64 \<Rightarrow> bool" where
  "utf8_valid n \<longleftrightarrow> n \<le> 0x10FFFF \<and> \<not> (0xD800 \<le> n \<and> n \<le> 0xDFFF)"

definition utf8_bytes :: "u64 \<Rightarrow> bytes" where
  "utf8_bytes n =
   (if n \<le> 127 then [ucast (n AND 0x7F)]
    else if n \<le> 0x07FF then
      [ucast (0xC0 OR (0x1F AND drop_bit 6 n)), ucast (0x80 OR (0x3F AND n))]
    else if n \<le> 0xFFFF then
      [ucast (0xE0 OR (0x0F AND drop_bit 12 n)), ucast (0x80 OR (0x3F AND drop_bit 6 n)),
       ucast (0x80 OR (0x3F AND n))]
    else
      [ucast (0xF0 OR (0x07 AND drop_bit 18 n)), ucast (0x80 OR (0x3F AND drop_bit 12 n)),
       ucast (0x80 OR (0x3F AND drop_bit 6 n)), ucast (0x80 OR (0x3F AND n))])"

definition utf8_seq :: "nat list \<Rightarrow> nat \<Rightarrow> bool" where
  "utf8_seq bs m \<longleftrightarrow>
     (bs = [m] \<and> m < 128) \<or>
     (\<exists>x y. bs = [192 + x, 128 + y] \<and> m = 64 * x + y \<and> 2 \<le> x \<and> x < 32 \<and> y < 64) \<or>
     (\<exists>x y z. bs = [224 + x, 128 + y, 128 + z] \<and> m = 4096 * x + 64 * y + z \<and>
        x < 16 \<and> y < 64 \<and> z < 64 \<and> (x = 0 \<longrightarrow> 32 \<le> y) \<and> (x = 13 \<longrightarrow> y < 32)) \<or>
     (\<exists>x y z w. bs = [240 + x, 128 + y, 128 + z, 128 + w] \<and>
        m = 262144 * x + 4096 * y + 64 * z + w \<and>
        x \<le> 4 \<and> y < 64 \<and> z < 64 \<and> w < 64 \<and> (x = 0 \<longrightarrow> 16 \<le> y) \<and> (x = 4 \<longrightarrow> y < 16))"

text \<open>\<open>bs\<close> is what the encoder of the code allocates for the code point \<open>n\<close>.\<close>

definition utf8_encodes :: "u64 \<Rightarrow> bytes \<Rightarrow> bool" where
  "utf8_encodes n bs \<longleftrightarrow> ov_utf8_encode_code_point n (Some None) 0 True = (True, Some (Some bs), Some (length bs))"

subsection \<open>Bytes as numbers\<close>

lemma unat_tag_byte:
  fixes w c m :: u64
  assumes m: "unat m = 2 ^ j - 1" and c: "unat c = 2 ^ j * a" and bound: "unat c + 2 ^ j \<le> 256"
  shows "unat (ucast (c OR (m AND w)) :: u8) = unat c + unat w mod 2 ^ j"
proof -
  have "unat (c OR (m AND w)) = unat c + unat w mod 2 ^ j"
    by (simp add: unsigned_or_eq unsigned_and_eq m nat_mask_and c nat_or_shift)
  moreover have "unat w mod 2 ^ j < 2 ^ j" by simp
  with bound have "unat c + unat w mod 2 ^ j < 256" by (metis add_strict_left_mono less_le_trans)
  ultimately show ?thesis by (simp add: unsigned_ucast_eq take_bit_eq_mod)
qed

lemma unat_field:
  fixes m :: u32 and b :: u8
  assumes m: "m = push_bit k (mask j)" and "8 + k \<le> 32" and "j \<le> 8"
  shows "unat (push_bit k (ucast b) AND m) = 2 ^ k * (unat b mod 2 ^ j)"
proof -
  have bound: "unat b mod 2 ^ j * 2 ^ k < 2 ^ 32"
  proof -
    have "unat b mod 2 ^ j < 2 ^ 8"
      using unsigned_less [of b, where 'a = nat]
      by (auto intro: le_less_trans [OF mod_less_eq_dividend])
    then have "unat b mod 2 ^ j * 2 ^ k < 2 ^ 8 * 2 ^ k" by simp
    also have "\<dots> \<le> (2::nat) ^ 32"
      using assms(2) power_increasing [of "8 + k" 32 "2::nat"] by (simp only: power_add)
    finally show ?thesis .
  qed
  have "push_bit k (ucast b :: u32) AND m = push_bit k (take_bit j (ucast b))"
    by (simp add: m take_bit_eq_mask)
  moreover have "unat (ucast b :: u32) = unat b"
    using unsigned_less [of b, where 'a = nat] by (simp add: unsigned_ucast_eq take_bit_eq_mod)
  ultimately have "unat (push_bit k (ucast b) AND m) = take_bit 32 (push_bit k (take_bit j (unat b)))"
    by (simp only: unsigned_push_bit_eq unsigned_take_bit_eq) simp
  then show ?thesis
    using bound by (simp add: take_bit_eq_mod push_bit_eq_mult mult.commute)
qed

lemma unat_fields:
  fixes b :: u8
  shows "unat (push_bit 6 (ucast b :: u32) AND 0x7C0) = 64 * (unat b mod 32)"
    and "unat (ucast b AND 0x3F :: u32) = unat b mod 64"
    and "unat (push_bit 12 (ucast b :: u32) AND 0xF000) = 4096 * (unat b mod 16)"
    and "unat (push_bit 6 (ucast b :: u32) AND 0xFC0) = 64 * (unat b mod 64)"
    and "unat (push_bit 18 (ucast b :: u32) AND 0x1C0000) = 262144 * (unat b mod 8)"
    and "unat (push_bit 12 (ucast b :: u32) AND 0x3F000) = 4096 * (unat b mod 64)"
  using unat_field [of "0x7C0" 6 5 b] unat_field [of "0x3F" 0 6 b] unat_field [of "0xF000" 12 4 b]
    unat_field [of "0xFC0" 6 6 b] unat_field [of "0x1C0000" 18 3 b] unat_field [of "0x3F000" 12 6 b]
  by (simp_all add: mask_eq_exp_minus_1 push_bit_eq_mult)

lemma unat_tags:
  fixes w :: u64
  shows "unat (ucast (0xC0 OR (0x1F AND w)) :: u8) = 0xC0 + unat w mod 32"
    and "unat (ucast (0x80 OR (0x3F AND w)) :: u8) = 0x80 + unat w mod 64"
    and "unat (ucast (0xE0 OR (0x0F AND w)) :: u8) = 0xE0 + unat w mod 16"
    and "unat (ucast (0xF0 OR (0x07 AND w)) :: u8) = 0xF0 + unat w mod 8"
    and "unat (ucast (w AND 0x7F) :: u8) = unat w mod 128"
  using unat_tag_byte [of "0x1F" 5 "0xC0" 6 w] unat_tag_byte [of "0x3F" 6 "0x80" 2 w]
    unat_tag_byte [of "0x0F" 4 "0xE0" 14 w] unat_tag_byte [of "0x07" 3 "0xF0" 30 w]
    unat_tag_byte [of "0x7F" 7 0 0 w]
  by (simp_all add: and.commute)

lemma unat_shifts:
  fixes w :: u64
  shows "unat (drop_bit 6 w) = unat w div 64" "unat (drop_bit 12 w) = unat w div 4096"
    "unat (drop_bit 18 w) = unat w div 262144"
  by (simp_all only: unat_drop_bit_eq) (simp_all add: drop_bit_eq_div)


lemma unat_join2:
  fixes a b :: u8
  shows "unat ((push_bit 6 (ucast a :: u32) AND 0x07C0) OR (ucast b AND 0x3F)) =
    64 * (unat a mod 32) + unat b mod 64"
  using unat_join [of "push_bit 6 (ucast a :: u32) AND 0x07C0" 6 "unat a mod 32" "ucast b AND 0x3F"]
  by (simp add: unat_fields)

lemma unat_join_tail2:
  fixes b c :: u8
  shows "unat ((push_bit 6 (ucast b :: u32) AND 0x0FC0) OR (ucast c AND 0x3F)) =
    64 * (unat b mod 64) + unat c mod 64"
  using unat_join [of "push_bit 6 (ucast b :: u32) AND 0x0FC0" 6 "unat b mod 64" "ucast c AND 0x3F"]
  by (simp add: unat_fields)

lemma sixbit_sum: "64 * (x mod 64) + y mod 64 < (4096::nat)"
  using mod_less_divisor [of 64 x] mod_less_divisor [of 64 y] by linarith

lemma unat_join3:
  fixes a b c :: u8
  shows "unat ((push_bit 12 (ucast a :: u32) AND 0xF000) OR
      (push_bit 6 (ucast b) AND 0x0FC0) OR (ucast c AND 0x3F)) =
    4096 * (unat a mod 16) + 64 * (unat b mod 64) + unat c mod 64"
  using unat_join [of "push_bit 12 (ucast a :: u32) AND 0xF000" 12 "unat a mod 16"
      "(push_bit 6 (ucast b) AND 0x0FC0) OR (ucast c AND 0x3F)"]
    sixbit_sum [of "unat b" "unat c"]
  by (simp add: unat_fields unat_join_tail2)

lemma unat_join4:
  fixes a b c d :: u8
  shows "unat ((push_bit 18 (ucast a :: u32) AND 0x1C0000) OR
      (push_bit 12 (ucast b) AND 0x3F000) OR (push_bit 6 (ucast c) AND 0x0FC0) OR
      (ucast d AND 0x3F)) =
    262144 * (unat a mod 8) + 4096 * (unat b mod 64) + 64 * (unat c mod 64) + unat d mod 64"
proof -
  let ?y = "(push_bit 12 (ucast b :: u32) AND 0x3F000) OR (push_bit 6 (ucast c) AND 0x0FC0) OR
      (ucast d AND 0x3F)"
  have y: "unat ?y = 4096 * (unat b mod 64) + 64 * (unat c mod 64) + unat d mod 64"
    using unat_join [of "push_bit 12 (ucast b :: u32) AND 0x3F000" 12 "unat b mod 64"
        "(push_bit 6 (ucast c) AND 0x0FC0) OR (ucast d AND 0x3F)"]
      sixbit_sum [of "unat c" "unat d"]
    by (simp add: unat_fields unat_join_tail2)
  have "4096 * (unat b mod 64) + 64 * (unat c mod 64) + unat d mod 64 < 262144"
    using sixbit_sum [of "unat c" "unat d"] mod_less_divisor [of 64 "unat b"] by linarith
  then show ?thesis
    using unat_join [of "push_bit 18 (ucast a :: u32) AND 0x1C0000" 18 "unat a mod 8" ?y] y
    by (simp add: unat_fields)
qed

lemmas unat_decode = unat_u32_u64 unat_join2 unat_join3 unat_join4

lemma unat_ascii: "unat (ucast (x AND 0x7F) :: u64) = unat x mod 128" for x :: u8
proof -
  have "unat (x AND 0x7F) = unat x mod 128"
    using nat_mask_and [of 7 "unat x"] by (simp add: unsigned_and_eq and.commute)
  then show ?thesis
    using unsigned_less [of x, where 'a = nat] by (simp add: unsigned_ucast_eq take_bit_eq_mod)
qed

lemma unat_tail: "unat (drop_bit 6 b) = unat b div 64" for b :: u8
  by (simp only: unat_drop_bit_eq) (simp add: drop_bit_eq_div)

lemma sixbit_digits:
  fixes m :: nat
  obtains q0 q1 q2 q3 where
    "m = 262144 * q0 + 4096 * q1 + 64 * q2 + q3" "q1 < 64" "q2 < 64" "q3 < 64"
    "m mod 64 = q3" "m div 64 mod 64 = q2" "m div 64 = 4096 * q0 + 64 * q1 + q2"
    "m div 4096 mod 64 = q1" "m div 4096 = 64 * q0 + q1" "m div 262144 = q0"
proof
  have d: "m div 4096 = m div 64 div 64" "m div 262144 = m div 64 div 64 div 64"
    by (simp_all flip: div_mult2_eq)
  define a where "a = m div 64"
  define b where "b = a div 64"
  have "m = 64 * a + m mod 64" "a = 64 * b + a mod 64" "b = 64 * (b div 64) + b mod 64"
    by (simp_all add: a_def b_def)
  then have "m = 262144 * (b div 64) + 4096 * (b mod 64) + 64 * (a mod 64) + m mod 64"
    and a: "a = 4096 * (b div 64) + 64 * (b mod 64) + a mod 64"
    and b: "b = 64 * (b div 64) + b mod 64"
    by linarith+
  then show "m = 262144 * (m div 262144) + 4096 * (m div 4096 mod 64) + 64 * (m div 64 mod 64) + m mod 64"
    by (simp add: d a_def b_def)
  show "m div 64 = 4096 * (m div 262144) + 64 * (m div 4096 mod 64) + m div 64 mod 64"
    using a by (simp add: d a_def b_def)
  show "m div 4096 = 64 * (m div 262144) + m div 4096 mod 64"
    by (simp add: d)
qed simp_all

lemma tag_mods:
  fixes x :: nat
  shows "x < 64 \<Longrightarrow> (128 + x) mod 64 = x" "x < 64 \<Longrightarrow> (128 + x) div 64 = 2"
    "x < 32 \<Longrightarrow> (192 + x) mod 32 = x" "x < 16 \<Longrightarrow> (224 + x) mod 16 = x" "x < 8 \<Longrightarrow> (240 + x) mod 8 = x"
  using mod_mult_self3 [of 2 64 x] div_mult_self3 [of 64 2 x] mod_mult_self3 [of 6 32 x]
    mod_mult_self3 [of 14 16 x] mod_mult_self3 [of 30 8 x] by simp_all

subsection \<open>Encoder, decoder and validator against the reference\<close>

lemma encode_eq:
  "ov_utf8_encode_code_point n (Some a) open True =
    (if utf8_valid n then utf8_store a open (utf8_bytes n) else (False, Some a, Some 0))"
  by (auto simp: ov_utf8_encode_code_point_def utf8_valid_def utf8_bytes_def word_nats)


lemma utf8_seq_bytes:
  assumes "utf8_valid n"
  shows "utf8_seq (map unat (utf8_bytes n)) (unat n)"
proof -
  have v: "unat n \<le> 0x10FFFF" "\<not> (0xD800 \<le> unat n \<and> unat n \<le> 0xDFFF)"
    using assms(1) by (simp_all add: utf8_valid_def word_nats)
  obtain q0 q1 q2 q3 where q:
    "unat n = 262144 * q0 + 4096 * q1 + 64 * q2 + q3" "q1 < 64" "q2 < 64" "q3 < 64"
    "unat n mod 64 = q3" "unat n div 64 mod 64 = q2" "unat n div 64 = 4096 * q0 + 64 * q1 + q2"
    "unat n div 4096 mod 64 = q1" "unat n div 4096 = 64 * q0 + q1" "unat n div 262144 = q0"
    using sixbit_digits [of "unat n"] by metis
  note eval = utf8_bytes_def word_nats unat_tags unat_shifts
  consider "unat n \<le> 127" | "127 < unat n" "unat n \<le> 0x7FF" | "0x7FF < unat n" "unat n \<le> 0xFFFF"
    | "0xFFFF < unat n" by linarith
  then show ?thesis
  proof cases
    case 1
    then show ?thesis by (simp add: eval utf8_seq_def)
  next
    case 2
    with q have z: "q0 = 0" "q1 = 0" by linarith+
    with 2 q have "2 \<le> q2" "q2 < 32" by linarith+
    moreover have "map unat (utf8_bytes n) = [192 + q2, 128 + q3]"
      using 2 z q(5,7) \<open>q2 < 32\<close> by (simp add: eval)
    ultimately show ?thesis unfolding utf8_seq_def using q(1,4) z by auto
  next
    case 3
    with q have z: "q0 = 0" "q1 < 16" by linarith+
    with 3 q(1-4) v(2) have "q1 = 0 \<longrightarrow> 32 \<le> q2" "q1 = 13 \<longrightarrow> q2 < 32" by linarith+
    moreover have "map unat (utf8_bytes n) = [224 + q1, 128 + q2, 128 + q3]"
      using 3 z q(5,6,9) by (simp add: eval)
    ultimately show ?thesis unfolding utf8_seq_def using q(1-4) z by auto
  next
    case 4
    with q v have z: "q0 \<le> 4" by linarith
    with 4 q(1-4) v(1) have "q0 = 0 \<longrightarrow> 16 \<le> q1" "q0 = 4 \<longrightarrow> q1 < 16" by linarith+
    moreover have "map unat (utf8_bytes n) = [240 + q0, 128 + q1, 128 + q2, 128 + q3]"
      using 4 z q(5,6,8,10) by (simp add: eval)
    ultimately show ?thesis unfolding utf8_seq_def using q(1-4) z by auto
  qed
qed

lemma utf8_seq_cases [consumes 1, case_names one two three four]:
  assumes "utf8_seq bs m"
  obtains "bs = [m]" "m < 128"
  | x y where "bs = [192 + x, 128 + y]" "m = 64 * x + y" "2 \<le> x" "x < 32" "y < 64"
  | x y z where "bs = [224 + x, 128 + y, 128 + z]" "m = 4096 * x + 64 * y + z" "x < 16" "y < 64" "z < 64"
      "x = 0 \<longrightarrow> 32 \<le> y" "x = 13 \<longrightarrow> y < 32"
  | x y z w where "bs = [240 + x, 128 + y, 128 + z, 128 + w]" "m = 262144 * x + 4096 * y + 64 * z + w"
      "x \<le> 4" "y < 64" "z < 64" "w < 64" "x = 0 \<longrightarrow> 16 \<le> y" "x = 4 \<longrightarrow> y < 16"
  using assms unfolding utf8_seq_def by blast

lemma map_unat_eq_Cons [simp]: "map unat (bs :: bytes) = x # xs \<longleftrightarrow> (\<exists>b bs'. bs = b # bs' \<and> unat b = x \<and> map unat bs' = xs)"
  by (cases bs) auto


lemma decode_seq:
  assumes "utf8_seq (map unat bs) m" "length bs \<le> open"
  shows "unat (fst (ov_utf8_decode_code_point (Some (bs @ rest)) open True)) = m \<and> 
    snd (ov_utf8_decode_code_point (Some (bs @ rest)) open True) = Some (length bs)"
proof -
  note eval = ov_utf8_decode_code_point_def word_nats unat_decode unat_ascii unat_tail tag_mods
  from assms(1) show ?thesis
  proof (cases rule: utf8_seq_cases)
    case one
    then obtain a where "bs = [a]" "unat a = m" by auto
    with one assms(2) show ?thesis by (simp add: eval)
  next
    case (two x y)
    then obtain a b where "bs = [a, b]" "unat a = 192 + x" "unat b = 128 + y" by auto
    with two(2-) assms(2) show ?thesis by (simp add: eval)
  next
    case (three x y z)
    then obtain a b c where "bs = [a, b, c]" "unat a = 224 + x" "unat b = 128 + y" "unat c = 128 + z" by auto
    with three(2-) assms(2) show ?thesis by (simp add: eval) auto
  next
    case (four x y z w)
    then obtain a b c d where "bs = [a, b, c, d]" "unat a = 240 + x" "unat b = 128 + y" "unat c = 128 + z"
      "unat d = 128 + w" by auto
    with four(2-) assms(2) show ?thesis by (simp add: eval) auto
  qed
qed

lemma accept_eq_decode:
  assumes "p \<le> length buf" "0 < open"
  shows "utf8_accept buf p open =
    (case snd (ov_utf8_decode_code_point (Some (drop p buf)) open True) of
       None \<Rightarrow> None | Some k \<Rightarrow> if k = 0 then None else Some k)"
  using assms by (simp add: utf8_accept_def ov_utf8_decode_code_point_def if_distrib [of snd]
     if_distrib [of "case_option _ _"] cong: if_cong)


lemma tail_addE: assumes "unat (drop_bit 6 (b::u8)) = 2" obtains y where "unat b = 128 + y" "y < 64"
proof -
  from assms have "128 \<le> unat b" "unat b < 192" by (simp_all add: unat_tail)
  then show ?thesis using that by (auto elim!: le_addE)
qed

lemma take_nths:
  "1 \<le> length p \<Longrightarrow> take (Suc 0) p = [p ! 0]"
  "2 \<le> length p \<Longrightarrow> take 2 p = [p ! 0, p ! 1]"
  "3 \<le> length p \<Longrightarrow> take 3 p = [p ! 0, p ! 1, p ! 2]"
  "4 \<le> length p \<Longrightarrow> take 4 p = [p ! 0, p ! 1, p ! 2, p ! 3]"
  by (simp_all add: list_eq_iff_nth_eq less_Suc_eq numeral_eq_Suc)

lemma decode_is_seq:
  assumes d: "ov_utf8_decode_code_point (Some p) open True = (n, Some k)" and "0 < k" "open \<le> length p"
  shows "k \<le> open \<and> utf8_seq (map unat (take k p)) (unat n)"
proof -
  note d' = d [unfolded ov_utf8_decode_code_point_def word_nats, simplified]
  consider "unat (p ! 0) \<le> 127" | "194 \<le> unat (p ! 0)" "unat (p ! 0) \<le> 223"
    | "224 \<le> unat (p ! 0)" "unat (p ! 0) < 240" | "240 \<le> unat (p ! 0)" "unat (p ! 0) \<le> 244"
    | "127 < unat (p ! 0)" "unat (p ! 0) < 194" | "244 < unat (p ! 0)" by linarith
  then show ?thesis
  proof cases
    case 1
    with d' assms have "k = 1" "n = ucast (p ! 0 AND 127)" "1 \<le> open" by (auto split: if_splits)
    with 1 assms show ?thesis
      using take_nths(1) [of p] by (simp add: utf8_seq_def unat_ascii)
  next
    case 2
    with d' assms have "2 \<le> open" and t: "unat (drop_bit 6 (p ! 1)) = 2" "k = 2"
      and n: "unat n = 64 * (unat (p ! 0) mod 32) + unat (p ! 1) mod 64"
      by (auto split: if_splits simp: unat_decode)
    moreover obtain y where "unat (p ! 1) = 128 + y" "y < 64" using t by (auto elim: tail_addE)
    moreover obtain x where "unat (p ! 0) = 192 + x" by (rule le_addE [of 192 "unat (p ! 0)"]) (use 2 in auto)
    ultimately show ?thesis
      using 2 assms(3) by (auto simp: utf8_seq_def take_nths tag_mods)
  next
    case 3
    with d' assms have "3 \<le> open" and t: "unat (drop_bit 6 (p ! 1)) = 2" "unat (drop_bit 6 (p ! 2)) = 2" "k = 3"
      and n: "unat n = 4096 * (unat (p ! 0) mod 16) + 64 * (unat (p ! 1) mod 64) + unat (p ! 2) mod 64"
      and r: "unat (p ! 0) = 224 \<longrightarrow> 160 \<le> unat (p ! 1)" "unat (p ! 0) = 237 \<longrightarrow> unat (p ! 1) < 160"
      by (auto split: if_splits simp: unat_decode)
    moreover obtain y where "unat (p ! 1) = 128 + y" "y < 64" using t by (auto elim: tail_addE)
    moreover obtain z where "unat (p ! 2) = 128 + z" "z < 64" using t by (auto elim: tail_addE)
    moreover obtain x where "unat (p ! 0) = 224 + x" by (rule le_addE [of 224 "unat (p ! 0)"]) (use 3 in auto)
    ultimately show ?thesis
      using 3 assms(3) by (auto simp: utf8_seq_def take_nths tag_mods)
  next
    case 4
    with d' assms have "4 \<le> open" and t: "unat (drop_bit 6 (p ! 1)) = 2" "unat (drop_bit 6 (p ! 2)) = 2"
        "unat (drop_bit 6 (p ! 3)) = 2" "k = 4"
      and n: "unat n = 262144 * (unat (p ! 0) mod 8) + 4096 * (unat (p ! 1) mod 64) +
        64 * (unat (p ! 2) mod 64) + unat (p ! 3) mod 64"
      and r: "unat (p ! 0) = 240 \<longrightarrow> 144 \<le> unat (p ! 1)" "unat (p ! 0) = 244 \<longrightarrow> unat (p ! 1) < 144"
      by (auto split: if_splits simp: unat_decode)
    moreover obtain y where "unat (p ! 1) = 128 + y" "y < 64" using t by (auto elim: tail_addE)
    moreover obtain z where "unat (p ! 2) = 128 + z" "z < 64" using t by (auto elim: tail_addE)
    moreover obtain w where "unat (p ! 3) = 128 + w" "w < 64" using t by (auto elim: tail_addE)
    moreover obtain x where "unat (p ! 0) = 240 + x" by (rule le_addE [of 240 "unat (p ! 0)"]) (use 4 in auto)
    ultimately show ?thesis
      using 4 assms(3) by (auto simp: utf8_seq_def take_nths tag_mods)
  next
    case 5 with d' assms show ?thesis by (auto split: if_splits)
  next
    case 6 with d' assms show ?thesis by (auto split: if_splits)
  qed
qed

lemma digit_sums:
  fixes x y z w :: nat
  assumes "y < 64" "z < 64" "w < 64"
  shows "(64 * x + y) div 64 = x" "(64 * x + y) mod 64 = y"
    "(4096 * x + 64 * y + z) div 4096 = x" "(4096 * x + 64 * y + z) div 64 = 64 * x + y"
    "(4096 * x + 64 * y + z) mod 64 = z"
    "(262144 * x + 4096 * y + 64 * z + w) div 262144 = x"
    "(262144 * x + 4096 * y + 64 * z + w) div 4096 = 64 * x + y"
    "(262144 * x + 4096 * y + 64 * z + w) div 64 = 64 * (64 * x + y) + z"
    "(262144 * x + 4096 * y + 64 * z + w) mod 64 = w"
proof -
  show *: "(64 * x + y) div 64 = x" "(64 * x + y) mod 64 = y" for x
    using assms by simp_all
  have mod: "(64 * a + v) mod 64 = v" if "v < 64" for a v :: nat using that by simp
  show "(4096 * x + 64 * y + z) mod 64 = z" "(262144 * x + 4096 * y + 64 * z + w) mod 64 = w"
    using assms mod [of z "64 * x + y"] mod [of w "4096 * x + 64 * y + z"] by (simp_all add: algebra_simps)
qed (use assms in \<open>auto intro!: div_nat_eqI\<close>)

lemma utf8_seq_det:
  assumes "utf8_seq bs m"
  shows "bs =
    (if m < 128 then [m]
     else if m < 2048 then [192 + m div 64, 128 + m mod 64]
     else if m < 65536 then [224 + m div 4096, 128 + m div 64 mod 64, 128 + m mod 64]
     else [240 + m div 262144, 128 + m div 4096 mod 64, 128 + m div 64 mod 64, 128 + m mod 64])"
  using assms
proof (cases rule: utf8_seq_cases)
  case (two x y)
  then show ?thesis by (simp add: digit_sums)
next
  case (three x y z)
  then show ?thesis by (simp add: digit_sums) linarith
next
  case (four x y z w)
  then show ?thesis by (simp add: digit_sums) linarith
qed simp

lemma utf8_seq_valid:
  assumes "utf8_seq bs (unat n)"
  shows "utf8_valid n"
  using assms
proof (cases rule: utf8_seq_cases)
  case (three x y z)
  consider "x \<le> 12" | "x = 13" | "14 \<le> x" by linarith
  then show ?thesis using three by cases (auto simp: utf8_valid_def word_nats)
qed (auto simp: utf8_valid_def word_nats)

lemma utf8_seq_bytes_iff: "utf8_seq (map unat bs) (unat n) \<longleftrightarrow> utf8_valid n \<and> bs = utf8_bytes n"
proof
  assume s: "utf8_seq (map unat bs) (unat n)"
  then have v: "utf8_valid n" by (rule utf8_seq_valid)
  have "map unat bs = map unat (utf8_bytes n)"
    using utf8_seq_det [OF s] utf8_seq_det [OF utf8_seq_bytes [OF v]] by (simp only:)
  with v show "utf8_valid n \<and> bs = utf8_bytes n"
    by (auto dest: map_unat_inj)
qed (auto intro: utf8_seq_bytes)

lemma decode_utf8_bytes:
  assumes "utf8_valid n" "length (utf8_bytes n) \<le> open"
  shows "ov_utf8_decode_code_point (Some (utf8_bytes n @ rest)) open True = (n, Some (length (utf8_bytes n)))"
  using decode_seq [OF utf8_seq_bytes [OF assms(1)] assms(2), of rest]
  by (simp add: prod_eq_iff word_unat_eq_iff)

lemma decode_canonical:
  assumes "ov_utf8_decode_code_point (Some p) open True = (n, Some k)" "0 < k" "open \<le> length p"
  shows "k \<le> open \<and> utf8_valid n \<and> take k p = utf8_bytes n"
  using decode_is_seq [OF assms] by (simp add: utf8_seq_bytes_iff)

lemma accept_iff:
  assumes "p \<le> length buf" "0 < open" "open \<le> length buf - p"
  shows "utf8_accept buf p open = Some k \<longleftrightarrow>
    (\<exists>n. utf8_valid n \<and> k = length (utf8_bytes n) \<and> k \<le> open \<and> take k (drop p buf) = utf8_bytes n)"
proof
  assume "utf8_accept buf p open = Some k"
  then obtain n where "ov_utf8_decode_code_point (Some (drop p buf)) open True = (n, Some k)" "0 < k"
    using assms by (cases "ov_utf8_decode_code_point (Some (drop p buf)) open True")
      (auto simp: accept_eq_decode split: option.splits if_splits)
  from decode_canonical [OF this] assms(3) have "k \<le> open" "utf8_valid n" "take k (drop p buf) = utf8_bytes n" by auto
  moreover from this assms(3) have "k = length (utf8_bytes n)" by (metis length_take length_drop min.absorb2 le_trans)
  ultimately show "\<exists>n. utf8_valid n \<and> k = length (utf8_bytes n) \<and> k \<le> open \<and> take k (drop p buf) = utf8_bytes n"
    by blast
next
  assume "\<exists>n. utf8_valid n \<and> k = length (utf8_bytes n) \<and> k \<le> open \<and> take k (drop p buf) = utf8_bytes n"
  then obtain n where n: "utf8_valid n" "k = length (utf8_bytes n)" "k \<le> open" "take k (drop p buf) = utf8_bytes n" by blast
  have "drop p buf = utf8_bytes n @ drop k (drop p buf)"
    using n(4) by (metis append_take_drop_id)
  then have "ov_utf8_decode_code_point (Some (drop p buf)) open True = (n, Some k)"
    using decode_utf8_bytes [OF n(1), where rest = "drop k (drop p buf)"] n(2,3) by simp
  moreover have "0 < k" using n(2) by (simp add: utf8_bytes_def)
  ultimately show "utf8_accept buf p open = Some k"
    using assms by (simp add: accept_eq_decode)
qed

lemma utf8_bytes_nonempty [simp]: "utf8_bytes n \<noteq> []" "0 < length (utf8_bytes n)"
  by (simp_all add: utf8_bytes_def)

lemma utf8_scan_sound:
  assumes "p + open \<le> length buf" "utf8_scan buf p c open = (p', c')"
  shows "\<exists>ns. list_all utf8_valid ns \<and> p' = p + length (concat (map utf8_bytes ns)) \<and> p' \<le> p + open \<and>
    take (p' - p) (drop p buf) = concat (map utf8_bytes ns) \<and>
    c' = (if ns = [] then c else Some (p' - length (utf8_bytes (last ns)))) \<and>
    (p' < p + open \<longrightarrow> utf8_accept buf p' (p + open - p') = None)"
  using assms
proof (induction buf p c "open" rule: utf8_scan.induct)
  case (1 buf p c "open")
  show ?case
  proof (cases "open > 0 \<and> utf8_accept buf p open \<noteq> None")
    case False
    with "1.prems" have "p' = p" "c' = c" "open > 0 \<longrightarrow> utf8_accept buf p open = None"
      by (auto simp: utf8_scan.simps [of buf p c "open"] split: if_splits option.splits)
    then show ?thesis by (intro exI [of _ "[]"]) auto
  next
    case True
    then obtain k where k: "open > 0" "utf8_accept buf p open = Some k" by auto
    from k(1) "1.prems"(1) have *: "p \<le> length buf" "0 < open" "open \<le> length buf - p" by auto
    from k(2) obtain n where n: "utf8_valid n" "k = length (utf8_bytes n)" "k \<le> open"
      "take k (drop p buf) = utf8_bytes n" by (auto simp: accept_iff [OF *])
    from "1.prems" k have "utf8_scan buf (p + k) (Some p) (open - k) = (p', c')"
      by (simp add: utf8_scan.simps [of buf p c "open"])
    from "1.IH" [OF k _ this] "1.prems"(1) n(3) obtain ns where ns: "list_all utf8_valid ns"
      "p' = p + k + length (concat (map utf8_bytes ns))" "p' \<le> p + open"
      "take (p' - (p + k)) (drop (p + k) buf) = concat (map utf8_bytes ns)"
      "c' = (if ns = [] then Some p else Some (p' - length (utf8_bytes (last ns))))"
      "p' < p + open \<longrightarrow> utf8_accept buf p' (p + open - p') = None"
      by auto
    have "take (p' - p) (drop p buf) = take k (drop p buf) @ take (p' - (p + k)) (drop (p + k) buf)"
      using ns(2) take_add [of k "p' - (p + k)" "drop p buf"] by (simp add: add.commute)
    with n ns show ?thesis by (intro exI [of _ "n # ns"]) auto
  qed
qed

lemma utf8_scan_complete:
  assumes "list_all utf8_valid ns" "open = length (concat (map utf8_bytes ns))"
    "take open (drop p buf) = concat (map utf8_bytes ns)" "p + open \<le> length buf"
  shows "fst (utf8_scan buf p c open) = p + open"
  using assms
proof (induction ns arbitrary: p c "open")
  case Nil
  then show ?case by (simp add: utf8_scan.simps)
next
  case (Cons n ns)
  let ?k = "length (utf8_bytes n)" and ?r = "length (concat (map utf8_bytes ns))"
  have o: "open = ?k + ?r" using Cons.prems(2) by simp
  have split: "take ?k (drop p buf) @ take ?r (drop (p + ?k) buf) = utf8_bytes n @ concat (map utf8_bytes ns)"
    using Cons.prems(3) o take_add [of ?k ?r "drop p buf"] by (simp add: add.commute)
  moreover have "length (take ?k (drop p buf)) = ?k" using Cons.prems(4) o by simp
  ultimately have t: "take ?k (drop p buf) = utf8_bytes n"
    "take ?r (drop (p + ?k) buf) = concat (map utf8_bytes ns)" by auto
  have "utf8_accept buf p open = Some ?k"
    using Cons.prems t(1) o by (subst accept_iff) auto
  moreover have "fst (utf8_scan buf (p + ?k) (Some p) ?r) = p + ?k + ?r"
    using Cons.prems t(2) o by (intro Cons.IH) auto
  ultimately show ?case
    using o by (subst utf8_scan.simps) (simp add: o)
qed


lemma utf8_scan_all_iff:
  "fst (utf8_scan bs 0 None (length bs)) = length bs \<longleftrightarrow>
    (\<exists>ns. list_all utf8_valid ns \<and> bs = concat (map utf8_bytes ns))"
proof
  obtain p' c' where scan: "utf8_scan bs 0 None (length bs) = (p', c')" by force
  assume "fst (utf8_scan bs 0 None (length bs)) = length bs"
  with utf8_scan_sound [OF _ scan] scan show "\<exists>ns. list_all utf8_valid ns \<and> bs = concat (map utf8_bytes ns)"
    by auto
next
  assume "\<exists>ns. list_all utf8_valid ns \<and> bs = concat (map utf8_bytes ns)"
  then show "fst (utf8_scan bs 0 None (length bs)) = length bs"
    using utf8_scan_complete [of _ "length bs" 0 bs None] by auto
qed

lemma validate_iff_scan:
  "ov_utf8_validate_sequence (Some bs) len \<longleftrightarrow> 0 < len \<and> fst (utf8_scan bs 0 None len) = len"
  by (auto simp: ov_utf8_validate_sequence_def ov_utf8_last_valid_def split: prod.splits)

lemma utf8_scan_prefix:
  assumes "p + open \<le> length xs"
  shows "utf8_scan (xs @ ys) p c open = utf8_scan xs p c open"
  using assms
proof (induction xs p c "open" rule: utf8_scan.induct)
  case (1 xs p c "open")
  show ?case
  proof (cases "0 < open")
    case True
    have *: "utf8_accept (xs @ ys) p open = utf8_accept xs p open"
      using "1.prems" True by (simp add: utf8_accept_def nth_append cong: if_cong)
    show ?thesis
    proof (cases "utf8_accept xs p open")
      case None
      with True * show ?thesis by (simp add: utf8_scan.simps [of _ p c "open"])
    next
      case (Some k)
      with utf8_accept_bounds [OF this True] "1.prems" "1.IH" [OF True Some] True *
      show ?thesis by (simp add: utf8_scan.simps [of _ p c "open"])
    qed
  qed (simp add: utf8_scan.simps)
qed

lemma utf8_encodes_iff: "utf8_encodes n bs \<longleftrightarrow> utf8_valid n \<and> bs = utf8_bytes n"
  by (auto simp: utf8_encodes_def encode_eq utf8_store_def write_at_def)

lemma list_all2_encodes: "list_all2 utf8_encodes ns bss \<longleftrightarrow> list_all utf8_valid ns \<and> bss = map utf8_bytes ns"
  by (induction ns arbitrary: bss) (auto simp: list_all2_Cons1 utf8_encodes_iff)

lemma encode_success:
  assumes "utf8_valid n" "\<forall>a. array = Some a \<longrightarrow> 4 \<le> open"
  shows "\<exists>rest. ov_utf8_encode_code_point n (Some array) open True =
    (True, Some (Some (utf8_bytes n @ rest)), Some (length (utf8_bytes n)))"
proof -
  have "length (utf8_bytes n) \<le> 4" by (simp add: utf8_bytes_def)
  with assms show ?thesis
    by (auto simp: encode_eq utf8_store_def write_at_0 split: option.splits)
qed

subsection \<open>Properties\<close>

text \<open>
  C34: Encoding and decoding of a code point. With room for four bytes, or asked to
  allocate, the encoder succeeds for exactly the Unicode scalar values; decoding what it
  wrote returns the code point and the number of bytes the encoder reported. For every
  other number it fails, leaves the array as it was and reports 0 bytes.
\<close>

theorem utf8_roundtrip:
  assumes "\<forall>a. array = Some a \<longrightarrow> 4 \<le> open"
  shows "if utf8_valid n
    then \<exists>out k. ov_utf8_encode_code_point n (Some array) open True = (True, Some (Some out), Some k) \<and>
           k \<le> length out \<and> ov_utf8_decode_code_point (Some out) (length out) True = (n, Some k)
    else ov_utf8_encode_code_point n (Some array) open True = (False, Some array, Some 0)"
proof (cases "utf8_valid n")
  case True
  from encode_success [OF this assms] obtain rest where
    "ov_utf8_encode_code_point n (Some array) open True =
      (True, Some (Some (utf8_bytes n @ rest)), Some (length (utf8_bytes n)))" ..
  with True show ?thesis by (auto simp: decode_utf8_bytes)
qed (simp add: encode_eq)

theorem utf8_roundtrip_witness:
  "\<exists>out k. ov_utf8_encode_code_point 0x20AC (Some (Some [0, 0, 0, 0, 0])) 5 True = (True, Some (Some out), Some k) \<and>
     k \<le> length out \<and> ov_utf8_decode_code_point (Some out) (length out) True = (0x20AC, Some k)"
  using utf8_roundtrip [of "Some [0, 0, 0, 0, 0]" 5 "0x20AC"] by (simp add: utf8_valid_def)

text \<open>
  The decoder accepts only canonical encodings: whenever it reports a
  positive length, the bytes it consumed are what the encoder writes for the returned code
  point. Overlong forms, surrogates and numbers beyond 0x10FFFF are never decoded.
\<close>

theorem utf8_decode_canonical:
  assumes "ov_utf8_decode_code_point (Some p) open True = (n, Some k)" "0 < k" "open \<le> length p"
  shows "utf8_encodes n (take k p)"
  using decode_canonical [OF assms] by (simp add: utf8_encodes_iff)

theorem utf8_decode_canonical_witness:
  "ov_utf8_decode_code_point (Some [0xC3, 0xA9, 0x41]) 3 True = (0xE9, Some 2) \<and>
   utf8_encodes 0xE9 [0xC3, 0xA9]"
proof
  show *: "ov_utf8_decode_code_point (Some [0xC3, 0xA9, 0x41]) 3 True = (0xE9, Some 2)" by code_simp
  show "utf8_encodes 0xE9 [0xC3, 0xA9]" using utf8_decode_canonical [OF *] by (simp add: numeral_2_eq_2)
qed

text \<open>
  C35: A buffer is accepted by the validator if and only if it is non-empty and the
  concatenation of encodings of code points.
\<close>

theorem utf8_validate_iff:
  "ov_utf8_validate_sequence (Some bs) (length bs) \<longleftrightarrow>
    bs \<noteq> [] \<and> (\<exists>ns bss. list_all2 utf8_encodes ns bss \<and> bs = concat bss)"
  by (auto simp: validate_iff_scan utf8_scan_all_iff list_all2_encodes)

text \<open>
  The end pointer of the last valid byte: everything before it is a
  sequence of encoded code points, and it is maximal, since no code point that fits into the
  rest of the buffer is encoded at that position.
\<close>

theorem utf8_last_valid_maximal:
  assumes "len \<le> length buf" "ov_utf8_last_valid (Some buf) len False = Some q"
  shows "q \<le> len \<and> (\<exists>ns bss. list_all2 utf8_encodes ns bss \<and> take q buf = concat bss) \<and>
    (q < len \<longrightarrow> (\<forall>n k. utf8_encodes n (take k (drop q buf)) \<longrightarrow> len < q + k))"
proof -
  obtain c where scan: "utf8_scan buf 0 None len = (q, c)"
    using assms(2) by (auto simp: ov_utf8_last_valid_def split: prod.splits)
  from utf8_scan_sound [OF _ scan] assms(1) obtain ns where ns: "list_all utf8_valid ns"
    "q \<le> len" "take q buf = concat (map utf8_bytes ns)" "q < len \<longrightarrow> utf8_accept buf q (len - q) = None"
    by auto
  have "len < q + k" if "q < len" "utf8_encodes n (take k (drop q buf))" for n k
  proof (rule ccontr)
    assume "\<not> len < q + k"
    with that assms(1) have k: "k \<le> len - q" and l: "length (take k (drop q buf)) = k" by auto
    from that(2) have n: "utf8_valid n" "take k (drop q buf) = utf8_bytes n"
      by (simp_all add: utf8_encodes_iff)
    with k l that(1) assms(1) have "utf8_accept buf q (len - q) = Some k"
      by (subst accept_iff) auto
    with ns(4) that(1) show False by simp
  qed
  with ns show ?thesis by (auto simp: list_all2_encodes)
qed

theorem utf8_last_valid_maximal_witness:
  "ov_utf8_last_valid (Some [0x41, 0xC3, 0xA9, 0xE2, 0x82]) 5 False = Some 3 \<and>
   (\<exists>ns bss. list_all2 utf8_encodes ns bss \<and> [0x41, 0xC3, 0xA9] = concat bss)"
proof
  show *: "ov_utf8_last_valid (Some [0x41, 0xC3, 0xA9, 0xE2, 0x82]) 5 False = Some 3" by code_simp
  show "\<exists>ns bss. list_all2 utf8_encodes ns bss \<and> [0x41, 0xC3, 0xA9] = concat bss"
    using utf8_last_valid_maximal [OF _ *] by (simp add: numeral_3_eq_3)
qed

end
