(* ===== verification/Ov_Base64.thy ===== *)
theory Ov_Base64
  imports Ov_Prelude
begin

text \<open>
  The Base64 codec of \<open>ov_base/src/encodings/ov_base64.c\<close>, for the standard and the URL
  alphabet. The encoder and decoder keep the index arithmetic and the stores of the C code:
  \<open>result\<close> is the destination memory, every store is a list update. \<open>dest\<close> is the pointer to the
  caller's buffer pointer (\<open>None\<close>: NULL, \<open>Some None\<close>: points to NULL, so the function
  allocates), \<open>dest_length\<close> the pointer to its size. A result is the return value, the buffer
  pointer and the stored length.
\<close>

definition base64Alphabet :: bytes where
  "base64Alphabet =
    [0x41, 0x42, 0x43, 0x44, 0x45, 0x46, 0x47, 0x48, 0x49, 0x4A, 0x4B,
     0x4C, 0x4D, 0x4E, 0x4F, 0x50, 0x51, 0x52, 0x53, 0x54, 0x55, 0x56,
     0x57, 0x58, 0x59, 0x5A, 0x61, 0x62, 0x63, 0x64, 0x65, 0x66, 0x67,
     0x68, 0x69, 0x6A, 0x6B, 0x6C, 0x6D, 0x6E, 0x6F, 0x70, 0x71, 0x72,
     0x73, 0x74, 0x75, 0x76, 0x77, 0x78, 0x79, 0x7A, 0x30, 0x31, 0x32,
     0x33, 0x34, 0x35, 0x36, 0x37, 0x38, 0x39, 0x2B, 0x2F]"

definition base64urlAlphabet :: bytes where
  "base64urlAlphabet =
    [0x41, 0x42, 0x43, 0x44, 0x45, 0x46, 0x47, 0x48, 0x49, 0x4A, 0x4B,
     0x4C, 0x4D, 0x4E, 0x4F, 0x50, 0x51, 0x52, 0x53, 0x54, 0x55, 0x56,
     0x57, 0x58, 0x59, 0x5A, 0x61, 0x62, 0x63, 0x64, 0x65, 0x66, 0x67,
     0x68, 0x69, 0x6A, 0x6B, 0x6C, 0x6D, 0x6E, 0x6F, 0x70, 0x71, 0x72,
     0x73, 0x74, 0x75, 0x76, 0x77, 0x78, 0x79, 0x7A, 0x30, 0x31, 0x32,
     0x33, 0x34, 0x35, 0x36, 0x37, 0x38, 0x39, 0x2D, 0x5F]"

definition padding :: u8 where
  "padding = 0x3D"

text \<open>
  \<open>ov_base64_alphabetPosition\<close>: the loop over the 64 entries; \<open>-1\<close> for the byte 0 and for
  a byte that is not found. The alphabet is one of the two static tables, never NULL.
\<close>

function alphabet_scan :: "u8 \<Rightarrow> bytes \<Rightarrow> nat \<Rightarrow> int" where
  "alphabet_scan byte alphabet i =
    (if i < 64 then
       (if alphabet ! i = byte then int i else alphabet_scan byte alphabet (i + 1))
     else -1)"
  by pat_completeness auto
termination
  by (relation "measure (\<lambda>(byte, alphabet, i). 64 - i)") auto

declare alphabet_scan.simps [simp del]

definition ov_base64_alphabetPosition :: "u8 \<Rightarrow> bytes \<Rightarrow> int" where
  "ov_base64_alphabetPosition byte alphabet = (if byte = 0 then -1 else alphabet_scan byte alphabet 0)"

subsection \<open>Encoding\<close>

text \<open>The four sextets of three input bytes; operands are promoted to \<open>int\<close>.\<close>

definition sextet0 :: "u8 \<Rightarrow> nat" where
  "sextet0 a = unat (0x3F AND drop_bit 2 (ucast a :: u32))"

definition sextet1 :: "u8 \<Rightarrow> u8 \<Rightarrow> nat" where
  "sextet1 a b = unat (0x3F AND (push_bit 4 (ucast a :: u32) OR drop_bit 4 (ucast b)))"

definition sextet2 :: "u8 \<Rightarrow> u8 \<Rightarrow> nat" where
  "sextet2 b c = unat (0x3F AND (push_bit 2 (ucast b :: u32) OR drop_bit 6 (ucast c)))"

definition sextet3 :: "u8 \<Rightarrow> nat" where
  "sextet3 c = unat (0x3F AND (ucast c :: u32))"

text \<open>The last sextet of a group that is filled with padding.\<close>

definition sextet2_fill :: "u8 \<Rightarrow> nat" where
  "sextet2_fill b = unat (0x3C AND push_bit 2 (ucast b :: u32))"

definition sextet1_fill :: "u8 \<Rightarrow> nat" where
  "sextet1_fill a = unat (0x3F AND push_bit 4 (ucast a :: u32))"

definition encode_group :: "bytes \<Rightarrow> bytes \<Rightarrow> nat \<Rightarrow> nat \<Rightarrow> bytes \<Rightarrow> bytes" where
  "encode_group alphabet source i k result = result
    [k := alphabet ! sextet0 (source ! i),
     k + 1 := alphabet ! sextet1 (source ! i) (source ! (i + 1)),
     k + 2 := alphabet ! sextet2 (source ! (i + 1)) (source ! (i + 2)),
     k + 3 := alphabet ! sextet3 (source ! (i + 2))]"

text \<open>The \<open>while (i + 3 < source_length)\<close> loop.\<close>

function encode_loop :: "bytes \<Rightarrow> bytes \<Rightarrow> nat \<Rightarrow> nat \<Rightarrow> nat \<Rightarrow> bytes \<Rightarrow> nat \<times> nat \<times> bytes" where
  "encode_loop alphabet source source_length i k result =
    (if i + 3 < source_length
     then encode_loop alphabet source source_length (i + 3) (k + 4)
            (encode_group alphabet source i k result)
     else (i, k, result))"
  by pat_completeness auto
termination
  by (relation "measure (\<lambda>(alphabet, source, source_length, i, k, result). source_length - i)") auto

declare encode_loop.simps [simp del]

text \<open>The final \<open>switch (fillbits)\<close>.\<close>

definition encode_tail :: "bytes \<Rightarrow> bytes \<Rightarrow> nat \<Rightarrow> nat \<Rightarrow> nat \<Rightarrow> bytes \<Rightarrow> bytes" where
  "encode_tail alphabet source fillbits i k result =
    (if fillbits = 0 then encode_group alphabet source i k result
     else if fillbits = 1 then result
       [k := alphabet ! sextet0 (source ! i),
        k + 1 := alphabet ! sextet1 (source ! i) (source ! (i + 1)),
        k + 2 := alphabet ! sextet2_fill (source ! (i + 1)),
        k + 3 := padding]
     else if fillbits = 2 then result
       [k := alphabet ! sextet0 (source ! i),
        k + 1 := alphabet ! sextet1_fill (source ! i),
        k + 2 := padding,
        k + 3 := padding]
     else result)"

definition ov_base64_encode_with_alphabet ::
  "bytes option \<Rightarrow> nat \<Rightarrow> bytes option option \<Rightarrow> nat option \<Rightarrow> bytes \<Rightarrow>
   bool \<times> bytes option option \<times> nat option" where
  "ov_base64_encode_with_alphabet source source_length dest dest_length alphabet =
    (case (source, dest, dest_length) of
       (Some src, Some buf, Some dlen) \<Rightarrow>
         if source_length < 1 then (False, dest, dest_length)
         else
           let fillbits = (if source_length mod 3 > 0 then 3 - source_length mod 3 else 0);
               len = source_length div 3 * 4 + (if source_length mod 3 > 0 then 4 else 0)
           in (case buf of
                 Some b \<Rightarrow>
                   if dlen < len then (False, dest, dest_length)
                   else let (i, k, result) = encode_loop alphabet src source_length 0 0 b
                        in (True, Some (Some (encode_tail alphabet src fillbits i k result)), Some len)
               | None \<Rightarrow>
                   let (i, k, result) = encode_loop alphabet src source_length 0 0 (replicate (len + 1) 0)
                   in (True, Some (Some (encode_tail alphabet src fillbits i k result)), Some len))
     | _ \<Rightarrow> (False, dest, dest_length))"

definition ov_base64_encode ::
  "bytes option \<Rightarrow> nat \<Rightarrow> bytes option option \<Rightarrow> nat option \<Rightarrow> bool \<times> bytes option option \<times> nat option" where
  "ov_base64_encode buffer len result result_length =
    ov_base64_encode_with_alphabet buffer len result result_length base64Alphabet"

definition ov_base64_url_encode ::
  "bytes option \<Rightarrow> nat \<Rightarrow> bytes option option \<Rightarrow> nat option \<Rightarrow> bool \<times> bytes option option \<times> nat option" where
  "ov_base64_url_encode buffer len result result_length =
    ov_base64_encode_with_alphabet buffer len result result_length base64urlAlphabet"

subsection \<open>Decoding\<close>

text \<open>
  Stores of the decoder: the positions are \<open>int\<close>s, the stored value is truncated to a byte.
\<close>

definition octet0 :: "int \<Rightarrow> int \<Rightarrow> u8" where
  "octet0 p q = ucast (push_bit 2 (word_of_int p :: u32) OR drop_bit 4 (word_of_int q))"

definition octet1 :: "int \<Rightarrow> int \<Rightarrow> u8" where
  "octet1 p q = ucast (push_bit 4 (word_of_int p :: u32) OR drop_bit 2 (word_of_int q))"

definition octet2 :: "int \<Rightarrow> int \<Rightarrow> u8" where
  "octet2 p q = ucast (push_bit 6 (word_of_int p :: u32) OR word_of_int q)"

text \<open>
  One group of four characters; \<open>None\<close> is \<open>goto error\<close>. Positions are looked up in order, the
  stores follow.
\<close>

definition decode_group :: "bytes \<Rightarrow> bytes \<Rightarrow> nat \<Rightarrow> nat \<Rightarrow> bytes \<Rightarrow> bytes option" where
  "decode_group alphabet source k i result =
    (let pos0 = ov_base64_alphabetPosition (source ! k) alphabet;
         pos1 = ov_base64_alphabetPosition (source ! (k + 1)) alphabet;
         pos2 = ov_base64_alphabetPosition (source ! (k + 2)) alphabet;
         pos3 = ov_base64_alphabetPosition (source ! (k + 3)) alphabet
     in if pos0 < 0 then None else if pos1 < 0 then None
        else if pos2 < 0 then None else if pos3 < 0 then None
        else Some (result[i := octet0 pos0 pos1, i + 1 := octet1 pos1 pos2, i + 2 := octet2 pos2 pos3]))"

text \<open>The loop returns whether it ended without an error, the two indices and the memory.\<close>

function decode_loop :: "bytes \<Rightarrow> bytes \<Rightarrow> nat \<Rightarrow> nat \<Rightarrow> nat \<Rightarrow> bytes \<Rightarrow> bool \<times> nat \<times> nat \<times> bytes" where
  "decode_loop alphabet source source_length k i result =
    (if k + 4 < source_length
     then (case decode_group alphabet source k i result of
             None \<Rightarrow> (False, k, i, result)
           | Some result' \<Rightarrow> decode_loop alphabet source source_length (k + 4) (i + 3) result')
     else (True, k, i, result))"
  by pat_completeness auto
termination
  by (relation "measure (\<lambda>(alphabet, source, source_length, k, i, result). source_length - k)") auto

declare decode_loop.simps [simp del]

definition decode_tail :: "bytes \<Rightarrow> bytes \<Rightarrow> nat \<Rightarrow> nat \<Rightarrow> nat \<Rightarrow> bytes \<Rightarrow> bytes option" where
  "decode_tail alphabet source fillbits k i result =
    (let pos0 = ov_base64_alphabetPosition (source ! k) alphabet;
         pos1 = ov_base64_alphabetPosition (source ! (k + 1)) alphabet;
         pos2 = ov_base64_alphabetPosition (source ! (k + 2)) alphabet
     in if fillbits = 0 then decode_group alphabet source k i result
        else if fillbits = 1 then
          (if pos0 < 0 then None else if pos1 < 0 then None else if pos2 < 0 then None
           else Some (result[i := octet0 pos0 pos1, i + 1 := octet1 pos1 pos2]))
        else if fillbits = 2 then
          (if pos0 < 0 then None else if pos1 < 0 then None
           else Some (result[i := octet0 pos0 pos1]))
        else Some result)"

text \<open>
  On an error the memory the function allocated is freed and the caller's pointer set to NULL;
  a buffer of the caller keeps the groups decoded so far. The length has been stored already.
\<close>

definition decode_into :: "bytes \<Rightarrow> bytes \<Rightarrow> nat \<Rightarrow> nat \<Rightarrow> bytes \<Rightarrow> bool \<times> bytes" where
  "decode_into alphabet source source_length fillbits buf =
    (case decode_loop alphabet source source_length 0 0 buf of
       (False, k, i, result) \<Rightarrow> (False, result)
     | (True, k, i, result) \<Rightarrow>
         (case decode_tail alphabet source fillbits k i result of
            None \<Rightarrow> (False, result)
          | Some result' \<Rightarrow> (True, result')))"

definition ov_base64_decode_with_alphabet ::
  "bytes option \<Rightarrow> nat \<Rightarrow> bytes option option \<Rightarrow> nat option \<Rightarrow> bytes \<Rightarrow>
   bool \<times> bytes option option \<times> nat option" where
  "ov_base64_decode_with_alphabet source source_length dest dest_length alphabet =
    (case (source, dest, dest_length) of
       (Some src, Some buf, Some dlen) \<Rightarrow>
         if source_length < 1 then (False, dest, dest_length)
         else if source_length mod 4 \<noteq> 0 then (False, dest, dest_length)
         else
           let fillbits = (if src ! (source_length - 1) = padding then 1 else 0) +
                          (if src ! (source_length - 2) = padding then 1 else 0);
               len = source_length div 4 * 3 - fillbits
           in (case buf of
                 Some b \<Rightarrow>
                   if dlen < len then (False, dest, dest_length)
                   else let (ok, result) = decode_into alphabet src source_length fillbits b
                        in (ok, Some (Some result), Some len)
               | None \<Rightarrow>
                   let (ok, result) =
                         decode_into alphabet src source_length fillbits (replicate (len + 1) 0)
                   in if ok then (True, Some (Some result), Some len)
                      else (False, Some None, Some len))
     | _ \<Rightarrow> (False, dest, dest_length))"

definition ov_base64_decode ::
  "bytes option \<Rightarrow> nat \<Rightarrow> bytes option option \<Rightarrow> nat option \<Rightarrow> bool \<times> bytes option option \<times> nat option" where
  "ov_base64_decode buffer len result result_length =
    ov_base64_decode_with_alphabet buffer len result result_length base64Alphabet"

definition ov_base64_url_decode ::
  "bytes option \<Rightarrow> nat \<Rightarrow> bytes option option \<Rightarrow> nat option \<Rightarrow> bool \<times> bytes option option \<times> nat option" where
  "ov_base64_url_decode buffer len result result_length =
    ov_base64_decode_with_alphabet buffer len result result_length base64urlAlphabet"

subsection \<open>Reference definitions\<close>

text \<open>
  The encoding of RFC 4648, three bytes at a time, and the number of padding characters.
\<close>

fun b64 :: "bytes \<Rightarrow> bytes \<Rightarrow> bytes" where
  "b64 al [] = []"
| "b64 al [a] = [al ! sextet0 a, al ! sextet1_fill a, padding, padding]"
| "b64 al [a, b] = [al ! sextet0 a, al ! sextet1 a b, al ! sextet2_fill b, padding]"
| "b64 al (a # b # c # xs) =
    [al ! sextet0 a, al ! sextet1 a b, al ! sextet2 b c, al ! sextet3 c] @ b64 al xs"

definition fill :: "bytes \<Rightarrow> nat" where
  "fill xs = (if length xs mod 3 > 0 then 3 - length xs mod 3 else 0)"

subsection \<open>Alphabets\<close>

text \<open>What the codec needs of an alphabet; both tables have it.\<close>

locale b64_alphabet =
  fixes al :: bytes
  assumes al_length: "length al = 64"
    and al_distinct: "distinct al"
    and al_zero: "0 \<notin> set al"
    and al_padding: "padding \<notin> set al"

lemma alphabet_scan_nth:
  assumes "distinct al" "length al = 64" "i \<le> j" "j < 64"
  shows "alphabet_scan (al ! j) al i = int j"
  using assms
proof (induction "j - i" arbitrary: i)
  case 0
  then show ?case by (simp add: alphabet_scan.simps)
next
  case (Suc d)
  then have "al ! i \<noteq> al ! j" by (simp add: nth_eq_iff_index_eq)
  with Suc show ?case by (subst alphabet_scan.simps) simp
qed

context b64_alphabet
begin

lemma position_nth: "j < 64 \<Longrightarrow> ov_base64_alphabetPosition (al ! j) al = int j"
  using al_zero al_length al_distinct
  by (auto simp: ov_base64_alphabetPosition_def alphabet_scan_nth) (metis nth_mem)

end

interpretation std: b64_alphabet base64Alphabet
  by unfold_locales (simp_all add: base64Alphabet_def padding_def)

interpretation url: b64_alphabet base64urlAlphabet
  by unfold_locales (simp_all add: base64urlAlphabet_def padding_def)

lemmas sextet_defs = sextet0_def sextet1_def sextet2_def sextet3_def sextet2_fill_def sextet1_fill_def
  octet0_def octet1_def octet2_def

text \<open>Sextets and octets are inverse.\<close>

lemma sextet_less:
  "sextet0 a < 64" "sextet1 a b < 64" "sextet2 b c < 64" "sextet3 c < 64" "sextet1_fill a < 64" "sextet2_fill b < 64"
proof -
  have *: "unat (0x3F AND w) < 64" for w :: u32
    using nat_mask_and [of 6 "unat w"] by (simp add: unsigned_and_eq)
  have **: "0x3C AND w = 0x3F AND (0x3C AND w)" for w :: u32 by (simp add: word_bits)
  show "sextet0 a < 64" "sextet1 a b < 64" "sextet2 b c < 64" "sextet3 c < 64" "sextet1_fill a < 64"
    by (simp_all only: sextet_defs *)
  show "sextet2_fill b < 64" unfolding sextet2_fill_def by (subst **) (rule *)
qed

lemma octets:
  "octet0 (int (sextet0 a)) (int (sextet1 a b)) = a"
  "octet1 (int (sextet1 a b)) (int (sextet2 b c)) = b"
  "octet2 (int (sextet2 b c)) (int (sextet3 c)) = c"
  "octet1 (int (sextet1 a b)) (int (sextet2_fill b)) = b"
  "octet0 (int (sextet0 a)) (int (sextet1_fill a)) = a"
  by (simp_all add: sextet_defs word_bits flip: numeral_2_eq_2 numeral_3_eq_3)

lemma groups: "(n + 2) div 3 = n div 3 + (if n mod 3 > 0 then 1 else 0)" for n :: nat
proof -
  have "n mod 3 = 0 \<or> n mod 3 = 1 \<or> n mod 3 = 2" by auto
  then show ?thesis using div_add1_eq [of n 2 3] by auto
qed

lemma length_b64: "length (b64 al xs) = 4 * ((length xs + 2) div 3)"
proof (induction al xs rule: b64.induct)
  case (4 al a b c xs)
  have "(length (a # b # c # xs) + 2) div 3 = (length xs + 2) div 3 + 1" by simp
  with 4 show ?case by simp
qed auto

lemma b64_nonempty: "xs \<noteq> [] \<Longrightarrow> 4 \<le> length (b64 al xs)"
  by (cases "(al, xs)" rule: b64.cases) auto

lemma write4: "k + 4 \<le> length r \<Longrightarrow> r[k := a, Suc k := b, Suc (Suc k) := c, k + 3 := d] = write_at r k [a, b, c, d]"
  by (auto simp: list_eq_iff_nth_eq nth_write_at nth_list_update nth_Cons' numeral_eq_Suc less_Suc_eq)

lemma write_at_append: "m = k + length xs \<Longrightarrow> k + length xs + length ys \<le> length r \<Longrightarrow>
   write_at (write_at r k xs) m ys = write_at r k (xs @ ys)"
  by (auto simp: write_at_def add_ac)

lemma write_zeros: "write_at (0 # replicate (length xs) 0) 0 xs = xs @ [0]" for xs :: bytes
  using drop_replicate [of "length xs" "Suc (length xs)" "0::u8"] by (simp add: write_at_0)

lemma drop_3: "i + 2 < length xs \<Longrightarrow> drop i xs = xs ! i # xs ! (i + 1) # xs ! (i + 2) # drop (i + 3) xs"
  by (simp add: Cons_nth_drop_Suc numeral_eq_Suc)

subsection \<open>The encoder computes the reference encoding\<close>

lemma encode_correct:
  assumes "i < length src" "k + length (b64 al (drop i src)) \<le> length r"
    "fillbits = (if (length src - i) mod 3 > 0 then 3 - (length src - i) mod 3 else 0)"
    "encode_loop al src (length src) i k r = (i', k', r')"
  shows "encode_tail al src fillbits i' k' r' = write_at r k (b64 al (drop i src))"
  using assms
proof (induction al src "length src" i k r rule: encode_loop.induct)
  case (1 al src i k r)
  show ?case
  proof (cases "i + 3 < length src")
    case True
    let ?g = "[al ! sextet0 (src ! i), al ! sextet1 (src ! i) (src ! (i + 1)), 
       al ! sextet2 (src ! (i + 1)) (src ! (i + 2)), al ! sextet3 (src ! (i + 2))]"
    have d: "drop i src = src ! i # src ! (i + 1) # src ! (i + 2) # drop (i + 3) src"
      using True by (intro drop_3) simp
    have b: "b64 al (drop i src) = ?g @ b64 al (drop (i + 3) src)" by (subst d) simp
    have g: "encode_group al src i k r = write_at r k ?g"
      using "1.prems"(2) b by (simp add: encode_group_def write4)
    have "fillbits = (if (length src - (i + 3)) mod 3 > 0 then 3 - (length src - (i + 3)) mod 3 else 0)"
      using "1.prems"(3) True le_mod_geq [of 3 "length src - i"] by simp
    moreover have "encode_loop al src (length src) (i + 3) (k + 4) (encode_group al src i k r) = (i', k', r')"
      using "1.prems"(4) True by (simp add: encode_loop.simps [of _ _ _ i])
    ultimately have "encode_tail al src fillbits i' k' r' =
        write_at (encode_group al src i k r) (k + 4) (b64 al (drop (i + 3) src))"
      using "1.prems" True b g by (intro "1.hyps") auto
    also have "\<dots> = write_at r k (b64 al (drop i src))"
      using g b "1.prems"(2) write_at_append [of "k + 4" k ?g "b64 al (drop (i + 3) src)" r] by simp
    finally show ?thesis .
  next
    case False
    with "1.prems"(4) have eq: "i' = i" "k' = k" "r' = r"
      by (simp_all add: encode_loop.simps [of _ _ _ i])
    from False "1.prems"(1) consider "length src = i + 1" | "length src = i + 2" | "length src = i + 3"
      by linarith
    then show ?thesis
    proof cases
      case 1
      then have d: "drop i src = [src ! i]" by (auto simp: list_eq_iff_nth_eq)
      show ?thesis using 1 "1.prems"(2,3) eq by (simp add: d encode_tail_def write4)
    next
      case 2
      then have d: "drop i src = [src ! i, src ! (i + 1)]"
        using Cons_nth_drop_Suc [of i src] Cons_nth_drop_Suc [of "i + 1" src] by simp
      show ?thesis using 2 "1.prems"(2,3) eq by (simp add: d encode_tail_def write4)
    next
      case 3
      then have d: "drop i src = [src ! i, src ! (i + 1), src ! (i + 2)]"
        using drop_3 [of i src] by simp
      show ?thesis using 3 "1.prems"(2,3) eq by (simp add: d encode_tail_def encode_group_def write4)
    qed
  qed
qed

lemma write3: "k + 3 \<le> length r \<Longrightarrow> r[k := a, Suc k := b, Suc (Suc k) := c] = write_at r k [a, b, c]"
  by (auto simp: list_eq_iff_nth_eq nth_write_at nth_list_update nth_Cons' numeral_eq_Suc less_Suc_eq)

lemma write2: "k + 2 \<le> length r \<Longrightarrow> r[k := a, Suc k := b] = write_at r k [a, b]"
  by (auto simp: list_eq_iff_nth_eq nth_write_at nth_list_update nth_Cons' numeral_eq_Suc less_Suc_eq)

lemma write1: "k + 1 \<le> length r \<Longrightarrow> r[k := a] = write_at r k [a]"
  by (auto simp: list_eq_iff_nth_eq nth_write_at nth_list_update nth_Cons' numeral_eq_Suc less_Suc_eq)

subsection \<open>The decoder inverts the reference encoding\<close>

lemma triple_induct:
  "P [] \<Longrightarrow> (\<And>a. P [a]) \<Longrightarrow> (\<And>a b. P [a, b]) \<Longrightarrow> (\<And>a b c xs. P xs \<Longrightarrow> P (a # b # c # xs)) \<Longrightarrow> P xs"
  for xs :: bytes
  by (induction "[] :: bytes" xs rule: b64.induct) auto

context b64_alphabet
begin

lemmas positions = sextet_less [THEN position_nth]

lemma group_nths:
  assumes "drop k src = w # x # y # z # rest"
  shows "src ! k = w" "src ! Suc k = x" "src ! Suc (Suc k) = y" "src ! (k + 3) = z" "drop (k + 4) src = rest"
    "k + 4 + length rest = length src"
proof -
  have l: "length src - k = 4 + length rest" using arg_cong [OF assms, of length] by simp
  then show "k + 4 + length rest = length src" by linarith
  show "src ! k = w" "src ! Suc k = x" "src ! Suc (Suc k) = y" "src ! (k + 3) = z"
    using assms nth_drop [of k src 0] nth_drop [of k src 1] nth_drop [of k src 2] nth_drop [of k src 3] l by auto
  show "drop (k + 4) src = rest"
    using assms drop_drop [of 4 k src] by (simp add: add.commute)
qed

lemma decode_correct:
  assumes "drop k src = b64 al xs" "xs \<noteq> []" "i + length xs \<le> length r"
  shows "\<exists>k' i' r'. decode_loop al src (length src) k i r = (True, k', i', r') \<and>
    decode_tail al src (fill xs) k' i' r' = Some (write_at r i xs)"
  using assms
proof (induction xs arbitrary: k i r rule: triple_induct)
  case (2 a)
  note n = group_nths [OF "2.prems"(1) [unfolded b64.simps]]
  show ?case using "2.prems"(3) n(6)
    by (simp add: decode_loop.simps decode_tail_def fill_def positions n write1 octets)
next
  case (3 a b)
  note n = group_nths [OF "3.prems"(1) [unfolded b64.simps]]
  show ?case using "3.prems"(3) n(6)
    by (simp add: decode_loop.simps decode_tail_def fill_def positions n write2 octets)
next
  case (4 a b c xs)
  note n = group_nths [OF "4.prems"(1) [unfolded b64.simps append_Cons append_Nil]]
  have g: "decode_group al src k i r = Some (write_at r i [a, b, c])"
    using "4.prems"(3) by (simp add: decode_group_def positions n write3 octets)
  show ?case
  proof (cases "xs = []")
    case True
    with n(6) g show ?thesis
      by (simp add: decode_loop.simps decode_tail_def fill_def)
  next
    case False
    then have "0 < length (b64 al xs)" using b64_nonempty [of xs al] by linarith
    with n(6) have "k + 4 < length src" by linarith
    with g have "decode_loop al src (length src) k i r =
        decode_loop al src (length src) (k + 4) (i + 3) (write_at r i [a, b, c])"
      by (subst decode_loop.simps) simp
    moreover have "fill (a # b # c # xs) = fill xs" by (simp add: fill_def)
    moreover have "write_at (write_at r i [a, b, c]) (i + 3) xs = write_at r i (a # b # c # xs)"
      using write_at_append [of "i + 3" i "[a, b, c]" xs r] "4.prems"(3) by simp
    ultimately show ?thesis
      using "4.IH" [OF n(5) False, of "i + 3" "write_at r i [a, b, c]"] "4.prems"(3) by simp
  qed
qed simp

lemma padding_position: "j < 64 \<Longrightarrow> al ! j \<noteq> padding"
  using al_padding al_length nth_mem by metis

lemma fill_b64:
  assumes "xs \<noteq> []"
  shows "(if b64 al xs ! (length (b64 al xs) - 1) = padding then 1 else 0) +
    (if b64 al xs ! (length (b64 al xs) - 2) = padding then 1 else 0) = fill xs"
  using assms
proof (induction xs rule: triple_induct)
  case (4 a b c xs)
  show ?case
  proof (cases "xs = []")
    case False
    then have "4 \<le> length (b64 al xs)" by (rule b64_nonempty)
    then obtain m where "length (b64 al xs) = Suc (Suc m)" by (cases "length (b64 al xs)"; cases "length (b64 al xs) - 1") auto
    moreover have "fill (a # b # c # xs) = fill xs" by (simp add: fill_def)
    ultimately show ?thesis using "4.IH" [OF False] by simp
  qed (simp add: padding_position sextet_less fill_def)
qed (simp_all add: padding_position sextet_less fill_def)

lemma encode_alloc:
  assumes "xs \<noteq> []"
  shows "ov_base64_encode_with_alphabet (Some xs) (length xs) (Some None) (Some n) al =
    (True, Some (Some (b64 al xs @ [0])), Some (length (b64 al xs)))"
proof -
  have len: "length xs div 3 * 4 + (if length xs mod 3 > 0 then 4 else 0) = length (b64 al xs)"
    unfolding length_b64 groups by simp
  obtain i k r where loop: "encode_loop al xs (length xs) 0 0 (replicate (length (b64 al xs) + 1) 0) = (i, k, r)"
    by (metis prod_cases3)
  have "fill xs = (if (length xs - 0) mod 3 > 0 then 3 - (length xs - 0) mod 3 else 0)"
    by (simp add: fill_def)
  from encode_correct [OF _ _ this loop] assms
  have "encode_tail al xs (fill xs) i k r = b64 al xs @ [0]"
    by (simp only: drop_0 length_replicate) (simp add: write_zeros)
  then show ?thesis
    using assms loop unfolding ov_base64_encode_with_alphabet_def len fill_def [symmetric]
    by (simp add: Let_def)
qed

lemma decode_alloc:
  assumes "xs \<noteq> []"
  shows "ov_base64_decode_with_alphabet (Some (b64 al xs)) (length (b64 al xs)) (Some None) (Some n) al =
    (True, Some (Some (xs @ [0])), Some (length xs))"
proof -
  have len: "length (b64 al xs) div 4 * 3 - fill xs = length xs"
    unfolding length_b64 groups fill_def by (simp add: algebra_simps minus_mod_eq_mult_div [symmetric])
  obtain k i r where "decode_loop al (b64 al xs) (length (b64 al xs)) 0 0 (replicate (length xs + 1) 0) = (True, k, i, r)"
    "decode_tail al (b64 al xs) (fill xs) k i r = Some (write_at (replicate (length xs + 1) 0) 0 xs)"
    using decode_correct [of 0 "b64 al xs" xs 0 "replicate (length xs + 1) 0"] assms by auto
  then have "decode_into al (b64 al xs) (length (b64 al xs)) (fill xs) (replicate (length xs + 1) 0) = (True, xs @ [0])"
    by (simp add: decode_into_def write_zeros)
  moreover have "length (b64 al xs) mod 4 = 0" by (simp add: length_b64)
  moreover have "0 < length (b64 al xs)" using b64_nonempty [OF assms, of al] by linarith
  ultimately show ?thesis
    unfolding ov_base64_decode_with_alphabet_def option.case prod.case Let_def fill_b64 [OF assms] len
    by simp
qed
end

subsection \<open>Properties\<close>

text \<open>
  C36: Base64 round trip. For every non-empty input and both alphabets the encoder, asked to
  allocate, succeeds with a zero terminated string of 4 characters per started group of 3 bytes, and the decoder, given this
  string, succeeds and returns exactly the input bytes and their number.
\<close>

theorem base64_roundtrip:
  assumes "src \<noteq> []"
  shows "(\<exists>e. length e = 4 * ((length src + 2) div 3) \<and>
      ov_base64_encode (Some src) (length src) (Some None) (Some n) =
        (True, Some (Some (e @ [0])), Some (length e)) \<and>
      ov_base64_decode (Some e) (length e) (Some None) (Some m) =
        (True, Some (Some (src @ [0])), Some (length src))) \<and>
    (\<exists>e. length e = 4 * ((length src + 2) div 3) \<and>
      ov_base64_url_encode (Some src) (length src) (Some None) (Some n) =
        (True, Some (Some (e @ [0])), Some (length e)) \<and>
      ov_base64_url_decode (Some e) (length e) (Some None) (Some m) =
        (True, Some (Some (src @ [0])), Some (length src)))"
  unfolding ov_base64_encode_def ov_base64_decode_def ov_base64_url_encode_def ov_base64_url_decode_def
  using std.encode_alloc [OF assms] std.decode_alloc [OF assms]
    url.encode_alloc [OF assms] url.decode_alloc [OF assms] length_b64 by blast

theorem base64_roundtrip_witness:
  "[77, 97, 110, 77] \<noteq> ([] :: bytes) \<and>
   (\<exists>e. length e = 8 \<and>
      ov_base64_encode (Some [77, 97, 110, 77]) 4 (Some None) (Some 0) =
        (True, Some (Some (e @ [0])), Some (length e)) \<and>
      ov_base64_decode (Some e) (length e) (Some None) (Some 0) =
        (True, Some (Some [77, 97, 110, 77, 0]), Some 4))"
proof -
  have len: "length ([77, 97, 110, 77] :: bytes) = 4" by simp
  show ?thesis using base64_roundtrip [of "[77, 97, 110, 77]" 0 0, unfolded len] by simp
qed

end
