(* ===== verification/Ov_Hashtable.thy ===== *)
theory Ov_Hashtable
  imports Ov_Prelude
begin

text \<open>
  The hash table of \<open>ov_base/src/hashtable/ov_hashtable.c\<close> and the hash functions of
  \<open>ov_base/src/function_sets/ov_hash_functions.c\<close>.

  A table is an array of buckets. The C code gives every bucket a dummy head entry and links
  the used entries behind it; here a bucket is the list of its used entries, and the entry
  that \<open>get_entry_for\<close> returns (the predecessor of the one searched for) is the bucket index
  with the position of its \<open>next\<close> in that list. Pointers that may be NULL are options: the
  table, the keys and the stored values. Allocation does not fail, and \<open>key_free\<close>, which
  only returns memory, has no counterpart.
\<close>

subsection \<open>Hash functions\<close>

text \<open>A C string is the list of its characters before the terminating zero.\<close>

fun simple_hash_loop :: "u8 \<Rightarrow> string \<Rightarrow> u8" where
  "simple_hash_loop hash [] = hash"
| "simple_hash_loop hash (c # s) = simple_hash_loop (hash + 13 * of_char c) s"

definition ov_hash_simple_c_string :: "string option \<Rightarrow> u64" where
  "ov_hash_simple_c_string c_string =
    (case c_string of None \<Rightarrow> 0 | Some s \<Rightarrow> ucast (simple_hash_loop 0 s))"

subsection \<open>Tables\<close>

record 'k ov_hashtable_funcs =
  key_copy :: "('k \<Rightarrow> 'k) option"
  key_cmp :: "('k \<Rightarrow> 'k \<Rightarrow> int) option"
  hash :: "('k \<Rightarrow> u64) option"

type_synonym ('k, 'v) table_entry = "'k \<times> 'v option"

record ('k, 'v) ov_hashtable =
  funcs :: "'k ov_hashtable_funcs"
  number_of_buckets :: u32
  entries :: "('k, 'v) table_entry list list"

text \<open>The default functions see the address of a key only.\<close>

definition key_copy_func_default :: "'k \<Rightarrow> 'k" where
  "key_copy_func_default key = key"

definition key_cmp_func_default :: "('k \<Rightarrow> u64) \<Rightarrow> 'k \<Rightarrow> 'k \<Rightarrow> int" where
  "key_cmp_func_default addr key1 key2 = sint (ucast (addr key1 - addr key2) :: u32)"

definition hash_func_default :: "('k \<Rightarrow> u64) \<Rightarrow> 'k \<Rightarrow> u64" where
  "hash_func_default addr key = ucast (ucast (addr key) :: u32)"

definition ov_hashtable_create ::
  "('k \<Rightarrow> u64) \<Rightarrow> nat \<Rightarrow> 'k ov_hashtable_funcs \<Rightarrow> ('k, 'v) ov_hashtable option" where
  "ov_hashtable_create addr num_buckets f =
    (if num_buckets = 0 then None
     else Some
       \<lparr>funcs =
          \<lparr>key_copy = (case key_copy f of None \<Rightarrow> Some key_copy_func_default | c \<Rightarrow> c),
           key_cmp = (case key_cmp f of None \<Rightarrow> Some (key_cmp_func_default addr) | c \<Rightarrow> c),
           hash = (case hash f of None \<Rightarrow> Some (hash_func_default addr) | h \<Rightarrow> h)\<rparr>,
        number_of_buckets = of_nat num_buckets,
        entries = replicate num_buckets []\<rparr>)"

fun scan_bucket :: "('k \<Rightarrow> 'k \<Rightarrow> int) \<Rightarrow> 'k \<Rightarrow> ('k, 'v) table_entry list \<Rightarrow> nat \<Rightarrow> nat" where
  "scan_bucket compare key [] i = i"
| "scan_bucket compare key ((k, v) # es) i =
    (if compare k key = 0 then i else scan_bucket compare key es (Suc i))"

definition get_entry_for :: "('k, 'v) ov_hashtable option \<Rightarrow> 'k option \<Rightarrow> (nat \<times> nat) option" where
  "get_entry_for table key =
    (case (table, key) of
       (Some t, Some k) \<Rightarrow>
         let h = unat (the (hash (funcs t)) k mod ucast (number_of_buckets t))
         in Some (h, scan_bucket (the (key_cmp (funcs t))) k (entries t ! h) 0)
     | _ \<Rightarrow> None)"

definition ov_hashtable_contains :: "('k, 'v) ov_hashtable option \<Rightarrow> 'k option \<Rightarrow> bool" where
  "ov_hashtable_contains table key =
    (case get_entry_for table key of
       None \<Rightarrow> False
     | Some (h, i) \<Rightarrow> i < length (entries (the table) ! h))"

definition ov_hashtable_get :: "('k, 'v) ov_hashtable option \<Rightarrow> 'k option \<Rightarrow> 'v option" where
  "ov_hashtable_get table key =
    (case get_entry_for table key of
       None \<Rightarrow> None
     | Some (h, i) \<Rightarrow>
         if i < length (entries (the table) ! h) then snd (entries (the table) ! h ! i) else None)"

definition update_bucket ::
  "('k, 'v) ov_hashtable \<Rightarrow> nat \<Rightarrow> ('k, 'v) table_entry list \<Rightarrow> ('k, 'v) ov_hashtable" where
  "update_bucket t h es = t\<lparr>entries := (entries t)[h := es]\<rparr>"

definition ov_hashtable_set ::
  "('k, 'v) ov_hashtable option \<Rightarrow> 'k option \<Rightarrow> 'v option \<Rightarrow> ('k, 'v) ov_hashtable option \<times> 'v option" where
  "ov_hashtable_set table key value =
    (case get_entry_for table key of
       None \<Rightarrow> (table, None)
     | Some (h, i) \<Rightarrow>
         let t = the table; bucket = entries t ! h
         in if i < length bucket
            then (Some (update_bucket t h (bucket[i := (fst (bucket ! i), value)])), snd (bucket ! i))
            else (Some (update_bucket t h
                    (bucket @ [(the (key_copy (funcs t)) (the key), value)])), None))"

definition ov_hashtable_remove ::
  "('k, 'v) ov_hashtable option \<Rightarrow> 'k option \<Rightarrow> ('k, 'v) ov_hashtable option \<times> 'v option" where
  "ov_hashtable_remove table key =
    (case get_entry_for table key of
       None \<Rightarrow> (table, None)
     | Some (h, i) \<Rightarrow>
         let t = the table; bucket = entries t ! h
         in if i < length bucket
            then (Some (update_bucket t h (take i bucket @ drop (Suc i) bucket)), snd (bucket ! i))
            else (table, None))"

text \<open>
  \<open>ov_hashtable_for_each\<close>: the callback works on the object behind \<open>arg\<close>, which is passed
  through; \<open>False\<close> stops the iteration. The result is that object and the number of calls.
\<close>

fun for_each_entry ::
  "('k \<Rightarrow> 'v option \<Rightarrow> 'a \<Rightarrow> 'a \<times> bool) \<Rightarrow> ('k, 'v) table_entry list \<Rightarrow> 'a \<Rightarrow> nat \<Rightarrow> bool \<times> 'a \<times> nat" where
  "for_each_entry process_func [] arg count = (True, arg, count)"
| "for_each_entry process_func ((k, v) # es) arg count =
    (case process_func k v arg of
       (arg', True) \<Rightarrow> for_each_entry process_func es arg' (count + 1)
     | (arg', False) \<Rightarrow> (False, arg', count + 1))"

fun for_each_bucket ::
  "('k \<Rightarrow> 'v option \<Rightarrow> 'a \<Rightarrow> 'a \<times> bool) \<Rightarrow> ('k, 'v) table_entry list list \<Rightarrow> 'a \<Rightarrow> nat \<Rightarrow> 'a \<times> nat" where
  "for_each_bucket process_func [] arg count = (arg, count)"
| "for_each_bucket process_func (b # bs) arg count =
    (case for_each_entry process_func b arg count of
       (True, arg', count') \<Rightarrow> for_each_bucket process_func bs arg' count'
     | (False, arg', count') \<Rightarrow> (arg', count'))"

definition ov_hashtable_for_each ::
  "('k, 'v) ov_hashtable option \<Rightarrow> ('k \<Rightarrow> 'v option \<Rightarrow> 'a \<Rightarrow> 'a \<times> bool) option \<Rightarrow> 'a \<Rightarrow> 'a \<times> nat" where
  "ov_hashtable_for_each table process_func arg =
    (case table of
       None \<Rightarrow> (arg, 0)
     | Some t \<Rightarrow>
         if number_of_buckets t = 0 then (arg, 0)
         else (case process_func of
                 None \<Rightarrow> (arg, 0)
               | Some p \<Rightarrow> for_each_bucket p (take (unat (number_of_buckets t)) (entries t)) arg 0))"

definition hashtable_clear :: "('k, 'v) ov_hashtable option \<Rightarrow> ('k, 'v) ov_hashtable option \<times> bool" where
  "hashtable_clear table =
    (case table of
       None \<Rightarrow> (None, False)
     | Some t \<Rightarrow> (Some (t\<lparr>entries := replicate (unat (number_of_buckets t)) [] @
                                drop (unat (number_of_buckets t)) (entries t)\<rparr>), True))"

definition ov_hashtable_free :: "('k, 'v) ov_hashtable option \<Rightarrow> ('k, 'v) ov_hashtable option" where
  "ov_hashtable_free table =
    (case table of
       None \<Rightarrow> None
     | Some t \<Rightarrow> (case hashtable_clear (Some t) of (t', ok) \<Rightarrow> if ok then None else t'))"

subsection \<open>Tables with C strings as keys\<close>

fun strcmp :: "string \<Rightarrow> string \<Rightarrow> int" where
  "strcmp [] [] = 0"
| "strcmp [] (c # s) = - 1"
| "strcmp (c # s) [] = 1"
| "strcmp (c # s) (d # s') =
    (if c = d then strcmp s s' else if (of_char c :: nat) < of_char d then - 1 else 1)"

text \<open>Keys in the table are never NULL, so the NULL tests of the two helpers do not show.\<close>

definition string_compare :: "string \<Rightarrow> string \<Rightarrow> int" where
  "string_compare s1 s2 = (if s1 = s2 then 0 else strcmp s1 s2)"

definition string_copy :: "string \<Rightarrow> string" where
  "string_copy s = s"

definition c_string_funcs :: "string ov_hashtable_funcs" where
  "c_string_funcs =
    \<lparr>key_copy = Some string_copy, key_cmp = Some string_compare,
     hash = Some (\<lambda>s. ov_hash_simple_c_string (Some s))\<rparr>"

text \<open>The argument of \<open>ov_hashtable_create_c_string\<close> is a \<open>uint8_t\<close>: callers convert.\<close>

definition ov_hashtable_create_c_string :: "u8 \<Rightarrow> (string, 'v) ov_hashtable option" where
  "ov_hashtable_create_c_string num_buckets =
    ov_hashtable_create (\<lambda>_. 0) (unat num_buckets) c_string_funcs"

subsection \<open>Reference definitions: tables as maps\<close>

text \<open>The abstract state of a table is a map from keys to values; its invariant says that every entry is in the bucket of its hash and that no key occurs twice.\<close>

definition bucket_of :: "('k, 'v) ov_hashtable \<Rightarrow> 'k \<Rightarrow> nat" where
  "bucket_of t k = unat (the (hash (funcs t)) k mod ucast (number_of_buckets t))"

definition table_map :: "('k, 'v) ov_hashtable \<Rightarrow> 'k \<rightharpoonup> 'v option" where
  "table_map t k = map_of (entries t ! bucket_of t k) k"

definition table_inv :: "('k, 'v) ov_hashtable \<Rightarrow> bool" where
  "table_inv t \<longleftrightarrow>
    number_of_buckets t \<noteq> 0 \<and> length (entries t) = unat (number_of_buckets t) \<and>
    (\<forall>i < length (entries t). distinct (map fst (entries t ! i)) \<and>
       (\<forall>e \<in> set (entries t ! i). bucket_of t (fst e) = i))"

fun scan_pos :: "'k \<Rightarrow> ('k, 'v) table_entry list \<Rightarrow> nat" where
  "scan_pos k [] = 0"
| "scan_pos k (e # es) = (if fst e = k then 0 else Suc (scan_pos k es))"

text \<open>All entries, in the order of the iteration.\<close>

definition all_entries :: "('k, 'v) ov_hashtable \<Rightarrow> ('k, 'v) table_entry list" where
  "all_entries t = concat (entries t)"

text \<open>The tables with C strings as keys, the only ones the VM uses.\<close>

definition c_table :: "(string, 'v) ov_hashtable \<Rightarrow> bool" where
  "c_table t \<longleftrightarrow> table_inv t \<and> funcs t = c_string_funcs"

subsection \<open>Operations as map updates\<close>

text \<open>What a table needs of its functions: keys compare equal iff they are equal, and a copy of a key equals it.\<close>

locale key_funcs =
  fixes f :: "'k ov_hashtable_funcs"
  assumes cmp_given: "key_cmp f \<noteq> None" and cmp_eq: "the (key_cmp f) a b = 0 \<longleftrightarrow> a = b"
    and copy_given: "key_copy f \<noteq> None" and copy_eq: "the (key_copy f) a = a"
    and hash_given: "hash f \<noteq> None"

lemma update_bucket_simps [simp]:
  "funcs (update_bucket t h es) = funcs t"
  "number_of_buckets (update_bucket t h es) = number_of_buckets t"
  "entries (update_bucket t h es) = (entries t)[h := es]"
  "bucket_of (update_bucket t h es) = bucket_of t"
  by (auto simp: update_bucket_def bucket_of_def)

lemma bucket_of_less: "table_inv t \<Longrightarrow> bucket_of t k < length (entries t)"
proof -
  assume inv: "table_inv t"
  then have "0 < unat (ucast (number_of_buckets t) :: u64)"
    by (simp add: table_inv_def unat_u32_u64 unat_gt_0)
  then have "unat (the (hash (funcs t)) k mod ucast (number_of_buckets t)) < unat (number_of_buckets t)"
    by (simp add: unat_mod_distrib unat_u32_u64)
  then show ?thesis using inv by (simp add: bucket_of_def table_inv_def)
qed

lemma table_inv_update:
  assumes "table_inv t" "distinct (map fst es)" "\<forall>e \<in> set es. bucket_of t (fst e) = h"
  shows "table_inv (update_bucket t h es)"
  unfolding table_inv_def
proof (intro conjI allI impI)
  fix i assume "i < length (entries (update_bucket t h es))"
  then show "distinct (map fst (entries (update_bucket t h es) ! i))"
    "\<forall>e\<in>set (entries (update_bucket t h es) ! i). bucket_of (update_bucket t h es) (fst e) = i"
    using assms by (cases "i = h"; simp add: table_inv_def)+
qed (use assms(1) in \<open>simp_all add: table_inv_def\<close>)

lemma table_map_update:
  assumes "table_inv t" "h < length (entries t)" "\<forall>e \<in> set es. bucket_of t (fst e) = h"
  shows "table_map (update_bucket t h es) k = (if bucket_of t k = h then map_of es k else table_map t k)"
  using assms by (auto simp: table_map_def nth_list_update)

lemma table_inv_bucket:
  assumes "table_inv t"
  shows "distinct (map fst (entries t ! bucket_of t k))"
    "e \<in> set (entries t ! bucket_of t k) \<Longrightarrow> bucket_of t (fst e) = bucket_of t k"
  using assms bucket_of_less [OF assms, of k] by (auto simp: table_inv_def)

lemma scan_pos_absent: "k \<notin> fst ` set es \<Longrightarrow> scan_pos k es = length es"
  by (induction es) auto

lemma scan_pos_append: "k \<notin> fst ` set xs \<Longrightarrow> scan_pos k (xs @ (k, v) # ys) = length xs"
  by (induction xs) auto

lemma scan_pos_split:
  assumes "k \<in> fst ` set es" "distinct (map fst es)"
  obtains xs v ys where "es = xs @ (k, v) # ys" "k \<notin> fst ` set xs" "k \<notin> fst ` set ys"
    "map_of es k = Some v"
proof -
  obtain xs v ys where es: "es = xs @ (k, v) # ys" "k \<notin> fst ` set xs"
    using assms(1) split_list_first_prop [of es "\<lambda>e. fst e = k"] by (metis imageE prod.collapse)
  moreover have "map_of xs k = None" using es(2) by (simp add: map_of_eq_None_iff)
  ultimately show thesis using assms(2) by (intro that [of xs v ys]) (auto simp: map_add_def)
qed

lemma lookup_cases [consumes 1, case_names absent present]:
  assumes "table_inv t"
  obtains "scan_pos k (entries t ! bucket_of t k) = length (entries t ! bucket_of t k)" 
      "table_map t k = None" "k \<notin> fst ` set (entries t ! bucket_of t k)"
  | xs v ys where "entries t ! bucket_of t k = xs @ (k, v) # ys"
      "scan_pos k (entries t ! bucket_of t k) = length xs" "table_map t k = Some v"
      "k \<notin> fst ` set xs" "k \<notin> fst ` set ys"
proof (cases "k \<in> fst ` set (entries t ! bucket_of t k)")
  case True
  from scan_pos_split [OF True table_inv_bucket(1) [OF assms]] show thesis
    by (metis that(2) table_map_def scan_pos_append)
next
  case False
  then have "table_map t k = None" by (simp add: table_map_def map_of_eq_None_iff)
  with False show thesis by (intro that(1)) (auto simp: scan_pos_absent)
qed

context key_funcs
begin

lemma scan_bucket_eq: "scan_bucket (the (key_cmp f)) k es i = i + scan_pos k es"
  by (induction es arbitrary: i) (auto simp: cmp_eq)

lemma get_entry_for_eq:
  "funcs t = f \<Longrightarrow> get_entry_for (Some t) (Some k) = Some (bucket_of t k, scan_pos k (entries t ! bucket_of t k))"
  by (simp add: get_entry_for_def scan_bucket_eq Let_def) (simp add: bucket_of_def)

lemma get_eq:
  assumes "table_inv t" "funcs t = f"
  shows "ov_hashtable_get (Some t) (Some k) = Option.bind (table_map t k) id"
  using assms(1) assms(2) by (cases rule: lookup_cases [where k = k])
    (auto simp: ov_hashtable_get_def get_entry_for_eq)

lemma contains_eq:
  assumes "table_inv t" "funcs t = f"
  shows "ov_hashtable_contains (Some t) (Some k) \<longleftrightarrow> k \<in> dom (table_map t)"
  using assms(1) assms(2) by (cases rule: lookup_cases [where k = k])
    (auto simp: ov_hashtable_contains_def get_entry_for_eq)

lemma set_eq:
  assumes inv: "table_inv t" and f: "funcs t = f"
  obtains t' where "ov_hashtable_set (Some t) (Some k) v = (Some t', Option.bind (table_map t k) id)"
    "table_inv t'" "funcs t' = f" "table_map t' = (table_map t)(k \<mapsto> v)"
  using inv
proof (cases rule: lookup_cases [where k = k])
  case absent
  let ?es = "entries t ! bucket_of t k @ [(k, v)]" and ?h = "bucket_of t k"
  have b: "\<forall>e \<in> set ?es. bucket_of t (fst e) = ?h" using table_inv_bucket(2) [OF inv] by auto
  have m: "table_map (update_bucket t ?h ?es) = (table_map t)(k \<mapsto> v)"
  proof
    fix k'
    show "table_map (update_bucket t ?h ?es) k' = ((table_map t)(k \<mapsto> v)) k'"
      using absent(2) unfolding table_map_update [OF inv bucket_of_less [OF inv] b]
      by (auto simp: table_map_def map_add_def split: option.splits)
  qed
  show thesis
  proof (rule that [of "update_bucket t ?h ?es"])
    show "table_inv (update_bucket t ?h ?es)"
      using absent(3) table_inv_bucket(1) [OF inv, of k] b by (intro table_inv_update inv) auto
  qed (use f absent m in \<open>auto simp: ov_hashtable_set_def get_entry_for_eq copy_eq Let_def\<close>)
next
  case (present xs w ys)
  let ?es = "xs @ (k, v) # ys" and ?h = "bucket_of t k"
  have b: "\<forall>e \<in> set ?es. bucket_of t (fst e) = ?h" using table_inv_bucket(2) [OF inv, of _ k] present(1) by auto
  have m: "table_map (update_bucket t ?h ?es) = (table_map t)(k \<mapsto> v)"
  proof
    fix k'
    have "map_of xs k = None" using present(4) by (simp add: map_of_eq_None_iff)
    then show "table_map (update_bucket t ?h ?es) k' = ((table_map t)(k \<mapsto> v)) k'"
      using present(1) unfolding table_map_update [OF inv bucket_of_less [OF inv] b]
      by (auto simp: table_map_def map_add_def split: option.splits)
  qed
  show thesis
  proof (rule that [of "update_bucket t ?h ?es"])
    show "table_inv (update_bucket t ?h ?es)"
      using table_inv_bucket(1) [OF inv, of k] b unfolding present(1) by (intro table_inv_update inv) auto
  qed (use f present m in \<open>auto simp: ov_hashtable_set_def get_entry_for_eq Let_def\<close>)
qed

lemma remove_eq:
  assumes inv: "table_inv t" and f: "funcs t = f"
  obtains t' where "ov_hashtable_remove (Some t) (Some k) = (Some t', Option.bind (table_map t k) id)"
    "table_inv t'" "funcs t' = f" "table_map t' = (table_map t)(k := None)"
  using inv
proof (cases rule: lookup_cases [where k = k])
  case absent
  then show thesis
    using f inv by (intro that [of t]) (auto simp: ov_hashtable_remove_def get_entry_for_eq)
next
  case (present xs w ys)
  let ?es = "xs @ ys" and ?h = "bucket_of t k"
  have b: "\<forall>e \<in> set ?es. bucket_of t (fst e) = ?h" using table_inv_bucket(2) [OF inv, of _ k] present(1) by auto
  have m: "table_map (update_bucket t ?h ?es) = (table_map t)(k := None)"
  proof
    fix k'
    have "map_of xs k = None" "map_of ys k = None" using present(4,5) by (simp_all add: map_of_eq_None_iff)
    then show "table_map (update_bucket t ?h ?es) k' = ((table_map t)(k := None)) k'"
      using present(1) unfolding table_map_update [OF inv bucket_of_less [OF inv] b]
      by (auto simp: table_map_def map_add_def split: option.splits)
  qed
  show thesis
  proof (rule that [of "update_bucket t ?h ?es"])
    show "table_inv (update_bucket t ?h ?es)"
      using table_inv_bucket(1) [OF inv, of k] b unfolding present(1) by (intro table_inv_update inv) auto
  qed (use f present m in \<open>auto simp: ov_hashtable_remove_def get_entry_for_eq Let_def\<close>)
qed

lemma remove_absent:
  assumes "table_inv t" "funcs t = f" "table_map t k = None"
  shows "ov_hashtable_remove (Some t) (Some k) = (Some t, None)"
  using assms(1) assms(2,3) by (cases rule: lookup_cases [where k = k])
    (auto simp: ov_hashtable_remove_def get_entry_for_eq)

end

lemma all_entries_map:
  assumes inv: "table_inv t"
  shows "distinct (map fst (all_entries t))" "(k, v) \<in> set (all_entries t) \<longleftrightarrow> table_map t k = Some v"
proof -
  have d: "distinct (map fst (concat bs))"
    if "\<forall>b \<in> set bs. distinct (map fst b)"
      "\<forall>i < length bs. \<forall>e \<in> set (bs ! i). bucket_of t (fst e) = i + m" for m bs
    using that
  proof (induction bs arbitrary: m)
    case (Cons b bs)
    have "\<forall>e \<in> set b. bucket_of t (fst e) = m" using Cons.prems(2) by force
    moreover have hi: "\<forall>i < length bs. \<forall>e \<in> set (bs ! i). bucket_of t (fst e) = i + Suc m"
      using Cons.prems(2) by force
    have "m < bucket_of t (fst e)" if "e \<in> set (concat bs)" for e
    proof -
      from that obtain i where "i < length bs" "e \<in> set (bs ! i)" by (auto simp: set_conv_nth [of bs])
      with hi show ?thesis by auto
    qed
    ultimately have "set (map fst b) \<inter> set (map fst (concat bs)) = {}" by force
    then show ?case using Cons.IH [OF _ hi] Cons.prems(1) by simp
  qed simp
  show dist: "distinct (map fst (all_entries t))"
    unfolding all_entries_def using inv by (intro d [of _ 0]) (auto simp: table_inv_def in_set_conv_nth)
  have "(k, v) \<in> set (all_entries t) \<longleftrightarrow> (k, v) \<in> set (entries t ! bucket_of t k)"
  proof
    assume "(k, v) \<in> set (all_entries t)"
    then obtain i where "i < length (entries t)" "(k, v) \<in> set (entries t ! i)"
      by (auto simp: all_entries_def set_conv_nth [of "entries t"])
    with inv show "(k, v) \<in> set (entries t ! bucket_of t k)" by (force simp: table_inv_def)
  next
    assume "(k, v) \<in> set (entries t ! bucket_of t k)"
    with bucket_of_less [OF inv, of k] show "(k, v) \<in> set (all_entries t)"
      by (auto simp: all_entries_def)
  qed
  also have "\<dots> \<longleftrightarrow> table_map t k = Some v"
    using table_inv_bucket(1) [OF inv, of k] by (simp add: table_map_def map_of_eq_Some_iff)
  finally show "(k, v) \<in> set (all_entries t) \<longleftrightarrow> table_map t k = Some v" .
qed

lemma for_each_concat:
  "for_each_bucket p bs arg n = (case for_each_entry p (concat bs) arg n of (ok, r) \<Rightarrow> r)"
proof (induction bs arbitrary: arg n)
  case (Cons b bs)
  have "for_each_entry p (xs @ ys) arg n =
      (case for_each_entry p xs arg n of (True, arg', n') \<Rightarrow> for_each_entry p ys arg' n' | r \<Rightarrow> r)" for xs ys arg n
    by (induction xs arbitrary: arg n) (auto split: prod.splits bool.splits)
  with Cons show ?case by (auto split: prod.splits bool.splits)
qed simp

lemma for_each_eq:
  assumes "table_inv t"
  shows "ov_hashtable_for_each (Some t) (Some p) arg = snd (for_each_entry p (all_entries t) arg 0)"
proof -
  have "number_of_buckets t \<noteq> 0" using assms by (auto simp: table_inv_def)
  then show ?thesis using assms
    by (auto simp: ov_hashtable_for_each_def for_each_concat all_entries_def table_inv_def split: prod.splits)
qed

lemma create_eq:
  assumes "n \<noteq> 0" "n < 2 ^ 32"
  obtains t :: "('a, 'b) ov_hashtable" where "ov_hashtable_create addr n f = Some t" "table_inv t" "table_map t = Map.empty"
    "key_copy f \<noteq> None \<Longrightarrow> key_cmp f \<noteq> None \<Longrightarrow> hash f \<noteq> None \<Longrightarrow> funcs t = f"
proof -
  define t :: "('a, 'b) ov_hashtable" where "t = the (ov_hashtable_create addr n f)"
  have t: "ov_hashtable_create addr n f = Some t" using assms by (simp add: t_def ov_hashtable_create_def)
  then have e: "entries t = replicate n []" "number_of_buckets t = of_nat n"
    using assms by (auto simp: ov_hashtable_create_def)
  have n: "unat (of_nat n :: u32) = n" using assms(2) by (simp add: unat_of_nat take_bit_eq_mod)
  with assms(1) have "(of_nat n :: u32) \<noteq> 0" by (metis unat_0)
  with n e have inv: "table_inv t" by (simp add: table_inv_def)
  with e have "table_map t = Map.empty"
    using bucket_of_less [OF inv] by (auto simp: table_map_def)
  with t inv show thesis
    using assms by (intro that [of t]) (auto simp: ov_hashtable_create_def)
qed

lemma strcmp_eq: "strcmp s s' = 0 \<longleftrightarrow> s = s'"
  by (induction s s' rule: strcmp.induct) auto

interpretation cs: key_funcs c_string_funcs
  by unfold_locales (auto simp: c_string_funcs_def string_compare_def string_copy_def strcmp_eq)

lemma c_table_simps:
  assumes "c_table t"
  shows "ov_hashtable_get (Some t) (Some k) = Option.bind (table_map t k) id"
    "ov_hashtable_contains (Some t) (Some k) \<longleftrightarrow> k \<in> dom (table_map t)"
  using assms by (simp_all add: c_table_def cs.get_eq cs.contains_eq)

lemma c_table_set:
  assumes "c_table t"
  obtains t' where "ov_hashtable_set (Some t) (Some k) v = (Some t', Option.bind (table_map t k) id)"
    "c_table t'" "table_map t' = (table_map t)(k \<mapsto> v)"
  using assms unfolding c_table_def by (metis cs.set_eq)

lemma c_table_remove:
  assumes "c_table t"
  obtains t' where "ov_hashtable_remove (Some t) (Some k) = (Some t', Option.bind (table_map t k) id)"
    "c_table t'" "table_map t' = (table_map t)(k := None)"
  using assms unfolding c_table_def by (metis cs.remove_eq)

lemma c_table_remove_absent:
  "c_table t \<Longrightarrow> table_map t k = None \<Longrightarrow> ov_hashtable_remove (Some t) (Some k) = (Some t, None)"
  by (simp add: c_table_def cs.remove_absent)

lemma c_table_create:
  assumes "n \<noteq> 0"
  obtains t :: "(string, 'v) ov_hashtable" where
    "ov_hashtable_create_c_string n = Some t" "c_table t" "table_map t = Map.empty"
proof -
  have "unat n \<noteq> 0" "unat n < 2 ^ 32"
    using assms unsigned_less [of n] by (auto simp: unat_eq_0 intro: less_trans)
  from create_eq [OF this, of "\<lambda>_. 0" c_string_funcs] show thesis
    unfolding ov_hashtable_create_c_string_def c_table_def
    by (metis that cs.cmp_given cs.copy_given cs.hash_given c_table_def ov_hashtable_create_c_string_def)
qed

lemma for_each_entry_True:
  assumes "\<forall>k v a. snd (p k v a)"
  shows "for_each_entry p es arg n = (True, foldl (\<lambda>a (k, v). fst (p k v a)) arg es, n + length es)"
  using assms by (induction es arbitrary: arg n) (auto split: prod.splits bool.splits, metis snd_conv)

subsection \<open>Properties\<close>

text \<open>
  C10: The table with C string keys implements a map. On a well-formed table a
  lookup and a containment test read the map; an insertion and a removal return the value
  that was stored before, keep the invariant and update the map at that key only.
\<close>

theorem hashtable_refines_map:
  assumes "c_table t"
  shows "ov_hashtable_get (Some t) (Some k) = Option.bind (table_map t k) id \<and>
    (ov_hashtable_contains (Some t) (Some k) \<longleftrightarrow> k \<in> dom (table_map t)) \<and>
    (\<exists>t'. ov_hashtable_set (Some t) (Some k) v = (Some t', Option.bind (table_map t k) id) \<and>
       c_table t' \<and> table_map t' = (table_map t)(k \<mapsto> v)) \<and>
    (\<exists>t'. ov_hashtable_remove (Some t) (Some k) = (Some t', Option.bind (table_map t k) id) \<and>
       c_table t' \<and> table_map t' = (table_map t)(k := None))"
  using c_table_simps [OF assms] c_table_set [OF assms] c_table_remove [OF assms] by metis

theorem hashtable_refines_map_witness:
  "\<exists>t t' :: (string, nat) ov_hashtable. ov_hashtable_create_c_string 3 = Some t \<and> c_table t \<and>
     ov_hashtable_set (Some t) (Some ''key'') (Some 7) = (Some t', None) \<and> c_table t' \<and>
     table_map t' = [''key'' \<mapsto> Some 7]"
proof -
  obtain t :: "(string, nat) ov_hashtable" where t: "ov_hashtable_create_c_string 3 = Some t" "c_table t"
    "table_map t = Map.empty"
    using c_table_create [of 3] by auto
  from hashtable_refines_map [OF t(2), of "''key''" "Some 7"] t show ?thesis by auto
qed

text \<open>
  An iteration whose callback never asks to stop calls it exactly once for
  each stored entry and returns their number.
\<close>

theorem hashtable_for_each_all:
  assumes "c_table t" "\<forall>k v a. snd (p k v a)"
  shows "\<exists>es. distinct (map fst es) \<and> (\<forall>k v. (k, v) \<in> set es \<longleftrightarrow> table_map t k = Some v) \<and>
    ov_hashtable_for_each (Some t) (Some p) arg = (foldl (\<lambda>a (k, v). fst (p k v a)) arg es, length es)"
proof -
  have "table_inv t" using assms(1) by (simp add: c_table_def)
  then show ?thesis
    using all_entries_map [of t] by (intro exI [of _ "all_entries t"]) (simp add: for_each_eq for_each_entry_True [OF assms(2)])
qed

theorem hashtable_for_each_all_witness:
  "\<exists>t :: (string, nat) ov_hashtable. c_table t \<and> table_map t = [''key'' \<mapsto> Some 7] \<and>
     snd (ov_hashtable_for_each (Some t) (Some (\<lambda>k v n. (Suc n, True))) (0 :: nat)) = 1"
proof -
  obtain t0 :: "(string, nat) ov_hashtable" where t0: "c_table t0" "table_map t0 = Map.empty"
    using c_table_create [of 3] by auto
  obtain t :: "(string, nat) ov_hashtable" where t: "c_table t" "table_map t = [''key'' \<mapsto> Some 7]"
    using c_table_set [OF t0(1), of "''key''" "Some 7"] t0(2) by metis
  have p: "\<forall>(k :: string) (v :: nat option) n. snd ((\<lambda>k v n. (Suc n, True)) k v n)" by simp
  from hashtable_for_each_all [OF t(1) p, of 0] obtain es where es: "distinct (map fst es)"
    "\<forall>k v. (k, v) \<in> set es \<longleftrightarrow> table_map t k = Some v"
    "snd (ov_hashtable_for_each (Some t) (Some (\<lambda>k v n. (Suc n, True))) 0) = length es" by auto
  have "x \<in> set es \<longleftrightarrow> x = (''key'', Some 7)" for x
    using es(2) [rule_format, of "fst x" "snd x"] unfolding t(2) by (cases x) (simp split: if_splits, auto)
  then have "set es = {(''key'', Some 7)}" by auto
  with distinct_card [of es] es(1) have "length es = 1" by (simp add: distinct_map)
  with t es(3) show ?thesis by auto
qed

text \<open>
  The default comparison converts a pointer difference to \<open>int\<close>: two keys whose addresses
  are 4 GiB apart share one entry.
\<close>

theorem default_table_merges_keys:
  "\<exists>t t' t'' :: (u64, nat) ov_hashtable.
     ov_hashtable_create id 4 \<lparr>key_copy = None, key_cmp = None, hash = None\<rparr> = Some t \<and>
     ov_hashtable_set (Some t) (Some 0x100) (Some 1) = (Some t', None) \<and>
     ov_hashtable_set (Some t') (Some 0x100000100) (Some 2) = (Some t'', Some 1) \<and>
     ov_hashtable_get (Some t'') (Some 0x100) = Some 2"
  by (simp add: ov_hashtable_create_def ov_hashtable_set_def get_entry_for_def ov_hashtable_get_def
      key_copy_func_default_def key_cmp_func_default_def hash_func_default_def update_bucket_def Let_def)

end
