(* ===== verification/Ov_Vm_Prog.thy ===== *)
theory Ov_Vm_Prog
  imports Ov_Prelude
begin

text \<open>
  A program of the VM, \<open>ov_vm/src/ov_vm_prog.c\<close>, and the result value it carries,
  \<open>ov_base/src/utils/ov_result.c\<close>.

  A program pointer is an option (\<open>None\<close>: NULL). Setters return the program after the call.
  The instructions are a list: reading behind either end of it is undefined in C and is
  \<open>None\<close> here. The program counter stays far below the range of \<open>ssize_t\<close>. \<open>time(0)\<close> is
  an argument.
\<close>

subsection \<open>Results\<close>

record ov_result =
  error_code :: u64
  message :: "string option"

definition OV_ERROR_NOERROR :: int where
  "OV_ERROR_NOERROR = 0"

definition OV_ERROR_INVALID_RESULT :: int where
  "OV_ERROR_INVALID_RESULT = 30030"

definition ov_result_set :: "ov_result option \<Rightarrow> int \<Rightarrow> string option \<Rightarrow> ov_result option \<times> bool" where
  "ov_result_set result err msg =
    (case result of
       None \<Rightarrow> (None, False)
     | Some r \<Rightarrow>
         if err = OV_ERROR_NOERROR \<and> msg \<noteq> None then (Some r, False)
         else if msg = None \<and> err \<noteq> OV_ERROR_NOERROR then (Some r, False)
         else (Some \<lparr>error_code = word_of_int err, message = msg\<rparr>, True))"

definition ov_result_get_message :: "ov_result \<Rightarrow> string" where
  "ov_result_get_message result = (case message result of None \<Rightarrow> [] | Some m \<Rightarrow> m)"

definition ov_result_clear :: "ov_result option \<Rightarrow> ov_result option \<times> bool" where
  "ov_result_clear result =
    (case result of
       None \<Rightarrow> (None, False)
     | Some r \<Rightarrow> (Some \<lparr>error_code = 0, message = None\<rparr>, True))"

subsection \<open>Programs\<close>

record ov_vm_instr =
  opcode :: u8
  args :: "u8 list"

definition OP_END :: u8 where "OP_END = 0"

definition OP_NOP :: u8 where "OP_NOP = 0xFD"

definition OP_INVALID :: u8 where "OP_INVALID = 0xFE"

datatype ov_vm_prog_status =
  OV_VM_PROG_OK | OV_VM_PROG_ABORTING | OV_VM_PROG_FAILED_TO_ABORT | OV_VM_PROG_INVALID

datatype ov_vm_retval =
  OC_ERROR | OC_NEXT | OC_FINISHED | OC_WAIT_AND_NEXT | OC_WAIT_AND_REPEAT

definition OV_VM_PROG_ID_MAX_LEN :: nat where
  "OV_VM_PROG_ID_MAX_LEN = 255"

record 'd ov_vm_prog =
  prog_id :: string
  instructions :: "ov_vm_instr list"
  data :: "'d option"
  program_counter :: int
  state :: ov_vm_prog_status
  error :: ov_result
  last_instr_retval :: ov_vm_retval
  prog_started_epoch_secs :: int

definition ov_vm_prog_status_to_string :: "ov_vm_prog_status \<Rightarrow> string" where
  "ov_vm_prog_status_to_string status =
    (case status of
       OV_VM_PROG_OK \<Rightarrow> ''OK''
     | OV_VM_PROG_ABORTING \<Rightarrow> ''ABORTING''
     | OV_VM_PROG_FAILED_TO_ABORT \<Rightarrow> ''FAILED_TO_ABORT''
     | OV_VM_PROG_INVALID \<Rightarrow> ''INVALID'')"

definition ov_vm_prog_state :: "'d ov_vm_prog option \<Rightarrow> ov_vm_prog_status" where
  "ov_vm_prog_state prog = (case prog of None \<Rightarrow> OV_VM_PROG_INVALID | Some p \<Rightarrow> state p)"

definition ov_vm_prog_state_set :: "'d ov_vm_prog option \<Rightarrow> ov_vm_prog_status \<Rightarrow> 'd ov_vm_prog option" where
  "ov_vm_prog_state_set prog new_state = map_option (\<lambda>p. p\<lparr>state := new_state\<rparr>) prog"

definition ov_vm_prog_instructions_set ::
  "'d ov_vm_prog option \<Rightarrow> ov_vm_instr list \<Rightarrow> 'd ov_vm_prog option \<times> bool" where
  "ov_vm_prog_instructions_set prog instr =
    (map_option (\<lambda>p. p\<lparr>instructions := instr\<rparr>) prog, prog \<noteq> None)"

definition ov_vm_prog_instructions :: "'d ov_vm_prog option \<Rightarrow> ov_vm_instr list option" where
  "ov_vm_prog_instructions prog = map_option instructions prog"

definition ov_vm_prog_current_instr :: "'d ov_vm_prog option \<Rightarrow> ov_vm_instr option" where
  "ov_vm_prog_current_instr prog =
    (case prog of
       None \<Rightarrow> Some \<lparr>opcode = OP_INVALID, args = [0, 0, 0]\<rparr>
     | Some p \<Rightarrow>
         if 0 \<le> program_counter p \<and> nat (program_counter p) < length (instructions p)
         then Some (instructions p ! nat (program_counter p)) else None)"

definition ov_vm_prog_id :: "'d ov_vm_prog option \<Rightarrow> string" where
  "ov_vm_prog_id prog = (case prog of None \<Rightarrow> ''INVALID_PROGRAM'' | Some p \<Rightarrow> prog_id p)"

text \<open>\<open>strncpy\<close> into the array of the program, whose last byte is then set to 0.\<close>

definition ov_vm_prog_id_set :: "'d ov_vm_prog option \<Rightarrow> string \<Rightarrow> 'd ov_vm_prog option \<times> bool" where
  "ov_vm_prog_id_set prog new_id =
    (map_option (\<lambda>p. p\<lparr>prog_id := take (OV_VM_PROG_ID_MAX_LEN - 1) new_id\<rparr>) prog, prog \<noteq> None)"

definition ov_vm_prog_data :: "'d ov_vm_prog option \<Rightarrow> 'd option" where
  "ov_vm_prog_data prog = (case prog of None \<Rightarrow> None | Some p \<Rightarrow> data p)"

definition ov_vm_prog_data_set :: "'d ov_vm_prog option \<Rightarrow> 'd option \<Rightarrow> 'd ov_vm_prog option \<times> bool" where
  "ov_vm_prog_data_set prog d = (map_option (\<lambda>p. p\<lparr>data := d\<rparr>) prog, prog \<noteq> None)"

definition ov_vm_prog_result :: "'d ov_vm_prog option \<Rightarrow> ov_result" where
  "ov_vm_prog_result prog =
    (let res = (case prog of
                  Some p \<Rightarrow> error p
                | None \<Rightarrow> \<lparr>error_code = word_of_int OV_ERROR_INVALID_RESULT,
                           message = Some ''Could not get result of program - program is invalid''\<rparr>)
     in if message res = None then res\<lparr>message := Some ''No Message''\<rparr> else res)"

definition ov_vm_prog_result_set ::
  "'d ov_vm_prog option \<Rightarrow> int \<Rightarrow> string option \<Rightarrow> 'd ov_vm_prog option" where
  "ov_vm_prog_result_set prog err_code msg =
    map_option (\<lambda>p. p\<lparr>error := the (fst (ov_result_set (Some (error p)) err_code msg))\<rparr>) prog"

definition ov_vm_prog_program_counter :: "'d ov_vm_prog option \<Rightarrow> int" where
  "ov_vm_prog_program_counter prog = (case prog of None \<Rightarrow> -1 | Some p \<Rightarrow> program_counter p)"

definition ov_vm_prog_program_counter_reset :: "'d ov_vm_prog option \<Rightarrow> 'd ov_vm_prog option \<times> bool" where
  "ov_vm_prog_program_counter_reset prog =
    (map_option (\<lambda>p. p\<lparr>program_counter := 0\<rparr>) prog, prog \<noteq> None)"

text \<open>Tracing is switched on at compile time.\<close>

definition OV_TRACE_ACTIVE :: bool where
  "OV_TRACE_ACTIVE \<longleftrightarrow> True"

definition ov_vm_prog_propagate_program_counter :: "int \<Rightarrow> 'd ov_vm_prog option \<Rightarrow> 'd ov_vm_prog option" where
  "ov_vm_prog_propagate_program_counter now prog =
    (let traced = (if OV_TRACE_ACTIVE then map_option (\<lambda>p. p\<lparr>prog_started_epoch_secs := now\<rparr>) prog else prog)
     in (case ov_vm_prog_state prog of
           OV_VM_PROG_OK \<Rightarrow> map_option (\<lambda>p. p\<lparr>program_counter := program_counter p + 1\<rparr>) traced
         | OV_VM_PROG_ABORTING \<Rightarrow> map_option (\<lambda>p. p\<lparr>program_counter := program_counter p - 1\<rparr>) traced
         | _ \<Rightarrow> traced))"

definition ov_vm_prog_set_last_instr_retval ::
  "'d ov_vm_prog option \<Rightarrow> ov_vm_retval \<Rightarrow> 'd ov_vm_prog option \<times> bool" where
  "ov_vm_prog_set_last_instr_retval prog retval =
    (map_option (\<lambda>p. p\<lparr>last_instr_retval := retval\<rparr>) prog, prog \<noteq> None)"

definition ov_vm_prog_get_last_instr_retval :: "'d ov_vm_prog option \<Rightarrow> ov_vm_retval" where
  "ov_vm_prog_get_last_instr_retval prog =
    (case prog of None \<Rightarrow> OC_ERROR | Some p \<Rightarrow> last_instr_retval p)"

definition ov_vm_prog_reset_prog_started :: "'d ov_vm_prog option \<Rightarrow> 'd ov_vm_prog option \<times> bool" where
  "ov_vm_prog_reset_prog_started prog =
    (map_option (\<lambda>p. p\<lparr>prog_started_epoch_secs := 0\<rparr>) prog, prog \<noteq> None)"

lemmas prog_defs [simp] =
  ov_vm_prog_state_def ov_vm_prog_state_set_def ov_vm_prog_instructions_set_def
  ov_vm_prog_instructions_def ov_vm_prog_id_def ov_vm_prog_data_def ov_vm_prog_data_set_def
  ov_vm_prog_program_counter_def ov_vm_prog_program_counter_reset_def
  ov_vm_prog_set_last_instr_retval_def ov_vm_prog_get_last_instr_retval_def
  ov_vm_prog_reset_prog_started_def OV_TRACE_ACTIVE_def

end
