(* ===== verification/Ov_Vm_Prog_Db.thy ===== *)
theory Ov_Vm_Prog_Db
  imports Ov_Vm_Prog Ov_Hashtable
begin

text \<open>
  The program database of the VM, \<open>ov_vm/src/ov_vm_prog_db.c\<close>: a fixed pool of program
  slots, a stack of the free ones, a table from program ids to slots and a table from
  aliases to program ids.

  A \<open>ProgState *\<close> is the index of a slot of the pool. A call of the release callback is
  recorded in \<open>released\<close> with the data it was given (\<open>release_given\<close>: the callback is not
  NULL). \<open>ov_time_get_current_time_usecs()\<close> is an argument.
\<close>

record 'd ProgState =
  public :: "'d ov_vm_prog"
  start_time_epoch_usecs :: u64

record 'd ov_vm_prog_db =
  store :: "(string, nat) ov_hashtable option"
  aliases :: "(string, string) ov_hashtable option"
  pool_states :: "'d ProgState list"
  available_states :: "nat option list"
  topmost_usable_slot_index :: nat
  available_capacity :: nat
  release_given :: bool
  released :: "'d list"

definition DEFAULT_NUMBER_SLOTS :: nat where
  "DEFAULT_NUMBER_SLOTS = 64"

definition ov_string_len :: "string option \<Rightarrow> nat" where
  "ov_string_len str = (case str of None \<Rightarrow> 0 | Some s \<Rightarrow> length s)"

text \<open>\<open>ov_string_dup\<close> refuses strings of 255 and more characters.\<close>

definition ov_string_dup :: "string option \<Rightarrow> string option" where
  "ov_string_dup to_dup =
    (case to_dup of
       None \<Rightarrow> None
     | Some s \<Rightarrow>
         let len = min (length s) 255
         in if 255 < len + 1 \<or> len < length s then None else Some s)"

definition is_id_valid :: "string option \<Rightarrow> bool" where
  "is_id_valid pid =
    (let len = ov_string_len pid
     in if len = 0 then False else if OV_VM_PROG_ID_MAX_LEN \<le> len then False else True)"

definition get_store :: "'d ov_vm_prog_db option \<Rightarrow> (string, nat) ov_hashtable option" where
  "get_store self = (case self of None \<Rightarrow> None | Some db \<Rightarrow> store db)"

definition get_aliases :: "'d ov_vm_prog_db option \<Rightarrow> (string, string) ov_hashtable option" where
  "get_aliases self = (case self of None \<Rightarrow> None | Some db \<Rightarrow> aliases db)"

definition release_data :: "'d option \<Rightarrow> bool \<Rightarrow> 'd list \<Rightarrow> 'd list" where
  "release_data d releaser log =
    (case d of Some x \<Rightarrow> if releaser then log @ [x] else log | None \<Rightarrow> log)"

text \<open>The state afterwards, and the log of released data.\<close>

definition clear_state :: "'d ProgState \<Rightarrow> bool \<Rightarrow> 'd list \<Rightarrow> 'd ProgState \<times> 'd list" where
  "clear_state st releaser log =
    (let prog = Some (public st);
         log' = release_data (ov_vm_prog_data prog) releaser log;
         prog1 = fst (ov_vm_prog_data_set prog None);
         prog2 = ov_vm_prog_result_set prog1 OV_ERROR_NOERROR None;
         prog3 = fst (ov_vm_prog_program_counter_reset prog2);
         prog4 = ov_vm_prog_state_set prog3 OV_VM_PROG_INVALID
     in (\<lparr>public = the prog4, start_time_epoch_usecs = - 1\<rparr>, log'))"

definition prog_for_id_internal :: "(string, nat) ov_hashtable option \<Rightarrow> string option \<Rightarrow> nat option" where
  "prog_for_id_internal s pid = ov_hashtable_get s pid"

definition get_unaliased_id :: "(string, string) ov_hashtable option \<Rightarrow> string option \<Rightarrow> string option" where
  "get_unaliased_id als alias =
    (let pid = ov_hashtable_get als alias
     in if alias = None then None else if pid = None then alias else pid)"

definition db_prog_for_id :: "'d ov_vm_prog_db option \<Rightarrow> string option \<Rightarrow> nat option" where
  "db_prog_for_id self pid =
    prog_for_id_internal (get_store self) (get_unaliased_id (get_aliases self) pid)"

subsection \<open>Creation and disposal\<close>

text \<open>A zeroed slot, as \<open>calloc\<close> returns it.\<close>

definition zero_state :: "'d ProgState" where
  "zero_state =
    \<lparr>public = \<lparr>prog_id = [], instructions = [], data = None, program_counter = 0,
        state = OV_VM_PROG_OK, error = \<lparr>error_code = 0, message = None\<rparr>,
        last_instr_retval = OC_NEXT, prog_started_epoch_secs = 0\<rparr>,
     start_time_epoch_usecs = 0\<rparr>"

text \<open>
  \<open>None\<close>: an assertion fails and the process stops. The tables get \<open>slots\<close> converted to
  \<open>uint8_t\<close> as their number of buckets.
\<close>

definition ov_vm_prog_db_create :: "nat \<Rightarrow> bool \<Rightarrow> 'd ov_vm_prog_db option" where
  "ov_vm_prog_db_create slots0 release_data_given =
    (let slots = (if slots0 = 0 then DEFAULT_NUMBER_SLOTS else slots0);
         s = ov_hashtable_create_c_string (of_nat slots);
         a = ov_hashtable_create_c_string (of_nat slots)
     in if s = None then None else if a = None then None
        else Some
          \<lparr>store = s, aliases = a,
           pool_states = map (\<lambda>i. fst (clear_state zero_state False [])) [0..<slots],
           available_states = None # map Some [0..<slots],
           topmost_usable_slot_index = slots, available_capacity = slots,
           release_given = release_data_given, released = []\<rparr>)"

fun clear_states :: "'d ProgState list \<Rightarrow> bool \<Rightarrow> 'd list \<Rightarrow> 'd ProgState list \<times> 'd list" where
  "clear_states [] releaser log = ([], log)"
| "clear_states (st # sts) releaser log =
    (let (st', log') = clear_state st releaser log;
         (sts', log'') = clear_states sts releaser log'
     in (st' # sts', log''))"

text \<open>Everything is freed; the result is what the release callback was called with.\<close>

definition ov_vm_prog_db_free :: "'d ov_vm_prog_db option \<Rightarrow> 'd list" where
  "ov_vm_prog_db_free self =
    (case self of
       None \<Rightarrow> []
     | Some db \<Rightarrow> snd (clear_states (pool_states db) (release_given db) (released db)))"

subsection \<open>Lookup and insertion\<close>

definition ov_vm_prog_db_get :: "'d ov_vm_prog_db option \<Rightarrow> string option \<Rightarrow> nat option" where
  "ov_vm_prog_db_get self pid =
    (if self = None \<or> \<not> is_id_valid pid then None else db_prog_for_id self pid)"

definition upd_slot :: "'d ov_vm_prog_db \<Rightarrow> nat \<Rightarrow> ('d ProgState \<Rightarrow> 'd ProgState) \<Rightarrow> 'd ov_vm_prog_db" where
  "upd_slot db i f = db\<lparr>pool_states := (pool_states db)[i := f (pool_states db ! i)]\<rparr>"

definition upd_prog ::
  "'d ov_vm_prog_db \<Rightarrow> nat \<Rightarrow> ('d ov_vm_prog option \<Rightarrow> 'd ov_vm_prog option) \<Rightarrow> 'd ov_vm_prog_db" where
  "upd_prog db i f = upd_slot db i (\<lambda>st. st\<lparr>public := the (f (Some (public st)))\<rparr>)"

definition register_prog_unsafe :: "'d ov_vm_prog_db \<Rightarrow> nat \<Rightarrow> 'd ov_vm_prog_db \<times> nat option" where
  "register_prog_unsafe db prog =
    (let db1 = upd_prog db prog (\<lambda>p. fst (ov_vm_prog_reset_prog_started p));
         pid = ov_vm_prog_id (Some (public (pool_states db1 ! prog)));
         (s, old) = ov_hashtable_set (store db1) (Some pid) (Some prog);
         db2 = db1\<lparr>store := s\<rparr>
     in if old \<noteq> None then (db2, None) else (db2, Some prog))"

definition fresh_prog_state_unsafe :: "'d ov_vm_prog_db \<Rightarrow> 'd ov_vm_prog_db \<times> nat option" where
  "fresh_prog_state_unsafe db =
    (let index = topmost_usable_slot_index db
     in if index = 0 then (db, None)
        else (db\<lparr>available_states := (available_states db)[index := None],
                 topmost_usable_slot_index := index - 1\<rparr>, available_states db ! index))"

definition init_prog_state_unsafe ::
  "'d ov_vm_prog_db \<Rightarrow> nat \<Rightarrow> string \<Rightarrow> ov_vm_instr list \<Rightarrow> 'd option \<Rightarrow> 'd ov_vm_prog_db" where
  "init_prog_state_unsafe db prog_state pid instr d =
    upd_prog db prog_state
      (\<lambda>p0. let p1 = fst (ov_vm_prog_id_set p0 pid);
                p2 = ov_vm_prog_state_set p1 OV_VM_PROG_OK;
                p3 = fst (ov_vm_prog_instructions_set p2 instr);
                p4 = fst (ov_vm_prog_program_counter_reset p3);
                p5 = fst (ov_vm_prog_data_set p4 d);
                p6 = ov_vm_prog_result_set p5 OV_ERROR_NOERROR None
            in fst (ov_vm_prog_set_last_instr_retval p6 OC_NEXT))"

definition already_registered :: "'d ov_vm_prog_db option \<Rightarrow> string option \<Rightarrow> bool" where
  "already_registered self pid = (ov_vm_prog_db_get self pid \<noteq> None)"

definition insert_prog ::
  "u64 \<Rightarrow> 'd ov_vm_prog_db \<Rightarrow> nat option \<Rightarrow> string \<Rightarrow> ov_vm_instr list \<Rightarrow> 'd option \<Rightarrow>
   'd ov_vm_prog_db \<times> nat option" where
  "insert_prog now db prog pid instr d =
    (case prog of
       None \<Rightarrow> (db, None)
     | Some p \<Rightarrow>
         let db1 = upd_slot db p (\<lambda>st. st\<lparr>start_time_epoch_usecs := now\<rparr>)
         in register_prog_unsafe (init_prog_state_unsafe db1 p pid instr d) p)"

definition ov_vm_prog_db_insert ::
  "u64 \<Rightarrow> 'd ov_vm_prog_db option \<Rightarrow> string option \<Rightarrow> ov_vm_instr list option \<Rightarrow> 'd option \<Rightarrow>
   'd ov_vm_prog_db option \<times> nat option" where
  "ov_vm_prog_db_insert now self pid instr d =
    (if get_store self = None \<or> \<not> is_id_valid pid \<or> instr = None \<or> already_registered self pid
     then (self, None)
     else let (db1, prog) = fresh_prog_state_unsafe (the self);
              (db2, r) = insert_prog now db1 prog (the pid) (the instr) d
          in (Some db2, r))"

definition ov_vm_prog_db_alias ::
  "'d ov_vm_prog_db option \<Rightarrow> string option \<Rightarrow> string option \<Rightarrow> 'd ov_vm_prog_db option \<times> bool" where
  "ov_vm_prog_db_alias self pid alias =
    (let als = get_aliases self;
         unaliased_id = get_unaliased_id als pid;
         prog_of_id = ov_vm_prog_db_get self unaliased_id;
         prog_of_alias = ov_vm_prog_db_get self alias
     in if als = None \<or> alias = None then (self, False)
        else if prog_of_id = None then (self, False)
        else if prog_of_id = prog_of_alias then (self, True)
        else if prog_of_alias \<noteq> None then (self, False)
        else (map_option (\<lambda>db. db\<lparr>aliases :=
                 fst (ov_hashtable_set als alias (ov_string_dup unaliased_id))\<rparr>) self, True))"


subsection \<open>Removal\<close>

text \<open>\<open>None\<close>: the assertion on the capacity fails.\<close>

definition release_prog :: "'d ov_vm_prog_db option \<Rightarrow> nat option \<Rightarrow> ('d ov_vm_prog_db option \<times> bool) option" where
  "release_prog self prog =
    (case self of
       None \<Rightarrow> Some (None, False)
     | Some db \<Rightarrow>
         (case prog of
            None \<Rightarrow> Some (Some db, True)
          | Some p \<Rightarrow>
              let ti = topmost_usable_slot_index db + 1
              in if available_capacity db < ti then None
                 else let (st, log) = clear_state (pool_states db ! p) (release_given db) (released db)
                      in Some (Some (db\<lparr>pool_states := (pool_states db)[p := st], released := log,
                            available_states := (available_states db)[ti := Some p],
                            topmost_usable_slot_index := ti\<rparr>), True)))"

text \<open>
  \<open>struct gather_aliases_for_struct\<close> as the six pointers it consists of in memory: the five
  cells of \<open>aliases\<close>, followed by \<open>id\<close>. \<open>insert_alias_if_space_left\<close> runs its index up to 5
  and so reads \<open>id\<close> as a sixth cell.
\<close>

type_synonym gather = "string option list"

function insert_alias_loop :: "gather \<Rightarrow> string \<Rightarrow> nat \<Rightarrow> gather \<times> bool" where
  "insert_alias_loop ga_arg alias i =
    (if i < 6 then
       (if ga_arg ! i = None then (ga_arg[i := Some alias], True)
        else insert_alias_loop ga_arg alias (i + 1))
     else (ga_arg, False))"
  by pat_completeness auto
termination
  by (relation "measure (\<lambda>(ga_arg, alias, i). 6 - i)") auto

declare insert_alias_loop.simps [simp del]

definition insert_alias_if_space_left :: "gather \<Rightarrow> string \<Rightarrow> gather \<times> bool" where
  "insert_alias_if_space_left ga_arg alias = insert_alias_loop ga_arg alias 0"

definition gather_aliases_for :: "string \<Rightarrow> string option \<Rightarrow> gather \<Rightarrow> gather \<times> bool" where
  "gather_aliases_for key val ga_arg =
    (if val \<noteq> None \<and> ga_arg ! 5 \<noteq> None \<and> strcmp (the val) (the (ga_arg ! 5)) = 0
     then insert_alias_if_space_left ga_arg key else (ga_arg, True))"

text \<open>The \<open>for\<close> loop over the gathered cells, and the \<open>memset\<close> of the cells.\<close>

fun remove_gathered ::
  "(string, string) ov_hashtable option \<Rightarrow> string option list \<Rightarrow> (string, string) ov_hashtable option" where
  "remove_gathered als [] = als"
| "remove_gathered als (None # cells) = remove_gathered als cells"
| "remove_gathered als (Some a # cells) = remove_gathered (fst (ov_hashtable_remove als (Some a))) cells"

text \<open>
  The \<open>while\<close> loop. Every round removes at least one entry of the table, so the number of
  entries bounds the rounds; \<open>remove_aliases_for\<close> starts with more fuel than that.
\<close>

fun remove_aliases_loop ::
  "nat \<Rightarrow> (string, string) ov_hashtable option \<Rightarrow> gather \<Rightarrow> (string, string) ov_hashtable option" where
  "remove_aliases_loop 0 als ga_arg = als"
| "remove_aliases_loop (Suc fuel) als ga_arg =
    (if ga_arg ! 0 \<noteq> None then
       let als' = remove_gathered als (take 5 ga_arg);
           ga_arg' = replicate 5 None @ drop 5 ga_arg
       in remove_aliases_loop fuel als' (fst (ov_hashtable_for_each als' (Some gather_aliases_for) ga_arg'))
     else als)"

definition remove_aliases_for ::
  "(string, string) ov_hashtable option \<Rightarrow> string option \<Rightarrow> (string, string) ov_hashtable option" where
  "remove_aliases_for als pid =
    (let ga_arg = replicate 5 None @ [pid];
         fuel = (case als of None \<Rightarrow> 0 | Some t \<Rightarrow> length (all_entries t)) + 1
     in remove_aliases_loop fuel als (fst (ov_hashtable_for_each als (Some gather_aliases_for) ga_arg)))"

definition remove_internal ::
  "'d ov_vm_prog_db option \<Rightarrow> string option \<Rightarrow> ('d ov_vm_prog_db option \<times> bool) option" where
  "remove_internal self pid =
    (let (s, prog) = ov_hashtable_remove (get_store self) pid;
         self1 = map_option (\<lambda>db. db\<lparr>store := s\<rparr>) self
     in (case release_prog self1 prog of
           None \<Rightarrow> None
         | Some (self2, ok) \<Rightarrow>
             if ok then Some (map_option (\<lambda>db. db\<lparr>aliases := remove_aliases_for (get_aliases self2) pid\<rparr>) self2, True)
             else Some (self2, False)))"

definition ov_vm_prog_db_remove ::
  "'d ov_vm_prog_db option \<Rightarrow> string option \<Rightarrow> ('d ov_vm_prog_db option \<times> bool) option" where
  "ov_vm_prog_db_remove self pid = remove_internal self (get_unaliased_id (get_aliases self) pid)"

subsection \<open>Time\<close>

definition ov_vm_prog_db_update_time ::
  "u64 \<Rightarrow> 'd ov_vm_prog_db option \<Rightarrow> string option \<Rightarrow> 'd ov_vm_prog_db option \<times> bool" where
  "ov_vm_prog_db_update_time now self pid =
    (case db_prog_for_id self pid of
       None \<Rightarrow> (self, False)
     | Some st \<Rightarrow>
         if self = None \<or> \<not> is_id_valid pid then (self, False)
         else (map_option (\<lambda>db. upd_slot db st (\<lambda>s. s\<lparr>start_time_epoch_usecs := now\<rparr>)) self, True))"

fun next_due_unsafe :: "'d ProgState list \<Rightarrow> u64 \<Rightarrow> string option" where
  "next_due_unsafe [] limit = None"
| "next_due_unsafe (st # sts) limit =
    (if limit > start_time_epoch_usecs st then Some (ov_vm_prog_id (Some (public st)))
     else next_due_unsafe sts limit)"

definition ov_vm_prog_db_next_due :: "'d ov_vm_prog_db option \<Rightarrow> u64 \<Rightarrow> string option" where
  "ov_vm_prog_db_next_due self limit =
    (case self of None \<Rightarrow> None | Some db \<Rightarrow> next_due_unsafe (pool_states db) limit)"

subsection \<open>Iteration\<close>

text \<open>The callback reads the program behind the stored slot; \<open>arg\<close> is passed through.\<close>

definition process_wrapper ::
  "'d ov_vm_prog_db \<Rightarrow> (string \<Rightarrow> 'd ov_vm_prog \<Rightarrow> u64 \<Rightarrow> 'a \<Rightarrow> 'a \<times> bool) \<Rightarrow>
   string \<Rightarrow> nat option \<Rightarrow> 'a \<Rightarrow> 'a \<times> bool" where
  "process_wrapper db process key val arg =
    (case val of
       None \<Rightarrow> (arg, False)
     | Some i \<Rightarrow> process key (public (pool_states db ! i)) (start_time_epoch_usecs (pool_states db ! i)) arg)"

definition ov_vm_prog_db_for_each ::
  "'d ov_vm_prog_db option \<Rightarrow> (string \<Rightarrow> 'd ov_vm_prog \<Rightarrow> u64 \<Rightarrow> 'a \<Rightarrow> 'a \<times> bool) option \<Rightarrow> 'a \<Rightarrow> 'a \<times> bool" where
  "ov_vm_prog_db_for_each self process arg =
    (case (get_store self, process) of
       (Some s, Some p) \<Rightarrow>
         (fst (ov_hashtable_for_each (Some s) (Some (process_wrapper (the self) p)) arg), True)
     | _ \<Rightarrow> (arg, False))"

text \<open>The counts that \<open>ov_vm_prog_db_dump\<close> prints: slots in use, unused, and available.\<close>

definition dump_state_unsafe :: "'d ProgState \<Rightarrow> nat" where
  "dump_state_unsafe st = (if start_time_epoch_usecs st = - 1 then 0 else 1)"

fun dump_states_unsafe :: "'d ProgState list \<Rightarrow> nat" where
  "dump_states_unsafe [] = 0"
| "dump_states_unsafe (st # sts) = dump_state_unsafe st + dump_states_unsafe sts"

definition ov_vm_prog_db_dump :: "'d ov_vm_prog_db \<Rightarrow> nat \<times> nat \<times> nat \<times> nat" where
  "ov_vm_prog_db_dump self =
    (let in_use = dump_states_unsafe (pool_states self); capacity = length (pool_states self)
     in (capacity, in_use, capacity - in_use, topmost_usable_slot_index self))"

subsection \<open>Reference definitions\<close>

text \<open>
  The abstract state of a database: the map from program ids to slots, the map from aliases to
  ids, and the free slots. \<open>pad\<close> and \<open>matches\<close> describe the gathered aliases.
\<close>

definition pad :: "string list \<Rightarrow> string \<Rightarrow> gather" where
  "pad ks pid = map Some ks @ replicate (5 - length ks) None @ [Some pid]"

definition matches :: "string \<Rightarrow> (string, string) table_entry list \<Rightarrow> string list" where
  "matches pid es = map fst (filter (\<lambda>e. snd e = Some pid) es)"

definition drop_matches :: "string \<Rightarrow> (string \<rightharpoonup> string option) \<Rightarrow> (string \<rightharpoonup> string option)" where
  "drop_matches pid m = (\<lambda>k. if m k = Some (Some pid) then None else m k)"

definition progs :: "'d ov_vm_prog_db \<Rightarrow> string \<rightharpoonup> nat" where
  "progs db pid = Option.bind (table_map (the (store db)) pid) id"

definition alias_map :: "'d ov_vm_prog_db \<Rightarrow> string \<rightharpoonup> string" where
  "alias_map db k = Option.bind (table_map (the (aliases db)) k) id"

definition free_slots :: "'d ov_vm_prog_db \<Rightarrow> nat option list" where
  "free_slots db = take (topmost_usable_slot_index db) (drop 1 (available_states db))"

definition slot_cleared :: "'d ProgState \<Rightarrow> bool" where
  "slot_cleared st \<longleftrightarrow> start_time_epoch_usecs st = - 1 \<and> data (public st) = None \<and>
     state (public st) = OV_VM_PROG_INVALID"

definition db_inv :: "'d ov_vm_prog_db \<Rightarrow> bool" where
  "db_inv db \<longleftrightarrow>
    store db \<noteq> None \<and> c_table (the (store db)) \<and> None \<notin> ran (table_map (the (store db))) \<and>
    aliases db \<noteq> None \<and> c_table (the (aliases db)) \<and> None \<notin> ran (table_map (the (aliases db))) \<and>
    available_capacity db = length (pool_states db) \<and>
    length (available_states db) = Suc (length (pool_states db)) \<and>
    topmost_usable_slot_index db \<le> length (pool_states db) \<and>
    (\<forall>pid i. progs db pid = Some i \<longrightarrow>
       i < length (pool_states db) \<and> prog_id (public (pool_states db ! i)) = pid \<and> is_id_valid (Some pid)) \<and>
    distinct (free_slots db) \<and>
    set (free_slots db) = Some ` ({..<length (pool_states db)} - ran (progs db)) \<and>
    (\<forall>i < length (pool_states db). i \<notin> ran (progs db) \<longrightarrow> slot_cleared (pool_states db ! i)) \<and>
    ran (alias_map db) \<subseteq> dom (progs db) \<and> dom (alias_map db) \<inter> dom (progs db) = {}"

definition unalias :: "'d ov_vm_prog_db \<Rightarrow> string \<Rightarrow> string" where
  "unalias db k = (case alias_map db k of None \<Rightarrow> k | Some pid \<Rightarrow> pid)"

text \<open>The slot a program of an id gets: its content after an insertion.\<close>

definition new_prog :: "'d ov_vm_prog \<Rightarrow> string \<Rightarrow> ov_vm_instr list \<Rightarrow> 'd option \<Rightarrow> 'd ov_vm_prog" where
  "new_prog p pid instr d = p\<lparr>prog_id := pid, state := OV_VM_PROG_OK,
     instructions := instr, program_counter := 0, data := d, error := \<lparr>error_code = 0, message = None\<rparr>, last_instr_retval := OC_NEXT,
     prog_started_epoch_secs := 0\<rparr>"

definition cleared :: "'d ProgState \<Rightarrow> 'd ProgState" where
  "cleared st = fst (clear_state st False [])"

definition released_data :: "'d ov_vm_prog_db \<Rightarrow> nat \<Rightarrow> 'd list" where
  "released_data db i =
    (case data (public (pool_states db ! i)) of Some d \<Rightarrow> if release_given db then [d] else [] | None \<Rightarrow> [])"

lemma insert_alias_loop_free:
  "i \<le> j \<Longrightarrow> j < 6 \<Longrightarrow> ga ! j = None \<Longrightarrow> \<forall>k<j. ga ! k \<noteq> None \<Longrightarrow> insert_alias_loop ga a i = (ga[j := Some a], True)"
proof (induction "j - i" arbitrary: i)
  case 0
  then show ?case by (subst insert_alias_loop.simps) auto
next
  case (Suc d)
  then have "i < j" by simp
  with Suc.prems(4) obtain y where "ga ! i = Some y" by blast
  moreover have "insert_alias_loop ga a (i + 1) = (ga[j := Some a], True)"
    using Suc.hyps(2) \<open>i < j\<close> Suc.prems by (intro Suc.hyps(1)) auto
  ultimately show ?case using \<open>i < j\<close> Suc.prems(2) by (subst insert_alias_loop.simps) simp
qed

lemma insert_alias_loop_full: "\<forall>k<6. ga ! k \<noteq> None \<Longrightarrow> insert_alias_loop ga a i = (ga, False)"
  by (induction "6 - i" arbitrary: i) (subst insert_alias_loop.simps, auto)+

lemma nth_pad:
  "length ks \<le> 5 \<Longrightarrow> pad ks pid ! 5 = Some pid"
  "i < length ks \<Longrightarrow> pad ks pid ! i = Some (ks ! i)"
  "length ks \<le> i \<Longrightarrow> i < 5 \<Longrightarrow> pad ks pid ! i = None"
  by (auto simp: pad_def nth_append)

lemma insert_alias_pad:
  assumes "length ks \<le> 5"
  shows "insert_alias_if_space_left (pad ks pid) a =
    (if length ks < 5 then (pad (ks @ [a]) pid, True) else (pad ks pid, False))"
proof (cases "length ks < 5")
  case True
  then have "replicate (5 - length ks) (None :: string option) = None # replicate (4 - length ks) None"
    by (simp flip: replicate_Suc add: Suc_diff_le)
  then have "(pad ks pid)[length ks := Some a] = pad (ks @ [a]) pid"
    by (simp add: pad_def list_update_append)
  with True show ?thesis
    by (simp add: insert_alias_if_space_left_def insert_alias_loop_free [of 0 "length ks"] nth_pad)
next
  case False
  with assms have l: "length ks = 5" by simp
  have "pad ks pid ! k \<noteq> None" if "k < 6" for k
    using that l nth_pad(1) [of ks pid] nth_pad(2) [of k ks pid] by (cases "k = 5") auto
  with False show ?thesis by (simp add: insert_alias_if_space_left_def insert_alias_loop_full)
qed

lemma gather_run:
  assumes "length ks \<le> 5"
  shows "fst (snd (for_each_entry gather_aliases_for es (pad ks pid) n)) = pad (take 5 (ks @ matches pid es)) pid"
  using assms
proof (induction es arbitrary: ks n)
  case (Cons e es)
  obtain k v where e: "e = (k, v)" by (cases e)
  have g: "gather_aliases_for k v (pad ks pid) =
      (if v = Some pid then insert_alias_if_space_left (pad ks pid) k else (pad ks pid, True))"
    using Cons.prems by (auto simp: gather_aliases_for_def nth_pad strcmp_eq)
  show ?case using Cons.prems Cons.IH [of "ks @ [k]"] Cons.IH [of ks]
    by (auto simp: e g insert_alias_pad matches_def)
qed (simp add: matches_def)

lemma gather_eq:
  assumes "c_table t"
  shows "fst (ov_hashtable_for_each (Some t) (Some gather_aliases_for) (replicate 5 None @ [Some pid])) =
    pad (take 5 (matches pid (all_entries t))) pid"
  using gather_run [of "[]" "all_entries t" pid 0] assms by (simp add: for_each_eq c_table_def pad_def)

lemma matches_set:
  assumes "c_table t"
  shows "set (matches pid (all_entries t)) = {k. table_map t k = Some (Some pid)}"
    "distinct (matches pid (all_entries t))"
  using all_entries_map [of t] assms
  by (auto simp: c_table_def matches_def intro!: distinct_map_filter rev_image_eqI)

lemma remove_gathered_eq:
  assumes "c_table t"
  obtains t' where "remove_gathered (Some t) (map Some ks @ replicate m None) = Some t'" "c_table t'"
    "table_map t' = (\<lambda>k. if k \<in> set ks then None else table_map t k)"
  using assms
proof (induction ks arbitrary: t thesis)
  case Nil
  have "remove_gathered (Some t) (replicate m None) = Some t" by (induction m) auto
  with Nil show ?case by auto
next
  case (Cons k ks)
  obtain t1 where t1: "ov_hashtable_remove (Some t) (Some k) = (Some t1, Option.bind (table_map t k) id)"
    "c_table t1" "table_map t1 = (table_map t)(k := None)"
    using c_table_remove [OF Cons.prems(2)] by metis
  from Cons.IH [OF _ t1(2)] obtain t' where t': "remove_gathered (Some t1) (map Some ks @ replicate m None) = Some t'"
    "c_table t'" "table_map t' = (\<lambda>k. if k \<in> set ks then None else table_map t1 k)" by metis
  show ?case by (rule Cons.prems(1) [of t']) (use t1 t' in auto)
qed

lemma remove_aliases_loop_eq:
  assumes "c_table t" "card {k. table_map t k = Some (Some pid)} < fuel"
  obtains t' where "remove_aliases_loop fuel (Some t) (pad (take 5 (matches pid (all_entries t))) pid) = Some t'"
    "c_table t'" "table_map t' = drop_matches pid (table_map t)"
  using assms
proof (induction fuel arbitrary: t thesis)
  case (Suc fuel)
  let ?ms = "matches pid (all_entries t)" and ?S = "{k. table_map t k = Some (Some pid)}"
  note ms = matches_set [OF Suc.prems(2), of pid]
  have fin: "finite ?S" unfolding ms(1) [symmetric] by simp
  show ?case
  proof (cases "?ms = []")
    case True
    then have "table_map t = drop_matches pid (table_map t)" using ms(1) by (auto simp: drop_matches_def)
    with True Suc.prems(1) [of t] Suc.prems(2) show ?thesis by (simp add: nth_pad(3))
  next
    case False
    let ?ks = "take 5 ?ms"
    have ne: "?ks \<noteq> []" and l: "length ?ks \<le> 5" using False by auto
    have p0: "pad ?ks pid ! 0 \<noteq> None" using ne nth_pad(2) [of 0 ?ks pid] by simp
    have p5: "take 5 (pad ?ks pid) = map Some ?ks @ replicate (5 - length ?ks) None"
      "drop 5 (pad ?ks pid) = [Some pid]"
      using l by (auto simp: pad_def)
    obtain t1 where t1: "remove_gathered (Some t) (take 5 (pad ?ks pid)) = Some t1" "c_table t1"
      "table_map t1 = (\<lambda>k. if k \<in> set ?ks then None else table_map t k)"
      unfolding p5(1) by (rule remove_gathered_eq [OF Suc.prems(2)])
    have sub: "{k. table_map t1 k = Some (Some pid)} = ?S - set ?ks" using t1(3) by auto
    have sset: "set ?ks \<subseteq> ?S" unfolding ms(1) [symmetric] by (rule set_take_subset)
    moreover obtain x where "x \<in> set ?ks" using ne last_in_set by blast
    ultimately have "card (?S - set ?ks) < card ?S"
      using fin by (intro psubset_card_mono) blast+
    with Suc.prems(3) sub have "card {k. table_map t1 k = Some (Some pid)} < fuel" by simp
    from Suc.IH [OF _ t1(2) this] obtain t' where t': "c_table t'"
      "remove_aliases_loop fuel (Some t1) (pad (take 5 (matches pid (all_entries t1))) pid) = Some t'"
      "table_map t' = drop_matches pid (table_map t1)" by metis
    have "drop_matches pid (table_map t1) = drop_matches pid (table_map t)"
      using sset t1(3) by (auto simp: drop_matches_def fun_eq_iff)
    with t' t1 p0 p5(2) show ?thesis
      by (intro Suc.prems(1) [of t']) (simp_all add: gather_eq Let_def)
  qed
qed simp

lemma remove_aliases_for_eq:
  assumes "c_table t"
  obtains t' where "remove_aliases_for (Some t) (Some pid) = Some t'" "c_table t'"
    "table_map t' = drop_matches pid (table_map t)"
proof -
  have "card {k. table_map t k = Some (Some pid)} = length (matches pid (all_entries t))"
    using matches_set [OF assms, of pid] by (metis distinct_card)
  also have "\<dots> < length (all_entries t) + 1" by (simp add: matches_def less_Suc_eq_le)
  finally show thesis
    using remove_aliases_loop_eq [OF assms] that
    by (metis gather_eq [OF assms] remove_aliases_for_def option.case(2))
qed


lemma db_invD:
  assumes "db_inv db"
  shows "store db = Some (the (store db))" "c_table (the (store db))" "None \<notin> ran (table_map (the (store db)))"
    "aliases db = Some (the (aliases db))" "c_table (the (aliases db))" "None \<notin> ran (table_map (the (aliases db)))"
    "available_capacity db = length (pool_states db)"
    "length (available_states db) = Suc (length (pool_states db))"
    "topmost_usable_slot_index db \<le> length (pool_states db)"
    "progs db pid = Some i \<Longrightarrow> i < length (pool_states db)"
    "progs db pid = Some i \<Longrightarrow> prog_id (public (pool_states db ! i)) = pid"
    "progs db pid = Some i \<Longrightarrow> is_id_valid (Some pid)"
    "distinct (free_slots db)"
    "set (free_slots db) = Some ` ({..<length (pool_states db)} - ran (progs db))"
    "i < length (pool_states db) \<Longrightarrow> i \<notin> ran (progs db) \<Longrightarrow> slot_cleared (pool_states db ! i)"
    "alias_map db k = Some pid \<Longrightarrow> pid \<in> dom (progs db)"
    "alias_map db k = Some pid \<Longrightarrow> k \<notin> dom (progs db)"
  using assms by (auto simp: db_inv_def ran_def)

lemma progs_inj:
  assumes "db_inv db" "progs db pid = Some i" "progs db pid' = Some i"
  shows "pid = pid'"
  using db_invD(11) [OF assms(1,2)] db_invD(11) [OF assms(1,3)] by simp

lemma unaliased_eq:
  assumes "db_inv db"
  shows "get_unaliased_id (get_aliases (Some db)) (Some k) = Some (unalias db k)"
  using assms by (auto simp: db_inv_def get_unaliased_id_def get_aliases_def c_table_simps
      unalias_def alias_map_def Let_def split: option.splits)

lemma store_get_eq:
  assumes "db_inv db"
  shows "ov_hashtable_get (get_store (Some db)) (Some pid) = progs db pid"
  using assms by (auto simp: db_inv_def get_store_def c_table_simps progs_def)

lemma prog_for_id_eq:
  assumes "db_inv db"
  shows "db_prog_for_id (Some db) (Some k) = progs db (unalias db k)"
  by (simp add: db_prog_for_id_def unaliased_eq [OF assms] prog_for_id_internal_def store_get_eq [OF assms])

lemma db_get_eq:
  assumes "db_inv db"
  shows "ov_vm_prog_db_get (Some db) (Some k) = (if is_id_valid (Some k) then progs db (unalias db k) else None)"
  by (simp add: ov_vm_prog_db_get_def prog_for_id_eq [OF assms])

lemma is_id_valid_None [simp]: "\<not> is_id_valid None"
  by (simp add: is_id_valid_def ov_string_len_def)

lemma is_id_valid_Some: "is_id_valid (Some k) \<longleftrightarrow> 0 < length k \<and> length k < 255"
  by (auto simp: is_id_valid_def ov_string_len_def OV_VM_PROG_ID_MAX_LEN_def)

lemma db_get_None [simp]: "ov_vm_prog_db_get self None = None"
  by (simp add: ov_vm_prog_db_get_def)

lemma unalias_progs: "db_inv db \<Longrightarrow> pid \<in> dom (progs db) \<Longrightarrow> unalias db pid = pid"
  by (auto simp: unalias_def db_inv_def split: option.splits)

lemma bind_id_None: "None \<notin> ran m \<Longrightarrow> Option.bind (m k) id = None \<longleftrightarrow> m k = None"
  by (cases "m k"; cases "the (m k)") (auto simp: ran_def)

lemma dom_progs: "db_inv db \<Longrightarrow> dom (progs db) = dom (table_map (the (store db)))"
  by (simp only: dom_def progs_def bind_id_None [OF db_invD(3)])

lemma upd_slot_simps [simp]:
  "store (upd_slot db i f) = store db" "aliases (upd_slot db i f) = aliases db"
  "available_states (upd_slot db i f) = available_states db"
  "topmost_usable_slot_index (upd_slot db i f) = topmost_usable_slot_index db"
  "available_capacity (upd_slot db i f) = available_capacity db"
  "release_given (upd_slot db i f) = release_given db" "released (upd_slot db i f) = released db"
  "length (pool_states (upd_slot db i f)) = length (pool_states db)"
  "progs (upd_slot db i f) = progs db" "alias_map (upd_slot db i f) = alias_map db"
  "free_slots (upd_slot db i f) = free_slots db"
  by (auto simp: upd_slot_def progs_def alias_map_def free_slots_def fun_eq_iff)

lemma ProgState_update: "st\<lparr>start_time_epoch_usecs := n, public := p\<rparr> = \<lparr>public = p, start_time_epoch_usecs = n\<rparr>"
  for st :: "'d ProgState"
  by (cases st) simp

lemma pool_upd_slot [simp]: "pool_states (upd_slot db i f) = (pool_states db)[i := f (pool_states db ! i)]"
  by (simp add: upd_slot_def)

lemma free_slots_top:
  assumes "db_inv db" "0 < topmost_usable_slot_index db"
  obtains i where "available_states db ! topmost_usable_slot_index db = Some i"
    "i < length (pool_states db)" "i \<notin> ran (progs db)"
    "free_slots db = take (topmost_usable_slot_index db - 1) (drop 1 (available_states db)) @ [Some i]"
proof -
  let ?n = "topmost_usable_slot_index db"
  have l: "length (free_slots db) = ?n" "?n < length (available_states db)"
    using assms by (auto simp: free_slots_def db_inv_def)
  obtain m where "?n = Suc m" using assms(2) by (cases ?n) auto
  with l(2) have f: "free_slots db = take (?n - 1) (drop 1 (available_states db)) @ [available_states db ! ?n]"
    by (simp add: free_slots_def take_Suc_conv_app_nth)
  then have "available_states db ! ?n \<in> set (free_slots db)" by simp
  with assms(1) obtain i where "available_states db ! ?n = Some i" "i < length (pool_states db)"
    "i \<notin> ran (progs db)" by (auto simp: db_inv_def)
  with f show thesis by (intro that [of i]) auto
qed

lemma insert_eq:
  assumes inv: "db_inv db" and valid: "is_id_valid (Some pid)" and new: "progs db (unalias db pid) = None"
    and room: "0 < topmost_usable_slot_index db"
  obtains i db' where "ov_vm_prog_db_insert now (Some db) (Some pid) (Some instr) d = (Some db', Some i)"
    "db_inv db'" "progs db' = (progs db)(pid \<mapsto> i)" "alias_map db' = alias_map db"
    "i < length (pool_states db)" "i \<notin> ran (progs db)"
    "pool_states db' = (pool_states db)[i := \<lparr>public = new_prog (public (pool_states db ! i)) pid instr d,
        start_time_epoch_usecs = now\<rparr>]"
    "topmost_usable_slot_index db' = topmost_usable_slot_index db - 1"
    "release_given db' = release_given db" "released db' = released db"
proof -
  let ?n = "topmost_usable_slot_index db"
  obtain i where i: "available_states db ! ?n = Some i" "i < length (pool_states db)" "i \<notin> ran (progs db)"
    "free_slots db = take (?n - 1) (drop 1 (available_states db)) @ [Some i]"
    using free_slots_top [OF inv room] .
  obtain s where s: "store db = Some s" "c_table s" using inv by (auto simp: db_inv_def)
  have pid: "pid \<notin> dom (progs db)" "alias_map db pid = None"
  proof -
    show "pid \<notin> dom (progs db)" using new unalias_progs [OF inv, of pid] by force
    show "alias_map db pid = None"
      using new db_invD(16) [OF inv, of pid] by (cases "alias_map db pid") (auto simp: unalias_def)
  qed
  then have no: "table_map s pid = None" using dom_progs [OF inv] s by auto
  obtain s' where s': "ov_hashtable_set (Some s) (Some pid) (Some i) = (Some s', None)" "c_table s'"
    "table_map s' = (table_map s)(pid \<mapsto> Some i)"
    using c_table_set [OF s(2), of pid "Some i"] no by auto
  define st where "st = \<lparr>public = new_prog (public (pool_states db ! i)) pid instr d, start_time_epoch_usecs = now\<rparr>"
  define db' where "db' = db\<lparr>available_states := (available_states db)[?n := None],
    topmost_usable_slot_index := ?n - 1, pool_states := (pool_states db)[i := st], store := Some s'\<rparr>"
  have len: "take 254 pid = pid" using valid by (simp add: is_id_valid_Some)
  have "ov_vm_prog_db_insert now (Some db) (Some pid) (Some instr) d = (Some db', Some i)"
    using s s'(1) i(1,2) room new valid
    by (simp add: ov_vm_prog_db_insert_def get_store_def already_registered_def db_get_eq [OF inv]
        fresh_prog_state_unsafe_def insert_prog_def register_prog_unsafe_def init_prog_state_unsafe_def
        upd_prog_def upd_slot_def ov_vm_prog_id_set_def ov_vm_prog_result_set_def ov_result_set_def
        OV_VM_PROG_ID_MAX_LEN_def OV_ERROR_NOERROR_def len db'_def st_def new_prog_def Let_def ProgState_update)
  moreover have p: "progs db' = (progs db)(pid \<mapsto> i)"
    using s s'(3) by (auto simp: db'_def progs_def fun_eq_iff)
  moreover have a: "alias_map db' = alias_map db" by (auto simp: db'_def alias_map_def fun_eq_iff)
  moreover have f: "free_slots db' = take (?n - 1) (drop 1 (available_states db))"
    using room by (simp add: db'_def free_slots_def drop_update_swap)
  moreover have "db_inv db'"
  proof -
    have r: "ran (progs db') = insert i (ran (progs db))" using pid(1) unfolding p by (simp add: ran_map_upd dom_def)
    have d: "distinct (free_slots db')" "Some i \<notin> set (free_slots db')"
      using db_invD(13) [OF inv] unfolding f i(4) by auto
    then have fs: "set (free_slots db') = set (free_slots db) - {Some i}" unfolding f i(4) by auto
    have l: "length (pool_states db') = length (pool_states db)" by (simp add: db'_def)
    show ?thesis
      unfolding db_inv_def a
    proof (intro conjI allI impI)
      fix pid' i'
      assume "progs db' pid' = Some i'"
      then have *: "pid' = pid \<and> i' = i \<or> progs db pid' = Some i' \<and> i' \<noteq> i"
        using i(3) unfolding p by (auto split: if_splits simp: ranI)
      show "i' < length (pool_states db')" "is_id_valid (Some pid')"
        using * db_invD(10,12) [OF inv] i(2) valid by (auto simp: db'_def)
      show "prog_id (public (pool_states db' ! i')) = pid'"
        using * db_invD(11) [OF inv] i(2) by (auto simp: db'_def st_def new_prog_def)
    next
      fix j assume "j < length (pool_states db')" "j \<notin> ran (progs db')"
      then show "slot_cleared (pool_states db' ! j)"
        using db_invD(15) [OF inv] r by (auto simp: db'_def)
    next
      show "set (free_slots db') = Some ` ({..<length (pool_states db')} - ran (progs db'))"
        unfolding fs r l db_invD(14) [OF inv] by auto
      show "ran (alias_map db) \<subseteq> dom (progs db')"
        using db_invD(16) [OF inv] unfolding p by (auto simp: ran_def)
      show "dom (alias_map db) \<inter> dom (progs db') = {}"
        using pid(2) unfolding p by (auto dest!: db_invD(17) [OF inv])
    qed (use s s' d db_invD(2-9) [OF inv] room in \<open>auto simp: db'_def ran_def split: if_splits\<close>)
  qed
  ultimately show thesis
    using i by (intro that [of db' i]) (auto simp: db'_def st_def)
qed


lemma length_free_slots:
  assumes "db_inv db"
  shows "length (free_slots db) = topmost_usable_slot_index db"
    "topmost_usable_slot_index db = length (pool_states db) - card (ran (progs db))"
    "finite (ran (progs db))" "ran (progs db) \<subseteq> {..<length (pool_states db)}"
proof -
  show l: "length (free_slots db) = topmost_usable_slot_index db"
    using db_invD(8,9) [OF assms] by (simp add: free_slots_def)
  show sub: "ran (progs db) \<subseteq> {..<length (pool_states db)}"
    using db_invD(10) [OF assms] by (auto simp: ran_def)
  then show fin: "finite (ran (progs db))" using finite_subset by blast
  have "card (set (free_slots db)) = card ({..<length (pool_states db)} - ran (progs db))"
    unfolding db_invD(14) [OF assms] by (intro card_image) simp
  then show "topmost_usable_slot_index db = length (pool_states db) - card (ran (progs db))"
    using distinct_card [OF db_invD(13) [OF assms]] l card_Diff_subset [OF fin sub] by simp
qed

lemma clear_state_eq: "clear_state st r log = (cleared st, log @ (case data (public st) of Some d \<Rightarrow> if r then [d] else [] | None \<Rightarrow> []))"
  by (simp add: clear_state_def cleared_def Let_def release_data_def split: option.splits)

lemma slot_cleared_cleared [simp]: "slot_cleared (cleared st)"
  by (simp add: slot_cleared_def cleared_def clear_state_def Let_def ov_vm_prog_result_set_def)

lemma alias_drop_matches:
  assumes "table_map a' = drop_matches pid (table_map a)"
  shows "Option.bind (table_map a' k) id =
    (if Option.bind (table_map a k) id = Some pid then None else Option.bind (table_map a k) id)"
  unfolding assms by (cases "table_map a k") (auto simp: drop_matches_def)

lemma db_remove_eq:
  assumes inv: "db_inv db" and i: "progs db (unalias db k) = Some i"
  obtains db' where "ov_vm_prog_db_remove (Some db) (Some k) = Some (Some db', True)" "db_inv db'"
    "progs db' = (progs db)(unalias db k := None)"
    "alias_map db' = (\<lambda>a. if alias_map db a = Some (unalias db k) then None else alias_map db a)"
    "pool_states db' = (pool_states db)[i := cleared (pool_states db ! i)]"
    "released db' = released db @ released_data db i" "release_given db' = release_given db"
    "topmost_usable_slot_index db' = topmost_usable_slot_index db + 1"
proof -
  let ?pid = "unalias db k" and ?n = "topmost_usable_slot_index db"
  obtain s a where sa: "store db = Some s" "c_table s" "None \<notin> ran (table_map s)"
    "aliases db = Some a" "c_table a" "None \<notin> ran (table_map a)"
    using db_invD(1-6) [OF inv] by metis
  have ts: "table_map s ?pid = Some (Some i)"
    using i sa by (auto simp: progs_def bind_eq_Some_conv)
  obtain s' where s': "ov_hashtable_remove (Some s) (Some ?pid) = (Some s', Some i)" "c_table s'"
    "table_map s' = (table_map s)(?pid := None)"
    using c_table_remove [OF sa(2), of ?pid] ts by auto
  obtain a' where a': "remove_aliases_for (Some a) (Some ?pid) = Some a'" "c_table a'"
    "table_map a' = drop_matches ?pid (table_map a)"
    using remove_aliases_for_eq [OF sa(5)] by blast
  have il: "i < length (pool_states db)" using db_invD(10) [OF inv i] .
  have ir: "i \<in> ran (progs db)" using i by (rule ranI)
  then have "card (ran (progs db)) \<noteq> 0" using length_free_slots(3) [OF inv] by auto
  then have room: "Suc ?n \<le> length (pool_states db)" using length_free_slots(2) [OF inv] il by linarith
  define db' where "db' = db\<lparr>store := Some s', pool_states := (pool_states db)[i := cleared (pool_states db ! i)],
    released := released db @ released_data db i, available_states := (available_states db)[Suc ?n := Some i],
    topmost_usable_slot_index := Suc ?n, aliases := Some a'\<rparr>"
  have "ov_vm_prog_db_remove (Some db) (Some k) = Some (Some db', True)"
    using sa s'(1) a'(1) room db_invD(7) [OF inv]
    unfolding ov_vm_prog_db_remove_def unaliased_eq [OF inv] remove_internal_def
    by (simp add: get_store_def release_prog_def get_aliases_def clear_state_eq db'_def Let_def released_data_def)
  moreover have p: "progs db' = (progs db)(?pid := None)"
    using sa s'(3) by (auto simp: db'_def progs_def fun_eq_iff)
  moreover have am: "alias_map db' = (\<lambda>x. if alias_map db x = Some ?pid then None else alias_map db x)"
    using sa(4) alias_drop_matches [OF a'(3)] by (simp add: db'_def alias_map_def fun_eq_iff)
  moreover have f: "free_slots db' = free_slots db @ [Some i]"
    using db_invD(8) [OF inv] room
    by (simp add: db'_def free_slots_def drop_update_swap take_Suc_conv_app_nth)
  moreover have "db_inv db'"
  proof -
    have r: "ran (progs db') = ran (progs db) - {i}"
      using i unfolding p by (auto simp: ran_def dest: progs_inj [OF inv i]) (metis option.inject)
    have l: "length (pool_states db') = length (pool_states db)" by (simp add: db'_def)
    show ?thesis
      unfolding db_inv_def
    proof (intro conjI allI impI)
      fix pid' i'
      assume "progs db' pid' = Some i'"
      then have *: "progs db pid' = Some i'" "i' \<noteq> i"
        unfolding p by (auto split: if_splits dest: progs_inj [OF inv i])
      then show "i' < length (pool_states db')" "is_id_valid (Some pid')"
        "prog_id (public (pool_states db' ! i')) = pid'"
        using db_invD(10-12) [OF inv *(1)] by (auto simp: db'_def)
    next
      fix j assume "j < length (pool_states db')" "j \<notin> ran (progs db')"
      then show "slot_cleared (pool_states db' ! j)"
        using db_invD(15) [OF inv, of j] r by (cases "j = i") (auto simp: db'_def)
    next
      show "set (free_slots db') = Some ` ({..<length (pool_states db')} - ran (progs db'))"
        unfolding f r l using db_invD(14) [OF inv] il by auto
      show "distinct (free_slots db')"
        unfolding f using db_invD(13,14) [OF inv] ir by auto
      show "ran (alias_map db') \<subseteq> dom (progs db')"
        using db_invD(16) [OF inv] unfolding p am by (auto simp: ran_def)
      show "dom (alias_map db') \<inter> dom (progs db') = {}"
        unfolding p am by (auto dest!: db_invD(17) [OF inv] split: if_splits)
      show "None \<notin> ran (table_map (the (store db')))" "None \<notin> ran (table_map (the (aliases db')))"
        using sa s'(3) a'(3) by (auto simp: db'_def ran_def drop_matches_def split: if_splits)
    qed (use sa s' a' db_invD(7-9) [OF inv] room in \<open>auto simp: db'_def\<close>)
  qed
  ultimately show thesis
    by (intro that [of db']) (auto simp: db'_def)
qed


lemma db_remove_absent:
  assumes inv: "db_inv db" and none: "progs db (unalias db k) = None"
  shows "ov_vm_prog_db_remove (Some db) (Some k) = Some (Some db, True)"
proof -
  let ?pid = "unalias db k"
  obtain s a where sa: "store db = Some s" "c_table s" "None \<notin> ran (table_map s)"
    "aliases db = Some a" "c_table a"
    using db_invD(1-5) [OF inv] by metis
  have "table_map s ?pid = None"
    using none bind_id_None [OF sa(3), of ?pid] sa(1) by (simp add: progs_def)
  then have s: "ov_hashtable_remove (Some s) (Some ?pid) = (Some s, None)"
    by (rule c_table_remove_absent [OF sa(2)])
  have no: "alias_map db x \<noteq> Some ?pid" for x using db_invD(16) [OF inv, of x ?pid] none by auto
  have "table_map a x \<noteq> Some (Some ?pid)" for x
    using sa(4) no [of x] by (auto simp: alias_map_def)
  then have "set (matches ?pid (all_entries a)) = {}" unfolding matches_set(1) [OF sa(5)] by simp
  then have "matches ?pid (all_entries a) = []" by simp
  then have a: "remove_aliases_for (Some a) (Some ?pid) = Some a"
    by (simp add: remove_aliases_for_def gather_eq [OF sa(5)] nth_pad(3))
  show ?thesis
    using sa s a unfolding ov_vm_prog_db_remove_def unaliased_eq [OF inv] remove_internal_def
    by (simp add: get_store_def release_prog_def get_aliases_def)
qed

lemma db_alias_eq:
  assumes inv: "db_inv db" and i: "progs db (unalias db pid) = Some i"
    and free: "ov_vm_prog_db_get (Some db) (Some alias) = None"
  obtains db' where "ov_vm_prog_db_alias (Some db) (Some pid) (Some alias) = (Some db', True)" "db_inv db'"
    "progs db' = progs db" "alias_map db' = (alias_map db)(alias \<mapsto> unalias db pid)"
    "pool_states db' = pool_states db" "released db' = released db" "release_given db' = release_given db"
    "free_slots db' = free_slots db"
proof -
  let ?pid = "unalias db pid"
  obtain a where a: "aliases db = Some a" "c_table a" "None \<notin> ran (table_map a)"
    using db_invD(4-6) [OF inv] by metis
  have dom: "?pid \<in> dom (progs db)" and valid: "is_id_valid (Some ?pid)"
    using i db_invD(12) [OF inv i] by auto
  obtain a' old where a': "ov_hashtable_set (Some a) (Some alias) (Some ?pid) = (Some a', old)" "c_table a'"
    "table_map a' = (table_map a)(alias \<mapsto> Some ?pid)"
    using c_table_set [OF a(2)] by metis
  have dup: "ov_string_dup (Some ?pid) = Some ?pid"
    using valid by (simp add: ov_string_dup_def is_id_valid_Some)
  have get: "ov_vm_prog_db_get (Some db) (Some ?pid) = Some i"
    using unalias_progs [OF inv dom] valid i by (simp add: db_get_eq [OF inv])
  define db' where "db' = db\<lparr>aliases := Some a'\<rparr>"
  have "ov_vm_prog_db_alias (Some db) (Some pid) (Some alias) = (Some db', True)"
    unfolding ov_vm_prog_db_alias_def unaliased_eq [OF inv] Let_def get dup free
    using a(1) a'(1) by (simp add: get_aliases_def db'_def)
  moreover have p: "progs db' = progs db" "free_slots db' = free_slots db"
    by (simp_all add: db'_def progs_def free_slots_def fun_eq_iff)
  moreover have am: "alias_map db' = (alias_map db)(alias \<mapsto> ?pid)"
    using a(1) a'(3) by (simp add: db'_def alias_map_def fun_eq_iff)
  moreover have "alias \<notin> dom (progs db)"
  proof
    assume *: "alias \<in> dom (progs db)"
    then have "is_id_valid (Some alias)" using db_invD(12) [OF inv] by auto
    with * free unalias_progs [OF inv *] show False by (auto simp: db_get_eq [OF inv])
  qed
  then have "db_inv db'"
    using inv dom a' a unfolding db_inv_def p am
    by (auto simp: db'_def ran_def dom_def split: if_splits)
  ultimately show thesis by (intro that [of db']) (auto simp: db'_def)
qed

lemma db_create_eq:
  fixes r :: bool
  assumes "(if slots = 0 then 64 else slots) mod 256 \<noteq> 0"
  obtains db :: "'d ov_vm_prog_db" where "ov_vm_prog_db_create slots r = Some db" "db_inv db"
    "progs db = Map.empty" "alias_map db = Map.empty" "released db = []" "release_given db = r"
    "length (pool_states db) = (if slots = 0 then 64 else slots)"
    "topmost_usable_slot_index db = (if slots = 0 then 64 else slots)"
proof -
  define n where "n = (if slots = 0 then 64 else slots)"
  have w: "(of_nat n :: u8) \<noteq> 0"
  proof
    assume "(of_nat n :: u8) = 0"
    then have "unat (of_nat n :: u8) = 0" by simp
    with assms show False by (simp add: unat_of_nat take_bit_eq_mod flip: n_def)
  qed
  obtain s :: "(string, nat) ov_hashtable" where s: "ov_hashtable_create_c_string (of_nat n) = Some s"
    "c_table s" "table_map s = Map.empty" using c_table_create [OF w] by blast
  obtain a :: "(string, string) ov_hashtable" where a: "ov_hashtable_create_c_string (of_nat n) = Some a"
    "c_table a" "table_map a = Map.empty" using c_table_create [OF w] by blast
  define db :: "'d ov_vm_prog_db" where "db = the (ov_vm_prog_db_create slots r)"
  have db: "ov_vm_prog_db_create slots r = Some db"
    unfolding db_def ov_vm_prog_db_create_def DEFAULT_NUMBER_SLOTS_def n_def [symmetric] Let_def
    using s(1) a(1) by simp
  then have f: "store db = Some s" "aliases db = Some a"
    "pool_states db = map (\<lambda>i. cleared zero_state) [0..<n]" "available_states db = None # map Some [0..<n]"
    "topmost_usable_slot_index db = n" "available_capacity db = n" "released db = []" "release_given db = r"
    unfolding ov_vm_prog_db_create_def DEFAULT_NUMBER_SLOTS_def n_def [symmetric] Let_def
    using s(1) a(1) by (auto simp: cleared_def)
  then have p: "progs db = Map.empty" "alias_map db = Map.empty"
    using s(3) a(3) by (simp_all add: progs_def alias_map_def fun_eq_iff)
  have "free_slots db = map Some [0..<n]" by (simp add: free_slots_def f)
  with f p s a have "db_inv db"
    by (auto simp: db_inv_def distinct_map lessThan_atLeast0)
  with db p f show thesis by (intro that [of db]) (auto simp: n_def)
qed

lemma next_due_eq:
  assumes "db_inv db"
  shows "(case ov_vm_prog_db_next_due (Some db) limit of
     None \<Rightarrow> \<forall>pid i. progs db pid = Some i \<longrightarrow> limit \<le> start_time_epoch_usecs (pool_states db ! i)
   | Some pid \<Rightarrow> \<exists>i. progs db pid = Some i \<and> start_time_epoch_usecs (pool_states db ! i) < limit)"
proof -
  have due: "case next_due_unsafe sts limit of
       None \<Rightarrow> \<forall>st \<in> set sts. limit \<le> start_time_epoch_usecs st
     | Some pid \<Rightarrow> \<exists>st \<in> set sts. prog_id (public st) = pid \<and> start_time_epoch_usecs st < limit" for sts :: "'a ProgState list"
    by (induction sts) (auto split: option.splits)
  show ?thesis
  proof (cases "next_due_unsafe (pool_states db) limit")
    case None
    with due [of "pool_states db"] show ?thesis
      using db_invD(10) [OF assms] by (auto simp: ov_vm_prog_db_next_due_def)
  next
    case (Some pid)
    with due [of "pool_states db"] obtain i where i: "i < length (pool_states db)"
      "prog_id (public (pool_states db ! i)) = pid" "start_time_epoch_usecs (pool_states db ! i) < limit"
      by (auto simp: in_set_conv_nth)
    have "\<not> slot_cleared (pool_states db ! i)"
      using i(3) by (auto simp: slot_cleared_def)
    then obtain pid' where "progs db pid' = Some i" using db_invD(15) [OF assms i(1)] by (auto simp: ran_def)
    with db_invD(11) [OF assms] i Some show ?thesis by (auto simp: ov_vm_prog_db_next_due_def)
  qed
qed


lemma insert_reject:
  assumes "db_inv db" "\<not> is_id_valid pid \<or> instr = None \<or> ov_vm_prog_db_get (Some db) pid \<noteq> None \<or>
    topmost_usable_slot_index db = 0"
  shows "ov_vm_prog_db_insert now (Some db) pid instr d = (Some db, None)"
  using assms by (auto simp: ov_vm_prog_db_insert_def already_registered_def fresh_prog_state_unsafe_def
      insert_prog_def)

lemma get_unaliased:
  assumes inv: "db_inv db"
  shows "ov_vm_prog_db_get (Some db) (get_unaliased_id (get_aliases (Some db)) (Some p)) = progs db (unalias db p)"
proof (cases "progs db (unalias db p)")
  case None
  then have "alias_map db p = None" using db_invD(16) [OF inv, of p] by (cases "alias_map db p") (auto simp: unalias_def)
  then show ?thesis using None by (simp add: unaliased_eq [OF inv] db_get_eq [OF inv] unalias_def)
next
  case (Some i)
  then have "unalias db (unalias db p) = unalias db p" using unalias_progs [OF inv] by blast
  then show ?thesis using Some db_invD(12) [OF inv Some]
    by (simp add: unaliased_eq [OF inv] db_get_eq [OF inv])
qed

lemma alias_unchanged:
  assumes inv: "db_inv db"
    and "progs db (unalias db p) = None \<or> ov_vm_prog_db_get (Some db) (Some a) \<noteq> None"
  shows "ov_vm_prog_db_alias (Some db) (Some p) (Some a) =
    (Some db, progs db (unalias db p) \<noteq> None \<and> ov_vm_prog_db_get (Some db) (Some a) = progs db (unalias db p))"
proof -
  have "get_aliases (Some db) \<noteq> None" using inv by (auto simp: get_aliases_def db_inv_def)
  with assms(2) show ?thesis
    unfolding ov_vm_prog_db_alias_def Let_def get_unaliased [OF inv] by auto
qed

lemma alias_None:
  "pid = None \<or> alias = None \<Longrightarrow> ov_vm_prog_db_alias (Some db) pid alias = (Some db, False)"
  by (auto simp: ov_vm_prog_db_alias_def get_unaliased_id_def Let_def)

lemma db_alias_inv:
  assumes inv: "db_inv db" and r: "ov_vm_prog_db_alias (Some db) pid alias = (self, r)"
  shows "\<exists>db'. self = Some db' \<and> db_inv db' \<and> progs db' = progs db \<and> pool_states db' = pool_states db"
proof (cases "pid = None \<or> alias = None")
  case True
  with alias_None [OF True, of db] r inv show ?thesis by auto
next
  case False
  then obtain p a where pa: "pid = Some p" "alias = Some a" by auto
  show ?thesis
  proof (cases "progs db (unalias db p) = None \<or> ov_vm_prog_db_get (Some db) (Some a) \<noteq> None")
    case True
    from alias_unchanged [OF inv this] r inv show ?thesis unfolding pa by auto
  next
    case False
    then obtain i where "progs db (unalias db p) = Some i" "ov_vm_prog_db_get (Some db) (Some a) = None" by auto
    from db_alias_eq [OF inv this] r show ?thesis unfolding pa by (metis prod.inject)
  qed
qed

lemma db_insert_inv:
  assumes inv: "db_inv db" and "ov_vm_prog_db_insert now (Some db) pid instr d = (self, r)"
  shows "\<exists>db'. self = Some db' \<and> db_inv db'"
proof (cases "\<not> is_id_valid pid \<or> instr = None \<or> ov_vm_prog_db_get (Some db) pid \<noteq> None \<or>
    topmost_usable_slot_index db = 0")
  case True
  with insert_reject [OF inv True, of now d] assms show ?thesis by simp
next
  case False
  then obtain p ins where *: "pid = Some p" "instr = Some ins" "is_id_valid (Some p)" "progs db (unalias db p) = None"
    "0 < topmost_usable_slot_index db"
    by (cases pid) (auto simp: db_get_eq [OF inv])
  show ?thesis
    using insert_eq [OF inv *(3-5), of now ins d] assms(2) unfolding *(1,2) by (metis prod.inject)
qed

lemma db_remove_inv:
  assumes inv: "db_inv db" and "ov_vm_prog_db_remove (Some db) pid = Some (self, r)"
  shows "\<exists>db'. self = Some db' \<and> db_inv db'"
proof (cases pid)
  case None
  have "remove_aliases_for (Some a) None = Some a" if "c_table a" for a :: "(string, string) ov_hashtable"
  proof -
    have "for_each_entry gather_aliases_for es (replicate 5 None @ [None]) n = (True, replicate 5 None @ [None], n + length es)" for es n
      by (induction es arbitrary: n) (auto simp: gather_aliases_for_def nth_append)
    then show ?thesis using that by (simp add: remove_aliases_for_def for_each_eq c_table_def Let_def nth_append)
  qed
  moreover obtain a where a: "aliases db = Some a" "c_table a" using db_invD(4,5) [OF inv] by metis
  ultimately have "remove_aliases_for (aliases db) None = aliases db" by simp
  then have "ov_vm_prog_db_remove (Some db) None = Some (Some db, True)"
    by (simp add: ov_vm_prog_db_remove_def get_unaliased_id_def remove_internal_def get_store_def get_aliases_def
        ov_hashtable_remove_def get_entry_for_def release_prog_def Let_def split: option.splits)
  then show ?thesis using assms None by auto
next
  case (Some k)
  show ?thesis
  proof (cases "progs db (unalias db k)")
    case None
    with db_remove_absent [OF inv this] assms Some show ?thesis by auto
  next
    case (Some i)
    with db_remove_eq [OF inv Some] assms \<open>pid = Some k\<close> show ?thesis by (metis option.inject prod.inject)
  qed
qed

lemma db_inv_upd_slot:
  assumes inv: "db_inv db" and "prog_id (public (f (pool_states db ! i))) = prog_id (public (pool_states db ! i))"
    "i \<in> ran (progs db)"
  shows "db_inv (upd_slot db i f)"
proof -
  have il: "i < length (pool_states db)" using assms(3) db_invD(10) [OF inv] by (auto simp: ran_def)
  show ?thesis
    unfolding db_inv_def
  proof (intro conjI allI impI)
    fix pid j assume "progs (upd_slot db i f) pid = Some j"
    then have "progs db pid = Some j" by simp
    note db_invD(10-12) [OF inv this]
    then show "j < length (pool_states (upd_slot db i f))" "is_id_valid (Some pid)"
      "prog_id (public (pool_states (upd_slot db i f) ! j)) = pid"
      using assms(2) il by (cases "j = i"; simp)+
  next
    fix j assume "j < length (pool_states (upd_slot db i f))" "j \<notin> ran (progs (upd_slot db i f))"
    then show "slot_cleared (pool_states (upd_slot db i f) ! j)"
      using db_invD(15) [OF inv, of j] assms(3) by (cases "j = i") auto
  qed (use inv in \<open>simp_all add: db_inv_def\<close>)
qed

lemma db_update_time_inv:
  assumes inv: "db_inv db" and "ov_vm_prog_db_update_time now (Some db) pid = (self, r)"
  shows "\<exists>db'. self = Some db' \<and> db_inv db'"
proof (cases "db_prog_for_id (Some db) pid")
  case None
  then show ?thesis using assms by (auto simp: ov_vm_prog_db_update_time_def)
next
  case (Some i)
  then obtain k where "pid = Some k" by (cases pid) (auto simp: db_prog_for_id_def get_unaliased_id_def
        prog_for_id_internal_def ov_hashtable_get_def get_entry_for_def Let_def split: option.splits)
  with Some have "i \<in> ran (progs db)" by (auto simp: prog_for_id_eq [OF inv] intro: ranI)
  with Some assms db_inv_upd_slot [OF inv, of "\<lambda>s. s\<lparr>start_time_epoch_usecs := now\<rparr>" i] show ?thesis
    by (auto simp: ov_vm_prog_db_update_time_def split: if_splits)
qed

subsection \<open>Reachable databases\<close>

text \<open>
  The databases a client can get: created, then changed by any sequence of insertions,
  aliases, removals and time updates with arbitrary arguments (NULL pointers included), and
  by updates of a registered program that leave its id alone, as all setters of
  \<open>ov_vm_prog.c\<close> but \<open>ov_vm_prog_id_set\<close> do.
\<close>

inductive db_reach :: "'d ov_vm_prog_db \<Rightarrow> bool" where
  create: "(if slots = 0 then 64 else slots) mod 256 \<noteq> 0 \<Longrightarrow> ov_vm_prog_db_create slots r = Some db \<Longrightarrow> db_reach db"
| insert: "db_reach db \<Longrightarrow> ov_vm_prog_db_insert now (Some db) pid instr d = (Some db', p) \<Longrightarrow> db_reach db'"
| "alias": "db_reach db \<Longrightarrow> ov_vm_prog_db_alias (Some db) pid al = (Some db', ok) \<Longrightarrow> db_reach db'"
| remove: "db_reach db \<Longrightarrow> ov_vm_prog_db_remove (Some db) pid = Some (Some db', ok) \<Longrightarrow> db_reach db'"
| time: "db_reach db \<Longrightarrow> ov_vm_prog_db_update_time now (Some db) pid = (Some db', ok) \<Longrightarrow> db_reach db'"
| prog: "db_reach db \<Longrightarrow> progs db pid = Some i \<Longrightarrow> \<forall>p. prog_id (the (f (Some p))) = prog_id p \<Longrightarrow>
    db_reach (upd_prog db i f)"

lemma db_inv_upd_prog:
  assumes "db_inv db" "progs db pid = Some i" "\<forall>p. prog_id (the (f (Some p))) = prog_id p"
  shows "db_inv (upd_prog db i f)"
  unfolding upd_prog_def using assms by (intro db_inv_upd_slot) (auto intro: ranI)

lemma db_create_inv:
  fixes db :: "'d ov_vm_prog_db"
  assumes "(if slots = 0 then 64 else slots) mod 256 \<noteq> 0" "ov_vm_prog_db_create slots r = Some db"
  shows "db_inv db"
proof -
  obtain db0 :: "'d ov_vm_prog_db" where "ov_vm_prog_db_create slots r = Some db0" "db_inv db0"
    using db_create_eq [OF assms(1)] by blast
  with assms(2) show ?thesis by simp
qed

lemma lookup_unchanged:
  assumes "db_inv db" "db_inv db'" "progs db' (unalias db' k) = progs db (unalias db k)"
  shows "ov_vm_prog_db_get (Some db') (Some k) = ov_vm_prog_db_get (Some db) (Some k)"
  using assms by (simp add: db_get_eq)

text \<open>Two databases to apply the properties to: one just created, one with a program.\<close>

lemma example_empty:
  "\<exists>db :: nat ov_vm_prog_db. ov_vm_prog_db_create 3 True = Some db \<and> db_inv db \<and> topmost_usable_slot_index db = 3 \<and>
     ov_vm_prog_db_get (Some db) (Some ''p'') = None \<and> ov_vm_prog_db_get (Some db) (Some ''q'') = None"
proof -
  obtain db :: "nat ov_vm_prog_db" where "ov_vm_prog_db_create 3 True = Some db" "db_inv db" "progs db = Map.empty"
    "topmost_usable_slot_index db = 3"
    using db_create_eq [of 3 True] by auto
  then show ?thesis by (auto simp: db_get_eq)
qed

lemma example_one:
  "\<exists>db i. db_inv (db :: nat ov_vm_prog_db) \<and> ov_vm_prog_db_get (Some db) (Some ''p'') = Some i \<and>
     ov_vm_prog_db_get (Some db) (Some ''q'') = None \<and> data (public (pool_states db ! i)) = Some 7 \<and> release_given db"
proof -
  obtain db :: "nat ov_vm_prog_db" where db: "db_inv db" "progs db = Map.empty" "alias_map db = Map.empty"
    "topmost_usable_slot_index db = 3" "release_given db"
    using db_create_eq [of 3 True] by auto
  have v: "is_id_valid (Some ''p'')" by (simp add: is_id_valid_Some)
  have new: "progs db (unalias db ''p'') = None" and room: "0 < topmost_usable_slot_index db" using db(2,4) by auto
  obtain i db' where "db_inv db'" "progs db' = [''p'' \<mapsto> i]" "alias_map db' = Map.empty" "i < length (pool_states db)"
    "pool_states db' = (pool_states db)[i := \<lparr>public = new_prog (public (pool_states db ! i)) ''p'' [] (Some 7),
      start_time_epoch_usecs = 5\<rparr>]" "release_given db'"
    using insert_eq [OF db(1) v new room, of 5 "[]" "Some 7"] unfolding db(2,3) using db(5) by blast
  then show ?thesis
    using v by (intro exI [of _ db'] exI [of _ i]) (simp add: db_get_eq unalias_def new_prog_def)
qed

subsection \<open>Properties\<close>

text \<open>
  C12: The invariant of the program database holds in every reachable database: both
  tables are well formed, every id maps to a slot of the pool that holds a program of that id,
  the stack of available slots lists exactly the slots no program uses, each once and
  cleared, every alias names a registered program and no alias is the id of one.
\<close>

theorem db_reachable_inv:
  "db_reach db \<Longrightarrow> db_inv db"
proof (induction rule: db_reach.induct)
  case (create slots r db)
  then show ?case by (rule db_create_inv)
next
  case (prog db pid i f)
  then show ?case by (intro db_inv_upd_prog)
qed (auto dest: db_insert_inv db_alias_inv db_remove_inv db_update_time_inv)

theorem db_reachable_inv_witness:
  "\<exists>db :: nat ov_vm_prog_db. ov_vm_prog_db_create 0 True = Some db \<and> db_reach db \<and> db_inv db"
proof -
  obtain db :: "nat ov_vm_prog_db" where db: "ov_vm_prog_db_create 0 True = Some db"
    using db_create_eq [of 0 True] by auto
  then have "db_reach db" by (intro db_reach.create [of 0 True]) simp_all
  with db db_reachable_inv [OF this] show ?thesis by blast
qed

text \<open>
  C24: Insertion. With a valid id that names no program yet and a free slot, the
  program is registered: a lookup of the id finds it, in state OK at instruction 0 with the
  given instructions and data, one slot fewer is available, and every other lookup, of ids and
  aliases, gives what it gave before.
\<close>

theorem db_insert_lookup:
  assumes "db_inv db" "is_id_valid (Some pid)" "ov_vm_prog_db_get (Some db) (Some pid) = None"
    "0 < topmost_usable_slot_index db"
  shows "\<exists>db' i. ov_vm_prog_db_insert now (Some db) (Some pid) (Some instr) d = (Some db', Some i) \<and>
    db_inv db' \<and> ov_vm_prog_db_get (Some db') (Some pid) = Some i \<and>
    public (pool_states db' ! i) = new_prog (public (pool_states db ! i)) pid instr d \<and>
    start_time_epoch_usecs (pool_states db' ! i) = now \<and>
    topmost_usable_slot_index db' = topmost_usable_slot_index db - 1 \<and>
    (\<forall>k. k \<noteq> pid \<longrightarrow> ov_vm_prog_db_get (Some db') (Some k) = ov_vm_prog_db_get (Some db) (Some k))"
proof -
  have new: "progs db (unalias db pid) = None" using assms by (simp add: db_get_eq)
  obtain i db' where db': "ov_vm_prog_db_insert now (Some db) (Some pid) (Some instr) d = (Some db', Some i)"
    "db_inv db'" "progs db' = (progs db)(pid \<mapsto> i)" "alias_map db' = alias_map db" "i < length (pool_states db)"
    "pool_states db' = (pool_states db)[i := \<lparr>public = new_prog (public (pool_states db ! i)) pid instr d,
        start_time_epoch_usecs = now\<rparr>]"
    "topmost_usable_slot_index db' = topmost_usable_slot_index db - 1"
    using insert_eq [OF assms(1,2) new assms(4), of now instr d] by metis
  have u: "unalias db' = unalias db" using db'(4) by (simp add: unalias_def fun_eq_iff)
  have "unalias db' pid = pid" using unalias_progs [OF db'(2), of pid] db'(3) by simp
  moreover have "progs db' (unalias db' k) = progs db (unalias db k)" if "k \<noteq> pid" for k
  proof -
    have "unalias db k \<noteq> pid"
      using that new db_invD(16) [OF assms(1), of k pid] unalias_progs [OF assms(1), of pid]
      by (auto simp: unalias_def split: option.splits)
    then show ?thesis using db'(3) u by simp
  qed
  then have "\<forall>k. k \<noteq> pid \<longrightarrow> ov_vm_prog_db_get (Some db') (Some k) = ov_vm_prog_db_get (Some db) (Some k)"
    using lookup_unchanged [OF assms(1) db'(2)] by blast
  ultimately show ?thesis
    using db' assms(2) by (intro exI [of _ db'] exI [of _ i]) (simp add: db_get_eq)
qed

theorem db_insert_lookup_witness:
  "\<exists>(db :: nat ov_vm_prog_db) db' i. ov_vm_prog_db_create 3 True = Some db \<and>
     ov_vm_prog_db_insert 5 (Some db) (Some ''p'') (Some []) (Some 7) = (Some db', Some i) \<and>
     ov_vm_prog_db_get (Some db') (Some ''p'') = Some i \<and> topmost_usable_slot_index db' = 2"
proof -
  obtain db :: "nat ov_vm_prog_db" where db: "ov_vm_prog_db_create 3 True = Some db" "db_inv db"
    "topmost_usable_slot_index db = 3" "ov_vm_prog_db_get (Some db) (Some ''p'') = None"
    using example_empty by blast
  have "is_id_valid (Some ''p'')" by (simp add: is_id_valid_Some)
  from db_insert_lookup [OF db(2) this db(4), of 5 "[]" "Some 7"] db(1,3) show ?thesis by auto
qed

text \<open>
  C37: A refused insertion changes nothing: an invalid id (NULL, empty, 255 or more
  characters), missing instructions, an id that already names a program, as its id or as an
  alias, or an exhausted pool.
\<close>

theorem db_insert_rejects:
  assumes "db_inv db"
    "\<not> is_id_valid pid \<or> instr = None \<or> ov_vm_prog_db_get (Some db) pid \<noteq> None \<or> topmost_usable_slot_index db = 0"
  shows "ov_vm_prog_db_insert now (Some db) pid instr d = (Some db, None)"
  using assms by (rule insert_reject)

theorem db_insert_rejects_witness:
  "\<exists>db :: nat ov_vm_prog_db. db_inv db \<and> ov_vm_prog_db_get (Some db) (Some ''p'') \<noteq> None \<and>
     ov_vm_prog_db_insert 5 (Some db) (Some ''p'') (Some []) None = (Some db, None)"
  using example_one db_insert_rejects by (metis option.distinct(1))

text \<open>
  Aliases. If the alias is unused, it afterwards finds the program of the id (which may
  itself be an alias) and every other lookup is unchanged; if it already names a program, or
  the id names none, nothing changes and the call succeeds only if both name the same program.
\<close>

theorem db_alias_lookup:
  assumes inv: "db_inv db" and valid: "is_id_valid (Some pid)" "is_id_valid (Some alias)"
  shows "if ov_vm_prog_db_get (Some db) (Some pid) \<noteq> None \<and> ov_vm_prog_db_get (Some db) (Some alias) = None
    then \<exists>db'. ov_vm_prog_db_alias (Some db) (Some pid) (Some alias) = (Some db', True) \<and> db_inv db' \<and>
      ov_vm_prog_db_get (Some db') (Some alias) = ov_vm_prog_db_get (Some db) (Some pid) \<and>
      (\<forall>k. k \<noteq> alias \<longrightarrow> ov_vm_prog_db_get (Some db') (Some k) = ov_vm_prog_db_get (Some db) (Some k))
    else ov_vm_prog_db_alias (Some db) (Some pid) (Some alias) =
      (Some db, ov_vm_prog_db_get (Some db) (Some pid) \<noteq> None \<and>
        ov_vm_prog_db_get (Some db) (Some alias) = ov_vm_prog_db_get (Some db) (Some pid))"
proof (cases "ov_vm_prog_db_get (Some db) (Some pid) \<noteq> None \<and> ov_vm_prog_db_get (Some db) (Some alias) = None")
  case True
  then obtain i where i: "progs db (unalias db pid) = Some i" using valid by (auto simp: db_get_eq [OF inv])
  obtain db' where db': "ov_vm_prog_db_alias (Some db) (Some pid) (Some alias) = (Some db', True)" "db_inv db'"
    "progs db' = progs db" "alias_map db' = (alias_map db)(alias \<mapsto> unalias db pid)"
    using db_alias_eq [OF inv i] True by metis
  have "ov_vm_prog_db_get (Some db') (Some k) = ov_vm_prog_db_get (Some db) (Some k)" if "k \<noteq> alias" for k
    using that db' by (intro lookup_unchanged inv) (simp_all add: unalias_def)
  with True db' i valid show ?thesis by (auto simp: db_get_eq inv unalias_def)
next
  case False
  with alias_unchanged [OF inv] valid show ?thesis by (auto simp: db_get_eq [OF inv])
qed

theorem db_alias_lookup_witness:
  "\<exists>(db :: nat ov_vm_prog_db) db'. ov_vm_prog_db_get (Some db) (Some ''q'') = None \<and>
     ov_vm_prog_db_alias (Some db) (Some ''p'') (Some ''q'') = (Some db', True) \<and>
     ov_vm_prog_db_get (Some db') (Some ''q'') = ov_vm_prog_db_get (Some db) (Some ''p'')"
proof -
  obtain db :: "nat ov_vm_prog_db" and i where db: "db_inv db" "ov_vm_prog_db_get (Some db) (Some ''p'') = Some i"
    "ov_vm_prog_db_get (Some db) (Some ''q'') = None"
    using example_one by blast
  have "is_id_valid (Some ''p'')" "is_id_valid (Some ''q'')" by (simp_all add: is_id_valid_Some)
  from db_alias_lookup [OF db(1) this] db(2,3) show ?thesis by auto
qed

text \<open>
  C23: Removal, by the id or by any alias of a program. The call succeeds (its assertion
  holds), afterwards neither the id nor any of its aliases finds a program, the aliases are
  gone however many there were, every other lookup is unchanged, the slot is cleared and
  available again, and the release callback got the data of the program exactly once.
\<close>

theorem db_remove_frees:
  assumes inv: "db_inv db" and k: "ov_vm_prog_db_get (Some db) (Some k) = Some i"
  shows "\<exists>db'. ov_vm_prog_db_remove (Some db) (Some k) = Some (Some db', True) \<and> db_inv db' \<and>
    (\<forall>x. ov_vm_prog_db_get (Some db') (Some x) =
       (if ov_vm_prog_db_get (Some db) (Some x) = Some i then None else ov_vm_prog_db_get (Some db) (Some x))) \<and>
    (\<forall>a. alias_map db' a \<noteq> Some (prog_id (public (pool_states db ! i)))) \<and>
    slot_cleared (pool_states db' ! i) \<and>
    topmost_usable_slot_index db' = topmost_usable_slot_index db + 1 \<and>
    released db' = released db @ (if release_given db then map the (filter (\<lambda>d. d \<noteq> None) [data (public (pool_states db ! i))]) else [])"
proof -
  let ?pid = "unalias db k"
  have i: "progs db ?pid = Some i" using k by (simp add: db_get_eq [OF inv] split: if_splits)
  obtain db' where db': "ov_vm_prog_db_remove (Some db) (Some k) = Some (Some db', True)" "db_inv db'"
    "progs db' = (progs db)(?pid := None)"
    "alias_map db' = (\<lambda>a. if alias_map db a = Some ?pid then None else alias_map db a)"
    "pool_states db' = (pool_states db)[i := cleared (pool_states db ! i)]"
    "released db' = released db @ released_data db i" "release_given db' = release_given db"
    "topmost_usable_slot_index db' = topmost_usable_slot_index db + 1"
    by (rule db_remove_eq [OF inv i])
  have pid: "prog_id (public (pool_states db ! i)) = ?pid" "i < length (pool_states db)"
    using db_invD(10,11) [OF inv i] by auto
  have "progs db' (unalias db' x) = (if progs db (unalias db x) = Some i then None else progs db (unalias db x))" for x
  proof (cases "unalias db x = ?pid")
    case True
    then have "unalias db' x = x \<or> unalias db' x = ?pid" by (auto simp: unalias_def db'(4) split: option.splits)
    moreover have "progs db x = None" if "unalias db' x = x" "x \<noteq> ?pid"
      using that True db_invD(17) [OF inv, of x] by (cases "alias_map db x") (auto simp: unalias_def)
    ultimately show ?thesis using True i db'(3) by auto
  next
    case False
    then have "unalias db' x = unalias db x" by (auto simp: unalias_def db'(4) split: option.splits)
    moreover have "progs db (unalias db x) \<noteq> Some i" using False progs_inj [OF inv i] by metis
    ultimately show ?thesis using False db'(3) by simp
  qed
  then have "\<forall>x. ov_vm_prog_db_get (Some db') (Some x) =
       (if ov_vm_prog_db_get (Some db) (Some x) = Some i then None else ov_vm_prog_db_get (Some db) (Some x))"
    by (simp add: db_get_eq inv db'(2))
  then show ?thesis
    using db' pid by (intro exI [of _ db']) (auto simp: released_data_def split: option.splits)
qed

theorem db_remove_frees_witness:
  "\<exists>(db :: nat ov_vm_prog_db) db' i. ov_vm_prog_db_get (Some db) (Some ''p'') = Some i \<and>
     ov_vm_prog_db_remove (Some db) (Some ''p'') = Some (Some db', True) \<and>
     ov_vm_prog_db_get (Some db') (Some ''p'') = None \<and> released db' = released db @ [7]"
proof -
  obtain db :: "nat ov_vm_prog_db" and i where db: "db_inv db" "ov_vm_prog_db_get (Some db) (Some ''p'') = Some i"
    "data (public (pool_states db ! i)) = Some 7" "release_given db"
    using example_one by blast
  from db_remove_frees [OF db(1,2)] db show ?thesis by auto
qed

text \<open>
  \<open>ov_vm_prog_db_next_due\<close> returns the id of a registered program that was started
  before the limit, and NULL only if there is none; a cleared slot is never due.
\<close>

theorem db_next_due_correct:
  assumes "db_inv db"
  shows "case ov_vm_prog_db_next_due (Some db) limit of
     None \<Rightarrow> \<forall>pid i. ov_vm_prog_db_get (Some db) (Some pid) = Some i \<longrightarrow>
       limit \<le> start_time_epoch_usecs (pool_states db ! i)
   | Some pid \<Rightarrow> \<exists>i. ov_vm_prog_db_get (Some db) (Some pid) = Some i \<and>
       start_time_epoch_usecs (pool_states db ! i) < limit"
proof (cases "ov_vm_prog_db_next_due (Some db) limit")
  case None
  with next_due_eq [OF assms, of limit] show ?thesis by (auto simp: db_get_eq [OF assms])
next
  case (Some pid)
  with next_due_eq [OF assms, of limit] obtain i where "progs db pid = Some i"
    "start_time_epoch_usecs (pool_states db ! i) < limit" by auto
  with Some db_invD(12) [OF assms this(1)] unalias_progs [OF assms domI] show ?thesis
    by (auto simp: db_get_eq [OF assms])
qed

theorem db_next_due_correct_witness:
  "\<exists>db :: nat ov_vm_prog_db. ov_vm_prog_db_create 3 True = Some db \<and> ov_vm_prog_db_next_due (Some db) 9 = None"
proof -
  obtain db :: "nat ov_vm_prog_db" where db: "ov_vm_prog_db_create 3 True = Some db" "db_inv db" "progs db = Map.empty"
    using db_create_eq [of 3 True] by auto
  from db_next_due_correct [OF db(2), of 9] db(1,3) show ?thesis
    by (auto simp: db_get_eq [OF db(2)] split: option.splits if_splits)
qed

text \<open>
  Slots are neither lost nor duplicated: the number of registered programs and
  the number of available slots always sum up to the capacity of the pool.
\<close>

theorem db_slots_accounted:
  assumes "db_inv db"
  shows "card (dom (progs db)) + topmost_usable_slot_index db = length (pool_states db)"
proof -
  have "inj_on (progs db) (dom (progs db))"
    by (rule inj_onI) (auto dest: progs_inj [OF assms])
  then have "card (dom (progs db)) = card (progs db ` dom (progs db))" by (rule card_image [symmetric])
  also have "progs db ` dom (progs db) = Some ` ran (progs db)" by (force simp: ran_def)
  also have "card (Some ` ran (progs db)) = card (ran (progs db))" by (simp add: card_image)
  finally have "card (dom (progs db)) = card (ran (progs db))" .
  moreover have "card (ran (progs db)) \<le> length (pool_states db)"
    using card_mono [OF _ length_free_slots(4) [OF assms]] by simp
  ultimately show ?thesis using length_free_slots(2) [OF assms] by simp
qed

theorem db_slots_accounted_witness:
  "\<exists>db :: nat ov_vm_prog_db. ov_vm_prog_db_create 3 True = Some db \<and>
     card (dom (progs db)) + topmost_usable_slot_index db = length (pool_states db)"
  using example_empty db_slots_accounted by blast

text \<open>
  The number of slots is passed on as a \<open>uint8_t\<close>: a database of 256 slots (or any
  multiple) asks for tables without buckets, gets none and stops on its assertion.
\<close>

theorem db_create_256:
  "ov_vm_prog_db_create (256 * (n + 1)) r = None"
  by (simp add: ov_vm_prog_db_create_def ov_hashtable_create_c_string_def ov_hashtable_create_def
      unat_of_nat take_bit_eq_mod unat_eq_0)

end
