(* ===== verification/Ov_Vm.thy ===== *)
theory Ov_Vm
  imports Ov_Vm_Prog_Db
begin

text \<open>
  The virtual machine, \<open>ov_vm/src/ov_vm.c\<close>: registration of opcodes, execution of a program
  up to its end, a wait or an error, and the abortion of a program by the inverse handlers of
  its completed instructions.

  A program pointer is a slot of the database (\<open>None\<close>: NULL). Handlers of the users of the VM
  are names of type \<open>'h\<close>; what they do is the parameter \<open>sem\<close>, a function of the whole
  machine, so a handler may read and change everything the C handler can reach. \<open>'w\<close> is the
  state outside the machine the handlers work on. \<open>events\<close> records the calls the machine makes:
  handlers, with the program counter and the direction, and the three notifications. The
  clocks \<open>time(0)\<close> and \<open>ov_time_get_current_time_usecs()\<close> are fields.

  Running a program is undefined when it reads an instruction outside of its program or the
  definition of an opcode outside of the table (\<open>Undefined\<close>), and need not end: \<open>execute\<close>
  takes fuel, one unit per instruction, and \<open>Out_of_fuel\<close> is the result when that is used up.
\<close>

datatype 'a run = Ret 'a | Undefined | Out_of_fuel

datatype 'h ov_vm_opcode_handler =
  End_handler | Nop_handler | Invalid_handler | Inv_handler_dummy | Handler 'h

record 'h OpcodeDef =
  symbol :: "string option"
  handler :: "'h ov_vm_opcode_handler option"
  inv_handler :: "'h ov_vm_opcode_handler option"

datatype 'h event =
  Called "'h ov_vm_opcode_handler" int bool
| Program_failed_to_abort string
| Program_aborted string
| Program_done string

record ('h, 'd, 'w) ov_vm =
  timer :: "u64 option"
  program_timeout_usecs :: u64
  opcodes :: "'h OpcodeDef list"
  db :: "'d ov_vm_prog_db"
  notify_failed_to_abort_given :: bool
  notify_aborted_given :: bool
  notify_done_given :: bool
  clock_secs :: int
  clock_usecs :: u64
  events :: "'h event list"
  world :: 'w

datatype ov_vm_exec_result = OV_EXEC_OK | OV_EXEC_TRIGGER_FAIL | OV_EXEC_ERROR | OV_EXEC_WAIT

type_synonym ('h, 'd, 'w) semantics =
  "'h \<Rightarrow> ('h, 'd, 'w) ov_vm \<Rightarrow> nat option \<Rightarrow> ('h, 'd, 'w) ov_vm \<times> ov_vm_retval"

text \<open>The program behind a pointer, and an update of it.\<close>

definition prog_at :: "('h, 'd, 'w) ov_vm \<Rightarrow> nat option \<Rightarrow> 'd ov_vm_prog option" where
  "prog_at vm prog = map_option (\<lambda>i. public (pool_states (db vm) ! i)) prog"

definition set_prog ::
  "('h, 'd, 'w) ov_vm \<Rightarrow> nat option \<Rightarrow> ('d ov_vm_prog option \<Rightarrow> 'd ov_vm_prog option) \<Rightarrow> ('h, 'd, 'w) ov_vm" where
  "set_prog vm prog f = (case prog of None \<Rightarrow> vm | Some i \<Rightarrow> vm\<lparr>db := upd_prog (db vm) i f\<rparr>)"

definition vm_is_id_valid :: "string option \<Rightarrow> bool" where
  "vm_is_id_valid pid = (pid \<noteq> None)"

definition is_prog_valid :: "('h, 'd, 'w) ov_vm \<Rightarrow> nat option \<Rightarrow> bool" where
  "is_prog_valid vm prog = (ov_vm_prog_state (prog_at vm prog) \<noteq> OV_VM_PROG_INVALID)"

definition prog_for_id :: "('h, 'd, 'w) ov_vm option \<Rightarrow> string option \<Rightarrow> nat option" where
  "prog_for_id self pid = (case self of None \<Rightarrow> None | Some vm \<Rightarrow> ov_vm_prog_db_get (Some (db vm)) pid)"

subsection \<open>Standard opcodes\<close>

definition end_handler :: "('h, 'd, 'w) ov_vm \<Rightarrow> nat option \<Rightarrow> ('h, 'd, 'w) ov_vm \<times> ov_vm_retval" where
  "end_handler vm prog = (vm, OC_FINISHED)"

definition nop_handler :: "('h, 'd, 'w) ov_vm \<Rightarrow> nat option \<Rightarrow> ('h, 'd, 'w) ov_vm \<times> ov_vm_retval" where
  "nop_handler vm prog = (vm, OC_NEXT)"

definition invalid_handler :: "('h, 'd, 'w) ov_vm \<Rightarrow> nat option \<Rightarrow> ('h, 'd, 'w) ov_vm \<times> ov_vm_retval" where
  "invalid_handler vm prog = (vm, OC_ERROR)"

definition inv_handler_dummy :: "('h, 'd, 'w) ov_vm \<Rightarrow> nat option \<Rightarrow> ('h, 'd, 'w) ov_vm \<times> ov_vm_retval" where
  "inv_handler_dummy vm prog = (vm, OC_NEXT)"

text \<open>The call through a function pointer.\<close>

definition call_handler ::
  "('h, 'd, 'w) semantics \<Rightarrow> 'h ov_vm_opcode_handler \<Rightarrow> ('h, 'd, 'w) ov_vm \<Rightarrow> nat option \<Rightarrow>
   ('h, 'd, 'w) ov_vm \<times> ov_vm_retval" where
  "call_handler sem h vm prog =
    (case h of
       End_handler \<Rightarrow> end_handler vm prog
     | Nop_handler \<Rightarrow> nop_handler vm prog
     | Invalid_handler \<Rightarrow> invalid_handler vm prog
     | Inv_handler_dummy \<Rightarrow> inv_handler_dummy vm prog
     | Handler f \<Rightarrow> sem f vm prog)"

subsection \<open>Creation and registration\<close>

record ov_vm_config =
  max_requests :: nat
  default_program_timeout_msecs :: u64
  cfg_release_data :: bool
  cfg_notify_program_failed_to_abort :: bool
  cfg_notify_program_aborted :: bool
  cfg_notify_program_done :: bool

definition empty_def :: "'h OpcodeDef" where
  "empty_def = \<lparr>symbol = None, handler = None, inv_handler = None\<rparr>"

text \<open>
  The loop is given (\<open>loop\<close>) or NULL. \<open>None\<close> as the outer result: the process stops on an
  assertion. \<open>secs\<close>, \<open>usecs\<close> and \<open>w\<close> are the state of the clocks and of the world.
\<close>

definition ov_vm_create ::
  "ov_vm_config \<Rightarrow> bool \<Rightarrow> int \<Rightarrow> u64 \<Rightarrow> 'w \<Rightarrow> ('h, 'd, 'w) ov_vm option option" where
  "ov_vm_create cfg loop secs usecs w =
    (if \<not> loop then Some None
     else (case ov_vm_prog_db_create (max_requests cfg) (cfg_release_data cfg) of
             None \<Rightarrow> None
           | Some pdb \<Rightarrow>
               let timeout_msecs = (if default_program_timeout_msecs cfg = 0 then 1000
                                    else default_program_timeout_msecs cfg)
               in Some (Some
                 \<lparr>timer = Some (1000 * timeout_msecs), program_timeout_usecs = 1000 * timeout_msecs,
                  opcodes = (replicate 255 empty_def)
                    [unat OP_END := \<lparr>symbol = Some ''END'', handler = Some End_handler, inv_handler = None\<rparr>,
                     unat OP_NOP := \<lparr>symbol = Some ''NOP'', handler = Some Nop_handler, inv_handler = None\<rparr>,
                     unat OP_INVALID := \<lparr>symbol = Some ''INVALID'', handler = Some Invalid_handler, inv_handler = None\<rparr>],
                  db = pdb,
                  notify_failed_to_abort_given = cfg_notify_program_failed_to_abort cfg,
                  notify_aborted_given = cfg_notify_program_aborted cfg,
                  notify_done_given = cfg_notify_program_done cfg,
                  clock_secs = secs, clock_usecs = usecs, events = [], world = w\<rparr>)))"

definition ov_vm_free :: "('h, 'd, 'w) ov_vm option \<Rightarrow> 'd list" where
  "ov_vm_free self = (case self of None \<Rightarrow> [] | Some vm \<Rightarrow> ov_vm_prog_db_free (Some (db vm)))"

definition opcodedef :: "('h, 'd, 'w) ov_vm option \<Rightarrow> u8 \<Rightarrow> nat option" where
  "opcodedef self oc =
    (case self of None \<Rightarrow> None | Some vm \<Rightarrow> if unat oc \<ge> length (opcodes vm) then None else Some (unat oc))"

definition op_to_symbol :: "('h, 'd, 'w) ov_vm option \<Rightarrow> u8 \<Rightarrow> string" where
  "op_to_symbol self oc =
    (case opcodedef self oc of
       None \<Rightarrow> ''UNKNOWN''
     | Some i \<Rightarrow> (case symbol (opcodes (the self) ! i) of None \<Rightarrow> ''UNKNOWN'' | Some s \<Rightarrow> s))"

definition sanitize_inv_handler :: "'h ov_vm_opcode_handler option \<Rightarrow> 'h ov_vm_opcode_handler option" where
  "sanitize_inv_handler h = (case h of None \<Rightarrow> Some Inv_handler_dummy | Some _ \<Rightarrow> h)"

definition ov_vm_register ::
  "('h, 'd, 'w) ov_vm option \<Rightarrow> u8 \<Rightarrow> string option \<Rightarrow> 'h ov_vm_opcode_handler option \<Rightarrow>
   'h ov_vm_opcode_handler option \<Rightarrow> ('h, 'd, 'w) ov_vm option \<times> bool" where
  "ov_vm_register self oc symb h inv_h =
    (case opcodedef self oc of
       None \<Rightarrow> (self, False)
     | Some i \<Rightarrow>
         if oc = OP_END \<or> oc = OP_NOP then (self, False)
         else if symb = None \<or> h = None then (self, False)
         else (map_option (\<lambda>vm. vm\<lparr>opcodes := (opcodes vm)
                 [i := \<lparr>symbol = symb, handler = h, inv_handler = sanitize_inv_handler inv_h\<rparr>]\<rparr>) self, True))"

subsection \<open>Notification and release\<close>

definition notify_program_failed_to_abort :: "('h, 'd, 'w) ov_vm \<Rightarrow> nat option \<Rightarrow> ('h, 'd, 'w) ov_vm" where
  "notify_program_failed_to_abort vm prog =
    (if prog \<noteq> None \<and> notify_failed_to_abort_given vm
     then vm\<lparr>events := events vm @ [Program_failed_to_abort (ov_vm_prog_id (prog_at vm prog))]\<rparr> else vm)"

definition notify_program_aborted :: "('h, 'd, 'w) ov_vm \<Rightarrow> nat option \<Rightarrow> ('h, 'd, 'w) ov_vm" where
  "notify_program_aborted vm prog =
    (if prog \<noteq> None \<and> notify_aborted_given vm
     then vm\<lparr>events := events vm @ [Program_aborted (ov_vm_prog_id (prog_at vm prog))]\<rparr> else vm)"

definition notify_program_done :: "('h, 'd, 'w) ov_vm \<Rightarrow> nat option \<Rightarrow> ('h, 'd, 'w) ov_vm" where
  "notify_program_done vm prog =
    (if prog \<noteq> None \<and> notify_done_given vm
     then vm\<lparr>events := events vm @ [Program_done (ov_vm_prog_id (prog_at vm prog))]\<rparr> else vm)"

text \<open>The removal of a program; \<open>Undefined\<close> if its assertion fails.\<close>

definition remove_prog :: "('h, 'd, 'w) ov_vm \<Rightarrow> nat option \<Rightarrow> ('h, 'd, 'w) ov_vm run" where
  "remove_prog vm prog =
    (case ov_vm_prog_db_remove (Some (db vm)) (Some (ov_vm_prog_id (prog_at vm prog))) of
       Some (Some db', ok) \<Rightarrow> Ret (vm\<lparr>db := db'\<rparr>)
     | _ \<Rightarrow> Undefined)"

definition release_program :: "('h, 'd, 'w) ov_vm \<Rightarrow> nat option \<Rightarrow> ('h, 'd, 'w) ov_vm run" where
  "release_program vm prog =
    (case ov_vm_prog_state (prog_at vm prog) of
       OV_VM_PROG_FAILED_TO_ABORT \<Rightarrow> remove_prog (notify_program_failed_to_abort vm prog) prog
     | OV_VM_PROG_ABORTING \<Rightarrow> remove_prog (notify_program_aborted vm prog) prog
     | OV_VM_PROG_OK \<Rightarrow> remove_prog (notify_program_done vm prog) prog
     | OV_VM_PROG_INVALID \<Rightarrow> Ret vm)"

subsection \<open>Execution\<close>

definition handler_from_opcode_def :: "'h OpcodeDef \<Rightarrow> 'h ov_vm_opcode_handler option" where
  "handler_from_opcode_def d = handler d"

definition inverse_handler_from_opcode_def :: "'h OpcodeDef \<Rightarrow> 'h ov_vm_opcode_handler option" where
  "inverse_handler_from_opcode_def d = inv_handler d"

definition get_handler_from_opcode_def ::
  "'h OpcodeDef \<Rightarrow> ov_vm_prog_status \<Rightarrow> 'h ov_vm_opcode_handler option" where
  "get_handler_from_opcode_def d prog_state =
    (case prog_state of
       OV_VM_PROG_OK \<Rightarrow> handler_from_opcode_def d
     | OV_VM_PROG_ABORTING \<Rightarrow> inverse_handler_from_opcode_def d
     | _ \<Rightarrow> None)"

text \<open>There is no range check: an index outside of the table is undefined.\<close>

definition get_opcode_def :: "('h, 'd, 'w) ov_vm \<Rightarrow> u8 \<Rightarrow> 'h OpcodeDef option run" where
  "get_opcode_def vm oc =
    (if oc = OP_INVALID then Ret None
     else if unat oc < length (opcodes vm) then Ret (Some (opcodes vm ! unat oc)) else Undefined)"

definition get_handler_for_current_instr ::
  "('h, 'd, 'w) ov_vm \<Rightarrow> nat option \<Rightarrow> 'h ov_vm_opcode_handler option run" where
  "get_handler_for_current_instr vm prog =
    (case ov_vm_prog_current_instr (prog_at vm prog) of
       None \<Rightarrow> Undefined
     | Some instr \<Rightarrow>
         (case get_opcode_def vm (opcode instr) of
            Ret None \<Rightarrow> Ret None
          | Ret (Some d) \<Rightarrow> Ret (get_handler_from_opcode_def d (ov_vm_prog_state (prog_at vm prog)))
          | Undefined \<Rightarrow> Undefined
          | Out_of_fuel \<Rightarrow> Out_of_fuel))"

definition execute_current_instruction ::
  "('h, 'd, 'w) semantics \<Rightarrow> ('h, 'd, 'w) ov_vm \<Rightarrow> nat option \<Rightarrow> (('h, 'd, 'w) ov_vm \<times> ov_vm_retval) run" where
  "execute_current_instruction sem vm prog =
    (case get_handler_for_current_instr vm prog of
       Ret None \<Rightarrow> Ret (vm, OC_ERROR)
     | Ret (Some h) \<Rightarrow>
         Ret (call_handler sem h
           (vm\<lparr>events := events vm @ [Called h (ov_vm_prog_program_counter (prog_at vm prog))
                  (ov_vm_prog_state (prog_at vm prog) = OV_VM_PROG_ABORTING)]\<rparr>) prog)
     | Undefined \<Rightarrow> Undefined
     | Out_of_fuel \<Rightarrow> Out_of_fuel)"

definition propagate :: "('h, 'd, 'w) ov_vm \<Rightarrow> nat option \<Rightarrow> ('h, 'd, 'w) ov_vm" where
  "propagate vm prog = set_prog vm prog (ov_vm_prog_propagate_program_counter (clock_secs vm))"

text \<open>
  \<open>execute\<close>, its loop and \<open>abort_program_with\<close> call each other. \<open>abort()\<close> in the state
  FAILED_TO_ABORT is \<open>Undefined\<close>. \<open>execute_end\<close> is what follows the loop.
\<close>

definition execute_end :: "('h, 'd, 'w) ov_vm \<Rightarrow> nat option \<Rightarrow> (('h, 'd, 'w) ov_vm \<times> ov_vm_exec_result) run" where
  "execute_end vm prog =
    (case release_program vm prog of
       Ret vm' \<Rightarrow> Ret (vm', OV_EXEC_ERROR) | Undefined \<Rightarrow> Undefined | Out_of_fuel \<Rightarrow> Out_of_fuel)"

fun execute ::
    "nat \<Rightarrow> ('h, 'd, 'w) semantics \<Rightarrow> ('h, 'd, 'w) ov_vm \<Rightarrow> nat option \<Rightarrow> (('h, 'd, 'w) ov_vm \<times> ov_vm_exec_result) run"
and execute_loop ::
    "nat \<Rightarrow> ('h, 'd, 'w) semantics \<Rightarrow> ('h, 'd, 'w) ov_vm \<Rightarrow> nat option \<Rightarrow> (('h, 'd, 'w) ov_vm \<times> ov_vm_exec_result) run"
and abort_program_with ::
    "nat \<Rightarrow> ('h, 'd, 'w) semantics \<Rightarrow> ('h, 'd, 'w) ov_vm \<Rightarrow> nat option \<Rightarrow> bool \<Rightarrow> ('h, 'd, 'w) ov_vm run"
where
  "execute fuel sem vm prog =
    (if \<not> is_prog_valid vm prog then Ret (vm, OV_EXEC_ERROR) else execute_loop fuel sem vm prog)"
| "execute_loop 0 sem vm prog = Out_of_fuel"
| "execute_loop (Suc fuel) sem vm prog =
    (case execute_current_instruction sem vm prog of
       Undefined \<Rightarrow> Undefined
     | Out_of_fuel \<Rightarrow> Out_of_fuel
     | Ret (vm0, retval) \<Rightarrow>
         let vm1 = set_prog vm0 prog (\<lambda>p. fst (ov_vm_prog_set_last_instr_retval p retval));
             again = (\<lambda>vm'. if -1 < ov_vm_prog_program_counter (prog_at vm' prog)
                             then execute_loop fuel sem vm' prog else execute_end vm' prog)
         in (case retval of
               OC_ERROR \<Rightarrow>
                 (case abort_program_with fuel sem vm1 prog False of
                    Ret vm2 \<Rightarrow> Ret (vm2, OV_EXEC_ERROR) | Undefined \<Rightarrow> Undefined | Out_of_fuel \<Rightarrow> Out_of_fuel)
             | OC_NEXT \<Rightarrow> again (propagate vm1 prog)
             | OC_WAIT_AND_NEXT \<Rightarrow>
                 let vm2 = propagate vm1 prog
                 in if ov_vm_prog_state (prog_at vm2 prog) = OV_VM_PROG_ABORTING then again vm2
                    else Ret (vm2, OV_EXEC_WAIT)
             | OC_WAIT_AND_REPEAT \<Rightarrow>
                 if ov_vm_prog_state (prog_at vm1 prog) = OV_VM_PROG_ABORTING then again vm1
                 else Ret (vm1, OV_EXEC_WAIT)
             | OC_FINISHED \<Rightarrow>
                 (case release_program vm1 prog of
                    Ret vm2 \<Rightarrow> Ret (vm2, OV_EXEC_OK) | Undefined \<Rightarrow> Undefined | Out_of_fuel \<Rightarrow> Out_of_fuel)))"
| "abort_program_with fuel sem vm prog finish_current_step =
    (case ov_vm_prog_state (prog_at vm prog) of
       OV_VM_PROG_ABORTING \<Rightarrow>
         release_program (set_prog vm prog (\<lambda>p. ov_vm_prog_state_set p OV_VM_PROG_FAILED_TO_ABORT)) prog
     | OV_VM_PROG_OK \<Rightarrow>
         let vm1 = set_prog vm prog (\<lambda>p. ov_vm_prog_state_set p OV_VM_PROG_ABORTING);
             vm2 = (if \<not> finish_current_step \<and>
                       ov_vm_prog_get_last_instr_retval (prog_at vm1 prog) = OC_WAIT_AND_NEXT
                    then propagate vm1 prog else vm1);
             vm3 = propagate vm2 prog
         in (case fuel of
               0 \<Rightarrow> Out_of_fuel
             | Suc n \<Rightarrow>
                 (case execute n sem vm3 prog of
                    Ret (vm4, r) \<Rightarrow> Ret vm4 | Undefined \<Rightarrow> Undefined | Out_of_fuel \<Rightarrow> Out_of_fuel))
     | OV_VM_PROG_FAILED_TO_ABORT \<Rightarrow> Undefined
     | OV_VM_PROG_INVALID \<Rightarrow> Ret vm)"


declare execute.simps [simp del] execute_loop.simps [simp del] abort_program_with.simps [simp del]

definition abort_program ::
  "nat \<Rightarrow> ('h, 'd, 'w) semantics \<Rightarrow> ('h, 'd, 'w) ov_vm \<Rightarrow> nat option \<Rightarrow> ('h, 'd, 'w) ov_vm run" where
  "abort_program fuel sem vm prog = abort_program_with fuel sem vm prog False"

definition execute_prog ::
  "nat \<Rightarrow> ('h, 'd, 'w) semantics \<Rightarrow> ('h, 'd, 'w) ov_vm option \<Rightarrow> nat option \<Rightarrow>
   (('h, 'd, 'w) ov_vm option \<times> ov_vm_exec_result) run" where
  "execute_prog fuel sem self prog =
    (case self of
       None \<Rightarrow> Ret (None, OV_EXEC_ERROR)
     | Some vm \<Rightarrow>
         if prog = None then Ret (Some vm, OV_EXEC_TRIGGER_FAIL)
         else (case execute fuel sem vm prog of
                 Ret (vm', r) \<Rightarrow> Ret (Some vm', r) | Undefined \<Rightarrow> Undefined | Out_of_fuel \<Rightarrow> Out_of_fuel))"

definition ov_vm_trigger ::
  "nat \<Rightarrow> ('h, 'd, 'w) semantics \<Rightarrow> ('h, 'd, 'w) ov_vm option \<Rightarrow> ov_vm_instr list option \<Rightarrow> string option \<Rightarrow>
   'd option \<Rightarrow> (('h, 'd, 'w) ov_vm option \<times> ov_vm_exec_result) run" where
  "ov_vm_trigger fuel sem self instr pid d =
    (case self of
       None \<Rightarrow> Ret (None, OV_EXEC_TRIGGER_FAIL)
     | Some vm \<Rightarrow>
         if instr = None \<or> \<not> vm_is_id_valid pid then Ret (Some vm, OV_EXEC_TRIGGER_FAIL)
         else let (db', prog) = ov_vm_prog_db_insert (clock_usecs vm) (Some (db vm)) pid instr d
              in execute_prog fuel sem (Some (vm\<lparr>db := the db'\<rparr>)) prog)"

definition ov_vm_continue ::
  "nat \<Rightarrow> ('h, 'd, 'w) semantics \<Rightarrow> ('h, 'd, 'w) ov_vm option \<Rightarrow> string option \<Rightarrow>
   (('h, 'd, 'w) ov_vm option \<times> ov_vm_exec_result) run" where
  "ov_vm_continue fuel sem self pid =
    (case prog_for_id self pid of
       None \<Rightarrow> Ret (self, OV_EXEC_ERROR)
     | prog \<Rightarrow> (case execute fuel sem (the self) prog of
                  Ret (vm', r) \<Rightarrow> Ret (Some vm', r) | Undefined \<Rightarrow> Undefined | Out_of_fuel \<Rightarrow> Out_of_fuel))"

definition ov_vm_abort_with ::
  "nat \<Rightarrow> ('h, 'd, 'w) semantics \<Rightarrow> ('h, 'd, 'w) ov_vm option \<Rightarrow> string option \<Rightarrow> bool \<Rightarrow>
   (('h, 'd, 'w) ov_vm option \<times> bool) run" where
  "ov_vm_abort_with fuel sem self pid finish_current_step =
    (case prog_for_id self pid of
       None \<Rightarrow> Ret (self, False)
     | prog \<Rightarrow> (case abort_program_with fuel sem (the self) prog finish_current_step of
                  Ret vm' \<Rightarrow> Ret (Some vm', True) | Undefined \<Rightarrow> Undefined | Out_of_fuel \<Rightarrow> Out_of_fuel))"

definition ov_vm_alias ::
  "('h, 'd, 'w) ov_vm option \<Rightarrow> nat option \<Rightarrow> string option \<Rightarrow> ('h, 'd, 'w) ov_vm option \<times> bool" where
  "ov_vm_alias self prog new_id =
    (case self of
       None \<Rightarrow> (None, False)
     | Some vm \<Rightarrow>
         let (db', ok) = ov_vm_prog_db_alias (Some (db vm)) (Some (ov_vm_prog_id (prog_at vm prog))) new_id
         in (Some (vm\<lparr>db := the db'\<rparr>), ok))"

definition ov_vm_data_for :: "('h, 'd, 'w) ov_vm option \<Rightarrow> string option \<Rightarrow> 'd option" where
  "ov_vm_data_for self pid =
    (case self of
       None \<Rightarrow> None
     | Some vm \<Rightarrow>
         if \<not> vm_is_id_valid pid then None
         else ov_vm_prog_data (prog_at vm (ov_vm_prog_db_get (Some (db vm)) pid)))"

definition ov_vm_for_each_program ::
  "('h, 'd, 'w) ov_vm option \<Rightarrow> (string \<Rightarrow> 'd ov_vm_prog \<Rightarrow> u64 \<Rightarrow> 'a \<Rightarrow> 'a \<times> bool) option \<Rightarrow> 'a \<Rightarrow> 'a \<times> bool" where
  "ov_vm_for_each_program self process arg =
    ov_vm_prog_db_for_each (map_option db self) process arg"

subsection \<open>The prune timer\<close>

text \<open>The loop: \<open>left\<close> is the number of programs it may still abort.\<close>

fun prune_loop ::
  "nat \<Rightarrow> ('h, 'd, 'w) semantics \<Rightarrow> ('h, 'd, 'w) ov_vm \<Rightarrow> u64 \<Rightarrow> string option \<Rightarrow> nat \<Rightarrow> ('h, 'd, 'w) ov_vm run" where
  "prune_loop fuel sem vm now_usecs None left = Ret vm"
| "prune_loop fuel sem vm now_usecs (Some pid) 0 = Ret vm"
| "prune_loop fuel sem vm now_usecs (Some pid) (Suc left) =
    (case abort_program fuel sem vm (ov_vm_prog_db_get (Some (db vm)) (Some pid)) of
       Ret vm' \<Rightarrow> prune_loop fuel sem vm' now_usecs (ov_vm_prog_db_next_due (Some (db vm')) now_usecs) left
     | Undefined \<Rightarrow> Undefined
     | Out_of_fuel \<Rightarrow> Out_of_fuel)"

definition prune_overdue_requests ::
  "nat \<Rightarrow> ('h, 'd, 'w) semantics \<Rightarrow> ('h, 'd, 'w) ov_vm \<Rightarrow> u64 \<Rightarrow> nat \<Rightarrow> ('h, 'd, 'w) ov_vm run" where
  "prune_overdue_requests fuel sem vm timeout_usecs max_no_to_prune =
    (let now_usecs = clock_usecs vm - timeout_usecs
     in prune_loop fuel sem vm now_usecs (ov_vm_prog_db_next_due (Some (db vm)) now_usecs) max_no_to_prune)"

definition timer_callback ::
  "nat \<Rightarrow> ('h, 'd, 'w) semantics \<Rightarrow> ('h, 'd, 'w) ov_vm option \<Rightarrow> (('h, 'd, 'w) ov_vm option \<times> bool) run" where
  "timer_callback fuel sem self =
    (case self of
       None \<Rightarrow> Ret (None, False)
     | Some vm \<Rightarrow>
         (case prune_overdue_requests fuel sem vm (program_timeout_usecs vm) 5 of
            Ret vm' \<Rightarrow> Ret (Some (vm'\<lparr>timer := Some (program_timeout_usecs vm')\<rparr>), True)
          | Undefined \<Rightarrow> Undefined
          | Out_of_fuel \<Rightarrow> Out_of_fuel))"

end
