(* ===== verification/Ov_Vm_Exec.thy ===== *)
theory Ov_Vm_Exec
  imports Ov_Vm
begin

text \<open>
  The correctness of the virtual machine, \<open>ov_vm/src/ov_vm.c\<close>: programs run forward and back.

  The handlers are the parameter \<open>sem\<close>. What the machine relies on is stated as two
  hypotheses: \<open>handlers_local\<close>, a handler changes nothing of the machine but the error of its own
  program, aliases (by \<open>ov_vm_alias\<close>) and the world outside; and \<open>inverse_ok\<close>, an inverse handler
  never asks to be repeated (the loop would call it again at once and for ever).

  \<open>frame\<close> says what one step of a program leaves alone, \<open>at_pc\<close> where a program stands, \<open>gone\<close> that it
  was removed with its data released, \<open>waiting\<close> that it waits. \<open>loop_step\<close> is one turn of the loop
  in either direction; \<open>forward_loop\<close> and \<open>back_loop\<close> are its iterations by induction, and
  \<open>vm_ready\<close> is the invariant of the machine between two calls.
\<close>

subsection \<open>Steps of a program\<close>

definition local_effect :: "('h, 'd, 'w) ov_vm \<Rightarrow> nat \<Rightarrow> ('h, 'd, 'w) ov_vm \<Rightarrow> bool" where
  "local_effect vm i vm' \<longleftrightarrow>
    (\<exists>e als w. vm' = vm\<lparr>db := (upd_prog (db vm) i (map_option (\<lambda>p. p\<lparr>error := e\<rparr>)))\<lparr>aliases := als\<rparr>, world := w\<rparr>) \<and>
    (db_inv (db vm) \<longrightarrow> db_inv (db vm'))"

definition handlers_local :: "('h, 'd, 'w) semantics \<Rightarrow> bool" where
  "handlers_local sem \<longleftrightarrow> (\<forall>h vm i. local_effect vm i (fst (sem h vm (Some i))))"

definition frame :: "('h, 'd, 'w) ov_vm \<Rightarrow> nat \<Rightarrow> ('h, 'd, 'w) ov_vm \<Rightarrow> bool" where
  "frame vm i vm' \<longleftrightarrow>
    opcodes vm' = opcodes vm \<and> notify_failed_to_abort_given vm' = notify_failed_to_abort_given vm \<and>
    notify_aborted_given vm' = notify_aborted_given vm \<and> notify_done_given vm' = notify_done_given vm \<and>
    progs (db vm') = progs (db vm) \<and> released (db vm') = released (db vm) \<and>
    release_given (db vm') = release_given (db vm) \<and> length (pool_states (db vm')) = length (pool_states (db vm)) \<and>
    (\<forall>j. j \<noteq> i \<longrightarrow> pool_states (db vm') ! j = pool_states (db vm) ! j) \<and>
    prog_id (public (pool_states (db vm') ! i)) = prog_id (public (pool_states (db vm) ! i)) \<and>
    instructions (public (pool_states (db vm') ! i)) = instructions (public (pool_states (db vm) ! i)) \<and>
    data (public (pool_states (db vm') ! i)) = data (public (pool_states (db vm) ! i))"

definition at_pc :: "('h, 'd, 'w) ov_vm \<Rightarrow> string \<Rightarrow> nat \<Rightarrow> ov_vm_prog_status \<Rightarrow> int \<Rightarrow> bool" where
  "at_pc vm pid i st pc \<longleftrightarrow> db_inv (db vm) \<and> progs (db vm) pid = Some i \<and>
    state (public (pool_states (db vm) ! i)) = st \<and> program_counter (public (pool_states (db vm) ! i)) = pc"

abbreviation prog_of :: "('h, 'd, 'w) ov_vm \<Rightarrow> nat \<Rightarrow> 'd ov_vm_prog" where
  "prog_of vm i \<equiv> public (pool_states (db vm) ! i)"

lemma frame_refl [simp]: "frame vm i vm"
  by (simp add: frame_def)

lemma frame_trans [trans]: "frame vm i vm1 \<Longrightarrow> frame vm1 i vm2 \<Longrightarrow> frame vm i vm2"
  by (simp add: frame_def)

lemma prog_at_Some [simp]: "prog_at vm (Some i) = Some (prog_of vm i)"
  by (simp add: prog_at_def)

lemma at_pc_slot: "at_pc vm pid i st pc \<Longrightarrow> i < length (pool_states (db vm))"
  by (auto simp: at_pc_def db_invD(10))

lemma local_effect_step:
  assumes "local_effect vm i vm'" "at_pc vm pid i st pc"
  shows "frame vm i vm'" "at_pc vm' pid i st pc" "events vm' = events vm" "clock_secs vm' = clock_secs vm"
    "last_instr_retval (prog_of vm' i) = last_instr_retval (prog_of vm i)"
proof -
  from assms(1) obtain e als w where
    vm': "vm' = vm\<lparr>db := (upd_prog (db vm) i (map_option (\<lambda>p. p\<lparr>error := e\<rparr>)))\<lparr>aliases := als\<rparr>, world := w\<rparr>"
    and "db_inv (db vm')"
    using assms(2) by (auto simp: local_effect_def at_pc_def)
  moreover have "progs (db vm') = progs (db vm)"
    by (simp add: vm' upd_prog_def upd_slot_def progs_def fun_eq_iff)
  ultimately show "frame vm i vm'" "at_pc vm' pid i st pc" "events vm' = events vm" "clock_secs vm' = clock_secs vm"
    "last_instr_retval (prog_of vm' i) = last_instr_retval (prog_of vm i)"
    using assms(2) at_pc_slot [OF assms(2)]
    by (simp_all add: frame_def at_pc_def upd_prog_def)
qed

lemma set_prog_step:
  assumes "at_pc vm pid i st pc"
    and "\<And>p. prog_id (the (f (Some p))) = prog_id p" "\<And>p. instructions (the (f (Some p))) = instructions p"
    and "\<And>p. data (the (f (Some p))) = data p"
    and "state (the (f (Some (prog_of vm i)))) = st'" "program_counter (the (f (Some (prog_of vm i)))) = pc'"
  shows "frame vm i (set_prog vm (Some i) f)" "at_pc (set_prog vm (Some i) f) pid i st' pc'"
    "events (set_prog vm (Some i) f) = events vm" "clock_secs (set_prog vm (Some i) f) = clock_secs vm"
    "prog_of (set_prog vm (Some i) f) i = the (f (Some (prog_of vm i)))"
proof -
  have "db_inv (upd_prog (db vm) i f)"
    using assms(1,2) by (intro db_inv_upd_prog [of _ pid]) (auto simp: at_pc_def)
  then show "frame vm i (set_prog vm (Some i) f)" "at_pc (set_prog vm (Some i) f) pid i st' pc'"
    "events (set_prog vm (Some i) f) = events vm" "clock_secs (set_prog vm (Some i) f) = clock_secs vm"
    "prog_of (set_prog vm (Some i) f) i = the (f (Some (prog_of vm i)))"
    using assms at_pc_slot [OF assms(1)]
    by (simp_all add: set_prog_def frame_def at_pc_def upd_prog_def)
qed

lemma set_retval_step:
  fixes r :: ov_vm_retval
  assumes "at_pc vm pid i st pc"
  defines "vm' \<equiv> set_prog vm (Some i) (\<lambda>p. fst (ov_vm_prog_set_last_instr_retval p r))"
  shows "frame vm i vm'" "at_pc vm' pid i st pc" "events vm' = events vm"
    "last_instr_retval (prog_of vm' i) = r"
  using set_prog_step [OF assms(1), of "\<lambda>p. fst (ov_vm_prog_set_last_instr_retval p r)"] assms
  by (simp_all add: at_pc_def)

lemma set_state_step:
  fixes st' :: ov_vm_prog_status
  assumes "at_pc vm pid i st pc"
  defines "vm' \<equiv> set_prog vm (Some i) (\<lambda>p. ov_vm_prog_state_set p st')"
  shows "frame vm i vm'" "at_pc vm' pid i st' pc" "events vm' = events vm"
    "last_instr_retval (prog_of vm' i) = last_instr_retval (prog_of vm i)"
  using set_prog_step [OF assms(1), of "\<lambda>p. ov_vm_prog_state_set p st'"] assms
  by (simp_all add: at_pc_def)

lemma propagate_keeps:
  "prog_id (the (ov_vm_prog_propagate_program_counter n (Some p))) = prog_id p"
  "instructions (the (ov_vm_prog_propagate_program_counter n (Some p))) = instructions p"
  "data (the (ov_vm_prog_propagate_program_counter n (Some p))) = data p"
  "state (the (ov_vm_prog_propagate_program_counter n (Some p))) = state p"
  "last_instr_retval (the (ov_vm_prog_propagate_program_counter n (Some p))) = last_instr_retval p"
  by (simp_all add: ov_vm_prog_propagate_program_counter_def Let_def split: ov_vm_prog_status.splits)

lemma propagate_step:
  assumes "at_pc vm pid i st pc" "st = OV_VM_PROG_OK \<or> st = OV_VM_PROG_ABORTING"
  shows "frame vm i (propagate vm (Some i))"
    "at_pc (propagate vm (Some i)) pid i st (if st = OV_VM_PROG_OK then pc + 1 else pc - 1)"
    "events (propagate vm (Some i)) = events vm"
    "last_instr_retval (prog_of (propagate vm (Some i)) i) = last_instr_retval (prog_of vm i)"
proof -
  let ?f = "ov_vm_prog_propagate_program_counter (clock_secs vm)"
  note step = set_prog_step [OF assms(1), of ?f, OF propagate_keeps(1-3) refl refl]
  have "program_counter (the (?f (Some (prog_of vm i)))) = (if st = OV_VM_PROG_OK then pc + 1 else pc - 1)"
    "state (prog_of vm i) = st"
    using assms by (auto simp: ov_vm_prog_propagate_program_counter_def at_pc_def Let_def)
  with step show "frame vm i (propagate vm (Some i))"
    "at_pc (propagate vm (Some i)) pid i st (if st = OV_VM_PROG_OK then pc + 1 else pc - 1)"
    "events (propagate vm (Some i)) = events vm"
    "last_instr_retval (prog_of (propagate vm (Some i)) i) = last_instr_retval (prog_of vm i)"
    unfolding propagate_def by (simp_all only: propagate_keeps)
qed

lemma propagate_back:
  assumes "at_pc vm pid i OV_VM_PROG_ABORTING pc"
  shows "frame vm i (propagate vm (Some i))" "at_pc (propagate vm (Some i)) pid i OV_VM_PROG_ABORTING (pc - 1)"
    "events (propagate vm (Some i)) = events vm"
    "last_instr_retval (prog_of (propagate vm (Some i)) i) = last_instr_retval (prog_of vm i)"
  using propagate_step [OF assms] by auto

lemma propagate_forward:
  assumes "at_pc vm pid i OV_VM_PROG_OK pc"
  shows "frame vm i (propagate vm (Some i))" "at_pc (propagate vm (Some i)) pid i OV_VM_PROG_OK (pc + 1)"
    "events (propagate vm (Some i)) = events vm"
    "last_instr_retval (prog_of (propagate vm (Some i)) i) = last_instr_retval (prog_of vm i)"
  using propagate_step [OF assms] by auto

definition gone :: "('h, 'd, 'w) ov_vm \<Rightarrow> string \<Rightarrow> nat \<Rightarrow> ('h, 'd, 'w) ov_vm \<Rightarrow> bool" where
  "gone vm pid i vm' \<longleftrightarrow> db_inv (db vm') \<and> progs (db vm') = (progs (db vm))(pid := None) \<and>
    released (db vm') = released (db vm) @ released_data (db vm) i \<and> opcodes vm' = opcodes vm \<and>
    slot_cleared (pool_states (db vm') ! i) \<and>
    (\<forall>j. j \<noteq> i \<longrightarrow> pool_states (db vm') ! j = pool_states (db vm) ! j)"

lemma gone_frame:
  assumes f: "frame vm i vm1" and g: "gone vm1 pid i vm'"
  shows "gone vm pid i vm'"
proof -
  have eqs: "progs (db vm1) = progs (db vm)" "released (db vm1) = released (db vm)" "opcodes vm1 = opcodes vm"
    "released_data (db vm1) i = released_data (db vm) i"
    "\<And>j. j \<noteq> i \<Longrightarrow> pool_states (db vm1) ! j = pool_states (db vm) ! j"
    using f by (simp_all add: frame_def released_data_def split: option.split)
  from g show ?thesis unfolding gone_def eqs(1-4) using eqs(5) by auto
qed

definition note_of :: "('h, 'd, 'w) ov_vm \<Rightarrow> ov_vm_prog_status \<Rightarrow> string \<Rightarrow> 'h event list" where
  "note_of vm st pid =
    (case st of
       OV_VM_PROG_FAILED_TO_ABORT \<Rightarrow> if notify_failed_to_abort_given vm then [Program_failed_to_abort pid] else []
     | OV_VM_PROG_ABORTING \<Rightarrow> if notify_aborted_given vm then [Program_aborted pid] else []
     | OV_VM_PROG_OK \<Rightarrow> if notify_done_given vm then [Program_done pid] else []
     | OV_VM_PROG_INVALID \<Rightarrow> [])"

lemma note_frame: "frame vm i vm' \<Longrightarrow> note_of vm' = note_of vm"
  by (auto simp: note_of_def frame_def fun_eq_iff split: ov_vm_prog_status.splits)

lemma release_step:
  assumes at: "at_pc vm pid i st pc" and st: "st \<noteq> OV_VM_PROG_INVALID"
  obtains vm' where "release_program vm (Some i) = Ret vm'" "gone vm pid i vm'" "events vm' = events vm @ note_of vm st pid"
proof -
  have inv: "db_inv (db vm)" and i: "progs (db vm) pid = Some i" and il: "i < length (pool_states (db vm))"
    using at at_pc_slot [OF at] by (auto simp: at_pc_def)
  have pid: "prog_id (prog_of vm i) = pid" using db_invD(11) [OF inv i] .
  have u: "unalias (db vm) pid = pid" using unalias_progs [OF inv] i by auto
  with i have i': "progs (db vm) (unalias (db vm) pid) = Some i" by simp
  obtain db' where db': "ov_vm_prog_db_remove (Some (db vm)) (Some pid) = Some (Some db', True)" "db_inv db'"
    "progs db' = (progs (db vm))(unalias (db vm) pid := None)"
    "alias_map db' = (\<lambda>a. if alias_map (db vm) a = Some (unalias (db vm) pid) then None else alias_map (db vm) a)"
    "pool_states db' = (pool_states (db vm))[i := cleared (pool_states (db vm) ! i)]"
    "released db' = released (db vm) @ released_data (db vm) i" "release_given db' = release_given (db vm)"
    "topmost_usable_slot_index db' = topmost_usable_slot_index (db vm) + 1"
    by (rule db_remove_eq [OF inv i'])
  have "release_program vm (Some i) = Ret (vm\<lparr>db := db', events := events vm @ note_of vm st pid\<rparr>)"
    using at st db'(1) pid
    by (cases st) (auto simp: release_program_def at_pc_def remove_prog_def note_of_def
        notify_program_failed_to_abort_def notify_program_aborted_def notify_program_done_def)
  moreover have "gone vm pid i (vm\<lparr>db := db', events := events vm @ note_of vm st pid\<rparr>)"
    using db' u il by (auto simp: gone_def)
  ultimately show thesis by (intro that) auto
qed

definition handler_for :: "('h, 'd, 'w) ov_vm \<Rightarrow> ov_vm_prog_status \<Rightarrow> ov_vm_instr \<Rightarrow> 'h ov_vm_opcode_handler option" where
  "handler_for vm st instr = (if opcode instr = OP_INVALID then None
     else case st of
            OV_VM_PROG_OK \<Rightarrow> handler (opcodes vm ! unat (opcode instr))
          | OV_VM_PROG_ABORTING \<Rightarrow> inv_handler (opcodes vm ! unat (opcode instr))
          | _ \<Rightarrow> None)"

lemmas handler_defs = handler_for_def get_handler_from_opcode_def_def handler_from_opcode_def_def inverse_handler_from_opcode_def_def

lemma handler_for_frame: "frame vm i vm' \<Longrightarrow> handler_for vm' = handler_for vm"
  by (simp add: handler_for_def frame_def fun_eq_iff cong: ov_vm_prog_status.case_cong)

definition in_table :: "('h, 'd, 'w) ov_vm \<Rightarrow> nat \<Rightarrow> bool" where
  "in_table vm i \<longleftrightarrow> (\<forall>x \<in> set (instructions (prog_of vm i)). unat (opcode x) < length (opcodes vm))"

lemma in_table_frame: "frame vm i vm' \<Longrightarrow> in_table vm' i = in_table vm i"
  by (simp add: in_table_def frame_def)

lemma local_effect_refl: "local_effect vm i vm"
proof -
  have "db vm = (upd_prog (db vm) i (map_option (\<lambda>p. p\<lparr>error := error (prog_of vm i)\<rparr>)))\<lparr>aliases := aliases (db vm)\<rparr>"
    by (simp add: upd_prog_def upd_slot_def)
  then have "vm = vm\<lparr>db := (upd_prog (db vm) i (map_option (\<lambda>p. p\<lparr>error := error (prog_of vm i)\<rparr>)))\<lparr>aliases := aliases (db vm)\<rparr>, world := world vm\<rparr>"
    by simp
  then show ?thesis unfolding local_effect_def by blast
qed

lemma call_handler_step:
  assumes "handlers_local sem" "at_pc vm pid i st pc" "call_handler sem h vm (Some i) = (vm', r)"
  shows "frame vm i vm'" "at_pc vm' pid i st pc" "events vm' = events vm"
proof -
  have "local_effect vm i vm'"
  proof (cases h)
    case (Handler f)
    then have "vm' = fst (sem f vm (Some i))" using assms(3) by (simp add: call_handler_def)
    then show ?thesis using assms(1) by (simp add: handlers_local_def)
  qed (use assms(3) local_effect_refl in \<open>auto simp: call_handler_def end_handler_def nop_handler_def
      invalid_handler_def inv_handler_dummy_def\<close>)
  from local_effect_step [OF this assms(2)]
  show "frame vm i vm'" "at_pc vm' pid i st pc" "events vm' = events vm" by auto
qed

lemma current_step:
  assumes "handlers_local sem" "at_pc vm pid i st (int k)" "in_table vm i" "k < length (instructions (prog_of vm i))"
  obtains vm' r where "execute_current_instruction sem vm (Some i) = Ret (vm', r)" "frame vm i vm'" "at_pc vm' pid i st (int k)"
    "events vm' = events vm @ (case handler_for vm st (instructions (prog_of vm i) ! k) of None \<Rightarrow> []
        | Some h \<Rightarrow> [Called h (int k) (st = OV_VM_PROG_ABORTING)])"
    "handler_for vm st (instructions (prog_of vm i) ! k) = None \<longrightarrow> r = OC_ERROR"
    "\<forall>h. handler_for vm st (instructions (prog_of vm i) ! k) = Some h \<longrightarrow>
       r = snd (call_handler sem h (vm\<lparr>events := events vm @ [Called h (int k) (st = OV_VM_PROG_ABORTING)]\<rparr>) (Some i))"
proof -
  let ?instr = "instructions (prog_of vm i) ! k"
  have ci: "ov_vm_prog_current_instr (prog_at vm (Some i)) = Some ?instr"
    using assms(2,4) by (simp add: ov_vm_prog_current_instr_def at_pc_def)
  have h: "get_handler_for_current_instr vm (Some i) = Ret (handler_for vm st ?instr)"
    unfolding get_handler_for_current_instr_def ci
    using assms by (auto simp: get_opcode_def_def handler_defs in_table_def at_pc_def split: ov_vm_prog_status.split)
  show thesis
  proof (cases "handler_for vm st ?instr")
    case None
    with h assms(2) show thesis by (intro that [of vm OC_ERROR]) (auto simp: execute_current_instruction_def)
  next
    case (Some h')
    let ?vm = "vm\<lparr>events := events vm @ [Called h' (int k) (st = OV_VM_PROG_ABORTING)]\<rparr>"
    obtain vm' r where c: "call_handler sem h' ?vm (Some i) = (vm', r)" by fastforce
    have "at_pc ?vm pid i st (int k)" "frame vm i ?vm" using assms(2) by (auto simp: at_pc_def frame_def)
    note call_handler_step [OF assms(1) this(1) c] this(2)
    with h Some c assms(2) show thesis
      by (intro that [of vm' r]) (auto simp: execute_current_instruction_def at_pc_def intro: frame_trans)
  qed
qed

definition inverse_ok :: "('h, 'd, 'w) semantics \<Rightarrow> bool" where
  "inverse_ok sem \<longleftrightarrow> (\<forall>h vm i. state (prog_of vm i) = OV_VM_PROG_ABORTING \<longrightarrow> snd (sem h vm (Some i)) \<noteq> OC_WAIT_AND_REPEAT)"

lemma call_inverse_ok:
  assumes "inverse_ok sem" "state (prog_of vm i) = OV_VM_PROG_ABORTING"
  shows "snd (call_handler sem h vm (Some i)) \<noteq> OC_WAIT_AND_REPEAT"
  using assms by (cases h) (auto simp: call_handler_def inverse_ok_def end_handler_def nop_handler_def
      invalid_handler_def inv_handler_dummy_def)

text \<open>What follows an instruction, and one turn of the loop in either direction.\<close>

definition after_instr ::
  "nat \<Rightarrow> ('h, 'd, 'w) semantics \<Rightarrow> ('h, 'd, 'w) ov_vm \<Rightarrow> nat \<Rightarrow> ov_vm_retval \<Rightarrow> (('h, 'd, 'w) ov_vm \<times> ov_vm_exec_result) run" where
  "after_instr fuel sem vm i r =
    (let again = (\<lambda>vm'. if -1 < ov_vm_prog_program_counter (prog_at vm' (Some i))
                           then execute_loop fuel sem vm' (Some i) else execute_end vm' (Some i))
     in (case r of
           OC_ERROR \<Rightarrow>
             (case abort_program_with fuel sem vm (Some i) False of
                Ret vm2 \<Rightarrow> Ret (vm2, OV_EXEC_ERROR) | Undefined \<Rightarrow> Undefined | Out_of_fuel \<Rightarrow> Out_of_fuel)
         | OC_NEXT \<Rightarrow> again (propagate vm (Some i))
         | OC_WAIT_AND_NEXT \<Rightarrow>
             if ov_vm_prog_state (prog_at (propagate vm (Some i)) (Some i)) = OV_VM_PROG_ABORTING
             then again (propagate vm (Some i)) else Ret (propagate vm (Some i), OV_EXEC_WAIT)
         | OC_WAIT_AND_REPEAT \<Rightarrow>
             if ov_vm_prog_state (prog_at vm (Some i)) = OV_VM_PROG_ABORTING then again vm else Ret (vm, OV_EXEC_WAIT)
         | OC_FINISHED \<Rightarrow>
             (case release_program vm (Some i) of
                Ret vm2 \<Rightarrow> Ret (vm2, OV_EXEC_OK) | Undefined \<Rightarrow> Undefined | Out_of_fuel \<Rightarrow> Out_of_fuel)))"

definition call_of :: "'h ov_vm_opcode_handler option \<Rightarrow> nat \<Rightarrow> ov_vm_prog_status \<Rightarrow> 'h event list" where
  "call_of h k st = (case h of None \<Rightarrow> [] | Some h \<Rightarrow> [Called h (int k) (st = OV_VM_PROG_ABORTING)])"

lemma loop_step:
  assumes sem: "handlers_local sem" and at: "at_pc vm pid i st (int k)" and tab: "in_table vm i"
    and k: "k < length (instructions (prog_of vm i))"
  defines "h \<equiv> handler_for vm st (instructions (prog_of vm i) ! k)"
  obtains vm' r where "execute_loop (Suc fuel) sem vm (Some i) = after_instr fuel sem vm' i r" "frame vm i vm'"
    "at_pc vm' pid i st (int k)" "last_instr_retval (prog_of vm' i) = r" "events vm' = events vm @ call_of h k st"
    "h = None \<longrightarrow> r = OC_ERROR"
    "\<forall>g. h = Some g \<longrightarrow> r = snd (call_handler sem g (vm\<lparr>events := events vm @ call_of h k st\<rparr>) (Some i))"
proof -
  obtain vm1 r where c: "execute_current_instruction sem vm (Some i) = Ret (vm1, r)" "frame vm i vm1"
    "at_pc vm1 pid i st (int k)"
    "events vm1 = events vm @ (case h of None \<Rightarrow> [] | Some g \<Rightarrow> [Called g (int k) (st = OV_VM_PROG_ABORTING)])"
    "h = None \<longrightarrow> r = OC_ERROR"
    "\<forall>g. h = Some g \<longrightarrow> r = snd (call_handler sem g (vm\<lparr>events := events vm @ [Called g (int k) (st = OV_VM_PROG_ABORTING)]\<rparr>) (Some i))"
    unfolding h_def by (rule current_step [OF sem at tab k])
  note s = set_retval_step [OF c(3), of r]
  show thesis
  proof (rule that [of "set_prog vm1 (Some i) (\<lambda>p. fst (ov_vm_prog_set_last_instr_retval p r))" r])
    show "execute_loop (Suc fuel) sem vm (Some i) =
      after_instr fuel sem (set_prog vm1 (Some i) (\<lambda>p. fst (ov_vm_prog_set_last_instr_retval p r))) i r"
      unfolding execute_loop.simps(2) c(1) after_instr_def Let_def by (simp only: run.case prod.case)
  qed (use c s frame_trans [OF c(2) s(1)] in \<open>auto simp: call_of_def\<close>)
qed

text \<open>One step of an aborting program: the next instruction is inverted, or the abortion ends.\<close>

definition objects :: "('h, 'd, 'w) semantics \<Rightarrow> nat \<Rightarrow> 'h ov_vm_opcode_handler option \<Rightarrow> bool" where
  "objects sem i h \<longleftrightarrow> (case h of None \<Rightarrow> True
     | Some g \<Rightarrow> \<exists>vm. snd (call_handler sem g vm (Some i)) \<notin> {OC_NEXT, OC_WAIT_AND_NEXT})"

definition abort_ends :: "('h, 'd, 'w) ov_vm \<Rightarrow> string \<Rightarrow> nat \<Rightarrow> nat \<Rightarrow> ('h, 'd, 'w) ov_vm \<Rightarrow> bool" where
  "abort_ends vm pid i k vm' \<longleftrightarrow> gone vm pid i vm' \<and>
    (let h = handler_for vm OV_VM_PROG_ABORTING (instructions (prog_of vm i) ! k)
     in \<exists>st \<in> {OV_VM_PROG_ABORTING, OV_VM_PROG_FAILED_TO_ABORT}. (h = None \<longrightarrow> st = OV_VM_PROG_FAILED_TO_ABORT) \<and>
       events vm' = events vm @ call_of h k OV_VM_PROG_ABORTING @ note_of vm st pid)"

lemma back_error:
  assumes f: "frame vm i vm1" and at: "at_pc vm1 pid i OV_VM_PROG_ABORTING (int k)"
    and ev: "events vm1 = events vm @ call_of (handler_for vm OV_VM_PROG_ABORTING (instructions (prog_of vm i) ! k)) k OV_VM_PROG_ABORTING"
  shows "\<exists>vm'. after_instr fuel sem vm1 i OC_ERROR = Ret (vm', OV_EXEC_ERROR) \<and> abort_ends vm pid i k vm'"
proof -
  let ?vm2 = "set_prog vm1 (Some i) (\<lambda>p. ov_vm_prog_state_set p OV_VM_PROG_FAILED_TO_ABORT)"
  note s = set_state_step [OF at, of OV_VM_PROG_FAILED_TO_ABORT]
  obtain vm' where r: "release_program ?vm2 (Some i) = Ret vm'" "gone ?vm2 pid i vm'"
    "events vm' = events ?vm2 @ note_of ?vm2 OV_VM_PROG_FAILED_TO_ABORT pid"
    by (rule release_step [OF s(2)]) simp
  have f2: "frame vm i ?vm2" by (rule frame_trans [OF f s(1)])
  have "state (prog_of vm1 i) = OV_VM_PROG_ABORTING" using at by (simp add: at_pc_def)
  then have "after_instr fuel sem vm1 i OC_ERROR = Ret (vm', OV_EXEC_ERROR)"
    using r(1) by (simp add: after_instr_def abort_program_with.simps)
  moreover have "abort_ends vm pid i k vm'"
    using gone_frame [OF f2 r(2)] r(3) s(3) ev note_frame [OF f2] by (simp add: abort_ends_def)
  ultimately show ?thesis by blast
qed

lemma back_finished:
  assumes f: "frame vm i vm1" and at: "at_pc vm1 pid i OV_VM_PROG_ABORTING (int k)"
    and ev: "events vm1 = events vm @ call_of (handler_for vm OV_VM_PROG_ABORTING (instructions (prog_of vm i) ! k)) k OV_VM_PROG_ABORTING"
    and h: "handler_for vm OV_VM_PROG_ABORTING (instructions (prog_of vm i) ! k) \<noteq> None"
  shows "\<exists>vm'. after_instr fuel sem vm1 i OC_FINISHED = Ret (vm', OV_EXEC_OK) \<and> abort_ends vm pid i k vm'"
proof -
  obtain vm' where r: "release_program vm1 (Some i) = Ret vm'" "gone vm1 pid i vm'" "events vm' = events vm1 @ note_of vm1 OV_VM_PROG_ABORTING pid"
    by (rule release_step [OF at]) simp
  then show ?thesis using gone_frame [OF f] h ev note_frame [OF f] by (auto simp: after_instr_def abort_ends_def)
qed

lemma back_step:
  assumes sem: "handlers_local sem" "inverse_ok sem" and at: "at_pc vm pid i OV_VM_PROG_ABORTING (int k)"
    and tab: "in_table vm i" and k: "k < length (instructions (prog_of vm i))"
  defines "h \<equiv> handler_for vm OV_VM_PROG_ABORTING (instructions (prog_of vm i) ! k)"
  obtains (cont) vm' where "execute_loop (Suc fuel) sem vm (Some i) =
        (if k = 0 then execute_end vm' (Some i) else execute_loop fuel sem vm' (Some i))"
      "frame vm i vm'" "at_pc vm' pid i OV_VM_PROG_ABORTING (int k - 1)"
      "h \<noteq> None" "events vm' = events vm @ [Called (the h) (int k) True]"
  | (stop) vm' r where "execute_loop (Suc fuel) sem vm (Some i) = Ret (vm', r)" "r \<noteq> OV_EXEC_WAIT" "abort_ends vm pid i k vm'"
      "objects sem i h"
proof -
  obtain vm1 r where c: "execute_loop (Suc fuel) sem vm (Some i) = after_instr fuel sem vm1 i r" "frame vm i vm1"
    "at_pc vm1 pid i OV_VM_PROG_ABORTING (int k)" "events vm1 = events vm @ call_of h k OV_VM_PROG_ABORTING"
    "h = None \<longrightarrow> r = OC_ERROR"
    "\<forall>g. h = Some g \<longrightarrow> r = snd (call_handler sem g (vm\<lparr>events := events vm @ call_of h k OV_VM_PROG_ABORTING\<rparr>) (Some i))"
    unfolding h_def by (rule loop_step [OF sem(1) at tab k])
  note s = propagate_back [OF c(3)]
  have st: "state (prog_of vm1 i) = OV_VM_PROG_ABORTING" "state (prog_of (propagate vm1 (Some i)) i) = OV_VM_PROG_ABORTING"
    "program_counter (prog_of (propagate vm1 (Some i)) i) = int k - 1"
    using c(3) s(2) by (auto simp: at_pc_def)
  have bad: "objects sem i h" if "r \<notin> {OC_NEXT, OC_WAIT_AND_NEXT}"
  proof (cases h)
    case (Some g)
    then have "snd (call_handler sem g (vm\<lparr>events := events vm @ call_of h k OV_VM_PROG_ABORTING\<rparr>) (Some i)) \<notin> {OC_NEXT, OC_WAIT_AND_NEXT}"
      using c(6) that by blast
    then show ?thesis using Some by (auto simp: objects_def)
  qed (simp add: objects_def)
  have next_instr: thesis if r: "r \<in> {OC_NEXT, OC_WAIT_AND_NEXT}"
  proof (rule cont)
    show "execute_loop (Suc fuel) sem vm (Some i) = (if k = 0 then execute_end (propagate vm1 (Some i)) (Some i)
        else execute_loop fuel sem (propagate vm1 (Some i)) (Some i))"
      using c(1) r st by (auto simp: after_instr_def Let_def)
    show "frame vm i (propagate vm1 (Some i))" by (rule frame_trans [OF c(2) s(1)])
    show "h \<noteq> None" using c(5) r by auto
    then show "events (propagate vm1 (Some i)) = events vm @ [Called (the h) (int k) True]"
      using s(3) c(4) by (auto simp: call_of_def)
  qed (use s in auto)
  show thesis
  proof (cases r)
    case OC_ERROR
    obtain vm' where "after_instr fuel sem vm1 i OC_ERROR = Ret (vm', OV_EXEC_ERROR)" "abort_ends vm pid i k vm'"
      using back_error [OF c(2,3) c(4) [unfolded h_def]] by blast
    then show thesis using c(1) OC_ERROR bad by (intro stop [of vm' OV_EXEC_ERROR]) auto
  next
    case OC_FINISHED
    then have "h \<noteq> None" using c(5) by auto
    then obtain vm' where "after_instr fuel sem vm1 i OC_FINISHED = Ret (vm', OV_EXEC_OK)" "abort_ends vm pid i k vm'"
      using back_finished [OF c(2,3) c(4) [unfolded h_def]] unfolding h_def by blast
    then show thesis using c(1) OC_FINISHED bad by (intro stop [of vm' OV_EXEC_OK]) auto
  next
    case OC_WAIT_AND_REPEAT
    then obtain g where g: "h = Some g" using c(5) by fastforce
    have "state (prog_of (vm\<lparr>events := events vm @ call_of h k OV_VM_PROG_ABORTING\<rparr>) i) = OV_VM_PROG_ABORTING"
      using at by (simp add: at_pc_def)
    then show thesis using c(6) g call_inverse_ok [OF sem(2)] OC_WAIT_AND_REPEAT by metis
  qed (use next_instr in auto)
qed

lemma execute_end_step:
  assumes "at_pc vm pid i OV_VM_PROG_ABORTING pc"
  obtains vm' where "execute_end vm (Some i) = Ret (vm', OV_EXEC_ERROR)" "gone vm pid i vm'"
    "events vm' = events vm @ note_of vm OV_VM_PROG_ABORTING pid"
proof -
  obtain vm' where "release_program vm (Some i) = Ret vm'" "gone vm pid i vm'"
    "events vm' = events vm @ note_of vm OV_VM_PROG_ABORTING pid"
    by (rule release_step [OF assms]) simp
  then show thesis by (intro that [of vm']) (simp_all add: execute_end_def)
qed

text \<open>
  An aborting program comes to its end and is gone then. The inverse handlers are called for the completed instructions
  in reverse order, down to the first that objects; \<open>undone\<close> says so, with \<open>m\<close> the number of instructions that are not
  undone.
\<close>

definition inverts :: "('h, 'd, 'w) semantics \<Rightarrow> ('h, 'd, 'w) ov_vm \<Rightarrow> nat \<Rightarrow> nat \<Rightarrow> bool" where
  "inverts sem vm i k \<longleftrightarrow>
    (\<exists>h. handler_for vm OV_VM_PROG_ABORTING (instructions (prog_of vm i) ! k) = Some h \<and>
       (\<forall>vm'. snd (call_handler sem h vm' (Some i)) \<in> {OC_NEXT, OC_WAIT_AND_NEXT}))"

definition inverse_call :: "('h, 'd, 'w) ov_vm \<Rightarrow> nat \<Rightarrow> nat \<Rightarrow> 'h event" where
  "inverse_call vm i k =
    Called (the (handler_for vm OV_VM_PROG_ABORTING (instructions (prog_of vm i) ! k))) (int k) True"

definition undone :: "('h, 'd, 'w) semantics \<Rightarrow> ('h, 'd, 'w) ov_vm \<Rightarrow> string \<Rightarrow> nat \<Rightarrow> nat \<Rightarrow> ('h, 'd, 'w) ov_vm \<Rightarrow> bool" where
  "undone sem vm pid i k vm' \<longleftrightarrow> gone vm pid i vm' \<and>
    (events vm' = events vm @ map (inverse_call vm i) (rev [0..<Suc k]) @ note_of vm OV_VM_PROG_ABORTING pid \<or>
     (\<exists>m \<le> k. \<not> inverts sem vm i m \<and>
       (let h = handler_for vm OV_VM_PROG_ABORTING (instructions (prog_of vm i) ! m)
        in \<exists>st \<in> {OV_VM_PROG_ABORTING, OV_VM_PROG_FAILED_TO_ABORT}. (h = None \<longrightarrow> st = OV_VM_PROG_FAILED_TO_ABORT) \<and>
          events vm' = events vm @ map (inverse_call vm i) (rev [Suc m..<Suc k]) @ call_of h m OV_VM_PROG_ABORTING @ note_of vm st pid)))"

lemma inverts_frame: "frame vm i vm' \<Longrightarrow> inverts sem vm' i k = inverts sem vm i k"
  by (simp add: inverts_def handler_for_frame) (simp add: frame_def)

lemma inverse_call_frame: "frame vm i vm' \<Longrightarrow> inverse_call vm' i k = inverse_call vm i k"
  by (simp add: inverse_call_def handler_for_frame) (simp add: frame_def)

lemma objects_iff: "objects sem i (handler_for vm OV_VM_PROG_ABORTING (instructions (prog_of vm i) ! k)) \<longleftrightarrow> \<not> inverts sem vm i k"
  by (cases "handler_for vm OV_VM_PROG_ABORTING (instructions (prog_of vm i) ! k)") (auto simp: objects_def inverts_def)

lemma undone_stop:
  assumes "abort_ends vm pid i k vm'" "objects sem i (handler_for vm OV_VM_PROG_ABORTING (instructions (prog_of vm i) ! k))"
  shows "undone sem vm pid i k vm'"
proof -
  have "\<not> inverts sem vm i k" using assms(2) objects_iff by blast
  with assms(1) show ?thesis unfolding undone_def abort_ends_def by (intro conjI disjI2 exI [of _ k]) auto
qed

lemma undone_Suc:
  assumes f: "frame vm i vm1" and ev: "events vm1 = events vm @ [inverse_call vm i (Suc k)]" and u: "undone sem vm1 pid i k vm'"
  shows "undone sem vm pid i (Suc k) vm'"
proof -
  have eqs: "inverse_call vm1 i = inverse_call vm i" "inverts sem vm1 i = inverts sem vm i" "note_of vm1 = note_of vm"
    "handler_for vm1 = handler_for vm" "instructions (prog_of vm1 i) = instructions (prog_of vm i)"
    using inverse_call_frame [OF f] inverts_frame [OF f] note_frame [OF f] handler_for_frame [OF f] f by (auto simp: frame_def)
  have g: "gone vm pid i vm'" using u gone_frame [OF f] by (simp add: undone_def)
  from u have "events vm' = events vm1 @ map (inverse_call vm i) (rev [0..<Suc k]) @ note_of vm OV_VM_PROG_ABORTING pid \<or>
     (\<exists>m \<le> k. \<not> inverts sem vm i m \<and>
       (let h = handler_for vm OV_VM_PROG_ABORTING (instructions (prog_of vm i) ! m)
        in \<exists>st \<in> {OV_VM_PROG_ABORTING, OV_VM_PROG_FAILED_TO_ABORT}. (h = None \<longrightarrow> st = OV_VM_PROG_FAILED_TO_ABORT) \<and>
          events vm' = events vm1 @ map (inverse_call vm i) (rev [Suc m..<Suc k]) @ call_of h m OV_VM_PROG_ABORTING @ note_of vm st pid))"
    unfolding undone_def eqs by blast
  then show ?thesis
  proof
    assume "events vm' = events vm1 @ map (inverse_call vm i) (rev [0..<Suc k]) @ note_of vm OV_VM_PROG_ABORTING pid"
    with ev g show ?thesis by (simp add: undone_def)
  next
    assume "\<exists>m \<le> k. \<not> inverts sem vm i m \<and>
       (let h = handler_for vm OV_VM_PROG_ABORTING (instructions (prog_of vm i) ! m)
        in \<exists>st \<in> {OV_VM_PROG_ABORTING, OV_VM_PROG_FAILED_TO_ABORT}. (h = None \<longrightarrow> st = OV_VM_PROG_FAILED_TO_ABORT) \<and>
          events vm' = events vm1 @ map (inverse_call vm i) (rev [Suc m..<Suc k]) @ call_of h m OV_VM_PROG_ABORTING @ note_of vm st pid)"
    then obtain m where m: "m \<le> k" "\<not> inverts sem vm i m"
       "let h = handler_for vm OV_VM_PROG_ABORTING (instructions (prog_of vm i) ! m)
        in \<exists>st \<in> {OV_VM_PROG_ABORTING, OV_VM_PROG_FAILED_TO_ABORT}. (h = None \<longrightarrow> st = OV_VM_PROG_FAILED_TO_ABORT) \<and>
          events vm' = events vm1 @ map (inverse_call vm i) (rev [Suc m..<Suc k]) @ call_of h m OV_VM_PROG_ABORTING @ note_of vm st pid" by blast
    with ev g show ?thesis unfolding undone_def by (intro conjI disjI2 exI [of _ m]) auto
  qed
qed

lemma back_loop:
  assumes sem: "handlers_local sem" "inverse_ok sem"
    and "at_pc vm pid i OV_VM_PROG_ABORTING (int k)" "in_table vm i"
    "k < length (instructions (prog_of vm i))" "k < fuel"
  shows "\<exists>vm' r. execute_loop fuel sem vm (Some i) = Ret (vm', r) \<and> r \<noteq> OV_EXEC_WAIT \<and> undone sem vm pid i k vm'"
  using assms(3-6)
proof (induction k arbitrary: vm fuel)
  case 0
  then obtain n where n: "fuel = Suc n" by (cases fuel) auto
  show ?case
  proof (cases rule: back_step [OF sem 0(1-3), of n, case_names cont stop])
    case (cont vm')
    from cont(3) obtain vm'' where e: "execute_end vm' (Some i) = Ret (vm'', OV_EXEC_ERROR)" "gone vm' pid i vm''"
      "events vm'' = events vm' @ note_of vm' OV_VM_PROG_ABORTING pid"
      by (rule execute_end_step)
    have "events vm' = events vm @ [inverse_call vm i 0]" using cont(5) by (simp add: inverse_call_def)
    with e gone_frame [OF cont(2)] note_frame [OF cont(2)] have "undone sem vm pid i 0 vm''" by (simp add: undone_def)
    with cont n e show ?thesis by auto
  qed (use n undone_stop in auto)
next
  case (Suc k)
  then obtain n where n: "fuel = Suc n" by (cases fuel) auto
  show ?case
  proof (cases rule: back_step [OF sem Suc.prems(1-3), of n, case_names cont stop])
    case (cont vm')
    have "\<exists>vm'' r. execute_loop n sem vm' (Some i) = Ret (vm'', r) \<and> r \<noteq> OV_EXEC_WAIT \<and> undone sem vm' pid i k vm''"
    proof (rule Suc.IH)
      show "at_pc vm' pid i OV_VM_PROG_ABORTING (int k)" using cont(3) by simp
      show "in_table vm' i" using Suc.prems(2) in_table_frame [OF cont(2)] by simp
      show "k < length (instructions (prog_of vm' i))" using Suc.prems(3) cont(2) by (simp add: frame_def)
      show "k < n" using Suc.prems(4) n by simp
    qed
    moreover have "events vm' = events vm @ [inverse_call vm i (Suc k)]" using cont(5) by (simp add: inverse_call_def)
    ultimately show ?thesis using cont n undone_Suc [OF cont(2)] by auto
  qed (use n undone_stop in auto)
qed

text \<open>
  The program counter at which an abortion starts to invert: before the last completed
  instruction, or, after a wait whose instruction was counted already, before that one.
\<close>

definition abort_from :: "('h, 'd, 'w) ov_vm \<Rightarrow> nat \<Rightarrow> bool \<Rightarrow> int" where
  "abort_from vm i finish_current_step =
    program_counter (prog_of vm i) -
      (if \<not> finish_current_step \<and> last_instr_retval (prog_of vm i) = OC_WAIT_AND_NEXT then 2 else 1)"

lemma abort_start:
  assumes at: "at_pc vm pid i OV_VM_PROG_OK pc"
  obtains vm' where "abort_program_with (Suc n) sem vm (Some i) fin =
      (case execute_loop n sem vm' (Some i) of
         Ret (vm4, r) \<Rightarrow> Ret vm4 | Undefined \<Rightarrow> Undefined | Out_of_fuel \<Rightarrow> Out_of_fuel)"
    "frame vm i vm'" "at_pc vm' pid i OV_VM_PROG_ABORTING (abort_from vm i fin)" "events vm' = events vm"
proof -
  let ?vm1 = "set_prog vm (Some i) (\<lambda>p. ov_vm_prog_state_set p OV_VM_PROG_ABORTING)"
  let ?w = "\<not> fin \<and> last_instr_retval (prog_of vm i) = OC_WAIT_AND_NEXT"
  let ?vm2 = "if ?w then propagate ?vm1 (Some i) else ?vm1"
  note s1 = set_state_step [OF at, of OV_VM_PROG_ABORTING]
  note p1 = propagate_back [OF s1(2)]
  have s2: "frame vm i ?vm2" "at_pc ?vm2 pid i OV_VM_PROG_ABORTING (if ?w then pc - 1 else pc)" "events ?vm2 = events vm"
    using s1 p1 frame_trans [OF s1(1) p1(1)] by auto
  note s3 = propagate_back [OF s2(2)]
  have st: "state (prog_of vm i) = OV_VM_PROG_OK" "program_counter (prog_of vm i) = pc"
    "last_instr_retval (prog_of ?vm1 i) = last_instr_retval (prog_of vm i)"
    using at s1(4) by (auto simp: at_pc_def)
  have v: "is_prog_valid (propagate ?vm2 (Some i)) (Some i)"
    using s3(2) by (simp add: is_prog_valid_def at_pc_def)
  show thesis
  proof (rule that [of "propagate ?vm2 (Some i)"])
    show "abort_program_with (Suc n) sem vm (Some i) fin =
      (case execute_loop n sem (propagate ?vm2 (Some i)) (Some i) of
         Ret (vm4, r) \<Rightarrow> Ret vm4 | Undefined \<Rightarrow> Undefined | Out_of_fuel \<Rightarrow> Out_of_fuel)"
      unfolding abort_program_with.simps [of "Suc n"] prog_at_Some ov_vm_prog_state_def
        ov_vm_prog_get_last_instr_retval_def option.case st(1,3) ov_vm_prog_status.case Let_def nat.case
      using v by (simp only: execute.simps not_True_eq_False if_False)
    show "frame vm i (propagate ?vm2 (Some i))" by (rule frame_trans [OF s2(1) s3(1)])
    show "at_pc (propagate ?vm2 (Some i)) pid i OV_VM_PROG_ABORTING (abort_from vm i fin)"
    proof -
      have "abort_from vm i fin = (if ?w then pc - 1 else pc) - 1" using st(2) by (simp add: abort_from_def)
      with s3(2) show ?thesis by (simp only:)
    qed
    show "events (propagate ?vm2 (Some i)) = events vm" using s3(3) s2(3) by simp
  qed
qed

lemma undone_frame:
  assumes f: "frame vm i vm1" and ev: "events vm1 = events vm" and u: "undone sem vm1 pid i k vm'"
  shows "undone sem vm pid i k vm'"
proof -
  have eqs: "inverse_call vm1 i = inverse_call vm i" "inverts sem vm1 i = inverts sem vm i" "note_of vm1 = note_of vm"
    "handler_for vm1 = handler_for vm" "instructions (prog_of vm1 i) = instructions (prog_of vm i)"
    using inverse_call_frame [OF f] inverts_frame [OF f] note_frame [OF f] handler_for_frame [OF f] f by (auto simp: frame_def)
  show ?thesis using u gone_frame [OF f] unfolding undone_def eqs ev by blast
qed

lemma abort_undone:
  assumes sem: "handlers_local sem" "inverse_ok sem"
    and at: "at_pc vm pid i OV_VM_PROG_OK (int k)" and tab: "in_table vm i" "k \<le> length (instructions (prog_of vm i))"
    and j: "abort_from vm i fin = int j" and fuel: "Suc k \<le> fuel"
  shows "\<exists>vm'. abort_program_with fuel sem vm (Some i) fin = Ret vm' \<and> undone sem vm pid i j vm'"
proof -
  obtain n where n: "fuel = Suc n" using fuel by (cases fuel) auto
  obtain vm1 where vm1: "abort_program_with (Suc n) sem vm (Some i) fin =
      (case execute_loop n sem vm1 (Some i) of
         Ret (vm4, r) \<Rightarrow> Ret vm4 | Undefined \<Rightarrow> Undefined | Out_of_fuel \<Rightarrow> Out_of_fuel)"
    "frame vm i vm1" "at_pc vm1 pid i OV_VM_PROG_ABORTING (abort_from vm i fin)" "events vm1 = events vm"
    by (rule abort_start [OF at])
  have "j < k" using at j by (auto simp: abort_from_def at_pc_def split: if_splits)
  have "\<exists>vm' r. execute_loop n sem vm1 (Some i) = Ret (vm', r) \<and> r \<noteq> OV_EXEC_WAIT \<and> undone sem vm1 pid i j vm'"
  proof (rule back_loop [OF sem])
    show "at_pc vm1 pid i OV_VM_PROG_ABORTING (int j)" using vm1(3) j by simp
    show "in_table vm1 i" using tab(1) in_table_frame [OF vm1(2)] by simp
    show "j < length (instructions (prog_of vm1 i))" using \<open>j < k\<close> tab(2) vm1(2) by (simp add: frame_def)
    show "j < n" using \<open>j < k\<close> fuel n by simp
  qed
  with vm1(1) n undone_frame [OF vm1(2,4)] show ?thesis by auto
qed

lemma abort_gone:
  assumes sem: "handlers_local sem" "inverse_ok sem"
    and at: "at_pc vm pid i OV_VM_PROG_OK (int k)" and tab: "in_table vm i" "k \<le> length (instructions (prog_of vm i))"
    and pos: "0 \<le> abort_from vm i fin" and fuel: "Suc k \<le> fuel"
  shows "\<exists>vm'. abort_program_with fuel sem vm (Some i) fin = Ret vm' \<and> gone vm pid i vm'"
proof -
  obtain j where "abort_from vm i fin = int j" using pos nonneg_int_cases by blast
  from abort_undone [OF sem at tab this fuel] show ?thesis by (auto simp: undone_def)
qed

lemma abort_outside:
  assumes at: "at_pc vm pid i OV_VM_PROG_OK pc" and neg: "abort_from vm i fin < 0" and fuel: "2 \<le> fuel"
  shows "abort_program_with fuel sem vm (Some i) fin = Undefined"
proof -
  obtain n where n: "fuel = Suc (Suc n)" using fuel by (metis add_2_eq_Suc le_Suc_ex)
  obtain vm' where vm': "abort_program_with fuel sem vm (Some i) fin =
      (case execute_loop (Suc n) sem vm' (Some i) of
         Ret (vm4, r) \<Rightarrow> Ret vm4 | Undefined \<Rightarrow> Undefined | Out_of_fuel \<Rightarrow> Out_of_fuel)"
    "at_pc vm' pid i OV_VM_PROG_ABORTING (abort_from vm i fin)"
    unfolding n by (rule abort_start [OF at])
  then have "execute_current_instruction sem vm' (Some i) = Undefined"
    using neg by (simp add: execute_current_instruction_def get_handler_for_current_instr_def
        ov_vm_prog_current_instr_def at_pc_def)
  with vm'(1) show ?thesis by (simp add: execute_loop.simps)
qed

text \<open>A program that a machine can run: it ends with \<open>OP_END\<close> and all its opcodes are in the table.\<close>

definition runnable :: "('h, 'd, 'w) ov_vm \<Rightarrow> nat \<Rightarrow> bool" where
  "runnable vm i \<longleftrightarrow> in_table vm i \<and> instructions (prog_of vm i) \<noteq> [] \<and>
    opcode (last (instructions (prog_of vm i))) = OP_END \<and> handler (opcodes vm ! unat OP_END) = Some End_handler"

lemma runnable_frame: "frame vm i vm' \<Longrightarrow> runnable vm' i = runnable vm i"
  by (simp add: runnable_def in_table_frame) (simp add: frame_def)

definition first_succeeds :: "('h, 'd, 'w) semantics \<Rightarrow> ('h, 'd, 'w) ov_vm \<Rightarrow> nat \<Rightarrow> bool" where
  "first_succeeds sem vm i \<longleftrightarrow>
    (\<exists>h. handler_for vm OV_VM_PROG_OK (instructions (prog_of vm i) ! 0) = Some h \<and>
       (\<forall>vm'. snd (call_handler sem h vm' (Some i)) \<noteq> OC_ERROR))"

definition waiting :: "('h, 'd, 'w) ov_vm \<Rightarrow> string \<Rightarrow> nat \<Rightarrow> ('h, 'd, 'w) ov_vm \<Rightarrow> bool" where
  "waiting vm pid i vm' \<longleftrightarrow> frame vm i vm' \<and>
    (\<exists>k < length (instructions (prog_of vm i)). at_pc vm' pid i OV_VM_PROG_OK (int k)) \<and>
    last_instr_retval (prog_of vm' i) \<in> {OC_WAIT_AND_NEXT, OC_WAIT_AND_REPEAT}"

lemma waiting_frame: "frame vm i vm1 \<Longrightarrow> waiting vm1 pid i vm' \<Longrightarrow> waiting vm pid i vm'"
  unfolding waiting_def by (auto intro: frame_trans) (auto simp: frame_def)

text \<open>One step of a program that runs forward; the last instruction is \<open>OP_END\<close>.\<close>

lemma forward_step:
  assumes sem: "handlers_local sem" and at: "at_pc vm pid i OV_VM_PROG_OK (int k)" and run: "runnable vm i"
    and k: "k < length (instructions (prog_of vm i))"
  defines "h \<equiv> handler_for vm OV_VM_PROG_OK (instructions (prog_of vm i) ! k)"
  obtains vm' r where "execute_loop (Suc fuel) sem vm (Some i) = after_instr fuel sem vm' i r" "frame vm i vm'"
    "at_pc vm' pid i OV_VM_PROG_OK (int k)" "last_instr_retval (prog_of vm' i) = r"
    "events vm' = events vm @ call_of h k OV_VM_PROG_OK"
    "h = None \<longrightarrow> r = OC_ERROR" "\<forall>g. h = Some g \<longrightarrow> (\<exists>vm''. r = snd (call_handler sem g vm'' (Some i)))"
    "Suc k = length (instructions (prog_of vm i)) \<longrightarrow> r = OC_FINISHED \<and> h \<noteq> None"
proof -
  let ?is = "instructions (prog_of vm i)"
  have tab: "in_table vm i" using run by (simp add: runnable_def)
  obtain vm' r where c: "execute_loop (Suc fuel) sem vm (Some i) = after_instr fuel sem vm' i r" "frame vm i vm'"
    "at_pc vm' pid i OV_VM_PROG_OK (int k)" "last_instr_retval (prog_of vm' i) = r"
    "events vm' = events vm @ call_of h k OV_VM_PROG_OK" "h = None \<longrightarrow> r = OC_ERROR"
    "\<forall>g. h = Some g \<longrightarrow> r = snd (call_handler sem g (vm\<lparr>events := events vm @ call_of h k OV_VM_PROG_OK\<rparr>) (Some i))"
    unfolding h_def by (rule loop_step [OF sem at tab k])
  have "r = OC_FINISHED \<and> h \<noteq> None" if "Suc k = length ?is"
  proof -
    have "last ?is = ?is ! k" using that k by (metis diff_Suc_1 last_conv_nth list.size(3) nat.distinct(1))
    then have "h = Some End_handler"
      using run by (simp add: h_def runnable_def handler_for_def get_handler_from_opcode_def_def
          handler_from_opcode_def_def OP_END_def OP_INVALID_def)
    then show ?thesis using c(7) by (simp add: call_handler_def end_handler_def)
  qed
  with c show thesis by (intro that [of vm' r]) blast+
qed

lemma after_next:
  assumes "at_pc vm pid i OV_VM_PROG_OK (int k)"
  shows "after_instr fuel sem vm i OC_NEXT = execute_loop fuel sem (propagate vm (Some i)) (Some i)"
    "after_instr fuel sem vm i OC_WAIT_AND_NEXT = Ret (propagate vm (Some i), OV_EXEC_WAIT)"
    "after_instr fuel sem vm i OC_WAIT_AND_REPEAT = Ret (vm, OV_EXEC_WAIT)"
  using assms propagate_forward(2) [OF assms] by (auto simp: after_instr_def Let_def at_pc_def)

lemma forward_error:
  assumes sem: "handlers_local sem" "inverse_ok sem" and f: "frame vm i vm1"
    and at: "at_pc vm1 pid i OV_VM_PROG_OK (int k)" "last_instr_retval (prog_of vm1 i) = OC_ERROR"
    and k: "0 < k" "k \<le> length (instructions (prog_of vm i))" "in_table vm i" "Suc k \<le> fuel"
  shows "\<exists>vm'. after_instr fuel sem vm1 i OC_ERROR = Ret (vm', OV_EXEC_ERROR) \<and> gone vm pid i vm'"
proof -
  have "\<exists>vm'. abort_program_with fuel sem vm1 (Some i) False = Ret vm' \<and> gone vm1 pid i vm'"
  proof (rule abort_gone [OF sem at(1)])
    show "in_table vm1 i" using k(3) in_table_frame [OF f] by simp
    show "k \<le> length (instructions (prog_of vm1 i))" using k(2) f by (simp add: frame_def)
    show "0 \<le> abort_from vm1 i False" using k(1) at by (simp add: abort_from_def at_pc_def)
  qed (rule k(4))
  then show ?thesis using gone_frame [OF f] by (auto simp: after_instr_def)
qed

lemma after_finished:
  assumes f: "frame vm i vm1" and at: "at_pc vm1 pid i OV_VM_PROG_OK (int k)"
  obtains vm' where "after_instr fuel sem vm1 i OC_FINISHED = Ret (vm', OV_EXEC_OK)" "gone vm pid i vm'"
    "events vm' = events vm1 @ note_of vm OV_VM_PROG_OK pid"
proof -
  obtain vm' where "release_program vm1 (Some i) = Ret vm'" "gone vm1 pid i vm'"
    "events vm' = events vm1 @ note_of vm1 OV_VM_PROG_OK pid"
    by (rule release_step [OF at]) simp
  then show thesis using gone_frame [OF f] note_frame [OF f] by (intro that [of vm']) (auto simp: after_instr_def)
qed

text \<open>
  A running program comes to a wait or to its end, whatever its handlers return; only if the first instruction fails, there is
  nothing to go back to, and the machine reads the instruction before it.
\<close>

lemma forward_loop:
  assumes sem: "handlers_local sem" "inverse_ok sem"
    and "at_pc vm pid i OV_VM_PROG_OK (int k)" "runnable vm i" "k < length (instructions (prog_of vm i))"
    "2 * length (instructions (prog_of vm i)) + 2 \<le> fuel + k"
  shows "(\<exists>vm' r. execute_loop fuel sem vm (Some i) = Ret (vm', r) \<and> r \<noteq> OV_EXEC_TRIGGER_FAIL \<and>
    (if r = OV_EXEC_WAIT then waiting vm pid i vm' else gone vm pid i vm')) \<or>
    execute_loop fuel sem vm (Some i) = Undefined \<and> k = 0 \<and> \<not> first_succeeds sem vm i"
  using assms(3-6)
proof (induction "length (instructions (prog_of vm i)) - k" arbitrary: vm k fuel rule: less_induct)
  case less
  let ?is = "instructions (prog_of vm i)"
  let ?h = "handler_for vm OV_VM_PROG_OK (?is ! k)"
  obtain n where n: "fuel = Suc n" using less.prems(3,4) by (cases fuel) auto
  obtain vm1 r where c: "execute_loop (Suc n) sem vm (Some i) = after_instr n sem vm1 i r" "frame vm i vm1"
    "at_pc vm1 pid i OV_VM_PROG_OK (int k)" "last_instr_retval (prog_of vm1 i) = r"
    "?h = None \<longrightarrow> r = OC_ERROR" "\<forall>g. ?h = Some g \<longrightarrow> (\<exists>vm''. r = snd (call_handler sem g vm'' (Some i)))"
    "Suc k = length ?is \<longrightarrow> r = OC_FINISHED \<and> ?h \<noteq> None"
    by (rule forward_step [OF sem(1) less.prems(1-3)])
  note s = propagate_forward [OF c(3)]
  have f: "frame vm i (propagate vm1 (Some i))" by (rule frame_trans [OF c(2) s(1)])
  have at: "at_pc (propagate vm1 (Some i)) pid i OV_VM_PROG_OK (int (Suc k))" using s(2) by (simp add: add.commute)
  have next_k: "Suc k < length ?is" if "r \<noteq> OC_FINISHED" using c(7) that less.prems(3) by linarith
  show ?case
  proof (cases r)
    case OC_ERROR
    show ?thesis
    proof (cases "k = 0")
      case True
      have "\<not> first_succeeds sem vm i"
      proof
        assume "first_succeeds sem vm i"
        with True obtain g where "?h = Some g" "\<forall>vm'. snd (call_handler sem g vm' (Some i)) \<noteq> OC_ERROR"
          by (auto simp: first_succeeds_def)
        with c(6) OC_ERROR show False by metis
      qed
      moreover have "abort_from vm1 i False < 0" using c(3,4) OC_ERROR True by (simp add: abort_from_def at_pc_def)
      from abort_outside [OF c(3) this, of n sem] have "abort_program_with n sem vm1 (Some i) False = Undefined"
        using less.prems(3,4) n True by simp
      ultimately show ?thesis using c(1) n OC_ERROR True by (simp add: after_instr_def)
    next
      case False
      then have "\<exists>vm'. after_instr n sem vm1 i OC_ERROR = Ret (vm', OV_EXEC_ERROR) \<and> gone vm pid i vm'"
        using less.prems(2,3,4) n OC_ERROR c(4) by (intro forward_error [OF sem c(2,3)]) (auto simp: runnable_def)
      then show ?thesis using c(1) n OC_ERROR by auto
    qed
  next
    case OC_FINISHED
    obtain vm' where "after_instr n sem vm1 i OC_FINISHED = Ret (vm', OV_EXEC_OK)" "gone vm pid i vm'"
      by (rule after_finished [OF c(2,3)])
    then show ?thesis using c(1) n OC_FINISHED by auto
  next
    case OC_NEXT
    have len: "instructions (prog_of (propagate vm1 (Some i)) i) = ?is" using f by (simp add: frame_def)
    have "\<exists>vm' r. execute_loop n sem (propagate vm1 (Some i)) (Some i) = Ret (vm', r) \<and> r \<noteq> OV_EXEC_TRIGGER_FAIL \<and>
      (if r = OV_EXEC_WAIT then waiting (propagate vm1 (Some i)) pid i vm' else gone (propagate vm1 (Some i)) pid i vm')"
      using next_k OC_NEXT len less.prems(2,4) n runnable_frame [OF f] less.hyps [where k = "Suc k" and fuel = n, OF _ at] by auto
    then show ?thesis using c(1) n OC_NEXT gone_frame [OF f] waiting_frame [OF f] by (simp only: after_next(1) [OF c(3)]) metis
  next
    case OC_WAIT_AND_NEXT
    have "waiting vm pid i (propagate vm1 (Some i))"
      unfolding waiting_def using f at next_k OC_WAIT_AND_NEXT s(4) c(4) by fastforce
    then show ?thesis using c(1) n OC_WAIT_AND_NEXT by (simp add: after_next(2) [OF c(3)])
  next
    case OC_WAIT_AND_REPEAT
    have "waiting vm pid i vm1"
      unfolding waiting_def using c(2,3,4) less.prems(3) OC_WAIT_AND_REPEAT by blast
    then show ?thesis using c(1) n OC_WAIT_AND_REPEAT by (simp add: after_next(3) [OF c(3)])
  qed
qed

text \<open>If every handler succeeds, they are called in the order of the program.\<close>

definition steps :: "('h, 'd, 'w) semantics \<Rightarrow> ('h, 'd, 'w) ov_vm \<Rightarrow> ov_vm_instr \<Rightarrow> bool" where
  "steps sem vm instr \<longleftrightarrow>
    (\<exists>h. handler_for vm OV_VM_PROG_OK instr = Some h \<and> (\<forall>vm' i. snd (call_handler sem h vm' (Some i)) = OC_NEXT))"

definition forward_call :: "('h, 'd, 'w) ov_vm \<Rightarrow> ov_vm_instr list \<Rightarrow> nat \<Rightarrow> 'h event" where
  "forward_call vm instr k = Called (the (handler_for vm OV_VM_PROG_OK (instr ! k))) (int k) False"

lemma steps_frame: "frame vm i vm' \<Longrightarrow> steps sem vm' = steps sem vm"
  by (simp add: steps_def handler_for_frame fun_eq_iff)

lemma forward_call_frame: "frame vm i vm' \<Longrightarrow> forward_call vm' = forward_call vm"
  by (simp add: forward_call_def handler_for_frame fun_eq_iff)

lemma forward_all:
  assumes sem: "handlers_local sem"
    and "at_pc vm pid i OV_VM_PROG_OK (int k)" "runnable vm i" "k < length (instructions (prog_of vm i))"
    "\<forall>j. Suc j < length (instructions (prog_of vm i)) \<longrightarrow> steps sem vm (instructions (prog_of vm i) ! j)"
    "length (instructions (prog_of vm i)) \<le> fuel + k"
  shows "\<exists>vm'. execute_loop fuel sem vm (Some i) = Ret (vm', OV_EXEC_OK) \<and> gone vm pid i vm' \<and>
    events vm' = events vm @ map (forward_call vm (instructions (prog_of vm i))) [k..<length (instructions (prog_of vm i))] @
      note_of vm OV_VM_PROG_OK pid"
  using assms(2-6)
proof (induction "length (instructions (prog_of vm i)) - k" arbitrary: vm k fuel rule: less_induct)
  case less
  let ?is = "instructions (prog_of vm i)"
  let ?h = "handler_for vm OV_VM_PROG_OK (?is ! k)"
  obtain n where n: "fuel = Suc n" using less.prems(3,5) by (cases fuel) auto
  obtain vm1 r where c: "execute_loop (Suc n) sem vm (Some i) = after_instr n sem vm1 i r" "frame vm i vm1"
    "at_pc vm1 pid i OV_VM_PROG_OK (int k)" "events vm1 = events vm @ call_of ?h k OV_VM_PROG_OK"
    "\<forall>g. ?h = Some g \<longrightarrow> (\<exists>vm''. r = snd (call_handler sem g vm'' (Some i)))"
    "Suc k = length ?is \<longrightarrow> r = OC_FINISHED \<and> ?h \<noteq> None"
    by (rule forward_step [OF sem less.prems(1-3)])
  have ev: "events vm1 = events vm @ [forward_call vm ?is k]" if "?h \<noteq> None"
    using c(4) that by (auto simp: call_of_def forward_call_def)
  show ?case
  proof (cases "Suc k = length ?is")
    case True
    obtain vm' where "after_instr n sem vm1 i OC_FINISHED = Ret (vm', OV_EXEC_OK)" "gone vm pid i vm'"
      "events vm' = events vm1 @ note_of vm OV_VM_PROG_OK pid"
      by (rule after_finished [OF c(2,3)])
    moreover have "[k..<Suc k] = [k]" by simp
    then have "[k..<length ?is] = [k]" unfolding True .
    ultimately show ?thesis using c(1,6) n True ev by simp
  next
    case False
    then have k: "Suc k < length ?is" "[k..<length ?is] = k # [Suc k..<length ?is]" using less.prems(3) by (auto simp: upt_conv_Cons)
    then obtain h where h: "?h = Some h" "\<forall>vm' i. snd (call_handler sem h vm' (Some i)) = OC_NEXT"
      using less.prems(4) by (auto simp: steps_def)
    then have r: "r = OC_NEXT" using c(5) by metis
    note s = propagate_forward [OF c(3)]
    let ?vm2 = "propagate vm1 (Some i)"
    have f: "frame vm i ?vm2" by (rule frame_trans [OF c(2) s(1)])
    have len: "instructions (prog_of ?vm2 i) = ?is" using f by (simp add: frame_def)
    have at: "at_pc ?vm2 pid i OV_VM_PROG_OK (int (Suc k))" using s(2) by (simp add: add.commute)
    have "length (instructions (prog_of ?vm2 i)) - Suc k < length ?is - k" using k(1) len by simp
    then obtain vm' where "execute_loop n sem ?vm2 (Some i) = Ret (vm', OV_EXEC_OK)" "gone ?vm2 pid i vm'"
      "events vm' = events ?vm2 @ map (forward_call ?vm2 ?is) [Suc k..<length ?is] @ note_of ?vm2 OV_VM_PROG_OK pid"
      using less.hyps [where k = "Suc k" and fuel = n, OF _ at] k len less.prems(2,4,5) n runnable_frame [OF f] steps_frame [OF f] by auto
    then show ?thesis
      using c(1) n r k(2) ev h(1) s(3) gone_frame [OF f] note_frame [OF f] forward_call_frame [OF f]
      by (simp add: after_next(1) [OF c(3)])
  qed
qed

definition never_fails :: "('h, 'd, 'w) semantics \<Rightarrow> ('h, 'd, 'w) ov_vm \<Rightarrow> ov_vm_instr \<Rightarrow> bool" where
  "never_fails sem vm instr \<longleftrightarrow>
    (\<exists>h. handler_for vm OV_VM_PROG_OK instr = Some h \<and> (\<forall>vm' i. snd (call_handler sem h vm' (Some i)) \<noteq> OC_ERROR))"

definition program_ok :: "('h, 'd, 'w) ov_vm \<Rightarrow> ov_vm_instr list \<Rightarrow> bool" where
  "program_ok vm instr \<longleftrightarrow> instr \<noteq> [] \<and> (\<forall>x \<in> set instr. unat (opcode x) < length (opcodes vm)) \<and>
    opcode (last instr) = OP_END \<and> handler (opcodes vm ! unat OP_END) = Some End_handler"

lemma program_ok_runnable:
  assumes "program_ok vm instr" "instructions (prog_of vm' i) = instr" "opcodes vm' = opcodes vm"
  shows "runnable vm' i" "never_fails sem vm (instr ! 0) \<Longrightarrow> first_succeeds sem vm' i"
  using assms by (auto simp: program_ok_def runnable_def in_table_def first_succeeds_def never_fails_def handler_for_def)

lemma insert_start:
  assumes inv: "db_inv (db vm)" and valid: "is_id_valid (Some pid)" "ov_vm_prog_db_get (Some (db vm)) (Some pid) = None"
    "0 < topmost_usable_slot_index (db vm)"
  obtains i db' where "ov_vm_prog_db_insert (clock_usecs vm) (Some (db vm)) (Some pid) (Some instr) d = (Some db', Some i)"
    "at_pc (vm\<lparr>db := db'\<rparr>) pid i OV_VM_PROG_OK 0" "instructions (prog_of (vm\<lparr>db := db'\<rparr>) i) = instr"
    "data (prog_of (vm\<lparr>db := db'\<rparr>) i) = d" "(progs db')(pid := None) = progs (db vm)"
    "released db' = released (db vm)" "release_given db' = release_given (db vm)"
    "\<forall>j. j \<noteq> i \<longrightarrow> pool_states db' ! j = pool_states (db vm) ! j" "i \<notin> ran (progs (db vm))"
    "progs db' = (progs (db vm))(pid \<mapsto> i)"
proof -
  have new: "progs (db vm) (unalias (db vm) pid) = None" using valid(1,2) by (simp add: db_get_eq [OF inv])
  then have none: "progs (db vm) pid = None" using unalias_progs [OF inv, of pid] by force
  obtain i db' where db': "ov_vm_prog_db_insert (clock_usecs vm) (Some (db vm)) (Some pid) (Some instr) d = (Some db', Some i)"
    "db_inv db'" "progs db' = (progs (db vm))(pid \<mapsto> i)" "alias_map db' = alias_map (db vm)"
    "i < length (pool_states (db vm))" "i \<notin> ran (progs (db vm))"
    "pool_states db' = (pool_states (db vm))[i := \<lparr>public = new_prog (public (pool_states (db vm) ! i)) pid instr d,
        start_time_epoch_usecs = clock_usecs vm\<rparr>]"
    "topmost_usable_slot_index db' = topmost_usable_slot_index (db vm) - 1"
    "release_given db' = release_given (db vm)" "released db' = released (db vm)"
    by (rule insert_eq [OF inv valid(1) new valid(3)])
  have "(progs db')(pid := None) = progs (db vm)" using none unfolding db'(3) by (auto simp: fun_eq_iff)
  with db' show thesis by (intro that [of db' i]) (auto simp: at_pc_def new_prog_def)
qed

lemma at_pc_lookup:
  assumes "at_pc vm pid i st pc" "is_id_valid (Some pid)"
  shows "ov_vm_prog_db_get (Some (db vm)) (Some pid) = Some i"
proof -
  have inv: "db_inv (db vm)" and i: "progs (db vm) pid = Some i" using assms(1) by (auto simp: at_pc_def)
  have "unalias (db vm) pid = pid" by (intro unalias_progs inv) (use i in blast)
  then show ?thesis using i assms(2) by (simp add: db_get_eq [OF inv])
qed

definition released_by :: "('h, 'd, 'w) ov_vm \<Rightarrow> 'd option \<Rightarrow> 'd list" where
  "released_by vm d = (case d of Some x \<Rightarrow> if release_given (db vm) then [x] else [] | None \<Rightarrow> [])"

definition vm_ready :: "('h, 'd, 'w) ov_vm \<Rightarrow> bool" where
  "vm_ready vm \<longleftrightarrow> db_inv (db vm) \<and> length (opcodes vm) = 255 \<and>
    handler (opcodes vm ! unat OP_END) = Some End_handler \<and>
    (\<forall>pid i. progs (db vm) pid = Some i \<longrightarrow> runnable vm i \<and>
       (\<exists>k < length (instructions (prog_of vm i)). at_pc vm pid i OV_VM_PROG_OK (int k)))"

lemma first_succeeds_frame: "frame vm i vm' \<Longrightarrow> first_succeeds sem vm' i = first_succeeds sem vm i"
  by (simp add: first_succeeds_def handler_for_frame) (simp add: frame_def)

text \<open>What does not touch the slot of a program keeps it ready.\<close>

lemma other_slot:
  assumes "opcodes vm' = opcodes vm" "pool_states (db vm') ! j = pool_states (db vm) ! j"
  shows "runnable vm' j = runnable vm j" "first_succeeds sem vm' j = first_succeeds sem vm j"
    "db_inv (db vm') \<Longrightarrow> progs (db vm') pid = Some j \<Longrightarrow> db_inv (db vm) \<Longrightarrow> progs (db vm) pid = Some j \<Longrightarrow>
       at_pc vm' pid j st pc = at_pc vm pid j st pc"
  using assms by (simp_all add: runnable_def in_table_def first_succeeds_def handler_for_def at_pc_def)

lemma ready_gone:
  assumes ready: "vm_ready vm" and g: "gone vm pid i vm'" and i: "progs (db vm) pid = Some i"
  shows "vm_ready vm'"
proof -
  have inv: "db_inv (db vm)" "db_inv (db vm')" and oc: "opcodes vm' = opcodes vm"
    using ready g by (auto simp: vm_ready_def gone_def)
  have "runnable vm' j \<and>
      (\<exists>k < length (instructions (prog_of vm' j)). at_pc vm' q j OV_VM_PROG_OK (int k))"
    if q: "progs (db vm') q = Some j" for q j
  proof -
    have q': "progs (db vm) q = Some j" "q \<noteq> pid" using g q by (auto simp: gone_def split: if_splits)
    then have "j \<noteq> i" using progs_inj [OF inv(1) i] by blast
    then have s: "pool_states (db vm') ! j = pool_states (db vm) ! j" using g by (simp add: gone_def)
    show ?thesis
      using ready q'(1) s inv q by (simp add: other_slot [OF oc s] vm_ready_def)
  qed
  then show ?thesis using ready inv oc by (simp add: vm_ready_def)
qed

lemma ready_waiting:
  assumes ready: "vm_ready vm" and w: "waiting vm pid i vm'" and i: "progs (db vm) pid = Some i"
  shows "vm_ready vm'"
proof -
  obtain k where f: "frame vm i vm'" and k: "k < length (instructions (prog_of vm i))" "at_pc vm' pid i OV_VM_PROG_OK (int k)"
    using w by (auto simp: waiting_def)
  have inv: "db_inv (db vm)" "db_inv (db vm')" and oc: "opcodes vm' = opcodes vm" and p: "progs (db vm') = progs (db vm)"
    and len: "instructions (prog_of vm' i) = instructions (prog_of vm i)"
    using ready f k by (auto simp: vm_ready_def frame_def at_pc_def)
  have "runnable vm' j \<and>
      (\<exists>k < length (instructions (prog_of vm' j)). at_pc vm' q j OV_VM_PROG_OK (int k))"
    if q: "progs (db vm') q = Some j" for q j
  proof (cases "j = i")
    case True
    then have "q = pid" using progs_inj [OF inv(1) i] q p by metis
    with True k len show ?thesis
      using ready i by (auto simp: vm_ready_def runnable_frame [OF f] first_succeeds_frame [OF f])
  next
    case False
    then have s: "pool_states (db vm') ! j = pool_states (db vm) ! j" using f by (simp add: frame_def)
    show ?thesis using ready q s inv p by (simp add: other_slot [OF oc s] vm_ready_def)
  qed
  then show ?thesis using ready inv oc by (simp add: vm_ready_def)
qed

lemma ready_run:
  assumes sem: "handlers_local sem" "inverse_ok sem" and ready: "vm_ready vm" and i: "progs (db vm) pid = Some i"
    and fuel: "2 * length (instructions (prog_of vm i)) + 2 \<le> fuel"
  shows "(\<exists>vm' r. execute fuel sem vm (Some i) = Ret (vm', r) \<and> r \<noteq> OV_EXEC_TRIGGER_FAIL \<and> vm_ready vm' \<and>
    (if r = OV_EXEC_WAIT then waiting vm pid i vm' else gone vm pid i vm')) \<or>
    execute fuel sem vm (Some i) = Undefined \<and> program_counter (prog_of vm i) = 0 \<and> \<not> first_succeeds sem vm i"
proof -
  obtain k where k: "k < length (instructions (prog_of vm i))" "at_pc vm pid i OV_VM_PROG_OK (int k)"
    "runnable vm i"
    using ready i by (auto simp: vm_ready_def)
  have "is_prog_valid vm (Some i)" using k(2) by (simp add: is_prog_valid_def at_pc_def)
  then have "execute fuel sem vm (Some i) = execute_loop fuel sem vm (Some i)" by (simp add: execute.simps)
  moreover have "program_counter (prog_of vm i) = int k" using k(2) by (simp add: at_pc_def)
  moreover have "(\<exists>vm' r. execute_loop fuel sem vm (Some i) = Ret (vm', r) \<and> r \<noteq> OV_EXEC_TRIGGER_FAIL \<and>
    (if r = OV_EXEC_WAIT then waiting vm pid i vm' else gone vm pid i vm')) \<or>
    execute_loop fuel sem vm (Some i) = Undefined \<and> k = 0 \<and> \<not> first_succeeds sem vm i"
    using fuel by (intro forward_loop [OF sem k(2,3,1)]) simp
  ultimately show ?thesis using ready_gone [OF ready _ i] ready_waiting [OF ready _ i] by (elim disjE exE conjE) (force split: if_splits)+
qed

lemma ready_db:
  assumes ready: "vm_ready vm" and inv: "db_inv db'" and p: "progs db' = progs (db vm)" "pool_states db' = pool_states (db vm)"
  shows "vm_ready (vm\<lparr>db := db'\<rparr>)"
proof -
  let ?vm = "vm\<lparr>db := db'\<rparr>"
  have "runnable ?vm j \<and>
      (\<exists>k < length (instructions (prog_of ?vm j)). at_pc ?vm q j OV_VM_PROG_OK (int k))"
    if q: "progs (db ?vm) q = Some j" for q j
  proof -
    have s: "pool_states (db ?vm) ! j = pool_states (db vm) ! j" using p(2) by simp
    show ?thesis using ready q inv p s by (simp add: other_slot [where vm' = ?vm, OF _ s] vm_ready_def)
  qed
  then show ?thesis using ready inv by (simp add: vm_ready_def)
qed

lemma ready_insert:
  assumes ready: "vm_ready vm" and ok: "program_ok vm instr"
    and valid: "is_id_valid (Some pid)" "ov_vm_prog_db_get (Some (db vm)) (Some pid) = None"
    "0 < topmost_usable_slot_index (db vm)"
  obtains i db' where "ov_vm_prog_db_insert (clock_usecs vm) (Some (db vm)) (Some pid) (Some instr) d = (Some db', Some i)"
    "vm_ready (vm\<lparr>db := db'\<rparr>)" "progs db' pid = Some i" "instructions (prog_of (vm\<lparr>db := db'\<rparr>) i) = instr"
    "(progs db')(pid := None) = progs (db vm)" "released db' = released (db vm)" "release_given db' = release_given (db vm)"
    "data (prog_of (vm\<lparr>db := db'\<rparr>) i) = d"
proof -
  have inv: "db_inv (db vm)" using ready by (simp add: vm_ready_def)
  obtain i db' where ins: "ov_vm_prog_db_insert (clock_usecs vm) (Some (db vm)) (Some pid) (Some instr) d = (Some db', Some i)"
    "at_pc (vm\<lparr>db := db'\<rparr>) pid i OV_VM_PROG_OK 0" "instructions (prog_of (vm\<lparr>db := db'\<rparr>) i) = instr"
    "data (prog_of (vm\<lparr>db := db'\<rparr>) i) = d" "(progs db')(pid := None) = progs (db vm)"
    "released db' = released (db vm)" "release_given db' = release_given (db vm)"
    "\<forall>j. j \<noteq> i \<longrightarrow> pool_states db' ! j = pool_states (db vm) ! j" "i \<notin> ran (progs (db vm))"
    "progs db' = (progs (db vm))(pid \<mapsto> i)"
    by (rule insert_start [OF inv valid])
  let ?vm = "vm\<lparr>db := db'\<rparr>"
  have inv': "db_inv (db ?vm)" using ins(2) by (simp add: at_pc_def)
  have "runnable ?vm j \<and>
      (\<exists>k < length (instructions (prog_of ?vm j)). at_pc ?vm q j OV_VM_PROG_OK (int k))"
    if q: "progs (db ?vm) q = Some j" for q j
  proof (cases "q = pid")
    case True
    then have "j = i" using q ins(10) by simp
    moreover have "at_pc ?vm pid i OV_VM_PROG_OK (int 0)" "0 < length instr" using ins(2) ok by (simp_all add: program_ok_def)
    ultimately show ?thesis using True ins(3) program_ok_runnable [OF ok ins(3)] by auto
  next
    case False
    then have q': "progs (db vm) q = Some j" using q ins(10) by simp
    then have "j \<noteq> i" using ins(9) by (auto simp: ran_def)
    then have s: "pool_states (db ?vm) ! j = pool_states (db vm) ! j" using ins(8) by simp
    show ?thesis using ready q q' inv inv' s by (simp add: other_slot [where vm' = ?vm, OF _ s] vm_ready_def)
  qed
  then have "vm_ready ?vm" using ready inv' by (simp add: vm_ready_def)
  with ins show thesis by (intro that [of db' i]) auto
qed

text \<open>A lookup by an id or an alias.\<close>

lemma lookup_slot:
  assumes "db_inv (db vm)" "prog_for_id (Some vm) (Some a) = Some i"
  shows "progs (db vm) (prog_id (prog_of vm i)) = Some i"
proof -
  have "progs (db vm) (unalias (db vm) a) = Some i"
    using assms by (auto simp: prog_for_id_def db_get_eq split: if_splits)
  then show ?thesis using db_invD(11) [OF assms(1)] by metis
qed

lemma ready_abort:
  assumes sem: "handlers_local sem" "inverse_ok sem" and ready: "vm_ready vm" and i: "progs (db vm) pid = Some i"
    and "0 \<le> abort_from vm i fin" "length (instructions (prog_of vm i)) < fuel"
  shows "\<exists>vm'. abort_program_with fuel sem vm (Some i) fin = Ret vm' \<and> gone vm pid i vm' \<and> vm_ready vm'"
proof -
  obtain k where k: "k < length (instructions (prog_of vm i))" "at_pc vm pid i OV_VM_PROG_OK (int k)"
    "runnable vm i"
    using ready i by (auto simp: vm_ready_def)
  have "\<exists>vm'. abort_program_with fuel sem vm (Some i) fin = Ret vm' \<and> gone vm pid i vm'"
    using k assms(5,6) by (intro abort_gone [OF sem k(2)]) (auto simp: runnable_def)
  then show ?thesis using ready_gone [OF ready _ i] by blast
qed

lemma ready_abort_outside:
  assumes ready: "vm_ready vm" and i: "progs (db vm) pid = Some i" and "abort_from vm i fin < 0" "length (instructions (prog_of vm i)) < fuel"
  shows "abort_program_with fuel sem vm (Some i) fin = Undefined"
proof -
  obtain k where "k < length (instructions (prog_of vm i))" "at_pc vm pid i OV_VM_PROG_OK (int k)"
    using ready i by (auto simp: vm_ready_def)
  with abort_outside [OF this(2) assms(3), of fuel] assms(4) show ?thesis by simp
qed

lemma ready_clock:
  "vm_ready (vm\<lparr>clock_secs := s, clock_usecs := u\<rparr>) = vm_ready vm"
  "vm_ready (vm\<lparr>timer := t\<rparr>) = vm_ready vm"
  by (simp_all add: vm_ready_def runnable_def in_table_def first_succeeds_def handler_for_def at_pc_def)

lemma ready_create:
  fixes vm :: "('h, 'd, 'w) ov_vm"
  assumes "(if max_requests cfg = 0 then 64 else max_requests cfg) mod 256 \<noteq> 0"
    "ov_vm_create cfg True secs usecs w = Some (Some vm)"
  shows "vm_ready vm" "progs (db vm) = Map.empty"
proof -
  obtain db0 :: "'d ov_vm_prog_db" where db0: "ov_vm_prog_db_create (max_requests cfg) (cfg_release_data cfg) = Some db0"
    "db_inv db0" "progs db0 = Map.empty"
    using db_create_eq [OF assms(1)] by blast
  then have eqs: "db vm = db0" "length (opcodes vm) = 255" "handler (opcodes vm ! unat OP_END) = Some End_handler"
    using assms(2) by (auto simp: ov_vm_create_def Let_def OP_END_def OP_NOP_def OP_INVALID_def)
  show "vm_ready vm" "progs (db vm) = Map.empty" using db0 eqs by (simp_all add: vm_ready_def)
qed

lemma ready_register:
  assumes ready: "vm_ready vm" and "progs (db vm) = Map.empty" "ov_vm_register (Some vm) oc s h ih = (Some vm', r)"
  shows "vm_ready vm'"
proof -
  have eqs: "db vm' = db vm" "length (opcodes vm') = length (opcodes vm)"
    "handler (opcodes vm' ! unat OP_END) = handler (opcodes vm ! unat OP_END)"
    using assms(3) by (auto simp: ov_vm_register_def opcodedef_def nth_list_update split: if_splits option.splits
        dest: unsigned_word_eqI)
  then show ?thesis using ready assms(2) by (simp add: vm_ready_def)
qed

lemma ready_trigger:
  assumes sem: "handlers_local sem" "inverse_ok sem" and ready: "vm_ready vm" and ok: "program_ok vm instr"
    and fuel: "2 * length instr + 2 \<le> fuel" and ret: "ov_vm_trigger fuel sem (Some vm) (Some instr) (Some pid) d = Ret (Some vm', r)"
  shows "vm_ready vm'"
proof (cases "is_id_valid (Some pid) \<and> ov_vm_prog_db_get (Some (db vm)) (Some pid) = None \<and> 0 < topmost_usable_slot_index (db vm)")
  case False
  have "db_inv (db vm)" using ready by (simp add: vm_ready_def)
  then have "ov_vm_prog_db_insert (clock_usecs vm) (Some (db vm)) (Some pid) (Some instr) d = (Some (db vm), None)"
    using False by (intro insert_reject) auto
  with ready ret show ?thesis by (auto simp: ov_vm_trigger_def vm_is_id_valid_def execute_prog_def)
next
  case True
  obtain i db' where ins: "ov_vm_prog_db_insert (clock_usecs vm) (Some (db vm)) (Some pid) (Some instr) d = (Some db', Some i)"
    "vm_ready (vm\<lparr>db := db'\<rparr>)" "progs db' pid = Some i" "instructions (prog_of (vm\<lparr>db := db'\<rparr>) i) = instr"
    by (rule ready_insert [OF ready ok, of pid d]) (use True in auto)
  have "execute fuel sem (vm\<lparr>db := db'\<rparr>) (Some i) = Ret (vm', r)"
    using ins(1) ret by (auto simp: ov_vm_trigger_def vm_is_id_valid_def execute_prog_def split: run.splits)
  then show ?thesis using ready_run [OF sem ins(2), of pid i fuel] ins(3,4) fuel by auto
qed

definition overdue :: "('h, 'd, 'w) ov_vm \<Rightarrow> u64 \<Rightarrow> string \<Rightarrow> bool" where
  "overdue vm limit pid \<longleftrightarrow>
    (case progs (db vm) pid of None \<Rightarrow> False | Some i \<Rightarrow> start_time_epoch_usecs (pool_states (db vm) ! i) < limit)"

lemma next_due_overdue:
  assumes "db_inv (db vm)"
  shows "case ov_vm_prog_db_next_due (Some (db vm)) limit of
    None \<Rightarrow> \<forall>pid. \<not> overdue vm limit pid | Some pid \<Rightarrow> overdue vm limit pid"
  using next_due_eq [OF assms, of limit]
  by (fastforce simp: overdue_def split: option.splits)

lemma gone_overdue:
  assumes inv: "db_inv (db vm)" and g: "gone vm pid i vm'" and i: "progs (db vm) pid = Some i"
  shows "overdue vm' limit q \<longleftrightarrow> overdue vm limit q \<and> q \<noteq> pid"
    "progs (db vm') q = Some j \<Longrightarrow> progs (db vm) q = Some j \<and> pool_states (db vm') ! j = pool_states (db vm) ! j"
proof -
  have other: "progs (db vm) q = Some j \<and> pool_states (db vm') ! j = pool_states (db vm) ! j" if "progs (db vm') q = Some j" for q j
  proof -
    from that g have q: "progs (db vm) q = Some j" "q \<noteq> pid" by (auto simp: gone_def split: if_splits)
    then have "j \<noteq> i" using progs_inj [OF inv i] by blast
    then show ?thesis using g q by (simp add: gone_def)
  qed
  show "overdue vm' limit q \<longleftrightarrow> overdue vm limit q \<and> q \<noteq> pid"
  proof (cases "progs (db vm') q")
    case None
    then show ?thesis using g by (auto simp: overdue_def gone_def split: if_splits)
  next
    case (Some j)
    moreover have "progs (db vm) q = Some j" "q \<noteq> pid" using Some g by (auto simp: gone_def split: if_splits)
    ultimately show ?thesis using other [OF Some] by (simp add: overdue_def)
  qed
  show "progs (db vm') q = Some j \<Longrightarrow> progs (db vm) q = Some j \<and> pool_states (db vm') ! j = pool_states (db vm) ! j"
    using other .
qed

text \<open>The loop of the timer. Only an overdue program that has not completed an instruction is aborted outside of its instructions.\<close>

definition no_step_done :: "('h, 'd, 'w) ov_vm \<Rightarrow> u64 \<Rightarrow> bool" where
  "no_step_done vm limit \<longleftrightarrow> (\<exists>pid i. progs (db vm) pid = Some i \<and> overdue vm limit pid \<and> abort_from vm i False < 0)"

lemma prune_run:
  assumes sem: "handlers_local sem" "inverse_ok sem"
    and "vm_ready vm" "\<forall>pid i. progs (db vm) pid = Some i \<longrightarrow> length (instructions (prog_of vm i)) < fuel"
  shows "(\<exists>vm' ps. prune_loop fuel sem vm limit (ov_vm_prog_db_next_due (Some (db vm)) limit) left = Ret vm' \<and>
    vm_ready vm' \<and> progs (db vm') = progs (db vm) |` (- set ps) \<and> distinct ps \<and> length ps \<le> left \<and>
    (\<forall>p \<in> set ps. overdue vm limit p) \<and>
    (\<forall>q j. progs (db vm') q = Some j \<longrightarrow> pool_states (db vm') ! j = pool_states (db vm) ! j) \<and>
    (length ps < left \<longrightarrow> (\<forall>q. \<not> overdue vm' limit q))) \<or>
    prune_loop fuel sem vm limit (ov_vm_prog_db_next_due (Some (db vm)) limit) left = Undefined \<and> no_step_done vm limit"
  using assms(3,4)
proof (induction left arbitrary: vm)
  case 0
  have "prune_loop fuel sem vm limit x 0 = Ret vm" for x by (cases x) auto
  then show ?case using 0 by (intro disjI1 exI [of _ vm] exI [of _ "[]"]) auto
next
  case (Suc left)
  have inv: "db_inv (db vm)" using Suc.prems(1) by (simp add: vm_ready_def)
  show ?case
  proof (cases "ov_vm_prog_db_next_due (Some (db vm)) limit")
    case None
    then show ?thesis using Suc.prems next_due_overdue [OF inv, of limit]
      by (intro disjI1 exI [of _ vm] exI [of _ "[]"]) auto
  next
    case (Some pid)
    then have od: "overdue vm limit pid" using next_due_overdue [OF inv, of limit] by simp
    then obtain i where i: "progs (db vm) pid = Some i" by (auto simp: overdue_def split: option.splits)
    have get: "ov_vm_prog_db_get (Some (db vm)) (Some pid) = Some i"
    proof -
      have "unalias (db vm) pid = pid" by (intro unalias_progs inv) (use i in blast)
      then show ?thesis using i db_invD(12) [OF inv i] by (simp add: db_get_eq [OF inv])
    qed
    have fuel: "length (instructions (prog_of vm i)) < fuel" using Suc.prems(2) i by blast
    show ?thesis
    proof (cases "0 \<le> abort_from vm i False")
      case False
      then have "abort_program_with fuel sem vm (Some i) False = Undefined"
        by (intro ready_abort_outside [OF Suc.prems(1) i _ fuel]) simp
      moreover have "no_step_done vm limit" using False i od unfolding no_step_done_def by (meson not_le)
      ultimately show ?thesis using Some get by (simp add: abort_program_def)
    next
      case True
      from ready_abort [OF sem Suc.prems(1) i True fuel] obtain vm1 where
        vm1: "abort_program_with fuel sem vm (Some i) False = Ret vm1" "gone vm pid i vm1" "vm_ready vm1" by blast
      note od1 = gone_overdue [OF inv vm1(2) i]
      have p1: "progs (db vm1) = (progs (db vm))(pid := None)" using vm1(2) by (simp add: gone_def)
      have step: "prune_loop fuel sem vm limit (Some pid) (Suc left) = prune_loop fuel sem vm1 limit (ov_vm_prog_db_next_due (Some (db vm1)) limit) left"
        using get vm1(1) by (simp add: abort_program_def)
      have "\<forall>q j. progs (db vm1) q = Some j \<longrightarrow> length (instructions (prog_of vm1 j)) < fuel"
        by (intro allI impI) (metis Suc.prems(2) od1(2))
      from Suc.IH [OF vm1(3) this] show ?thesis
      proof (elim disjE exE conjE)
        fix vm' ps assume ps: "prune_loop fuel sem vm1 limit (ov_vm_prog_db_next_due (Some (db vm1)) limit) left = Ret vm'"
          "vm_ready vm'" "progs (db vm') = progs (db vm1) |` (- set ps)" "distinct ps" "length ps \<le> left"
          "\<forall>p \<in> set ps. overdue vm1 limit p"
          "\<forall>q j. progs (db vm') q = Some j \<longrightarrow> pool_states (db vm') ! j = pool_states (db vm1) ! j"
          "length ps < left \<longrightarrow> (\<forall>q. \<not> overdue vm' limit q)"
        have slots: "pool_states (db vm') ! j = pool_states (db vm) ! j" if q: "progs (db vm') q = Some j" for q j
        proof -
          have "progs (db vm1) q = Some j" using q ps(3) by (auto simp: restrict_map_def split: if_splits)
          with od1(2) ps(7) q show ?thesis by simp
        qed
        have "progs (db vm') = progs (db vm) |` (- set (pid # ps))" using ps(3) p1 by (auto simp: restrict_map_def fun_eq_iff)
        moreover have "distinct (pid # ps)" using ps(4,6) od1(1) by auto
        moreover have "\<forall>p \<in> set (pid # ps). overdue vm limit p" using od ps(6) od1(1) by auto
        ultimately show ?thesis using Some step ps(1,2,5,8) slots
          by (intro disjI1 exI [of _ vm'] exI [of _ "pid # ps"]) simp
      next
        assume u: "prune_loop fuel sem vm1 limit (ov_vm_prog_db_next_due (Some (db vm1)) limit) left = Undefined" "no_step_done vm1 limit"
        then obtain q j where q: "progs (db vm1) q = Some j" "overdue vm1 limit q" "abort_from vm1 j False < 0" by (auto simp: no_step_done_def)
        with od1 have "progs (db vm) q = Some j" "overdue vm limit q" "abort_from vm j False < 0" by (auto simp: abort_from_def)
        then have "no_step_done vm limit" unfolding no_step_done_def by blast
        with u(1) step Some show ?thesis by simp
      qed
    qed
  qed
qed

lemma ready_prune:
  assumes sem: "handlers_local sem" "inverse_ok sem" and ready: "vm_ready vm"
    and fuel: "\<forall>pid i. progs (db vm) pid = Some i \<longrightarrow> length (instructions (prog_of vm i)) < fuel"
    and ret: "timer_callback fuel sem (Some vm) = Ret (Some vm', r)"
  shows "vm_ready vm'"
  using prune_run [OF sem ready fuel, of "clock_usecs vm - program_timeout_usecs vm" 5] ret
  by (auto simp: timer_callback_def prune_overdue_requests_def ready_clock)

inductive vm_reach :: "('h, 'd, 'w) semantics \<Rightarrow> ('h, 'd, 'w) ov_vm \<Rightarrow> bool"
  for sem :: "('h, 'd, 'w) semantics" where
  create: "(if max_requests cfg = 0 then 64 else max_requests cfg) mod 256 \<noteq> 0 \<Longrightarrow>
    ov_vm_create cfg True secs usecs w = Some (Some vm) \<Longrightarrow> vm_reach sem vm"
| register: "vm_reach sem vm \<Longrightarrow> progs (db vm) = Map.empty \<Longrightarrow>
    ov_vm_register (Some vm) oc s h ih = (Some vm', r) \<Longrightarrow> vm_reach sem vm'"
| tick: "vm_reach sem vm \<Longrightarrow> vm_reach sem (vm\<lparr>clock_secs := secs, clock_usecs := usecs\<rparr>)"
| trigger: "vm_reach sem vm \<Longrightarrow> program_ok vm instr \<Longrightarrow> 2 * length instr + 2 \<le> fuel \<Longrightarrow>
    ov_vm_trigger fuel sem (Some vm) (Some instr) (Some pid) d = Ret (Some vm', e) \<Longrightarrow> vm_reach sem vm'"
| continue: "vm_reach sem vm \<Longrightarrow> prog_for_id (Some vm) (Some a) = Some i \<Longrightarrow>
    2 * length (instructions (prog_of vm i)) + 2 \<le> fuel \<Longrightarrow>
    ov_vm_continue fuel sem (Some vm) (Some a) = Ret (Some vm', e) \<Longrightarrow> vm_reach sem vm'"
| abort: "vm_reach sem vm \<Longrightarrow> prog_for_id (Some vm) (Some a) = Some i \<Longrightarrow>
    length (instructions (prog_of vm i)) < fuel \<Longrightarrow>
    ov_vm_abort_with fuel sem (Some vm) (Some a) fin = Ret (Some vm', r) \<Longrightarrow> vm_reach sem vm'"
| prune: "vm_reach sem vm \<Longrightarrow> \<forall>pid i. progs (db vm) pid = Some i \<longrightarrow> length (instructions (prog_of vm i)) < fuel \<Longrightarrow>
    timer_callback fuel sem (Some vm) = Ret (Some vm', r) \<Longrightarrow> vm_reach sem vm'"
| add_alias: "vm_reach sem vm \<Longrightarrow> ov_vm_alias (Some vm) prog a = (Some vm', r) \<Longrightarrow> vm_reach sem vm'"

lemma reach_ready:
  assumes sem: "handlers_local sem" "inverse_ok sem" and "vm_reach sem vm"
  shows "vm_ready vm"
  using assms(3)
proof induction
  case (create cfg secs usecs w vm)
  then show ?case by (rule ready_create(1))
next
  case (register vm oc s h ih vm' r)
  then show ?case using ready_register by blast
next
  case (tick vm secs usecs)
  then show ?case by (simp add: ready_clock)
next
  case (trigger vm instr fuel pid d vm' e)
  then show ?case using ready_trigger [OF sem, of vm instr fuel pid d vm' e] by blast
next
  case (continue vm a i fuel vm' e)
  have "db_inv (db vm)" using continue by (simp add: vm_ready_def)
  from ready_run [OF sem continue(5) lookup_slot [OF this continue(2)] continue(3)] continue(2,4)
  show ?case by (auto simp: ov_vm_continue_def)
next
  case (abort vm a i fuel fin vm' r)
  have "db_inv (db vm)" using abort by (simp add: vm_ready_def)
  note i = lookup_slot [OF this abort(2)]
  show ?case
  proof (cases "0 \<le> abort_from vm i fin")
    case True
    from ready_abort [OF sem abort(5) i True abort(3)] abort(2,4) show ?thesis by (auto simp: ov_vm_abort_with_def)
  next
    case False
    with ready_abort_outside [OF abort(5) i _ abort(3), of fin sem] abort(2,4) show ?thesis by (simp add: ov_vm_abort_with_def)
  qed
next
  case (prune vm fuel vm' r)
  then show ?case using ready_prune [OF sem] by blast
next
  case (add_alias vm prog a vm' r)
  have inv: "db_inv (db vm)" using add_alias by (simp add: vm_ready_def)
  obtain self where self: "ov_vm_prog_db_alias (Some (db vm)) (Some (ov_vm_prog_id (prog_at vm prog))) a = (self, r)"
    "vm' = vm\<lparr>db := the self\<rparr>"
    using add_alias(2) by (auto simp: ov_vm_alias_def split: prod.splits)
  from db_alias_inv [OF inv self(1)] self(2) ready_db [OF add_alias(3)] show ?case by auto
qed

lemma abort_no_inverse:
  assumes sem: "handlers_local sem" "inverse_ok sem" and at: "at_pc vm pid i OV_VM_PROG_OK (int k)"
    and tab: "in_table vm i" "k \<le> length (instructions (prog_of vm i))" and j: "abort_from vm i fin = int j"
    and none: "handler_for vm OV_VM_PROG_ABORTING (instructions (prog_of vm i) ! j) = None" and fuel: "2 \<le> fuel"
  shows "\<exists>vm'. abort_program_with fuel sem vm (Some i) fin = Ret vm' \<and> gone vm pid i vm' \<and>
    events vm' = events vm @ note_of vm OV_VM_PROG_FAILED_TO_ABORT pid"
proof -
  obtain n where n: "fuel = Suc (Suc n)" using fuel by (metis add_2_eq_Suc le_Suc_ex)
  obtain vm1 where vm1: "abort_program_with fuel sem vm (Some i) fin =
      (case execute_loop (Suc n) sem vm1 (Some i) of
         Ret (vm4, r) \<Rightarrow> Ret vm4 | Undefined \<Rightarrow> Undefined | Out_of_fuel \<Rightarrow> Out_of_fuel)"
    "frame vm i vm1" "at_pc vm1 pid i OV_VM_PROG_ABORTING (int j)" "events vm1 = events vm"
    unfolding n j [symmetric] by (rule abort_start [OF at])
  have "j < k" using at j by (auto simp: abort_from_def at_pc_def split: if_splits)
  then have k: "j < length (instructions (prog_of vm1 i))" using tab(2) vm1(2) by (simp add: frame_def)
  have tab1: "in_table vm1 i" using tab(1) in_table_frame [OF vm1(2)] by simp
  have none1: "handler_for vm1 OV_VM_PROG_ABORTING (instructions (prog_of vm1 i) ! j) = None"
    using none handler_for_frame [OF vm1(2)] vm1(2) by (simp add: frame_def)
  show ?thesis
  proof (cases rule: back_step [OF sem vm1(3) tab1 k, of n, case_names cont stop])
    case (cont vm')
    then show ?thesis using none1 by simp
  next
    case (stop vm' r)
    then show ?thesis using vm1 none1 gone_frame [OF vm1(2)] note_frame [OF vm1(2)] by (auto simp: abort_ends_def call_of_def)
  qed
qed

subsection \<open>An example\<close>

text \<open>
  A machine with two opcodes, one that succeeds at once and one that waits, which
  runs a program up to its wait.
\<close>

definition ex_sem :: "(bool, nat, unit) semantics" where
  "ex_sem w vm p = (vm, if w then OC_WAIT_AND_NEXT else OC_NEXT)"

definition ex_cfg :: ov_vm_config where
  "ex_cfg = \<lparr>max_requests = 2, default_program_timeout_msecs = 0, cfg_release_data = True,
     cfg_notify_program_failed_to_abort = True, cfg_notify_program_aborted = True, cfg_notify_program_done = True\<rparr>"

definition ex_vm :: "(bool, nat, unit) ov_vm" where
  "ex_vm = the (fst (ov_vm_register (fst (ov_vm_register (the (ov_vm_create ex_cfg True 0 10 ()))
     1 (Some ''STEP'') (Some (Handler False)) None)) 2 (Some ''WAIT'') (Some (Handler True)) None))"

definition ex_instr :: "u8 list \<Rightarrow> ov_vm_instr list" where
  "ex_instr cs = map (\<lambda>c. \<lparr>opcode = c, args = []\<rparr>) cs"

definition ex_run :: "u8 list \<Rightarrow> (bool, nat, unit) ov_vm" where
  "ex_run cs = (case ov_vm_trigger 40 ex_sem (Some ex_vm) (Some (ex_instr cs)) (Some ''p'') (Some 7) of
     Ret (Some vm, r) \<Rightarrow> vm | _ \<Rightarrow> ex_vm)"

lemma ex_sem_ok [simp]: "handlers_local ex_sem" "inverse_ok (\<lambda>w vm p. (vm, OC_NEXT))" "inverse_ok ex_sem"
  by (auto simp: handlers_local_def inverse_ok_def ex_sem_def local_effect_refl)

lemma register_db: "\<exists>vm' r. ov_vm_register (Some vm) oc s h ih = (Some vm', r) \<and> db vm' = db vm"
  by (auto simp: ov_vm_register_def split: option.split)

lemma ex_reach: "vm_reach ex_sem ex_vm"
proof -
  have "(case ov_vm_create ex_cfg True 0 10 () of Some (Some (vm :: (bool, nat, unit) ov_vm)) \<Rightarrow> True | _ \<Rightarrow> False)"
    by code_simp
  then obtain vm :: "(bool, nat, unit) ov_vm" where vm: "ov_vm_create ex_cfg True 0 10 () = Some (Some vm)"
    by (auto split: option.splits)
  have "(if max_requests ex_cfg = 0 then 64 else max_requests ex_cfg) mod 256 \<noteq> 0" by (simp add: ex_cfg_def)
  note c = vm_reach.create [OF this vm] ready_create(2) [OF this vm]
  obtain vm1 r1 where vm1: "ov_vm_register (Some vm) 1 (Some ''STEP'') (Some (Handler False)) None = (Some vm1, r1)"
    "db vm1 = db vm"
    using register_db by blast
  obtain vm2 r2 where vm2: "ov_vm_register (Some vm1) 2 (Some ''WAIT'') (Some (Handler True)) None = (Some vm2, r2)"
    using register_db by blast
  have "vm_reach ex_sem vm2"
    using vm_reach.register [OF vm_reach.register [OF c vm1(1)] _ vm2] c(2) vm1(2) by simp
  moreover have "ex_vm = vm2" by (simp add: ex_vm_def vm vm1 vm2)
  ultimately show ?thesis by simp
qed

lemma ex_ready: "vm_ready ex_vm"
  by (rule reach_ready [OF _ _ ex_reach]) simp_all

definition ex_waiting :: "u8 list list" where
  "ex_waiting = [[1, 1, 2, 1, OP_END], [2, OP_END], [1, OP_NOP, 2, OP_END]]"

lemma ex_opcodes:
  "opcodes ex_vm ! 1 = \<lparr>symbol = Some ''STEP'', handler = Some (Handler False), inv_handler = Some Inv_handler_dummy\<rparr>"
  "opcodes ex_vm ! 2 = \<lparr>symbol = Some ''WAIT'', handler = Some (Handler True), inv_handler = Some Inv_handler_dummy\<rparr>"
  by code_simp+

lemma ex_programs_ok:
  assumes "cs \<in> {[1, 1, 2, 1, OP_END], [2, OP_END], [1, OP_NOP, 2, OP_END], [1, 1, OP_END]}"
  shows "program_ok ex_vm (ex_instr cs)"
proof -
  have "length (opcodes ex_vm) = 255" "handler (opcodes ex_vm ! unat OP_END) = Some End_handler"
    using ex_ready by (auto simp: vm_ready_def)
  then show ?thesis using assms by (auto simp: program_ok_def ex_instr_def OP_END_def OP_NOP_def)
qed

lemma ex_never_fails:
  assumes "cs \<in> {[1, 1, 2, 1, OP_END], [2, OP_END], [1, OP_NOP, 2, OP_END], [1, 1, OP_END]}"
  shows "never_fails ex_sem ex_vm (ex_instr cs ! 0)"
  using assms ex_opcodes
  by (auto simp: ex_instr_def never_fails_def handler_for_def OP_INVALID_def call_handler_def ex_sem_def)

lemma ex_run_waits:
  assumes "cs \<in> set ex_waiting"
  shows "ov_vm_trigger 40 ex_sem (Some ex_vm) (Some (ex_instr cs)) (Some ''p'') (Some 7) = Ret (Some (ex_run cs), OV_EXEC_WAIT)"
proof -
  have "\<forall>cs \<in> set ex_waiting.
    (case ov_vm_trigger 40 ex_sem (Some ex_vm) (Some (ex_instr cs)) (Some ''p'') (Some 7) of
       Ret (Some vm, r) \<Rightarrow> r = OV_EXEC_WAIT | _ \<Rightarrow> False)"
    by code_simp
  from bspec [OF this assms] show ?thesis by (auto simp: ex_run_def split: run.splits option.splits)
qed

lemma ex_run_reach:
  assumes "cs \<in> set ex_waiting"
  shows "vm_reach ex_sem (ex_run cs)" "vm_ready (ex_run cs)"
proof -
  have "2 * length (ex_instr cs) + 2 \<le> 40" using assms by (auto simp: ex_instr_def ex_waiting_def)
  moreover have "program_ok ex_vm (ex_instr cs)" using assms by (intro ex_programs_ok) (auto simp: ex_waiting_def)
  ultimately show *: "vm_reach ex_sem (ex_run cs)"
    using vm_reach.trigger [OF ex_reach _ _ ex_run_waits [OF assms]] by blast
  show "vm_ready (ex_run cs)" by (rule reach_ready [OF _ _ *]) simp_all
qed

lemma ex_run_at:
  assumes "cs \<in> set ex_waiting"
  shows "prog_for_id (Some (ex_run cs)) (Some ''p'') = Some 1 \<and> instructions (prog_of (ex_run cs) 1) = ex_instr cs"
proof -
  have "\<forall>cs \<in> set ex_waiting.
    prog_for_id (Some (ex_run cs)) (Some ''p'') = Some 1 \<and> instructions (prog_of (ex_run cs) 1) = ex_instr cs"
    by code_simp
  from bspec [OF this assms] show ?thesis .
qed

lemma ready_at:
  assumes "vm_ready vm" "prog_for_id (Some vm) (Some a) = Some i"
  obtains k where "k < length (instructions (prog_of vm i))" "at_pc vm (prog_id (prog_of vm i)) i OV_VM_PROG_OK (int k)"
    "runnable vm i" "progs (db vm) (prog_id (prog_of vm i)) = Some i"
proof -
  have "db_inv (db vm)" using assms(1) by (simp add: vm_ready_def)
  from lookup_slot [OF this assms(2)] assms(1) that show thesis by (auto simp: vm_ready_def)
qed

subsection \<open>Properties\<close>

text \<open>
  C5: In every machine that the operations reach, each registered program
  is in the state OK, its program counter is inside of its instructions, which end with \<open>OP_END\<close>
  and are all in the opcode table, and the database keeps its invariant. The operations are those
  of the header: creation, registration (before the first program), trigger (of programs that end with \<open>OP_END\<close> and have
  only opcodes of the table), continue,
  abortion, pruning, alias and the passing of time, in any order, for handlers that change nothing
  of the machine but the error of their program, its aliases and the world outside.
\<close>

theorem vm_reachable_ready:
  assumes "handlers_local sem" "inverse_ok sem" "vm_reach sem vm"
  shows "vm_ready vm"
  by (rule reach_ready [OF assms])

theorem vm_reachable_ready_witness:
  "vm_reach ex_sem (ex_run [1, 1, 2, 1, OP_END]) \<and> vm_ready (ex_run [1, 1, 2, 1, OP_END])"
proof -
  have "vm_reach ex_sem (ex_run [1, 1, 2, 1, OP_END])" by (rule ex_run_reach) (simp add: ex_waiting_def)
  from this vm_reachable_ready [OF _ _ this] show ?thesis by simp
qed

text \<open>
  C2: \<open>ov_vm_trigger\<close> returns, with fuel twice the length of the program: it refuses
  the program and changes nothing if the id is invalid or taken or no slot is free; otherwise
  the program waits at one of its instructions, registered under its id with its data, or it
  has ended and left no trace, its data released exactly once. The only other outcome is undefined behaviour (the
  machine reads the instruction before the first), and only for a program whose first instruction has a handler
  that can fail, or none. The program has to end with \<open>OP_END\<close> and its opcodes have to be in the table.
\<close>

theorem vm_trigger_total:
  assumes sem: "handlers_local sem" "inverse_ok sem" and inv: "db_inv (db vm)" and ok: "program_ok vm instr"
    and fuel: "2 * length instr + 2 \<le> fuel"
  shows "(\<exists>vm' r. ov_vm_trigger fuel sem (Some vm) (Some instr) (Some pid) d = Ret (Some vm', r) \<and> db_inv (db vm') \<and>
    (case r of
       OV_EXEC_TRIGGER_FAIL \<Rightarrow> vm' = vm \<and>
         (\<not> is_id_valid (Some pid) \<or> ov_vm_prog_db_get (Some (db vm)) (Some pid) \<noteq> None \<or> topmost_usable_slot_index (db vm) = 0)
     | OV_EXEC_WAIT \<Rightarrow> \<exists>i k. ov_vm_prog_db_get (Some (db vm')) (Some pid) = Some i \<and> k < length instr \<and>
         at_pc vm' pid i OV_VM_PROG_OK (int k) \<and> instructions (prog_of vm' i) = instr \<and> data (prog_of vm' i) = d \<and>
         released (db vm') = released (db vm)
     | _ \<Rightarrow> progs (db vm') = progs (db vm) \<and> released (db vm') = released (db vm) @ released_by vm d)) \<or>
    ov_vm_trigger fuel sem (Some vm) (Some instr) (Some pid) d = Undefined \<and> \<not> never_fails sem vm (instr ! 0)"
proof (cases "is_id_valid (Some pid) \<and> ov_vm_prog_db_get (Some (db vm)) (Some pid) = None \<and> 0 < topmost_usable_slot_index (db vm)")
  case False
  then have "ov_vm_prog_db_insert (clock_usecs vm) (Some (db vm)) (Some pid) (Some instr) d = (Some (db vm), None)"
    by (intro insert_reject [OF inv]) auto
  with False inv show ?thesis
    by (intro disjI1 exI [of _ vm] exI [of _ OV_EXEC_TRIGGER_FAIL]) (auto simp: ov_vm_trigger_def vm_is_id_valid_def execute_prog_def)
next
  case True
  then obtain i db' where ins: "ov_vm_prog_db_insert (clock_usecs vm) (Some (db vm)) (Some pid) (Some instr) d = (Some db', Some i)"
    "at_pc (vm\<lparr>db := db'\<rparr>) pid i OV_VM_PROG_OK 0" "instructions (prog_of (vm\<lparr>db := db'\<rparr>) i) = instr"
    "data (prog_of (vm\<lparr>db := db'\<rparr>) i) = d" "(progs db')(pid := None) = progs (db vm)"
    "released db' = released (db vm)" "release_given db' = release_given (db vm)"
    using insert_start [OF inv] by metis
  have valid_id: "is_id_valid (Some pid)" using True by simp
  let ?vm = "vm\<lparr>db := db'\<rparr>"
  have oc: "opcodes ?vm = opcodes vm" by simp
  note run = program_ok_runnable [OF ok ins(3) oc]
  have valid: "is_prog_valid ?vm (Some i)" using ins(2) by (simp add: is_prog_valid_def at_pc_def)
  have trig: "ov_vm_trigger fuel sem (Some vm) (Some instr) (Some pid) d =
      (case execute_loop fuel sem ?vm (Some i) of Ret (vm', r) \<Rightarrow> Ret (Some vm', r) | Undefined \<Rightarrow> Undefined | Out_of_fuel \<Rightarrow> Out_of_fuel)"
    using ins(1) valid by (simp add: ov_vm_trigger_def vm_is_id_valid_def execute_prog_def execute.simps split: run.split)
  have at: "at_pc ?vm pid i OV_VM_PROG_OK (int 0)" using ins(2) by simp
  have len: "0 < length (instructions (prog_of ?vm i))" "2 * length (instructions (prog_of ?vm i)) + 2 \<le> fuel + 0"
    using ins(3) ok fuel by (auto simp: program_ok_def)
  from forward_loop [OF sem at run(1) len] show ?thesis
  proof
    assume "execute_loop fuel sem ?vm (Some i) = Undefined \<and> (0 :: nat) = 0 \<and> \<not> first_succeeds sem ?vm i"
    with trig run(2) show ?thesis by auto
  next
    assume "\<exists>vm' r. execute_loop fuel sem ?vm (Some i) = Ret (vm', r) \<and> r \<noteq> OV_EXEC_TRIGGER_FAIL \<and>
      (if r = OV_EXEC_WAIT then waiting ?vm pid i vm' else gone ?vm pid i vm')"
    then obtain vm' r where vm': "ov_vm_trigger fuel sem (Some vm) (Some instr) (Some pid) d = Ret (Some vm', r)" "r \<noteq> OV_EXEC_TRIGGER_FAIL"
      "if r = OV_EXEC_WAIT then waiting ?vm pid i vm' else gone ?vm pid i vm'" using trig by auto
    show ?thesis
    proof (cases "r = OV_EXEC_WAIT")
      case True
      with vm'(3) obtain k where w: "frame ?vm i vm'" "k < length instr" "at_pc vm' pid i OV_VM_PROG_OK (int k)"
        using ins(3) by (auto simp: waiting_def)
      have "ov_vm_prog_db_get (Some (db vm')) (Some pid) = Some i" by (rule at_pc_lookup [OF w(3)]) (use valid_id in simp)
      with w ins vm'(1) True show ?thesis
        by (intro disjI1 exI [of _ vm'] exI [of _ r]) (auto simp: frame_def at_pc_def)
    next
      case False
      have "released_data db' i = released_by vm d"
        using ins(4,7) by (auto simp: released_data_def released_by_def split: option.split)
      moreover have "gone ?vm pid i vm'" using vm'(3) False by simp
      ultimately show ?thesis using vm'(1,2) False ins(5,6)
        by (intro disjI1 exI [of _ vm'] exI [of _ r]) (cases r; simp add: gone_def)
    qed
  qed
qed

theorem vm_trigger_total_witness:
  "\<exists>vm' r. ov_vm_trigger 12 ex_sem (Some ex_vm) (Some (ex_instr [1, 1, 2, 1, OP_END])) (Some ''p'') (Some 7) = Ret (Some vm', r) \<and>
     db_inv (db vm')"
proof -
  have "program_ok ex_vm (ex_instr [1, 1, 2, 1, OP_END])" by (rule ex_programs_ok) simp
  moreover have "2 * length (ex_instr [1, 1, 2, 1, OP_END]) + 2 \<le> 12" by (simp add: ex_instr_def)
  moreover have "db_inv (db ex_vm)" using ex_ready by (simp add: vm_ready_def)
  moreover have "never_fails ex_sem ex_vm (ex_instr [1, 1, 2, 1, OP_END] ! 0)" by (rule ex_never_fails) simp
  ultimately show ?thesis using vm_trigger_total [OF ex_sem_ok(1,3), of ex_vm] by blast
qed

text \<open>
  C13: A program all of whose handlers succeed runs to its end: \<open>ov_vm_trigger\<close> calls
  the handlers once each, in the order of the instructions, notifies that the program is
  done, unregisters it, releases its data and returns \<open>OV_EXEC_OK\<close>.
\<close>

theorem vm_runs_in_order:
  assumes sem: "handlers_local sem" and inv: "db_inv (db vm)" and ok: "program_ok vm instr"
    and steps: "\<forall>j. Suc j < length instr \<longrightarrow> steps sem vm (instr ! j)"
    and free: "is_id_valid (Some pid)" "ov_vm_prog_db_get (Some (db vm)) (Some pid) = None"
    "0 < topmost_usable_slot_index (db vm)" and fuel: "length instr \<le> fuel"
  shows "\<exists>vm'. ov_vm_trigger fuel sem (Some vm) (Some instr) (Some pid) d = Ret (Some vm', OV_EXEC_OK) \<and>
    progs (db vm') = progs (db vm) \<and> released (db vm') = released (db vm) @ released_by vm d \<and>
    events vm' = events vm @ map (forward_call vm instr) [0..<length instr] @ note_of vm OV_VM_PROG_OK pid"
proof -
  obtain i db' where ins: "ov_vm_prog_db_insert (clock_usecs vm) (Some (db vm)) (Some pid) (Some instr) d = (Some db', Some i)"
    "at_pc (vm\<lparr>db := db'\<rparr>) pid i OV_VM_PROG_OK 0" "instructions (prog_of (vm\<lparr>db := db'\<rparr>) i) = instr"
    "data (prog_of (vm\<lparr>db := db'\<rparr>) i) = d" "(progs db')(pid := None) = progs (db vm)"
    "released db' = released (db vm)" "release_given db' = release_given (db vm)"
    using insert_start [OF inv free] by metis
  let ?vm = "vm\<lparr>db := db'\<rparr>"
  have at: "at_pc ?vm pid i OV_VM_PROG_OK (int 0)" using ins(2) by simp
  have run: "runnable ?vm i" using program_ok_runnable [OF ok ins(3)] by simp
  have eqs: "steps sem ?vm = steps sem vm" "forward_call ?vm = forward_call vm" "note_of ?vm = note_of vm"
    by (auto simp: steps_def forward_call_def handler_for_def note_of_def fun_eq_iff)
  obtain vm' where vm': "execute_loop fuel sem ?vm (Some i) = Ret (vm', OV_EXEC_OK)" "gone ?vm pid i vm'"
    "events vm' = events vm @ map (forward_call vm instr) [0..<length instr] @ note_of vm OV_VM_PROG_OK pid"
    using forward_all [OF sem at run, of fuel] steps fuel ok unfolding ins(3) eqs by (auto simp: program_ok_def)
  have "is_prog_valid ?vm (Some i)" using at by (simp add: is_prog_valid_def at_pc_def)
  then have "ov_vm_trigger fuel sem (Some vm) (Some instr) (Some pid) d = Ret (Some vm', OV_EXEC_OK)"
    using ins(1) vm'(1) by (simp add: ov_vm_trigger_def vm_is_id_valid_def execute_prog_def execute.simps)
  moreover have "released_data db' i = released_by vm d"
    using ins(4,7) by (auto simp: released_data_def released_by_def split: option.split)
  ultimately show ?thesis using vm' ins(5,6) by (auto simp: gone_def)
qed

theorem vm_runs_in_order_witness:
  "\<exists>vm'. ov_vm_trigger 9 ex_sem (Some ex_vm) (Some (ex_instr [1, 1, OP_END])) (Some ''p'') (Some 7) =
     Ret (Some vm', OV_EXEC_OK) \<and>
     events vm' = events ex_vm @ map (forward_call ex_vm (ex_instr [1, 1, OP_END])) [0..<3] @ note_of ex_vm OV_VM_PROG_OK ''p''"
proof -
  have h: "handler_for ex_vm OV_VM_PROG_OK \<lparr>opcode = 1, args = []\<rparr> = Some (Handler False)"
    "ov_vm_prog_db_get (Some (db ex_vm)) (Some ''p'') = None" "topmost_usable_slot_index (db ex_vm) = 2" by code_simp+
  have st: "\<forall>j. Suc j < length (ex_instr [1, 1, OP_END]) \<longrightarrow> steps ex_sem ex_vm (ex_instr [1, 1, OP_END] ! j)"
    using h(1) by (auto simp: ex_instr_def steps_def call_handler_def ex_sem_def less_Suc_eq)
  have "program_ok ex_vm (ex_instr [1, 1, OP_END])" by (rule ex_programs_ok) simp
  moreover have "length (ex_instr [1, 1, OP_END]) = 3" by (simp add: ex_instr_def)
  ultimately show ?thesis
    using vm_runs_in_order [OF ex_sem_ok(1) _ _ st _ h(2), of 9 "Some 7"] ex_ready h(3)
    by (auto simp: vm_ready_def is_id_valid_Some)
qed

text \<open>
  C14: In a ready machine \<open>ov_vm_continue\<close> by the id or an alias of a program
  returns: either the program waits again, and nothing but its own execution state has
  changed, or it has ended (done, aborted or failed to abort), is unregistered and its data is
  released exactly once. The only other outcome is undefined behaviour, and only if the program waits at its first instruction and
  the handler of this can fail: then there is nothing to go back to.
  Twice the number of its instructions is enough fuel, since a
  run moves forward at most once over the program and then back at most once.
\<close>

theorem vm_continue_returns:
  assumes sem: "handlers_local sem" "inverse_ok sem" and ready: "vm_ready vm"
    and i: "prog_for_id (Some vm) (Some a) = Some i"
    and fuel: "2 * length (instructions (prog_of vm i)) + 2 \<le> fuel"
  shows "(\<exists>vm' r. ov_vm_continue fuel sem (Some vm) (Some a) = Ret (Some vm', r) \<and> vm_ready vm' \<and>
    (if r = OV_EXEC_WAIT then waiting vm (prog_id (prog_of vm i)) i vm' else gone vm (prog_id (prog_of vm i)) i vm')) \<or>
    ov_vm_continue fuel sem (Some vm) (Some a) = Undefined \<and> program_counter (prog_of vm i) = 0 \<and> \<not> first_succeeds sem vm i"
proof -
  have "db_inv (db vm)" using ready by (simp add: vm_ready_def)
  from ready_run [OF sem ready lookup_slot [OF this i] fuel] i show ?thesis
    by (elim disjE exE conjE) (auto simp: ov_vm_continue_def)
qed

theorem vm_continue_returns_witness:
  "\<exists>vm' r. ov_vm_continue 12 ex_sem (Some (ex_run [1, 1, 2, 1, OP_END])) (Some ''p'') = Ret (Some vm', r) \<and> vm_ready vm'"
proof -
  have w: "[1, 1, 2, 1, OP_END] \<in> set ex_waiting" by (simp add: ex_waiting_def)
  note e = ex_run_at [OF w]
  have "program_counter (prog_of (ex_run [1, 1, 2, 1, OP_END]) 1) \<noteq> 0" by code_simp
  with vm_continue_returns [OF _ _ ex_run_reach(2) [OF w] conjunct1 [OF e], of ex_sem 12] e show ?thesis
    by (auto simp: ex_instr_def)
qed

text \<open>
  C3: \<open>ov_vm_abort_with\<close> undoes a waiting program that has completed at least one instruction: the inverse handlers
  are called for the completed instructions, from the last one back to the first, each once, until one of them objects (it is
  missing, fails, or says that the program is finished). If none objects, the program is reported as
  aborted; if one is missing, it is reported as failed to abort at once. In every case the program is unregistered and its
  data is released. The instruction the program waits for counts as completed only if the caller asks for it. A program that has not
  completed an instruction cannot be aborted: the behaviour is undefined.
\<close>

theorem vm_abort_compensates:
  assumes sem: "handlers_local sem" "inverse_ok sem" and ready: "vm_ready vm"
    and i: "prog_for_id (Some vm) (Some a) = Some i" and fuel: "length (instructions (prog_of vm i)) < fuel"
  defines "pid \<equiv> prog_id (prog_of vm i)" and "inv_of \<equiv> \<lambda>m. handler_for vm OV_VM_PROG_ABORTING (instructions (prog_of vm i) ! m)"
  shows "if abort_from vm i fin < 0 then ov_vm_abort_with fuel sem (Some vm) (Some a) fin = Undefined
    else \<exists>vm'. ov_vm_abort_with fuel sem (Some vm) (Some a) fin = Ret (Some vm', True) \<and> gone vm pid i vm' \<and>
      (let j = nat (abort_from vm i fin) in
       (if \<forall>m\<le>j. inverts sem vm i m then events vm' = events vm @ map (inverse_call vm i) (rev [0..<Suc j]) @ note_of vm OV_VM_PROG_ABORTING pid
        else events vm' = events vm @ map (inverse_call vm i) (rev [0..<Suc j]) @ note_of vm OV_VM_PROG_ABORTING pid \<or>
          (\<exists>m\<le>j. \<not> inverts sem vm i m \<and>
            (\<exists>st \<in> {OV_VM_PROG_ABORTING, OV_VM_PROG_FAILED_TO_ABORT}. (inv_of m = None \<longrightarrow> st = OV_VM_PROG_FAILED_TO_ABORT) \<and>
              events vm' = events vm @ map (inverse_call vm i) (rev [Suc m..<Suc j]) @ call_of (inv_of m) m OV_VM_PROG_ABORTING @ note_of vm st pid))))"
proof -
  obtain k where k: "k < length (instructions (prog_of vm i))" "at_pc vm pid i OV_VM_PROG_OK (int k)"
    "runnable vm i" "progs (db vm) pid = Some i" unfolding pid_def by (rule ready_at [OF ready i])
  show ?thesis
  proof (cases "abort_from vm i fin < 0")
    case True
    from ready_abort_outside [OF ready k(4) True fuel] i True show ?thesis by (simp add: ov_vm_abort_with_def)
  next
    case False
    then have j: "abort_from vm i fin = int (nat (abort_from vm i fin))" by simp
    from abort_undone [OF sem k(2) _ _ j, of fuel] k fuel obtain vm' where
      vm': "abort_program_with fuel sem vm (Some i) fin = Ret vm'" "undone sem vm pid i (nat (abort_from vm i fin)) vm'" by (auto simp: runnable_def)
    then have "ov_vm_abort_with fuel sem (Some vm) (Some a) fin = Ret (Some vm', True)" using i by (simp add: ov_vm_abort_with_def)
    with vm'(2) False show ?thesis unfolding undone_def Let_def inv_of_def by auto
  qed
qed

theorem vm_abort_compensates_witness:
  "\<exists>vm'. ov_vm_abort_with 6 ex_sem (Some (ex_run [1, 1, 2, 1, OP_END])) (Some ''p'') False = Ret (Some vm', True) \<and>
     gone (ex_run [1, 1, 2, 1, OP_END]) ''p'' 1 vm' \<and>
     events vm' = events (ex_run [1, 1, 2, 1, OP_END]) @ [inverse_call (ex_run [1, 1, 2, 1, OP_END]) 1 1, inverse_call (ex_run [1, 1, 2, 1, OP_END]) 1 0,
       Program_aborted ''p'']"
proof -
  let ?vm = "ex_run [1, 1, 2, 1, OP_END]"
  have w: "[1, 1, 2, 1, OP_END] \<in> set ex_waiting" by (simp add: ex_waiting_def)
  note e = ex_run_at [OF w]
  have c: "abort_from ?vm 1 False = 1" "prog_id (prog_of ?vm 1) = ''p''"
    "handler_for ?vm OV_VM_PROG_ABORTING \<lparr>opcode = 1, args = []\<rparr> = Some Inv_handler_dummy"
    "note_of ?vm OV_VM_PROG_ABORTING ''p'' = [Program_aborted ''p'']"
    by code_simp+
  have inv: "\<forall>m\<le>1. inverts ex_sem ?vm 1 m"
    using e c(3) by (auto simp: inverts_def ex_instr_def call_handler_def inv_handler_dummy_def le_Suc_eq)
  have "[0..<Suc 1] = [0, 1]" by (simp add: upt_rec)
  with vm_abort_compensates [OF _ _ ex_run_reach(2) [OF w] conjunct1 [OF e], of ex_sem 6 False] e c inv show ?thesis by (auto simp: ex_instr_def)
qed

text \<open>
  Aborting a program that has not completed its first instruction is undefined:
  the program counter is moved to -1 and the loop, which tests it at its end only, reads the
  instruction before the first. This is so for a program whose first instruction waits, also
  if the timer prunes it.
\<close>

theorem vm_abort_before_first:
  assumes ready: "vm_ready vm" and i: "prog_for_id (Some vm) (Some a) = Some i"
    and "abort_from vm i fin < 0" "2 \<le> fuel"
  shows "ov_vm_abort_with fuel sem (Some vm) (Some a) fin = Undefined"
proof -
  obtain k where "at_pc vm (prog_id (prog_of vm i)) i OV_VM_PROG_OK (int k)" by (rule ready_at [OF ready i])
  from abort_outside [OF this assms(3,4)] i show ?thesis by (simp add: ov_vm_abort_with_def)
qed

theorem vm_abort_before_first_witness:
  "vm_reach ex_sem (ex_run [2, OP_END]) \<and>
   ov_vm_abort_with 9 ex_sem (Some (ex_run [2, OP_END])) (Some ''p'') False = Undefined"
proof -
  have w: "[2, OP_END] \<in> set ex_waiting" by (simp add: ex_waiting_def)
  have "abort_from (ex_run [2, OP_END]) 1 False < 0" by code_simp
  from vm_abort_before_first [OF ex_run_reach(2) [OF w] conjunct1 [OF ex_run_at [OF w]] this, of 9] ex_run_reach(1) [OF w]
  show ?thesis by simp
qed

text \<open>
  The abortion of a program whose last completed instruction has no inverse handler
  fails at once: nothing is undone, the program is unregistered and reported as failed to abort.
  The predefined \<open>OP_NOP\<close> is such an instruction.
\<close>

theorem vm_abort_no_inverse:
  assumes sem: "handlers_local sem" "inverse_ok sem" and ready: "vm_ready vm"
    and i: "prog_for_id (Some vm) (Some a) = Some i" and j: "abort_from vm i fin = int j"
    and none: "opcode (instructions (prog_of vm i) ! j) = OP_NOP" "inv_handler (opcodes vm ! unat OP_NOP) = None" and fuel: "2 \<le> fuel"
  shows "\<exists>vm'. ov_vm_abort_with fuel sem (Some vm) (Some a) fin = Ret (Some vm', True) \<and>
    gone vm (prog_id (prog_of vm i)) i vm' \<and>
    events vm' = events vm @ note_of vm OV_VM_PROG_FAILED_TO_ABORT (prog_id (prog_of vm i))"
proof -
  obtain k where k: "k < length (instructions (prog_of vm i))" "at_pc vm (prog_id (prog_of vm i)) i OV_VM_PROG_OK (int k)"
    "runnable vm i" by (rule ready_at [OF ready i])
  have "handler_for vm OV_VM_PROG_ABORTING (instructions (prog_of vm i) ! j) = None"
    using none by (simp add: handler_for_def)
  from abort_no_inverse [OF sem k(2) _ _ j this fuel] k i show ?thesis
    by (auto simp: runnable_def ov_vm_abort_with_def)
qed

theorem vm_abort_no_inverse_witness:
  "\<exists>vm'. ov_vm_abort_with 6 ex_sem (Some (ex_run [1, OP_NOP, 2, OP_END])) (Some ''p'') False = Ret (Some vm', True) \<and>
     events vm' = events (ex_run [1, OP_NOP, 2, OP_END]) @ [Program_failed_to_abort ''p'']"
proof -
  have w: "[1, OP_NOP, 2, OP_END] \<in> set ex_waiting" by (simp add: ex_waiting_def)
  note e = ex_run_at [OF w]
  have c: "abort_from (ex_run [1, OP_NOP, 2, OP_END]) 1 False = int 1" "prog_id (prog_of (ex_run [1, OP_NOP, 2, OP_END]) 1) = ''p''"
    "inv_handler (opcodes (ex_run [1, OP_NOP, 2, OP_END]) ! unat OP_NOP) = None"
    "note_of (ex_run [1, OP_NOP, 2, OP_END]) OV_VM_PROG_FAILED_TO_ABORT ''p'' = [Program_failed_to_abort ''p'']"
    by code_simp+
  have "opcode (instructions (prog_of (ex_run [1, OP_NOP, 2, OP_END]) 1) ! 1) = OP_NOP" using e by (simp add: ex_instr_def)
  from vm_abort_no_inverse [OF _ _ ex_run_reach(2) [OF w] conjunct1 [OF e] c(1) this c(3), of ex_sem 6] c(2,4) show ?thesis by auto
qed

text \<open>
  C15: The prune timer aborts overdue programs only, at most five of them, leaves the
  slots of all others as they are, and if it aborts fewer than five, no program is
  overdue afterwards. The only other outcome is undefined behaviour, and only if an overdue program has not completed
  an instruction.
\<close>

theorem vm_prune_overdue:
  assumes sem: "handlers_local sem" "inverse_ok sem" and ready: "vm_ready vm"
    and fuel: "\<forall>pid i. progs (db vm) pid = Some i \<longrightarrow> length (instructions (prog_of vm i)) < fuel"
  shows "(\<exists>vm' ps. timer_callback fuel sem (Some vm) = Ret (Some vm', True) \<and> vm_ready vm' \<and>
    progs (db vm') = progs (db vm) |` (- set ps) \<and> distinct ps \<and> length ps \<le> 5 \<and>
    (\<forall>p \<in> set ps. overdue vm (clock_usecs vm - program_timeout_usecs vm) p) \<and>
    (\<forall>q j. progs (db vm') q = Some j \<longrightarrow> pool_states (db vm') ! j = pool_states (db vm) ! j) \<and>
    (length ps < 5 \<longrightarrow> (\<forall>q. \<not> overdue vm' (clock_usecs vm - program_timeout_usecs vm) q))) \<or>
    timer_callback fuel sem (Some vm) = Undefined \<and>
    (\<exists>pid i. progs (db vm) pid = Some i \<and> overdue vm (clock_usecs vm - program_timeout_usecs vm) pid \<and> abort_from vm i False < 0)"
proof -
  let ?l = "clock_usecs vm - program_timeout_usecs vm"
  from prune_run [OF sem ready fuel, of ?l 5] show ?thesis
  proof (elim disjE exE conjE)
    fix vm' ps assume p: "prune_loop fuel sem vm ?l (ov_vm_prog_db_next_due (Some (db vm)) ?l) 5 = Ret vm'"
      "vm_ready vm'" "progs (db vm') = progs (db vm) |` (- set ps)" "distinct ps" "length ps \<le> 5"
      "\<forall>p \<in> set ps. overdue vm ?l p"
      "\<forall>q j. progs (db vm') q = Some j \<longrightarrow> pool_states (db vm') ! j = pool_states (db vm) ! j"
      "length ps < 5 \<longrightarrow> (\<forall>q. \<not> overdue vm' ?l q)"
    let ?vm = "vm'\<lparr>timer := Some (program_timeout_usecs vm')\<rparr>"
    have "timer_callback fuel sem (Some vm) = Ret (Some ?vm, True)"
      using p(1) by (simp add: timer_callback_def prune_overdue_requests_def)
    moreover have "vm_ready ?vm" using p(2) by (simp add: ready_clock)
    moreover have "overdue ?vm = overdue vm'" "db ?vm = db vm'" by (simp_all add: overdue_def fun_eq_iff split: option.split)
    ultimately show ?thesis using p(3-8) by (intro disjI1 exI [of _ ?vm] exI [of _ ps]) simp
  next
    assume "prune_loop fuel sem vm ?l (ov_vm_prog_db_next_due (Some (db vm)) ?l) 5 = Undefined" "no_step_done vm ?l"
    then show ?thesis unfolding no_step_done_def by (simp add: timer_callback_def prune_overdue_requests_def)
  qed
qed

theorem vm_prune_overdue_witness:
  "\<exists>vm'. timer_callback 6 ex_sem (Some ((ex_run [1, 1, 2, 1, OP_END])\<lparr>clock_secs := 2, clock_usecs := 2000000\<rparr>)) = Ret (Some vm', True) \<and>
     vm_ready vm'"
proof -
  let ?vm = "(ex_run [1, 1, 2, 1, OP_END])\<lparr>clock_secs := 2, clock_usecs := 2000000\<rparr>"
  have w: "[1, 1, 2, 1, OP_END] \<in> set ex_waiting" by (simp add: ex_waiting_def)
  have r: "vm_ready ?vm" using ex_run_reach(2) [OF w] by (simp add: ready_clock)
  have c: "\<forall>i \<in> set [0, 1]. length (instructions (prog_of ?vm i)) < 6 \<and> (state (prog_of ?vm i) = OV_VM_PROG_OK \<longrightarrow> 0 \<le> abort_from ?vm i False)"
    "length (pool_states (db ?vm)) = 2"
    by code_simp+
  have "length (instructions (prog_of ?vm i)) < 6 \<and> 0 \<le> abort_from ?vm i False" if p: "progs (db ?vm) pid = Some i" for pid i
  proof -
    obtain k where at: "at_pc ?vm pid i OV_VM_PROG_OK (int k)" using r p by (auto simp: vm_ready_def)
    then have "i < 2" using at_pc_slot [OF at] c(2) by simp
    with c(1) at show ?thesis by (auto simp: at_pc_def less_2_cases_iff)
  qed
  then have "\<forall>pid i. progs (db ?vm) pid = Some i \<longrightarrow> length (instructions (prog_of ?vm i)) < 6"
    "\<not> (\<exists>pid i. progs (db ?vm) pid = Some i \<and> overdue ?vm (clock_usecs ?vm - program_timeout_usecs ?vm) pid \<and> abort_from ?vm i False < 0)"
    by (blast, meson not_le)
  with vm_prune_overdue [OF ex_sem_ok(1,3) r] show ?thesis by blast
qed

end
