(* ===== verification/Ov_Cache.thy ===== *)
theory Ov_Cache
  imports Ov_Prelude "HOL-Library.Multiset"
begin

text \<open>
  The object caches, \<open>ov_base/src/cache/ov_registered_cache.c\<close>: one cache, its creation and
  extension, and the operations \<open>ov_registered_cache_get\<close> and \<open>ov_registered_cache_put\<close> that any thread may
  call. A cache is a stack of at most \<open>capacity\<close> objects; an atomic flag guards it, and a
  caller that finds the flag set does not wait but goes without the cache.

  The operations come twice: as functions of the cache for a caller that is not interrupted, and
  as the steps of a machine in which the accesses of several threads interleave at the
  atomic flag. The counters of calls are statistics and part of the functions only.
\<close>

subsection \<open>The cache\<close>

record 'a ov_registered_cache =
  cache_capacity :: nat
  next_free :: nat
  elements :: "'a option list option"
  in_use :: bool
  element_checker :: "('a option \<Rightarrow> bool) option"
  elements_put :: u64
  elements_got :: u64
  get_called :: u64
  put_called :: u64

definition OV_DEFAULT_CACHE_SIZE :: nat where
  "OV_DEFAULT_CACHE_SIZE = 50"

definition cache_create :: "nat \<Rightarrow> 'a ov_registered_cache" where
  "cache_create capacity =
    \<lparr>cache_capacity = capacity, next_free = 0, elements = Some (replicate capacity None), in_use = False,
     element_checker = None, elements_put = 0, elements_got = 0, get_called = 0, put_called = 0\<rparr>"

text \<open>\<open>junk\<close> is the content of the cells that \<open>realloc\<close> adds.\<close>

definition cache_extend :: "'a option list \<Rightarrow> 'a ov_registered_cache option \<Rightarrow> nat \<Rightarrow> 'a ov_registered_cache" where
  "cache_extend junk cache capacity0 =
    (let capacity = (if capacity0 = 0 then OV_DEFAULT_CACHE_SIZE else capacity0)
     in case cache of
          None \<Rightarrow> cache_create capacity
        | Some c \<Rightarrow>
            c\<lparr>elements := Some (case elements c of None \<Rightarrow> junk | Some es \<Rightarrow> es @ junk),
              cache_capacity := capacity + cache_capacity c\<rparr>)"

definition element_type_correct :: "'a ov_registered_cache option \<Rightarrow> 'a option \<Rightarrow> bool" where
  "element_type_correct self object =
    (case self of
       None \<Rightarrow> False
     | Some c \<Rightarrow> (case element_checker c of None \<Rightarrow> True | Some check \<Rightarrow> check object))"

text \<open>The outer \<open>None\<close>: the assertion on the type of the object fails.\<close>

definition locked_cache_get :: "'a ov_registered_cache \<Rightarrow> ('a ov_registered_cache \<times> 'a option) option" where
  "locked_cache_get c =
    (case elements c of
       None \<Rightarrow> Some (c, None)
     | Some es \<Rightarrow>
         if next_free c = 0 then Some (c, None)
         else let c' = c\<lparr>next_free := next_free c - 1, elements_got := elements_got c + 1\<rparr>;
                  object = es ! next_free c'
              in if element_type_correct (Some c') object then Some (c', object) else None)"

definition ov_registered_cache_get ::
  "'a ov_registered_cache option \<Rightarrow> ('a ov_registered_cache option \<times> 'a option) option" where
  "ov_registered_cache_get self =
    (case self of
       None \<Rightarrow> Some (None, None)
     | Some c \<Rightarrow>
         let c1 = c\<lparr>get_called := get_called c + 1\<rparr>
         in if in_use c1 then Some (Some c1, None)
            else (case locked_cache_get (c1\<lparr>in_use := True\<rparr>) of
                    None \<Rightarrow> None
                  | Some (c2, object) \<Rightarrow> Some (Some (c2\<lparr>in_use := False\<rparr>), object)))"

definition locked_cache_put :: "'a ov_registered_cache \<Rightarrow> 'a option \<Rightarrow> 'a ov_registered_cache \<times> 'a option" where
  "locked_cache_put c object =
    (if object = None then (c, None)
     else case elements c of
            None \<Rightarrow> (c, object)
          | Some es \<Rightarrow>
              if cache_capacity c = next_free c then (c, object)
              else (c\<lparr>elements := Some (es[next_free c := object]), next_free := next_free c + 1,
                      elements_put := elements_put c + 1\<rparr>, None))"

definition ov_registered_cache_put ::
  "'a ov_registered_cache option \<Rightarrow> 'a option \<Rightarrow> ('a ov_registered_cache option \<times> 'a option) option" where
  "ov_registered_cache_put self object =
    (case self of
       None \<Rightarrow> Some (None, object)
     | Some c \<Rightarrow>
         let c1 = c\<lparr>put_called := put_called c + 1\<rparr>
         in if in_use c1 then Some (Some c1, object)
            else if \<not> element_type_correct (Some c1) object then None
            else let (c2, r) = locked_cache_put (c1\<lparr>in_use := True\<rparr>) object
                 in Some (Some (c2\<lparr>in_use := False\<rparr>), r))"

definition ov_registered_cache_set_element_checker ::
  "'a ov_registered_cache option \<Rightarrow> ('a option \<Rightarrow> bool) option \<Rightarrow> 'a ov_registered_cache option" where
  "ov_registered_cache_set_element_checker self check = map_option (\<lambda>c. c\<lparr>element_checker := check\<rparr>) self"

subsection \<open>The cache as a stack\<close>

definition cache_inv :: "'a ov_registered_cache \<Rightarrow> bool" where
  "cache_inv c \<longleftrightarrow>
    (\<exists>es. elements c = Some es \<and> length es = cache_capacity c \<and> next_free c \<le> length es \<and>
       (\<forall>i < next_free c. es ! i \<noteq> None \<and> element_type_correct (Some c) (es ! i)))"

text \<open>The cached objects, the one that is handed out next first.\<close>

definition cached :: "'a ov_registered_cache \<Rightarrow> 'a list" where
  "cached c = rev (map the (take (next_free c) (the (elements c))))"

lemma element_type_correct_update [simp]:
  "element_type_correct (Some (c\<lparr>cache_capacity := a1\<rparr>)) x = element_type_correct (Some c) x"
  "element_type_correct (Some (c\<lparr>next_free := a2\<rparr>)) x = element_type_correct (Some c) x"
  "element_type_correct (Some (c\<lparr>elements := a3\<rparr>)) x = element_type_correct (Some c) x"
  "element_type_correct (Some (c\<lparr>in_use := a4\<rparr>)) x = element_type_correct (Some c) x"
  "element_type_correct (Some (c\<lparr>elements_put := a5\<rparr>)) x = element_type_correct (Some c) x"
  "element_type_correct (Some (c\<lparr>elements_got := a6\<rparr>)) x = element_type_correct (Some c) x"
  "element_type_correct (Some (c\<lparr>get_called := a7\<rparr>)) x = element_type_correct (Some c) x"
  "element_type_correct (Some (c\<lparr>put_called := a8\<rparr>)) x = element_type_correct (Some c) x"
  by (simp_all add: element_type_correct_def)

lemma cache_inv_flags [simp]:
  "cache_inv (c\<lparr>in_use := a4\<rparr>) = cache_inv c" "cached (c\<lparr>in_use := a4\<rparr>) = cached c"
  "cache_inv (c\<lparr>get_called := a7\<rparr>) = cache_inv c" "cached (c\<lparr>get_called := a7\<rparr>) = cached c"
  "cache_inv (c\<lparr>put_called := a8\<rparr>) = cache_inv c" "cached (c\<lparr>put_called := a8\<rparr>) = cached c"
  by (simp_all add: cache_inv_def cached_def)

lemma cache_create_inv: "cache_inv (cache_create n)" "cached (cache_create n) = []"
  by (simp_all add: cache_create_def cache_inv_def cached_def)

lemma locked_get:
  assumes "cache_inv c"
  obtains c' where "locked_cache_get c = Some (c', case cached c of [] \<Rightarrow> None | x # _ \<Rightarrow> Some x)" "cache_inv c'"
    "cached c' = tl (cached c)" "in_use c' = in_use c" "cache_capacity c' = cache_capacity c"
proof -
  obtain es where es: "elements c = Some es" "length es = cache_capacity c" "next_free c \<le> length es"
    "\<forall>i < next_free c. es ! i \<noteq> None \<and> element_type_correct (Some c) (es ! i)"
    using assms by (auto simp: cache_inv_def)
  show thesis
  proof (cases "next_free c")
    case 0
    then show thesis using es assms by (intro that [of c]) (auto simp: locked_cache_get_def cached_def)
  next
    case (Suc n)
    then obtain x where x: "es ! n = Some x" "element_type_correct (Some c) (Some x)" using es(4) by (metis lessI not_Some_eq)
    let ?c = "c\<lparr>next_free := n, elements_got := elements_got c + 1\<rparr>"
    have "take (Suc n) es = take n es @ [Some x]" using es(3) Suc x by (simp add: take_Suc_conv_app_nth)
    then have "cached c = x # cached ?c" using es(1) Suc by (simp add: cached_def)
    then show thesis
      using es Suc x by (intro that [of ?c]) (auto simp: locked_cache_get_def cache_inv_def Let_def)
  qed
qed

lemma locked_put:
  assumes "cache_inv c" "element_type_correct (Some c) (Some x)"
  obtains c' where "locked_cache_put c (Some x) = (c', if length (cached c) = cache_capacity c then Some x else None)" "cache_inv c'"
    "cached c' = (if length (cached c) = cache_capacity c then cached c else x # cached c)" "in_use c' = in_use c"
    "cache_capacity c' = cache_capacity c" "element_checker c' = element_checker c"
proof -
  obtain es where es: "elements c = Some es" "length es = cache_capacity c" "next_free c \<le> length es"
    "\<forall>i < next_free c. es ! i \<noteq> None \<and> element_type_correct (Some c) (es ! i)"
    using assms by (auto simp: cache_inv_def)
  have len: "length (cached c) = next_free c" using es by (simp add: cached_def)
  show thesis
  proof (cases "cache_capacity c = next_free c")
    case True
    then show thesis using es assms len by (intro that [of c]) (auto simp: locked_cache_put_def)
  next
    case False
    let ?c = "c\<lparr>elements := Some (es[next_free c := Some x]), next_free := next_free c + 1, elements_put := elements_put c + 1\<rparr>"
    have "take (Suc (next_free c)) (es[next_free c := Some x]) = take (next_free c) es @ [Some x]"
      using False es(2,3) by (simp add: take_Suc_conv_app_nth)
    then have "cached ?c = x # cached c" using es(1) by (simp add: cached_def)
    then show thesis
      using es False assms(2) len
      by (intro that [of ?c]) (auto simp: locked_cache_put_def cache_inv_def nth_list_update less_Suc_eq)
  qed
qed

subsection \<open>Threads\<close>

text \<open>
  The state of a thread between its accesses: inside \<open>ov_registered_cache_get\<close> or
  \<open>ov_registered_cache_put\<close> with the flag set, after the work with the flag still set, or
  outside of both. \<open>outside\<close> collects the objects that clients of the cache hold.
\<close>

datatype 'a thread = Outside | Getting | Putting 'a | Leaving

record 'a cache_system =
  shared :: "'a ov_registered_cache"
  threads :: "nat \<Rightarrow> 'a thread"
  outside :: "'a multiset"

inductive cache_step :: "'a cache_system \<Rightarrow> 'a cache_system \<Rightarrow> bool" where
  get_enter: "threads s t = Outside \<Longrightarrow> \<not> in_use (shared s) \<Longrightarrow>
    cache_step s (s\<lparr>shared := (shared s)\<lparr>in_use := True\<rparr>, threads := (threads s)(t := Getting)\<rparr>)"
| get_locked: "threads s t = Getting \<Longrightarrow> locked_cache_get (shared s) = Some (c, object) \<Longrightarrow>
    cache_step s (s\<lparr>shared := c, threads := (threads s)(t := Leaving),
      outside := outside s + (case object of None \<Rightarrow> {#} | Some x \<Rightarrow> {#x#})\<rparr>)"
| put_enter: "threads s t = Outside \<Longrightarrow> \<not> in_use (shared s) \<Longrightarrow> x \<in># outside s \<Longrightarrow>
    element_type_correct (Some (shared s)) (Some x) \<Longrightarrow>
    cache_step s (s\<lparr>shared := (shared s)\<lparr>in_use := True\<rparr>, threads := (threads s)(t := Putting x),
      outside := outside s - {#x#}\<rparr>)"
| put_locked: "threads s t = Putting x \<Longrightarrow> locked_cache_put (shared s) (Some x) = (c, object) \<Longrightarrow>
    cache_step s (s\<lparr>shared := c, threads := (threads s)(t := Leaving),
      outside := outside s + (case object of None \<Rightarrow> {#} | Some x \<Rightarrow> {#x#})\<rparr>)"
| leave: "threads s t = Leaving \<Longrightarrow>
    cache_step s (s\<lparr>shared := (shared s)\<lparr>in_use := False\<rparr>, threads := (threads s)(t := Outside)\<rparr>)"

text \<open>All objects of the system: in the cache, with clients, and on the way into the cache.\<close>

definition in_flight :: "(nat \<Rightarrow> 'a thread) \<Rightarrow> 'a multiset" where
  "in_flight ts = (if \<exists>t x. ts t = Putting x then {#THE x. \<exists>t. ts t = Putting x#} else {#})"

definition all_objects :: "'a cache_system \<Rightarrow> 'a multiset" where
  "all_objects s = mset (cached (shared s)) + outside s + in_flight (threads s)"

definition cache_system_inv :: "'a cache_system \<Rightarrow> bool" where
  "cache_system_inv s \<longleftrightarrow> cache_inv (shared s) \<and>
    (\<forall>t u. threads s t \<noteq> Outside \<and> threads s u \<noteq> Outside \<longrightarrow> t = u) \<and>
    (in_use (shared s) \<longleftrightarrow> (\<exists>t. threads s t \<noteq> Outside)) \<and>
    (\<forall>t x. threads s t = Putting x \<longrightarrow> element_type_correct (Some (shared s)) (Some x))"

lemma in_flight_none: "\<forall>t x. ts t \<noteq> Putting x \<Longrightarrow> in_flight ts = {#}"
  by (simp add: in_flight_def)

lemma in_flight_alone:
  assumes "\<forall>u. u \<noteq> t \<longrightarrow> ts u = Outside" "\<forall>x. ts t \<noteq> Putting x"
  shows "in_flight ts = {#}"
proof (rule in_flight_none, intro allI)
  fix u x show "ts u \<noteq> Putting x" using assms by (cases "u = t") auto
qed

lemma in_flight_one: "ts t = Putting x \<Longrightarrow> \<forall>u. u \<noteq> t \<longrightarrow> ts u = Outside \<Longrightarrow> in_flight ts = {#x#}"
proof -
  assume t: "ts t = Putting x" and u: "\<forall>u. u \<noteq> t \<longrightarrow> ts u = Outside"
  have "(THE x. \<exists>t. ts t = Putting x) = x"
    using t u by (intro the_equality) (metis thread.distinct(3) thread.inject)+
  then show ?thesis using t by (auto simp: in_flight_def)
qed

lemma alone:
  assumes "cache_system_inv s" "threads s t \<noteq> Outside"
  shows "\<forall>u. u \<noteq> t \<longrightarrow> threads s u = Outside"
  using assms by (auto simp: cache_system_inv_def)

lemma cache_step_inv:
  assumes "cache_step s s'" "cache_system_inv s"
  shows "cache_system_inv s' \<and> all_objects s' = all_objects s"
  using assms
proof (induction rule: cache_step.induct)
  case (get_enter s t)
  then have "\<forall>u. threads s u = Outside" by (auto simp: cache_system_inv_def)
  with get_enter show ?case by (auto simp: cache_system_inv_def all_objects_def in_flight_none)
next
  case (get_locked s t c object)
  have inv: "cache_inv (shared s)" and a: "\<forall>u. u \<noteq> t \<longrightarrow> threads s u = Outside"
    using get_locked(3) alone [OF get_locked(3), of t] get_locked(1) by (simp_all add: cache_system_inv_def)
  obtain c' where c': "locked_cache_get (shared s) = Some (c', case cached (shared s) of [] \<Rightarrow> None | x # _ \<Rightarrow> Some x)"
    "cache_inv c'" "cached c' = tl (cached (shared s))" "in_use c' = in_use (shared s)"
    by (rule locked_get [OF inv])
  then have eq: "c = c'" "object = (case cached (shared s) of [] \<Rightarrow> None | x # _ \<Rightarrow> Some x)" using get_locked(2) by auto
  have "in_flight (threads s) = {#}" "in_flight ((threads s)(t := Leaving)) = {#}"
    using a get_locked(1) by (auto intro!: in_flight_alone [of t])
  then show ?case
    using get_locked a c' eq by (auto simp: cache_system_inv_def all_objects_def split: list.splits)
next
  case (put_enter s t x)
  then have o: "\<forall>u. threads s u = Outside" by (auto simp: cache_system_inv_def)
  then have "in_flight (threads s) = {#}" "in_flight ((threads s)(t := Putting x)) = {#x#}"
    by (auto intro!: in_flight_none in_flight_one [of _ t])
  with put_enter o show ?case by (auto simp: cache_system_inv_def all_objects_def)
next
  case (put_locked s t x c object)
  have inv: "cache_inv (shared s)" "element_type_correct (Some (shared s)) (Some x)"
    and a: "\<forall>u. u \<noteq> t \<longrightarrow> threads s u = Outside"
    using put_locked(3) alone [OF put_locked(3), of t] put_locked(1) by (simp_all add: cache_system_inv_def)
  obtain c' where c': "locked_cache_put (shared s) (Some x) =
      (c', if length (cached (shared s)) = cache_capacity (shared s) then Some x else None)" "cache_inv c'"
    "cached c' = (if length (cached (shared s)) = cache_capacity (shared s) then cached (shared s) else x # cached (shared s))"
    "in_use c' = in_use (shared s)"
    by (rule locked_put [OF inv])
  have "in_flight (threads s) = {#x#}" using in_flight_one [of "threads s" t x] put_locked(1) a by simp
  moreover have "in_flight ((threads s)(t := Leaving)) = {#}"
    using a by (auto intro!: in_flight_alone [of t])
  ultimately show ?case
    using put_locked a c' by (auto simp: cache_system_inv_def all_objects_def)
next
  case (leave s t)
  have a: "\<forall>u. u \<noteq> t \<longrightarrow> threads s u = Outside" using alone [OF leave(2), of t] leave(1) by simp
  have "in_flight (threads s) = {#}" "in_flight ((threads s)(t := Outside)) = {#}"
    using a leave(1) by (auto intro!: in_flight_alone [of t])
  then show ?case using leave a by (auto simp: cache_system_inv_def all_objects_def)
qed

lemma cache_steps_inv:
  assumes "cache_step\<^sup>*\<^sup>* s s'" "cache_system_inv s"
  shows "cache_system_inv s' \<and> all_objects s' = all_objects s"
  using assms by (induction rule: rtranclp_induct) (auto dest: cache_step_inv)

subsection \<open>Properties\<close>

text \<open>
  C25: However the threads interleave, at most one of them is inside of the cache, the
  flag is set exactly then, and no object is lost or handed out twice: the objects in the
  cache, with clients and on their way into the cache stay the same.
\<close>

theorem cache_threads_safe:
  assumes "cache_step\<^sup>*\<^sup>* s s'" "cache_system_inv s"
  shows "(\<forall>t u. threads s' t \<noteq> Outside \<and> threads s' u \<noteq> Outside \<longrightarrow> t = u) \<and>
    (in_use (shared s') \<longleftrightarrow> (\<exists>t. threads s' t \<noteq> Outside)) \<and> cache_inv (shared s') \<and>
    all_objects s' = all_objects s"
  using cache_steps_inv [OF assms] unfolding cache_system_inv_def by blast

theorem cache_threads_safe_witness:
  "\<exists>s s' :: nat cache_system. cache_step\<^sup>*\<^sup>* s s' \<and> threads s' 1 = Leaving \<and> cached (shared s') = [7] \<and> all_objects s' = {#7#}"
proof -
  let ?c = "cache_create 2 :: nat ov_registered_cache"
  let ?s = "\<lparr>shared = ?c, threads = \<lambda>_. Outside, outside = {#7#}\<rparr>"
  let ?s1 = "?s\<lparr>shared := ?c\<lparr>in_use := True\<rparr>, threads := (threads ?s)(1 := Putting 7), outside := outside ?s - {#7#}\<rparr>"
  have inv: "cache_system_inv ?s" by (simp add: cache_system_inv_def cache_create_inv) (simp add: cache_create_def)
  have all: "all_objects ?s = {#7#}" by (simp add: all_objects_def cache_create_inv in_flight_none)
  have 1: "cache_step ?s ?s1"
    using cache_step.put_enter [of ?s 1 7] by (simp add: cache_create_def element_type_correct_def)
  obtain c where c: "locked_cache_put (?c\<lparr>in_use := True\<rparr>) (Some 7) = (c, None)" "cached c = [7]"
    by (simp add: locked_cache_put_def cache_create_def cached_def numeral_2_eq_2)
  let ?s2 = "?s1\<lparr>shared := c, threads := (threads ?s1)(1 := Leaving), outside := outside ?s1\<rparr>"
  have 2: "cache_step ?s1 ?s2" using cache_step.put_locked [of ?s1 1 7 c None] c(1) by simp
  have s: "cache_step\<^sup>*\<^sup>* ?s ?s2" using 1 2 by (meson converse_rtranclp_into_rtranclp r_into_rtranclp)
  with cache_threads_safe [OF s inv] all c(2) show ?thesis by (intro exI [of _ ?s] exI [of _ ?s2]) simp
qed

text \<open>
  Putting an object into a cache that is not in use hands it over unless the cache
  is full, in which case the caller keeps it; the object put last is the one the next get returns, which
  restores the cache.
\<close>

theorem cache_put_get:
  assumes inv: "cache_inv c" "\<not> in_use c" and x: "element_type_correct (Some c) (Some x)"
  shows "\<exists>c'. ov_registered_cache_put (Some c) (Some x) =
      Some (Some c', if length (cached c) = cache_capacity c then Some x else None) \<and> cache_inv c' \<and> \<not> in_use c' \<and>
    (if length (cached c) = cache_capacity c then cached c' = cached c
     else cached c' = x # cached c \<and>
       (\<exists>c''. ov_registered_cache_get (Some c') = Some (Some c'', Some x) \<and> cache_inv c'' \<and> cached c'' = cached c))"
proof -
  let ?c1 = "c\<lparr>put_called := put_called c + 1, in_use := True\<rparr>"
  have i1: "cache_inv ?c1" "element_type_correct (Some ?c1) (Some x)" using inv x by auto
  have k1: "cached ?c1 = cached c" "cache_capacity ?c1 = cache_capacity c" by simp_all
  obtain c2 where c2': "locked_cache_put ?c1 (Some x) = (c2, if length (cached ?c1) = cache_capacity ?c1 then Some x else None)"
    "cache_inv c2" "cached c2 = (if length (cached ?c1) = cache_capacity ?c1 then cached ?c1 else x # cached ?c1)"
    by (rule locked_put [OF i1])
  note c2 = c2' [unfolded k1]
  let ?c' = "c2\<lparr>in_use := False\<rparr>"
  have put: "ov_registered_cache_put (Some c) (Some x) =
      Some (Some ?c', if length (cached c) = cache_capacity c then Some x else None)"
    using c2(1) inv x by (simp add: ov_registered_cache_put_def)
  let ?c3 = "?c'\<lparr>get_called := get_called ?c' + 1, in_use := True\<rparr>"
  have i3: "cache_inv ?c3" using c2(2) by simp
  have k3: "cached ?c3 = cached c2" by simp
  obtain c4 where c4': "locked_cache_get ?c3 = Some (c4, case cached ?c3 of [] \<Rightarrow> None | y # _ \<Rightarrow> Some y)" "cache_inv c4"
    "cached c4 = tl (cached ?c3)"
    by (rule locked_get [OF i3])
  note c4 = c4' [unfolded k3]
  then have "ov_registered_cache_get (Some ?c') =
      Some (Some (c4\<lparr>in_use := False\<rparr>), case cached c2 of [] \<Rightarrow> None | y # _ \<Rightarrow> Some y)"
    by (simp add: ov_registered_cache_get_def)
  with put c2 c4 show ?thesis by (intro exI [of _ ?c']) auto
qed

theorem cache_put_get_witness:
  "\<exists>c'. ov_registered_cache_put (Some (cache_create 2)) (Some (7 :: nat)) = Some (Some c', None) \<and> cached c' = [7]"
proof -
  let ?c = "cache_create 2 :: nat ov_registered_cache"
  have "cache_inv ?c" "\<not> in_use ?c" "element_type_correct (Some ?c) (Some 7)" "cache_capacity ?c = 2"
    by (simp_all add: cache_create_inv) (simp_all add: cache_create_def element_type_correct_def)
  from cache_put_get [OF this(1-3)] this(4) show ?thesis by (auto simp: cache_create_inv)
qed

end
