(* ===== verification/Ov_Ringbuffer.thy ===== *)
theory Ov_Ringbuffer
  imports Ov_Cache
begin

text \<open>
  The ring buffer, \<open>ov_base/src/ringbuffer/ov_ringbuffer.c\<close>: a bounded queue that drops its
  oldest element when it overflows, and the reuse of buffers by a cache.

  A slot that holds the NULL pointer is \<open>None\<close>. \<open>free_element\<close> names the function of the user
  (\<open>None\<close>: the dummy function); its calls are logged in \<open>freed\<close>. An operation returns \<open>None\<close> if one of
  its assertions fails, which stops the process. Indices are bounded by the capacity
  and do not overflow.
\<close>

record ov_ringbuffer_statistics =
  elements_inserted :: u64
  elements_dropped :: u64

record ('a, 'f, 'c) internal_ringbuffer =
  rb_capacity :: nat
  rb_read :: nat
  rb_write :: nat
  content :: "'a option list"
  additional_arg :: 'c
  free_element :: "'f option"
  statistics :: ov_ringbuffer_statistics
  freed :: "('f \<times> 'c \<times> 'a) list"

subsection \<open>Internal operations\<close>

definition drop_element_nocheck ::
  "('a, 'f, 'c) internal_ringbuffer \<Rightarrow> nat \<Rightarrow> ('a, 'f, 'c) internal_ringbuffer option" where
  "drop_element_nocheck rb index =
    (if \<not> index < rb_capacity rb \<or> \<not> 1 < rb_capacity rb then None
     else case content rb ! index of
            None \<Rightarrow> Some (rb\<lparr>content := (content rb)[index := None]\<rparr>)
          | Some c \<Rightarrow>
              Some (rb\<lparr>freed := freed rb @ (case free_element rb of None \<Rightarrow> [] | Some f \<Rightarrow> [(f, additional_arg rb, c)]),
                       statistics := (statistics rb)\<lparr>elements_dropped := elements_dropped (statistics rb) + 1\<rparr>,
                       content := (content rb)[index := None]\<rparr>))"

definition advance_read :: "('a, 'f, 'c) internal_ringbuffer \<Rightarrow> ('a, 'f, 'c) internal_ringbuffer option" where
  "advance_read rb =
    (if \<not> 1 < rb_capacity rb \<or> content rb ! rb_read rb \<noteq> None then None
     else Some (rb\<lparr>rb_read := (if rb_read rb + 1 \<ge> rb_capacity rb then 0 else rb_read rb + 1)\<rparr>))"

definition advance_write :: "('a, 'f, 'c) internal_ringbuffer \<Rightarrow> ('a, 'f, 'c) internal_ringbuffer option" where
  "advance_write rb =
    (if \<not> 1 < rb_capacity rb then None
     else let rb1 = rb\<lparr>rb_write := (if rb_write rb + 1 \<ge> rb_capacity rb then 0 else rb_write rb + 1)\<rparr>
          in case drop_element_nocheck rb1 (rb_write rb1) of
               None \<Rightarrow> None
             | Some rb2 \<Rightarrow>
                 (case (if rb_write rb2 = rb_read rb2 then advance_read rb2 else Some rb2) of
                    None \<Rightarrow> None
                  | Some rb3 \<Rightarrow> if rb_write rb3 = rb_read rb3 then None else Some rb3))"

subsection \<open>Operations\<close>

text \<open>The outer \<open>None\<close> of an operation is a failed assertion; \<open>self\<close> may be NULL.\<close>

definition ringbuffer_pop ::
  "('a, 'f, 'c) internal_ringbuffer option \<Rightarrow> (('a, 'f, 'c) internal_ringbuffer option \<times> 'a option) option" where
  "ringbuffer_pop self =
    (case self of
       None \<Rightarrow> Some (None, None)
     | Some rb \<Rightarrow>
         if rb_read rb = rb_write rb then Some (Some rb, None)
         else (case advance_read (rb\<lparr>content := (content rb)[rb_read rb := None]\<rparr>) of
                 None \<Rightarrow> None
               | Some rb' \<Rightarrow> Some (Some rb', content rb ! rb_read rb)))"

definition ringbuffer_insert ::
  "('a, 'f, 'c) internal_ringbuffer option \<Rightarrow> 'a option \<Rightarrow> (('a, 'f, 'c) internal_ringbuffer option \<times> bool) option" where
  "ringbuffer_insert self element =
    (case self of
       None \<Rightarrow> Some (None, False)
     | Some rb \<Rightarrow>
         if element = None then Some (Some rb, False)
         else if \<not> 1 < rb_capacity rb \<or> content rb ! rb_write rb \<noteq> None then None
         else (case advance_write (rb\<lparr>content := (content rb)[rb_write rb := element]\<rparr>) of
                 None \<Rightarrow> None
               | Some rb' \<Rightarrow>
                   Some (Some (rb'\<lparr>statistics := (statistics rb')
                           \<lparr>elements_inserted := elements_inserted (statistics rb') + 1\<rparr>\<rparr>), True)))"

text \<open>The loop of \<open>ringbuffer_clear\<close>: \<open>n\<close> slots are left, the next one is \<open>i\<close>.\<close>

fun clear_loop ::
  "('a, 'f, 'c) internal_ringbuffer \<Rightarrow> nat \<Rightarrow> nat \<Rightarrow> ('a, 'f, 'c) internal_ringbuffer option" where
  "clear_loop rb i 0 = Some rb"
| "clear_loop rb i (Suc n) =
    (case drop_element_nocheck rb i of None \<Rightarrow> None | Some rb' \<Rightarrow> clear_loop rb' (i + 1) n)"

definition ringbuffer_clear ::
  "('a, 'f, 'c) internal_ringbuffer option \<Rightarrow> (('a, 'f, 'c) internal_ringbuffer option \<times> bool) option" where
  "ringbuffer_clear self =
    (case self of
       None \<Rightarrow> Some (None, False)
     | Some rb \<Rightarrow>
         if \<not> 1 < rb_capacity rb then None
         else (case clear_loop rb 0 (rb_capacity rb) of None \<Rightarrow> None | Some rb' \<Rightarrow> Some (Some rb', True)))"

definition new_buffer_create :: "'c \<Rightarrow> nat \<Rightarrow> ('a, 'f, 'c) internal_ringbuffer option" where
  "new_buffer_create zero_arg capacity =
    (if capacity = 0 then None
     else Some
       \<lparr>rb_capacity = 1 + capacity, rb_read = 0, rb_write = 0, content = replicate (1 + capacity) None,
        additional_arg = zero_arg, free_element = None,
        statistics = \<lparr>elements_inserted = 0, elements_dropped = 0\<rparr>, freed = []\<rparr>)"

definition ov_ringbuffer_create ::
  "('a, 'f, 'c) internal_ringbuffer ov_registered_cache option \<Rightarrow> nat \<Rightarrow> 'f option \<Rightarrow> 'c \<Rightarrow>
   (('a, 'f, 'c) internal_ringbuffer ov_registered_cache option \<times> ('a, 'f, 'c) internal_ringbuffer option) option" where
  "ov_ringbuffer_create g_cache capacity fe arg =
    (case ov_registered_cache_get g_cache of
       None \<Rightarrow> None
     | Some (g_cache', buffer0) \<Rightarrow>
         (case (if buffer0 = None then new_buffer_create arg capacity else buffer0) of
            None \<Rightarrow> Some (g_cache', None)
          | Some buffer \<Rightarrow>
              let b1 = (if capacity + 1 > rb_capacity buffer
                        then buffer\<lparr>rb_capacity := 1 + capacity, content := replicate (1 + capacity) None, free_element := None\<rparr>
                        else buffer);
                  b2 = b1\<lparr>additional_arg := arg\<rparr>
              in Some (g_cache', Some (if fe \<noteq> None then b2\<lparr>free_element := fe\<rparr> else b2))))"

definition ringbuffer_capacity :: "('a, 'f, 'c) internal_ringbuffer option \<Rightarrow> nat option" where
  "ringbuffer_capacity self =
    (case self of None \<Rightarrow> Some 0 | Some rb \<Rightarrow> if \<not> 1 < rb_capacity rb then None else Some (rb_capacity rb - 1))"

text \<open>
  The cache after \<open>ringbuffer_free\<close>, and the buffer whose memory is freed because the cache does not
  take it. The function itself returns NULL.
\<close>

definition ringbuffer_free ::
  "('a, 'f, 'c) internal_ringbuffer ov_registered_cache option \<Rightarrow> ('a, 'f, 'c) internal_ringbuffer option \<Rightarrow>
   (('a, 'f, 'c) internal_ringbuffer ov_registered_cache option \<times> ('a, 'f, 'c) internal_ringbuffer option) option" where
  "ringbuffer_free g_cache self =
    (case ringbuffer_clear self of
       None \<Rightarrow> None
     | Some (self', ok) \<Rightarrow> if \<not> ok then Some (g_cache, None) else ov_registered_cache_put g_cache self')"

definition ringbuffer_get_statistics :: "('a, 'f, 'c) internal_ringbuffer option \<Rightarrow> ov_ringbuffer_statistics" where
  "ringbuffer_get_statistics self =
    (case self of None \<Rightarrow> \<lparr>elements_inserted = 0, elements_dropped = 0\<rparr> | Some rb \<Rightarrow> statistics rb)"

definition ov_ringbuffer_insert ::
  "('a, 'f, 'c) internal_ringbuffer option \<Rightarrow> 'a option \<Rightarrow> (('a, 'f, 'c) internal_ringbuffer option \<times> bool) option" where
  "ov_ringbuffer_insert self element = (if self = None then Some (None, False) else ringbuffer_insert self element)"

definition ov_ringbuffer_pop ::
  "('a, 'f, 'c) internal_ringbuffer option \<Rightarrow> (('a, 'f, 'c) internal_ringbuffer option \<times> 'a option) option" where
  "ov_ringbuffer_pop self = (if self = None then Some (None, None) else ringbuffer_pop self)"

subsection \<open>The buffer as a queue\<close>

text \<open>
  Seen from the read index, the slots are the queue, followed by empty slots. \<open>rb_used\<close> is the
  number of slots between the indices. A queue may have holes: \<open>ringbuffer_clear\<close> empties the slots and
  leaves the indices alone.
\<close>

definition rb_used :: "('a, 'f, 'c) internal_ringbuffer \<Rightarrow> nat" where
  "rb_used rb = (if rb_read rb \<le> rb_write rb then rb_write rb - rb_read rb else rb_capacity rb + rb_write rb - rb_read rb)"

definition queue :: "('a, 'f, 'c) internal_ringbuffer \<Rightarrow> 'a option list" where
  "queue rb = take (rb_used rb) (rotate (rb_read rb) (content rb))"

definition rb_inv :: "('a, 'f, 'c) internal_ringbuffer \<Rightarrow> bool" where
  "rb_inv rb \<longleftrightarrow> 1 < rb_capacity rb \<and> length (content rb) = rb_capacity rb \<and>
    rb_read rb < rb_capacity rb \<and> rb_write rb < rb_capacity rb \<and>
    rotate (rb_read rb) (content rb) = queue rb @ replicate (rb_capacity rb - rb_used rb) None"

lemma rb_used_less: "rb_inv rb \<Longrightarrow> rb_used rb < rb_capacity rb"
  by (auto simp: rb_inv_def rb_used_def)

lemma length_queue: "rb_inv rb \<Longrightarrow> length (queue rb) = rb_used rb"
  using rb_used_less [of rb] by (simp add: queue_def rb_inv_def)

lemma rb_invD:
  assumes "rb_inv rb"
  shows "1 < rb_capacity rb" "length (content rb) = rb_capacity rb" "rb_read rb < rb_capacity rb" "rb_write rb < rb_capacity rb"
    "rotate (rb_read rb) (content rb) = queue rb @ replicate (rb_capacity rb - length (queue rb)) None"
    "length (queue rb) < rb_capacity rb"
  using assms rb_used_less [OF assms] unfolding length_queue [OF assms] rb_inv_def by blast+

text \<open>The invariant in the form the operations establish it.\<close>

lemma rb_invI:
  assumes "1 < rb_capacity rb" "length (content rb) = rb_capacity rb" "rb_read rb < rb_capacity rb"
    and q: "rotate (rb_read rb) (content rb) = q @ replicate (rb_capacity rb - length q) None"
    and len: "length q < rb_capacity rb" and w: "rb_write rb = (rb_read rb + length q) mod rb_capacity rb"
  shows "rb_inv rb" "queue rb = q"
proof -
  have "rb_used rb = length q"
  proof (cases "rb_read rb + length q < rb_capacity rb")
    case True
    then show ?thesis using w by (simp add: rb_used_def)
  next
    case False
    then have "rb_write rb = rb_read rb + length q - rb_capacity rb"
      using w assms(3) len by (simp add: mod_if)
    then show ?thesis using False len assms(3) by (auto simp: rb_used_def)
  qed
  moreover from this show "queue rb = q" using q by (simp add: queue_def)
  ultimately show "rb_inv rb" using assms by (simp add: rb_inv_def)
qed

lemma rb_write_mod:
  assumes "rb_inv rb" shows "rb_write rb = (rb_read rb + length (queue rb)) mod rb_capacity rb"
proof (cases "rb_read rb \<le> rb_write rb")
  case True
  then have "rb_read rb + length (queue rb) = rb_write rb" using length_queue [OF assms] by (simp add: rb_used_def)
  then show ?thesis using assms by (simp add: rb_inv_def)
next
  case False
  then have "rb_read rb + length (queue rb) = rb_capacity rb + rb_write rb"
    using length_queue [OF assms] assms by (simp add: rb_used_def rb_inv_def)
  then show ?thesis using assms by (simp add: rb_inv_def)
qed

lemma add_mod_inj:
  assumes "i < m" "k < (m :: nat)" "(n + i) mod m = (n + k) mod m"
  shows "i = k"
proof -
  have "a = b" if ab: "a \<le> b" "b < m" "(n + b) mod m = (n + a) mod m" for a b
  proof -
    have "m dvd b - a" using mod_eq_dvd_iff_nat [of "n + a" "n + b" m] ab by simp
    then show ?thesis using ab by (auto dest: dvd_imp_le)
  qed
  then show ?thesis using assms by (metis nat_le_linear)
qed

lemma rotate_update:
  assumes "k < length xs"
  shows "rotate n (xs[(n + k) mod length xs := x]) = (rotate n xs)[k := x]"
proof (rule nth_equalityI)
  fix i assume "i < length (rotate n (xs[(n + k) mod length xs := x]))"
  then have i: "i < length xs" by simp
  then have "(n + i) mod length xs < length xs" by (intro mod_less_divisor) auto
  moreover have "(n + k) mod length xs \<noteq> (n + i) mod length xs" if "i \<noteq> k" using add_mod_inj [OF i assms] that by metis
  ultimately show "rotate n (xs[(n + k) mod length xs := x]) ! i = (rotate n xs)[k := x] ! i"
    using i assms by (cases "i = k") (simp_all add: nth_rotate)
qed simp

text \<open>The slot of index \<open>k\<close> of the queue.\<close>

lemma rb_slot:
  assumes "rb_inv rb" "k < rb_capacity rb"
  shows "content rb ! ((rb_read rb + k) mod rb_capacity rb) = (queue rb @ replicate (rb_capacity rb - rb_used rb) None) ! k"
  using assms nth_rotate [of k "content rb" "rb_read rb"] by (simp add: rb_inv_def)

lemma step_mod: "i < c \<Longrightarrow> (if i + 1 \<ge> c then 0 else i + 1) = (i + 1) mod (c :: nat)"
  by (auto simp: mod_if)

text \<open>Moving the read index over an empty slot takes the head off the queue.\<close>

lemma rb_advance_read_eq:
  assumes c: "1 < rb_capacity rb" "length (content rb) = rb_capacity rb" "rb_read rb < rb_capacity rb"
    and rot: "rotate (rb_read rb) (content rb) = None # q @ replicate (rb_capacity rb - Suc (length q)) None"
    and len: "Suc (length q) \<le> rb_capacity rb" and w: "rb_write rb = (rb_read rb + Suc (length q)) mod rb_capacity rb"
  obtains rb' where "advance_read rb = Some rb'" "rb_inv rb'" "queue rb' = q" "statistics rb' = statistics rb"
    "freed rb' = freed rb" "rb_capacity rb' = rb_capacity rb" "free_element rb' = free_element rb" "additional_arg rb' = additional_arg rb"
    "rb_write rb' = rb_write rb"
proof -
  let ?rb = "rb\<lparr>rb_read := (rb_read rb + 1) mod rb_capacity rb\<rparr>"
  have "content rb ! rb_read rb = rotate (rb_read rb) (content rb) ! 0"
    using c by (simp add: nth_rotate)
  then have "content rb ! rb_read rb = None" using rot by simp
  then have adv: "advance_read rb = Some ?rb" using c step_mod [OF c(3)] by (simp add: advance_read_def)
  have "rotate ((rb_read rb + 1) mod rb_capacity rb) (content rb) = rotate (Suc (rb_read rb)) (content rb)"
    using c(2) rotate_conv_mod [of "rb_read rb + 1" "content rb"] by simp
  also have "\<dots> = rotate1 (None # q @ replicate (rb_capacity rb - Suc (length q)) None)" using rot by simp
  also have "\<dots> = q @ replicate (rb_capacity rb - length q) None"
    using len by (simp add: replicate_append_same Suc_diff_Suc flip: replicate_Suc)
  finally have rot': "rotate (rb_read ?rb) (content ?rb) = q @ replicate (rb_capacity ?rb - length q) None" by simp
  have w': "rb_write ?rb = (rb_read ?rb + length q) mod rb_capacity ?rb"
    using w by (simp add: mod_add_left_eq)
  have "rb_inv ?rb" "queue ?rb = q" by (rule rb_invI [OF _ _ _ rot' _ w']; use c len in simp)+
  with adv show thesis by (intro that [of ?rb]) simp_all
qed

lemma rb_drop_element_eq:
  assumes "index < rb_capacity rb" "1 < rb_capacity rb"
  obtains rb' where "drop_element_nocheck rb index = Some rb'" "content rb' = (content rb)[index := None]"
    "rb_capacity rb' = rb_capacity rb" "rb_read rb' = rb_read rb" "rb_write rb' = rb_write rb"
    "free_element rb' = free_element rb" "additional_arg rb' = additional_arg rb"
    "elements_inserted (statistics rb') = elements_inserted (statistics rb)"
    "elements_dropped (statistics rb') = elements_dropped (statistics rb) + (if content rb ! index = None then 0 else 1)"
    "freed rb' = freed rb @ (case (free_element rb, content rb ! index) of (Some f, Some c) \<Rightarrow> [(f, additional_arg rb, c)] | _ \<Rightarrow> [])"
proof (cases "content rb ! index")
  case None
  with assms show thesis by (intro that [of "rb\<lparr>content := (content rb)[index := None]\<rparr>"]) (auto simp: drop_element_nocheck_def split: option.split)
next
  case (Some c)
  with assms show thesis
    by (intro that [of "rb\<lparr>freed := freed rb @ (case free_element rb of None \<Rightarrow> [] | Some f \<Rightarrow> [(f, additional_arg rb, c)]),
                       statistics := (statistics rb)\<lparr>elements_dropped := elements_dropped (statistics rb) + 1\<rparr>,
                       content := (content rb)[index := None]\<rparr>"])
      (auto simp: drop_element_nocheck_def split: option.split)
qed

text \<open>What an operation that drops the elements \<open>xs\<close> (empty slots included) does to the rest of the buffer.\<close>

definition dropped :: "('a, 'f, 'c) internal_ringbuffer \<Rightarrow> 'a option list \<Rightarrow> ('a, 'f, 'c) internal_ringbuffer \<Rightarrow> bool" where
  "dropped rb xs rb' \<longleftrightarrow> rb_capacity rb' = rb_capacity rb \<and> free_element rb' = free_element rb \<and>
    additional_arg rb' = additional_arg rb \<and>
    freed rb' = freed rb @ (case free_element rb of None \<Rightarrow> []
      | Some f \<Rightarrow> map (\<lambda>x. (f, additional_arg rb, x)) (List.map_filter (\<lambda>x. x) xs)) \<and>
    elements_dropped (statistics rb') = elements_dropped (statistics rb) + of_nat (length (List.map_filter (\<lambda>x. x) xs))"

lemma read_write_eq:
  assumes "rb_inv rb" shows "rb_read rb = rb_write rb \<longleftrightarrow> queue rb = []"
proof
  assume "rb_read rb = rb_write rb"
  with rb_write_mod [OF assms] rb_invD [OF assms]
  have "(rb_read rb + 0) mod rb_capacity rb = (rb_read rb + length (queue rb)) mod rb_capacity rb" by simp
  with add_mod_inj [of 0 "rb_capacity rb" "length (queue rb)" "rb_read rb"] rb_invD [OF assms] show "queue rb = []" by simp
qed (use rb_write_mod [OF assms] rb_invD [OF assms] in simp)

lemma rb_pop_eq:
  assumes inv: "rb_inv rb" and q: "queue rb = h # t"
  obtains rb' where "ringbuffer_pop (Some rb) = Some (Some rb', h)" "rb_inv rb'" "queue rb' = t" "dropped rb [] rb'"
    "elements_inserted (statistics rb') = elements_inserted (statistics rb)"
proof -
  let ?c = "rb_capacity rb" and ?r = "rb_read rb"
  note i = rb_invD [OF inv] and w = rb_write_mod [OF inv]
  have ne: "?r \<noteq> rb_write rb" using read_write_eq [OF inv] q by simp
  have h: "content rb ! ?r = h" using rb_slot [OF inv, of 0] i q by simp
  have rot: "rotate ?r ((content rb)[?r := None]) = None # t @ replicate (?c - Suc (length t)) None"
    using rotate_update [of 0 "content rb" ?r None] i(1-3,5) q by simp
  obtain rb' where "advance_read (rb\<lparr>content := (content rb)[?r := None]\<rparr>) = Some rb'" "rb_inv rb'" "queue rb' = t"
    "statistics rb' = statistics rb" "freed rb' = freed rb" "rb_capacity rb' = ?c" "free_element rb' = free_element rb"
    "additional_arg rb' = additional_arg rb"
    by (rule rb_advance_read_eq [of "rb\<lparr>content := (content rb)[?r := None]\<rparr>" t]) (use i q rot w in simp_all)
  with ne h show thesis
    by (intro that [of rb']) (simp_all add: ringbuffer_pop_def dropped_def List.map_filter_def split: option.split)
qed

lemma rb_pop_empty:
  assumes inv: "rb_inv rb" and q: "queue rb = []"
  shows "ringbuffer_pop (Some rb) = Some (Some rb, None)"
  using rb_write_mod [OF inv] q inv by (simp add: ringbuffer_pop_def rb_inv_def)

text \<open>The slot the next element goes into is empty.\<close>

lemma rb_write_slot:
  assumes inv: "rb_inv rb"
  shows "content rb ! rb_write rb = None"
    "rotate (rb_read rb) ((content rb)[rb_write rb := Some x]) =
      queue rb @ Some x # replicate (rb_capacity rb - Suc (length (queue rb))) None"
proof -
  note i = rb_invD [OF inv] and w = rb_write_mod [OF inv]
  show "content rb ! rb_write rb = None"
    using rb_slot [OF inv i(6)] i(6) unfolding w by (simp add: nth_append length_queue [OF inv])
  have "rotate (rb_read rb) ((content rb)[rb_write rb := Some x]) =
      (queue rb @ replicate (rb_capacity rb - length (queue rb)) None)[length (queue rb) := Some x]"
    using rotate_update [of "length (queue rb)" "content rb" "rb_read rb" "Some x"] i(2,5,6) unfolding w by simp
  also have "rb_capacity rb - length (queue rb) = Suc (rb_capacity rb - Suc (length (queue rb)))" using i(6) by simp
  finally show "rotate (rb_read rb) ((content rb)[rb_write rb := Some x]) =
      queue rb @ Some x # replicate (rb_capacity rb - Suc (length (queue rb))) None"
    by (simp only: replicate_Suc list_update_length)
qed

definition rb_full :: "('a, 'f, 'c) internal_ringbuffer \<Rightarrow> bool" where
  "rb_full rb \<longleftrightarrow> Suc (length (queue rb)) = rb_capacity rb"

lemma advance_write_mod:
  assumes "rb_write rb < rb_capacity rb" "1 < rb_capacity rb"
  shows "advance_write rb =
    (case drop_element_nocheck (rb\<lparr>rb_write := (rb_write rb + 1) mod rb_capacity rb\<rparr>) ((rb_write rb + 1) mod rb_capacity rb) of
       None \<Rightarrow> None
     | Some rb2 \<Rightarrow>
         (case (if rb_write rb2 = rb_read rb2 then advance_read rb2 else Some rb2) of
            None \<Rightarrow> None
          | Some rb3 \<Rightarrow> if rb_write rb3 = rb_read rb3 then None else Some rb3))"
  using assms(2) unfolding advance_write_def step_mod [OF assms(1)] by simp

lemma advance_write_room:
  assumes inv: "rb_inv rb" and room: "\<not> rb_full rb"
  obtains rb' where "advance_write (rb\<lparr>content := (content rb)[rb_write rb := Some x]\<rparr>) = Some rb'" "rb_inv rb'"
    "queue rb' = queue rb @ [Some x]" "dropped rb [] rb'" "elements_inserted (statistics rb') = elements_inserted (statistics rb)"
proof -
  note i = rb_invD [OF inv] and w = rb_write_mod [OF inv] and ws = rb_write_slot(2) [OF inv, of x]
  let ?c = "rb_capacity rb" and ?q = "queue rb @ [Some x]"
  have len: "Suc (length (queue rb)) < ?c" using room i(6) by (simp add: rb_full_def)
  let ?w = "(rb_write rb + 1) mod ?c"
  let ?rb1 = "rb\<lparr>content := (content rb)[rb_write rb := Some x], rb_write := ?w\<rparr>"
  have wq: "?w = (rb_read rb + length ?q) mod ?c" using w by (simp add: mod_Suc_eq)
  have rot: "rotate (rb_read ?rb1) (content ?rb1) = ?q @ replicate (rb_capacity ?rb1 - length ?q) None" using ws by simp
  have inv1: "rb_inv ?rb1" "queue ?rb1 = ?q"
    by (rule rb_invI [OF _ _ _ rot]; use i len wq in simp)+
  have none: "content ?rb1 ! ?w = None" using rb_write_slot(1) [OF inv1(1)] by simp
  have "?w < ?c" using i(1) by simp
  then have drop: "drop_element_nocheck ?rb1 ?w = Some ?rb1"
    using i(1) none list_update_id [of "content ?rb1" ?w] by (simp add: drop_element_nocheck_def)
  have "rb_read rb \<noteq> ?w" using read_write_eq [OF inv1(1)] inv1(2) by simp
  then have "advance_write (rb\<lparr>content := (content rb)[rb_write rb := Some x]\<rparr>) = Some ?rb1"
    using drop i(1,4) by (simp add: advance_write_mod)
  with inv1 show thesis by (intro that [of ?rb1]) (simp_all add: dropped_def List.map_filter_def split: option.split)
qed

lemma advance_write_full:
  assumes inv: "rb_inv rb" and full: "rb_full rb"
  obtains rb' where "advance_write (rb\<lparr>content := (content rb)[rb_write rb := Some x]\<rparr>) = Some rb'" "rb_inv rb'"
    "queue rb' = tl (queue rb) @ [Some x]" "dropped rb [hd (queue rb)] rb'"
    "elements_inserted (statistics rb') = elements_inserted (statistics rb)"
proof -
  note i = rb_invD [OF inv] and w = rb_write_mod [OF inv] and ws = rb_write_slot(2) [OF inv, of x]
  let ?c = "rb_capacity rb" and ?r = "rb_read rb" and ?q = "tl (queue rb) @ [Some x]"
  obtain h t where q: "queue rb = h # t" using full i(1) by (cases "queue rb") (auto simp: rb_full_def)
  have len: "Suc (Suc (length t)) = ?c" using full q by (simp add: rb_full_def)
  have wr: "(rb_write rb + 1) mod ?c = ?r"
  proof -
    have "(rb_write rb + 1) mod ?c = (?r + length (queue rb) + 1) mod ?c" unfolding w by (simp add: mod_Suc_eq)
    also have "?r + length (queue rb) + 1 = ?r + ?c" using q len by simp
    finally show ?thesis using i(3) by simp
  qed
  let ?rb1 = "rb\<lparr>content := (content rb)[rb_write rb := Some x], rb_write := ?r\<rparr>"
  have rot1: "rotate ?r (content ?rb1) = h # t @ [Some x]" using ws q len by simp
  have h: "content ?rb1 ! ?r = h"
    using nth_rotate [of 0 "content ?rb1" ?r] rot1 i by simp
  have p: "?r < rb_capacity ?rb1" "1 < rb_capacity ?rb1" using i by simp_all
  obtain rb2 where rb2': "drop_element_nocheck ?rb1 ?r = Some rb2" "content rb2 = (content ?rb1)[?r := None]"
    "rb_capacity rb2 = rb_capacity ?rb1" "rb_read rb2 = rb_read ?rb1" "rb_write rb2 = rb_write ?rb1"
    "free_element rb2 = free_element ?rb1" "additional_arg rb2 = additional_arg ?rb1"
    "elements_inserted (statistics rb2) = elements_inserted (statistics ?rb1)"
    "elements_dropped (statistics rb2) = elements_dropped (statistics ?rb1) + (if content ?rb1 ! ?r = None then 0 else 1)"
    "freed rb2 = freed ?rb1 @ (case (free_element ?rb1, content ?rb1 ! ?r) of (Some f, Some c) \<Rightarrow> [(f, additional_arg ?rb1, c)] | _ \<Rightarrow> [])"
    by (rule rb_drop_element_eq [OF p])
  note rb2 = rb2' [unfolded h, simplified]
  have rot2: "rotate ?r (content rb2) = None # t @ [Some x]"
    using rotate_update [of 0 "content ?rb1" ?r None] rot1 i(1-3) unfolding rb2(2) by simp
  obtain rb3 where rb3: "advance_read rb2 = Some rb3" "rb_inv rb3" "queue rb3 = ?q" "statistics rb3 = statistics rb2"
    "freed rb3 = freed rb2" "rb_capacity rb3 = ?c" "free_element rb3 = free_element rb" "additional_arg rb3 = additional_arg rb"
    by (rule rb_advance_read_eq [of rb2 ?q]) (use i rb2 rot2 q len in simp_all)
  have "rb_write rb3 \<noteq> rb_read rb3" using read_write_eq [OF rb3(2)] rb3(3) by simp
  then show thesis
    using rb2 rb3 i(1,4) q wr
    by (intro that [of rb3]) (simp_all add: advance_write_mod dropped_def List.map_filter_def split: option.split)
qed

lemma rb_inv_statistics [simp]:
  "rb_inv (rb\<lparr>statistics := st\<rparr>) = rb_inv rb" "queue (rb\<lparr>statistics := st\<rparr>) = queue rb"
  by (simp_all add: rb_inv_def queue_def rb_used_def)

lemma rb_insert_eq:
  assumes inv: "rb_inv rb"
  obtains rb' where "ringbuffer_insert (Some rb) (Some x) = Some (Some rb', True)" "rb_inv rb'"
    "queue rb' = (if rb_full rb then tl (queue rb) else queue rb) @ [Some x]"
    "dropped rb (if rb_full rb then [hd (queue rb)] else []) rb'"
    "elements_inserted (statistics rb') = elements_inserted (statistics rb) + 1"
proof -
  have "\<exists>rb1. advance_write (rb\<lparr>content := (content rb)[rb_write rb := Some x]\<rparr>) = Some rb1 \<and> rb_inv rb1 \<and>
    queue rb1 = (if rb_full rb then tl (queue rb) else queue rb) @ [Some x] \<and>
    dropped rb (if rb_full rb then [hd (queue rb)] else []) rb1 \<and>
    elements_inserted (statistics rb1) = elements_inserted (statistics rb)"
  proof (cases "rb_full rb")
    case True
    show ?thesis by (rule advance_write_full [OF inv True, of x]) (simp add: True)
  next
    case False
    show ?thesis by (rule advance_write_room [OF inv False, of x]) (simp add: False)
  qed
  then obtain rb1 where rb1: "advance_write (rb\<lparr>content := (content rb)[rb_write rb := Some x]\<rparr>) = Some rb1" "rb_inv rb1"
    "queue rb1 = (if rb_full rb then tl (queue rb) else queue rb) @ [Some x]"
    "dropped rb (if rb_full rb then [hd (queue rb)] else []) rb1"
    "elements_inserted (statistics rb1) = elements_inserted (statistics rb)" by blast
  let ?rb = "rb1\<lparr>statistics := (statistics rb1)\<lparr>elements_inserted := elements_inserted (statistics rb1) + 1\<rparr>\<rparr>"
  have "ringbuffer_insert (Some rb) (Some x) = Some (Some ?rb, True)"
    using rb1(1) rb_write_slot(1) [OF inv] rb_invD(1) [OF inv] by (simp add: ringbuffer_insert_def)
  then show thesis using rb1(2-5) by (intro that [of ?rb]) (simp_all add: dropped_def)
qed

lemma rb_dropped_Cons:
  assumes "dropped rb [x] rb1" "dropped rb1 xs rb'" shows "dropped rb (x # xs) rb'"
  using assms by (cases x) (auto simp: dropped_def List.map_filter_def split: option.splits)

lemma clear_loop_eq:
  assumes "1 < rb_capacity rb" "length (content rb) = rb_capacity rb" "i + n = rb_capacity rb"
  shows "\<exists>rb'. clear_loop rb i n = Some rb' \<and> content rb' = take i (content rb) @ replicate n None \<and>
    rb_read rb' = rb_read rb \<and> rb_write rb' = rb_write rb \<and> dropped rb (drop i (content rb)) rb' \<and>
    elements_inserted (statistics rb') = elements_inserted (statistics rb)"
  using assms
proof (induction n arbitrary: rb i)
  case 0
  then show ?case by (simp add: dropped_def List.map_filter_def split: option.split)
next
  case (Suc n)
  have i: "i < rb_capacity rb" using Suc.prems by simp
  obtain rb1 where rb1: "drop_element_nocheck rb i = Some rb1" "content rb1 = (content rb)[i := None]"
    "rb_capacity rb1 = rb_capacity rb" "rb_read rb1 = rb_read rb" "rb_write rb1 = rb_write rb"
    "free_element rb1 = free_element rb" "additional_arg rb1 = additional_arg rb"
    "elements_inserted (statistics rb1) = elements_inserted (statistics rb)"
    "elements_dropped (statistics rb1) = elements_dropped (statistics rb) + (if content rb ! i = None then 0 else 1)"
    "freed rb1 = freed rb @ (case (free_element rb, content rb ! i) of (Some f, Some c) \<Rightarrow> [(f, additional_arg rb, c)] | _ \<Rightarrow> [])"
    by (rule rb_drop_element_eq [OF i Suc.prems(1)])
  have d1: "dropped rb [content rb ! i] rb1"
    using rb1 by (auto simp: dropped_def List.map_filter_def split: option.split)
  obtain rb' where rb': "clear_loop rb1 (Suc i) n = Some rb'" "content rb' = take (Suc i) (content rb1) @ replicate n None"
    "rb_read rb' = rb_read rb1" "rb_write rb' = rb_write rb1" "dropped rb1 (drop (Suc i) (content rb1)) rb'"
    "elements_inserted (statistics rb') = elements_inserted (statistics rb1)"
    using Suc.IH [of rb1 "Suc i"] Suc.prems rb1(2,3) by auto
  have "content rb ! i # drop (Suc i) (content rb1) = drop i (content rb)"
    using i Suc.prems(2) rb1(2) by (simp add: Cons_nth_drop_Suc)
  then have "dropped rb (drop i (content rb)) rb'" using rb_dropped_Cons [OF d1 rb'(5)] by simp
  moreover have "take (Suc i) (content rb1) = take i (content rb) @ [None]"
    using i Suc.prems(2) rb1(2) by (simp add: take_Suc_conv_app_nth)
  ultimately show ?case using rb1 rb' by simp
qed

lemma rotate_replicate: "rotate n (replicate m a) = replicate m a"
  by (induction n) simp_all

lemma rb_clear_eq:
  assumes inv: "rb_inv rb"
  obtains rb' where "ringbuffer_clear (Some rb) = Some (Some rb', True)" "rb_inv rb'"
    "queue rb' = replicate (length (queue rb)) None" "dropped rb (content rb) rb'"
proof -
  note i = rb_invD [OF inv]
  obtain rb' where rb': "clear_loop rb 0 (rb_capacity rb) = Some rb'" "content rb' = replicate (rb_capacity rb) None"
    "rb_read rb' = rb_read rb" "rb_write rb' = rb_write rb" "dropped rb (content rb) rb'"
    using clear_loop_eq [OF i(1,2), of 0 "rb_capacity rb"] by auto
  have cap: "rb_capacity rb' = rb_capacity rb" using rb'(5) by (simp add: dropped_def)
  let ?q = "replicate (length (queue rb)) None"
  have rot: "rotate (rb_read rb') (content rb') = ?q @ replicate (rb_capacity rb' - length ?q) None"
    using i(6) cap unfolding rb'(2) by (simp add: rotate_replicate flip: replicate_add)
  have "rb_inv rb'" "queue rb' = ?q"
    by (rule rb_invI [OF _ _ _ rot]; use i cap rb' rb_write_mod [OF inv] in simp)+
  with rb' show thesis using i(1) by (intro that [of rb']) (simp_all add: ringbuffer_clear_def)
qed

subsection \<open>Bounded queues\<close>

text \<open>
  The contract of a bounded queue for its clients: an insertion into a full queue drops the
  oldest element, a removal returns the oldest. The results are \<open>None\<close> if an operation does not
  return.
\<close>

fun insert_all :: "('q \<Rightarrow> 'a \<Rightarrow> 'q option) \<Rightarrow> 'q \<Rightarrow> 'a list \<Rightarrow> 'q option" where
  "insert_all ins q [] = Some q"
| "insert_all ins q (x # xs) = (case ins q x of None \<Rightarrow> None | Some q' \<Rightarrow> insert_all ins q' xs)"

fun pop_many :: "('q \<Rightarrow> ('q \<times> 'a option) option) \<Rightarrow> 'q \<Rightarrow> nat \<Rightarrow> 'a option list option" where
  "pop_many pop q 0 = Some []"
| "pop_many pop q (Suc n) =
    (case pop q of None \<Rightarrow> None | Some (q', x) \<Rightarrow> map_option (\<lambda>xs. x # xs) (pop_many pop q' n))"

locale bounded_queue =
  fixes ins :: "'q \<Rightarrow> 'a \<Rightarrow> 'q option"
    and pop :: "'q \<Rightarrow> ('q \<times> 'a option) option"
    and contents :: "'q \<Rightarrow> 'a list"
    and room :: "'q \<Rightarrow> nat"
    and ok :: "'q \<Rightarrow> bool"
  assumes bounded: "ok q \<Longrightarrow> length (contents q) \<le> room q"
    and room_pos: "ok q \<Longrightarrow> 0 < room q"
    and ins_ok: "ok q \<Longrightarrow> \<exists>q'. ins q x = Some q' \<and> ok q' \<and> room q' = room q \<and>
      contents q' = (if length (contents q) = room q then tl (contents q) else contents q) @ [x]"
    and pop_ok: "ok q \<Longrightarrow> \<exists>q'. pop q = Some (q', case contents q of [] \<Rightarrow> None | x # _ \<Rightarrow> Some x) \<and> ok q' \<and>
      room q' = room q \<and> contents q' = tl (contents q)"
begin

lemma insert_all_contents:
  "ok q \<Longrightarrow> \<exists>q'. insert_all ins q xs = Some q' \<and> ok q' \<and> room q' = room q \<and>
    contents q' = drop (length (contents q) + length xs - room q) (contents q @ xs)"
proof (induction xs arbitrary: q)
  case Nil
  then show ?case using bounded by simp
next
  case (Cons x xs)
  obtain q1 where q1: "ins q x = Some q1" "ok q1" "room q1 = room q"
    "contents q1 = (if length (contents q) = room q then tl (contents q) else contents q) @ [x]"
    using ins_ok [OF Cons.prems] by blast
  obtain q' where q': "insert_all ins q1 xs = Some q'" "ok q'" "room q' = room q1"
    "contents q' = drop (length (contents q1) + length xs - room q1) (contents q1 @ xs)"
    using Cons.IH [OF q1(2)] by blast
  have "drop (length (contents q1) + length xs - room q1) (contents q1 @ xs) =
      drop (length (contents q) + length (x # xs) - room q) (contents q @ x # xs)"
  proof (cases "length (contents q) = room q")
    case True
    then obtain h t where ht: "contents q = h # t" using room_pos [OF Cons.prems] by (cases "contents q") auto
    then show ?thesis using True q1(3,4) by (simp add: Suc_diff_le flip: True)
  next
    case False
    then show ?thesis using q1(3,4) by simp
  qed
  with q1 q' show ?case by simp
qed

lemma pop_many_contents:
  "ok q \<Longrightarrow> n \<le> length (contents q) \<Longrightarrow> pop_many pop q n = Some (map Some (take n (contents q)))"
proof (induction n arbitrary: q)
  case (Suc n)
  then obtain x xs where x: "contents q = x # xs" by (cases "contents q") auto
  obtain q' where "pop q = Some (q', Some x)" "ok q'" "contents q' = xs" using pop_ok [OF Suc.prems(1)] x by auto
  with Suc.IH [of q'] Suc.prems x show ?case by simp
qed simp

text \<open>First in, first out; of too many elements the last ones survive.\<close>

lemma fifo:
  assumes "ok q" "contents q = []"
  shows "\<exists>q'. insert_all ins q xs = Some q' \<and>
    pop_many pop q' (min (length xs) (room q)) = Some (map Some (drop (length xs - room q) xs))"
proof -
  obtain q' where q': "insert_all ins q xs = Some q'" "ok q'" "contents q' = drop (length xs - room q) xs"
    using insert_all_contents [OF assms(1), of xs] assms(2) by auto
  have "min (length xs) (room q) = length (contents q')" unfolding q'(3) by simp
  then show ?thesis using pop_many_contents [OF q'(2), of "length (contents q')"] q' by simp
qed

end

text \<open>The ring buffer as a bounded queue, as long as it has no holes.\<close>

definition rb_ins :: "('a, 'f, 'c) internal_ringbuffer \<Rightarrow> 'a \<Rightarrow> ('a, 'f, 'c) internal_ringbuffer option" where
  "rb_ins rb x = (case ov_ringbuffer_insert (Some rb) (Some x) of Some (Some rb', True) \<Rightarrow> Some rb' | _ \<Rightarrow> None)"

definition rb_pop :: "('a, 'f, 'c) internal_ringbuffer \<Rightarrow> (('a, 'f, 'c) internal_ringbuffer \<times> 'a option) option" where
  "rb_pop rb = (case ov_ringbuffer_pop (Some rb) of Some (Some rb', r) \<Rightarrow> Some (rb', r) | _ \<Rightarrow> None)"

definition rb_ok :: "('a, 'f, 'c) internal_ringbuffer \<Rightarrow> bool" where
  "rb_ok rb \<longleftrightarrow> rb_inv rb \<and> None \<notin> set (queue rb)"

interpretation rbq: bounded_queue rb_ins rb_pop "\<lambda>rb. map the (queue rb)" "\<lambda>rb. rb_capacity rb - 1" rb_ok
proof
  fix rb :: "('a, 'f, 'c) internal_ringbuffer" and x :: 'a
  assume ok: "rb_ok rb"
  then have inv: "rb_inv rb" and some: "None \<notin> set (queue rb)" by (auto simp: rb_ok_def)
  note i = rb_invD [OF inv]
  show "length (map the (queue rb)) \<le> rb_capacity rb - 1" "0 < rb_capacity rb - 1" using i by simp_all
  obtain rb' where rb': "ringbuffer_insert (Some rb) (Some x) = Some (Some rb', True)" "rb_inv rb'"
    "queue rb' = (if rb_full rb then tl (queue rb) else queue rb) @ [Some x]"
    "dropped rb (if rb_full rb then [hd (queue rb)] else []) rb'"
    by (rule rb_insert_eq [OF inv])
  have "rb_full rb \<longleftrightarrow> length (map the (queue rb)) = rb_capacity rb - 1" using i by (auto simp: rb_full_def)
  moreover have "None \<notin> set (tl (queue rb))" using some by (cases "queue rb") auto
  ultimately show "\<exists>q'. rb_ins rb x = Some q' \<and> rb_ok q' \<and> rb_capacity q' - 1 = rb_capacity rb - 1 \<and>
    map the (queue q') = (if length (map the (queue rb)) = rb_capacity rb - 1 then tl (map the (queue rb)) else map the (queue rb)) @ [x]"
    using rb' some by (intro exI [of _ rb']) (auto simp: rb_ins_def ov_ringbuffer_insert_def rb_ok_def dropped_def map_tl)
  show "\<exists>q'. rb_pop rb = Some (q', case map the (queue rb) of [] \<Rightarrow> None | x # _ \<Rightarrow> Some x) \<and> rb_ok q' \<and>
    rb_capacity q' - 1 = rb_capacity rb - 1 \<and> map the (queue q') = tl (map the (queue rb))"
  proof (cases "queue rb")
    case Nil
    then show ?thesis using ok rb_pop_empty [OF inv] by (simp add: rb_pop_def ov_ringbuffer_pop_def)
  next
    case (Cons h t)
    obtain rb' where "ringbuffer_pop (Some rb) = Some (Some rb', h)" "rb_inv rb'" "queue rb' = t" "dropped rb [] rb'"
      by (rule rb_pop_eq [OF inv Cons])
    then show ?thesis using Cons some
      by (intro exI [of _ rb']) (auto simp: rb_pop_def ov_ringbuffer_pop_def rb_ok_def dropped_def)
  qed
qed

lemma create_fresh:
  assumes "0 < n"
  obtains rb where "ov_ringbuffer_create None n fe arg = Some (None, Some rb)" "rb_ok rb" "queue rb = []"
    "ringbuffer_capacity (Some rb) = Some n" "free_element rb = fe" "additional_arg rb = arg"
    "statistics rb = \<lparr>elements_inserted = 0, elements_dropped = 0\<rparr>"
proof -
  let ?rb = "\<lparr>rb_capacity = 1 + n, rb_read = 0, rb_write = 0, content = replicate (1 + n) None,
        additional_arg = arg, free_element = fe, statistics = \<lparr>elements_inserted = 0, elements_dropped = 0\<rparr>, freed = []\<rparr>"
  have "rb_inv ?rb" "queue ?rb = []" by (rule rb_invI [where q = "[]"]; use assms in simp)+
  moreover have "ov_ringbuffer_create None n fe arg = Some (None, Some ?rb)"
    using assms by (simp add: ov_ringbuffer_create_def ov_registered_cache_get_def new_buffer_create_def Let_def)
  ultimately show thesis using assms by (intro that [of ?rb]) (simp_all add: rb_ok_def ringbuffer_capacity_def)
qed

subsection \<open>Properties\<close>

text \<open>
  C26: The ring buffer implements a queue of at most \<open>capacity\<close> elements, and none of its
  assertions can fail: an insertion appends the element, and into a full buffer drops the
  oldest one, which is freed and counted; a removal returns the oldest slot and advances. The
  invariant is kept.
\<close>

theorem ringbuffer_refines_queue:
  assumes inv: "rb_inv rb"
  shows "(\<exists>rb'. ov_ringbuffer_insert (Some rb) (Some x) = Some (Some rb', True) \<and> rb_inv rb' \<and>
      queue rb' = (if rb_full rb then tl (queue rb) else queue rb) @ [Some x] \<and>
      dropped rb (if rb_full rb then [hd (queue rb)] else []) rb' \<and>
      elements_inserted (ringbuffer_get_statistics (Some rb')) = elements_inserted (ringbuffer_get_statistics (Some rb)) + 1) \<and>
    (\<exists>rb'. ov_ringbuffer_pop (Some rb) = Some (Some rb', case queue rb of [] \<Rightarrow> None | h # _ \<Rightarrow> h) \<and> rb_inv rb' \<and>
      queue rb' = tl (queue rb) \<and> dropped rb [] rb')"
proof
  show "\<exists>rb'. ov_ringbuffer_insert (Some rb) (Some x) = Some (Some rb', True) \<and> rb_inv rb' \<and>
      queue rb' = (if rb_full rb then tl (queue rb) else queue rb) @ [Some x] \<and>
      dropped rb (if rb_full rb then [hd (queue rb)] else []) rb' \<and>
      elements_inserted (ringbuffer_get_statistics (Some rb')) = elements_inserted (ringbuffer_get_statistics (Some rb)) + 1"
    by (rule rb_insert_eq [OF inv, of x]) (auto simp: ov_ringbuffer_insert_def ringbuffer_get_statistics_def)
  show "\<exists>rb'. ov_ringbuffer_pop (Some rb) = Some (Some rb', case queue rb of [] \<Rightarrow> None | h # _ \<Rightarrow> h) \<and> rb_inv rb' \<and>
      queue rb' = tl (queue rb) \<and> dropped rb [] rb'"
  proof (cases "queue rb")
    case Nil
    then show ?thesis using inv rb_pop_empty [OF inv]
      by (auto simp: ov_ringbuffer_pop_def dropped_def List.map_filter_def split: option.split)
  next
    case (Cons h t)
    show ?thesis by (rule rb_pop_eq [OF inv Cons]) (use Cons in \<open>auto simp: ov_ringbuffer_pop_def\<close>)
  qed
qed

theorem ringbuffer_refines_queue_witness:
  "\<exists>rb rb' :: (nat, unit, unit) internal_ringbuffer. ov_ringbuffer_create None 2 None () = Some (None, Some rb) \<and>
     ov_ringbuffer_insert (Some rb) (Some 5) = Some (Some rb', True) \<and> queue rb' = [Some 5]"
proof -
  obtain rb :: "(nat, unit, unit) internal_ringbuffer" where rb: "ov_ringbuffer_create None 2 None () = Some (None, Some rb)"
    "rb_ok rb" "queue rb = []"
    by (rule create_fresh [of 2]) auto
  then have "rb_inv rb" "\<not> rb_full rb" using rb_invD(1) [of rb] by (auto simp: rb_ok_def rb_full_def)
  with ringbuffer_refines_queue [OF this(1), of 5] rb show ?thesis by auto
qed

text \<open>
  A new buffer of capacity \<open>n\<close> that is filled with a sequence of elements returns them in
  order; if they are more than \<open>n\<close>, it returns the last \<open>n\<close> of them.
\<close>

theorem ringbuffer_fifo:
  fixes xs :: "'a list" and fe :: "'f option" and arg :: 'c
  assumes "0 < n"
  shows "\<exists>rb rb'. ov_ringbuffer_create None n fe arg = Some (None, Some rb) \<and> insert_all rb_ins rb xs = Some rb' \<and>
    pop_many rb_pop rb' (min (length xs) n) = Some (map Some (drop (length xs - n) xs))"
proof -
  obtain rb :: "('a, 'f, 'c) internal_ringbuffer" where
    rb: "ov_ringbuffer_create None n fe arg = Some (None, Some rb)" "rb_ok rb" "queue rb = []"
      "ringbuffer_capacity (Some rb) = Some n"
    by (rule create_fresh [OF assms])
  have "rb_capacity rb - 1 = n" using rb(4) by (simp add: ringbuffer_capacity_def split: if_splits)
  with rbq.fifo [OF rb(2), of xs] rb show ?thesis by auto
qed

theorem ringbuffer_fifo_witness:
  "\<exists>rb rb' :: (nat, unit, unit) internal_ringbuffer. insert_all rb_ins rb [1, 2, 3] = Some rb' \<and>
     pop_many rb_pop rb' 2 = Some [Some 2, Some 3]"
proof -
  have "0 < (2 :: nat)" by simp
  from ringbuffer_fifo [OF this, of None "()" "[1 :: nat, 2, 3]"] show ?thesis by (auto simp: numeral_2_eq_2)
qed

text \<open>
  A buffer that comes out of the cache need not behave like a new one: clearing it does
  not reset its indices, so a buffer that was freed with one element in it returns NULL first, although an
  element was inserted after it was created again.
\<close>

theorem ringbuffer_reused_holes:
  "\<exists>(rb :: (nat, unit, unit) internal_ringbuffer) rb1 rb2 rb3 rb4 c1 c2 c3.
     ov_ringbuffer_create (Some (cache_create 1)) 2 None () = Some (c1, Some rb) \<and>
     ov_ringbuffer_insert (Some rb) (Some 1) = Some (Some rb1, True) \<and>
     ringbuffer_free c1 (Some rb1) = Some (c2, None) \<and>
     ov_ringbuffer_create c2 2 None () = Some (c3, Some rb2) \<and>
     ov_ringbuffer_insert (Some rb2) (Some 2) = Some (Some rb3, True) \<and>
     ov_ringbuffer_pop (Some rb3) = Some (Some rb4, None)"
  by (simp add: ov_ringbuffer_create_def ov_registered_cache_get_def locked_cache_get_def cache_create_def new_buffer_create_def
      ov_ringbuffer_insert_def ringbuffer_insert_def advance_write_def drop_element_nocheck_def ringbuffer_free_def
      ringbuffer_clear_def ov_registered_cache_put_def locked_cache_put_def element_type_correct_def ov_ringbuffer_pop_def
      ringbuffer_pop_def advance_read_def Let_def numeral_eq_Suc)

end
