(* ===== verification/Ov_Stun.thy ===== *)
theory Ov_Stun
  imports Ov_Prelude
begin

text \<open>
  STUN messages (RFC 5389): the frame, \<open>ov_stun/src/ov_stun_frame.c\<close>, and its attributes,
  \<open>ov_stun/src/ov_stun_attribute.c\<close>.

  A buffer is the list of its bytes, \<open>None\<close> for the NULL pointer; the length a function takes
  is the length of the list. A pointer into a buffer is an offset, and where pointers are stored
  in an array, the 64 bit address of that byte. Functions that write return the
  new bytes with the boolean they return.
\<close>

type_synonym buffer = "bytes option"

subsection \<open>Frame\<close>

text \<open>Padding of a position to a multiple of 4 behind \<open>head\<close>; both are addresses.\<close>

definition ov_stun_frame_add_padding :: "nat option \<Rightarrow> nat option \<Rightarrow> nat option \<times> bool" where
  "ov_stun_frame_add_padding head pos =
    (case (head, pos) of
       (Some h, Some p) \<Rightarrow>
         let pad = (p - h) mod 4; pad' = (if pad \<noteq> 0 then 4 - pad else pad) in (Some (p + pad'), True)
     | _ \<Rightarrow> (pos, False))"

definition ov_stun_frame_get_length :: "buffer \<Rightarrow> int" where
  "ov_stun_frame_get_length buffer =
    (case buffer of
       None \<Rightarrow> -1
     | Some bs \<Rightarrow> if length bs < 4 then -1 else uint (ntohs (take 2 (drop 2 bs))))"

definition ov_stun_frame_is_valid :: "buffer \<Rightarrow> bool" where
  "ov_stun_frame_is_valid buffer =
    (case buffer of
       None \<Rightarrow> False
     | Some bs \<Rightarrow>
         if length bs < 20 then False
         else if length bs mod 4 \<noteq> 0 then False
         else if bs ! 0 AND 0x80 \<noteq> 0 \<or> bs ! 0 AND 0x40 \<noteq> 0 then False
         else if bs ! 3 AND 0x01 \<noteq> 0 \<or> bs ! 3 AND 0x02 \<noteq> 0 then False
         else if bs ! 4 \<noteq> 0x21 then False
         else if bs ! 5 \<noteq> 0x12 then False
         else if bs ! 6 \<noteq> 0xA4 then False
         else if bs ! 7 \<noteq> 0x42 then False
         else int (length bs) = 20 + ov_stun_frame_get_length buffer)"

text \<open>\<open>memset (array, 0, n)\<close>: the first \<open>n\<close> bytes of an array of little-endian pointers.\<close>

definition memset0 :: "u64 list \<Rightarrow> nat \<Rightarrow> u64 list" where
  "memset0 array n =
    map (\<lambda>(i, w). if 8 * (i + 1) \<le> n then 0 else if n \<le> 8 * i then w
                   else push_bit (8 * (n - 8 * i)) (drop_bit (8 * (n - 8 * i)) w))
      (zip [0..<length array] array)"

text \<open>
  The loop of \<open>ov_stun_frame_slice\<close>: \<open>opn\<close> bytes are left at offset \<open>ptr\<close> (the variable
  \<open>open\<close>, which is never negative). \<open>base\<close> is the address of the buffer.
\<close>

function slice_loop :: "u64 \<Rightarrow> bytes \<Rightarrow> nat \<Rightarrow> nat \<Rightarrow> nat \<Rightarrow> u64 list \<Rightarrow> u64 list \<times> bool" where
  "slice_loop base bs ptr opn item array =
    (if opn > 0 then
       (let array1 = array[item := base + of_nat ptr]; item1 = item + 1
        in if item1 = length array then (memset0 array1 (length array), False)
           else if opn < 4 then (memset0 array1 (length array), False)
           else let len = unat (ntohs (take 2 (drop (ptr + 2) bs)));
                    pad = (if len mod 4 \<noteq> 0 then 4 - len mod 4 else len mod 4);
                    len1 = len + pad
                in if opn < 4 + len1 then (memset0 array1 (length array), False)
                   else slice_loop base bs (ptr + (4 + len1)) (opn - (4 + len1)) item1 array1)
     else (array, True))"
  by pat_completeness auto
termination
  by (relation "measure (\<lambda>(base, bs, ptr, opn, item, array). opn)") (auto simp: Let_def)

declare slice_loop.simps [simp del]

definition ov_stun_frame_slice :: "u64 \<Rightarrow> buffer \<Rightarrow> u64 list option \<Rightarrow> u64 list option \<times> bool" where
  "ov_stun_frame_slice base buffer array =
    (case buffer of
       Some bs \<Rightarrow>
         if length bs < 20 then (map_option (\<lambda>a. memset0 a (length a)) array, False)
         else (case array of
                 None \<Rightarrow> (None, False)
               | Some a \<Rightarrow>
                   if length a < 1 then (Some (memset0 a (length a)), False)
                   else if ov_stun_frame_get_length buffer \<noteq> int (length bs) - 20 then (Some (memset0 a (length a)), False)
                   else let (a', ok) = slice_loop base bs 20 (nat (ov_stun_frame_get_length buffer)) 0 (memset0 a (length a))
                        in (Some a', ok))
     | None \<Rightarrow> (map_option (\<lambda>a. memset0 a (length a)) array, False))"

definition ov_stun_frame_set_length :: "buffer \<Rightarrow> u16 \<Rightarrow> buffer \<times> bool" where
  "ov_stun_frame_set_length head len =
    (case head of
       None \<Rightarrow> (head, False)
     | Some bs \<Rightarrow> if length bs < 20 then (head, False) else (Some (write_at bs 2 (htons len)), True))"

text \<open>\<open>tid\<close> is NULL or points to 12 bytes. The id is read in place, at offset 8.\<close>

definition ov_stun_frame_set_transaction_id :: "buffer \<Rightarrow> bytes option \<Rightarrow> buffer \<times> bool" where
  "ov_stun_frame_set_transaction_id head tid =
    (case (head, tid) of
       (Some bs, Some t) \<Rightarrow> if length bs < 20 then (head, False) else (Some (write_at bs 8 (take 12 t)), True)
     | _ \<Rightarrow> (head, False))"

definition ov_stun_frame_get_transaction_id :: "buffer \<Rightarrow> nat option" where
  "ov_stun_frame_get_transaction_id head =
    (case head of None \<Rightarrow> None | Some bs \<Rightarrow> if length bs < 20 then None else Some 8)"

definition ov_stun_frame_has_magic_cookie :: "buffer \<Rightarrow> bool" where
  "ov_stun_frame_has_magic_cookie head =
    (case head of
       None \<Rightarrow> False
     | Some bs \<Rightarrow> \<not> length bs < 20 \<and> bs ! 4 = 0x21 \<and> bs ! 5 = 0x12 \<and> bs ! 6 = 0xA4 \<and> bs ! 7 = 0x42)"

definition ov_stun_frame_set_magic_cookie :: "buffer \<Rightarrow> buffer \<times> bool" where
  "ov_stun_frame_set_magic_cookie head =
    (case head of
       None \<Rightarrow> (head, False)
     | Some bs \<Rightarrow>
         if length bs < 20 then (head, False) else (Some (bs[4 := 0x21, 5 := 0x12, 6 := 0xA4, 7 := 0x42]), True))"

subsection \<open>Message type\<close>

definition ov_stun_frame_get_method :: "buffer \<Rightarrow> u16" where
  "ov_stun_frame_get_method head =
    (case head of
       None \<Rightarrow> 0
     | Some bs \<Rightarrow>
         if length bs < 2 then 0
         else let type0 = ucast (bs ! 1 AND 0x0F) :: u16;
                  type1 = type0 + push_bit 4 (ucast (drop_bit 5 (bs ! 1)));
                  type2 = type1 + push_bit 7 (ucast (drop_bit 1 (bs ! 0)))
              in type2)"

definition ov_stun_frame_set_method :: "buffer \<Rightarrow> u16 \<Rightarrow> buffer \<times> bool" where
  "ov_stun_frame_set_method head type =
    (case head of
       None \<Rightarrow> (head, False)
     | Some bs \<Rightarrow>
         if length bs < 20 \<or> type > 0xfff then (head, False)
         else let h1 = bs ! 1 AND 0x10; h0 = bs ! 0 AND 0x01
              in if type \<le> 0x0f then (Some (bs[1 := h1 OR ucast type, 0 := h0]), True)
                 else let h1' = h1 OR ucast (type AND 0x0F);
                          h1'' = h1' OR ucast (push_bit 1 (ucast type :: u32) AND 0xE0);
                          h0' = h0 OR ucast (drop_bit 8 (push_bit 2 (ucast type :: u32)) AND 0x3E)
                      in (Some (bs[1 := h1'', 0 := h0']), True))"

definition class_bits :: "buffer \<Rightarrow> (bool \<times> bool) option" where
  "class_bits head =
    (case head of
       None \<Rightarrow> None
     | Some bs \<Rightarrow> if length bs < 2 then None else Some (bs ! 0 AND 0x01 \<noteq> 0, bs ! 1 AND 0x10 \<noteq> 0))"

definition ov_stun_frame_class_is_request :: "buffer \<Rightarrow> bool" where
  "ov_stun_frame_class_is_request head = (case class_bits head of None \<Rightarrow> False | Some (c1, c0) \<Rightarrow> \<not> c1 \<and> \<not> c0)"

definition ov_stun_frame_class_is_indication :: "buffer \<Rightarrow> bool" where
  "ov_stun_frame_class_is_indication head = (case class_bits head of None \<Rightarrow> False | Some (c1, c0) \<Rightarrow> \<not> c1 \<and> c0)"

definition ov_stun_frame_class_is_success_response :: "buffer \<Rightarrow> bool" where
  "ov_stun_frame_class_is_success_response head = (case class_bits head of None \<Rightarrow> False | Some (c1, c0) \<Rightarrow> c1 \<and> \<not> c0)"

definition ov_stun_frame_class_is_error_response :: "buffer \<Rightarrow> bool" where
  "ov_stun_frame_class_is_error_response head = (case class_bits head of None \<Rightarrow> False | Some (c1, c0) \<Rightarrow> c1 \<and> c0)"

definition ov_stun_frame_set_success_response :: "buffer \<Rightarrow> buffer \<times> bool" where
  "ov_stun_frame_set_success_response head =
    (case head of
       None \<Rightarrow> (head, False)
     | Some bs \<Rightarrow> if length bs < 20 then (head, False) else (Some (bs[0 := bs ! 0 OR 0x01, 1 := bs ! 1 AND 0xEF]), True))"

definition ov_stun_frame_set_error_response :: "buffer \<Rightarrow> buffer \<times> bool" where
  "ov_stun_frame_set_error_response head =
    (case head of
       None \<Rightarrow> (head, False)
     | Some bs \<Rightarrow> if length bs < 20 then (head, False) else (Some (bs[0 := bs ! 0 OR 0x01, 1 := bs ! 1 OR 0x10]), True))"

definition ov_stun_frame_set_request :: "buffer \<Rightarrow> buffer \<times> bool" where
  "ov_stun_frame_set_request head =
    (case head of
       None \<Rightarrow> (head, False)
     | Some bs \<Rightarrow> if length bs < 20 then (head, False) else (Some (bs[0 := bs ! 0 AND 0x3E, 1 := bs ! 1 AND 0xEF]), True))"

definition ov_stun_frame_set_indication :: "buffer \<Rightarrow> buffer \<times> bool" where
  "ov_stun_frame_set_indication head =
    (case head of
       None \<Rightarrow> (head, False)
     | Some bs \<Rightarrow> if length bs < 20 then (head, False) else (Some (bs[0 := bs ! 0 AND 0x3E, 1 := bs ! 1 OR 0x10]), True))"

subsection \<open>Attributes\<close>

definition ov_stun_attribute_get_type :: "buffer \<Rightarrow> u16" where
  "ov_stun_attribute_get_type buffer =
    (case buffer of None \<Rightarrow> 0 | Some bs \<Rightarrow> if length bs < 2 then 0 else ntohs (take 2 bs))"

definition ov_stun_attribute_set_type :: "buffer \<Rightarrow> u16 \<Rightarrow> buffer \<times> bool" where
  "ov_stun_attribute_set_type buffer type =
    (case buffer of
       None \<Rightarrow> (buffer, False)
     | Some bs \<Rightarrow> if length bs < 2 then (buffer, False) else (Some (write_at bs 0 (htons type)), True))"

definition ov_stun_attribute_get_length :: "buffer \<Rightarrow> int" where
  "ov_stun_attribute_get_length buffer =
    (case buffer of
       None \<Rightarrow> -1
     | Some bs \<Rightarrow> if length bs < 4 then -1 else uint (ntohs (take 2 (drop 2 bs))))"

definition ov_stun_attribute_set_length :: "buffer \<Rightarrow> u16 \<Rightarrow> buffer \<times> bool" where
  "ov_stun_attribute_set_length buffer len =
    (case buffer of
       None \<Rightarrow> (buffer, False)
     | Some bs \<Rightarrow> if length bs < 4 then (buffer, False) else (Some (write_at bs 2 (htons len)), True))"

definition pad_of :: "nat \<Rightarrow> nat" where
  "pad_of len = (if len mod 4 \<noteq> 0 then 4 - len mod 4 else len mod 4)"

definition ov_stun_attribute_frame_is_valid :: "buffer \<Rightarrow> bool" where
  "ov_stun_attribute_frame_is_valid buffer =
    (case buffer of
       None \<Rightarrow> False
     | Some bs \<Rightarrow>
         if length bs < 4 then False
         else let len = ov_stun_attribute_get_length buffer
              in if len < 0 then False
                 else \<not> length bs < nat len + (4 + pad_of (nat len)))"

text \<open>The content as its offset (\<open>None\<close>: NULL) and length.\<close>

definition ov_stun_attribute_frame_content :: "buffer \<Rightarrow> (nat option \<times> nat) option" where
  "ov_stun_attribute_frame_content buffer =
    (if \<not> ov_stun_attribute_frame_is_valid buffer then None
     else let len = ov_stun_attribute_get_length buffer
          in if len < 0 then None
             else Some (if len = 0 then None else Some 4, nat len))"

text \<open>
  \<open>content\<close> points to at least \<open>content_length\<close> bytes or is NULL. The result is the buffer, the
  offset behind the attribute and the boolean. The size is a sum in \<open>size_t\<close>: when it wraps around, the test of the room passes, and
  with a content the behaviour is undefined (the outer \<open>None\<close>): bytes are written behind the buffer.
\<close>

definition ov_stun_attribute_encode :: "buffer \<Rightarrow> u16 \<Rightarrow> bytes option \<Rightarrow> nat \<Rightarrow> (buffer \<times> nat option \<times> bool) option" where
  "ov_stun_attribute_encode buffer attribute_type content content_length =
    (case buffer of
       None \<Rightarrow> Some (buffer, None, False)
     | Some bs \<Rightarrow>
         let pad = pad_of content_length;
             size = (4 + content_length + pad) mod 2 ^ 64
         in if length bs < size then Some (buffer, None, False)
            else (case ov_stun_attribute_set_type buffer attribute_type of
                    (b1, ok1) \<Rightarrow>
                      if \<not> ok1 then Some (b1, None, False)
                      else (case ov_stun_attribute_set_length b1 (of_nat content_length) of
                              (b2, ok2) \<Rightarrow>
                                if \<not> ok2 then Some (b2, None, False)
                                else (case content of
                                        None \<Rightarrow> Some (b2, Some size, True)
                                      | Some c \<Rightarrow>
                                          if length bs < 4 + content_length + pad then None
                                          else Some (map_option (\<lambda>bs. write_at (write_at bs 4 (take content_length c))
                                                       (4 + content_length) (replicate pad 0)) b2,
                                                     Some size, True)))))"

text \<open>
  \<open>strndup\<close> copies up to the first zero byte. \<open>None\<close> as the result: it reads behind the buffer.
\<close>

definition ov_stun_attribute_decode :: "buffer \<Rightarrow> (u16 \<times> bytes option) option option" where
  "ov_stun_attribute_decode buffer =
    (case buffer of
       None \<Rightarrow> Some None
     | Some bs \<Rightarrow>
         if length bs < 4 then Some None
         else let len = ov_stun_attribute_get_length buffer
              in if len < 0 then Some None
                 else let type = ov_stun_attribute_get_type buffer;
                          c = takeWhile (\<lambda>b. b \<noteq> 0) (take (nat len) (drop 4 bs))
                      in if len > 0 then
                           (if length c = length bs - 4 \<and> nat len > length bs - 4 then None else Some (Some (type, Some c)))
                         else Some (Some (type, None)))"

text \<open>\<open>None\<close> as the result: the type is read outside of the buffer at \<open>base\<close>.\<close>

fun ov_stun_attributes_get_type :: "u64 \<Rightarrow> bytes \<Rightarrow> u64 list \<Rightarrow> u16 \<Rightarrow> u64 option option" where
  "ov_stun_attributes_get_type base bs [] type = Some None"
| "ov_stun_attributes_get_type base bs (p # attr) type =
    (if p = 0 then Some None
     else let off = unat (p - base)
          in if length bs < off + 2 then None
             else if type = ov_stun_attribute_get_type (Some (drop off bs)) then Some (Some p)
             else ov_stun_attributes_get_type base bs attr type)"

definition ov_stun_attribute_frame_copy :: "bytes option \<Rightarrow> buffer \<Rightarrow> buffer \<times> nat option \<times> bool" where
  "ov_stun_attribute_frame_copy orig dest =
    (case (orig, dest) of
       (Some os, Some bs) \<Rightarrow>
         let len = nat (ov_stun_attribute_get_length orig)
         in if length bs < len + 4 then (dest, None, False)
            else (Some (write_at bs 0 (take (len + 4) os)), Some (len + 4), True)
     | _ \<Rightarrow> (dest, None, False))"

subsection \<open>Message type: lemmas\<close>

lemma bit_u32_double: "bit ((a :: u32) * 2) n \<longleftrightarrow> n < 32 \<and> n \<noteq> 0 \<and> bit a (n - 1)"
  by (simp add: mult.commute [of a] bit_double_iff)

lemma get_method_or:
  assumes "2 \<le> length bs"
  shows "ov_stun_frame_get_method (Some bs) =
    ucast (bs ! 1 AND 0x0F) OR push_bit 4 (ucast (drop_bit 5 (bs ! 1))) OR push_bit 7 (ucast (drop_bit 1 (bs ! 0)))"
proof -
  have "(ucast (bs ! 1 AND 0x0F) :: u16) AND push_bit 4 (ucast (drop_bit 5 (bs ! 1))) = 0" by (simp add: word_bits)
  then have "(ucast (bs ! 1 AND 0x0F) :: u16) + push_bit 4 (ucast (drop_bit 5 (bs ! 1))) =
      ucast (bs ! 1 AND 0x0F) OR push_bit 4 (ucast (drop_bit 5 (bs ! 1)))"
    by (rule disjunctive_add_eq_or)
  moreover have "((ucast (bs ! 1 AND 0x0F) :: u16) OR push_bit 4 (ucast (drop_bit 5 (bs ! 1)))) AND
      push_bit 7 (ucast (drop_bit 1 (bs ! 0))) = 0" by (simp add: word_bits)
  ultimately show ?thesis
    using assms disjunctive_add_eq_or [of "(ucast (bs ! 1 AND 0x0F) :: u16) OR push_bit 4 (ucast (drop_bit 5 (bs ! 1)))"
        "push_bit 7 (ucast (drop_bit 1 (bs ! 0)))"]
    by (simp add: ov_stun_frame_get_method_def Let_def or.assoc)
qed

text \<open>Both branches of \<open>ov_stun_frame_set_method\<close> write the same bytes.\<close>

lemma set_method_eq:
  assumes "20 \<le> length bs" "type \<le> 0xfff"
  shows "ov_stun_frame_set_method (Some bs) type =
    (Some (bs[1 := (bs ! 1 AND 0x10) OR ucast (type AND 0x0F) OR ucast (push_bit 1 (ucast type :: u32) AND 0xE0),
              0 := (bs ! 0 AND 0x01) OR ucast (drop_bit 8 (push_bit 2 (ucast type :: u32)) AND 0x3E)]), True)"
proof (cases "type \<le> 0x0f")
  case True
  then have "\<not> bit type n" if "4 \<le> n" for n
    using that word_less_bit_beyond [of type 4 n] by (simp add: word_le_nat_alt)
  then have "ucast type = ucast (type AND 0x0F) OR (ucast (push_bit 1 (ucast type :: u32) AND 0xE0) :: u8)"
    "ucast (drop_bit 8 (push_bit 2 (ucast type :: u32)) AND 0x3E) = (0 :: u8)"
    by (simp_all add: word_bits bit_u32_double)
  then show ?thesis using True assms by (simp add: ov_stun_frame_set_method_def Let_def or.assoc)
next
  case False
  then show ?thesis using assms by (simp add: ov_stun_frame_set_method_def Let_def or.assoc not_less)
qed

lemma method_bytes:
  fixes type :: u16 and h0 h1 :: u8
  assumes "type \<le> 0xfff"
  defines "g1 \<equiv> (h1 AND 0x10) OR ucast (type AND 0x0F) OR ucast (push_bit 1 (ucast type :: u32) AND 0xE0)"
    and "g0 \<equiv> (h0 AND 0x01) OR ucast (drop_bit 8 (push_bit 2 (ucast type :: u32)) AND 0x3E)"
  shows "ucast (g1 AND 0x0F) OR push_bit 4 (ucast (drop_bit 5 g1)) OR push_bit 7 (ucast (drop_bit 1 g0)) = type"
    "g0 AND 0x01 = h0 AND 0x01" "g1 AND 0x10 = h1 AND 0x10" "g0 AND 0xC0 = 0"
proof -
  have "\<not> bit type n" if "12 \<le> n" for n
    using that assms(1) word_less_bit_beyond [of type 12 n] by (simp add: word_le_nat_alt)
  then show "ucast (g1 AND 0x0F) OR push_bit 4 (ucast (drop_bit 5 g1)) OR push_bit 7 (ucast (drop_bit 1 g0)) = type"
    unfolding g0_def g1_def by (simp add: word_bits bit_u32_double)
  show "g0 AND 0x01 = h0 AND 0x01" "g1 AND 0x10 = h1 AND 0x10" "g0 AND 0xC0 = 0"
    unfolding g0_def g1_def by (simp_all add: word_bits bit_u32_double)
qed

subsection \<open>Attributes: lemmas\<close>

text \<open>The bytes of an attribute, and the offsets of consecutive attributes.\<close>

definition attr_bytes :: "u16 \<times> bytes \<Rightarrow> bytes" where
  "attr_bytes a = htons (fst a) @ htons (of_nat (length (snd a))) @ snd a @ replicate (pad_of (length (snd a))) 0"

fun offsets :: "nat \<Rightarrow> (u16 \<times> bytes) list \<Rightarrow> nat list" where
  "offsets p [] = []"
| "offsets p (a # as) = p # offsets (p + length (attr_bytes a)) as"

text \<open>A message is filled with attributes one behind the other.\<close>

fun encode_all :: "nat \<Rightarrow> bytes \<Rightarrow> (u16 \<times> bytes) list \<Rightarrow> bytes option" where
  "encode_all off bs [] = Some bs"
| "encode_all off bs (a # as) =
    (case ov_stun_attribute_encode (Some (drop off bs)) (fst a) (Some (snd a)) (length (snd a)) of
       Some (Some b, Some n, True) \<Rightarrow> encode_all (off + n) (take off bs @ b) as
     | _ \<Rightarrow> None)"

lemma length_attr_bytes: "length (attr_bytes a) = 4 + length (snd a) + pad_of (length (snd a))"
  by (simp add: attr_bytes_def)

lemma length_offsets [simp]: "length (offsets p as) = length as"
  by (induction as arbitrary: p) simp_all

lemma write_behind: "write_at (xs @ ys) (length xs) zs = xs @ zs @ drop (length zs) ys"
  by (simp add: write_at_def)

lemma encode_bytes:
  assumes "length (attr_bytes (t, c)) \<le> length bs" "length c < 65536"
  shows "ov_stun_attribute_encode (Some bs) t (Some c) (length c) =
    Some (Some (attr_bytes (t, c) @ drop (length (attr_bytes (t, c))) bs), Some (length (attr_bytes (t, c))), True)"
proof -
  let ?n = "length c" and ?p = "pad_of (length c)"
  have l: "\<not> length bs < 4 + ?n + ?p" using assms by (simp add: length_attr_bytes)
  have size: "(4 + ?n + ?p) mod 2 ^ 64 = 4 + ?n + ?p" using assms(2) by (simp add: pad_of_def)
  have w1: "write_at bs 0 (htons t) = htons t @ drop 2 bs" by (simp add: write_at_0)
  have w2: "write_at (htons t @ drop 2 bs) 2 (htons (of_nat ?n)) = (htons t @ htons (of_nat ?n)) @ drop 4 bs"
    using write_behind [of "htons t" "drop 2 bs"] by simp
  have w3: "write_at ((htons t @ htons (of_nat ?n)) @ drop 4 bs) 4 c = ((htons t @ htons (of_nat ?n)) @ c) @ drop (4 + ?n) bs"
    using write_behind [of "htons t @ htons (of_nat ?n)" "drop 4 bs" c] by (simp add: add.commute)
  have w4: "write_at (((htons t @ htons (of_nat ?n)) @ c) @ drop (4 + ?n) bs) (4 + ?n) (replicate ?p 0) =
      attr_bytes (t, c) @ drop (4 + ?n + ?p) bs"
  proof -
    have "length ((htons t @ htons (of_nat ?n)) @ c) = 4 + ?n" by simp
    then show ?thesis using write_behind [of "(htons t @ htons (of_nat ?n)) @ c" "drop (4 + ?n) bs" "replicate ?p 0"]
      by (simp only: attr_bytes_def fst_conv snd_conv append_assoc length_replicate drop_drop ac_simps)
  qed
  have len: "length (htons t @ drop 2 bs) = length bs" using l by simp
  show ?thesis
    unfolding ov_stun_attribute_encode_def Let_def option.case size
    using l len by (simp add: ov_stun_attribute_set_type_def ov_stun_attribute_set_length_def
        w1 w2 w3 [simplified] w4 [simplified] Let_def length_attr_bytes)
qed

lemma encode_all_bytes:
  "\<forall>a \<in> set as. length (snd a) < 65536 \<Longrightarrow> off + length (concat (map attr_bytes as)) \<le> length bs \<Longrightarrow>
    encode_all off bs as = Some (take off bs @ concat (map attr_bytes as) @ drop (off + length (concat (map attr_bytes as))) bs)"
proof (induction as arbitrary: off bs)
  case (Cons a as)
  let ?n = "length (attr_bytes a)" and ?bs = "take off bs @ attr_bytes a @ drop (off + length (attr_bytes a)) bs"
  have "encode_all off bs (a # as) = encode_all (off + ?n) ?bs as"
    using Cons.prems encode_bytes [of "fst a" "snd a" "drop off bs"] by (simp add: add.commute)
  also have "\<dots> = Some (take (off + ?n) ?bs @ concat (map attr_bytes as) @ drop (off + ?n + length (concat (map attr_bytes as))) ?bs)"
    using Cons.prems by (intro Cons.IH) simp_all
  also have "take (off + ?n) ?bs = take off bs @ attr_bytes a" using Cons.prems by simp
  also have "drop (off + ?n + length (concat (map attr_bytes as))) ?bs = drop (off + ?n + length (concat (map attr_bytes as))) bs"
    using Cons.prems by (simp add: ac_simps)
  finally show ?case by (simp add: add.assoc)
qed simp

text \<open>An attribute at the head of a buffer is read back.\<close>

lemma read_attr:
  assumes "length (snd a) < 65536"
  shows "ntohs (take 2 (attr_bytes a @ rest)) = fst a" "ntohs (take 2 (drop 2 (attr_bytes a @ rest))) = of_nat (length (snd a))"
    "unat (of_nat (length (snd a)) :: u16) = length (snd a)" "take (length (snd a)) (drop 4 (attr_bytes a @ rest)) = snd a"
  using assms by (simp_all add: attr_bytes_def unat_of_nat take_bit_eq_mod)

lemma slice_loop_attrs:
  assumes "\<forall>a \<in> set as. length (snd a) < 65536" "item + length as < length array"
  shows "slice_loop base (pre @ concat (map attr_bytes as)) (length pre) (length (concat (map attr_bytes as))) item array =
    (take item array @ map (\<lambda>p. base + of_nat p) (offsets (length pre) as) @ drop (item + length as) array, True)"
  using assms
proof (induction as arbitrary: pre item array)
  case Nil
  then show ?case by (simp add: slice_loop.simps)
next
  case (Cons a as)
  let ?bs = "pre @ concat (map attr_bytes (a # as))" and ?array = "array[item := base + of_nat (length pre)]"
  have len: "length (attr_bytes a) = 4 + (length (snd a) + pad_of (length (snd a)))" by (simp add: length_attr_bytes)
  have r: "unat (ntohs (take 2 (drop (length pre + 2) ?bs))) = length (snd a)"
    using read_attr(2) [of a "concat (map attr_bytes as)"] read_attr(3) [of a] Cons.prems(1) by simp
  have "slice_loop base ?bs (length pre) (length (concat (map attr_bytes (a # as)))) item array =
      slice_loop base ((pre @ attr_bytes a) @ concat (map attr_bytes as)) (length (pre @ attr_bytes a))
        (length (concat (map attr_bytes as))) (Suc item) ?array"
    by (subst slice_loop.simps) (use Cons.prems(2) len r in \<open>simp add: pad_of_def Let_def\<close>)
  also have "\<dots> = (take (Suc item) ?array @ map (\<lambda>p. base + of_nat p) (offsets (length (pre @ attr_bytes a)) as) @
      drop (Suc item + length as) ?array, True)"
    using Cons.prems by (intro Cons.IH) simp_all
  finally show ?case using Cons.prems(2) by (simp add: take_Suc_conv_app_nth)
qed

lemma offsets_split:
  assumes "i < length as"
  shows "\<exists>xs ys. pre @ concat (map attr_bytes as) = xs @ attr_bytes (as ! i) @ ys \<and> offsets (length pre) as ! i = length xs"
  using assms
proof (induction as arbitrary: pre i)
  case (Cons a as)
  show ?case
  proof (cases i)
    case 0
    then show ?thesis by (intro exI [of _ pre] exI [of _ "concat (map attr_bytes as)"]) simp
  next
    case (Suc j)
    with Cons.IH [of j "pre @ attr_bytes a"] Cons.prems show ?thesis by simp
  qed
qed simp

text \<open>The attributes a message consists of: consecutive, complete with their padding, up to its end.\<close>

definition attr_len :: "bytes \<Rightarrow> nat \<Rightarrow> nat" where
  "attr_len bs p = (let len = unat (ntohs (take 2 (drop (p + 2) bs))) in 4 + len + pad_of len)"

lemma attr_len_pos: "0 < attr_len bs p"
  by (simp add: attr_len_def Let_def)

fun attr_chain :: "bytes \<Rightarrow> nat \<Rightarrow> nat list \<Rightarrow> bool" where
  "attr_chain bs p [] \<longleftrightarrow> p = length bs"
| "attr_chain bs p (o1 # os) \<longleftrightarrow> o1 = p \<and> p + 4 \<le> length bs \<and> p + attr_len bs p \<le> length bs \<and> attr_chain bs (p + attr_len bs p) os"

lemma slice_loop_step:
  assumes "p < length bs" "Suc item < length array" "p + 4 \<le> length bs" "p + attr_len bs p \<le> length bs"
  shows "slice_loop base bs p (length bs - p) item array =
    slice_loop base bs (p + attr_len bs p) (length bs - (p + attr_len bs p)) (Suc item) (array[item := base + of_nat p])"
  by (subst slice_loop.simps) (use assms in \<open>auto simp: attr_len_def pad_of_def Let_def\<close>)

lemma slice_loop_stop:
  assumes "p < length bs" "\<not> (Suc item < length array \<and> p + 4 \<le> length bs \<and> p + attr_len bs p \<le> length bs)" "item < length array"
  shows "snd (slice_loop base bs p (length bs - p) item array) = False"
  by (subst slice_loop.simps) (use assms in \<open>auto simp: attr_len_def pad_of_def Let_def\<close>)

lemma slice_loop_iff:
  assumes "p \<le> length bs" "item < length array"
  shows "slice_loop base bs p (length bs - p) item array = (array', True) \<longleftrightarrow>
    (\<exists>os. attr_chain bs p os \<and> item + length os < length array \<and>
       array' = take item array @ map (\<lambda>o1. base + of_nat o1) os @ drop (item + length os) array)"
  using assms
proof (induction "length bs - p" arbitrary: p item array rule: less_induct)
  case less
  show ?case
  proof (cases "p = length bs")
    case True
    have "attr_chain bs p os \<longleftrightarrow> os = []" for os using True by (cases os) auto
    then show ?thesis using True less.prems(2) by (auto simp: slice_loop.simps)
  next
    case False
    then have p: "p < length bs" using less.prems(1) by simp
    let ?go = "Suc item < length array \<and> p + 4 \<le> length bs \<and> p + attr_len bs p \<le> length bs"
    show ?thesis
    proof (cases ?go)
      case False
      have "\<not> (attr_chain bs p os \<and> item + length os < length array)" for os
        using False p by (cases os) auto
      then show ?thesis using slice_loop_stop [OF p False less.prems(2), of base] by auto
    next
      case True
      let ?p = "p + attr_len bs p" and ?array = "array[item := base + of_nat p]"
      have "slice_loop base bs p (length bs - p) item array = (array', True) \<longleftrightarrow>
          (\<exists>os. attr_chain bs ?p os \<and> Suc item + length os < length ?array \<and>
            array' = take (Suc item) ?array @ map (\<lambda>o1. base + of_nat o1) os @ drop (Suc item + length os) ?array)"
      proof -
        have lt: "length bs - ?p < length bs - p" "?p \<le> length bs" "Suc item < length ?array"
          using p True attr_len_pos [of bs p] by auto
        have st: "slice_loop base bs p (length bs - p) item array = slice_loop base bs ?p (length bs - ?p) (Suc item) ?array"
          using slice_loop_step [OF p] True by blast
        show ?thesis unfolding st by (rule less.hyps [OF lt])
      qed
      also have "\<dots> \<longleftrightarrow> (\<exists>os. attr_chain bs ?p os \<and> item + length (p # os) < length array \<and>
            array' = take item array @ map (\<lambda>o1. base + of_nat o1) (p # os) @ drop (item + length (p # os)) array)"
        using True by (simp add: take_Suc_conv_app_nth)
      also have "\<dots> \<longleftrightarrow> (\<exists>os. attr_chain bs p os \<and> item + length os < length array \<and>
            array' = take item array @ map (\<lambda>o1. base + of_nat o1) os @ drop (item + length os) array)"
      proof -
        have "attr_chain bs p os \<longleftrightarrow> (\<exists>os'. os = p # os' \<and> attr_chain bs ?p os')" for os
          using True p by (cases os) auto
        then have "(\<exists>os. attr_chain bs p os \<and> P os) \<longleftrightarrow> (\<exists>os. attr_chain bs ?p os \<and> P (p # os))" for P by auto
        from this [of "\<lambda>os. item + length os < length array \<and>
            array' = take item array @ map (\<lambda>o1. base + of_nat o1) os @ drop (item + length os) array"]
        show ?thesis by (simp only:)
      qed
      finally show ?thesis .
    qed
  qed
qed

subsection \<open>Properties\<close>

text \<open>
  \<open>ov_stun_frame_get_method\<close> returns what \<open>ov_stun_frame_set_method\<close> wrote, for every 12 bit method; the
  class of the message and all other bytes are kept, and the two leading bits are zero.
\<close>

theorem stun_method_roundtrip:
  assumes "20 \<le> length bs" "type \<le> 0xfff"
  shows "\<exists>bs'. ov_stun_frame_set_method (Some bs) type = (Some bs', True) \<and> ov_stun_frame_get_method (Some bs') = type \<and>
    class_bits (Some bs') = class_bits (Some bs) \<and> bs' ! 0 AND 0xC0 = 0 \<and> drop 2 bs' = drop 2 bs"
proof -
  let ?g1 = "(bs ! 1 AND 0x10) OR ucast (type AND 0x0F) OR ucast (push_bit 1 (ucast type :: u32) AND 0xE0)"
  let ?g0 = "(bs ! 0 AND 0x01) OR ucast (drop_bit 8 (push_bit 2 (ucast type :: u32)) AND 0x3E)"
  let ?bs = "bs[1 := ?g1, 0 := ?g0]"
  have "0 < length bs" "1 < length bs" using assms(1) by linarith+
  then have n: "?bs ! 0 = ?g0" "?bs ! 1 = ?g1" "2 \<le> length ?bs" by simp_all
  have "ov_stun_frame_get_method (Some ?bs) = type"
    unfolding get_method_or [OF n(3)] n(1,2) by (rule method_bytes(1) [OF assms(2)])
  moreover have "class_bits (Some ?bs) = class_bits (Some bs)"
    using assms(1) unfolding class_bits_def option.case n(1,2) method_bytes(2,3) [OF assms(2)] by simp
  moreover have "?bs ! 0 AND 0xC0 = 0" unfolding n(1) by (rule method_bytes(4) [OF assms(2)])
  ultimately show ?thesis using set_method_eq [OF assms] by (intro exI [of _ ?bs]) simp
qed

theorem stun_method_roundtrip_witness:
  "\<exists>bs'. ov_stun_frame_set_method (Some (replicate 20 0)) 0xABC = (Some bs', True) \<and> ov_stun_frame_get_method (Some bs') = 0xABC"
proof -
  have "20 \<le> length (replicate 20 (0 :: u8))" "(0xABC :: u16) \<le> 0xfff" by simp_all
  from stun_method_roundtrip [OF this] show ?thesis by blast
qed

text \<open>
  Setting the class of a message makes exactly the predicate of that class true, and keeps
  the method.
\<close>

theorem stun_class_exclusive:
  assumes "20 \<le> length bs" "bs ! 0 AND 0xC0 = 0"
    and "(set_class, class) \<in> {(ov_stun_frame_set_request, 0 :: nat), (ov_stun_frame_set_indication, 1),
      (ov_stun_frame_set_success_response, 2), (ov_stun_frame_set_error_response, 3)}"
  shows "\<exists>bs'. set_class (Some bs) = (Some bs', True) \<and>
    ov_stun_frame_class_is_request (Some bs') = (class = 0) \<and> ov_stun_frame_class_is_indication (Some bs') = (class = 1) \<and>
    ov_stun_frame_class_is_success_response (Some bs') = (class = 2) \<and> ov_stun_frame_class_is_error_response (Some bs') = (class = 3) \<and>
    ov_stun_frame_get_method (Some bs') = ov_stun_frame_get_method (Some bs)"
proof -
  have l: "0 < length bs" "1 < length bs" using assms(1) by linarith+
  have m: "ov_stun_frame_get_method (Some (bs[0 := a, 1 := b])) = ov_stun_frame_get_method (Some bs)"
    if "drop_bit 1 a = drop_bit 1 (bs ! 0)" "b AND 0x0F = bs ! 1 AND 0x0F" "drop_bit 5 b = drop_bit 5 (bs ! 1)" for a b
    using l that by (simp add: get_method_or)
  have b0: "\<not> bit (bs ! 0) 6" "\<not> bit (bs ! 0) 7" using assms(2) by (simp_all add: word_bits)
  have eqs: "drop_bit 1 (bs ! 0 OR 0x01) = drop_bit 1 (bs ! 0)" "drop_bit 1 (bs ! 0 AND 0x3E) = drop_bit 1 (bs ! 0)"
    "(bs ! 1 AND 0xEF) AND 0x0F = bs ! 1 AND 0x0F" "drop_bit 5 (bs ! 1 AND 0xEF) = drop_bit 5 (bs ! 1)"
    "(bs ! 1 OR 0x10) AND 0x0F = bs ! 1 AND 0x0F" "drop_bit 5 (bs ! 1 OR 0x10) = drop_bit 5 (bs ! 1)"
    using b0 by (simp_all add: word_bits)
  have cls: "(bs ! 0 OR 0x01) AND 0x01 \<noteq> 0" "(bs ! 0 AND 0x3E) AND 0x01 = 0" "(bs ! 1 OR 0x10) AND 0x10 \<noteq> 0" "(bs ! 1 AND 0xEF) AND 0x10 = 0"
    by (simp_all add: word_bits)
  note defs = ov_stun_frame_set_request_def ov_stun_frame_set_indication_def ov_stun_frame_set_success_response_def
    ov_stun_frame_set_error_response_def ov_stun_frame_class_is_request_def ov_stun_frame_class_is_indication_def
    ov_stun_frame_class_is_success_response_def ov_stun_frame_class_is_error_response_def class_bits_def
  note ms = m [OF eqs(2) eqs(3,4)] m [OF eqs(2) eqs(5,6)] m [OF eqs(1) eqs(3,4)] m [OF eqs(1) eqs(5,6)]
  consider "set_class = ov_stun_frame_set_request" "class = 0" | "set_class = ov_stun_frame_set_indication" "class = 1"
    | "set_class = ov_stun_frame_set_success_response" "class = 2" | "set_class = ov_stun_frame_set_error_response" "class = 3"
    using assms(3) by blast
  then show ?thesis
    using assms(1) l by cases (simp_all add: defs ms [unfolded One_nat_def] cls [unfolded One_nat_def])
qed

theorem stun_class_exclusive_witness:
  "\<exists>bs'. ov_stun_frame_set_error_response (Some (replicate 20 0)) = (Some bs', True) \<and>
     ov_stun_frame_class_is_error_response (Some bs') \<and> \<not> ov_stun_frame_class_is_request (Some bs')"
  using stun_class_exclusive [of "replicate 20 0" ov_stun_frame_set_error_response 3] by simp blast

text \<open>
  C33: \<open>ov_stun_frame_slice\<close> succeeds exactly on the messages that the length field covers and that
  consist of complete attributes with their padding, fewer than the array has entries, and
  then lists their addresses in order. On such a message every attribute lies inside of the buffer.
\<close>

theorem stun_slice_iff:
  assumes "20 \<le> length bs" "0 < length array"
  shows "ov_stun_frame_slice base (Some bs) (Some array) = (Some array', True) \<longleftrightarrow>
    ov_stun_frame_get_length (Some bs) = int (length bs) - 20 \<and>
    (\<exists>os. attr_chain bs 20 os \<and> length os < length array \<and>
       array' = map (\<lambda>o1. base + of_nat o1) os @ drop (length os) (memset0 array (length array)))"
proof (cases "ov_stun_frame_get_length (Some bs) = int (length bs) - 20")
  case True
  have len: "length (memset0 array n) = length array" for n by (simp add: memset0_def)
  have "nat (ov_stun_frame_get_length (Some bs)) = length bs - 20" using True by simp
  then show ?thesis
    using True assms slice_loop_iff [of 20 bs 0 "memset0 array (length array)" base array'] len
    by (auto simp: ov_stun_frame_slice_def not_less split: prod.splits)
qed (use assms in \<open>auto simp: ov_stun_frame_slice_def\<close>)

theorem stun_slice_iff_witness:
  "ov_stun_frame_slice 1000 (Some (replicate 20 0)) (Some [0]) = (Some [0], True)"
proof -
  have "20 \<le> length (replicate 20 (0 :: u8))" "0 < length [0 :: u64]" by simp_all
  note iff = stun_slice_iff [OF this, of 1000 "[0]"]
  have "attr_chain (replicate 20 0) 20 []" "memset0 [0] (length [0 :: u64]) = [0]"
    "ov_stun_frame_get_length (Some (replicate 20 0)) = int (length (replicate 20 (0 :: u8))) - 20"
    by (simp_all add: memset0_def ov_stun_frame_get_length_def ntohs_def)
  then show ?thesis unfolding iff by (intro conjI exI [of _ "[]"]) simp_all
qed

text \<open>
  C32: A message that is filled with attributes by \<open>ov_stun_attribute_encode\<close>, one behind the other, and
  whose length is set, is sliced into these attributes: the i-th entry of the array points to
  an attribute of the type and with the content that was encoded.
\<close>

theorem stun_attributes_roundtrip:
  assumes len: "length bs = 20 + length (concat (map attr_bytes as))" "length (concat (map attr_bytes as)) < 65536"
    and room: "length as < length array"
  shows "\<exists>bs1 bs2 array'. encode_all 20 bs as = Some bs1 \<and>
    ov_stun_frame_set_length (Some bs1) (of_nat (length bs - 20)) = (Some bs2, True) \<and>
    ov_stun_frame_slice base (Some bs2) (Some array) = (Some array', True) \<and>
    (\<forall>i < length as. \<exists>p. array' ! i = base + of_nat p \<and>
       ov_stun_attribute_get_type (Some (drop p bs2)) = fst (as ! i) \<and>
       ov_stun_attribute_frame_content (Some (drop p bs2)) =
         Some (if snd (as ! i) = [] then None else Some 4, length (snd (as ! i))) \<and>
       take (length (snd (as ! i))) (drop (p + 4) bs2) = snd (as ! i))"
proof -
  let ?body = "concat (map attr_bytes as)" and ?n = "of_nat (length bs - 20) :: u16"
  let ?pre = "write_at (take 20 bs) 2 (htons ?n)"
  have small: "length (snd a) < 65536" if "a \<in> set as" for a
    using that len(2) by (auto simp: length_concat length_attr_bytes dest!: split_list)
  have bs1: "encode_all 20 bs as = Some (take 20 bs @ ?body)" using encode_all_bytes [of as 20 bs] small len(1) by simp
  have pre: "length ?pre = 20" "write_at (take 20 bs @ ?body) 2 (htons ?n) = ?pre @ ?body"
    using len(1) by (simp_all add: write_at_def min_def)
  have set: "ov_stun_frame_set_length (Some (take 20 bs @ ?body)) ?n = (Some (?pre @ ?body), True)"
    using len(1) pre by (simp add: ov_stun_frame_set_length_def)
  have "take 2 (drop 2 (?pre @ ?body)) = htons ?n"
    using len(1) by (simp add: write_at_def min_def)
  then have gl: "ov_stun_frame_get_length (Some (?pre @ ?body)) = int (length ?body)"
    using len pre(1) by (simp add: ov_stun_frame_get_length_def uint_nat take_bit_eq_mod unat_of_nat)
  let ?a = "memset0 array (length array)"
  have "length ?a = length array" by (simp add: memset0_def)
  then have "slice_loop base (?pre @ ?body) 20 (length ?body) 0 ?a =
      (map (\<lambda>p. base + of_nat p) (offsets 20 as) @ drop (length as) ?a, True)"
    using slice_loop_attrs [of as 0 ?a base ?pre] small room pre(1) by simp
  then have slice: "ov_stun_frame_slice base (Some (?pre @ ?body)) (Some array) =
      (Some (map (\<lambda>p. base + of_nat p) (offsets 20 as) @ drop (length as) ?a), True)"
    using gl pre(1) room by (auto simp: ov_stun_frame_slice_def)
  have "\<exists>p. (map (\<lambda>p. base + of_nat p) (offsets 20 as) @ drop (length as) ?a) ! i = base + of_nat p \<and>
       ov_stun_attribute_get_type (Some (drop p (?pre @ ?body))) = fst (as ! i) \<and>
       ov_stun_attribute_frame_content (Some (drop p (?pre @ ?body))) =
         Some (if snd (as ! i) = [] then None else Some 4, length (snd (as ! i))) \<and>
       take (length (snd (as ! i))) (drop (p + 4) (?pre @ ?body)) = snd (as ! i)" if i: "i < length as" for i
  proof -
    obtain xs ys where xs: "?pre @ ?body = xs @ attr_bytes (as ! i) @ ys" "offsets 20 as ! i = length xs"
      using offsets_split [OF i, of ?pre] pre(1) by auto
    have sm: "length (snd (as ! i)) < 65536" using small i by simp
    note r = read_attr(1,2) [OF sm, of ys] read_attr(3) [OF sm] read_attr(4) [OF sm, of ys]
    have l: "length (attr_bytes (as ! i)) = 4 + length (snd (as ! i)) + pad_of (length (snd (as ! i)))" by (rule length_attr_bytes)
    have "ov_stun_attribute_get_length (Some (attr_bytes (as ! i) @ ys)) = int (length (snd (as ! i)))"
      using r(2,3) l by (simp add: ov_stun_attribute_get_length_def uint_nat)
    with r l i xs show ?thesis
      by (intro exI [of _ "length xs"]) (simp add: nth_append ov_stun_attribute_get_type_def
          ov_stun_attribute_frame_content_def ov_stun_attribute_frame_is_valid_def)
  qed
  with bs1 set slice show ?thesis by blast
qed

theorem stun_attributes_roundtrip_witness:
  "\<exists>bs1 bs2 array'. encode_all 20 (replicate 36 0) [(6, [1, 2, 3]), (0x8022, [9, 9, 9, 9])] = Some bs1 \<and>
     ov_stun_frame_set_length (Some bs1) (of_nat (length (replicate 36 (0 :: u8)) - 20)) = (Some bs2, True) \<and>
     ov_stun_frame_slice 1000 (Some bs2) (Some [0, 0, 0, 0]) = (Some array', True)"
proof -
  have "length (replicate 36 (0 :: u8)) = 20 + length (concat (map attr_bytes [(6, [1, 2, 3]), (0x8022, [9, 9, 9, 9])]))"
    "length (concat (map attr_bytes [(6, [1, 2, 3]), (0x8022, [9, 9, 9, 9])])) < 65536"
    by (simp_all add: length_attr_bytes pad_of_def)
  moreover have "length [(6 :: u16, [1 :: u8, 2, 3]), (0x8022, [9, 9, 9, 9])] < length [0 :: u64, 0, 0, 0]" by simp
  ultimately show ?thesis using stun_attributes_roundtrip by blast
qed

text \<open>
  \<open>ov_stun_attribute_decode\<close> returns the type of an encoded attribute, but its content only up to the
  first zero byte: the content is a copy of the encoded one if and only if that has no zero byte.
\<close>

theorem stun_decode_truncates:
  assumes "0 < length c" "length c < 65536" "length (attr_bytes (t, c)) \<le> length bs"
  shows "\<exists>bs' n. ov_stun_attribute_encode (Some bs) t (Some c) (length c) = Some (Some bs', n, True) \<and>
    ov_stun_attribute_decode (Some bs') = Some (Some (t, Some (takeWhile (\<lambda>b. b \<noteq> 0) c))) \<and>
    (takeWhile (\<lambda>b. b \<noteq> 0) c = c \<longleftrightarrow> 0 \<notin> set c)"
proof -
  let ?bs = "attr_bytes (t, c) @ drop (length (attr_bytes (t, c))) bs"
  have sm: "length (snd (t, c)) < 65536" using assms(2) by simp
  let ?ys = "drop (length (attr_bytes (t, c))) bs"
  note r = read_attr(1,2) [OF sm, of ?ys, unfolded snd_conv fst_conv] read_attr(3) [OF sm, unfolded snd_conv]
    read_attr(4) [OF sm, of ?ys, unfolded snd_conv]
  have l: "length (attr_bytes (t, c)) = 4 + length c + pad_of (length c)" by (simp add: length_attr_bytes)
  have gl: "ov_stun_attribute_get_length (Some ?bs) = int (length c)"
    using r(2,3) l by (simp add: ov_stun_attribute_get_length_def uint_nat)
  have gt: "ov_stun_attribute_get_type (Some ?bs) = t" using r(1) l by (simp add: ov_stun_attribute_get_type_def)
  have "ov_stun_attribute_decode (Some ?bs) = Some (Some (t, Some (takeWhile (\<lambda>b. b \<noteq> 0) c)))"
  proof -
    have "length c \<le> length ?bs - 4" using l assms(3) by simp
    then show ?thesis using l assms(1,3) r(4) gl gt by (auto simp: ov_stun_attribute_decode_def Let_def)
  qed
  moreover have "takeWhile (\<lambda>b. b \<noteq> 0) c = c \<longleftrightarrow> 0 \<notin> set c" by (auto simp: takeWhile_eq_all_conv)
  ultimately show ?thesis using encode_bytes [OF assms(3,2)] by blast
qed

theorem stun_decode_truncates_witness:
  "\<exists>bs' n. ov_stun_attribute_encode (Some (replicate 8 0)) 6 (Some [7, 0, 8]) 3 = Some (Some bs', n, True) \<and>
     ov_stun_attribute_decode (Some bs') = Some (Some (6, Some [7]))"
proof -
  have "length [7 :: u8, 0, 8] = 3" by simp
  then have "0 < length [7 :: u8, 0, 8]" "length [7 :: u8, 0, 8] < 65536" "length (attr_bytes (6, [7, 0, 8])) \<le> length (replicate 8 (0 :: u8))"
    by (simp_all add: length_attr_bytes pad_of_def)
  from stun_decode_truncates [OF this] show ?thesis unfolding \<open>length [7 :: u8, 0, 8] = 3\<close> by auto
qed

end
