(* ===== verification/Ov_Rtp_Frame.thy ===== *)
theory Ov_Rtp_Frame
  imports Ov_Prelude
begin

text \<open>
  RTP frames, \<open>ov_base/src/rtp/ov_rtp_frame.c\<close>: the encoder from an expansion (the fields of a
  frame) to bytes and the decoder back.

  A block of data is its length and the bytes behind its pointer (\<open>None\<close>: NULL), which are at
  least that many when the caller passes them in, and exactly that many in an expansion the
  decoder returns. The CSRC ids are at least \<open>csrc_count\<close> many. The memory of a frame, which comes from a
  cache or from \<open>malloc\<close> and is as long as asked for, is the list of its bytes. An extension pointer
  that an earlier use left in a cached frame, which the decoder keeps beside a length of 0, is read as no
  data.
\<close>

record rtp_block =
  blk_length :: nat
  blk_data :: "bytes option"

record ov_rtp_frame_expansion =
  version :: u8
  padding_bit :: bool
  extension_bit :: bool
  marker_bit :: bool
  payload_type :: u8
  sequence_number :: u16
  timestamp :: u32
  ssrc :: u32
  csrc_count :: u8
  csrc_ids :: "u32 list"
  payload :: rtp_block
  padding_blk :: rtp_block
  extension_type :: u16
  extension :: rtp_block

record ov_rtp_frame =
  frame_bytes :: bytes
  expanded :: ov_rtp_frame_expansion

definition RTP_HEADER_MIN_LENGTH :: nat where
  "RTP_HEADER_MIN_LENGTH = 12"

subsection \<open>Encoding\<close>

text \<open>The number of bytes a frame takes; \<open>None\<close>: the fields cannot be encoded.\<close>

definition encoded_length :: "ov_rtp_frame_expansion \<Rightarrow> nat option" where
  "encoded_length d =
    (if csrc_count d > 15 then None
     else if 4 * unat (of_nat (blk_length (extension d) div 4) :: u16) \<noteq> blk_length (extension d) then None
     else if 0xff < blk_length (padding_blk d) then None
     else Some (RTP_HEADER_MIN_LENGTH + unat (csrc_count d) * 4 +
            (if extension_bit d then 4 + blk_length (extension d) else 0) +
            blk_length (payload d) + blk_length (padding_blk d) + (if padding_bit d then 1 else 0)))"

definition first_byte :: "ov_rtp_frame_expansion \<Rightarrow> u8" where
  "first_byte d =
    push_bit 6 (version d) OR (csrc_count d AND 0x0F) OR (if padding_bit d then 0x20 else 0) OR
    (if extension_bit d then 0x10 else 0)"

definition second_byte :: "ov_rtp_frame_expansion \<Rightarrow> u8" where
  "second_byte d = (if marker_bit d then 0x80 else 0) OR (payload_type d AND 0x7F)"

text \<open>The fixed header and the CSRC ids, written into a cleared buffer of length \<open>n\<close>.\<close>

definition encode_header :: "ov_rtp_frame_expansion \<Rightarrow> nat \<Rightarrow> bytes" where
  "encode_header d n =
    (let b0 = replicate n 0;
         b1 = write_at b0 0 [first_byte d];
         b2 = write_at b1 1 [second_byte d];
         b3 = write_at b2 2 (htons (sequence_number d));
         b4 = write_at b3 4 (htonl (timestamp d));
         b5 = write_at b4 8 (htonl (ssrc d))
     in write_at b5 12 (concat (map htonl (take (unat (csrc_count d)) (csrc_ids d)))))"

text \<open>
  The three parts behind, each with the position \<open>nxt\<close>. \<open>None\<close> is the error branch. An
  extension of which only the length is given does not advance the position.
\<close>

definition encode_extension :: "ov_rtp_frame_expansion \<Rightarrow> bytes \<Rightarrow> nat \<Rightarrow> (bytes \<times> nat \<times> rtp_block) option" where
  "encode_extension d b nxt =
    (if \<not> extension_bit d then Some (b, nxt, \<lparr>blk_length = 0, blk_data = None\<rparr>)
     else let b1 = write_at b nxt (htons (extension_type d));
              b2 = write_at b1 (nxt + 2) (htons (of_nat (blk_length (extension d) div 4)))
          in case blk_data (extension d) of
               None \<Rightarrow> Some (b2, nxt + 4, \<lparr>blk_length = 0, blk_data = None\<rparr>)
             | Some ext \<Rightarrow>
                 if blk_length (extension d) = 0 then None
                 else let e = take (blk_length (extension d)) ext
                      in Some (write_at b2 (nxt + 4) e, nxt + 4 + blk_length (extension d),
                           \<lparr>blk_length = blk_length (extension d), blk_data = Some e\<rparr>))"

definition encode_payload :: "ov_rtp_frame_expansion \<Rightarrow> bytes \<Rightarrow> nat \<Rightarrow> (bytes \<times> nat) option" where
  "encode_payload d b nxt =
    (if 0 < blk_length (payload d) then
       (case blk_data (payload d) of
          None \<Rightarrow> None
        | Some p \<Rightarrow> Some (write_at b nxt (take (blk_length (payload d)) p), nxt + blk_length (payload d)))
     else Some (b, nxt))"

definition encode_padding :: "ov_rtp_frame_expansion \<Rightarrow> bytes \<Rightarrow> nat \<Rightarrow> bytes option" where
  "encode_padding d b nxt =
    (case (if 0 < blk_length (padding_blk d) then
             (if \<not> padding_bit d then None
              else case blk_data (padding_blk d) of
                     None \<Rightarrow> None
                   | Some p \<Rightarrow> Some (write_at b nxt (take (blk_length (padding_blk d)) p), nxt + blk_length (padding_blk d)))
           else Some (b, nxt)) of
       None \<Rightarrow> None
     | Some (b', nxt') \<Rightarrow>
         Some (if padding_bit d then write_at b' nxt' [of_nat (blk_length (padding_blk d) + 1)] else b'))"

text \<open>
  The expansion of the new frame is a copy of the caller's whose blocks point to the bytes that were
  written.
\<close>

definition written_block :: "rtp_block \<Rightarrow> rtp_block" where
  "written_block b = (if 0 < blk_length b then b\<lparr>blk_data := map_option (take (blk_length b)) (blk_data b)\<rparr> else b)"

definition ov_rtp_frame_encode :: "ov_rtp_frame_expansion option \<Rightarrow> ov_rtp_frame option" where
  "ov_rtp_frame_encode rtp_data =
    (case rtp_data of
       None \<Rightarrow> None
     | Some d \<Rightarrow>
         (case encoded_length d of
            None \<Rightarrow> None
          | Some n \<Rightarrow>
              (case encode_extension d (encode_header d n) (12 + unat (csrc_count d) * 4) of
                 None \<Rightarrow> None
               | Some (b1, nxt1, ext) \<Rightarrow>
                   (case encode_payload d b1 nxt1 of
                      None \<Rightarrow> None
                    | Some (b2, nxt2) \<Rightarrow>
                        (case encode_padding d b2 nxt2 of
                           None \<Rightarrow> None
                         | Some b3 \<Rightarrow> Some \<lparr>frame_bytes = b3, expanded = d\<lparr>extension := ext, payload := written_block (payload d),
                               padding_blk := written_block (padding_blk d)\<rparr>\<rparr>)))))"

subsection \<open>Decoding\<close>

text \<open>A block of \<open>n\<close> bytes at an offset.\<close>

definition block_at :: "bytes \<Rightarrow> nat \<Rightarrow> nat \<Rightarrow> rtp_block" where
  "block_at bytes off n = \<lparr>blk_length = n, blk_data = Some (take n (drop off bytes))\<rparr>"

definition empty_block :: rtp_block where
  "empty_block = \<lparr>blk_length = 0, blk_data = None\<rparr>"

definition set_csrc_array_to_little_endian :: "bytes \<Rightarrow> nat \<Rightarrow> nat \<Rightarrow> u32 list" where
  "set_csrc_array_to_little_endian bytes current num =
    map (\<lambda>i. ntohl (take 4 (drop (current + 4 * i) bytes))) [0..<num]"

text \<open>The payload and the padding in the bytes from \<open>current\<close> on.\<close>

definition decode_payload :: "bytes \<Rightarrow> nat \<Rightarrow> bool \<Rightarrow> (rtp_block \<times> rtp_block) option" where
  "decode_payload bytes current padded =
    (let rest = length bytes - current
     in if padded then
          (let byte = unat (bytes ! (length bytes - 1))
           in if byte = 0 then None
              else if byte > rest then None
              else Some (block_at bytes current (rest - byte), block_at bytes (length bytes - byte) (byte - 1)))
        else Some (if current < length bytes then block_at bytes current rest else empty_block, empty_block))"

definition ov_rtp_frame_decode :: "bytes option \<Rightarrow> ov_rtp_frame option" where
  "ov_rtp_frame_decode input =
    (case input of
       None \<Rightarrow> None
     | Some bytes \<Rightarrow>
         if length bytes = 0 then None
         else
           let byte = bytes ! 0;
               ext = (byte AND 0x10 \<noteq> 0);
               count = byte AND 0x0f;
               expected_length = RTP_HEADER_MIN_LENGTH + (if ext then 4 else 0) + unat count * 4
           in if 0x0e < count then None
              else if length bytes < expected_length then None
              else
                let current = 12 + unat count * 4;
                    ext_length = (if ext then unat (ntohs (take 2 (drop (current + 2) bytes))) * 4 else 0);
                    data = (if ext then current + 4 else current)
                in if length bytes < expected_length + ext_length then None
                   else (case decode_payload bytes (data + ext_length) (byte AND 0x20 \<noteq> 0) of
                           None \<Rightarrow> None
                         | Some (pl, pad) \<Rightarrow>
                             Some \<lparr>frame_bytes = bytes,
                               expanded =
                                 \<lparr>version = drop_bit 6 byte AND 0x03, padding_bit = (byte AND 0x20 \<noteq> 0),
                                  extension_bit = ext, marker_bit = (bytes ! 1 AND 0x80 \<noteq> 0),
                                  payload_type = bytes ! 1 AND 0x7f,
                                  sequence_number = ntohs (take 2 (drop 2 bytes)),
                                  timestamp = ntohl (take 4 (drop 4 bytes)), ssrc = ntohl (take 4 (drop 8 bytes)),
                                  csrc_count = count,
                                  csrc_ids = set_csrc_array_to_little_endian bytes 12 (unat count),
                                  payload = pl, padding_blk = pad,
                                  extension_type = (if ext then ntohs (take 2 (drop current bytes)) else 0),
                                  extension = (if 0 < ext_length then block_at bytes data ext_length else empty_block)\<rparr>\<rparr>))"

definition impl_rtp_frame_copy :: "ov_rtp_frame option \<Rightarrow> ov_rtp_frame option" where
  "impl_rtp_frame_copy self =
    (case self of None \<Rightarrow> None | Some f \<Rightarrow> if length (frame_bytes f) = 0 then None else ov_rtp_frame_decode (Some (frame_bytes f)))"

subsection \<open>The bytes of a frame\<close>

text \<open>Expansions that the caller has filled in properly.\<close>

definition rtp_wf :: "ov_rtp_frame_expansion \<Rightarrow> bool" where
  "rtp_wf d \<longleftrightarrow> version d \<le> 3 \<and> payload_type d \<le> 127 \<and> csrc_count d \<le> 15 \<and> unat (csrc_count d) \<le> length (csrc_ids d) \<and>
    (\<forall>p. blk_data (payload d) = Some p \<longrightarrow> blk_length (payload d) \<le> length p) \<and>
    (blk_data (payload d) = None \<longrightarrow> blk_length (payload d) = 0) \<and>
    blk_length (padding_blk d) \<le> 255 \<and> (0 < blk_length (padding_blk d) \<longrightarrow> padding_bit d) \<and>
    (\<forall>p. blk_data (padding_blk d) = Some p \<longrightarrow> blk_length (padding_blk d) \<le> length p) \<and>
    (blk_data (padding_blk d) = None \<longrightarrow> blk_length (padding_blk d) = 0) \<and>
    blk_length (extension d) mod 4 = 0 \<and> blk_length (extension d) < 4 * 65536 \<and>
    (case blk_data (extension d) of
       None \<Rightarrow> blk_length (extension d) = 0
     | Some e \<Rightarrow> 0 < blk_length (extension d) \<and> blk_length (extension d) \<le> length e)"

definition blk_bytes :: "rtp_block \<Rightarrow> bytes" where
  "blk_bytes b = (case blk_data b of None \<Rightarrow> [] | Some p \<Rightarrow> take (blk_length b) p)"

definition rtp_head :: "ov_rtp_frame_expansion \<Rightarrow> bytes" where
  "rtp_head d = [first_byte d, second_byte d] @ htons (sequence_number d) @ htonl (timestamp d) @ htonl (ssrc d)"

definition rtp_ext :: "ov_rtp_frame_expansion \<Rightarrow> bytes" where
  "rtp_ext d = (if extension_bit d then htons (extension_type d) @ htons (of_nat (blk_length (extension d) div 4)) @ blk_bytes (extension d) else [])"

definition rtp_pad :: "ov_rtp_frame_expansion \<Rightarrow> bytes" where
  "rtp_pad d = (if padding_bit d then blk_bytes (padding_blk d) @ [of_nat (blk_length (padding_blk d) + 1)] else [])"

definition rtp_bytes :: "ov_rtp_frame_expansion \<Rightarrow> bytes" where
  "rtp_bytes d = rtp_head d @ concat (map htonl (take (unat (csrc_count d)) (csrc_ids d))) @ rtp_ext d @ blk_bytes (payload d) @ rtp_pad d"

lemma length_htonls: "length (concat (map htonl xs)) = length xs * 4"
  by (induction xs) simp_all

lemma length_blk_bytes:
  assumes "rtp_wf d"
  shows "length (blk_bytes (payload d)) = blk_length (payload d)" "length (blk_bytes (padding_blk d)) = blk_length (padding_blk d)"
    "length (blk_bytes (extension d)) = blk_length (extension d)"
  using assms by (auto simp: rtp_wf_def blk_bytes_def split: option.splits)

lemma length_rtp_head [simp]: "length (rtp_head d) = 12"
  by (simp add: rtp_head_def)

lemma encode_header_eq:
  assumes "12 + length (concat (map htonl (take (unat (csrc_count d)) (csrc_ids d)))) \<le> n"
  shows "encode_header d n = (rtp_head d @ concat (map htonl (take (unat (csrc_count d)) (csrc_ids d)))) @
    replicate (n - 12 - length (concat (map htonl (take (unat (csrc_count d)) (csrc_ids d))))) 0"
proof -
  let ?c = "concat (map htonl (take (unat (csrc_count d)) (csrc_ids d)))"
  note w = write_zeros_behind
  have n: "12 \<le> n" using assms by simp
  have 1: "write_at (replicate n 0) 0 [first_byte d] = [first_byte d] @ replicate (n - 1) 0"
    using n w [of "[first_byte d]" n "[]"] by simp
  have 2: "write_at ([first_byte d] @ replicate (n - 1) 0) 1 [second_byte d] = [first_byte d, second_byte d] @ replicate (n - 2) 0"
    using n w [of "[second_byte d]" "n - 1" "[first_byte d]"] by (simp add: numeral_2_eq_2)
  have 3: "write_at ([first_byte d, second_byte d] @ replicate (n - 2) 0) 2 (htons (sequence_number d)) =
      ([first_byte d, second_byte d] @ htons (sequence_number d)) @ replicate (n - 4) 0"
    using n w [of "htons (sequence_number d)" "n - 2" "[first_byte d, second_byte d]"] by (simp add: numeral_2_eq_2)
  have 4: "write_at (([first_byte d, second_byte d] @ htons (sequence_number d)) @ replicate (n - 4) 0) 4 (htonl (timestamp d)) =
      (([first_byte d, second_byte d] @ htons (sequence_number d)) @ htonl (timestamp d)) @ replicate (n - 8) 0"
    using n w [of "htonl (timestamp d)" "n - 4" "[first_byte d, second_byte d] @ htons (sequence_number d)"] by simp
  have 5: "write_at ((([first_byte d, second_byte d] @ htons (sequence_number d)) @ htonl (timestamp d)) @ replicate (n - 8) 0) 8 (htonl (ssrc d)) =
      rtp_head d @ replicate (n - 12) 0"
    using n w [of "htonl (ssrc d)" "n - 8" "([first_byte d, second_byte d] @ htons (sequence_number d)) @ htonl (timestamp d)"]
    by (simp add: rtp_head_def)
  have 6: "write_at (rtp_head d @ replicate (n - 12) 0) 12 ?c = (rtp_head d @ ?c) @ replicate (n - 12 - length ?c) 0"
    using assms w [of ?c "n - 12" "rtp_head d"] by simp
  show ?thesis unfolding encode_header_def Let_def 1 2 3 4 5 6 ..
qed

lemma encode_extension_eq:
  assumes wf: "rtp_wf d" and k: "length (rtp_ext d) \<le> k"
  obtains ext where "encode_extension d (xs @ replicate k 0) (length xs) =
      Some ((xs @ rtp_ext d) @ replicate (k - length (rtp_ext d)) 0, length (xs @ rtp_ext d), ext)"
proof (cases "extension_bit d")
  case True
  note w = write_zeros_behind and l = length_blk_bytes [OF wf]
  let ?t = "htons (extension_type d)" and ?n = "htons (of_nat (blk_length (extension d) div 4))" and ?e = "blk_bytes (extension d)"
  have k: "4 + length ?e \<le> k" "rtp_ext d = ?t @ ?n @ ?e" using k True by (simp_all add: rtp_ext_def)
  have 1: "write_at (xs @ replicate k 0) (length xs) ?t = (xs @ ?t) @ replicate (k - 2) 0" using k w [of ?t k xs] by simp
  have 2: "write_at ((xs @ ?t) @ replicate (k - 2) 0) (length xs + 2) ?n = (xs @ ?t @ ?n) @ replicate (k - 4) 0"
    using k w [of ?n "k - 2" "xs @ ?t"] by simp
  have 3: "write_at ((xs @ ?t @ ?n) @ replicate (k - 4) 0) (length xs + 4) ?e = (xs @ ?t @ ?n @ ?e) @ replicate (k - 4 - length ?e) 0"
    using k w [of ?e "k - 4" "xs @ ?t @ ?n"] by simp
  show ?thesis
  proof (cases "blk_data (extension d)")
    case None
    then have "?e = []" "blk_length (extension d) = 0" using wf by (simp_all add: blk_bytes_def rtp_wf_def)
    with True None k 1 2 show ?thesis by (intro that) (simp add: encode_extension_def Let_def)
  next
    case (Some e)
    then have "?e = take (blk_length (extension d)) e" "0 < blk_length (extension d)" using wf by (simp_all add: blk_bytes_def rtp_wf_def)
    with True Some k 1 2 3 l show ?thesis
      by (intro that [of "\<lparr>blk_length = blk_length (extension d), blk_data = Some ?e\<rparr>"])
        (simp add: encode_extension_def Let_def)
  qed
qed (intro that, simp add: encode_extension_def rtp_ext_def)

lemma encode_payload_eq:
  assumes wf: "rtp_wf d" and k: "length (blk_bytes (payload d)) \<le> k"
  shows "encode_payload d (xs @ replicate k 0) (length xs) =
    Some ((xs @ blk_bytes (payload d)) @ replicate (k - length (blk_bytes (payload d))) 0, length (xs @ blk_bytes (payload d)))"
  using k write_zeros_behind [of "blk_bytes (payload d)" k xs] length_blk_bytes [OF wf] wf
  by (auto simp: encode_payload_def blk_bytes_def rtp_wf_def split: option.splits)

lemma encode_padding_eq:
  assumes wf: "rtp_wf d" and k: "length (rtp_pad d) \<le> k"
  shows "encode_padding d (xs @ replicate k 0) (length xs) = Some ((xs @ rtp_pad d) @ replicate (k - length (rtp_pad d)) 0)"
proof (cases "padding_bit d")
  case True
  note w = write_zeros_behind and l = length_blk_bytes [OF wf]
  let ?p = "blk_bytes (padding_blk d)" and ?l = "[of_nat (blk_length (padding_blk d) + 1) :: u8]"
  have k': "length ?p + 1 \<le> k" "rtp_pad d = ?p @ ?l" using k True by (simp_all add: rtp_pad_def)
  have 1: "write_at (xs @ replicate k 0) (length xs) ?p = (xs @ ?p) @ replicate (k - length ?p) 0" using k' w [of ?p k xs] by simp
  have 2: "write_at ((xs @ ?p) @ replicate (k - length ?p) 0) (length xs + length ?p) ?l = (xs @ ?p @ ?l) @ replicate (k - length ?p - 1) 0"
    using k' w [of ?l "k - length ?p" "xs @ ?p"] by simp
  show ?thesis
  proof (cases "blk_length (padding_blk d) = 0")
    case True
    then have "?p = []" using l by simp
    with \<open>padding_bit d\<close> True 2 k' show ?thesis by (simp add: encode_padding_def)
  next
    case False
    then obtain p where "blk_data (padding_blk d) = Some p" "?p = take (blk_length (padding_blk d)) p"
      using wf by (cases "blk_data (padding_blk d)") (auto simp: rtp_wf_def blk_bytes_def)
    with \<open>padding_bit d\<close> False 1 2 k' l show ?thesis by (simp add: encode_padding_def)
  qed
next
  case False
  then have "blk_length (padding_blk d) = 0" using wf by (auto simp: rtp_wf_def)
  with False show ?thesis by (simp add: encode_padding_def rtp_pad_def)
qed

lemma extension_length_check:
  assumes "n mod 4 = 0" "n < 4 * 65536"
  shows "unat (of_nat (n div 4) :: u16) = n div 4" "4 * unat (of_nat (n div 4) :: u16) = n"
proof -
  have "n div 4 < 65536" using assms(2) by (simp add: less_mult_imp_div_less mult.commute)
  then show "unat (of_nat (n div 4) :: u16) = n div 4" by (simp add: unat_of_nat take_bit_eq_mod)
  then show "4 * unat (of_nat (n div 4) :: u16) = n" using assms(1) by auto
qed

lemma encoded_length_eq:
  assumes wf: "rtp_wf d"
  shows "encoded_length d = Some (length (rtp_bytes d))"
    "length (concat (map htonl (take (unat (csrc_count d)) (csrc_ids d)))) = unat (csrc_count d) * 4"
proof -
  show c: "length (concat (map htonl (take (unat (csrc_count d)) (csrc_ids d)))) = unat (csrc_count d) * 4"
    using wf by (simp add: length_htonls rtp_wf_def)
  have "rtp_wf d \<Longrightarrow> \<not> csrc_count d > 15" by (simp add: rtp_wf_def not_less)
  then show "encoded_length d = Some (length (rtp_bytes d))"
    using wf extension_length_check [of "blk_length (extension d)"] length_blk_bytes [OF wf] c
    by (auto simp: encoded_length_def rtp_wf_def rtp_bytes_def rtp_ext_def rtp_pad_def RTP_HEADER_MIN_LENGTH_def)
qed

lemma encode_rtp_bytes:
  assumes wf: "rtp_wf d"
  obtains f where "ov_rtp_frame_encode (Some d) = Some f" "frame_bytes f = rtp_bytes d"
proof -
  let ?c = "concat (map htonl (take (unat (csrc_count d)) (csrc_ids d)))" and ?n = "length (rtp_bytes d)"
  let ?p = "blk_bytes (payload d)"
  note n = encoded_length_eq(1) [OF wf] and c = encoded_length_eq(2) [OF wf]
  define k1 where "k1 = ?n - 12 - length ?c"
  have nl: "?n = 12 + length ?c + length (rtp_ext d) + length ?p + length (rtp_pad d)"
    by (simp add: rtp_bytes_def)
  have h: "encode_header d ?n = (rtp_head d @ ?c) @ replicate k1 0"
    unfolding k1_def using nl by (intro encode_header_eq) simp
  have p: "12 + unat (csrc_count d) * 4 = length (rtp_head d @ ?c)" using c by simp
  have "length (rtp_ext d) \<le> k1" using nl by (simp add: k1_def)
  then obtain ext where e: "encode_extension d (encode_header d ?n) (12 + unat (csrc_count d) * 4) =
      Some (((rtp_head d @ ?c) @ rtp_ext d) @ replicate (k1 - length (rtp_ext d)) 0, length ((rtp_head d @ ?c) @ rtp_ext d), ext)"
    unfolding h p using encode_extension_eq [OF wf] by blast
  define k2 where "k2 = k1 - length (rtp_ext d)"
  have "length ?p \<le> k2" using nl by (simp add: k1_def k2_def)
  note pl = encode_payload_eq [OF wf this, of "(rtp_head d @ ?c) @ rtp_ext d"]
  have k3: "k2 - length ?p = length (rtp_pad d)" using nl by (simp add: k1_def k2_def)
  have pd: "encode_padding d ((((rtp_head d @ ?c) @ rtp_ext d) @ ?p) @ replicate (k2 - length ?p) 0)
      (length (((rtp_head d @ ?c) @ rtp_ext d) @ ?p)) = Some (rtp_bytes d)"
    unfolding k3 encode_padding_eq [OF wf order_refl] by (simp add: rtp_bytes_def)
  show thesis
    by (rule that) (simp only: ov_rtp_frame_encode_def option.case n e [folded k2_def] pl pd prod.case, simp)
qed

subsection \<open>Reading the bytes\<close>

lemma first_byte_bits:
  assumes "version d \<le> 3" "csrc_count d \<le> 15"
  shows "(first_byte d AND 0x10 \<noteq> 0) = extension_bit d" "(first_byte d AND 0x20 \<noteq> 0) = padding_bit d"
    "first_byte d AND 0x0f = csrc_count d" "drop_bit 6 (first_byte d) AND 0x03 = version d"
proof -
  have v: "\<not> bit (version d) n" if "2 \<le> n" for n
    using that assms(1) word_less_bit_beyond [of "version d" 2 n] by (simp add: word_le_nat_alt)
  have c: "\<not> bit (csrc_count d) n" if "4 \<le> n" for n
    using that assms(2) word_less_bit_beyond [of "csrc_count d" 4 n] by (simp add: word_le_nat_alt)
  show "(first_byte d AND 0x10 \<noteq> 0) = extension_bit d" "(first_byte d AND 0x20 \<noteq> 0) = padding_bit d"
    "first_byte d AND 0x0f = csrc_count d" "drop_bit 6 (first_byte d) AND 0x03 = version d"
    using v c by (simp_all add: first_byte_def word_bits)
qed

lemma second_byte_bits:
  assumes "payload_type d \<le> 127"
  shows "(second_byte d AND 0x80 \<noteq> 0) = marker_bit d" "second_byte d AND 0x7f = payload_type d"
proof -
  have "\<not> bit (payload_type d) n" if "7 \<le> n" for n
    using that assms word_less_bit_beyond [of "payload_type d" 7 n] by (simp add: word_le_nat_alt)
  then show "(second_byte d AND 0x80 \<noteq> 0) = marker_bit d" "second_byte d AND 0x7f = payload_type d"
    by (simp_all add: second_byte_def word_bits)
qed

lemma read_head:
  "rtp_bytes d ! 0 = first_byte d" "rtp_bytes d ! 1 = second_byte d" "ntohs (take 2 (drop 2 (rtp_bytes d))) = sequence_number d"
  "ntohl (take 4 (drop 4 (rtp_bytes d))) = timestamp d" "ntohl (take 4 (drop 8 (rtp_bytes d))) = ssrc d"
  by (simp_all add: rtp_bytes_def rtp_head_def)

lemma drop_htonls: "drop (4 * i) (concat (map htonl xs)) = concat (map htonl (drop i xs))"
  by (induction xs arbitrary: i) (auto simp: drop_Cons split: nat.split)

lemma read_csrcs:
  assumes "length xs = k"
  shows "set_csrc_array_to_little_endian (xs @ concat (map htonl ids) @ ys) k (length ids) = ids"
proof (rule nth_equalityI)
  fix i assume "i < length (set_csrc_array_to_little_endian (xs @ concat (map htonl ids) @ ys) k (length ids))"
  then have i: "i < length ids" by (simp add: set_csrc_array_to_little_endian_def)
  have le: "4 * i \<le> length (concat (map htonl ids))" using i by (simp add: length_htonls)
  have "drop (k + 4 * i) (xs @ concat (map htonl ids) @ ys) = drop (4 * i) (concat (map htonl ids)) @ ys"
    using assms le by simp
  also have "\<dots> = htonl (ids ! i) @ concat (map htonl (drop (Suc i) ids)) @ ys"
    unfolding drop_htonls Cons_nth_drop_Suc [OF i, symmetric] by simp
  finally have d: "take 4 (drop (k + 4 * i) (xs @ concat (map htonl ids) @ ys)) = htonl (ids ! i)" by simp
  have "set_csrc_array_to_little_endian (xs @ concat (map htonl ids) @ ys) k (length ids) ! i =
      ntohl (take 4 (drop (k + 4 * i) (xs @ concat (map htonl ids) @ ys)))"
    unfolding set_csrc_array_to_little_endian_def using i by (subst nth_map) simp_all
  then show "set_csrc_array_to_little_endian (xs @ concat (map htonl ids) @ ys) k (length ids) ! i = ids ! i"
    unfolding d by simp
qed (simp add: set_csrc_array_to_little_endian_def)

text \<open>
  What the decoder makes of the fields: only the CSRC ids that count, and blocks of exactly the
  bytes that were written.
\<close>

definition rtp_normal :: "ov_rtp_frame_expansion \<Rightarrow> ov_rtp_frame_expansion" where
  "rtp_normal d = d
    \<lparr>csrc_ids := take (unat (csrc_count d)) (csrc_ids d),
     payload := (if padding_bit d \<or> 0 < blk_length (payload d)
                 then \<lparr>blk_length = blk_length (payload d), blk_data = Some (blk_bytes (payload d))\<rparr> else empty_block),
     padding_blk := (if padding_bit d
                 then \<lparr>blk_length = blk_length (padding_blk d), blk_data = Some (blk_bytes (padding_blk d))\<rparr> else empty_block),
     extension_type := (if extension_bit d then extension_type d else 0),
     extension := (if extension_bit d \<and> 0 < blk_length (extension d)
                 then \<lparr>blk_length = blk_length (extension d), blk_data = Some (blk_bytes (extension d))\<rparr> else empty_block)\<rparr>"

lemma drop_prefix: "length xs = n \<Longrightarrow> drop (n + m) (xs @ ys) = drop m ys"
  by simp

lemma decode_payload_eq:
  assumes wf: "rtp_wf d" and pad: "blk_length (padding_blk d) \<le> 254" and xs: "length xs = n"
  shows "decode_payload (xs @ blk_bytes (payload d) @ rtp_pad d) n (padding_bit d) =
    Some (payload (rtp_normal d), padding_blk (rtp_normal d))"
proof (cases "padding_bit d")
  case True
  let ?p = "blk_bytes (payload d)" and ?q = "blk_bytes (padding_blk d)"
  let ?l = "of_nat (blk_length (padding_blk d) + 1) :: u8"
  let ?b = "xs @ ?p @ ?q @ [?l]"
  note l = length_blk_bytes [OF wf]
  have b: "unat ?l = blk_length (padding_blk d) + 1" using pad by (simp only: unat_of_nat take_bit_eq_mod) simp
  have last: "?b ! (length ?b - 1) = ?l" by (simp add: nth_append)
  have len: "length ?b = n + blk_length (payload d) + blk_length (padding_blk d) + 1" using xs l by simp
  have rest: "length ?b - n - (blk_length (padding_blk d) + 1) = blk_length (payload d)" using len by simp
  have p: "block_at ?b n (blk_length (payload d)) = payload (rtp_normal d)"
    using xs l True by (simp add: block_at_def rtp_normal_def)
  have "length ?b - (blk_length (padding_blk d) + 1) = length (xs @ ?p)" using len xs l by simp
  then have q: "block_at ?b (length ?b - (blk_length (padding_blk d) + 1)) (blk_length (padding_blk d)) = padding_blk (rtp_normal d)"
    using l True by (simp add: block_at_def rtp_normal_def)
  have rp: "rtp_pad d = ?q @ [?l]" using True by (simp add: rtp_pad_def)
  have "\<not> blk_length (padding_blk d) + 1 > length ?b - n" using len by simp
  then show ?thesis
    unfolding rp decode_payload_def Let_def last b rest p using True q by (simp del: length_append)
next
  case False
  then show ?thesis
    using xs length_blk_bytes [OF wf] by (simp add: decode_payload_def Let_def rtp_pad_def block_at_def rtp_normal_def)
qed

lemma read_extension:
  assumes wf: "rtp_wf d" and ext: "extension_bit d" and n: "n = 12 + unat (csrc_count d) * 4"
  shows "ntohs (take 2 (drop n (rtp_bytes d))) = extension_type d"
    "unat (ntohs (take 2 (drop (n + 2) (rtp_bytes d)))) * 4 = blk_length (extension d)"
    "block_at (rtp_bytes d) (n + 4) (blk_length (extension d)) =
      \<lparr>blk_length = blk_length (extension d), blk_data = Some (blk_bytes (extension d))\<rparr>"
proof -
  let ?xs = "rtp_head d @ concat (map htonl (take (unat (csrc_count d)) (csrc_ids d)))"
  let ?ys = "htons (extension_type d) @ htons (of_nat (blk_length (extension d) div 4)) @ blk_bytes (extension d) @ blk_bytes (payload d) @ rtp_pad d"
  have b: "rtp_bytes d = ?xs @ ?ys" using ext by (simp add: rtp_bytes_def rtp_ext_def)
  have x: "length ?xs = n" using encoded_length_eq(2) [OF wf] n by simp
  have "drop n (rtp_bytes d) = ?ys" unfolding b using drop_prefix [OF x, of 0] by (simp del: drop_append)
  then show "ntohs (take 2 (drop n (rtp_bytes d))) = extension_type d" by simp
  have "blk_length (extension d) mod 4 = 0" "blk_length (extension d) < 4 * 65536" using wf by (simp_all add: rtp_wf_def)
  from extension_length_check(2) [OF this]
  show "unat (ntohs (take 2 (drop (n + 2) (rtp_bytes d)))) * 4 = blk_length (extension d)"
    unfolding b drop_prefix [OF x] by simp
  show "block_at (rtp_bytes d) (n + 4) (blk_length (extension d)) =
      \<lparr>blk_length = blk_length (extension d), blk_data = Some (blk_bytes (extension d))\<rparr>"
    unfolding b block_at_def drop_prefix [OF x] using length_blk_bytes [OF wf] by simp
qed

lemma read_all_csrcs:
  assumes wf: "rtp_wf d"
  shows "set_csrc_array_to_little_endian (rtp_bytes d) 12 (unat (csrc_count d)) = take (unat (csrc_count d)) (csrc_ids d)"
proof -
  have "length (take (unat (csrc_count d)) (csrc_ids d)) = unat (csrc_count d)" using wf by (simp add: rtp_wf_def)
  then show ?thesis
    using read_csrcs [OF length_rtp_head, of d "take (unat (csrc_count d)) (csrc_ids d)" "rtp_ext d @ blk_bytes (payload d) @ rtp_pad d"]
    by (simp only: rtp_bytes_def)
qed

lemma length_rtp_bytes:
  assumes wf: "rtp_wf d"
  shows "length (rtp_bytes d) = 12 + unat (csrc_count d) * 4 + length (rtp_ext d) + blk_length (payload d) + length (rtp_pad d)"
    "length (rtp_ext d) = (if extension_bit d then 4 + blk_length (extension d) else 0)"
  using encoded_length_eq(2) [OF wf] length_blk_bytes [OF wf] by (simp_all add: rtp_bytes_def rtp_ext_def)

lemma decode_rtp_bytes:
  assumes wf: "rtp_wf d" and count: "csrc_count d \<le> 14" and pad: "blk_length (padding_blk d) \<le> 254"
  shows "ov_rtp_frame_decode (Some (rtp_bytes d)) = Some \<lparr>frame_bytes = rtp_bytes d, expanded = rtp_normal d\<rparr>"
proof -
  let ?n = "12 + unat (csrc_count d) * 4"
  let ?xs = "rtp_head d @ concat (map htonl (take (unat (csrc_count d)) (csrc_ids d))) @ rtp_ext d"
  have v: "version d \<le> 3" "csrc_count d \<le> 15" "payload_type d \<le> 127" using wf by (simp_all add: rtp_wf_def)
  have c: "\<not> 0x0e < csrc_count d" using count by simp
  have len: "length (rtp_bytes d) \<noteq> 0" "\<not> length (rtp_bytes d) < RTP_HEADER_MIN_LENGTH + (if extension_bit d then 4 else 0) + unat (csrc_count d) * 4"
    "\<not> length (rtp_bytes d) < RTP_HEADER_MIN_LENGTH + (if extension_bit d then 4 else 0) + unat (csrc_count d) * 4 +
      (if extension_bit d then blk_length (extension d) else 0)"
    using length_rtp_bytes [OF wf] by (simp_all add: RTP_HEADER_MIN_LENGTH_def)
  have el: "(if extension_bit d then unat (ntohs (take 2 (drop (?n + 2) (rtp_bytes d)))) * 4 else 0) = (if extension_bit d then blk_length (extension d) else 0)"
    using read_extension(2) [OF wf _ refl] by simp
  have b: "rtp_bytes d = ?xs @ blk_bytes (payload d) @ rtp_pad d" by (simp add: rtp_bytes_def)
  have "length ?xs = (if extension_bit d then ?n + 4 else ?n) + (if extension_bit d then blk_length (extension d) else 0)"
    using encoded_length_eq(2) [OF wf] length_rtp_bytes(2) [OF wf] by simp
  note dp = decode_payload_eq [OF wf pad this, folded b]
  have x: "(if 0 < (if extension_bit d then blk_length (extension d) else 0)
        then block_at (rtp_bytes d) (if extension_bit d then ?n + 4 else ?n) (if extension_bit d then blk_length (extension d) else 0)
        else empty_block) = extension (rtp_normal d)"
      "(if extension_bit d then ntohs (take 2 (drop ?n (rtp_bytes d))) else 0) = extension_type (rtp_normal d)"
    using read_extension [OF wf _ refl] by (simp_all add: rtp_normal_def)
  show ?thesis
    unfolding ov_rtp_frame_decode_def Let_def option.case read_head first_byte_bits [OF v(1,2)]
      second_byte_bits [OF v(3)] if_not_P [OF c] if_not_P [OF len(1)] if_not_P [OF len(2)] el if_not_P [OF len(3)] dp prod.case x
      read_all_csrcs [OF wf]
    by (simp add: rtp_normal_def)
qed

subsection \<open>Frames that come from the network\<close>

lemma htons_load: "2 \<le> length xs \<Longrightarrow> htons (ntohs (take 2 xs)) = take 2 xs"
  by (cases xs; cases "tl xs") auto

lemma htonl_load:
  assumes "4 \<le> length xs"
  shows "htonl (ntohl (take 4 xs)) = take 4 xs"
proof -
  from assms obtain a b c d ys where "xs = a # b # c # d # ys"
    by (metis (no_types) Suc_le_length_iff numeral_eq_Suc pred_numeral_simps(2,3) pred_numeral_simps(1) semiring_norm(26,27,28) BitM.simps(1))
  then show ?thesis by simp
qed

lemma write_csrcs:
  "k + 4 * n \<le> length bs \<Longrightarrow>
    concat (map htonl (set_csrc_array_to_little_endian bs k n)) = take (4 * n) (drop k bs)"
proof (induction n)
  case (Suc n)
  have "take 4 (drop (k + 4 * n) bs) = take 4 (drop (4 * n) (drop k bs))" by (simp add: add.commute)
  with Suc show ?case
    using htonl_load [of "drop (k + 4 * n) bs"] take_add [of "4 * n" 4 "drop k bs"]
    by (simp add: set_csrc_array_to_little_endian_def add.commute)
qed (simp add: set_csrc_array_to_little_endian_def)

lemma first_byte_of_bits:
  assumes "version d = drop_bit 6 b AND 0x03" "padding_bit d = (b AND 0x20 \<noteq> 0)" "extension_bit d = (b AND 0x10 \<noteq> 0)"
    "csrc_count d = b AND 0x0f"
  shows "first_byte d = b"
  unfolding first_byte_def assms by (simp add: word_bits)

lemma second_byte_of_bits:
  assumes "marker_bit d = (b AND 0x80 \<noteq> 0)" "payload_type d = b AND 0x7f"
  shows "second_byte d = b"
  unfolding second_byte_def assms by (simp add: word_bits)

text \<open>What a decoded frame says of the bytes it was read from.\<close>

lemma decode_facts:
  assumes dec: "ov_rtp_frame_decode (Some bs) = Some g" and d: "d = expanded g"
    and n: "n = 12 + unat (csrc_count d) * 4"
    and el: "el = (if extension_bit d then 4 + unat (ntohs (take 2 (drop (n + 2) bs))) * 4 else 0)"
  shows "frame_bytes g = bs" "n + el \<le> length bs" "(if extension_bit d then n + 4 else n) \<le> length bs" "csrc_count d \<le> 14"
    "first_byte d = bs ! 0" "second_byte d = bs ! 1" "sequence_number d = ntohs (take 2 (drop 2 bs))"
    "timestamp d = ntohl (take 4 (drop 4 bs))" "ssrc d = ntohl (take 4 (drop 8 bs))"
    "csrc_ids d = set_csrc_array_to_little_endian bs 12 (unat (csrc_count d))"
    "version d \<le> 3" "payload_type d \<le> 127"
    "decode_payload bs (n + el) (padding_bit d) = Some (payload d, padding_blk d)"
    "extension_bit d \<Longrightarrow> extension_type d = ntohs (take 2 (drop n bs))"
    "extension d = (if extension_bit d \<and> 4 < el then block_at bs (n + 4) (el - 4) else empty_block)"
proof -
  let ?b = "bs ! 0"
  have c: "\<not> 0x0e < ?b AND 0x0f" using dec by (auto simp: ov_rtp_frame_decode_def Let_def split: if_splits)
  have f: "version d = drop_bit 6 ?b AND 0x03" "padding_bit d = (?b AND 0x20 \<noteq> 0)" "extension_bit d = (?b AND 0x10 \<noteq> 0)"
    "csrc_count d = ?b AND 0x0f" "marker_bit d = (bs ! 1 AND 0x80 \<noteq> 0)" "payload_type d = bs ! 1 AND 0x7f"
    and r: "frame_bytes g = bs" "sequence_number d = ntohs (take 2 (drop 2 bs))"
    "timestamp d = ntohl (take 4 (drop 4 bs))" "ssrc d = ntohl (take 4 (drop 8 bs))"
    "csrc_ids d = set_csrc_array_to_little_endian bs 12 (unat (csrc_count d))"
    using dec unfolding d by (auto simp: ov_rtp_frame_decode_def Let_def split: if_splits option.splits)
  show "first_byte d = bs ! 0" by (rule first_byte_of_bits) (fact f)+
  show "second_byte d = bs ! 1" by (rule second_byte_of_bits) (fact f)+
  show "csrc_count d \<le> 14" using c f(4) by (simp add: not_less)
  show "version d \<le> 3" unfolding f by (rule word_and_le1)
  show "payload_type d \<le> 127" unfolding f by (rule word_and_le1)
  show "frame_bytes g = bs" "sequence_number d = ntohs (take 2 (drop 2 bs))"
    "timestamp d = ntohl (take 4 (drop 4 bs))" "ssrc d = ntohl (take 4 (drop 8 bs))"
    "csrc_ids d = set_csrc_array_to_little_endian bs 12 (unat (csrc_count d))" by (fact r)+
  have dec': "(if length bs = 0 then None else if 0x0e < csrc_count d then None
      else if length bs < 12 + (if extension_bit d then 4 else 0) + unat (csrc_count d) * 4 then None
      else if length bs < 12 + (if extension_bit d then 4 else 0) + unat (csrc_count d) * 4 + (el - 4) then None
      else map_option (\<lambda>(pl, pad). (pl, pad, if extension_bit d then ntohs (take 2 (drop n bs)) else 0,
          if 0 < el - 4 then block_at bs (if extension_bit d then n + 4 else n) (el - 4) else empty_block))
        (decode_payload bs ((if extension_bit d then n + 4 else n) + (el - 4)) (padding_bit d))) =
      Some (payload d, padding_blk d, extension_type d, extension d)"
  proof -
    have "el - 4 = (if extension_bit d then unat (ntohs (take 2 (drop (12 + unat (csrc_count d) * 4 + 2) bs))) * 4 else 0)"
      unfolding el n by simp
    then show ?thesis
      using arg_cong [OF dec, of "map_option (\<lambda>g. (payload (expanded g), padding_blk (expanded g), extension_type (expanded g), extension (expanded g)))"]
      unfolding ov_rtp_frame_decode_def Let_def option.case f(2-4) [symmetric] RTP_HEADER_MIN_LENGTH_def
      by (auto simp: d [symmetric] n [symmetric] split: if_splits option.splits prod.splits)
  qed
  show "n + el \<le> length bs" "(if extension_bit d then n + 4 else n) \<le> length bs"
    "decode_payload bs (n + el) (padding_bit d) = Some (payload d, padding_blk d)"
    "extension_bit d \<Longrightarrow> extension_type d = ntohs (take 2 (drop n bs))"
    "extension d = (if extension_bit d \<and> 4 < el then block_at bs (n + 4) (el - 4) else empty_block)"
    using dec' el n by (auto simp: add_ac split: if_splits)
qed

lemma decode_payload_bytes:
  assumes dp: "decode_payload bs n p = Some (pl, pad)" and n: "n \<le> length bs"
  shows "blk_bytes pl @ (if p then blk_bytes pad @ [of_nat (blk_length pad + 1)] else []) = drop n bs"
    "\<forall>x. blk_data pl = Some x \<longrightarrow> blk_length pl = length x" "blk_data pl = None \<longrightarrow> blk_length pl = 0"
    "\<forall>x. blk_data pad = Some x \<longrightarrow> blk_length pad = length x" "blk_data pad = None \<longrightarrow> blk_length pad = 0"
    "blk_length pad \<le> 254" "p \<or> blk_length pad = 0"
proof -
  let ?l = "bs ! (length bs - 1)"
  have "blk_bytes pl @ (if p then blk_bytes pad @ [of_nat (blk_length pad + 1)] else []) = drop n bs \<and>
    (\<forall>x. blk_data pl = Some x \<longrightarrow> blk_length pl = length x) \<and> (blk_data pl = None \<longrightarrow> blk_length pl = 0) \<and>
    (\<forall>x. blk_data pad = Some x \<longrightarrow> blk_length pad = length x) \<and> (blk_data pad = None \<longrightarrow> blk_length pad = 0) \<and>
    blk_length pad \<le> 254 \<and> (p \<or> blk_length pad = 0)"
  proof (cases p)
    case True
    let ?m = "length bs - unat ?l"
    have l: "0 < unat ?l" "unat ?l \<le> length bs - n" "pl = block_at bs n (?m - n)" "pad = block_at bs ?m (unat ?l - 1)"
      using dp True by (auto simp: decode_payload_def Let_def add_ac split: if_splits)
    have m: "n \<le> ?m" "?m < length bs" using l n by auto
    have "drop n bs = take (?m - n) (drop n bs) @ drop ?m bs"
      using append_take_drop_id [of "?m - n" "drop n bs"] unfolding drop_drop le_add_diff_inverse2 [OF m(1)] by (rule sym)
    also have "drop ?m bs = take (unat ?l - 1) (drop ?m bs) @ [?l]"
    proof -
      have "drop ?m bs \<noteq> []" "last (drop ?m bs) = ?l" "length (drop ?m bs) = unat ?l" using m l by (auto simp: last_conv_nth)
      then show ?thesis using append_butlast_last_id [of "drop ?m bs"] by (simp add: butlast_conv_take)
    qed
    finally have "blk_bytes pl @ blk_bytes pad @ [of_nat (blk_length pad + 1)] = drop n bs"
      using l by (simp add: blk_bytes_def block_at_def)
    moreover have "unat ?l \<le> 255" using unsigned_less [of ?l, where 'a = nat] by simp
    moreover have "?m - n = length (take (?m - n) (drop n bs))" "unat ?l - 1 = length (take (unat ?l - 1) (drop ?m bs))"
      using l(2) by (simp_all add: diff_le_mono)
    then have "\<forall>x. blk_data pl = Some x \<longrightarrow> blk_length pl = length x" "\<forall>x. blk_data pad = Some x \<longrightarrow> blk_length pad = length x"
      "blk_data pl \<noteq> None" "blk_data pad \<noteq> None" "blk_length pad = unat ?l - 1"
      unfolding l(3,4) block_at_def by (simp_all del: length_take)
    ultimately show ?thesis using True by auto
  next
    case False
    with dp n show ?thesis
      by (auto simp: decode_payload_def Let_def blk_bytes_def block_at_def empty_block_def split: if_splits)
  qed
  then show "blk_bytes pl @ (if p then blk_bytes pad @ [of_nat (blk_length pad + 1)] else []) = drop n bs"
    "\<forall>x. blk_data pl = Some x \<longrightarrow> blk_length pl = length x" "blk_data pl = None \<longrightarrow> blk_length pl = 0"
    "\<forall>x. blk_data pad = Some x \<longrightarrow> blk_length pad = length x" "blk_data pad = None \<longrightarrow> blk_length pad = 0"
    "blk_length pad \<le> 254" "p \<or> blk_length pad = 0" by - (elim conjE, assumption)+
qed

lemma decode_wf:
  assumes dec: "ov_rtp_frame_decode (Some bs) = Some g"
  shows "rtp_wf (expanded g)"
proof -
  define d where "d = expanded g"
  define n where "n = 12 + unat (csrc_count d) * 4"
  define el where "el = (if extension_bit d then 4 + unat (ntohs (take 2 (drop (n + 2) bs))) * 4 else 0)"
  note f = decode_facts [OF dec d_def n_def el_def] and p = decode_payload_bytes [OF f(13) f(2)]
  let ?w = "ntohs (take 2 (drop (n + 2) bs))"
  have "unat ?w < 65536" using unsigned_less [of ?w] by simp
  with f(2) have e: "blk_length (extension d) mod 4 = 0" "blk_length (extension d) < 4 * 65536"
    "case blk_data (extension d) of None \<Rightarrow> blk_length (extension d) = 0
      | Some e \<Rightarrow> 0 < blk_length (extension d) \<and> blk_length (extension d) \<le> length e"
    unfolding f(15) el_def by (auto simp: block_at_def empty_block_def)
  have "csrc_count d \<le> 15" using f(4) by (simp add: word_le_nat_alt)
  then have "rtp_wf d"
    unfolding rtp_wf_def using f(11,12) e p(2-7) f(10) by (auto simp: set_csrc_array_to_little_endian_def)
  then show ?thesis by (simp add: d_def)
qed

lemma decode_rtp_bytes_eq:
  assumes dec: "ov_rtp_frame_decode (Some bs) = Some g"
  shows "rtp_bytes (expanded g) = bs"
proof -
  define d where "d = expanded g"
  define n where "n = 12 + unat (csrc_count d) * 4"
  define el where "el = (if extension_bit d then 4 + unat (ntohs (take 2 (drop (n + 2) bs))) * 4 else 0)"
  note f = decode_facts [OF dec d_def n_def el_def] and p = decode_payload_bytes [OF f(13) f(2)]
  have n: "12 \<le> length bs" "12 + 4 * unat (csrc_count d) \<le> length bs" "n \<le> length bs" using f(2) by (simp_all add: n_def)
  have 1: "rtp_head d = take 12 bs"
  proof -
    have "[bs ! 0, bs ! 1] = take 2 bs" using n(1) by (simp add: list_eq_iff_nth_eq numeral_2_eq_2 less_Suc_eq)
    then have "rtp_head d = take 2 bs @ take 2 (drop 2 bs) @ take 4 (drop 4 bs) @ take 4 (drop 8 bs)"
      using n(1) by (simp add: rtp_head_def f(5-9) htons_load htonl_load)
    also have "\<dots> = take 12 bs"
      using take_add [of 2 2 bs] take_add [of 4 4 bs] take_add [of 8 4 bs] by simp
    finally show ?thesis .
  qed
  have 2: "concat (map htonl (take (unat (csrc_count d)) (csrc_ids d))) = take (n - 12) (drop 12 bs)"
    using write_csrcs [OF n(2)] f(10) by (simp add: n_def mult.commute set_csrc_array_to_little_endian_def)
  have 3: "rtp_ext d = take el (drop n bs)"
  proof (cases "extension_bit d")
    case True
    let ?e = "el - 4"
    have el: "el = 4 + ?e" "?e = 4 * unat (ntohs (take 2 (drop (n + 2) bs)))" using True by (simp_all add: el_def)
    have e: "blk_bytes (extension d) = take ?e (drop (n + 4) bs)" "blk_length (extension d) = ?e"
      using f(15) True by (auto simp: block_at_def blk_bytes_def empty_block_def)
    have "rtp_ext d = take 2 (drop n bs) @ take 2 (drop (n + 2) bs) @ take ?e (drop (n + 4) bs)"
      using True f(2) el e f(14) by (simp add: rtp_ext_def htons_load)
    also have "\<dots> = take (2 + (2 + ?e)) (drop n bs)" by (simp only: take_add) (simp add: add_ac numeral_eq_Suc)
    also have "2 + (2 + ?e) = el" using el(1) by simp
    finally show ?thesis .
  qed (simp add: rtp_ext_def el_def)
  have 4: "blk_bytes (payload d) @ rtp_pad d = drop (n + el) bs" using p(1) by (simp add: rtp_pad_def)
  have "rtp_bytes d = take 12 bs @ take (n - 12) (drop 12 bs) @ take el (drop n bs) @ drop (n + el) bs"
    unfolding rtp_bytes_def 1 2 3 4 ..
  also have "\<dots> = take (12 + ((n - 12) + el)) bs @ drop (n + el) bs" unfolding take_add by (simp add: n_def add.commute)
  also have "12 + ((n - 12) + el) = n + el" by (simp add: n_def)
  finally show ?thesis by (simp add: d_def)
qed

subsection \<open>Properties\<close>

text \<open>
  C30: Every expansion the caller has filled in properly, with at most 14 CSRC ids and at most 254
  bytes of padding, is encoded, and decoding the bytes of the frame gives back all its fields.
\<close>

theorem rtp_roundtrip:
  assumes "rtp_wf d" "csrc_count d \<le> 14" "blk_length (padding_blk d) \<le> 254"
  shows "\<exists>f. ov_rtp_frame_encode (Some d) = Some f \<and>
    ov_rtp_frame_decode (Some (frame_bytes f)) = Some \<lparr>frame_bytes = frame_bytes f, expanded = rtp_normal d\<rparr>"
  using encode_rtp_bytes [OF assms(1)] decode_rtp_bytes [OF assms] by metis

definition sample_rtp :: "u8 \<Rightarrow> nat \<Rightarrow> ov_rtp_frame_expansion" where
  "sample_rtp count pad =
    \<lparr>version = 2, padding_bit = True, extension_bit = True, marker_bit = True, payload_type = 111,
     sequence_number = 0x1234, timestamp = 0xcafe0001, ssrc = 7, csrc_count = count, csrc_ids = replicate 15 0xabcdef01,
     payload = \<lparr>blk_length = 3, blk_data = Some [1, 2, 3, 4]\<rparr>,
     padding_blk = \<lparr>blk_length = pad, blk_data = Some (replicate pad 0)\<rparr>,
     extension_type = 5, extension = \<lparr>blk_length = 4, blk_data = Some [9, 8, 7, 6]\<rparr>\<rparr>"

lemma sample_rtp_wf: "unat count \<le> 15 \<Longrightarrow> pad \<le> 255 \<Longrightarrow> rtp_wf (sample_rtp count pad)"
  by (simp add: rtp_wf_def sample_rtp_def word_le_nat_alt)

theorem rtp_roundtrip_witness:
  "\<exists>f. ov_rtp_frame_encode (Some (sample_rtp 2 2)) = Some f \<and>
    ov_rtp_frame_decode (Some (frame_bytes f)) = Some \<lparr>frame_bytes = frame_bytes f, expanded = rtp_normal (sample_rtp 2 2)\<rparr>"
  by (rule rtp_roundtrip) (simp_all add: sample_rtp_wf, simp_all add: sample_rtp_def)

text \<open>
  A frame that was decoded is encoded again to the very bytes it came from: the decoder loses
  nothing, and its result is always good for the encoder.
\<close>

theorem rtp_reencode:
  assumes "ov_rtp_frame_decode (Some bs) = Some g"
  shows "\<exists>f. ov_rtp_frame_encode (Some (expanded g)) = Some f \<and> frame_bytes f = bs \<and> impl_rtp_frame_copy (Some f) = Some g"
proof -
  obtain f where f: "ov_rtp_frame_encode (Some (expanded g)) = Some f" "frame_bytes f = bs"
    using encode_rtp_bytes [OF decode_wf [OF assms]] decode_rtp_bytes_eq [OF assms] by metis
  have "length bs \<noteq> 0" using assms by (auto simp: ov_rtp_frame_decode_def)
  with f assms show ?thesis by (simp add: impl_rtp_frame_copy_def)
qed

theorem rtp_reencode_witness:
  "\<exists>g f. ov_rtp_frame_decode (Some [0xb0, 0x6f, 0, 1, 0, 0, 0, 2, 0, 0, 0, 3, 0, 5, 0, 1, 9, 8, 7, 6, 1, 0, 2]) = Some g \<and>
    ov_rtp_frame_encode (Some (expanded g)) = Some f \<and>
    frame_bytes f = [0xb0, 0x6f, 0, 1, 0, 0, 0, 2, 0, 0, 0, 3, 0, 5, 0, 1, 9, 8, 7, 6, 1, 0, 2]"
proof -
  let ?bs = "[0xb0, 0x6f, 0, 1, 0, 0, 0, 2, 0, 0, 0, 3, 0, 5, 0, 1, 9, 8, 7, 6, 1, 0, 2]"
  have "ov_rtp_frame_decode (Some ?bs) \<noteq> None" by code_simp
  then obtain g where "ov_rtp_frame_decode (Some ?bs) = Some g" by auto
  from this rtp_reencode [OF this] show ?thesis by blast
qed

text \<open>
  The encoder accepts more than the decoder: a frame with 15 CSRC ids, and one with 255 bytes of
  padding, whose length byte wraps to 0, are encoded, but their bytes are rejected by the decoder.
\<close>

theorem rtp_limits:
  assumes wf: "rtp_wf d" and limit: "csrc_count d = 15 \<or> blk_length (padding_blk d) = 255"
  shows "\<exists>f. ov_rtp_frame_encode (Some d) = Some f \<and> ov_rtp_frame_decode (Some (frame_bytes f)) = None"
proof -
  have v: "version d \<le> 3" "csrc_count d \<le> 15" using wf by (simp_all add: rtp_wf_def)
  have "ov_rtp_frame_decode (Some (rtp_bytes d)) = None"
  proof (cases "csrc_count d = 15")
    case True
    then show ?thesis unfolding ov_rtp_frame_decode_def Let_def option.case read_head first_byte_bits [OF v] by simp
  next
    case False
    with limit wf have p: "padding_bit d" "blk_length (padding_blk d) = 255" by (auto simp: rtp_wf_def)
    then have "rtp_pad d = blk_bytes (padding_blk d) @ [0]" by (simp add: rtp_pad_def)
    then have "rtp_bytes d ! (length (rtp_bytes d) - 1) = 0" by (simp add: rtp_bytes_def nth_append)
    then have "decode_payload (rtp_bytes d) n True = None" for n by (simp add: decode_payload_def)
    then show ?thesis
      unfolding ov_rtp_frame_decode_def Let_def option.case read_head first_byte_bits [OF v] using p(1) by simp
  qed
  then show ?thesis using encode_rtp_bytes [OF wf] by metis
qed

theorem rtp_limits_witness:
  "(\<exists>f. ov_rtp_frame_encode (Some (sample_rtp 15 2)) = Some f \<and> ov_rtp_frame_decode (Some (frame_bytes f)) = None) \<and>
   (\<exists>f. ov_rtp_frame_encode (Some (sample_rtp 1 255)) = Some f \<and> ov_rtp_frame_decode (Some (frame_bytes f)) = None)"
  by (intro conjI rtp_limits) (simp_all add: sample_rtp_wf, simp_all add: sample_rtp_def)

end
