(* ===== verification/Ov_Buffer.thy ===== *)
theory Ov_Buffer
  imports Ov_Prelude
begin

text \<open>
  The byte buffer, \<open>ov_base/src/buffer/ov_buffer.c\<close>: bytes that are owned and grow, or a pointer
  to bytes of someone else (capacity 0).

  \<open>buf_start\<close> is the memory behind \<open>start\<close> (\<open>None\<close>: NULL): as many bytes as the capacity says, or, for a
  pointer, the bytes pointed to. The excess byte that some allocations add behind is not part of it, and the
  magic bytes are right in every buffer. A buffer that the cache of buffers hands out, or \<open>None\<close>, is the
  parameter \<open>cached\<close> of the operations that create a buffer. Sizes are natural numbers up to \<open>SIZE_MAX\<close>, and a sum of
  sizes wraps around as \<open>size_t\<close> does. The operations that compute such sums have an outer \<open>None\<close> for undefined behaviour:
  they would reallocate memory that is not theirs, or write outside of the memory they got for a sum that wrapped around.
  Data that is passed as a list of bytes lies outside of the buffer.
\<close>

record ov_buffer =
  buf_start :: "bytes option"
  buf_length :: nat
  buf_capacity :: nat

definition SIZE_MAX :: nat where
  "SIZE_MAX = 2 ^ 64 - 1"

text \<open>The sum of two sizes.\<close>

definition size_add :: "nat \<Rightarrow> nat \<Rightarrow> nat" where
  "size_add a b = (a + b) mod 2 ^ 64"

lemma size_add_small [simp]: "a + b < 2 ^ 64 \<Longrightarrow> size_add a b = a + b"
  by (simp add: size_add_def)

text \<open>The bytes behind a pointer that is not NULL.\<close>

definition mem :: "ov_buffer \<Rightarrow> bytes" where
  "mem b = (case buf_start b of None \<Rightarrow> [] | Some s \<Rightarrow> s)"

subsection \<open>Operations\<close>

definition adapt_size_nocheck :: "ov_buffer \<Rightarrow> nat \<Rightarrow> ov_buffer \<times> bool" where
  "adapt_size_nocheck b sz =
    (if sz < 1 then (b, False)
     else if buf_capacity b \<ge> sz then (b, True)
     else let b1 = (if buf_capacity b \<noteq> 0 then b\<lparr>buf_start := None, buf_capacity := 0\<rparr> else b)
          in if sz = SIZE_MAX then (b1, False)
             else (b1\<lparr>buf_start := Some (replicate sz 0), buf_length := 0, buf_capacity := sz\<rparr>, True))"

text \<open>\<open>None\<close> is NULL; a failed buffer goes back to the cache.\<close>

definition buffer_create :: "ov_buffer option \<Rightarrow> nat \<Rightarrow> ov_buffer option" where
  "buffer_create cached min_size =
    (let b = (case (if 0 < min_size then cached else None) of
                None \<Rightarrow> \<lparr>buf_start = None, buf_length = 0, buf_capacity = 0\<rparr>
              | Some c \<Rightarrow> c\<lparr>buf_length := 0\<rparr>)
     in if min_size = 0 then Some b
        else case adapt_size_nocheck b min_size of (b', ok) \<Rightarrow> if ok then Some b' else None)"

text \<open>\<open>None\<close>: the assertion that there is a buffer fails.\<close>

definition ov_buffer_create :: "ov_buffer option \<Rightarrow> nat \<Rightarrow> ov_buffer option" where
  "ov_buffer_create cached sz =
    (case buffer_create cached sz of
       None \<Rightarrow> None
     | Some b \<Rightarrow> if sz \<le> buf_capacity b \<and> buf_length b = 0 then Some b else None)"

definition ov_buffer_len :: "ov_buffer option \<Rightarrow> int" where
  "ov_buffer_len self = (case self of None \<Rightarrow> -1 | Some b \<Rightarrow> int (buf_length b))"

definition ov_buffer_data :: "ov_buffer option \<Rightarrow> bytes option" where
  "ov_buffer_data self = (case self of None \<Rightarrow> None | Some b \<Rightarrow> buf_start b)"

text \<open>
  \<open>None\<close>: \<open>start\<close> points to bytes of someone else, or the new size has wrapped around to 0, for which \<open>realloc\<close> frees the memory, or
  to less than the length, and all memory behind is overwritten.
\<close>

definition ov_buffer_extend :: "ov_buffer option \<Rightarrow> nat \<Rightarrow> (ov_buffer option \<times> bool) option" where
  "ov_buffer_extend buffer sz =
    (case buffer of
       None \<Rightarrow> Some (None, False)
     | Some b \<Rightarrow>
         if sz = 0 then Some (Some b, False)
         else let new_size = size_add (buf_capacity b) sz
              in if buf_capacity b = 0 \<and> buf_start b \<noteq> None then None
                 else if new_size = 0 \<or> new_size < buf_length b then None
                 else Some (Some (b\<lparr>buf_start := Some (take (buf_length b) (mem b) @ replicate (new_size - buf_length b) 0),
                    buf_capacity := new_size\<rparr>), True))"

definition ov_buffer_set :: "ov_buffer option \<Rightarrow> bytes option \<Rightarrow> nat \<Rightarrow> ov_buffer option \<times> bool" where
  "ov_buffer_set buffer d len =
    (case buffer of
       None \<Rightarrow> (None, False)
     | Some b \<Rightarrow>
         (case d of
            None \<Rightarrow> (Some b, False)
          | Some xs \<Rightarrow>
              if len < 1 then (Some b, False)
              else (case adapt_size_nocheck b len of (b1, ok) \<Rightarrow>
                if \<not> ok then (Some b1, False)
                else (Some (b1\<lparr>buf_start := Some (write_at (mem b1) 0 (take len xs)), buf_length := len\<rparr>), True))))"

definition ov_buffer_clear :: "ov_buffer option \<Rightarrow> ov_buffer option \<times> bool" where
  "ov_buffer_clear self =
    (case self of
       None \<Rightarrow> (None, False)
     | Some b \<Rightarrow>
         let b1 = (if buf_capacity b = 0 then b\<lparr>buf_start := None, buf_length := 0\<rparr> else b);
             b2 = (if buf_start b1 \<noteq> None
                   then b1\<lparr>buf_start := Some (replicate (buf_capacity b1) 0), buf_length := 0\<rparr> else b1)
         in (Some b2, True))"

text \<open>The destination of a copy: NULL, or a pointer to a buffer or to NULL.\<close>

definition ov_buffer_copy :: "ov_buffer option \<Rightarrow> ov_buffer option option \<Rightarrow> ov_buffer option \<Rightarrow> ov_buffer option" where
  "ov_buffer_copy cached destination self =
    (case self of
       None \<Rightarrow> None
     | Some orig \<Rightarrow>
         let copy = (case destination of
                       Some (Some c) \<Rightarrow> Some c
                     | _ \<Rightarrow> ov_buffer_create cached (buf_length orig))
         in (case copy of
               None \<Rightarrow> None
             | Some c \<Rightarrow>
                 if buf_length orig = 0 then Some (c\<lparr>buf_length := 0\<rparr>)
                 else (case ov_buffer_set (Some c) (buf_start orig) (buf_length orig) of
                         (c', ok) \<Rightarrow> if ok then c' else None)))"

text \<open>The outer \<open>None\<close> is a failed assertion or a copy to memory outside of the buffer.\<close>

definition ov_buffer_concat :: "ov_buffer option \<Rightarrow> ov_buffer option \<Rightarrow> ov_buffer option \<Rightarrow> ov_buffer option option" where
  "ov_buffer_concat cached b1 b2 =
    (case b1 of
       None \<Rightarrow> Some (ov_buffer_copy cached None b2)
     | Some x \<Rightarrow>
         (case b2 of
            None \<Rightarrow> Some (Some x)
          | Some y \<Rightarrow>
              let len1 = buf_length x; len2 = buf_length y
              in (case ov_buffer_extend (Some x) (size_add len1 len2) of
                    Some (Some e, _) \<Rightarrow>
                      if \<not> buf_capacity e \<ge> size_add len1 len2 then None
                      else if buf_capacity e < len1 + len2 then None
                      else Some (Some (e\<lparr>buf_start := map_option (\<lambda>s. write_at s len1 (take len2 (mem y))) (buf_start e),
                        buf_length := len1 + len2\<rparr>))
                  | _ \<Rightarrow> None)))"

text \<open>
  The bytes that \<open>realloc\<close> adds are overwritten at once. \<open>None\<close>: the new length, or the excess byte added to it, wraps around, and the data
  is copied to memory outside of the buffer.
\<close>

definition ov_buffer_push :: "ov_buffer option \<Rightarrow> bytes option \<Rightarrow> nat \<Rightarrow> (ov_buffer option \<times> bool) option" where
  "ov_buffer_push buffer d sz =
    (case buffer of
       None \<Rightarrow> Some (None, False)
     | Some b \<Rightarrow>
         (case d of
            None \<Rightarrow> Some (Some b, False)
          | Some xs \<Rightarrow>
              if 1 > sz then Some (Some b, False)
              else let new_length = size_add (buf_length b) sz;
                       b1 = (if buf_capacity b = 0
                             then b\<lparr>buf_start := Some (take (buf_length b) (mem b) @ replicate (new_length - buf_length b) 0),
                                    buf_capacity := new_length\<rparr>
                             else b);
                       b2 = (if buf_capacity b1 < new_length
                             then b1\<lparr>buf_start := Some (mem b1 @ replicate (new_length - buf_capacity b1) 0),
                                     buf_capacity := new_length\<rparr>
                             else b1)
                   in if buf_capacity b2 < buf_length b2 + sz \<or> (buf_capacity b < new_length \<and> size_add new_length 1 = 0) then None
                      else Some (Some (b2\<lparr>buf_start := Some (write_at (mem b2) (buf_length b2) (take sz xs)),
                         buf_length := buf_length b2 + sz\<rparr>), True)))"

definition ov_buffer_shift_length :: "ov_buffer option \<Rightarrow> nat \<Rightarrow> ov_buffer option \<times> bool" where
  "ov_buffer_shift_length buffer len =
    (case buffer of
       None \<Rightarrow> (None, False)
     | Some b \<Rightarrow>
         if buf_start b = None then (Some b, False)
         else if len = 0 then (Some b, True)
         else if len > buf_length b then (Some b, False)
         else if len = buf_length b then ov_buffer_clear (Some b)
         else let sz = buf_length b - len;
                  temp = take sz (drop len (mem b));
                  (b1, ok) = ov_buffer_clear (Some b)
              in if \<not> ok then (b1, False) else ov_buffer_set b1 (Some temp) sz)"

text \<open>\<open>next\<close> as its distance from \<open>start\<close>.\<close>

definition ov_buffer_shift :: "ov_buffer option \<Rightarrow> int option \<Rightarrow> ov_buffer option \<times> bool" where
  "ov_buffer_shift buffer nxt =
    (case buffer of
       None \<Rightarrow> (None, False)
     | Some b \<Rightarrow>
         (case nxt of
            None \<Rightarrow> (Some b, False)
          | Some len \<Rightarrow>
              if buf_start b = None \<or> len < 0 \<or> len > int (buf_length b) then (Some b, False)
              else if len = int (buf_length b) then ov_buffer_clear (Some b)
              else ov_buffer_shift_length (Some b) (nat len)))"

subsection \<open>Contents\<close>

definition buf_bytes :: "ov_buffer \<Rightarrow> bytes" where
  "buf_bytes b = take (buf_length b) (mem b)"

definition buf_wf :: "ov_buffer \<Rightarrow> bool" where
  "buf_wf b \<longleftrightarrow> buf_length b \<le> length (mem b) \<and> (buf_capacity b \<noteq> 0 \<longrightarrow> length (mem b) = buf_capacity b) \<and>
    (buf_capacity b \<noteq> 0 \<longrightarrow> buf_start b \<noteq> None)"

lemma mem_simps [simp]:
  "mem (b\<lparr>buf_start := x\<rparr>) = (case x of None \<Rightarrow> [] | Some s \<Rightarrow> s)" "mem (b\<lparr>buf_length := n\<rparr>) = mem b"
  "mem (b\<lparr>buf_capacity := n\<rparr>) = mem b" "mem \<lparr>buf_start = x, buf_length = n, buf_capacity = m\<rparr> = (case x of None \<Rightarrow> [] | Some s \<Rightarrow> s)"
  by (simp_all add: mem_def)

lemma length_buf_bytes: "buf_wf b \<Longrightarrow> length (buf_bytes b) = buf_length b"
  by (simp add: buf_bytes_def buf_wf_def)

lemma adapt_size_ok:
  assumes "buf_wf b" "0 < n" "n < SIZE_MAX"
  obtains b' where "adapt_size_nocheck b n = (b', True)" "buf_wf b'" "n \<le> buf_capacity b'" "buf_capacity b \<le> buf_capacity b'"
proof (cases "n \<le> buf_capacity b")
  case True
  with assms show ?thesis by (intro that [of b]) (auto simp: adapt_size_nocheck_def)
next
  case False
  let ?b = "b\<lparr>buf_start := Some (replicate n 0), buf_length := 0, buf_capacity := n\<rparr>"
  show ?thesis using assms False by (intro that [of ?b]) (auto simp: adapt_size_nocheck_def buf_wf_def Let_def)
qed

lemma buffer_create_ok:
  assumes "\<forall>c. cached = Some c \<longrightarrow> buf_wf c" "n < SIZE_MAX"
  obtains b where "ov_buffer_create cached n = Some b" "buf_wf b" "buf_length b = 0" "n \<le> buf_capacity b"
proof (cases "n = 0")
  case True
  then show ?thesis by (intro that) (auto simp: ov_buffer_create_def buffer_create_def buf_wf_def)
next
  case False
  define b0 where "b0 = (case cached of None \<Rightarrow> \<lparr>buf_start = None, buf_length = 0, buf_capacity = 0\<rparr> | Some c \<Rightarrow> c\<lparr>buf_length := 0\<rparr>)"
  have b0: "buf_wf b0" "buf_length b0 = 0" using assms(1) by (auto simp: b0_def buf_wf_def split: option.splits)
  obtain b where b: "adapt_size_nocheck b0 n = (b, True)" "buf_wf b" "n \<le> buf_capacity b"
    using adapt_size_ok [OF b0(1) _ assms(2)] False by blast
  have "buf_length b = 0" using b(1) b0(2) by (auto simp: adapt_size_nocheck_def Let_def split: if_splits)
  with b False show ?thesis
    by (intro that [of b]) (simp_all add: ov_buffer_create_def buffer_create_def b0_def split: option.splits)
qed

lemma buffer_set_ok:
  assumes "buf_wf b" "0 < n" "n < SIZE_MAX" "n \<le> length xs"
  obtains b' where "ov_buffer_set (Some b) (Some xs) n = (Some b', True)" "buf_wf b'" "buf_bytes b' = take n xs"
    "buf_capacity b \<le> buf_capacity b'"
proof -
  obtain b1 where b1: "adapt_size_nocheck b n = (b1, True)" "buf_wf b1" "n \<le> buf_capacity b1" "buf_capacity b \<le> buf_capacity b1"
    by (rule adapt_size_ok [OF assms(1-3)])
  let ?b = "b1\<lparr>buf_start := Some (write_at (mem b1) 0 (take n xs)), buf_length := n\<rparr>"
  have "length (mem b1) = buf_capacity b1" using b1 assms(2) by (simp add: buf_wf_def)
  then show ?thesis
    using b1 assms by (intro that [of ?b]) (simp_all add: ov_buffer_set_def buf_wf_def buf_bytes_def write_at_0)
qed

lemma buffer_clear_ok:
  assumes "buf_wf b"
  obtains b' where "ov_buffer_clear (Some b) = (Some b', True)" "buf_wf b'" "buf_bytes b' = []" "buf_length b' = 0"
    "buf_capacity b' = buf_capacity b" "mem b' = replicate (buf_capacity b) 0"
    "buf_capacity b' = 0 \<longrightarrow> buf_start b' = None"
proof (cases "buf_capacity b = 0")
  case True
  then show ?thesis
    by (intro that [of "b\<lparr>buf_start := None, buf_length := 0\<rparr>"]) (simp_all add: ov_buffer_clear_def buf_wf_def buf_bytes_def)
next
  case False
  with assms show ?thesis
    by (intro that [of "b\<lparr>buf_start := Some (replicate (buf_capacity b) 0), buf_length := 0\<rparr>"])
      (auto simp: ov_buffer_clear_def Let_def buf_wf_def buf_bytes_def)
qed

lemma buffer_extend_ok:
  assumes "buf_wf b" "0 < n" "buf_length b \<le> buf_capacity b" "buf_start b = None \<or> 0 < buf_capacity b" "buf_capacity b + n < 2 ^ 64"
  obtains b' where "ov_buffer_extend (Some b) n = Some (Some b', True)" "buf_wf b'" "buf_bytes b' = buf_bytes b"
    "buf_capacity b' = buf_capacity b + n" "buf_length b' = buf_length b"
proof -
  let ?b = "b\<lparr>buf_start := Some (take (buf_length b) (mem b) @ replicate (buf_capacity b + n - buf_length b) 0),
      buf_capacity := buf_capacity b + n\<rparr>"
  show ?thesis
    using assms by (intro that [of ?b]) (auto simp: ov_buffer_extend_def Let_def buf_wf_def buf_bytes_def)
qed

lemma buffer_push_ok:
  assumes wf: "buf_wf b" and n: "0 < n" "n \<le> length xs" and small: "buf_length b + n < SIZE_MAX"
  obtains b' where "ov_buffer_push (Some b) (Some xs) n = Some (Some b', True)" "buf_wf b'" "buf_bytes b' = buf_bytes b @ take n xs"
proof -
  let ?l = "buf_length b + n"
  define b1 where "b1 = (if buf_capacity b = 0
     then b\<lparr>buf_start := Some (take (buf_length b) (mem b) @ replicate (?l - buf_length b) 0), buf_capacity := ?l\<rparr> else b)"
  define b2 where "b2 = (if buf_capacity b1 < ?l
     then b1\<lparr>buf_start := Some (mem b1 @ replicate (?l - buf_capacity b1) 0), buf_capacity := ?l\<rparr> else b1)"
  have b1: "buf_wf b1" "buf_bytes b1 = buf_bytes b" "buf_length b1 = buf_length b" "buf_capacity b1 \<noteq> 0"
    using wf n by (auto simp: b1_def buf_wf_def buf_bytes_def)
  then have b2: "buf_wf b2" "buf_bytes b2 = buf_bytes b" "buf_length b2 = buf_length b" "?l \<le> length (mem b2)" "buf_capacity b2 \<noteq> 0"
    by (auto simp: b2_def buf_wf_def buf_bytes_def)
  let ?b = "b2\<lparr>buf_start := Some (write_at (mem b2) (buf_length b2) (take n xs)), buf_length := buf_length b2 + n\<rparr>"
  have s: "size_add (buf_length b) n = ?l" "size_add ?l 1 = ?l + 1" using small by (simp_all add: SIZE_MAX_def)
  have "?l \<le> buf_capacity b2" using b2(1,4,5) by (simp add: buf_wf_def)
  then have "ov_buffer_push (Some b) (Some xs) n = Some (Some ?b, True)"
    using n b2(3) s by (simp only: ov_buffer_push_def Let_def option.case b1_def [symmetric] b2_def [symmetric]) simp
  moreover have "buf_wf ?b" using b2 n by (simp add: buf_wf_def)
  moreover have "buf_bytes ?b = buf_bytes b @ take n xs"
    using b2 n wf by (simp add: buf_bytes_def write_at_def buf_wf_def)
  ultimately show ?thesis by (rule that)
qed

lemma buffer_concat_ok:
  assumes "buf_wf x" "buf_wf y" "buf_length x \<le> buf_capacity x" "buf_start x = None \<or> 0 < buf_capacity x"
    "buf_capacity x + (buf_length x + buf_length y) < 2 ^ 64"
  obtains b where "ov_buffer_concat cached (Some x) (Some y) = Some (Some b)" "buf_wf b" "buf_bytes b = buf_bytes x @ buf_bytes y"
proof (cases "buf_length x + buf_length y = 0")
  case True
  then have "ov_buffer_concat cached (Some x) (Some y) = Some (Some x)"
    by (cases "buf_start x") (simp_all add: ov_buffer_concat_def ov_buffer_extend_def Let_def write_at_0)
  with True assms(1) show ?thesis by (intro that [of x]) (simp_all add: buf_bytes_def)
next
  case False
  obtain e where e: "ov_buffer_extend (Some x) (buf_length x + buf_length y) = Some (Some e, True)" "buf_wf e" "buf_bytes e = buf_bytes x"
    "buf_capacity e = buf_capacity x + (buf_length x + buf_length y)" "buf_length e = buf_length x"
    using buffer_extend_ok [OF assms(1) _ assms(3,4,5)] False by auto
  have s: "buf_start e = Some (mem e)" "length (mem e) = buf_capacity e"
    using e(2,4) False by (auto simp: buf_wf_def mem_def)
  let ?b = "e\<lparr>buf_start := Some (write_at (mem e) (buf_length x) (take (buf_length y) (mem y))), buf_length := buf_length x + buf_length y\<rparr>"
  have "ov_buffer_concat cached (Some x) (Some y) = Some (Some ?b)"
    using e s assms(5) by (simp add: ov_buffer_concat_def Let_def)
  moreover have "buf_wf ?b" using e s assms False by (simp add: buf_wf_def)
  moreover have "buf_bytes ?b = buf_bytes x @ buf_bytes y"
    using e s assms by (simp add: buf_wf_def buf_bytes_def write_at_def)
  ultimately show ?thesis by (rule that)
qed

lemma buffer_shift_ok:
  assumes wf: "buf_wf b" and n: "n \<le> buf_length b" "buf_start b \<noteq> None" "buf_length b < SIZE_MAX"
  obtains b' where "ov_buffer_shift_length (Some b) n = (Some b', True)" "buf_wf b'" "buf_bytes b' = drop n (buf_bytes b)"
proof -
  obtain c where c: "ov_buffer_clear (Some b) = (Some c, True)" "buf_wf c" "buf_bytes c = []" by (rule buffer_clear_ok [OF wf]) blast
  consider "n = 0" | "n \<noteq> 0" "n = buf_length b" | "n \<noteq> 0" "n < buf_length b" using n(1) by linarith
  then show ?thesis
  proof cases
    case 1
    with wf n show ?thesis by (intro that [of b]) (simp_all add: ov_buffer_shift_length_def)
  next
    case 2
    with c n show ?thesis by (intro that [of c]) (simp_all add: ov_buffer_shift_length_def length_buf_bytes [OF wf])
  next
    case 3
    let ?t = "take (buf_length b - n) (drop n (mem b))"
    have t: "?t = drop n (buf_bytes b)" "length ?t = buf_length b - n"
      using wf by (auto simp: buf_bytes_def drop_take buf_wf_def)
    have "0 < buf_length b - n" "buf_length b - n < SIZE_MAX" "buf_length b - n \<le> length ?t" using 3 n(3) t(2) by linarith+
    then obtain d where "ov_buffer_set (Some c) (Some ?t) (buf_length b - n) = (Some d, True)" "buf_wf d" "buf_bytes d = ?t"
      by (rule buffer_set_ok [OF c(2)]) simp
    with 3 c n t show ?thesis by (intro that [of d]) (simp_all add: ov_buffer_shift_length_def)
  qed
qed

lemma buffer_shift_any:
  assumes wf: "buf_wf b" and b: "buf_start b \<noteq> None" "buf_length b < SIZE_MAX"
  shows "if k \<le> length (buf_bytes b)
     then \<exists>b'. ov_buffer_shift (Some b) (Some (int k)) = (Some b', True) \<and> buf_wf b' \<and> buf_bytes b' = drop k (buf_bytes b)
     else ov_buffer_shift (Some b) (Some (int k)) = (Some b, False)"
proof -
  note l = length_buf_bytes [OF wf]
  consider "k < buf_length b" | "k = buf_length b" | "buf_length b < k" by linarith
  then show ?thesis
  proof cases
    case 1
    obtain b' where "ov_buffer_shift_length (Some b) k = (Some b', True)" "buf_wf b'" "buf_bytes b' = drop k (buf_bytes b)"
      using buffer_shift_ok [OF wf _ b, of k] 1 by auto
    with 1 l b show ?thesis by (simp add: ov_buffer_shift_def)
  next
    case 2
    obtain b' where "ov_buffer_clear (Some b) = (Some b', True)" "buf_wf b'" "buf_bytes b' = []" by (rule buffer_clear_ok [OF wf])
    with 2 l b show ?thesis by (simp add: ov_buffer_shift_def)
  next
    case 3
    with l b show ?thesis by (simp add: ov_buffer_shift_def)
  qed
qed

lemma buffer_copy_ok:
  assumes "buf_wf b" "\<forall>c. cached = Some c \<longrightarrow> buf_wf c" "buf_length b < SIZE_MAX"
  obtains b' where "ov_buffer_copy cached None (Some b) = Some b'" "buf_wf b'" "buf_bytes b' = buf_bytes b"
proof -
  obtain c where c: "ov_buffer_create cached (buf_length b) = Some c" "buf_wf c" "buf_length c = 0" "buf_length b \<le> buf_capacity c"
    by (rule buffer_create_ok [OF assms(2,3)])
  show ?thesis
  proof (cases "buf_length b = 0")
    case True
    with c show ?thesis by (intro that [of c]) (simp_all add: ov_buffer_copy_def buf_bytes_def)
  next
    case False
    have s: "buf_start b = Some (mem b)" "buf_length b \<le> length (mem b)" using assms(1) False by (auto simp: buf_wf_def mem_def split: option.splits)
    obtain d where "ov_buffer_set (Some c) (Some (mem b)) (buf_length b) = (Some d, True)" "buf_wf d" "buf_bytes d = take (buf_length b) (mem b)"
      using buffer_set_ok [OF c(2) _ assms(3) s(2)] False by blast
    with c False s show ?thesis by (intro that [of d]) (simp_all add: ov_buffer_copy_def buf_bytes_def)
  qed
qed

subsection \<open>Properties\<close>

text \<open>
  C39: A buffer is a sequence of bytes: on proper buffers, of which \<open>x\<close> owns its memory, with data outside of \<open>x\<close>, and for sizes
  whose sums fit into \<open>size_t\<close>, setting, pushing, concatenation, shifting, copying, extension and clearing succeed, give the bytes one
  expects and a proper buffer again; a shift beyond the end is refused and changes nothing.
\<close>

theorem buffer_refines_bytes:
  assumes wf: "buf_wf x" "buf_wf y" and own: "buf_length x \<le> buf_capacity x" "0 < buf_capacity x"
    and n: "0 < n" "n \<le> length xs" "buf_capacity x + n < SIZE_MAX" "buf_capacity x + (buf_length x + buf_length y) < 2 ^ 64" "buf_length x < SIZE_MAX"
    and cached: "\<forall>c. cached = Some c \<longrightarrow> buf_wf c"
  shows "(\<exists>b. ov_buffer_set (Some x) (Some xs) n = (Some b, True) \<and> buf_wf b \<and> buf_bytes b = take n xs) \<and>
    (\<exists>b. ov_buffer_push (Some x) (Some xs) n = Some (Some b, True) \<and> buf_wf b \<and> buf_bytes b = buf_bytes x @ take n xs) \<and>
    (\<exists>b. ov_buffer_concat cached (Some x) (Some y) = Some (Some b) \<and> buf_wf b \<and> buf_bytes b = buf_bytes x @ buf_bytes y) \<and>
    (\<exists>b. ov_buffer_copy cached None (Some x) = Some b \<and> buf_wf b \<and> buf_bytes b = buf_bytes x) \<and>
    (\<exists>b. ov_buffer_extend (Some x) n = Some (Some b, True) \<and> buf_wf b \<and> buf_bytes b = buf_bytes x \<and> buf_capacity b = buf_capacity x + n) \<and>
    (\<exists>b. ov_buffer_clear (Some x) = (Some b, True) \<and> buf_wf b \<and> buf_bytes b = []) \<and>
    (if k \<le> length (buf_bytes x)
     then \<exists>b. ov_buffer_shift (Some x) (Some (int k)) = (Some b, True) \<and> buf_wf b \<and> buf_bytes b = drop k (buf_bytes x)
     else ov_buffer_shift (Some x) (Some (int k)) = (Some x, False))"
proof (intro conjI)
  have small: "n < SIZE_MAX" "buf_length x + n < SIZE_MAX" "buf_capacity x + n < 2 ^ 64" using n(3) own(1) by (simp_all add: SIZE_MAX_def)
  have own': "buf_start x = None \<or> 0 < buf_capacity x" "buf_start x \<noteq> None" using wf(1) own(2) by (auto simp: buf_wf_def)
  show "\<exists>b. ov_buffer_set (Some x) (Some xs) n = (Some b, True) \<and> buf_wf b \<and> buf_bytes b = take n xs"
    by (rule buffer_set_ok [OF wf(1) n(1) small(1) n(2)]) blast
  show "\<exists>b. ov_buffer_push (Some x) (Some xs) n = Some (Some b, True) \<and> buf_wf b \<and> buf_bytes b = buf_bytes x @ take n xs"
    by (rule buffer_push_ok [OF wf(1) n(1,2) small(2)]) blast
  show "\<exists>b. ov_buffer_concat cached (Some x) (Some y) = Some (Some b) \<and> buf_wf b \<and> buf_bytes b = buf_bytes x @ buf_bytes y"
    by (rule buffer_concat_ok [OF wf own(1) own'(1) n(4)]) blast
  show "\<exists>b. ov_buffer_copy cached None (Some x) = Some b \<and> buf_wf b \<and> buf_bytes b = buf_bytes x"
    by (rule buffer_copy_ok [OF wf(1) cached n(5)]) blast
  show "\<exists>b. ov_buffer_extend (Some x) n = Some (Some b, True) \<and> buf_wf b \<and> buf_bytes b = buf_bytes x \<and> buf_capacity b = buf_capacity x + n"
    by (rule buffer_extend_ok [OF wf(1) n(1) own(1) own'(1) small(3)]) blast
  show "\<exists>b. ov_buffer_clear (Some x) = (Some b, True) \<and> buf_wf b \<and> buf_bytes b = []"
    by (rule buffer_clear_ok [OF wf(1)]) blast
  show "if k \<le> length (buf_bytes x)
     then \<exists>b. ov_buffer_shift (Some x) (Some (int k)) = (Some b, True) \<and> buf_wf b \<and> buf_bytes b = drop k (buf_bytes x)
     else ov_buffer_shift (Some x) (Some (int k)) = (Some x, False)"
    by (rule buffer_shift_any [OF wf(1) own'(2) n(5)])
qed

theorem buffer_refines_bytes_witness:
  "\<exists>b. ov_buffer_push (Some \<lparr>buf_start = Some [1, 2, 0], buf_length = 2, buf_capacity = 3\<rparr>) (Some [7, 8, 9]) 2 = Some (Some b, True) \<and>
    buf_wf b \<and> buf_bytes b = [1, 2, 7, 8]"
  using buffer_refines_bytes [of "\<lparr>buf_start = Some [1, 2, 0], buf_length = 2, buf_capacity = 3\<rparr>"
      "\<lparr>buf_start = None, buf_length = 0, buf_capacity = 0\<rparr>" 2 "[7, 8, 9]" None]
  by (simp add: buf_wf_def buf_bytes_def SIZE_MAX_def)

text \<open>
  Where extension goes wrong: a sum that wraps around shrinks the memory and returns success, and a buffer that points to bytes of
  someone else is reallocated.
\<close>

theorem buffer_extend_wraps:
  assumes "buf_wf b" "buf_length b \<le> m" "0 < m" "m < buf_capacity b" "buf_capacity b < 2 ^ 64"
  shows "\<exists>b'. ov_buffer_extend (Some b) (2 ^ 64 - buf_capacity b + m) = Some (Some b', True) \<and> buf_capacity b' = m \<and>
    ov_buffer_extend (Some (c\<lparr>buf_start := Some s, buf_capacity := 0\<rparr>)) (Suc n) = None"
proof -
  have "buf_capacity b + (2 ^ 64 - buf_capacity b + m) = 2 ^ 64 + m" using assms(5) by simp
  moreover have "m mod 2 ^ 64 = m" using assms(4,5) by simp
  ultimately have "size_add (buf_capacity b) (2 ^ 64 - buf_capacity b + m) = m" by (simp add: size_add_def)
  then show ?thesis using assms by (simp add: ov_buffer_extend_def Let_def)
qed

theorem buffer_extend_wraps_witness:
  "\<exists>b'. ov_buffer_extend (Some \<lparr>buf_start = Some [1, 2, 0], buf_length = 2, buf_capacity = 3\<rparr>) (2 ^ 64 - 1) = Some (Some b', True) \<and> buf_capacity b' = 2"
  using buffer_extend_wraps [of "\<lparr>buf_start = Some [1, 2, 0], buf_length = 2, buf_capacity = 3\<rparr>" 2] by (simp add: buf_wf_def) blast

end
