(* ===== verification/Ov_Websocket.thy ===== *)
theory Ov_Websocket
  imports Ov_Buffer
begin

text \<open>
  Web socket frames (RFC 6455), \<open>ov_core/src/ov_websocket_pointer.c\<close>: the parser of a frame in a
  buffer, masking, the encoder of data, and the separation of a frame from the bytes that follow it.

  Pointers into the buffer of a frame are offsets from its start. A frame or a buffer that a cache hands out, or
  \<open>None\<close>, is a parameter of the operations that create one, and so are the four random bytes of a mask. The
  operations that read bytes of a buffer, or extend one, have an outer \<open>None\<close> for undefined behaviour: a byte outside of the
  capacity is read, or the extension of the buffer is undefined.
\<close>

datatype ov_websocket_parser_state =
  OV_WEBSOCKET_PARSER_ABSENT | OV_WEBSOCKET_PARSER_OOB | OV_WEBSOCKET_PARSER_ERROR
| OV_WEBSOCKET_PARSER_PROGRESS | OV_WEBSOCKET_PARSER_SUCCESS

datatype ov_websocket_fragmentation_state =
  OV_WEBSOCKET_FRAGMENTATION_ERROR | OV_WEBSOCKET_FRAGMENTATION_NONE | OV_WEBSOCKET_FRAGMENTATION_START
| OV_WEBSOCKET_FRAGMENTATION_CONTINUE | OV_WEBSOCKET_FRAGMENTATION_LAST

record ov_websocket_frame_config =
  default_size :: nat
  max_bytes_recache :: nat

record ov_memory_pointer =
  ptr_start :: "nat option"
  ptr_length :: nat

record ov_websocket_frame =
  ws_config :: ov_websocket_frame_config
  ws_opcode :: u8
  ws_state :: ov_websocket_fragmentation_state
  ws_mask :: "nat option"
  ws_content :: ov_memory_pointer
  ws_buffer :: "ov_buffer option"

definition OV_WEBSOCKET_FRAME_DEFAULT_BUFFER_SIZE :: nat where
  "OV_WEBSOCKET_FRAME_DEFAULT_BUFFER_SIZE = 1024"

subsection \<open>Frames\<close>

definition config_init :: "ov_websocket_frame_config \<Rightarrow> ov_websocket_frame_config" where
  "config_init config = (if default_size config = 0 then config\<lparr>default_size := OV_WEBSOCKET_FRAME_DEFAULT_BUFFER_SIZE\<rparr> else config)"

definition frame_create ::
  "ov_websocket_frame option \<Rightarrow> ov_buffer option \<Rightarrow> ov_websocket_frame_config \<Rightarrow> ov_websocket_frame option option" where
  "frame_create cached cached_buffer config =
    (let frame = (case cached of
                    None \<Rightarrow> \<lparr>ws_config = config, ws_opcode = 0, ws_state = OV_WEBSOCKET_FRAGMENTATION_NONE, ws_mask = None,
                            ws_content = \<lparr>ptr_start = None, ptr_length = 0\<rparr>, ws_buffer = None\<rparr>
                  | Some f \<Rightarrow> f\<lparr>ws_config := config\<rparr>)
     in case ws_buffer frame of
          Some b \<Rightarrow>
            let b1 = fst (ov_buffer_clear (Some b))
            in if buf_capacity (the b1) < default_size config
               then (case ov_buffer_extend b1 (default_size config - buf_capacity (the b1)) of
                       None \<Rightarrow> None
                     | Some (b2, ok) \<Rightarrow> if ok then Some (Some (frame\<lparr>ws_buffer := b2\<rparr>)) else Some None)
               else Some (Some (frame\<lparr>ws_buffer := b1\<rparr>))
        | None \<Rightarrow>
            (case ov_buffer_create cached_buffer (default_size config) of
               None \<Rightarrow> Some None
             | Some b \<Rightarrow> Some (Some (frame\<lparr>ws_buffer := Some b\<rparr>))))"

definition ov_websocket_frame_create ::
  "ov_websocket_frame option \<Rightarrow> ov_buffer option \<Rightarrow> ov_websocket_frame_config \<Rightarrow> ov_websocket_frame option option" where
  "ov_websocket_frame_create cached cached_buffer config = frame_create cached cached_buffer (config_init config)"

definition ov_websocket_frame_clear ::
  "ov_buffer option \<Rightarrow> ov_websocket_frame option \<Rightarrow> ov_websocket_frame option \<times> bool" where
  "ov_websocket_frame_clear cached_buffer data =
    (case data of
       None \<Rightarrow> (None, False)
     | Some f \<Rightarrow>
         let f1 = f\<lparr>ws_opcode := 0, ws_state := OV_WEBSOCKET_FRAGMENTATION_NONE, ws_mask := None,
                    ws_content := \<lparr>ptr_start = None, ptr_length = 0\<rparr>\<rparr>;
             b1 = (case ws_buffer f1 of
                     None \<Rightarrow> None
                   | Some b \<Rightarrow>
                       if max_bytes_recache (ws_config f1) \<noteq> 0 \<and> buf_capacity b > max_bytes_recache (ws_config f1) then None
                       else fst (ov_buffer_clear (Some b)));
             b2 = (case b1 of None \<Rightarrow> ov_buffer_create cached_buffer (default_size (ws_config f1)) | Some b \<Rightarrow> Some b)
         in (Some (f1\<lparr>ws_buffer := b2\<rparr>), True))"

subsection \<open>Parsing\<close>

text \<open>
  A byte of the memory of the buffer, and the test that the first \<open>n\<close> bytes are in its capacity: the parser reads
  the third byte of a buffer without looking at its length.
\<close>

definition byte_at :: "ov_buffer \<Rightarrow> nat \<Rightarrow> u8" where
  "byte_at b i = mem b ! i"

definition in_memory :: "ov_buffer \<Rightarrow> nat \<Rightarrow> bool" where
  "in_memory b n \<longleftrightarrow> n \<le> length (mem b)"

text \<open>The eight bytes of a long length; the most significant bit is 0.\<close>

definition length_64 :: "ov_buffer \<Rightarrow> nat" where
  "length_64 b = unat (byte_at b 2) * 2 ^ 56 + unat (byte_at b 3) * 2 ^ 48 + unat (byte_at b 4) * 2 ^ 40 +
    unat (byte_at b 5) * 2 ^ 32 + unat (byte_at b 6) * 2 ^ 24 + unat (byte_at b 7) * 2 ^ 16 + unat (byte_at b 8) * 2 ^ 8 +
    unat (byte_at b 9)"

text \<open>
  What follows the label \<open>finish\<close>: the mask, and whether all bytes are there. The last component of the
  result is the value stored to \<open>*next\<close>, if any.
\<close>

definition parse_finish ::
  "ov_websocket_frame \<Rightarrow> ov_buffer \<Rightarrow> bool \<Rightarrow> ov_websocket_parser_state \<times> ov_websocket_frame \<times> nat option" where
  "parse_finish f b next_given =
    (let masked = (byte_at b 1 AND 0x80 \<noteq> 0)
     in if masked \<and> ptr_start (ws_content f) = None then (OV_WEBSOCKET_PARSER_ERROR, f, None)
        else let f1 = (if masked
                       then f\<lparr>ws_mask := ptr_start (ws_content f),
                              ws_content := (ws_content f)\<lparr>ptr_start := map_option (\<lambda>p. p + 4) (ptr_start (ws_content f))\<rparr>\<rparr>
                       else f)
             in (case ptr_start (ws_content f1) of
                   Some p \<Rightarrow>
                     if buf_length b < p + ptr_length (ws_content f1) then (OV_WEBSOCKET_PARSER_PROGRESS, f1, None)
                     else (OV_WEBSOCKET_PARSER_SUCCESS, f1, if next_given then Some (p + ptr_length (ws_content f1)) else None)
                 | None \<Rightarrow> (OV_WEBSOCKET_PARSER_SUCCESS, f1, if next_given then Some 2 else None)))"

definition parse_payload_length ::
  "ov_websocket_frame option \<Rightarrow> bool \<Rightarrow> (ov_websocket_parser_state \<times> ov_websocket_frame option \<times> nat option) option" where
  "parse_payload_length frame next_given =
    (case frame of
       None \<Rightarrow> Some (OV_WEBSOCKET_PARSER_ERROR, None, None)
     | Some f \<Rightarrow>
         (case ws_buffer f of
            None \<Rightarrow> Some (OV_WEBSOCKET_PARSER_ERROR, Some f, None)
          | Some b \<Rightarrow>
              let finish = (\<lambda>f'. case parse_finish f' b next_given of (s, f'', n) \<Rightarrow> Some (s, Some f'', n))
              in if buf_length b < 2 then Some (OV_WEBSOCKET_PARSER_PROGRESS, Some f, None)
                 else if \<not> in_memory b 2 then None
                 else
                   let len = unat (byte_at b 1 AND 0x7F)
                   in if len < 126
                      then finish (f\<lparr>ws_content := \<lparr>ptr_start = (if len = 0 then None else Some 2), ptr_length = len\<rparr>\<rparr>)
                      else if len = 126 then
                        (if buf_length b < 4 then Some (OV_WEBSOCKET_PARSER_PROGRESS, Some f, None)
                         else if \<not> in_memory b 4 then None
                         else let len16 = unat (byte_at b 2) * 2 ^ 8 + unat (byte_at b 3)
                              in if len16 < 125
                                 then Some (OV_WEBSOCKET_PARSER_ERROR, Some (f\<lparr>ws_content := (ws_content f)\<lparr>ptr_start := Some 4\<rparr>\<rparr>), None)
                                 else finish (f\<lparr>ws_content := \<lparr>ptr_start = Some 4, ptr_length = len16\<rparr>\<rparr>))
                      else if len \<noteq> 127 then Some (OV_WEBSOCKET_PARSER_ERROR, Some f, None)
                      else if \<not> in_memory b 3 then None
                      else if byte_at b 2 AND 0x80 \<noteq> 0 then Some (OV_WEBSOCKET_PARSER_ERROR, Some f, None)
                      else if buf_length b < 10 then Some (OV_WEBSOCKET_PARSER_PROGRESS, Some f, None)
                      else if \<not> in_memory b 10 then None
                      else if length_64 b < 0x10000 then Some (OV_WEBSOCKET_PARSER_ERROR, Some f, None)
                      else finish (f\<lparr>ws_content := \<lparr>ptr_start = Some 10, ptr_length = length_64 b\<rparr>\<rparr>)))"

definition fragmentation_state :: "u8 \<Rightarrow> ov_websocket_fragmentation_state" where
  "fragmentation_state byte =
    (if byte AND 0x80 \<noteq> 0 then (if byte AND 0x0F \<noteq> 0 then OV_WEBSOCKET_FRAGMENTATION_NONE else OV_WEBSOCKET_FRAGMENTATION_LAST)
     else if byte AND 0x0F \<noteq> 0 then OV_WEBSOCKET_FRAGMENTATION_START else OV_WEBSOCKET_FRAGMENTATION_CONTINUE)"

definition ov_websocket_opcodes :: "u8 list" where
  "ov_websocket_opcodes = [0x00, 0x01, 0x02, 0x08, 0x09, 0x0A]"

definition ov_websocket_parse_frame ::
  "ov_websocket_frame option \<Rightarrow> bool \<Rightarrow> (ov_websocket_parser_state \<times> ov_websocket_frame option \<times> nat option) option" where
  "ov_websocket_parse_frame frame next_given =
    (case frame of
       None \<Rightarrow> Some (OV_WEBSOCKET_PARSER_ERROR, None, None)
     | Some f \<Rightarrow>
         (case ws_buffer f of
            None \<Rightarrow> Some (OV_WEBSOCKET_PARSER_ERROR, Some f, None)
          | Some b \<Rightarrow>
              let at_start = (if next_given then Some 0 else None)
              in if buf_start b = None \<or> buf_length b = 0 then Some (OV_WEBSOCKET_PARSER_ERROR, Some f, at_start)
                 else
                   let f1 = f\<lparr>ws_mask := None, ws_content := \<lparr>ptr_start = None, ptr_length = 0\<rparr>\<rparr>
                   in (case parse_payload_length (Some f1) next_given of
                         None \<Rightarrow> None
                       | Some (s, f2, n) \<Rightarrow>
                           if s \<noteq> OV_WEBSOCKET_PARSER_SUCCESS then Some (s, f2, n)
                           else let code = 0x0F AND byte_at b 0
                                in if code \<in> set ov_websocket_opcodes
                                   then Some (OV_WEBSOCKET_PARSER_SUCCESS,
                                     map_option (\<lambda>f'. f'\<lparr>ws_opcode := code, ws_state := fragmentation_state (byte_at b 0)\<rparr>) f2, n)
                                   else Some (OV_WEBSOCKET_PARSER_ERROR, f2, at_start))))"

subsection \<open>Masking\<close>

text \<open>\<open>sz\<close> bytes from \<open>off\<close> on are masked with the four bytes at \<open>msk\<close> in the same memory.\<close>

definition mask_data :: "bytes \<Rightarrow> nat option \<Rightarrow> nat \<Rightarrow> nat option \<Rightarrow> bytes \<times> bool" where
  "mask_data s buffer sz msk =
    (case (buffer, msk) of
       (Some off, Some m) \<Rightarrow>
         if sz < 1 then (s, False)
         else (fold (\<lambda>i s. s[off + i := (s ! (off + i)) XOR (s ! (m + i mod 4))]) [0..<sz] s, True)
     | _ \<Rightarrow> (s, False))"

definition ov_websocket_frame_unmask :: "ov_websocket_frame option \<Rightarrow> ov_websocket_frame option \<times> bool" where
  "ov_websocket_frame_unmask frame =
    (case frame of
       None \<Rightarrow> (None, False)
     | Some f \<Rightarrow>
         (case ptr_start (ws_content f) of
            None \<Rightarrow> (Some f, ws_mask f = None)
          | Some p \<Rightarrow>
              if ws_mask f = None then (Some f, True)
              else (case ws_buffer f of
                      None \<Rightarrow> (Some f, False)
                    | Some b \<Rightarrow>
                        (case mask_data (mem b) (Some p) (ptr_length (ws_content f)) (ws_mask f) of
                           (s, ok) \<Rightarrow> (Some (f\<lparr>ws_buffer := Some (b\<lparr>buf_start := Some s\<rparr>)\<rparr>), ok)))))"

subsection \<open>Sending\<close>

text \<open>The header bytes behind the first one: the mask flag and the length.\<close>

definition length_bytes :: "u8 \<Rightarrow> nat \<Rightarrow> bytes" where
  "length_bytes flag_mask len =
    (if len < 126 then [flag_mask OR of_nat len]
     else if len < 0xffff then [flag_mask OR 126, of_nat (len div 2 ^ 8), of_nat len]
     else [flag_mask OR 127, of_nat (len div 2 ^ 56), of_nat (len div 2 ^ 48), of_nat (len div 2 ^ 40), of_nat (len div 2 ^ 32),
           of_nat (len div 2 ^ 24), of_nat (len div 2 ^ 16), of_nat (len div 2 ^ 8), of_nat len])"

text \<open>The mask (\<open>None\<close>: not masked) and the data behind the header, which ends at \<open>nxt\<close>.\<close>

definition encode_data :: "bytes \<Rightarrow> nat \<Rightarrow> bytes option \<Rightarrow> bytes option \<Rightarrow> nat \<Rightarrow> bytes" where
  "encode_data s1 nxt key d len =
    (let s2 = (case key of None \<Rightarrow> s1 | Some k \<Rightarrow> write_at s1 nxt k);
         start = (if key = None then nxt else nxt + 4);
         s3 = (case d of None \<Rightarrow> s2 | Some xs \<Rightarrow> write_at s2 start (take len xs))
     in if key = None then s3 else fst (mask_data s3 (Some start) len (Some nxt)))"

definition required_bytes :: "bool \<Rightarrow> nat \<Rightarrow> nat" where
  "required_bytes use_mask len =
    (if len < 126 then 2 + len else if len < 0xffff then 4 + len else 10 + len) + (if use_mask then 4 else 0)"

definition ov_websocket_set_data ::
  "ov_buffer option \<Rightarrow> bytes option \<Rightarrow> ov_websocket_frame option \<Rightarrow> bytes option \<Rightarrow> nat \<Rightarrow> bool \<Rightarrow> (ov_websocket_frame option \<times> bool) option" where
  "ov_websocket_set_data cached_buffer key frame data0 length0 use_mask =
    (case frame of
       None \<Rightarrow> Some (None, False)
     | Some f \<Rightarrow>
         let len = (if data0 = None then 0 else length0);
             d = (if len = 0 then None else data0);
             required = required_bytes use_mask len;
             buffer = (case ws_buffer f of
                         None \<Rightarrow> Some (ov_buffer_create cached_buffer required)
                       | Some b \<Rightarrow>
                           if buf_capacity b < required then map_option fst (ov_buffer_extend (Some b) (required - buf_capacity b)) else Some (Some b))
         in (case buffer of
               None \<Rightarrow> None
             | Some None \<Rightarrow> Some (Some f, False)
             | Some (Some b0) \<Rightarrow>
                 let b = b0\<lparr>buf_start := Some (take 1 (mem b0) @ replicate (buf_capacity b0 - 1) 0)\<rparr>;
                     header = length_bytes (if use_mask then 0x80 else 0) len;
                     s1 = write_at (mem b) 1 header
                 in if d = None \<and> use_mask then Some (Some (f\<lparr>ws_buffer := Some b\<rparr>), False)
                    else if use_mask \<and> key = None then Some (Some (f\<lparr>ws_buffer := Some (b\<lparr>buf_start := Some s1\<rparr>)\<rparr>), False)
                    else
                      let s4 = encode_data s1 (1 + length header) (if use_mask then key else None) d len;
                          b4 = b\<lparr>buf_start := Some s4, buf_length := buf_capacity b\<rparr>
                      in (case ov_websocket_parse_frame (Some (f\<lparr>ws_buffer := Some b4\<rparr>)) True of
                            None \<Rightarrow> None
                          | Some (s, f2, n) \<Rightarrow>
                              if s \<noteq> OV_WEBSOCKET_PARSER_SUCCESS then Some (f2, False)
                              else Some (map_option (\<lambda>f'. f'\<lparr>ws_buffer := map_option (\<lambda>b'. b'\<lparr>buf_length := the n\<rparr>) (ws_buffer f')\<rparr>) f2, True))))"

subsection \<open>Receiving\<close>

text \<open>
  The bytes behind a frame move to a new frame: source, destination (\<open>None\<close>: not set) and success.
\<close>

definition ov_websocket_frame_shift_trailing_bytes ::
  "ov_websocket_frame option \<Rightarrow> ov_buffer option \<Rightarrow> ov_websocket_frame option \<Rightarrow> nat option \<Rightarrow>
   (ov_websocket_frame option \<times> ov_websocket_frame option \<times> bool) option" where
  "ov_websocket_frame_shift_trailing_bytes cached cached_buffer source nxt =
    (case (source, nxt) of
       (Some f, Some n) \<Rightarrow>
         (case ov_websocket_frame_create cached cached_buffer (ws_config f) of
            None \<Rightarrow> None
          | Some None \<Rightarrow> Some (Some f, None, False)
          | Some (Some new) \<Rightarrow>
              (case ws_buffer f of
                 None \<Rightarrow> Some (Some f, None, False)
               | Some b \<Rightarrow>
                   if n = buf_length b then Some (Some f, Some new, True)
                   else let len = buf_length b - n
                        in (case ov_buffer_set (ws_buffer new) (Some (drop n (mem b))) len of
                              (b', ok) \<Rightarrow>
                                if \<not> ok then Some (Some f, None, False)
                                else Some (Some (f\<lparr>ws_buffer := Some (b\<lparr>buf_start := Some (write_at (mem b) n (replicate len 0)),
                                              buf_length := n\<rparr>)\<rparr>),
                                      Some (new\<lparr>ws_buffer := b'\<rparr>), True))))
     | _ \<Rightarrow> Some (source, None, False))"

subsection \<open>The bytes of a frame\<close>

definition mask_bytes :: "bytes \<Rightarrow> bytes \<Rightarrow> bytes" where
  "mask_bytes key xs = map (\<lambda>i. xs ! i XOR key ! (i mod 4)) [0..<length xs]"

definition ws_head :: "u8 \<Rightarrow> bool \<Rightarrow> nat \<Rightarrow> bytes" where
  "ws_head b0 masked len = b0 # length_bytes (if masked then 0x80 else 0) len"

text \<open>A frame with the given first byte, mask (\<open>None\<close>: not masked) and data.\<close>

definition ws_bytes :: "u8 \<Rightarrow> bytes option \<Rightarrow> bytes \<Rightarrow> bytes" where
  "ws_bytes b0 key xs = ws_head b0 (key \<noteq> None) (length xs) @
    (case key of None \<Rightarrow> xs | Some k \<Rightarrow> k @ mask_bytes k xs)"

definition ws_ok :: "u8 \<Rightarrow> bytes option \<Rightarrow> bytes \<Rightarrow> bool" where
  "ws_ok b0 key xs \<longleftrightarrow> 0x0F AND b0 \<in> set ov_websocket_opcodes \<and> (\<forall>k. key = Some k \<longrightarrow> length k = 4 \<and> xs \<noteq> []) \<and>
    length xs \<noteq> 65535 \<and> length xs < 2 ^ 63"

lemma length_mask_bytes [simp]: "length (mask_bytes k xs) = length xs"
  by (simp add: mask_bytes_def)

lemma mask_bytes_twice [simp]: "mask_bytes k (mask_bytes k xs) = xs"
  by (rule nth_equalityI) (simp_all add: mask_bytes_def xor.assoc)

lemma mask_data_eq:
  assumes "m + 4 \<le> off" "off + n \<le> length s"
  shows "fold (\<lambda>i s. s[off + i := (s ! (off + i)) XOR (s ! (m + i mod 4))]) [0..<n] s =
    take off s @ map (\<lambda>i. s ! (off + i) XOR s ! (m + i mod 4)) [0..<n] @ drop (off + n) s"
  using assms(2)
proof (induction n)
  case (Suc n)
  let ?g = "\<lambda>i. s ! (off + i) XOR s ! (m + i mod 4)"
  have m: "m + n mod 4 < off" using assms(1) mod_less_divisor [of 4 n] by simp
  have d: "drop (off + n) s = s ! (off + n) # drop (off + Suc n) s" using Suc.prems Cons_nth_drop_Suc [of "off + n" s] by simp
  have l: "length (take off s) = off" using Suc.prems by simp
  show ?case
    using Suc m l by (simp add: nth_append list_update_append d)
qed simp

lemma mask_in_place:
  assumes "length k = 4" "xs \<noteq> []" "length pre = n"
  shows "mask_data (pre @ k @ xs @ ys) (Some (n + 4)) (length xs) (Some n) = (pre @ k @ mask_bytes k xs @ ys, True)"
proof -
  let ?s = "pre @ k @ xs @ ys"
  have "?s ! (n + 4 + i) XOR ?s ! (n + i mod 4) = xs ! i XOR k ! (i mod 4)" if "i < length xs" for i
    using that assms(1,3) mod_less_divisor [of 4 i] by (simp add: nth_append)
  then have "map (\<lambda>i. ?s ! (n + 4 + i) XOR ?s ! (n + i mod 4)) [0..<length xs] = mask_bytes k xs"
    by (simp add: mask_bytes_def)
  moreover have "length xs \<ge> 1" using assms(2) by (cases xs) auto
  ultimately show ?thesis
    using assms mask_data_eq [of n "n + 4" "length xs" ?s] by (simp add: mask_data_def)
qed

lemma byte_at_take: "take h (mem b) = xs \<Longrightarrow> i < length xs \<Longrightarrow> byte_at b i = xs ! i"
  by (auto simp: byte_at_def)

lemma in_memory_take: "take h (mem b) = xs \<Longrightarrow> i \<le> length xs \<Longrightarrow> in_memory b i"
  by (auto simp: in_memory_def)

lemma u8_flag:
  assumes "n < 128"
  shows "unat (((if m then 0x80 else 0) OR of_nat n :: u8) AND 0x7F) = n"
    "((if m then 0x80 else 0) OR of_nat n :: u8) AND 0x80 \<noteq> 0 \<longleftrightarrow> m"
proof -
  let ?w = "of_nat n :: u8"
  have u: "unat ?w = n" using assms by (simp add: unat_of_nat take_bit_eq_mod)
  have "\<not> bit ?w i" if "7 \<le> i" for i using word_less_bit_beyond [of ?w 7 i] that assms u by simp
  then have "((if m then 0x80 else 0) OR ?w) AND 0x7F = ?w" "((if m then 0x80 else 0) OR ?w) AND 0x80 = (if m then 0x80 else 0)"
    by (simp_all add: word_bits)
  with u show "unat (((if m then 0x80 else 0) OR ?w) AND 0x7F) = n" "((if m then 0x80 else 0) OR ?w) AND 0x80 \<noteq> 0 \<longleftrightarrow> m"
    by simp_all
qed

lemma unat_byte: "unat (of_nat n :: u8) = n mod 256"
  by (simp add: unat_of_nat take_bit_eq_mod)

lemma join_digits:
  fixes n :: nat
  assumes "n = 256 * d1 + m0" "d1 = 256 * d2 + m1" "d2 = 256 * d3 + m2" "d3 = 256 * d4 + m3" "d4 = 256 * d5 + m4"
    "d5 = 256 * d6 + m5" "d6 = 256 * d7 + m6"
  shows "d7 * 2 ^ 56 + m6 * 2 ^ 48 + m5 * 2 ^ 40 + m4 * 2 ^ 32 + m3 * 2 ^ 24 + m2 * 2 ^ 16 + m1 * 2 ^ 8 + m0 = n"
  using assms by simp

lemma digits_64:
  assumes "n < 2 ^ 64"
  shows "(n div 2 ^ 56 mod 256) * 2 ^ 56 + (n div 2 ^ 48 mod 256) * 2 ^ 48 + (n div 2 ^ 40 mod 256) * 2 ^ 40 +
    (n div 2 ^ 32 mod 256) * 2 ^ 32 + (n div 2 ^ 24 mod 256) * 2 ^ 24 + (n div 2 ^ 16 mod 256) * 2 ^ 16 + (n div 2 ^ 8 mod 256) * 2 ^ 8 +
    n mod 256 = (n::nat)"
proof -
  have s: "n div 2 ^ k = 256 * (n div 2 ^ (k + 8)) + n div 2 ^ k mod 256" for k
    by (simp add: power_add div_mult2_eq)
  have "n div 2 ^ 56 < 256" using assms by (simp add: less_mult_imp_div_less)
  then have 7: "n div 2 ^ 56 mod 256 = n div 2 ^ 56" by simp
  show ?thesis
    unfolding 7
    by (rule join_digits [of n "n div 2 ^ 8" "n mod 256" "n div 2 ^ 16" "n div 2 ^ 8 mod 256" "n div 2 ^ 24" _ "n div 2 ^ 32" _
          "n div 2 ^ 40" _ "n div 2 ^ 48" _ "n div 2 ^ 56"])
      (use s [of 0] s [of 8] s [of 16] s [of 24] s [of 32] s [of 40] s [of 48] in simp_all)
qed

lemma length_64_bytes:
  assumes "take 10 (mem b) = ws_head b0 m n" "65535 \<le> n" "n < 2 ^ 63"
  shows "length_64 b = n" "byte_at b 2 AND 0x80 = 0"
proof -
  have h: "ws_head b0 m n = [b0, (if m then 0x80 else 0) OR 127, of_nat (n div 2 ^ 56), of_nat (n div 2 ^ 48), of_nat (n div 2 ^ 40),
     of_nat (n div 2 ^ 32), of_nat (n div 2 ^ 24), of_nat (n div 2 ^ 16), of_nat (n div 2 ^ 8), of_nat n]"
    using assms(2) by (simp add: ws_head_def length_bytes_def)
  have b: "byte_at b i = ws_head b0 m n ! i" if "i < 10" for i
    by (rule byte_at_take [OF assms(1)]) (use that h in simp)
  have bs: "byte_at b 2 = of_nat (n div 2 ^ 56)" "byte_at b 3 = of_nat (n div 2 ^ 48)" "byte_at b 4 = of_nat (n div 2 ^ 40)"
    "byte_at b 5 = of_nat (n div 2 ^ 32)" "byte_at b 6 = of_nat (n div 2 ^ 24)" "byte_at b 7 = of_nat (n div 2 ^ 16)"
    "byte_at b 8 = of_nat (n div 2 ^ 8)" "byte_at b 9 = of_nat n"
    by (simp_all only: b, simp_all add: h)
  have "n < 2 ^ 64" using assms(3) by simp
  from digits_64 [OF this] show "length_64 b = n" unfolding length_64_def bs unat_byte .
  have "n div 2 ^ 56 < 128" using assms(3) by (simp add: less_mult_imp_div_less)
  then have "\<not> bit (of_nat (n div 2 ^ 56) :: u8) 7" using word_less_bit_beyond [of "of_nat (n div 2 ^ 56) :: u8" 7 7] by (simp add: unat_byte)
  then have "(of_nat (n div 2 ^ 56) :: u8) AND 0x80 = 0" by (auto simp: word_bits)
  then show "byte_at b 2 AND 0x80 = 0" unfolding bs .
qed

lemma length_ws_head: "length (ws_head b0 m n) = (if n < 126 then 2 else if n < 65535 then 4 else 10)"
  by (simp add: ws_head_def length_bytes_def)

text \<open>The parser on a complete header.\<close>

lemma parse_head:
  assumes f: "ws_buffer f = Some b" and h: "take (length (ws_head b0 m n)) (mem b) = ws_head b0 m n"
    "length (ws_head b0 m n) \<le> buf_length b" and n: "n \<noteq> 65535" "n < 2 ^ 63"
  shows "parse_payload_length (Some f) ng =
    (case parse_finish (f\<lparr>ws_content := \<lparr>ptr_start = (if n = 0 then None else Some (length (ws_head b0 m n))), ptr_length = n\<rparr>\<rparr>) b ng
     of (s, f', x) \<Rightarrow> Some (s, Some f', x))"
    and "byte_at b 0 = b0" "byte_at b 1 AND 0x80 \<noteq> 0 \<longleftrightarrow> m"
proof -
  note l = length_ws_head [of b0 m n]
  have b: "byte_at b i = ws_head b0 m n ! i" if "i < length (ws_head b0 m n)" for i
    by (rule byte_at_take [OF h(1) that])
  have b1: "byte_at b 1 = (if m then 0x80 else 0) OR of_nat (if n < 126 then n else if n < 65535 then 126 else 127)"
    using b [of 1] l by (simp add: ws_head_def length_bytes_def)
  show "byte_at b 0 = b0" using b [of 0] l by (simp add: ws_head_def)
  let ?v = "if n < 126 then n else if n < 65535 then 126 else 127"
  have v: "?v < 128" by simp
  show "byte_at b 1 AND 0x80 \<noteq> 0 \<longleftrightarrow> m" unfolding b1 by (rule u8_flag(2) [OF v])
  have len: "unat (byte_at b 1 AND 0x7F) = ?v" unfolding b1 by (rule u8_flag(1) [OF v])
  have im: "in_memory b i" if "i \<le> length (ws_head b0 m n)" for i by (rule in_memory_take [OF h(1) that])
  consider "n < 126" | "126 \<le> n" "n < 65535" | "65535 < n" using n by linarith
  then show "parse_payload_length (Some f) ng =
    (case parse_finish (f\<lparr>ws_content := \<lparr>ptr_start = (if n = 0 then None else Some (length (ws_head b0 m n))), ptr_length = n\<rparr>\<rparr>) b ng
     of (s, f', x) \<Rightarrow> Some (s, Some f', x))"
  proof cases
    case 1
    then show ?thesis using f h l len im [of 2] by (simp add: parse_payload_length_def Let_def)
  next
    case 2
    have "n div 256 < 256" using 2 by (simp add: less_mult_imp_div_less)
    then have "unat (byte_at b 2) * 2 ^ 8 + unat (byte_at b 3) = n"
      using b [of 2] b [of 3] l 2 by (simp add: ws_head_def length_bytes_def unat_byte)
    with 2 show ?thesis using f h l len im [of 2] im [of 4] by (simp add: parse_payload_length_def Let_def)
  next
    case 3
    then have "take 10 (mem b) = ws_head b0 m n" using h l by simp
    from length_64_bytes [OF this] 3 n show ?thesis
      using f h l len im [of 2] im [of 3] im [of 10] by (simp add: parse_payload_length_def Let_def)
  qed
qed

lemma parse_finish_eq:
  assumes "byte_at b 1 AND 0x80 \<noteq> 0 \<longleftrightarrow> m" "m \<Longrightarrow> n \<noteq> 0"
  shows "parse_finish (f\<lparr>ws_content := \<lparr>ptr_start = (if n = 0 then None else Some h), ptr_length = n\<rparr>\<rparr>) b ng =
    (let p = (if m then h + 4 else h);
         f' = f\<lparr>ws_mask := (if m then Some h else ws_mask f), ws_content := \<lparr>ptr_start = (if n = 0 then None else Some p), ptr_length = n\<rparr>\<rparr>
     in if n \<noteq> 0 \<and> buf_length b < p + n then (OV_WEBSOCKET_PARSER_PROGRESS, f', None)
        else (OV_WEBSOCKET_PARSER_SUCCESS, f', if ng then Some (if n = 0 then 2 else p + n) else None))"
proof (cases m)
  case True
  with assms have "byte_at b 1 AND 0x80 \<noteq> 0" "n \<noteq> 0" by auto
  with True show ?thesis by (simp add: parse_finish_def Let_def del: One_nat_def)
next
  case False
  with assms have "byte_at b 1 AND 0x80 = 0" by auto
  with False show ?thesis by (cases "n = 0") (simp_all add: parse_finish_def Let_def del: One_nat_def)
qed

lemma length_ws_bytes:
  "ws_ok b0 key xs \<Longrightarrow> length (ws_bytes b0 key xs) =
    length (ws_head b0 (key \<noteq> None) (length xs)) + (if key = None then 0 else 4) + length xs"
  by (auto simp: ws_bytes_def ws_ok_def split: option.splits)

lemma take_ws_bytes:
  "length (ws_head b0 (key \<noteq> None) (length xs)) \<le> n \<Longrightarrow>
    take (length (ws_head b0 (key \<noteq> None) (length xs))) (take n (ws_bytes b0 key xs) @ ys) = ws_head b0 (key \<noteq> None) (length xs)"
  by (simp add: ws_bytes_def)

text \<open>The frame that the parser makes of complete bytes.\<close>

definition ws_parsed :: "u8 \<Rightarrow> bytes option \<Rightarrow> bytes \<Rightarrow> ov_websocket_frame \<Rightarrow> ov_websocket_frame" where
  "ws_parsed b0 key xs f =
    (let h = length (ws_head b0 (key \<noteq> None) (length xs))
     in f\<lparr>ws_mask := (if key = None then None else Some h),
          ws_content := \<lparr>ptr_start = (if xs = [] then None else if key = None then Some h else Some (h + 4)), ptr_length = length xs\<rparr>,
          ws_opcode := 0x0F AND b0, ws_state := fragmentation_state b0\<rparr>)"

lemma parse_complete:
  assumes ok: "ws_ok b0 key xs" and f: "ws_buffer f = Some b" and b: "mem b = ws_bytes b0 key xs @ ys"
    "length (ws_bytes b0 key xs) \<le> buf_length b"
  shows "ov_websocket_parse_frame (Some f) True =
    Some (OV_WEBSOCKET_PARSER_SUCCESS, Some (ws_parsed b0 key xs f), Some (length (ws_bytes b0 key xs)))"
proof -
  let ?m = "key \<noteq> None" and ?n = "length xs"
  let ?h = "length (ws_head b0 ?m ?n)"
  note l = length_ws_bytes [OF ok]
  have key: "xs \<noteq> [] \<or> key = None" using ok by (cases key) (auto simp: ws_ok_def)
  have t: "take ?h (mem b) = ws_head b0 ?m ?n" "?h \<le> buf_length b"
    using b l take_ws_bytes [of b0 key xs "length (ws_bytes b0 key xs)" ys] by simp_all
  let ?f1 = "f\<lparr>ws_mask := None, ws_content := \<lparr>ptr_start = None, ptr_length = 0\<rparr>\<rparr>"
  have n: "?n \<noteq> 65535" "?n < 2 ^ 63" using ok by (simp_all add: ws_ok_def)
  have f1: "ws_buffer ?f1 = Some b" using f by simp
  note p = parse_head [OF f1 t n]
  let ?p = "(if key = None then ?h else ?h + 4)"
  have kn: "?n \<noteq> 0" if ?m using that key by auto
  have fin: "parse_finish (?f1\<lparr>ws_content := \<lparr>ptr_start = (if ?n = 0 then None else Some ?h), ptr_length = ?n\<rparr>\<rparr>) b True =
      (OV_WEBSOCKET_PARSER_SUCCESS,
       f\<lparr>ws_mask := (if key = None then None else Some ?h),
         ws_content := \<lparr>ptr_start = (if xs = [] then None else Some ?p), ptr_length = ?n\<rparr>\<rparr>,
       Some (length (ws_bytes b0 key xs)))"
    by (rule trans [OF parse_finish_eq [OF p(3) kn]])
      (use key l b(2) length_ws_head [of b0 ?m 0] in \<open>auto simp: Let_def\<close>)
  have s: "buf_start b \<noteq> None" "buf_length b \<noteq> 0" using b l length_ws_head [of b0 ?m ?n] by (auto simp: mem_def split: option.splits if_splits)
  have "0x0F AND b0 \<in> set ov_websocket_opcodes" using ok by (simp add: ws_ok_def)
  then show ?thesis
    using f s p(1,2) fin by (simp add: ov_websocket_parse_frame_def ws_parsed_def Let_def)
qed

text \<open>
  The parser on a part of a frame. With two bytes of a frame with a long length it looks at the byte behind them.
\<close>

definition looks_behind :: "bytes \<Rightarrow> bytes \<Rightarrow> bool" where
  "looks_behind p xs \<longleftrightarrow> length p = 2 \<and> 65535 < length xs"

lemma parse_partial:
  assumes ok: "ws_ok b0 key xs" and f: "ws_buffer f = Some b" and p: "p @ q = ws_bytes b0 key xs" "p \<noteq> []" "q \<noteq> []"
    and b: "mem b = p @ stale" "buf_length b = length p"
  shows "if looks_behind p xs \<and> stale = [] then ov_websocket_parse_frame (Some f) True = None
    else \<exists>f'. ov_websocket_parse_frame (Some f) True =
        Some (if looks_behind p xs \<and> hd stale AND 0x80 \<noteq> 0 then OV_WEBSOCKET_PARSER_ERROR else OV_WEBSOCKET_PARSER_PROGRESS, Some f', None) \<and>
      ws_buffer f' = Some b"
proof -
  let ?m = "key \<noteq> None" and ?n = "length xs"
  let ?h = "length (ws_head b0 ?m ?n)"
  let ?f1 = "f\<lparr>ws_mask := None, ws_content := \<lparr>ptr_start = None, ptr_length = 0\<rparr>\<rparr>"
  note l = length_ws_bytes [OF ok] and lh = length_ws_head [of b0 ?m ?n]
  have n: "?n \<noteq> 65535" "?n < 2 ^ 63" using ok by (simp_all add: ws_ok_def)
  have f1: "ws_buffer ?f1 = Some b" using f by simp
  have pq: "length p < length (ws_bytes b0 key xs)" "p = take (length p) (ws_bytes b0 key xs)"
    using p by (metis length_append length_greater_0_conv less_add_same_cancel1, metis append_eq_conv_conj)
  have "if looks_behind p xs \<and> stale = [] then parse_payload_length (Some ?f1) True = None
    else \<exists>f'. parse_payload_length (Some ?f1) True =
        Some (if looks_behind p xs \<and> hd stale AND 0x80 \<noteq> 0 then OV_WEBSOCKET_PARSER_ERROR else OV_WEBSOCKET_PARSER_PROGRESS, Some f', None) \<and>
      ws_buffer f' = Some b" (is ?payload)
  proof (cases "?h \<le> length p")
    case True
    have t: "take ?h (mem b) = ws_head b0 ?m ?n" "?h \<le> buf_length b"
      using True b take_ws_bytes [OF True, of stale] pq(2) by simp_all
    have key: "xs \<noteq> [] \<or> key = None" using ok by (cases key) (auto simp: ws_ok_def)
    have "xs \<noteq> []" using True pq(1) l key by auto
    then have "?n \<noteq> 0" by simp
    note ph = parse_head [OF f1 t n] and pf = parse_finish_eq [OF ph(3) this]
    have "\<not> looks_behind p xs" using True lh by (auto simp: looks_behind_def)
    then show ?thesis unfolding ph(1) pf using \<open>?n \<noteq> 0\<close> l pq(1) b(2) f by (auto simp: Let_def)
  next
    case False
    have nth: "byte_at b i = ws_head b0 ?m ?n ! i" if "i < length p" for i
    proof -
      have "byte_at b i = p ! i" using that b(1) by (simp add: byte_at_def nth_append)
      also have "\<dots> = ws_bytes b0 key xs ! i" using that p(1) by (metis nth_append)
      also have "\<dots> = ws_head b0 ?m ?n ! i" using that False by (simp add: ws_bytes_def nth_append)
      finally show ?thesis .
    qed
    show ?thesis
    proof (cases "length p < 2")
      case True
      then show ?thesis using f b(2) by (simp add: parse_payload_length_def Let_def looks_behind_def)
    next
      case 2: False
      then have n126: "126 \<le> ?n" using False lh by (auto split: if_splits)
      then have v: "byte_at b 1 = (if ?m then 0x80 else 0) OR of_nat (if ?n < 65535 then 126 else 127)"
        using nth [of 1] 2 by (simp add: ws_head_def length_bytes_def)
      have len: "unat (byte_at b 1 AND 0x7F) = (if ?n < 65535 then 126 else 127)" unfolding v by (rule u8_flag(1)) simp
      have im: "in_memory b 2" "in_memory b 3 \<longleftrightarrow> length p \<noteq> 2 \<or> stale \<noteq> []" using 2 b by (simp_all add: in_memory_def flip: length_greater_0_conv) linarith
      show ?thesis
      proof (cases "?n < 65535")
        case True
        then have "length p < 4" "unat (byte_at b 1 AND 0x7F) = 126" "\<not> looks_behind p xs"
          using False n126 len lh by (simp_all add: looks_behind_def)
        then show ?thesis using \<open>\<not> length p < 2\<close> f b(2) im(1) by (simp add: parse_payload_length_def Let_def)
      next
        case big: False
        have "byte_at b 2 AND 0x80 = 0" if "length p \<noteq> 2"
        proof -
          let ?full = "\<lparr>buf_start = Some (ws_head b0 ?m ?n), buf_length = 0, buf_capacity = 0\<rparr>"
          have "byte_at b 2 = byte_at ?full 2" using nth [of 2] 2 that big lh by (simp add: byte_at_def)
          then show ?thesis using length_64_bytes(2) [of ?full b0 ?m ?n] big n(2) lh by simp
        qed
        moreover have "byte_at b 2 = hd stale" if "length p = 2" "stale \<noteq> []"
          using that b(1) by (cases stale) (auto simp: byte_at_def nth_append)
        ultimately consider "length p = 2" "stale = []" | "length p = 2" "stale \<noteq> []" "byte_at b 2 = hd stale"
          | "length p \<noteq> 2" "byte_at b 2 AND 0x80 = 0" by blast
        moreover have "length p < 10" "unat (byte_at b 1 AND 0x7F) = 127" "looks_behind p xs \<longleftrightarrow> length p = 2"
          using False big n126 len lh n(1) by (auto simp: looks_behind_def)
        ultimately show ?thesis
          using \<open>\<not> length p < 2\<close> f b(2) im by cases (simp_all add: parse_payload_length_def Let_def)
      qed
    qed
  qed
  moreover have "buf_start b \<noteq> None" "buf_length b \<noteq> 0" using b p(2) by (auto simp: mem_def split: option.splits)
  ultimately show ?thesis using f by (auto simp: ov_websocket_parse_frame_def Let_def split: if_splits)
qed

subsection \<open>Sending\<close>

definition sent :: "ov_websocket_frame \<Rightarrow> bytes" where
  "sent f = buf_bytes (the (ws_buffer f))"

text \<open>The first byte of the frame that is sent: growing an empty buffer clears it.\<close>

definition first_sent :: "ov_buffer \<Rightarrow> nat \<Rightarrow> u8" where
  "first_sent b n = (if buf_capacity b < n \<and> buf_length b = 0 then 0 else mem b ! 0)"

lemma grown_buffer:
  assumes "buf_wf b" "0 < buf_capacity b" "buf_length b \<le> buf_capacity b" "0 < n" "n < 2 ^ 64"
  obtains b' where "(if buf_capacity b < n then map_option fst (ov_buffer_extend (Some b) (n - buf_capacity b)) else Some (Some b)) = Some (Some b')"
    "buf_wf b'" "n \<le> buf_capacity b'" "take 1 (mem b') = [first_sent b n]"
proof -
  have m: "mem b \<noteq> []" "length (mem b) = buf_capacity b" using assms by (auto simp: buf_wf_def)
  then have t: "take 1 (mem b) = [mem b ! 0]" by (cases "mem b") auto
  show ?thesis
  proof (cases "buf_capacity b < n")
    case True
    then have e: "map_option fst (ov_buffer_extend (Some b) (n - buf_capacity b)) =
        Some (Some (b\<lparr>buf_start := Some (take (buf_length b) (mem b) @ replicate (n - buf_length b) 0), buf_capacity := n\<rparr>))"
      using assms by (auto simp: ov_buffer_extend_def)
    have "take 1 (take (buf_length b) (mem b) @ replicate (n - buf_length b) 0) = [first_sent b n]"
    proof (cases "buf_length b = 0")
      case True
      with \<open>0 < n\<close> \<open>buf_capacity b < n\<close> show ?thesis by (cases n) (simp_all add: first_sent_def)
    next
      case False
      then show ?thesis using m t assms(2) by (cases "mem b"; cases "buf_length b") (simp_all add: first_sent_def)
    qed
    with True e assms show ?thesis by (intro that) (auto simp: buf_wf_def)
  next
    case False
    with t assms(1) show ?thesis by (intro that [of b]) (simp_all add: first_sent_def)
  qed
qed

lemma encode_data_eq:
  assumes key: "\<And>k. key = Some k \<Longrightarrow> length k = 4 \<and> xs \<noteq> []"
  and len: "n = length xs" "h = length head" "(if key = None then 0 else 4) + n \<le> r"
  and d: "d = (if xs = [] then None else Some ys)" "take n ys = xs"
  shows "encode_data (head @ replicate r 0) h key d n =
    (head @ (case key of None \<Rightarrow> xs | Some k \<Rightarrow> k @ mask_bytes k xs)) @ replicate (r - (if key = None then 0 else 4) - n) 0"
proof (cases key)
  case None
  then show ?thesis using assms write_zeros_behind [of xs r head] by (cases "xs = []") (simp_all add: encode_data_def)
next
  case (Some k)
  with assms(1) have k: "length k = 4" "xs \<noteq> []" by auto
  have s2: "write_at (head @ replicate r 0) h k = (head @ k) @ replicate (r - 4) 0"
    using write_zeros_behind [of k r head] k len Some by simp
  have s3: "write_at ((head @ k) @ replicate (r - 4) 0) (h + 4) xs = head @ k @ xs @ replicate (r - 4 - n) 0"
    using write_zeros_behind [of xs "r - 4" "head @ k"] k len Some by simp
  have "encode_data (head @ replicate r 0) h (Some k) d n =
      fst (mask_data (write_at (write_at (head @ replicate r 0) h k) (h + 4) xs) (Some (h + 4)) n (Some h))"
    using k d by (simp add: encode_data_def Let_def)
  also have "\<dots> = head @ k @ mask_bytes k xs @ replicate (r - 4 - n) 0"
    unfolding s2 s3 len(1) using mask_in_place [OF k len(2) [symmetric]] by simp
  finally show ?thesis using Some by simp
qed

text \<open>Sending up to the point where the frame is parsed again.\<close>

lemma set_data_memory:
  assumes f: "ws_buffer f = Some b" and b: "buf_wf b" "0 < buf_capacity b" "buf_length b \<le> buf_capacity b"
    and data: "n \<le> length d" "xs = take n d" and n63: "n < 2 ^ 63" and key: "key = (if m then Some k else None)" "m \<Longrightarrow> length k = 4 \<and> xs \<noteq> []"
  obtains b4 zs where "mem b4 = ws_bytes (first_sent b (required_bytes m n)) key xs @ zs" "buf_wf b4" "buf_capacity b4 \<noteq> 0"
    "length (ws_bytes (first_sent b (required_bytes m n)) key xs) \<le> buf_length b4"
    "ov_websocket_set_data cached (Some k) (Some f) (Some d) n m =
      (case ov_websocket_parse_frame (Some (f\<lparr>ws_buffer := Some b4\<rparr>)) True of
         None \<Rightarrow> None
       | Some (s, f2, x) \<Rightarrow>
           if s \<noteq> OV_WEBSOCKET_PARSER_SUCCESS then Some (f2, False)
           else Some (map_option (\<lambda>f'. f'\<lparr>ws_buffer := map_option (\<lambda>b'. b'\<lparr>buf_length := the x\<rparr>) (ws_buffer f')\<rparr>) f2, True))"
proof -
  let ?r = "required_bytes m n" and ?c = "first_sent b (required_bytes m n)"
  let ?head = "ws_head ?c m n" and ?w = "ws_bytes (first_sent b (required_bytes m n)) key xs"
  have r: "0 < ?r" by (simp add: required_bytes_def)
  have small: "?r < 2 ^ 64" using n63 by (simp add: required_bytes_def)
  obtain b1 where b1: "(if buf_capacity b < ?r then map_option fst (ov_buffer_extend (Some b) (?r - buf_capacity b)) else Some (Some b)) = Some (Some b1)"
    "buf_wf b1" "?r \<le> buf_capacity b1" "take 1 (mem b1) = [?c]"
    by (rule grown_buffer [OF b r small])
  have n: "length xs = n" using data by simp
  define N where "N = buf_capacity b1"
  have lh: "length ?head = (if n < 126 then 2 else if n < 65535 then 4 else 10)" by (rule length_ws_head)
  have hd: "length_bytes (if m then 0x80 else 0) n = tl ?head" "?head = [?c] @ tl ?head" "1 + length (tl ?head) = length ?head"
    by (simp_all add: ws_head_def)
  have N: "length ?head + ((if m then 4 else 0) + n) \<le> N" using b1(3) lh by (simp add: required_bytes_def N_def split: if_splits)
  have s1: "write_at ([?c] @ replicate (N - 1) 0) 1 (tl ?head) = ?head @ replicate (N - length ?head) 0"
    using write_zeros_behind [of "tl ?head" "N - 1" "[?c]"] N hd(2,3) by simp
  have kk: "length k' = 4 \<and> xs \<noteq> []" if "key = Some k'" for k' using key that by (simp split: if_splits)
  have dd: "(if n = 0 then None else Some d) = (if xs = [] then None else Some d)" "take n d = xs" using n data(2) by auto
  have "(if key = None then 0 else 4) + n \<le> N - length ?head" using N key(1) by (cases m) simp_all
  from encode_data_eq [OF kk n [symmetric] refl this dd]
  have e: "encode_data (?head @ replicate (N - length ?head) 0) (length ?head) key (if n = 0 then None else Some d) n =
      ?w @ replicate (N - length ?head - (if key = None then 0 else 4) - n) 0" (is "_ = ?w @ ?z")
    using key n by (simp add: ws_bytes_def)
  define b4 where "b4 = b1\<lparr>buf_start := Some (?w @ ?z), buf_length := N\<rparr>"
  have w: "length ?w = length ?head + ((if m then 4 else 0) + n)" using kk key(1) n by (auto simp: ws_bytes_def)
  have g: "\<not> ((if n = 0 then None else Some d) = None \<and> m)" using n key(2) by auto
  have k: "(if m then Some k else None) = key" "\<not> (m \<and> Some k = None)" "(if Some d = None then 0 else n) = n" using key by simp_all
  have "ov_websocket_set_data cached (Some k) (Some f) (Some d) n m =
      (case ov_websocket_parse_frame (Some (f\<lparr>ws_buffer := Some b4\<rparr>)) True of
         None \<Rightarrow> None
       | Some (s, f2, x) \<Rightarrow>
           if s \<noteq> OV_WEBSOCKET_PARSER_SUCCESS then Some (f2, False)
           else Some (map_option (\<lambda>f'. f'\<lparr>ws_buffer := map_option (\<lambda>b'. b'\<lparr>buf_length := the x\<rparr>) (ws_buffer f')\<rparr>) f2, True))"
    unfolding ov_websocket_set_data_def option.case Let_def f k(3) b1(1) if_not_P [OF g] if_not_P [OF k(2)] k(1) hd(1) mem_simps
      b1(4) N_def [symmetric] s1 hd(3) e by (simp add: b4_def N_def)
  moreover have "buf_wf b4" "buf_capacity b4 \<noteq> 0" using w N b1(2,3) key(1) r by (auto simp: b4_def buf_wf_def N_def)
  ultimately show ?thesis using N w by (intro that [of b4 ?z]) (simp_all add: b4_def)
qed

lemma set_data_bytes:
  assumes f: "ws_buffer f = Some b" and b: "buf_wf b" "0 < buf_capacity b" "buf_length b \<le> buf_capacity b"
    and data: "n \<le> length d" "xs = take n d" and key: "key = (if m then Some k else None)"
    and ok: "ws_ok (first_sent b (required_bytes m n)) key xs"
  obtains f' where "ov_websocket_set_data cached (Some k) (Some f) (Some d) n m = Some (Some f', True)"
    "sent f' = ws_bytes (first_sent b (required_bytes m n)) key xs" "ws_opcode f' = 0x0F AND first_sent b (required_bytes m n)"
proof -
  let ?c = "first_sent b (required_bytes m n)"
  let ?w = "ws_bytes ?c key xs"
  have "m \<Longrightarrow> length k = 4 \<and> xs \<noteq> []" using ok key by (simp add: ws_ok_def)
  moreover have n63: "n < 2 ^ 63" using ok data by (simp add: ws_ok_def)
  ultimately have key2: "m \<Longrightarrow> length k = 4 \<and> xs \<noteq> []" by blast
  from set_data_memory [OF f b data n63 key key2, of cached] obtain b4 zs where b4: "mem b4 = ?w @ zs" "buf_wf b4"
    "length ?w \<le> buf_length b4" and
    p: "ov_websocket_set_data cached (Some k) (Some f) (Some d) n m =
      (case ov_websocket_parse_frame (Some (f\<lparr>ws_buffer := Some b4\<rparr>)) True of
         None \<Rightarrow> None
       | Some (s, f2, x) \<Rightarrow>
           if s \<noteq> OV_WEBSOCKET_PARSER_SUCCESS then Some (f2, False)
           else Some (map_option (\<lambda>f'. f'\<lparr>ws_buffer := map_option (\<lambda>b'. b'\<lparr>buf_length := the x\<rparr>) (ws_buffer f')\<rparr>) f2, True))"
    by blast
  have "ws_buffer (f\<lparr>ws_buffer := Some b4\<rparr>) = Some b4" by simp
  note p' = p [unfolded parse_complete [OF ok this b4(1,3)]]
  let ?f = "(ws_parsed ?c key xs (f\<lparr>ws_buffer := Some b4\<rparr>))\<lparr>ws_buffer := Some (b4\<lparr>buf_length := length ?w\<rparr>)\<rparr>"
  have "ov_websocket_set_data cached (Some k) (Some f) (Some d) n m = Some (Some ?f, True)"
    using p' by (simp add: ws_parsed_def Let_def)
  then show ?thesis using b4 by (intro that [of ?f]) (simp_all add: ws_parsed_def Let_def sent_def buf_bytes_def)
qed

subsection \<open>Receiving\<close>

definition content_bytes :: "ov_websocket_frame \<Rightarrow> bytes" where
  "content_bytes f = (case ptr_start (ws_content f) of None \<Rightarrow> []
     | Some p \<Rightarrow> take (ptr_length (ws_content f)) (drop p (mem (the (ws_buffer f)))))"

definition cached_ok :: "ov_websocket_frame option \<Rightarrow> ov_buffer option \<Rightarrow> bool" where
  "cached_ok cached cached_buffer \<longleftrightarrow> (\<forall>c. cached_buffer = Some c \<longrightarrow> buf_wf c) \<and>
    (\<forall>f c. cached = Some f \<longrightarrow> ws_buffer f = Some c \<longrightarrow> buf_wf c)"

lemma frame_create_ok:
  assumes "cached_ok cached cached_buffer" "default_size config < SIZE_MAX"
  obtains f b where "ov_websocket_frame_create cached cached_buffer config = Some (Some f)" "ws_buffer f = Some b" "buf_wf b" "buf_bytes b = []"
proof -
  let ?c = "config_init config"
  define f0 where "f0 = (case cached of
      None \<Rightarrow> \<lparr>ws_config = ?c, ws_opcode = 0, ws_state = OV_WEBSOCKET_FRAGMENTATION_NONE, ws_mask = None,
              ws_content = \<lparr>ptr_start = None, ptr_length = 0\<rparr>, ws_buffer = None\<rparr>
    | Some f \<Rightarrow> f\<lparr>ws_config := ?c\<rparr>)"
  have wf: "buf_wf c" if "ws_buffer f0 = Some c" for c
    using that assms(1) by (auto simp: f0_def cached_ok_def split: option.splits)
  show ?thesis
  proof (cases "ws_buffer f0")
    case None
    have "default_size ?c < SIZE_MAX" using assms(2) by (simp add: config_init_def OV_WEBSOCKET_FRAME_DEFAULT_BUFFER_SIZE_def SIZE_MAX_def)
    moreover have "\<forall>c. cached_buffer = Some c \<longrightarrow> buf_wf c" using assms(1) by (simp add: cached_ok_def)
    ultimately obtain b where "ov_buffer_create cached_buffer (default_size ?c) = Some b" "buf_wf b" "buf_length b = 0"
      using buffer_create_ok by metis
    with None show ?thesis
      by (intro that [of "f0\<lparr>ws_buffer := Some b\<rparr>" b])
        (simp_all add: ov_websocket_frame_create_def frame_create_def f0_def [symmetric] Let_def buf_bytes_def)
  next
    case (Some b)
    obtain b1 where b1: "ov_buffer_clear (Some b) = (Some b1, True)" "buf_wf b1" "buf_bytes b1 = []" "buf_length b1 = 0"
      and none: "buf_capacity b1 = 0 \<longrightarrow> buf_start b1 = None"
      by (rule buffer_clear_ok [OF wf [OF Some]])
    have size: "default_size ?c < 2 ^ 64" using assms(2) by (simp add: config_init_def OV_WEBSOCKET_FRAME_DEFAULT_BUFFER_SIZE_def SIZE_MAX_def)
    show ?thesis
    proof (cases "buf_capacity b1 < default_size ?c")
      case True
      then obtain b2 where "ov_buffer_extend (Some b1) (default_size ?c - buf_capacity b1) = Some (Some b2, True)" "buf_wf b2" "buf_bytes b2 = []"
        using buffer_extend_ok [OF b1(2), of "default_size ?c - buf_capacity b1"] b1(3,4) none size True by auto
      with Some b1(1) True show ?thesis
        by (intro that [of "f0\<lparr>ws_buffer := Some b2\<rparr>" b2])
          (simp_all add: ov_websocket_frame_create_def frame_create_def f0_def [symmetric] Let_def)
    next
      case False
      with Some b1 show ?thesis
        by (intro that [of "f0\<lparr>ws_buffer := Some b1\<rparr>" b1])
          (simp_all add: ov_websocket_frame_create_def frame_create_def f0_def [symmetric] Let_def)
    qed
  qed
qed

lemma shift_ok:
  assumes f: "ws_buffer f = Some b" "buf_wf b" "buf_bytes b = xs @ rest" "buf_length b < SIZE_MAX"
    and c: "cached_ok cached cached_buffer" "default_size (ws_config f) < SIZE_MAX"
  obtains f' d where "ov_websocket_frame_shift_trailing_bytes cached cached_buffer (Some f) (Some (length xs)) = Some (Some f', Some d, True)"
    "sent f' = xs" "sent d = rest" "\<exists>b' ys. f' = f\<lparr>ws_buffer := Some b'\<rparr> \<and> buf_wf b' \<and> mem b' = xs @ ys"
proof -
  obtain new nb where new: "ov_websocket_frame_create cached cached_buffer (ws_config f) = Some (Some new)" "ws_buffer new = Some nb" "buf_wf nb" "buf_bytes nb = []"
    by (rule frame_create_ok [OF c])
  have len: "buf_length b = length xs + length rest" using length_buf_bytes [OF f(2)] f(3) by simp
  have m: "mem b = xs @ rest @ drop (buf_length b) (mem b)"
    using append_take_drop_id [of "buf_length b" "mem b"] f(3) unfolding buf_bytes_def by (metis append_assoc)
  show ?thesis
  proof (cases "rest = []")
    case True
    have "f = f\<lparr>ws_buffer := Some b\<rparr>" using f(1) by simp
    with True f len new m show ?thesis
      by (intro that [of f new])
        (auto simp: ov_websocket_frame_shift_trailing_bytes_def sent_def intro!: exI [of _ b])
  next
    case False
    let ?d = "drop (length xs) (mem b)"
    have d: "?d = rest @ drop (buf_length b) (mem b)" using arg_cong [OF m, of "drop (length xs)"] by simp
    have "0 < length rest" "length rest < SIZE_MAX" "length rest \<le> length ?d" using False len f(4) d by auto
    from buffer_set_ok [OF new(3) this] obtain nb' where nb': "ov_buffer_set (Some nb) (Some ?d) (length rest) = (Some nb', True)"
      "buf_bytes nb' = rest" using d by auto
    let ?b = "b\<lparr>buf_start := Some (write_at (mem b) (length xs) (replicate (length rest) 0)), buf_length := length xs\<rparr>"
    have w: "mem ?b = xs @ replicate (length rest) 0 @ drop (buf_length b) (mem b)"
    proof -
      have "take (length xs) (mem b) = xs" using arg_cong [OF m, of "take (length xs)"] by simp
      then show ?thesis using len by (simp add: write_at_def)
    qed
    have wf: "buf_wf ?b" using f(2) len by (auto simp: buf_wf_def)
    have "sent (f\<lparr>ws_buffer := Some ?b\<rparr>) = xs" using w by (simp add: sent_def buf_bytes_def)
    then show ?thesis
      using f(1) new nb' len False w wf
      by (intro that [of "f\<lparr>ws_buffer := Some ?b\<rparr>" "new\<lparr>ws_buffer := Some nb'\<rparr>"])
        (auto simp: ov_websocket_frame_shift_trailing_bytes_def Let_def sent_def)
  qed
qed

lemma unmask_ok:
  assumes ok: "ws_ok b0 key xs" and b: "mem b = ws_bytes b0 key xs @ ys" and f: "f = (ws_parsed b0 key xs g)\<lparr>ws_buffer := Some b\<rparr>"
  obtains f' where "ov_websocket_frame_unmask (Some f) = (Some f', True)" "content_bytes f' = xs" "ws_opcode f' = 0x0F AND b0"
    "ws_state f' = fragmentation_state b0"
proof (cases key)
  case None
  let ?h = "ws_head b0 False (length xs)"
  have m: "mem b = ?h @ xs @ ys" using b None by (simp add: ws_bytes_def)
  show ?thesis
    using None m by (intro that [of f]) (simp_all add: f ws_parsed_def Let_def ov_websocket_frame_unmask_def content_bytes_def)
next
  case (Some k)
  let ?h = "ws_head b0 True (length xs)"
  have k: "length k = 4" "xs \<noteq> []" using ok Some by (simp_all add: ws_ok_def)
  have m: "mem b = ?h @ k @ mask_bytes k xs @ ys" using b Some by (simp add: ws_bytes_def)
  have "mask_bytes k xs \<noteq> []" using k(2) by (metis length_mask_bytes length_0_conv)
  from mask_in_place [OF k(1) this refl, of ?h ys]
  have u: "mask_data (mem b) (Some (length ?h + 4)) (length xs) (Some (length ?h)) = (?h @ k @ xs @ ys, True)"
    unfolding m by simp
  let ?f = "f\<lparr>ws_buffer := Some (b\<lparr>buf_start := Some (?h @ k @ xs @ ys)\<rparr>)\<rparr>"
  have "drop (length ?h + 4) (?h @ k @ xs @ ys) = xs @ ys" using k(1) by simp
  then have "content_bytes ?f = xs" using Some k(2) by (simp add: f ws_parsed_def Let_def content_bytes_def del: drop_append)
  then show ?thesis
    using Some k(2) u by (intro that [of ?f]) (simp_all add: f ws_parsed_def Let_def ov_websocket_frame_unmask_def)
qed

text \<open>What a receiver does with a frame and the bytes behind it.\<close>

definition received :: "ov_websocket_frame option \<Rightarrow> ov_buffer option \<Rightarrow> ov_websocket_frame \<Rightarrow> bytes \<Rightarrow> u8 \<Rightarrow> bytes \<Rightarrow> bool" where
  "received cached cached_buffer g rest b0 xs \<longleftrightarrow>
    (\<exists>g1 n g2 d g3. ov_websocket_parse_frame (Some g) True = Some (OV_WEBSOCKET_PARSER_SUCCESS, Some g1, Some n) \<and>
      ov_websocket_frame_shift_trailing_bytes cached cached_buffer (Some g1) (Some n) = Some (Some g2, Some d, True) \<and>
      sent d = rest \<and> ov_websocket_frame_unmask (Some g2) = (Some g3, True) \<and>
      content_bytes g3 = xs \<and> ws_opcode g3 = 0x0F AND b0 \<and> ws_state g3 = fragmentation_state b0)"

definition holds :: "ov_websocket_frame \<Rightarrow> bytes \<Rightarrow> bool" where
  "holds g bs \<longleftrightarrow> (\<exists>b. ws_buffer g = Some b \<and> buf_wf b \<and> buf_bytes b = bs \<and> buf_length b < SIZE_MAX) \<and>
    default_size (ws_config g) < SIZE_MAX"

lemma receive_ok:
  assumes ok: "ws_ok b0 key xs" and g: "holds g (ws_bytes b0 key xs @ rest)" and c: "cached_ok cached cached_buffer"
  shows "received cached cached_buffer g rest b0 xs"
proof -
  let ?w = "ws_bytes b0 key xs" and ?p = "ws_parsed b0 key xs g"
  obtain b where b: "ws_buffer g = Some b" "buf_wf b" "buf_bytes b = ?w @ rest" "buf_length b < SIZE_MAX" "default_size (ws_config g) < SIZE_MAX"
    using g by (auto simp: holds_def)
  have m: "mem b = ?w @ rest @ drop (buf_length b) (mem b)"
    using append_take_drop_id [of "buf_length b" "mem b"] b(3) unfolding buf_bytes_def by (metis append_assoc)
  have l: "length ?w \<le> buf_length b" using length_buf_bytes [OF b(2)] b(3) by simp
  note parse = parse_complete [OF ok b(1) m l]
  have p: "ws_buffer ?p = Some b" "default_size (ws_config ?p) < SIZE_MAX" using b by (simp_all add: ws_parsed_def Let_def)
  obtain g2 d where s: "ov_websocket_frame_shift_trailing_bytes cached cached_buffer (Some ?p) (Some (length ?w)) = Some (Some g2, Some d, True)"
    "sent d = rest" "\<exists>b' ys. g2 = ?p\<lparr>ws_buffer := Some b'\<rparr> \<and> buf_wf b' \<and> mem b' = ?w @ ys"
    by (rule shift_ok [OF p(1) b(2-4) c p(2)])
  from s(3) obtain b' ys where "g2 = ?p\<lparr>ws_buffer := Some b'\<rparr>" "mem b' = ?w @ ys" by blast
  from unmask_ok [OF ok this(2,1)] parse s(1,2) show ?thesis unfolding received_def by metis
qed

lemma empty_masked:
  assumes "ws_buffer g = Some b" "2 \<le> buf_length b" "in_memory b 2" "byte_at b 1 = 0x80"
  shows "map_option fst (ov_websocket_parse_frame (Some g) True) = Some OV_WEBSOCKET_PARSER_ERROR"
proof -
  let ?g = "g\<lparr>ws_mask := None, ws_content := \<lparr>ptr_start = None, ptr_length = 0\<rparr>\<rparr>"
  have "map_option fst (parse_payload_length (Some ?g) True) = Some OV_WEBSOCKET_PARSER_ERROR"
    using assms by (simp add: parse_payload_length_def parse_finish_def)
  moreover have "buf_start b \<noteq> None" using assms(3) by (auto simp: in_memory_def mem_def split: option.splits)
  ultimately show ?thesis using assms by (auto simp: ov_websocket_parse_frame_def Let_def split: prod.splits option.splits)
qed

lemma send_65535:
  assumes f: "ws_buffer f = Some b" "buf_wf b" "0 < buf_capacity b" "buf_length b \<le> buf_capacity b"
    and data: "65535 \<le> length d" and k: "length k = 4"
  shows "map_option snd (ov_websocket_set_data cached (Some k) (Some f) (Some d) 65535 m) = Some False"
proof -
  let ?xs = "take 65535 d" and ?c = "first_sent b (required_bytes m 65535)" and ?key = "if m then Some k else None"
  have l: "length ?xs = 65535" using data by simp
  then have "?xs \<noteq> []" by (metis list.size(3) zero_neq_numeral)
  with k have "m \<Longrightarrow> length k = 4 \<and> ?xs \<noteq> []" by simp
  then have key2: "m \<Longrightarrow> length k = 4 \<and> ?xs \<noteq> []" by blast
  have n63: "(65535 :: nat) < 2 ^ 63" by simp
  from set_data_memory [OF f data refl n63 refl key2, where cached = cached] obtain b4 zs where b4: "mem b4 = ws_bytes ?c ?key ?xs @ zs"
    "length (ws_bytes ?c ?key ?xs) \<le> buf_length b4" and
    p: "ov_websocket_set_data cached (Some k) (Some f) (Some d) 65535 m =
      (case ov_websocket_parse_frame (Some (f\<lparr>ws_buffer := Some b4\<rparr>)) True of
         None \<Rightarrow> None
       | Some (s, f2, x) \<Rightarrow>
           if s \<noteq> OV_WEBSOCKET_PARSER_SUCCESS then Some (f2, False)
           else Some (map_option (\<lambda>f'. f'\<lparr>ws_buffer := map_option (\<lambda>b'. b'\<lparr>buf_length := the x\<rparr>) (ws_buffer f')\<rparr>) f2, True))"
    by blast
  have head: "ws_bytes ?c ?key ?xs = ws_head ?c m 65535 @ (if m then k @ mask_bytes k ?xs else ?xs)"
    using l by (simp add: ws_bytes_def)
  have lh: "length (ws_head ?c m 65535) = 10" by (simp add: length_ws_head)
  have t: "take 10 (mem b4) = ws_head ?c m 65535" "\<not> buf_length b4 < 10" using b4 lh head by simp_all
  have "byte_at b4 1 = (if m then 0x80 else 0) OR of_nat 127"
    using byte_at_take [OF t(1), of 1] lh by (simp add: ws_head_def length_bytes_def)
  then have v: "unat (byte_at b4 1 AND 0x7F) = 127" using u8_flag(1) [of 127 m] by simp
  have b: "length_64 b4 = 65535" "byte_at b4 2 AND 0x80 = 0" using length_64_bytes [OF t(1)] by simp_all
  have im: "in_memory b4 i" if "i \<le> 10" for i using in_memory_take [OF t(1), of i] lh that by simp
  have "map_option fst (parse_payload_length (Some (f\<lparr>ws_buffer := Some b4, ws_mask := None, ws_content := \<lparr>ptr_start = None, ptr_length = 0\<rparr>\<rparr>)) True) =
      Some OV_WEBSOCKET_PARSER_ERROR"
    using t(2) v b im by (simp add: parse_payload_length_def Let_def)
  moreover have "buf_start b4 \<noteq> None" "buf_length b4 \<noteq> 0" using t(2) im [of 2] by (auto simp: in_memory_def mem_def split: option.splits)
  ultimately have "map_option fst (ov_websocket_parse_frame (Some (f\<lparr>ws_buffer := Some b4\<rparr>)) True) = Some OV_WEBSOCKET_PARSER_ERROR"
    by (auto simp: ov_websocket_parse_frame_def Let_def split: prod.splits option.splits)
  then show ?thesis unfolding p by (auto split: prod.splits option.splits)
qed

subsection \<open>Properties\<close>

text \<open>
  C28: Data set into a frame, with or without a mask, is received: however the bytes of the frame are followed by
  others, the parser accepts the frame, the bytes behind it move to the next frame, and after unmasking the
  content is the data, with the opcode and the fragmentation of the first byte the sender chose.
\<close>

theorem ws_roundtrip:
  assumes f: "ws_buffer f = Some b" "buf_wf b" "0 < buf_capacity b" "buf_length b \<le> buf_capacity b"
    and room: "required_bytes m n \<le> buf_capacity b \<or> 0 < buf_length b"
    and data: "n \<le> length d" "n \<noteq> 65535" "n < 2 ^ 63" and mask: "m \<Longrightarrow> length k = 4 \<and> 0 < n"
    and opcode: "0x0F AND mem b ! 0 \<in> set ov_websocket_opcodes"
  shows "\<exists>f'. ov_websocket_set_data cached (Some k) (Some f) (Some d) n m = Some (Some f', True) \<and>
    (\<forall>g rest cached' cached_buffer'. holds g (sent f' @ rest) \<and> cached_ok cached' cached_buffer' \<longrightarrow>
      received cached' cached_buffer' g rest (mem b ! 0) (take n d))"
proof -
  let ?key = "if m then Some k else None"
  have c: "first_sent b (required_bytes m n) = mem b ! 0" using room by (auto simp: first_sent_def)
  have ok: "ws_ok (mem b ! 0) ?key (take n d)" using opcode data mask by (auto simp: ws_ok_def)
  obtain f' where "ov_websocket_set_data cached (Some k) (Some f) (Some d) n m = Some (Some f', True)" "sent f' = ws_bytes (mem b ! 0) ?key (take n d)"
    using set_data_bytes [OF f data(1) refl refl, of m k cached] ok c by metis
  then show ?thesis using receive_ok [OF ok] by (intro exI [of _ f']) simp
qed

definition sample_ws :: "bytes \<Rightarrow> nat \<Rightarrow> ov_websocket_frame" where
  "sample_ws bs n = \<lparr>ws_config = \<lparr>default_size = 4, max_bytes_recache = 0\<rparr>, ws_opcode = 0, ws_state = OV_WEBSOCKET_FRAGMENTATION_NONE,
     ws_mask = None, ws_content = \<lparr>ptr_start = None, ptr_length = 0\<rparr>,
     ws_buffer = Some \<lparr>buf_start = Some bs, buf_length = n, buf_capacity = length bs\<rparr>\<rparr>"

theorem ws_roundtrip_witness:
  "\<exists>f'. ov_websocket_set_data None (Some [1, 2, 3, 4]) (Some (sample_ws (0x81 # replicate 15 0) 0)) (Some [104, 105, 33]) 3 True = Some (Some f', True) \<and>
    (\<forall>g rest cached' cached_buffer'. holds g (sent f' @ rest) \<and> cached_ok cached' cached_buffer' \<longrightarrow>
      received cached' cached_buffer' g rest 0x81 [104, 105, 33])"
proof -
  let ?b = "\<lparr>buf_start = Some (0x81 # replicate 15 0), buf_length = 0, buf_capacity = 16\<rparr> :: ov_buffer"
  have "ws_buffer (sample_ws (0x81 # replicate 15 0) 0) = Some ?b" by (simp add: sample_ws_def)
  from ws_roundtrip [OF this, of True 3 "[104, 105, 33]" "[1, 2, 3, 4]" None]
  show ?thesis by (simp add: buf_wf_def required_bytes_def ov_websocket_opcodes_def)
qed

text \<open>
  C38: On every proper, nonempty beginning of a frame, whatever bytes \<open>stale\<close> follow it in the memory of the buffer, the parser
  asks for more and leaves the buffer as it is, with one exception: of exactly two bytes of a frame with more than 65535 bytes of data, it looks
  at the byte behind them. If this has its most significant bit set, the frame is rejected, and if the memory of
  the buffer ends there, the behaviour is undefined.
\<close>

theorem ws_prefix_progress:
  assumes ok: "ws_ok b0 key xs" and p: "p @ q = ws_bytes b0 key xs" "p \<noteq> []" "q \<noteq> []"
    and f: "ws_buffer f = Some b" "mem b = p @ stale" "buf_length b = length p"
  shows "if length p = 2 \<and> 65535 < length xs \<and> stale = [] then ov_websocket_parse_frame (Some f) True = None
    else \<exists>f'. ov_websocket_parse_frame (Some f) True =
        Some (if length p = 2 \<and> 65535 < length xs \<and> hd stale AND 0x80 \<noteq> 0 then OV_WEBSOCKET_PARSER_ERROR else OV_WEBSOCKET_PARSER_PROGRESS, Some f', None) \<and>
      ws_buffer f' = Some b"
  using parse_partial [OF ok f(1) p f(2,3)] by (auto simp: looks_behind_def split: if_splits)

theorem ws_prefix_progress_witness:
  "\<exists>f'. ov_websocket_parse_frame (Some (sample_ws [0x81, 0x03, 104, 105, 0xFF] 4)) True = Some (OV_WEBSOCKET_PARSER_PROGRESS, Some f', None) \<and>
    ws_buffer f' = ws_buffer (sample_ws [0x81, 0x03, 104, 105, 0xFF] 4)"
  using ws_prefix_progress [where ?b0.0 = "0x81" and key = None and xs = "[104, 105, 33]" and p = "[0x81, 0x03, 104, 105]" and q = "[33]" and
      f = "sample_ws [0x81, 0x03, 104, 105, 0xFF] 4" and stale = "[0xFF]"]
  by (simp add: ws_ok_def ov_websocket_opcodes_def ws_bytes_def ws_head_def length_bytes_def sample_ws_def)

text \<open>
  Where sending and receiving fail: 65535 bytes of data cannot be sent, since the length goes to the long form that
  the parser reserves for more; growing an empty buffer loses the first byte the sender has chosen, and the frame
  goes out as a continuation; and a masked frame without data is rejected.
\<close>

theorem ws_limits:
  assumes f: "ws_buffer f = Some b" "buf_wf b" "0 < buf_capacity b" "buf_length b \<le> buf_capacity b"
    and data: "65535 \<le> length d" and k: "length k = 4"
    and empty: "buf_length b = 0" "buf_capacity b < required_bytes m n" "n \<le> length d" "n \<noteq> 65535" "n < 2 ^ 63" "m \<Longrightarrow> 0 < n"
  shows "map_option snd (ov_websocket_set_data cached (Some k) (Some f) (Some d) 65535 m) = Some False \<and>
    (\<exists>f'. ov_websocket_set_data cached (Some k) (Some f) (Some d) n m = Some (Some f', True) \<and> sent f' ! 0 = 0 \<and> ws_opcode f' = 0) \<and>
    (\<forall>g bg. ws_buffer g = Some bg \<and> 2 \<le> buf_length bg \<and> in_memory bg 2 \<and> byte_at bg 1 = 0x80 \<longrightarrow>
      map_option fst (ov_websocket_parse_frame (Some g) True) = Some OV_WEBSOCKET_PARSER_ERROR)"
proof (intro conjI allI impI)
  let ?key = "if m then Some k else None"
  show "map_option snd (ov_websocket_set_data cached (Some k) (Some f) (Some d) 65535 m) = Some False"
    by (rule send_65535 [OF f data k])
  show "\<exists>f'. ov_websocket_set_data cached (Some k) (Some f) (Some d) n m = Some (Some f', True) \<and> sent f' ! 0 = 0 \<and> ws_opcode f' = 0"
  proof -
    have c: "first_sent b (required_bytes m n) = 0" using empty by (simp add: first_sent_def)
    have "ws_ok 0 ?key (take n d)" using empty k by (auto simp: ws_ok_def ov_websocket_opcodes_def)
    then obtain f' where "ov_websocket_set_data cached (Some k) (Some f) (Some d) n m = Some (Some f', True)"
      "sent f' = ws_bytes 0 ?key (take n d)" "ws_opcode f' = 0x0F AND 0"
      using set_data_bytes [OF f empty(3) refl refl, where cached = cached and m = m and k = k, unfolded c] by blast
    then show ?thesis by (simp add: ws_bytes_def ws_head_def)
  qed
  fix g :: ov_websocket_frame and bg assume g: "ws_buffer g = Some bg \<and> 2 \<le> buf_length bg \<and> in_memory bg 2 \<and> byte_at bg 1 = 0x80"
  show "map_option fst (ov_websocket_parse_frame (Some g) True) = Some OV_WEBSOCKET_PARSER_ERROR"
    by (rule empty_masked) (use g in blast)+
qed

theorem ws_limits_witness:
  "map_option snd (ov_websocket_set_data None (Some [1, 2, 3, 4]) (Some (sample_ws [0x81, 0, 0] 0)) (Some (replicate 65535 7)) 65535 False) = Some False \<and>
   (\<exists>f'. ov_websocket_set_data None (Some [1, 2, 3, 4]) (Some (sample_ws [0x81, 0, 0] 0)) (Some (replicate 65535 7)) 9 False = Some (Some f', True) \<and>
     sent f' ! 0 = 0 \<and> ws_opcode f' = 0)"
proof -
  let ?b = "\<lparr>buf_start = Some [0x81, 0, 0], buf_length = 0, buf_capacity = 3\<rparr> :: ov_buffer"
  have "ws_buffer (sample_ws [0x81, 0, 0] 0) = Some ?b" by (simp add: sample_ws_def)
  from ws_limits [OF this, of "replicate 65535 7" "[1, 2, 3, 4]" False 9 None]
  show ?thesis by (simp add: buf_wf_def required_bytes_def)
qed

end
