(* ===== verification/Ov_List.thy ===== *)
theory Ov_List
  imports Ov_Prelude "HOL-Library.Monad_Syntax"
begin

text \<open>
  The list interface, \<open>ov_base/include/ov_list.h\<close>, and the functions of \<open>ov_base/src/list/ov_list.c\<close>
  that work on every implementation of it.

  \<open>ov_list\<close> is the common part of the lists, which an implementation extends by its own members, as the
  structs of the implementations embed it. The function pointers are the record \<open>ov_list_ops\<close>; both
  constructors set all of them, so that the checks for a missing one do not appear. \<open>self\<close> may be NULL
  (\<open>None\<close>). An item is a pointer that may be NULL. An operation that fails an assertion or leaves its memory
  has no result (the outer \<open>None\<close>). \<open>item_freed\<close> records the items given to the configured free function.
\<close>

record 'a ov_list_config =
  item_free :: "('a option \<Rightarrow> 'a option) option"
  item_copy :: "('a \<Rightarrow> 'a option) option"

record 'a ov_list =
  config :: "'a ov_list_config"
  item_freed :: "'a option list"

text \<open>The callback of \<open>op_for_each\<close> gets the object behind its data pointer and returns it.\<close>

record ('a, 'm, 's) ov_list_ops =
  op_is_empty :: "('a, 'm) ov_list_scheme option \<Rightarrow> bool option"
  op_clear :: "('a, 'm) ov_list_scheme option \<Rightarrow> (('a, 'm) ov_list_scheme option \<times> bool) option"
  op_free :: "('a, 'm) ov_list_scheme option \<Rightarrow> ('a option list \<times> ('a, 'm) ov_list_scheme option) option"
  op_get_pos :: "('a, 'm) ov_list_scheme option \<Rightarrow> 'a option \<Rightarrow> nat option"
  op_get :: "('a, 'm) ov_list_scheme option \<Rightarrow> nat \<Rightarrow> 'a option option"
  op_set :: "('a, 'm) ov_list_scheme option \<Rightarrow> nat \<Rightarrow> 'a option \<Rightarrow> (('a, 'm) ov_list_scheme option \<times> bool \<times> 'a option option) option"
  op_insert :: "('a, 'm) ov_list_scheme option \<Rightarrow> nat \<Rightarrow> 'a option \<Rightarrow> (('a, 'm) ov_list_scheme option \<times> bool) option"
  op_remove :: "('a, 'm) ov_list_scheme option \<Rightarrow> nat \<Rightarrow> (('a, 'm) ov_list_scheme option \<times> 'a option) option"
  op_push :: "('a, 'm) ov_list_scheme option \<Rightarrow> 'a option \<Rightarrow> (('a, 'm) ov_list_scheme option \<times> bool) option"
  op_pop :: "('a, 'm) ov_list_scheme option \<Rightarrow> (('a, 'm) ov_list_scheme option \<times> 'a option) option"
  op_count :: "('a, 'm) ov_list_scheme option \<Rightarrow> nat option"
  op_for_each :: "('a, 'm) ov_list_scheme option \<Rightarrow> 's \<Rightarrow> ('a option \<Rightarrow> 's \<Rightarrow> bool \<times> 's) option \<Rightarrow> (bool \<times> 's) option"

subsection \<open>Functions on every list\<close>

definition ov_list_clear ::
  "('a, 'm, 's) ov_list_ops \<Rightarrow> ('a, 'm) ov_list_scheme option \<Rightarrow> (('a, 'm) ov_list_scheme option \<times> bool) option" where
  "ov_list_clear ops list = (case list of None \<Rightarrow> Some (None, False) | Some l \<Rightarrow> op_clear ops (Some l))"

text \<open>The items that were freed, and the list that is left.\<close>

definition ov_list_free ::
  "('a, 'm, 's) ov_list_ops \<Rightarrow> ('a, 'm) ov_list_scheme option \<Rightarrow> ('a option list \<times> ('a, 'm) ov_list_scheme option) option" where
  "ov_list_free ops list =
    (case list of
       None \<Rightarrow> Some ([], None)
     | Some l \<Rightarrow>
         do { (l1, ok) \<leftarrow> op_clear ops (Some l);
              if \<not> ok then Some ([], l1) else op_free ops l1 })"

text \<open>The result of a push as the result of a callback; a destination of \<open>None\<close> is a push that has no result.\<close>

definition pushed :: "('l option \<times> bool) option \<Rightarrow> bool \<times> 'l option" where
  "pushed r = (case r of Some (Some d, ok) \<Rightarrow> (ok, Some d) | _ \<Rightarrow> (False, None))"

definition list_copy_each ::
  "('a, 'm, 's) ov_list_ops \<Rightarrow> 'a option \<Rightarrow> ('a, 'm) ov_list_scheme option \<Rightarrow> bool \<times> ('a, 'm) ov_list_scheme option" where
  "list_copy_each ops item destination =
    (case destination of
       None \<Rightarrow> (False, None)
     | Some dest \<Rightarrow>
         (case item of
            None \<Rightarrow> pushed (op_push ops (Some dest) None)
          | Some x \<Rightarrow>
              (case item_copy (config dest) of
                 None \<Rightarrow> (False, None)
               | Some copy \<Rightarrow>
                   (case copy x of
                      None \<Rightarrow> (False, Some dest)
                    | Some y \<Rightarrow> pushed (op_push ops (Some dest) (Some y))))))"

text \<open>The destination afterwards, and whether it is returned (otherwise NULL is).\<close>

definition list_copy ::
  "('a, 'm, ('a, 'n) ov_list_scheme option) ov_list_ops \<Rightarrow> ('a, 'n, 's) ov_list_ops \<Rightarrow> ('a, 'm) ov_list_scheme option \<Rightarrow>
    ('a, 'n) ov_list_scheme option \<Rightarrow> (('a, 'n) ov_list_scheme option \<times> bool) option" where
  "list_copy ops dops self destination =
    (case (self, destination) of
       (Some l, Some d) \<Rightarrow>
         if item_copy (config l) = None then Some (Some d, False)
         else do { (ok, d1) \<leftarrow> op_for_each ops (Some l) (Some (d\<lparr>config := config l\<rparr>)) (Some (list_copy_each dops));
                   d2 \<leftarrow> d1;
                   Some (Some d2, ok) }
     | _ \<Rightarrow> Some (destination, False))"

definition ov_list_remove_if_included ::
  "('a, 'm, 's) ov_list_ops \<Rightarrow> ('a, 'm) ov_list_scheme option \<Rightarrow> 'a option \<Rightarrow> (('a, 'm) ov_list_scheme option \<times> bool) option" where
  "ov_list_remove_if_included ops list item =
    (case list of
       None \<Rightarrow> Some (None, False)
     | Some l \<Rightarrow>
         if item = None then Some (Some l, True)
         else do { empty \<leftarrow> op_is_empty ops (Some l);
                   if empty then Some (Some l, True)
                   else do { pos \<leftarrow> op_get_pos ops (Some l) item;
                             if pos = 0 then Some (Some l, True)
                             else do { (l1, removed) \<leftarrow> op_remove ops (Some l) pos; Some (l1, removed \<noteq> None) } } })"

definition ov_list_is_empty :: "('a, 'm, 's) ov_list_ops \<Rightarrow> ('a, 'm) ov_list_scheme option \<Rightarrow> bool option" where
  "ov_list_is_empty ops list = (case list of None \<Rightarrow> Some False | Some l \<Rightarrow> op_is_empty ops (Some l))"

definition ov_list_get_pos :: "('a, 'm, 's) ov_list_ops \<Rightarrow> ('a, 'm) ov_list_scheme option \<Rightarrow> 'a option \<Rightarrow> nat option" where
  "ov_list_get_pos ops list item =
    (case list of None \<Rightarrow> Some 0 | Some l \<Rightarrow> if item = None then Some 0 else op_get_pos ops (Some l) item)"

definition ov_list_get :: "('a, 'm, 's) ov_list_ops \<Rightarrow> ('a, 'm) ov_list_scheme option \<Rightarrow> nat \<Rightarrow> 'a option option" where
  "ov_list_get ops list pos = (case list of None \<Rightarrow> Some None | Some l \<Rightarrow> op_get ops (Some l) pos)"

definition ov_list_set ::
  "('a, 'm, 's) ov_list_ops \<Rightarrow> ('a, 'm) ov_list_scheme option \<Rightarrow> nat \<Rightarrow> 'a option \<Rightarrow>
    (('a, 'm) ov_list_scheme option \<times> bool \<times> 'a option option) option" where
  "ov_list_set ops list pos item =
    (case list of
       None \<Rightarrow> Some (None, False, None)
     | Some l \<Rightarrow> if item = None then Some (Some l, False, None) else op_set ops (Some l) pos item)"

definition ov_list_insert ::
  "('a, 'm, 's) ov_list_ops \<Rightarrow> ('a, 'm) ov_list_scheme option \<Rightarrow> nat \<Rightarrow> 'a option \<Rightarrow> (('a, 'm) ov_list_scheme option \<times> bool) option" where
  "ov_list_insert ops list pos item =
    (case list of
       None \<Rightarrow> Some (None, False)
     | Some l \<Rightarrow> if item = None then Some (Some l, False) else op_insert ops (Some l) pos item)"

definition ov_list_remove ::
  "('a, 'm, 's) ov_list_ops \<Rightarrow> ('a, 'm) ov_list_scheme option \<Rightarrow> nat \<Rightarrow> (('a, 'm) ov_list_scheme option \<times> 'a option) option" where
  "ov_list_remove ops list pos = (case list of None \<Rightarrow> Some (None, None) | Some l \<Rightarrow> op_remove ops (Some l) pos)"

definition ov_list_delete ::
  "('a, 'm, 's) ov_list_ops \<Rightarrow> ('a, 'm) ov_list_scheme option \<Rightarrow> nat \<Rightarrow> (('a, 'm) ov_list_scheme option \<times> bool) option" where
  "ov_list_delete ops list pos =
    (case list of
       None \<Rightarrow> Some (None, False)
     | Some l \<Rightarrow>
         (case item_free (config l) of
            None \<Rightarrow> Some (Some l, False)
          | Some free \<Rightarrow>
              do { (self, item) \<leftarrow> op_remove ops (Some l) pos;
                   l1 \<leftarrow> self;
                   Some (Some (l1\<lparr>item_freed := item_freed l1 @ [item]\<rparr>), free item = None) }))"

definition ov_list_push ::
  "('a, 'm, 's) ov_list_ops \<Rightarrow> ('a, 'm) ov_list_scheme option \<Rightarrow> 'a option \<Rightarrow> (('a, 'm) ov_list_scheme option \<times> bool) option" where
  "ov_list_push ops list item = (case list of None \<Rightarrow> Some (None, False) | Some l \<Rightarrow> op_push ops (Some l) item)"

definition ov_list_pop ::
  "('a, 'm, 's) ov_list_ops \<Rightarrow> ('a, 'm) ov_list_scheme option \<Rightarrow> (('a, 'm) ov_list_scheme option \<times> 'a option) option" where
  "ov_list_pop ops list = (case list of None \<Rightarrow> Some (None, None) | Some l \<Rightarrow> op_pop ops (Some l))"

definition ov_list_count :: "('a, 'm, 's) ov_list_ops \<Rightarrow> ('a, 'm) ov_list_scheme option \<Rightarrow> nat option" where
  "ov_list_count ops list = (case list of None \<Rightarrow> Some 0 | Some l \<Rightarrow> op_count ops (Some l))"

definition ov_list_for_each ::
  "('a, 'm, 's) ov_list_ops \<Rightarrow> ('a, 'm) ov_list_scheme option \<Rightarrow> 's \<Rightarrow> ('a option \<Rightarrow> 's \<Rightarrow> bool \<times> 's) option \<Rightarrow> (bool \<times> 's) option" where
  "ov_list_for_each ops list data function =
    (case list of
       None \<Rightarrow> Some (False, data)
     | Some l \<Rightarrow> if function = None then Some (False, data) else op_for_each ops (Some l) data function)"

definition ov_list_queue_push ::
  "('a, 'm, 's) ov_list_ops \<Rightarrow> ('a, 'm) ov_list_scheme option \<Rightarrow> 'a option \<Rightarrow> (('a, 'm) ov_list_scheme option \<times> bool) option" where
  "ov_list_queue_push ops list item = ov_list_insert ops list 1 item"

definition ov_list_queue_pop ::
  "('a, 'm, 's) ov_list_ops \<Rightarrow> ('a, 'm) ov_list_scheme option \<Rightarrow> (('a, 'm) ov_list_scheme option \<times> 'a option) option" where
  "ov_list_queue_pop ops list = ov_list_pop ops list"

lemmas list_client_defs = ov_list_clear_def ov_list_is_empty_def ov_list_get_pos_def ov_list_get_def ov_list_set_def ov_list_insert_def
  ov_list_remove_def ov_list_push_def ov_list_pop_def ov_list_count_def ov_list_for_each_def ov_list_queue_push_def ov_list_queue_pop_def

text \<open>Runs of a client: all items pushed to a list or a queue, and some popped from a queue.\<close>

primrec push_all :: "('a, 'm, 's) ov_list_ops \<Rightarrow> ('a, 'm) ov_list_scheme \<Rightarrow> 'a option list \<Rightarrow> ('a, 'm) ov_list_scheme option" where
  "push_all ops l [] = Some l"
| "push_all ops l (x # xs) = do { (s, ok) \<leftarrow> ov_list_push ops (Some l) x; l1 \<leftarrow> s; if ok then push_all ops l1 xs else None }"

primrec queue_push_all :: "('a, 'm, 's) ov_list_ops \<Rightarrow> ('a, 'm) ov_list_scheme \<Rightarrow> 'a list \<Rightarrow> ('a, 'm) ov_list_scheme option" where
  "queue_push_all ops l [] = Some l"
| "queue_push_all ops l (x # xs) =
    do { (s, ok) \<leftarrow> ov_list_queue_push ops (Some l) (Some x); l1 \<leftarrow> s; if ok then queue_push_all ops l1 xs else None }"

primrec queue_pop_n :: "('a, 'm, 's) ov_list_ops \<Rightarrow> ('a, 'm) ov_list_scheme \<Rightarrow> nat \<Rightarrow> (('a, 'm) ov_list_scheme \<times> 'a option list) option" where
  "queue_pop_n ops l 0 = Some (l, [])"
| "queue_pop_n ops l (Suc n) =
    do { (s, x) \<leftarrow> ov_list_queue_pop ops (Some l); l1 \<leftarrow> s; (l2, xs) \<leftarrow> queue_pop_n ops l1 n; Some (l2, x # xs) }"

subsection \<open>Lists of items\<close>

text \<open>What the positions, counted from 1, mean on the list of the items. A position behind the end pads with NULL.\<close>

definition padded :: "'x option list \<Rightarrow> nat \<Rightarrow> 'x option list" where
  "padded xs n = xs @ replicate (n - length xs) None"

definition item_at :: "'x option list \<Rightarrow> nat \<Rightarrow> 'x option" where
  "item_at xs pos = (if 0 < pos \<and> pos \<le> length xs then xs ! (pos - 1) else None)"

definition items_set :: "'x option list \<Rightarrow> nat \<Rightarrow> 'x option \<Rightarrow> 'x option list" where
  "items_set xs pos x = (padded xs pos)[pos - 1 := x]"

definition items_insert :: "'x option list \<Rightarrow> nat \<Rightarrow> 'x option \<Rightarrow> 'x option list" where
  "items_insert xs pos x = (let ys = padded xs (pos - 1) in take (pos - 1) ys @ x # drop (pos - 1) ys)"

definition items_remove :: "'x option list \<Rightarrow> nat \<Rightarrow> 'x option list" where
  "items_remove xs pos = (if 0 < pos then take (pos - 1) xs @ drop pos xs else xs)"

definition item_pos :: "'x option list \<Rightarrow> 'x option \<Rightarrow> nat" where
  "item_pos xs x = (if x \<noteq> None \<and> x \<in> set xs then Suc (length (takeWhile (\<lambda>y. y \<noteq> x) xs)) else 0)"

definition not_null :: "'x option list \<Rightarrow> 'x option list" where
  "not_null xs = filter (\<lambda>x. x \<noteq> None) xs"

text \<open>The callback run over the items until it returns \<open>False\<close>.\<close>

fun run_items :: "('x \<Rightarrow> 's \<Rightarrow> bool \<times> 's) \<Rightarrow> 'x list \<Rightarrow> 's \<Rightarrow> bool \<times> 's" where
  "run_items f [] s = (True, s)"
| "run_items f (x # xs) s = (case f x s of (ok, s') \<Rightarrow> if ok then run_items f xs s' else (False, s'))"

lemma items_remove_pos:
  assumes "x \<noteq> None" "x \<in> set xs"
  shows "items_remove xs (item_pos xs x) = remove1 x xs" "item_at xs (item_pos xs x) = x" "item_pos xs x \<le> length xs" "0 < item_pos xs x"
proof -
  have "take (length (takeWhile (\<lambda>y. y \<noteq> x) xs)) xs @ drop (Suc (length (takeWhile (\<lambda>y. y \<noteq> x) xs))) xs = remove1 x xs \<and>
    length (takeWhile (\<lambda>y. y \<noteq> x) xs) < length xs \<and> xs ! length (takeWhile (\<lambda>y. y \<noteq> x) xs) = x"
    using assms(2) by (induction xs) auto
  then show "items_remove xs (item_pos xs x) = remove1 x xs" "item_at xs (item_pos xs x) = x" "item_pos xs x \<le> length xs" "0 < item_pos xs x"
    using assms by (simp_all add: items_remove_def item_pos_def item_at_def)
qed

lemma items_insert_1: "items_insert xs 1 x = x # xs"
  by (simp add: items_insert_def padded_def Let_def)

lemma length_items [simp]:
  "length (padded xs n) = max (length xs) n" "0 < pos \<Longrightarrow> length (items_set xs pos x) = max (length xs) pos"
  "0 < pos \<Longrightarrow> length (items_insert xs pos x) = max (length xs + 1) pos"
  by (auto simp: padded_def items_set_def items_insert_def Let_def)

lemma items_set_behind:
  assumes "length xs < pos"
  shows "items_set xs pos x = padded xs (pos - 1) @ [x]"
proof -
  from assms obtain j where j: "pos = Suc (length xs + j)" using less_iff_Suc_add by auto
  have "(replicate (Suc j) None)[j := x] = replicate j None @ [x]"
    by (simp add: list_update_append flip: replicate_append_same)
  with j show ?thesis by (simp add: items_set_def padded_def list_update_append)
qed

lemma items_set_within: "0 < pos \<Longrightarrow> pos \<le> length xs \<Longrightarrow> items_set xs pos x = xs[pos - 1 := x]"
  by (simp add: items_set_def padded_def)

lemma items_insert_behind: "length xs < pos \<Longrightarrow> items_insert xs pos x = items_set xs pos x"
  by (simp add: items_set_behind) (simp add: items_insert_def padded_def Let_def)

text \<open>An operation that neither changes the configuration nor frees items.\<close>

definition same_config :: "('a, 'm) ov_list_scheme \<Rightarrow> ('a, 'm) ov_list_scheme \<Rightarrow> bool" where
  "same_config l l' \<longleftrightarrow> config l' = config l \<and> item_freed l' = item_freed l"

lemma same_config_trans: "same_config a b \<Longrightarrow> same_config b c \<Longrightarrow> same_config a c"
  by (simp add: same_config_def)

lemma same_config_refl [simp]: "same_config l l"
  by (simp add: same_config_def)

subsection \<open>The contract\<close>

text \<open>
  What an implementation promises: \<open>holds l xs\<close> says that the list holds the items \<open>xs\<close>, \<open>fits l n\<close> that there is memory
  for \<open>n\<close> items, \<open>shifts l n\<close> that items may be shifted in a list of \<open>n\<close> items.
\<close>

locale ov_list_contract =
  fixes ops :: "('a, 'm, 's) ov_list_ops"
    and holds :: "('a, 'm) ov_list_scheme \<Rightarrow> 'a option list \<Rightarrow> bool"
    and fits :: "('a, 'm) ov_list_scheme \<Rightarrow> nat \<Rightarrow> bool"
    and shifts :: "('a, 'm) ov_list_scheme \<Rightarrow> nat \<Rightarrow> bool"
  assumes config_law: "holds (l\<lparr>config := c\<rparr>) xs = holds l xs" "holds (l\<lparr>item_freed := fs\<rparr>) xs = holds l xs"
      "fits (l\<lparr>config := c\<rparr>) n = fits l n" "fits (l\<lparr>item_freed := fs\<rparr>) n = fits l n"
    and fits_law: "fits l n \<Longrightarrow> k \<le> n \<Longrightarrow> fits l k" "shifts l n \<Longrightarrow> k \<le> n \<Longrightarrow> shifts l k"
    and is_empty_law: "holds l xs \<Longrightarrow> op_is_empty ops (Some l) = Some (xs = [])"
    and count_law: "holds l xs \<Longrightarrow> op_count ops (Some l) = Some (length xs)"
    and get_law: "holds l xs \<Longrightarrow> op_get ops (Some l) pos = Some (item_at xs pos)"
    and get_pos_law: "holds l xs \<Longrightarrow> op_get_pos ops (Some l) x = Some (item_pos xs x)"
    and for_each_law: "holds l xs \<Longrightarrow> op_for_each ops (Some l) s (Some f) = Some (run_items f xs s)"
    and push_law: "holds l xs \<Longrightarrow> fits l (length xs + 1) \<Longrightarrow>
      \<exists>l'. op_push ops (Some l) x = Some (Some l', True) \<and> holds l' (xs @ [x]) \<and> same_config l l' \<and> (\<forall>n > length xs. fits l n \<longrightarrow> fits l' n)"
    and pop_law: "holds l xs \<Longrightarrow> \<exists>l'. op_pop ops (Some l) = Some (Some l', item_at xs (length xs)) \<and> holds l' (butlast xs) \<and> same_config l l'"
    and set_law: "holds l xs \<Longrightarrow> 0 < pos \<Longrightarrow> fits l pos \<Longrightarrow>
      \<exists>l' old. op_set ops (Some l) pos x = Some (Some l', True, old) \<and> holds l' (items_set xs pos x) \<and> same_config l l' \<and>
        (pos \<le> length xs \<longrightarrow> old = Some (item_at xs pos)) \<and> (length xs < pos \<longrightarrow> old = None \<or> old = Some None)"
    and insert_law: "holds l xs \<Longrightarrow> 0 < pos \<Longrightarrow> fits l (max (length xs + 1) pos) \<Longrightarrow> shifts l (length xs + 1) \<Longrightarrow>
      \<exists>l'. op_insert ops (Some l) pos x = Some (Some l', True) \<and> holds l' (items_insert xs pos x) \<and> same_config l l' \<and>
        (\<forall>n \<ge> max (length xs + 1) pos. fits l n \<longrightarrow> fits l' n) \<and> (\<forall>n \<ge> max (length xs + 1) pos. shifts l n \<longrightarrow> shifts l' n)"
    and remove_law: "holds l xs \<Longrightarrow> 0 < pos \<Longrightarrow> pos \<le> length xs \<Longrightarrow> shifts l (length xs) \<Longrightarrow>
      \<exists>l'. op_remove ops (Some l) pos = Some (Some l', item_at xs pos) \<and> holds l' (items_remove xs pos) \<and> same_config l l'"
    and remove_none_law: "holds l xs \<Longrightarrow> pos = 0 \<or> length xs < pos \<Longrightarrow> op_remove ops (Some l) pos = Some (Some l, None)"
    and position_0_law: "holds l xs \<Longrightarrow> op_set ops (Some l) 0 x = Some (Some l, False, None)"
      "holds l xs \<Longrightarrow> op_insert ops (Some l) 0 x = Some (Some l, False)"
    and clear_law: "holds l xs \<Longrightarrow>
      \<exists>l'. op_clear ops (Some l) = Some (Some l', True) \<and> holds l' [] \<and> config l' = config l \<and>
        not_null (item_freed l') = not_null (item_freed l @ (if item_free (config l) = None then [] else xs))"
    and free_law: "holds l xs \<Longrightarrow>
      \<exists>fs. op_free ops (Some l) = Some (fs, None) \<and> not_null fs = not_null (item_freed l @ (if item_free (config l) = None then [] else xs))"
begin

text \<open>Removing the first occurrence of an item.\<close>

lemma remove_if_included:
  assumes "holds l xs" "shifts l (length xs)"
  shows "\<exists>l'. ov_list_remove_if_included ops (Some l) (Some x) = Some (Some l', True) \<and> holds l' (remove1 (Some x) xs)"
proof (cases "Some x \<in> set xs")
  case True
  note p = items_remove_pos [OF _ True]
  obtain l' where "op_remove ops (Some l) (item_pos xs (Some x)) = Some (Some l', Some x)" "holds l' (remove1 (Some x) xs)"
    using remove_law [OF assms(1) p(4) p(3) assms(2)] p(1,2) by auto
  with True p(4) show ?thesis
    by (auto simp: ov_list_remove_if_included_def is_empty_law [OF assms(1)] get_pos_law [OF assms(1)])
next
  case False
  then have "item_pos xs (Some x) = 0" by (simp add: item_pos_def)
  with False assms show ?thesis
    by (auto simp: ov_list_remove_if_included_def is_empty_law get_pos_law remove1_idem)
qed

text \<open>Deleting frees what is removed; at a position without an item, NULL.\<close>

lemma delete:
  assumes "holds l xs" "shifts l (length xs)" "item_free (config l) = Some free"
  shows "\<exists>l'. ov_list_delete ops (Some l) pos = Some (Some l', free (item_at xs pos) = None) \<and>
    holds l' (if pos \<le> length xs then items_remove xs pos else xs) \<and> item_freed l' = item_freed l @ [item_at xs pos]"
proof (cases "0 < pos \<and> pos \<le> length xs")
  case True
  then show ?thesis using remove_law [OF assms(1) _ _ assms(2), of pos] assms(3)
    by (fastforce simp: ov_list_delete_def config_law same_config_def)
next
  case False
  then have "op_remove ops (Some l) pos = Some (Some l, None)" using remove_none_law [OF assms(1), of pos] by auto
  with False show ?thesis using assms by (auto simp: ov_list_delete_def config_law item_at_def items_remove_def)
qed

text \<open>A list is cleared twice when it is freed, and its items are freed once.\<close>

lemma free_once:
  assumes "holds l xs" "item_free (config l) \<noteq> None"
  shows "\<exists>fs. ov_list_free ops (Some l) = Some (fs, None) \<and> not_null fs = not_null (item_freed l @ xs)"
proof -
  obtain l' where l': "op_clear ops (Some l) = Some (Some l', True)" "holds l' []" "config l' = config l"
      "not_null (item_freed l') = not_null (item_freed l @ xs)"
    using clear_law [OF assms(1)] assms(2) by auto
  from free_law [OF l'(2)] l' assms(2) show ?thesis by (auto simp: ov_list_free_def not_null_def)
qed

text \<open>The queue: what is pushed first is popped first.\<close>

lemma queue_push:
  assumes "holds l xs" "fits l (length xs + 1)" "shifts l (length xs + 1)"
  shows "\<exists>l'. ov_list_queue_push ops (Some l) (Some x) = Some (Some l', True) \<and> holds l' (Some x # xs) \<and>
    (\<forall>n > length xs. fits l n \<longrightarrow> fits l' n) \<and> (\<forall>n > length xs. shifts l n \<longrightarrow> shifts l' n)"
  using insert_law [OF assms(1), of 1 "Some x"] assms(2,3)
  by (auto simp: list_client_defs items_insert_1 [unfolded One_nat_def] Suc_le_eq)

lemma queue_pop:
  assumes "holds l (xs @ [x])"
  shows "\<exists>l'. ov_list_queue_pop ops (Some l) = Some (Some l', x) \<and> holds l' xs"
  using pop_law [OF assms] by (auto simp: list_client_defs item_at_def)

lemma queue_push_all:
  assumes "holds l zs" "fits l (length zs + length xs)" "shifts l (length zs + length xs)"
  shows "\<exists>l'. queue_push_all ops l xs = Some l' \<and> holds l' (rev (map Some xs) @ zs)"
  using assms
proof (induction xs arbitrary: l zs)
  case (Cons x xs)
  have "fits l (length zs + 1)" "shifts l (length zs + 1)"
    using fits_law(1) [OF Cons.prems(2)] fits_law(2) [OF Cons.prems(3)] by simp_all
  from queue_push [OF Cons.prems(1) this, of x] obtain l' where l': "ov_list_queue_push ops (Some l) (Some x) = Some (Some l', True)" "holds l' (Some x # zs)"
      "\<forall>n > length zs. fits l n \<longrightarrow> fits l' n" "\<forall>n > length zs. shifts l n \<longrightarrow> shifts l' n" by blast
  from Cons.IH [OF l'(2)] l' Cons.prems(2,3) show ?case by auto
qed simp

lemma queue_pop_n: "holds l (zs @ rev ys) \<Longrightarrow> \<exists>l'. queue_pop_n ops l (length ys) = Some (l', ys) \<and> holds l' zs"
proof (induction ys arbitrary: l)
  case (Cons y ys)
  from queue_pop [of l "zs @ rev ys" y] Cons.prems obtain l' where "ov_list_queue_pop ops (Some l) = Some (Some l', y)" "holds l' (zs @ rev ys)" by auto
  with Cons.IH show ?case by fastforce
qed simp

lemma queue_fifo:
  assumes "holds l []" "fits l (length xs)" "shifts l (length xs)"
  shows "\<exists>l1 l2. queue_push_all ops l xs = Some l1 \<and> queue_pop_n ops l1 (length xs) = Some (l2, map Some xs) \<and> holds l2 []"
  using queue_push_all [OF assms(1), of xs] assms(2,3) queue_pop_n [of _ "[]" "map Some xs"] by fastforce

text \<open>Copying a list appends copies of its items, NULL for NULL.\<close>

lemma copy_each:
  assumes "holds d ds" "fits d (length ds + length xs)" "item_copy (config d) = Some f" "\<forall>x. Some x \<in> set xs \<longrightarrow> f x \<noteq> None"
  shows "\<exists>d'. run_items (list_copy_each ops) xs (Some d) = (True, Some d') \<and> holds d' (ds @ map (\<lambda>x. Option.bind x f) xs)"
  using assms
proof (induction xs arbitrary: d ds)
  case (Cons x xs)
  let ?y = "Option.bind x f"
  have "fits d (length ds + 1)" using fits_law(1) [OF Cons.prems(2)] by simp
  then obtain d1 where d1: "op_push ops (Some d) ?y = Some (Some d1, True)" "holds d1 (ds @ [?y])" "same_config d d1"
      "\<forall>n > length ds. fits d n \<longrightarrow> fits d1 n"
    using push_law [OF Cons.prems(1)] by blast
  have "list_copy_each ops x (Some d) = (True, Some d1)"
    using Cons.prems(3,4) d1(1) by (cases x) (auto simp: list_copy_each_def pushed_def)
  moreover have "fits d1 (length (ds @ [?y]) + length xs)" using d1(4) Cons.prems(2) by simp
  ultimately show ?case
    using Cons.IH [OF d1(2)] Cons.prems(3,4) d1(3) by (auto simp: same_config_def)
qed simp

end

text \<open>A copy from one list to another.\<close>

locale ov_list_copying =
  src: ov_list_contract ops holds fits shifts + dst: ov_list_contract dops dholds dfits dshifts
  for ops :: "('a, 'm, ('a, 'n) ov_list_scheme option) ov_list_ops" and holds fits shifts
    and dops :: "('a, 'n, 't) ov_list_ops" and dholds dfits dshifts
begin

lemma copy:
  assumes "holds l xs" "dholds d ds" "dfits d (length ds + length xs)" "item_copy (config l) = Some f" "\<forall>x. Some x \<in> set xs \<longrightarrow> f x \<noteq> None"
  shows "\<exists>d'. list_copy ops dops (Some l) (Some d) = Some (Some d', True) \<and> dholds d' (ds @ map (\<lambda>x. Option.bind x f) xs)"
proof -
  have "dholds (d\<lparr>config := config l\<rparr>) ds" "dfits (d\<lparr>config := config l\<rparr>) (length ds + length xs)"
    using assms(2,3) by (simp_all add: dst.config_law)
  with dst.copy_each [of "d\<lparr>config := config l\<rparr>" ds xs f] assms(4,5) show ?thesis
    by (auto simp: list_copy_def src.for_each_law [OF assms(1)])
qed

end

end
