(* ===== verification/Ov_Linked_List.thy ===== *)
theory Ov_Linked_List
  imports Ov_List
begin

text \<open>
  The doubly linked list, \<open>ov_base/src/list/ov_linked_list.c\<close>, on a heap of entities.

  A pointer to an entity is \<open>None\<close> (NULL), the entity embedded in the list itself (\<open>Head\<close>), or an allocated
  one. An operation is \<open>None\<close> when an assertion fails, when a pointer is followed that does not point to an entity, or
  when a loop does not end; the theorems show that this does not happen. Entities are allocated at fresh addresses.
\<close>

datatype eptr = Head | Ent nat

record 'a ListEntity =
  content :: "'a option"
  enext :: "eptr option"
  elast :: "eptr option"

record 'a LinkedList = "'a ov_list" +
  cells :: "eptr \<rightharpoonup> 'a ListEntity"
  next_address :: nat

subsection \<open>Memory\<close>

definition load :: "'a LinkedList \<Rightarrow> eptr \<Rightarrow> 'a ListEntity option" where
  "load l p = cells l p"

definition store :: "'a LinkedList \<Rightarrow> eptr \<Rightarrow> ('a ListEntity \<Rightarrow> 'a ListEntity) \<Rightarrow> 'a LinkedList option" where
  "store l p f = map_option (\<lambda>e. l\<lparr>cells := (cells l)(p \<mapsto> f e)\<rparr>) (cells l p)"

definition acquire_list_entity :: "'a LinkedList \<Rightarrow> 'a LinkedList \<times> eptr" where
  "acquire_list_entity l =
    (let p = Ent (next_address l)
     in (l\<lparr>cells := (cells l)(p \<mapsto> \<lparr>content = None, enext = None, elast = None\<rparr>), next_address := next_address l + 1\<rparr>, p))"

definition release_list_entity :: "'a LinkedList \<Rightarrow> eptr \<Rightarrow> 'a LinkedList" where
  "release_list_entity l p = l\<lparr>cells := (cells l)(p := None)\<rparr>"

definition ASSERT_LIST_INVARIANTS :: "'a LinkedList \<Rightarrow> unit option" where
  "ASSERT_LIST_INVARIANTS l =
    do { h \<leftarrow> load l Head;
         a \<leftarrow> (case enext h of None \<Rightarrow> Some True | Some p \<Rightarrow> map_option (\<lambda>e. elast e = None) (load l p));
         b \<leftarrow> (case elast h of None \<Rightarrow> Some True | Some p \<Rightarrow> map_option (\<lambda>e. enext e = None) (load l p));
         if a \<and> b \<and> (enext h = None \<longleftrightarrow> elast h = None) then Some () else None }"

subsection \<open>Operations\<close>

definition ov_linked_list_create :: "'a ov_list_config \<Rightarrow> 'a LinkedList" where
  "ov_linked_list_create conf =
    \<lparr>config = conf, item_freed = [], cells = [Head \<mapsto> \<lparr>content = None, enext = None, elast = None\<rparr>], next_address = 0\<rparr>"

text \<open>The loop with \<open>n\<close> positions to go.\<close>

fun walk_to :: "'a LinkedList \<Rightarrow> eptr option \<Rightarrow> nat \<Rightarrow> eptr option option" where
  "walk_to l None n = Some None"
| "walk_to l (Some p) n =
    (if n = 1 then Some (Some p) else case n of 0 \<Rightarrow> None | Suc m \<Rightarrow> do { e \<leftarrow> load l p; walk_to l (enext e) m })"

definition get_entity_at_position :: "'a LinkedList option \<Rightarrow> nat \<Rightarrow> eptr option option" where
  "get_entity_at_position self pos =
    (case self of
       None \<Rightarrow> Some None
     | Some l \<Rightarrow>
         if pos = 0 then Some None
         else do { ASSERT_LIST_INVARIANTS l; h \<leftarrow> load l Head; e \<leftarrow> walk_to l (enext h) pos; ASSERT_LIST_INVARIANTS l; Some e })"

text \<open>\<open>append_entity\<close> is the part of \<open>impl_linked_list_push\<close> between its assertions.\<close>

definition append_entity :: "'a LinkedList \<Rightarrow> 'a option \<Rightarrow> 'a LinkedList option" where
  "append_entity l item =
    do { let (l1, new) = acquire_list_entity l;
         l2 \<leftarrow> store l1 new (content_update (\<lambda>_. item));
         h \<leftarrow> load l2 Head;
         if enext h = None
         then do { l3 \<leftarrow> store l2 Head (enext_update (\<lambda>_. Some new)); store l3 Head (elast_update (\<lambda>_. Some new)) }
         else do { p \<leftarrow> elast h;
                   l3 \<leftarrow> store l2 p (enext_update (\<lambda>_. Some new));
                   l4 \<leftarrow> store l3 new (elast_update (\<lambda>_. elast h));
                   store l4 Head (elast_update (\<lambda>_. Some new)) } }"

definition impl_linked_list_push :: "'a LinkedList option \<Rightarrow> 'a option \<Rightarrow> ('a LinkedList option \<times> bool) option" where
  "impl_linked_list_push self item =
    (case self of
       None \<Rightarrow> Some (None, False)
     | Some l \<Rightarrow>
         do { ASSERT_LIST_INVARIANTS l; l1 \<leftarrow> append_entity l item; ASSERT_LIST_INVARIANTS l1; Some (Some l1, True) })"

text \<open>The loop of \<open>expand_list_to_position\<close> with \<open>n\<close> rounds to go: the entity before the position.\<close>

fun expand_loop :: "'a LinkedList \<Rightarrow> eptr \<Rightarrow> eptr option \<Rightarrow> nat \<Rightarrow> ('a LinkedList \<times> eptr option) option" where
  "expand_loop l entity nxt 0 = Some (l, Some entity)"
| "expand_loop l entity nxt (Suc n) =
    (case nxt of
       None \<Rightarrow>
         do { (self, ok) \<leftarrow> impl_linked_list_push (Some l) None;
              l1 \<leftarrow> self;
              if \<not> ok then Some (l1, None)
              else do { h \<leftarrow> load l1 Head; e \<leftarrow> elast h; expand_loop l1 e None n } }
     | Some p \<Rightarrow> do { e \<leftarrow> load l p; expand_loop l p (enext e) n })"

definition expand_list_to_position :: "'a LinkedList \<Rightarrow> nat \<Rightarrow> ('a LinkedList \<times> eptr option) option" where
  "expand_list_to_position l pos =
    (if pos = 0 then Some (l, None) else do { h \<leftarrow> load l Head; expand_loop l Head (enext h) (pos - 1) })"

definition impl_linked_list_is_empty :: "'a LinkedList option \<Rightarrow> bool option" where
  "impl_linked_list_is_empty self =
    (case self of
       None \<Rightarrow> Some False
     | Some l \<Rightarrow> do { ASSERT_LIST_INVARIANTS l; h \<leftarrow> load l Head; Some (enext h = None) })"

partial_function (option) clear_entities :: "'a LinkedList \<Rightarrow> eptr option \<Rightarrow> 'a LinkedList option" where
  "clear_entities l nxt =
    (case nxt of
       None \<Rightarrow> Some l
     | Some p \<Rightarrow>
         do { e \<leftarrow> load l p;
              clear_entities
                (release_list_entity (if item_free (config l) \<noteq> None then l\<lparr>item_freed := item_freed l @ [content e]\<rparr> else l) p)
                (enext e) })"

definition impl_linked_list_clear :: "'a LinkedList option \<Rightarrow> ('a LinkedList option \<times> bool) option" where
  "impl_linked_list_clear self =
    (case self of
       None \<Rightarrow> Some (None, False)
     | Some l \<Rightarrow>
         do { ASSERT_LIST_INVARIANTS l;
              h \<leftarrow> load l Head;
              l1 \<leftarrow> clear_entities l (enext h);
              l2 \<leftarrow> store l1 Head (enext_update (\<lambda>_. None));
              l3 \<leftarrow> store l2 Head (elast_update (\<lambda>_. None));
              ASSERT_LIST_INVARIANTS l3;
              Some (Some l3, True) })"

text \<open>The items freed, and the list that is left: NULL after success.\<close>

definition impl_linked_list_free :: "'a LinkedList option \<Rightarrow> ('a option list \<times> 'a LinkedList option) option" where
  "impl_linked_list_free self =
    (case self of
       None \<Rightarrow> Some ([], None)
     | Some l \<Rightarrow>
         do { ASSERT_LIST_INVARIANTS l;
              (s, ok) \<leftarrow> impl_linked_list_clear (Some l);
              l1 \<leftarrow> s;
              Some (if ok then (item_freed l1, None) else ([], Some l1)) })"

partial_function (option) find_item :: "'a LinkedList \<Rightarrow> 'a option \<Rightarrow> eptr option \<Rightarrow> nat \<Rightarrow> nat option" where
  "find_item l item nxt count =
    (case nxt of
       None \<Rightarrow> Some 0
     | Some p \<Rightarrow> do { e \<leftarrow> load l p; if content e = item then Some count else find_item l item (enext e) (count + 1) })"

definition impl_linked_list_get_pos :: "'a LinkedList option \<Rightarrow> 'a option \<Rightarrow> nat option" where
  "impl_linked_list_get_pos self item =
    (case self of
       None \<Rightarrow> Some 0
     | Some l \<Rightarrow>
         do { ASSERT_LIST_INVARIANTS l;
              if item = None then Some 0
              else do { h \<leftarrow> load l Head; n \<leftarrow> find_item l item (enext h) 1; ASSERT_LIST_INVARIANTS l; Some n } })"

text \<open>An item that is NULL and no item are the same to the caller.\<close>

definition impl_linked_list_get :: "'a LinkedList option \<Rightarrow> nat \<Rightarrow> 'a option option" where
  "impl_linked_list_get self pos =
    do { entity \<leftarrow> get_entity_at_position self pos;
         case (entity, self) of
           (Some p, Some l) \<Rightarrow> map_option content (load l p)
         | _ \<Rightarrow> Some None }"

text \<open>The third component is the value stored to \<open>*old\<close>, if any.\<close>

definition impl_linked_list_set ::
  "'a LinkedList option \<Rightarrow> nat \<Rightarrow> 'a option \<Rightarrow> ('a LinkedList option \<times> bool \<times> 'a option option) option" where
  "impl_linked_list_set self pos item =
    (case self of
       None \<Rightarrow> Some (None, False, None)
     | Some l \<Rightarrow>
         if pos = 0 then do { ASSERT_LIST_INVARIANTS l; Some (Some l, False, None) }
         else do { ASSERT_LIST_INVARIANTS l;
                   (l1, entity) \<leftarrow> expand_list_to_position l pos;
                   case entity of
                     None \<Rightarrow> do { ASSERT_LIST_INVARIANTS l1; Some (Some l1, False, None) }
                   | Some p \<Rightarrow>
                       do { e \<leftarrow> load l1 p;
                            case enext e of
                              None \<Rightarrow> do { (s, ok) \<leftarrow> impl_linked_list_push (Some l1) item; Some (s, ok, None) }
                            | Some q \<Rightarrow>
                                do { f \<leftarrow> load l1 q;
                                     l2 \<leftarrow> store l1 q (content_update (\<lambda>_. item));
                                     ASSERT_LIST_INVARIANTS l2;
                                     Some (Some l2, True, Some (content f)) } } })"

text \<open>The part of \<open>impl_linked_list_insert\<close> that links a new entity behind the entity at \<open>p\<close>.\<close>

definition link_entity :: "'a LinkedList \<Rightarrow> eptr \<Rightarrow> 'a option \<Rightarrow> 'a LinkedList option" where
  "link_entity l p item =
    do { let (l1, new) = acquire_list_entity l;
         e \<leftarrow> load l1 p;
         l2 \<leftarrow> store l1 new (\<lambda>_. \<lparr>content = item, enext = enext e, elast = Some p\<rparr>);
         l3 \<leftarrow> (case enext e of None \<Rightarrow> Some l2 | Some q \<Rightarrow> store l2 q (elast_update (\<lambda>_. Some new)));
         l4 \<leftarrow> store l3 p (enext_update (\<lambda>_. Some new));
         h \<leftarrow> load l4 Head;
         l5 \<leftarrow> (if elast h = Some p then store l4 Head (elast_update (\<lambda>_. Some new)) else Some l4);
         l6 \<leftarrow> (if p = Head then store l5 new (elast_update (\<lambda>_. None)) else Some l5);
         h' \<leftarrow> load l6 Head;
         if elast h' = None then store l6 Head (elast_update (\<lambda>_. Some new)) else Some l6 }"

definition impl_linked_list_insert ::
  "'a LinkedList option \<Rightarrow> nat \<Rightarrow> 'a option \<Rightarrow> ('a LinkedList option \<times> bool) option" where
  "impl_linked_list_insert self pos item =
    (case self of
       None \<Rightarrow> Some (None, False)
     | Some l \<Rightarrow>
         if pos = 0 then Some (Some l, False)
         else do { ASSERT_LIST_INVARIANTS l;
                   (l0, entity) \<leftarrow> expand_list_to_position l pos;
                   case entity of
                     None \<Rightarrow> do { ASSERT_LIST_INVARIANTS l0; Some (Some l0, False) }
                   | Some p \<Rightarrow> do { l1 \<leftarrow> link_entity l0 p item; ASSERT_LIST_INVARIANTS l1; Some (Some l1, True) } })"

text \<open>\<open>unlink_entity\<close> and \<open>drop_last_entity\<close> are the parts of \<open>impl_linked_list_remove\<close> and \<open>impl_linked_list_pop\<close> that take the
  entity at \<open>p\<close> out of the list.\<close>

definition unlink_entity :: "'a LinkedList \<Rightarrow> eptr \<Rightarrow> ('a LinkedList \<times> 'a option) option" where
  "unlink_entity l p =
    do { e \<leftarrow> load l p;
         h \<leftarrow> load l Head;
         l1 \<leftarrow> (if enext h = Some p then store l Head (enext_update (\<lambda>_. enext e)) else Some l);
         l2 \<leftarrow> (if elast h = Some p then store l1 Head (elast_update (\<lambda>_. elast e)) else Some l1);
         l3 \<leftarrow> (case elast e of None \<Rightarrow> Some l2 | Some q \<Rightarrow> store l2 q (enext_update (\<lambda>_. enext e)));
         l4 \<leftarrow> (case enext e of None \<Rightarrow> Some l3 | Some q \<Rightarrow> store l3 q (elast_update (\<lambda>_. elast e)));
         Some (release_list_entity l4 p, content e) }"

definition impl_linked_list_remove :: "'a LinkedList option \<Rightarrow> nat \<Rightarrow> ('a LinkedList option \<times> 'a option) option" where
  "impl_linked_list_remove self pos =
    (case self of
       None \<Rightarrow> Some (None, None)
     | Some l \<Rightarrow>
         do { ASSERT_LIST_INVARIANTS l;
              entity \<leftarrow> get_entity_at_position (Some l) pos;
              case entity of
                None \<Rightarrow> do { ASSERT_LIST_INVARIANTS l; Some (Some l, None) }
              | Some p \<Rightarrow> do { (l1, x) \<leftarrow> unlink_entity l p; ASSERT_LIST_INVARIANTS l1; Some (Some l1, x) } })"

definition drop_last_entity :: "'a LinkedList \<Rightarrow> eptr \<Rightarrow> ('a LinkedList \<times> 'a option) option" where
  "drop_last_entity l p =
    do { e \<leftarrow> load l p;
         l1 \<leftarrow> store l Head (elast_update (\<lambda>_. elast e));
         l2 \<leftarrow> (case elast e of
                  Some q \<Rightarrow> do { l2 \<leftarrow> store l1 q (enext_update (\<lambda>_. None)); Some (release_list_entity l2 p) }
                | None \<Rightarrow>
                    do { l2 \<leftarrow> store (release_list_entity l1 p) Head (elast_update (\<lambda>_. None));
                         store l2 Head (enext_update (\<lambda>_. None)) });
         Some (l2, content e) }"

definition impl_linked_list_pop :: "'a LinkedList option \<Rightarrow> ('a LinkedList option \<times> 'a option) option" where
  "impl_linked_list_pop self =
    (case self of
       None \<Rightarrow> Some (None, None)
     | Some l \<Rightarrow>
         do { ASSERT_LIST_INVARIANTS l;
              h \<leftarrow> load l Head;
              case elast h of
                None \<Rightarrow> do { ASSERT_LIST_INVARIANTS l; Some (Some l, None) }
              | Some p \<Rightarrow> do { (l1, x) \<leftarrow> drop_last_entity l p; ASSERT_LIST_INVARIANTS l1; Some (Some l1, x) } })"

partial_function (option) count_entities :: "'a LinkedList \<Rightarrow> eptr option \<Rightarrow> nat \<Rightarrow> nat option" where
  "count_entities l nxt count =
    (case nxt of None \<Rightarrow> Some count | Some p \<Rightarrow> do { e \<leftarrow> load l p; count_entities l (enext e) (count + 1) })"

definition impl_linked_list_count :: "'a LinkedList option \<Rightarrow> nat option" where
  "impl_linked_list_count self =
    (case self of
       None \<Rightarrow> Some 0
     | Some l \<Rightarrow>
         do { ASSERT_LIST_INVARIANTS l; h \<leftarrow> load l Head; n \<leftarrow> count_entities l (enext h) 0; ASSERT_LIST_INVARIANTS l; Some n })"

text \<open>The callback gets the object behind \<open>data\<close> and returns it; \<open>False\<close> stops the iteration.\<close>

partial_function (option) for_each_entity ::
  "'a LinkedList \<Rightarrow> ('a option \<Rightarrow> 's \<Rightarrow> bool \<times> 's) \<Rightarrow> eptr option \<Rightarrow> 's \<Rightarrow> (bool \<times> 's) option" where
  "for_each_entity l function nxt s =
    (case nxt of
       None \<Rightarrow> Some (True, s)
     | Some p \<Rightarrow>
         do { e \<leftarrow> load l p;
              case function (content e) s of (ok, s') \<Rightarrow> if \<not> ok then Some (False, s') else for_each_entity l function (enext e) s' })"

definition impl_linked_list_for_each ::
  "'a LinkedList option \<Rightarrow> 's \<Rightarrow> ('a option \<Rightarrow> 's \<Rightarrow> bool \<times> 's) option \<Rightarrow> (bool \<times> 's) option" where
  "impl_linked_list_for_each self data function =
    (case self of
       None \<Rightarrow> Some (False, data)
     | Some l \<Rightarrow>
         do { ASSERT_LIST_INVARIANTS l;
              case function of
                None \<Rightarrow> do { ASSERT_LIST_INVARIANTS l; Some (False, data) }
              | Some f \<Rightarrow> do { h \<leftarrow> load l Head; r \<leftarrow> for_each_entity l f (enext h) data; ASSERT_LIST_INVARIANTS l; Some r } })"

definition impl_linked_list_iter :: "'a LinkedList option \<Rightarrow> eptr option option" where
  "impl_linked_list_iter self =
    (case self of
       None \<Rightarrow> Some None
     | Some l \<Rightarrow> do { ASSERT_LIST_INVARIANTS l; h \<leftarrow> load l Head; Some (enext h) })"

text \<open>The next iterator and the element.\<close>

definition impl_linked_list_next :: "'a LinkedList option \<Rightarrow> eptr option \<Rightarrow> (eptr option \<times> 'a option) option" where
  "impl_linked_list_next self iter =
    (case self of
       None \<Rightarrow> Some (None, None)
     | Some l \<Rightarrow>
         do { ASSERT_LIST_INVARIANTS l;
              case iter of
                None \<Rightarrow> do { ASSERT_LIST_INVARIANTS l; Some (None, None) }
              | Some p \<Rightarrow> do { e \<leftarrow> load l p; ASSERT_LIST_INVARIANTS l; Some (enext e, content e) } })"

subsection \<open>Representation\<close>

text \<open>The pointers to the entity at an index, before it, and the entity that precedes an index.\<close>

definition at :: "nat list \<Rightarrow> nat \<Rightarrow> eptr option" where
  "at ps i = (if i < length ps then Some (Ent (ps ! i)) else None)"

definition prev :: "nat list \<Rightarrow> nat \<Rightarrow> eptr option" where
  "prev ps i = (if i = 0 then None else Some (Ent (ps ! (i - 1))))"

definition before :: "nat list \<Rightarrow> nat \<Rightarrow> eptr" where
  "before ps i = (if i = 0 then Head else Ent (ps ! (i - 1)))"

definition cell :: "nat list \<Rightarrow> 'a option list \<Rightarrow> nat \<Rightarrow> 'a ListEntity" where
  "cell ps xs i = \<lparr>content = xs ! i, enext = at ps (i + 1), elast = prev ps i\<rparr>"

definition head_cell :: "nat list \<Rightarrow> 'a ListEntity" where
  "head_cell ps = \<lparr>content = None, enext = at ps 0, elast = prev ps (length ps)\<rparr>"

text \<open>The list \<open>l\<close> holds the items \<open>xs\<close> in entities at the addresses \<open>ps\<close>.\<close>

definition rep :: "'a LinkedList \<Rightarrow> nat list \<Rightarrow> 'a option list \<Rightarrow> bool" where
  "rep l ps xs \<longleftrightarrow> length ps = length xs \<and> distinct ps \<and> (\<forall>a \<in> set ps. a < next_address l) \<and>
    cells l Head = Some (head_cell ps) \<and> (\<forall>i < length ps. cells l (Ent (ps ! i)) = Some (cell ps xs i)) \<and>
    (\<forall>a. a \<notin> set ps \<longrightarrow> cells l (Ent a) = None)"

definition holds_items :: "'a LinkedList \<Rightarrow> 'a option list \<Rightarrow> bool" where
  "holds_items l xs \<longleftrightarrow> (\<exists>ps. rep l ps xs)"

lemma repD:
  assumes "rep l ps xs"
  shows "length ps = length xs" "distinct ps" "a \<in> set ps \<Longrightarrow> a < next_address l" "load l Head = Some (head_cell ps)"
    "i < length xs \<Longrightarrow> load l (Ent (ps ! i)) = Some (cell ps xs i)" "next_address l \<notin> set ps"
  using assms by (auto simp: rep_def load_def)

lemma rep_assert [simp]:
  assumes "rep l ps xs"
  shows "ASSERT_LIST_INVARIANTS l = Some ()"
proof (cases "xs = []")
  case True
  then show ?thesis using repD [OF assms] by (simp add: ASSERT_LIST_INVARIANTS_def head_cell_def at_def prev_def)
next
  case False
  then have "0 < length xs" "length xs - 1 < length xs" by simp_all
  with False show ?thesis
    using repD(1,4) [OF assms] repD(5) [OF assms, of 0] repD(5) [OF assms, of "length xs - 1"]
    by (simp add: ASSERT_LIST_INVARIANTS_def head_cell_def at_def prev_def cell_def)
qed

lemma walk_to_at:
  "rep l ps xs \<Longrightarrow> walk_to l (at ps i) (Suc n) = Some (at ps (i + n))"
proof (induction n arbitrary: i)
  case 0
  then show ?case by (simp add: at_def)
next
  case (Suc n)
  show ?case
  proof (cases "i < length ps")
    case True
    then have "load l (Ent (ps ! i)) = Some (cell ps xs i)" using repD(1,5) [OF Suc.prems] by simp
    with True Suc.IH [OF Suc.prems, of "i + 1"] show ?thesis by (simp add: at_def cell_def)
  qed (simp add: at_def)
qed

lemma get_entity_eq:
  assumes "rep l ps xs"
  shows "get_entity_at_position (Some l) pos = Some (if pos = 0 then None else at ps (pos - 1))"
proof (cases pos)
  case (Suc n)
  then show ?thesis
    using repD(4) [OF assms] assms walk_to_at [OF assms, of 0 n] by (simp add: get_entity_at_position_def head_cell_def del: walk_to.simps)
qed (simp add: get_entity_at_position_def)

text \<open>A list whose entities were changed at some indices only.\<close>

lemma repI:
  assumes "length ps = length xs" "distinct ps" "\<And>a. a \<in> set ps \<Longrightarrow> a < next_address l" "cells l Head = Some (head_cell ps)"
    "\<And>i. i < length ps \<Longrightarrow> cells l (Ent (ps ! i)) = Some (cell ps xs i)" "\<And>a. a \<notin> set ps \<Longrightarrow> cells l (Ent a) = None"
  shows "rep l ps xs"
  using assms by (simp add: rep_def)

lemma rep_insert:
  assumes r: "rep l ps xs" and k: "k \<le> length xs" and a: "a = next_address l" "next_address l' = a + 1"
    and h: "cells l' Head = Some (head_cell (take k ps @ a # drop k ps))"
    and new: "cells l' (Ent a) = Some \<lparr>content = x, enext = at ps k, elast = prev ps k\<rparr>"
    and old: "\<And>i. i < length ps \<Longrightarrow> cells l' (Ent (ps ! i)) = Some \<lparr>content = xs ! i,
      enext = (if i + 1 = k then Some (Ent a) else at ps (i + 1)), elast = (if i = k then Some (Ent a) else prev ps i)\<rparr>"
    and other: "\<And>b. b \<notin> set ps \<Longrightarrow> b \<noteq> a \<Longrightarrow> cells l' (Ent b) = None"
  shows "rep l' (take k ps @ a # drop k ps) (take k xs @ x # drop k xs)"
proof (rule repI)
  let ?ps = "take k ps @ a # drop k ps" and ?xs = "take k xs @ x # drop k xs"
  note n = repD(1) [OF r]
  have set: "set ?ps = insert a (set ps)" by (metis Un_insert_right append_take_drop_id list.simps(15) set_append)
  have "distinct (take k ps @ drop k ps)" using repD(2) [OF r] by simp
  moreover have "a \<notin> set (take k ps)" "a \<notin> set (drop k ps)" using repD(6) [OF r] a by (auto dest: in_set_takeD in_set_dropD)
  ultimately show "distinct ?ps" by (simp del: append_take_drop_id)
  show "length ?ps = length ?xs" "cells l' Head = Some (head_cell ?ps)" using n k h by auto
  show "b < next_address l'" if "b \<in> set ?ps" for b using that repD(3) [OF r] a unfolding set by (auto intro: less_SucI)
  show "cells l' (Ent b) = None" if "b \<notin> set ?ps" for b using that other unfolding set by auto
  fix i assume i: "i < length ?ps"
  consider "i < k" | "i = k" | "k < i" by linarith
  then show "cells l' (Ent (?ps ! i)) = Some (cell ?ps ?xs i)"
  proof cases
    case 1
    then show ?thesis using k n old [of i] by (auto simp: cell_def at_def prev_def nth_append min_def)
  next
    case 2
    then show ?thesis using k n new by (auto simp: cell_def at_def prev_def nth_append min_def)
  next
    case 3
    then obtain j where j: "i = Suc j" "k \<le> j" by (cases i) auto
    then show ?thesis using k n i old [of j] by (auto simp: cell_def at_def prev_def nth_append min_def nth_Cons' Suc_diff_le)
  qed
qed

lemma rep_remove:
  assumes r: "rep l ps xs" and k: "k < length xs" and a: "next_address l' = next_address l"
    and h: "cells l' Head = Some (head_cell (take k ps @ drop (Suc k) ps))"
    and gone: "cells l' (Ent (ps ! k)) = None"
    and old: "\<And>i. i < length ps \<Longrightarrow> i \<noteq> k \<Longrightarrow> cells l' (Ent (ps ! i)) = Some \<lparr>content = xs ! i,
      enext = (if i + 1 = k then at ps (k + 1) else at ps (i + 1)), elast = (if i = k + 1 then prev ps k else prev ps i)\<rparr>"
    and other: "\<And>b. b \<notin> set ps \<Longrightarrow> cells l' (Ent b) = None"
  shows "rep l' (take k ps @ drop (Suc k) ps) (take k xs @ drop (Suc k) xs)"
proof (rule repI)
  let ?ps = "take k ps @ drop (Suc k) ps" and ?xs = "take k xs @ drop (Suc k) xs"
  note n = repD(1) [OF r]
  have split: "ps = take k ps @ ps ! k # drop (Suc k) ps" using k n by (simp add: id_take_nth_drop)
  have d: "distinct (take k ps @ ps ! k # drop (Suc k) ps)" using repD(2) [OF r] split by simp
  then show "distinct ?ps" by simp
  have "set ps = insert (ps ! k) (set ?ps)" using arg_cong [OF split, of set] by auto
  moreover have "ps ! k \<notin> set ?ps" using d by simp
  ultimately have set: "set ?ps = set ps - {ps ! k}" by auto
  show "length ?ps = length ?xs" "cells l' Head = Some (head_cell ?ps)" using n k h by auto
  show "b < next_address l'" if "b \<in> set ?ps" for b using that repD(3) [OF r] a unfolding set by auto
  show "cells l' (Ent b) = None" if "b \<notin> set ?ps" for b using that other gone unfolding set by auto
  fix i assume i: "i < length ?ps"
  show "cells l' (Ent (?ps ! i)) = Some (cell ?ps ?xs i)"
  proof (cases "i < k")
    case True
    then show ?thesis using k n old [of i] by (auto simp: cell_def at_def prev_def nth_append min_def)
  next
    case False
    then show ?thesis using k n i old [of "Suc i"] by (auto simp: cell_def at_def prev_def nth_append min_def)
  qed
qed

lemma rep_cells:
  assumes "rep l ps xs"
  shows "cells l Head = Some (head_cell ps)" "i < length ps \<Longrightarrow> cells l (Ent (ps ! i)) = Some (cell ps xs i)"
    "b \<notin> set ps \<Longrightarrow> cells l (Ent b) = None" "i < length ps \<Longrightarrow> ps ! i \<noteq> next_address l"
    "i < length ps \<Longrightarrow> j < length ps \<Longrightarrow> ps ! i = ps ! j \<longleftrightarrow> i = j"
proof -
  show "cells l Head = Some (head_cell ps)" "i < length ps \<Longrightarrow> cells l (Ent (ps ! i)) = Some (cell ps xs i)"
    "b \<notin> set ps \<Longrightarrow> cells l (Ent b) = None" using assms by (auto simp: rep_def)
  show "i < length ps \<Longrightarrow> ps ! i \<noteq> next_address l" using repD(6) [OF assms] nth_mem by fastforce
  show "i < length ps \<Longrightarrow> j < length ps \<Longrightarrow> ps ! i = ps ! j \<longleftrightarrow> i = j" using repD(2) [OF assms] by (rule nth_eq_iff_index_eq)
qed

text \<open>The list with an entity inserted at index \<open>k\<close>.\<close>

definition inserted :: "'a LinkedList \<Rightarrow> nat list \<Rightarrow> 'a option list \<Rightarrow> nat \<Rightarrow> 'a option \<Rightarrow> 'a LinkedList" where
  "inserted l ps xs k x =
    (let a = next_address l;
         c1 = (cells l)(Ent a \<mapsto> \<lparr>content = x, enext = at ps k, elast = prev ps k\<rparr>);
         c2 = (if k < length ps then c1(Ent (ps ! k) \<mapsto> (cell ps xs k)\<lparr>elast := Some (Ent a)\<rparr>) else c1);
         c3 = (if k = 0 then c2 else c2(Ent (ps ! (k - 1)) \<mapsto>
                (cell ps xs (k - 1))\<lparr>enext := Some (Ent a)\<rparr>))
     in l\<lparr>next_address := a + 1, cells := c3(Head \<mapsto> head_cell (take k ps @ a # drop k ps))\<rparr>)"

lemma rep_inserted:
  assumes r: "rep l ps xs" and k: "k \<le> length xs"
  shows "rep (inserted l ps xs k x) (take k ps @ next_address l # drop k ps) (take k xs @ x # drop k xs)"
proof (rule rep_insert [OF r k])
  let ?l = "inserted l ps xs k x" and ?a = "next_address l"
  note c = rep_cells [OF r] and n = repD(1) [OF r]
  have k1: "k - 1 < length ps" if "k \<noteq> 0" using that k n by simp
  show "cells ?l (Ent ?a) = Some \<lparr>content = x, enext = at ps k, elast = prev ps k\<rparr>"
  proof -
    have "k < length ps \<Longrightarrow> ?a \<noteq> ps ! k" "k \<noteq> 0 \<Longrightarrow> ?a \<noteq> ps ! (k - 1)"
      using c(4) [of k] c(4) [of "k - 1"] k1 by metis+
    then show ?thesis by (cases "k = 0") (simp_all add: inserted_def Let_def)
  qed
  show "cells ?l (Ent (ps ! i)) = Some \<lparr>content = xs ! i, enext = (if i + 1 = k then Some (Ent ?a) else at ps (i + 1)),
      elast = (if i = k then Some (Ent ?a) else prev ps i)\<rparr>" if i: "i < length ps" for i
  proof -
    have e: "ps ! i \<noteq> ?a" "k < length ps \<Longrightarrow> ps ! i = ps ! k \<longleftrightarrow> i = k" "k \<noteq> 0 \<Longrightarrow> ps ! i = ps ! (k - 1) \<longleftrightarrow> i = k - 1"
      by (fact c(4) [OF i], rule c(5) [OF i], assumption, rule c(5) [OF i k1])
    consider "i = k" | "i + 1 = k" | "i \<noteq> k" "i + 1 \<noteq> k" by blast
    then show ?thesis
    proof cases
      case 1
      with e i show ?thesis by (cases k) (simp_all add: inserted_def Let_def cell_def)
    next
      case 2
      then have "k \<noteq> 0" "k - 1 = i" by auto
      with 2 e i show ?thesis by (simp add: inserted_def Let_def cell_def)
    next
      case 3
      then have "i \<noteq> k - 1" if "k \<noteq> 0" using that by simp
      with 3 e c(2) [OF i] show ?thesis by (cases "k = 0"; cases "k < length ps") (simp_all add: inserted_def Let_def cell_def)
    qed
  qed
  show "cells ?l (Ent b) = None" if "b \<notin> set ps" "b \<noteq> ?a" for b
  proof -
    have "k < length ps \<Longrightarrow> b \<noteq> ps ! k" "k \<noteq> 0 \<Longrightarrow> b \<noteq> ps ! (k - 1)"
      using that nth_mem [of k ps] nth_mem [of "k - 1" ps] k1 by metis+
    with that c(3) [of b] show ?thesis by (cases "k = 0"; cases "k < length ps") (simp_all add: inserted_def Let_def)
  qed
qed (simp_all add: inserted_def Let_def)

lemma inserted_config: "same_config l (inserted l ps xs k x)"
  by (simp add: inserted_def Let_def same_config_def)

lemmas heap_defs = acquire_list_entity_def release_list_entity_def load_def store_def Let_def head_cell_def at_def prev_def fun_upd_twist

lemma append_entity_eq:
  assumes r: "rep l ps xs"
  shows "append_entity l x = Some (inserted l ps xs (length xs) x)"
proof (cases "ps = []")
  case True
  with repD(1) [OF r] rep_cells(1) [OF r] show ?thesis by (simp add: append_entity_def inserted_def heap_defs)
next
  case False
  then have "length ps \<noteq> 0" by simp
  with repD(1) [OF r] have q: "length xs - 1 < length ps" "xs \<noteq> []" by auto
  note c = rep_cells(1) [OF r] rep_cells(2,4) [OF r q(1)]
  show ?thesis using False q c repD(1) [OF r] by (simp add: append_entity_def inserted_def cell_def heap_defs nth_append)
qed

lemma push_eq:
  assumes r: "rep l ps xs"
  obtains l' where "impl_linked_list_push (Some l) x = Some (Some l', True)" "rep l' (ps @ [next_address l]) (xs @ [x])" "same_config l l'"
proof
  let ?l = "inserted l ps xs (length xs) x"
  show rep: "rep ?l (ps @ [next_address l]) (xs @ [x])" using rep_inserted [OF r order_refl, of x] repD(1) [OF r] by simp
  show "impl_linked_list_push (Some l) x = Some (Some ?l, True)"
    by (simp add: impl_linked_list_push_def append_entity_eq [OF r] rep_assert [OF r] rep_assert [OF rep])
qed (rule inserted_config)

lemma expand_loop_eq:
  "rep l ps xs \<Longrightarrow> i \<le> length xs \<Longrightarrow>
    \<exists>l' ps'. expand_loop l (before ps i) (at ps i) n = Some (l', Some (before ps' (i + n))) \<and>
      rep l' ps' (xs @ replicate (i + n - length xs) None) \<and> same_config l l'"
proof (induction n arbitrary: l ps xs i)
  case 0
  then show ?case by (auto simp: same_config_def)
next
  case (Suc n)
  note r = Suc.prems(1)
  show ?case
  proof (cases "i < length xs")
    case True
    then have "load l (Ent (ps ! i)) = Some (cell ps xs i)" "at ps i = Some (Ent (ps ! i))" "before ps (Suc i) = Ent (ps ! i)"
      using repD(1,5) [OF r] by (simp_all add: at_def before_def)
    with Suc.IH [OF r, of "Suc i"] True show ?thesis by (simp add: cell_def)
  next
    case False
    with Suc.prems(2) have i: "i = length xs" by simp
    obtain l1 where l1: "impl_linked_list_push (Some l) None = Some (Some l1, True)" "rep l1 (ps @ [next_address l]) (xs @ [None])" "same_config l l1"
      by (rule push_eq [OF r])
    let ?ps = "ps @ [next_address l]"
    have n: "length ps = length xs" using repD(1) [OF r] .
    have "load l1 Head = Some (head_cell ?ps)" using repD(4) [OF l1(2)] .
    moreover have "before ?ps (Suc i) = Ent (next_address l)" "at ?ps (Suc i) = None" "at ps i = None"
      using i n by (simp_all add: before_def at_def nth_append)
    ultimately have "expand_loop l (before ps i) (at ps i) (Suc n) = expand_loop l1 (before ?ps (Suc i)) (at ?ps (Suc i)) n"
      using l1(1) i n nth_append_length [of ps "next_address l" "[]"] by (simp add: head_cell_def prev_def)
    moreover have "Suc i \<le> length (xs @ [None])" using i by simp
    ultimately show ?thesis
      using Suc.IH [OF l1(2), of "Suc i"] i same_config_trans [OF l1(3)] by (auto simp: replicate_append_same [symmetric])
  qed
qed

lemma expand_eq:
  assumes "rep l ps xs"
  obtains l' ps' where "expand_list_to_position l (Suc k) = Some (l', Some (before ps' k))"
    "rep l' ps' (xs @ replicate (k - length xs) None)" "same_config l l'"
  using expand_loop_eq [OF assms, of 0 k] repD(4) [OF assms]
  by (auto simp: expand_list_to_position_def head_cell_def before_def)

lemma before_eq: "before ps k = Head \<longleftrightarrow> k = 0" "k \<noteq> 0 \<Longrightarrow> before ps k = Ent (ps ! (k - 1))"
  by (simp_all add: before_def)

lemma link_entity_eq:
  assumes r: "rep l ps xs" and k: "k \<le> length xs"
  shows "link_entity l (before ps k) x = Some (inserted l ps xs k x)"
proof -
  note c = rep_cells [OF r] and n = repD(1) [OF r]
  show ?thesis
  proof (cases "k = 0")
    case True
    show ?thesis
    proof (cases "xs = []")
      case False
      with n have "0 < length ps" "ps \<noteq> []" by auto
      with \<open>k = 0\<close> c(1) c(2) [of 0] c(4) [of 0] show ?thesis
        by (simp add: link_entity_def inserted_def before_def heap_defs nth_append)
    qed (use n c(1) \<open>k = 0\<close> in \<open>simp add: link_entity_def inserted_def before_def heap_defs\<close>)
  next
    case False
    then have k1: "k - 1 < length ps" "Suc (k - 1) = k" using k n by auto
    have take: "take k ps \<noteq> []" using False k n by auto
    show ?thesis
    proof (cases "k < length xs")
      case True
      with n have kn: "k < length ps" "length ps \<noteq> k" by auto
      have d: "ps ! (length ps - 1) \<noteq> ps ! (k - 1)" using c(5) [of "length ps - 1" "k - 1"] k1 kn False by auto
      have e: "ps ! k \<noteq> ps ! (k - 1)" using c(5) [of k "k - 1"] k1 kn False by auto
      have at: "at ps k = Some (Ent (ps ! k))" "prev ps k = Some (Ent (ps ! (k - 1)))" "prev ps (length ps) = Some (Ent (ps ! (length ps - 1)))"
        using False kn by (auto simp: at_def prev_def)
      have head: "(cells l)(Head \<mapsto> head_cell (take k ps @ next_address l # drop k ps)) = cells l"
        using c(1) False kn take by (intro fun_upd_idem) (simp add: head_cell_def at_def prev_def nth_append)
      have "link_entity l (before ps k) x = Some (l\<lparr>next_address := next_address l + 1, cells := (cells l)
          (Ent (next_address l) \<mapsto> \<lparr>content = x, enext = at ps k, elast = prev ps k\<rparr>,
           Ent (ps ! k) \<mapsto> (cell ps xs k)\<lparr>elast := Some (Ent (next_address l))\<rparr>,
           Ent (ps ! (k - 1)) \<mapsto> (cell ps xs (k - 1))\<lparr>enext := Some (Ent (next_address l))\<rparr>)\<rparr>)"
        using False c(1) c(2) [OF k1(1)] c(2) [OF kn(1)] c(4) [OF kn(1)] c(4) [OF k1(1)] k1 d e at
        by (simp add: link_entity_def before_def acquire_list_entity_def load_def store_def Let_def head_cell_def cell_def fun_upd_twist)
      moreover have "inserted l ps xs k x = l\<lparr>next_address := next_address l + 1, cells := ((cells l)
          (Head \<mapsto> head_cell (take k ps @ next_address l # drop k ps)))
          (Ent (next_address l) \<mapsto> \<lparr>content = x, enext = at ps k, elast = prev ps k\<rparr>,
           Ent (ps ! k) \<mapsto> (cell ps xs k)\<lparr>elast := Some (Ent (next_address l))\<rparr>,
           Ent (ps ! (k - 1)) \<mapsto> (cell ps xs (k - 1))\<lparr>enext := Some (Ent (next_address l))\<rparr>)\<rparr>"
        using False kn by (simp add: inserted_def Let_def fun_upd_twist)
      ultimately show ?thesis by (simp only: head)
    next
      case k_eq: False
      with k n have "k = length ps" by simp
      with False c(1) c(2) [OF k1(1)] c(4) [OF k1(1)] k1 show ?thesis
        by (simp add: link_entity_def inserted_def before_def heap_defs cell_def nth_append)
    qed
  qed
qed

text \<open>The list without the entity at index \<open>k\<close>.\<close>

definition removed :: "'a LinkedList \<Rightarrow> nat list \<Rightarrow> 'a option list \<Rightarrow> nat \<Rightarrow> 'a LinkedList" where
  "removed l ps xs k =
    (let c1 = (if k = 0 \<or> Suc k = length ps then (cells l)(Head \<mapsto> head_cell (take k ps @ drop (Suc k) ps)) else cells l);
         c2 = (if k = 0 then c1 else c1(Ent (ps ! (k - 1)) \<mapsto> (cell ps xs (k - 1))\<lparr>enext := at ps (Suc k)\<rparr>));
         c3 = (if Suc k < length ps then c2(Ent (ps ! Suc k) \<mapsto> (cell ps xs (Suc k))\<lparr>elast := prev ps k\<rparr>) else c2)
     in l\<lparr>cells := c3(Ent (ps ! k) := None)\<rparr>)"

lemma removed_config: "same_config l (removed l ps xs k)"
  by (simp add: removed_def Let_def same_config_def)

lemma rep_removed:
  assumes r: "rep l ps xs" and k: "k < length xs"
  shows "rep (removed l ps xs k) (take k ps @ drop (Suc k) ps) (take k xs @ drop (Suc k) xs)"
proof (rule rep_remove [OF r k])
  let ?l = "removed l ps xs k"
  note c = rep_cells [OF r] and n = repD(1) [OF r]
  have kp: "k < length ps" "k - 1 < length ps" using k n by simp_all
  show "cells ?l Head = Some (head_cell (take k ps @ drop (Suc k) ps))"
  proof (cases "k = 0 \<or> Suc k = length ps")
    case False
    then obtain m where "length ps = Suc (Suc m)" "k \<le> m" "0 < k" using kp by (cases "length ps"; cases "length ps - 1") auto
    then have "head_cell (take k ps @ drop (Suc k) ps) = (head_cell ps :: 'a ListEntity)"
      by (auto simp: head_cell_def at_def prev_def nth_append min_def)
    with False c(1) show ?thesis by (simp add: removed_def Let_def)
  qed (auto simp: removed_def Let_def)
  show "cells ?l (Ent (ps ! i)) = Some \<lparr>content = xs ! i, enext = (if i + 1 = k then at ps (k + 1) else at ps (i + 1)),
      elast = (if i = k + 1 then prev ps k else prev ps i)\<rparr>" if i: "i < length ps" "i \<noteq> k" for i
  proof -
    have e: "ps ! i \<noteq> ps ! k" "ps ! i = ps ! (k - 1) \<longleftrightarrow> i = k - 1" "Suc k < length ps \<Longrightarrow> ps ! i = ps ! Suc k \<longleftrightarrow> i = Suc k"
      using i c(5) [OF i(1) kp(1)] c(5) [OF i(1) kp(2)] c(5) [OF i(1)] by auto
    consider "i = k + 1" | "i + 1 = k" | "i \<noteq> k + 1" "i + 1 \<noteq> k" by blast
    then show ?thesis
    proof cases
      case 1
      with e i show ?thesis by (cases k) (simp_all add: removed_def Let_def cell_def)
    next
      case 2
      then have "k \<noteq> 0" "k - 1 = i" by auto
      with 2 e i show ?thesis by (simp add: removed_def Let_def cell_def)
    next
      case 3
      with i have "i \<noteq> k - 1" if "k \<noteq> 0" using that by simp
      with 3 e c(2) [OF i(1)] show ?thesis by (cases "k = 0"; cases "Suc k < length ps") (simp_all add: removed_def Let_def cell_def)
    qed
  qed
  show "cells ?l (Ent b) = None" if "b \<notin> set ps" for b
  proof -
    have "b \<noteq> ps ! (k - 1)" "Suc k < length ps \<Longrightarrow> b \<noteq> ps ! Suc k"
      using that nth_mem [OF kp(2)] nth_mem [of "Suc k" ps] by metis+
    with that c(3) [of b] show ?thesis by (cases "k = 0"; cases "Suc k < length ps") (simp_all add: removed_def Let_def)
  qed
qed (simp_all add: removed_def Let_def)

lemma unlink_entity_eq:
  assumes r: "rep l ps xs" and k: "k < length xs"
  shows "unlink_entity l (Ent (ps ! k)) = Some (removed l ps xs k, xs ! k)"
proof -
  note c = rep_cells [OF r] and n = repD(1) [OF r]
  have kp: "k < length ps" "0 < length ps" "length ps - 1 < length ps" using k n by linarith+
  then have ps: "ps \<noteq> []" by auto
  note d = c(5) [OF kp(2) kp(1)] c(5) [OF kp(3) kp(1)]
  consider "k = 0" "length ps = 1" | "k = 0" "1 < length ps" | "k \<noteq> 0" "Suc k = length ps" | "k \<noteq> 0" "Suc k < length ps"
    using kp by linarith
  then show ?thesis
  proof cases
    case 1
    with ps c(1) c(2) [OF kp(1)] show ?thesis by (simp add: unlink_entity_def removed_def heap_defs cell_def)
  next
    case 2
    then obtain m where m: "length ps = Suc (Suc m)" by (cases "length ps"; cases "length ps - 1") auto
    have "head_cell (drop 1 ps) = (head_cell ps)\<lparr>enext := at ps 1 :: eptr option\<rparr>" "at ps 1 = Some (Ent (ps ! 1))" "at ps 0 = Some (Ent (ps ! 0))"
      using m by (simp_all add: heap_defs)
    with 2 ps d c(1) c(2) [OF kp(1)] c(2) [of 1] c(5) [of 1 0] show ?thesis
      by (simp add: unlink_entity_def removed_def acquire_list_entity_def release_list_entity_def load_def store_def Let_def head_cell_def
        prev_def cell_def fun_upd_twist)
  next
    case 3
    then have k1: "k - 1 < length ps" "length ps - 1 = k" by simp_all
    with 3 ps d c(1) c(2) [OF kp(1)] c(2) [OF k1(1)] c(5) [OF k1(1) kp(1)] show ?thesis
      by (simp add: unlink_entity_def removed_def heap_defs cell_def nth_append min_def)
  next
    case 4
    then have k1: "k - 1 < length ps" "length ps - 1 \<noteq> k" "k - 1 \<noteq> k" "k - 1 \<noteq> Suc k" by simp_all
    with 4 ps d c(1) c(2) [OF kp(1)] c(2) [OF k1(1)] c(2) [of "Suc k"] c(5) [OF k1(1) kp(1)] c(5) [of "Suc k" k] c(5) [OF k1(1), of "Suc k"] show ?thesis
      by (simp add: unlink_entity_def removed_def heap_defs cell_def)
  qed
qed

lemma drop_last_entity_eq:
  assumes r: "rep l ps xs" and xs: "xs \<noteq> []"
  shows "drop_last_entity l (Ent (ps ! (length ps - 1))) = Some (removed l ps xs (length xs - 1), last xs)"
proof -
  note c = rep_cells [OF r] and n = repD(1) [OF r]
  have ps: "ps \<noteq> []" and kp: "length ps - 1 < length ps" using xs n by auto
  show ?thesis
  proof (cases "length ps = 1")
    case True
    with xs ps c(1) c(2) [OF kp] n show ?thesis by (simp add: drop_last_entity_def removed_def heap_defs cell_def last_conv_nth)
  next
    case False
    then obtain m where m: "length ps = Suc (Suc m)" "length xs = Suc (Suc m)" using ps n by (cases "length ps"; cases "length ps - 1") auto
    then show ?thesis using ps c(1) c(2) [OF kp] c(2) [of m] c(5) [of m "Suc m"] xs
      by (simp add: drop_last_entity_def removed_def heap_defs cell_def nth_append last_conv_nth)
  qed
qed

subsection \<open>The loops\<close>

lemma clear_entities_eq:
  "rep l ps xs \<Longrightarrow> i \<le> length ps \<Longrightarrow> (\<And>j. i \<le> j \<Longrightarrow> j < length ps \<Longrightarrow> cells l' (Ent (ps ! j)) = Some (cell ps xs j)) \<Longrightarrow>
    \<exists>l''. clear_entities l' (at ps i) = Some l'' \<and> config l'' = config l' \<and> next_address l'' = next_address l' \<and>
      item_freed l'' = item_freed l' @ (if item_free (config l') \<noteq> None then drop i xs else []) \<and>
      cells l'' = (\<lambda>p. if p \<in> Ent ` set (drop i ps) then None else cells l' p)"
proof (induction "length ps - i" arbitrary: i l')
  case 0
  then show ?case using repD(1) [of l ps xs] by (simp add: at_def clear_entities.simps)
next
  case (Suc n)
  let ?l = "release_list_entity (if item_free (config l') \<noteq> None then l'\<lparr>item_freed := item_freed l' @ [xs ! i]\<rparr> else l') (Ent (ps ! i))"
  note r = Suc.prems(1)
  have i: "i < length ps" "i < length xs" using Suc.hyps(2) repD(1) [OF r] by auto
  have "cells ?l (Ent (ps ! j)) = Some (cell ps xs j)" if "Suc i \<le> j" "j < length ps" for j
    using that Suc.prems(3) [of j] rep_cells(5) [OF r, of j i] i by (auto simp: release_list_entity_def)
  moreover have "n = length ps - Suc i" "Suc i \<le> length ps" using Suc.hyps(2) i by simp_all
  ultimately obtain l'' where l'': "clear_entities ?l (at ps (Suc i)) = Some l''"
    "config l'' = config ?l" "next_address l'' = next_address ?l"
    "item_freed l'' = item_freed ?l @ (if item_free (config ?l) \<noteq> None then drop (Suc i) xs else [])"
    "cells l'' = (\<lambda>p. if p \<in> Ent ` set (drop (Suc i) ps) then None else cells ?l p)"
    using Suc.hyps(1) [of "Suc i" ?l] r by blast
  have "clear_entities l' (at ps i) = clear_entities ?l (at ps (Suc i))"
    using Suc.prems(3) [OF order_refl i(1)] i by (subst clear_entities.simps) (simp add: at_def [of ps i] load_def cell_def)
  moreover have "drop i ps = ps ! i # drop (Suc i) ps" "drop i xs = xs ! i # drop (Suc i) xs" using i by (simp_all add: Cons_nth_drop_Suc)
  ultimately show ?case using l'' by (auto simp: release_list_entity_def fun_eq_iff)
qed

lemma find_item_eq:
  assumes r: "rep l ps xs"
  shows "find_item l x (at ps i) n =
    Some (if x \<in> set (drop i xs) then n + length (takeWhile (\<lambda>y. y \<noteq> x) (drop i xs)) else 0)"
proof (induction "length xs - i" arbitrary: i n)
  case 0
  then show ?case using repD(1) [OF r] by (simp add: at_def find_item.simps)
next
  case (Suc m)
  then have i: "i < length xs" "i < length ps" using repD(1) [OF r] by auto
  have "find_item l x (at ps i) n = (if xs ! i = x then Some n else find_item l x (at ps (Suc i)) (n + 1))"
    using repD(5) [OF r i(1)] i by (subst find_item.simps) (simp add: at_def [of ps i] cell_def)
  moreover have "drop i xs = xs ! i # drop (Suc i) xs" using i by (simp add: Cons_nth_drop_Suc)
  ultimately show ?case using Suc.hyps(1) [of "Suc i" "n + 1"] Suc.hyps(2) by (simp split del: if_split) simp
qed

lemma count_entities_eq:
  assumes r: "rep l ps xs"
  shows "count_entities l (at ps i) n = Some (n + (length xs - i))"
proof (induction "length xs - i" arbitrary: i n)
  case 0
  then show ?case using repD(1) [OF r] by (simp add: at_def count_entities.simps)
next
  case (Suc m)
  then have i: "i < length xs" "i < length ps" using repD(1) [OF r] by auto
  have "count_entities l (at ps i) n = count_entities l (at ps (Suc i)) (n + 1)"
    using repD(5) [OF r i(1)] i by (subst count_entities.simps) (simp add: at_def [of ps i] cell_def)
  with Suc.hyps(1) [of "Suc i" "n + 1"] Suc.hyps(2) i show ?case by simp
qed

lemma for_each_entity_eq:
  assumes r: "rep l ps xs"
  shows "for_each_entity l f (at ps i) s = Some (run_items f (drop i xs) s)"
proof (induction "length xs - i" arbitrary: i s)
  case 0
  then show ?case using repD(1) [OF r] by (simp add: at_def for_each_entity.simps)
next
  case (Suc m)
  then have i: "i < length xs" "i < length ps" using repD(1) [OF r] by auto
  have "for_each_entity l f (at ps i) s =
      (case f (xs ! i) s of (ok, s') \<Rightarrow> if \<not> ok then Some (False, s') else for_each_entity l f (at ps (Suc i)) s')"
    using repD(5) [OF r i(1)] i by (subst for_each_entity.simps) (simp add: at_def [of ps i] cell_def split: prod.split)
  moreover have "drop i xs = xs ! i # drop (Suc i) xs" using i by (simp add: Cons_nth_drop_Suc)
  ultimately show ?case using Suc.hyps(1) [of "Suc i"] Suc.hyps(2) by (simp split: prod.split)
qed

subsection \<open>Operations on the items\<close>

lemma holds_itemsE:
  assumes "holds_items l xs"
  obtains ps where "rep l ps xs"
  using assms by (auto simp: holds_items_def)

lemma holds_itemsI: "rep l ps xs \<Longrightarrow> holds_items l xs"
  by (auto simp: holds_items_def)

lemma create_holds: "holds_items (ov_linked_list_create conf) []"
  by (rule holds_itemsI [of _ "[]"]) (simp add: rep_def ov_linked_list_create_def head_cell_def at_def prev_def)

lemma linked_is_empty: "holds_items l xs \<Longrightarrow> impl_linked_list_is_empty (Some l) = Some (xs = [])"
  by (erule holds_itemsE) (auto simp: impl_linked_list_is_empty_def repD(4) head_cell_def at_def dest: repD(1))

lemma linked_count: "holds_items l xs \<Longrightarrow> impl_linked_list_count (Some l) = Some (length xs)"
  using count_entities_eq [where i = 0 and n = 0]
  by (elim holds_itemsE) (auto simp: impl_linked_list_count_def repD(4) head_cell_def)

lemma linked_get: "holds_items l xs \<Longrightarrow> impl_linked_list_get (Some l) pos = Some (item_at xs pos)"
  using repD(1,5)
  by (elim holds_itemsE) (fastforce simp: impl_linked_list_get_def get_entity_eq item_at_def at_def cell_def)

lemma linked_get_pos: "holds_items l xs \<Longrightarrow> impl_linked_list_get_pos (Some l) x = Some (item_pos xs x)"
  by (elim holds_itemsE) (auto simp: impl_linked_list_get_pos_def repD(4) head_cell_def item_pos_def find_item_eq [where i = 0])

lemma linked_for_each: "holds_items l xs \<Longrightarrow> impl_linked_list_for_each (Some l) s (Some f) = Some (run_items f xs s)"
  by (elim holds_itemsE) (auto simp: impl_linked_list_for_each_def repD(4) head_cell_def for_each_entity_eq [where i = 0])

lemma linked_push:
  "holds_items l xs \<Longrightarrow> \<exists>l'. impl_linked_list_push (Some l) x = Some (Some l', True) \<and> holds_items l' (xs @ [x]) \<and> same_config l l'"
  by (elim holds_itemsE, rule push_eq, assumption) (auto intro: holds_itemsI)

lemma linked_pop:
  assumes "holds_items l xs"
  shows "\<exists>l'. impl_linked_list_pop (Some l) = Some (Some l', item_at xs (length xs)) \<and> holds_items l' (butlast xs) \<and> same_config l l'"
proof -
  from assms obtain ps where r: "rep l ps xs" by (rule holds_itemsE)
  note n = repD(1) [OF r]
  show ?thesis
  proof (cases "xs = []")
    case True
    with n r show ?thesis by (auto simp: impl_linked_list_pop_def repD(4) [OF r] head_cell_def prev_def item_at_def intro: holds_itemsI)
  next
    case False
    then have k: "length xs - 1 < length xs" by simp
    let ?l = "removed l ps xs (length xs - 1)"
    have r': "rep ?l (take (length xs - 1) ps @ drop (Suc (length xs - 1)) ps) (butlast xs)"
      using rep_removed [OF r k] k by (simp add: butlast_conv_take)
    have "impl_linked_list_pop (Some l) = Some (Some ?l, last xs)"
      using drop_last_entity_eq [OF r False] False n
      by (simp add: impl_linked_list_pop_def repD(4) [OF r] head_cell_def prev_def rep_assert [OF r] rep_assert [OF r', unfolded One_nat_def])
    with False holds_itemsI [OF r'] show ?thesis by (auto simp: item_at_def last_conv_nth removed_config)
  qed
qed

lemma linked_remove:
  assumes "holds_items l xs" "0 < pos" "pos \<le> length xs"
  shows "\<exists>l'. impl_linked_list_remove (Some l) pos = Some (Some l', item_at xs pos) \<and> holds_items l' (items_remove xs pos) \<and> same_config l l'"
proof -
  from assms(1) obtain ps where r: "rep l ps xs" by (rule holds_itemsE)
  have k: "pos - 1 < length xs" using assms by simp
  note r' = rep_removed [OF r k]
  have "get_entity_at_position (Some l) pos = Some (Some (Ent (ps ! (pos - 1))))"
    using get_entity_eq [OF r, of pos] assms(2) k repD(1) [OF r] by (simp add: at_def)
  then have "impl_linked_list_remove (Some l) pos = Some (Some (removed l ps xs (pos - 1)), xs ! (pos - 1))"
    using unlink_entity_eq [OF r k] rep_assert [OF r] rep_assert [OF r'] by (simp add: impl_linked_list_remove_def)
  then show ?thesis using assms holds_itemsI [OF r'] by (auto simp: item_at_def items_remove_def removed_config)
qed

lemma linked_remove_none:
  assumes "holds_items l xs" "pos = 0 \<or> length xs < pos"
  shows "impl_linked_list_remove (Some l) pos = Some (Some l, None)"
proof -
  from assms(1) obtain ps where r: "rep l ps xs" by (rule holds_itemsE)
  have "get_entity_at_position (Some l) pos = Some None"
    using get_entity_eq [OF r, of pos] assms(2) repD(1) [OF r] by (auto simp: at_def)
  then show ?thesis using rep_assert [OF r] by (simp add: impl_linked_list_remove_def)
qed

lemma linked_insert:
  assumes "holds_items l xs" "0 < pos"
  shows "\<exists>l'. impl_linked_list_insert (Some l) pos x = Some (Some l', True) \<and> holds_items l' (items_insert xs pos x) \<and> same_config l l'"
proof -
  from assms(1) obtain ps where r: "rep l ps xs" by (rule holds_itemsE)
  let ?k = "pos - 1"
  obtain l1 ps1 where l1: "expand_list_to_position l pos = Some (l1, Some (before ps1 ?k))" "rep l1 ps1 (padded xs ?k)" "same_config l l1"
    using expand_eq [OF r, of ?k] assms(2) by (auto simp: padded_def)
  have k: "?k \<le> length (padded xs ?k)" by simp
  note r' = rep_inserted [OF l1(2) k, of x]
  have "impl_linked_list_insert (Some l) pos x = Some (Some (inserted l1 ps1 (padded xs ?k) ?k x), True)"
    using assms(2) l1(1) link_entity_eq [OF l1(2) k] rep_assert [OF r] rep_assert [OF r'] by (simp add: impl_linked_list_insert_def)
  then show ?thesis
    using holds_itemsI [OF r'] same_config_trans [OF l1(3) inserted_config] by (auto simp: items_insert_def Let_def)
qed

lemma load_before:
  assumes "rep l ps xs" "k \<le> length xs"
  obtains e where "load l (before ps k) = Some e" "enext e = at ps k"
  using repD(1,4) [OF assms(1)] repD(5) [OF assms(1), of "k - 1"] assms(2)
  by (cases "k = 0") (auto simp: before_def head_cell_def cell_def)

lemma rep_content:
  assumes r: "rep l ps xs" and k: "k < length xs"
  shows "rep (l\<lparr>cells := (cells l)(Ent (ps ! k) \<mapsto> (cell ps xs k)\<lparr>content := x\<rparr>)\<rparr>) ps (xs[k := x])"
proof (rule repI)
  note c = rep_cells [OF r] and n = repD(1) [OF r]
  show "length ps = length (xs[k := x])" "distinct ps" using n repD(2) [OF r] by simp_all
  show "cells (l\<lparr>cells := (cells l)(Ent (ps ! k) \<mapsto> (cell ps xs k)\<lparr>content := x\<rparr>)\<rparr>) Head = Some (head_cell ps)" using c(1) by simp
  show "a < next_address (l\<lparr>cells := (cells l)(Ent (ps ! k) \<mapsto> (cell ps xs k)\<lparr>content := x\<rparr>)\<rparr>)" if "a \<in> set ps" for a
    using repD(3) [OF r that] by simp
  show "cells (l\<lparr>cells := (cells l)(Ent (ps ! k) \<mapsto> (cell ps xs k)\<lparr>content := x\<rparr>)\<rparr>) (Ent (ps ! i)) = Some (cell ps (xs[k := x]) i)"
    if "i < length ps" for i
    using c(2) [OF that] c(5) [OF that, of k] k n by (cases "i = k") (simp_all add: cell_def)
  show "cells (l\<lparr>cells := (cells l)(Ent (ps ! k) \<mapsto> (cell ps xs k)\<lparr>content := x\<rparr>)\<rparr>) (Ent a) = None" if "a \<notin> set ps" for a
    using c(3) [OF that] that k n nth_mem [of k ps] by auto
qed

lemma linked_set:
  assumes "holds_items l xs" "0 < pos"
  shows "\<exists>l' old. impl_linked_list_set (Some l) pos x = Some (Some l', True, old) \<and> holds_items l' (items_set xs pos x) \<and> same_config l l' \<and>
    old = (if pos \<le> length xs then Some (item_at xs pos) else None)"
proof -
  from assms(1) obtain ps where r: "rep l ps xs" by (rule holds_itemsE)
  let ?k = "pos - 1"
  obtain l1 ps1 where l1: "expand_list_to_position l pos = Some (l1, Some (before ps1 ?k))" "rep l1 ps1 (padded xs ?k)" "same_config l l1"
    using expand_eq [OF r, of ?k] assms(2) by (auto simp: padded_def)
  have "?k \<le> length (padded xs ?k)" by simp
  from load_before [OF l1(2) this] obtain e where e: "load l1 (before ps1 ?k) = Some e" "enext e = at ps1 ?k" .
  note n = repD(1) [OF l1(2)]
  show ?thesis
  proof (cases "pos \<le> length xs")
    case True
    then have k: "?k < length (padded xs ?k)" and p: "padded xs ?k = xs" "padded xs pos = xs" using assms(2) by (auto simp: padded_def)
    note r' = rep_content [OF l1(2) k, of x]
    have "at ps1 ?k = Some (Ent (ps1 ! ?k))" using k n by (simp add: at_def)
    then have "impl_linked_list_set (Some l) pos x =
        Some (Some (l1\<lparr>cells := (cells l1)(Ent (ps1 ! ?k) \<mapsto> (cell ps1 (padded xs ?k) ?k)\<lparr>content := x\<rparr>)\<rparr>), True, Some (xs ! ?k))"
      using assms(2) l1(1) e rep_cells(2) [OF l1(2), of ?k] n k rep_assert [OF r] rep_assert [OF r'] p(1)
      by (simp add: impl_linked_list_set_def load_def store_def cell_def)
    then show ?thesis using True assms(2) holds_itemsI [OF r'] l1(3) p by (auto simp: item_at_def items_set_def same_config_def)
  next
    case False
    then have "length xs \<le> ?k" "length xs < pos" by linarith+
    then have k: "length (padded xs ?k) = ?k" "items_set xs pos x = padded xs ?k @ [x]" "at ps1 ?k = None"
      using n assms(2) items_set_behind [of xs pos x] by (simp_all add: at_def)
    obtain l2 where "impl_linked_list_push (Some l1) x = Some (Some l2, True)" "rep l2 (ps1 @ [next_address l1]) (padded xs ?k @ [x])" "same_config l1 l2"
      by (rule push_eq [OF l1(2)])
    then show ?thesis
      using False assms(2) l1 e k rep_assert [OF r] same_config_trans holds_itemsI by (fastforce simp: impl_linked_list_set_def)
  qed
qed

lemma linked_clear:
  assumes "holds_items l xs"
  shows "\<exists>l'. impl_linked_list_clear (Some l) = Some (Some l', True) \<and> holds_items l' [] \<and> config l' = config l \<and>
    item_freed l' = item_freed l @ (if item_free (config l) = None then [] else xs)"
proof -
  from assms obtain ps where r: "rep l ps xs" by (rule holds_itemsE)
  obtain l1 where l1: "clear_entities l (at ps 0) = Some l1" "config l1 = config l" "next_address l1 = next_address l"
      "item_freed l1 = item_freed l @ (if item_free (config l) \<noteq> None then xs else [])"
      "cells l1 = (\<lambda>p. if p \<in> Ent ` set ps then None else cells l p)"
    using clear_entities_eq [OF r, of 0 l] rep_cells(2) [OF r] by auto
  have h: "cells l1 Head = Some (head_cell ps)" using l1(5) rep_cells(1) [OF r] by auto
  let ?l = "l1\<lparr>cells := (cells l1)(Head \<mapsto> head_cell [])\<rparr>"
  have r': "rep ?l [] []" using l1(5) rep_cells(3) [OF r] by (auto simp: rep_def)
  have "impl_linked_list_clear (Some l) = Some (Some ?l, True)"
    using l1(1) h rep_assert [OF r] rep_assert [OF r']
    by (simp add: impl_linked_list_clear_def repD(4) [OF r] head_cell_def store_def at_def [of "[]"] prev_def [of "[]"])
  then show ?thesis using l1 holds_itemsI [OF r'] by auto
qed

lemma linked_free:
  "holds_items l xs \<Longrightarrow> impl_linked_list_free (Some l) = Some (item_freed l @ (if item_free (config l) = None then [] else xs), None)"
  using linked_clear [of l xs] holds_itemsE [of l xs] rep_assert [of l _ xs] by (force simp: impl_linked_list_free_def)

lemma linked_iteration:
  assumes "holds_items l xs"
  shows "\<exists>it. impl_linked_list_iter (Some l) = Some (it 0) \<and> it (length xs) = None \<and>
    (\<forall>i < length xs. it i \<noteq> None \<and> impl_linked_list_next (Some l) (it i) = Some (it (Suc i), xs ! i))"
proof -
  from assms obtain ps where r: "rep l ps xs" by (rule holds_itemsE)
  then show ?thesis
    by (intro exI [of _ "at ps"])
      (auto simp: impl_linked_list_iter_def impl_linked_list_next_def repD(1,4,5) head_cell_def cell_def at_def)
qed

subsection \<open>The contract\<close>

text \<open>The function pointers that \<open>ov_linked_list_create\<close> sets.\<close>

definition linked_list_ops :: "('a, ('a, unit) LinkedList_ext, 's) ov_list_ops" where
  "linked_list_ops =
    \<lparr>op_is_empty = impl_linked_list_is_empty, op_clear = impl_linked_list_clear, op_free = impl_linked_list_free,
      op_get_pos = impl_linked_list_get_pos, op_get = impl_linked_list_get, op_set = impl_linked_list_set, op_insert = impl_linked_list_insert,
      op_remove = impl_linked_list_remove, op_push = impl_linked_list_push, op_pop = impl_linked_list_pop,
      op_count = impl_linked_list_count, op_for_each = impl_linked_list_for_each\<rparr>"

lemma holds_items_config: "holds_items (l\<lparr>config := c\<rparr>) xs = holds_items l xs" "holds_items (l\<lparr>item_freed := fs\<rparr>) xs = holds_items l xs"
  by (simp_all add: holds_items_def rep_def)

lemma linked_position_0:
  assumes "holds_items l xs"
  shows "impl_linked_list_set (Some l) 0 x = Some (Some l, False, None)" "impl_linked_list_insert (Some l) 0 x = Some (Some l, False)"
  using assms by (auto simp: impl_linked_list_set_def impl_linked_list_insert_def elim: holds_itemsE)

interpretation ll: ov_list_contract linked_list_ops holds_items "\<lambda>l n. True" "\<lambda>l n. True"
proof unfold_locales
  show "\<exists>l' old. op_set linked_list_ops (Some l) pos x = Some (Some l', True, old) \<and> holds_items l' (items_set xs pos x) \<and> same_config l l' \<and>
      (pos \<le> length xs \<longrightarrow> old = Some (item_at xs pos)) \<and> (length xs < pos \<longrightarrow> old = None \<or> old = Some None)"
    if "holds_items l xs" "0 < pos" for l xs pos x
    using linked_set [OF that, of x] by (auto simp: linked_list_ops_def)
  show "\<exists>l'. op_clear linked_list_ops (Some l) = Some (Some l', True) \<and> holds_items l' [] \<and> config l' = config l \<and>
      not_null (item_freed l') = not_null (item_freed l @ (if item_free (config l) = None then [] else xs))" if "holds_items l xs" for l xs
    using linked_clear [OF that] by (auto simp: linked_list_ops_def)
qed (simp_all add: linked_list_ops_def holds_items_config linked_is_empty linked_count linked_get linked_get_pos linked_for_each linked_push
  linked_pop linked_insert linked_remove linked_remove_none linked_position_0 linked_free)

subsection \<open>Properties\<close>

text \<open>
  C27: A linked list that holds the items \<open>xs\<close> behaves as the list of its items under every operation: all assertions of the
  code hold, no pointer is followed that does not lead to an entity, and every loop ends. Positions count from 1; setting and inserting
  behind the end pads with NULL, and position 0 is refused. Clearing gives every item, NULL included, to the configured free function once.
\<close>

theorem linked_list_refines_list:
  assumes "holds_items l xs"
  shows "impl_linked_list_count (Some l) = Some (length xs) \<and>
    impl_linked_list_get (Some l) pos = Some (item_at xs pos) \<and>
    impl_linked_list_get_pos (Some l) x = Some (item_pos xs x) \<and>
    impl_linked_list_for_each (Some l) s (Some f) = Some (run_items f xs s) \<and>
    (\<exists>l'. impl_linked_list_push (Some l) x = Some (Some l', True) \<and> holds_items l' (xs @ [x])) \<and>
    (\<exists>l'. impl_linked_list_pop (Some l) = Some (Some l', item_at xs (length xs)) \<and> holds_items l' (butlast xs)) \<and>
    (\<exists>l' old. impl_linked_list_set (Some l) pos x = Some (Some l', 0 < pos, old) \<and>
      holds_items l' (if pos = 0 then xs else items_set xs pos x) \<and> old = (if 0 < pos \<and> pos \<le> length xs then Some (item_at xs pos) else None)) \<and>
    (\<exists>l'. impl_linked_list_insert (Some l) pos x = Some (Some l', 0 < pos) \<and> holds_items l' (if pos = 0 then xs else items_insert xs pos x)) \<and>
    (\<exists>l'. impl_linked_list_remove (Some l) pos = Some (Some l', item_at xs pos) \<and> holds_items l' (items_remove xs pos)) \<and>
    (\<exists>l'. impl_linked_list_clear (Some l) = Some (Some l', True) \<and> holds_items l' [] \<and>
      item_freed l' = item_freed l @ (if item_free (config l) = None then [] else xs)) \<and>
    (\<exists>it. impl_linked_list_iter (Some l) = Some (it 0) \<and> it (length xs) = None \<and>
      (\<forall>i < length xs. it i \<noteq> None \<and> impl_linked_list_next (Some l) (it i) = Some (it (Suc i), xs ! i)))"
proof (intro conjI)
  show "\<exists>l' old. impl_linked_list_set (Some l) pos x = Some (Some l', 0 < pos, old) \<and>
      holds_items l' (if pos = 0 then xs else items_set xs pos x) \<and> old = (if 0 < pos \<and> pos \<le> length xs then Some (item_at xs pos) else None)"
    using linked_set [OF assms, of pos x] linked_position_0 [OF assms] assms by (cases "pos = 0") auto
  show "\<exists>l'. impl_linked_list_insert (Some l) pos x = Some (Some l', 0 < pos) \<and> holds_items l' (if pos = 0 then xs else items_insert xs pos x)"
    using linked_insert [OF assms, of pos x] linked_position_0 [OF assms] assms by (cases "pos = 0") auto
  show "\<exists>l'. impl_linked_list_remove (Some l) pos = Some (Some l', item_at xs pos) \<and> holds_items l' (items_remove xs pos)"
    using linked_remove [OF assms, of pos] linked_remove_none [OF assms, of pos] assms
    by (cases "0 < pos \<and> pos \<le> length xs") (auto simp: item_at_def items_remove_def)
qed (use linked_push [OF assms] linked_pop [OF assms] linked_clear [OF assms] linked_iteration [OF assms] in
  \<open>auto simp: linked_count [OF assms] linked_get [OF assms] linked_get_pos [OF assms] linked_for_each [OF assms]\<close>)

theorem linked_list_refines_list_witness:
  "\<exists>l1 l2. impl_linked_list_push (Some (ov_linked_list_create \<lparr>item_free = None, item_copy = None\<rparr>)) (Some (7::nat)) = Some (Some l1, True) \<and>
    impl_linked_list_insert (Some l1) 3 (Some 9) = Some (Some l2, True) \<and> holds_items l2 [Some 7, None, Some 9]"
proof -
  obtain l1 where l1: "impl_linked_list_push (Some (ov_linked_list_create \<lparr>item_free = None, item_copy = None\<rparr>)) (Some (7::nat)) = Some (Some l1, True)"
      "holds_items l1 [Some 7]"
    using linked_list_refines_list [OF create_holds [of "\<lparr>item_free = None, item_copy = None\<rparr>"], where x = "Some (7::nat)" and
        pos = 0 and s = "()" and f = "\<lambda>_ s. (True, s)"] by auto
  from linked_list_refines_list [OF l1(2), of 3 "Some 9" "()" "\<lambda>_ s. (True, s)"] l1(1) show ?thesis
    by (auto simp: items_insert_def padded_def numeral_eq_Suc)
qed

end
