(* ===== verification/Ov_Vector_List.thy ===== *)
theory Ov_Vector_List
  imports Ov_List
begin

text \<open>
  The vector list, \<open>ov_base/src/list/ov_vector_list.c\<close>, the default implementation of the list interface.

  \<open>items\<close> is the block behind the pointer of that name, with as many slots as were allocated; a read or write outside of it
  has no result. Slot 0 is not used, the positions count from 1. \<open>size_t\<close> is a natural number, and sums wrap at
  \<open>2 ^ 64\<close> as written out. \<open>mem\<close> is the number of bytes that \<open>realloc\<close> can give, \<open>fill\<close> the value of the slots it
  adds; a call with 0 bytes, which may free the block, has no result. The allocations of \<open>ov_vector_list_create\<close>
  succeed.
\<close>

record 'a VectorList = "'a ov_list" +
  shrink :: bool
  rate :: nat
  vlast :: nat
  vsize :: nat
  items :: "'a option list"

definition VECTOR_DEFAULT_SIZE :: nat where
  "VECTOR_DEFAULT_SIZE = 100"

definition size_wrap :: "nat \<Rightarrow> nat" where
  "size_wrap n = n mod 2 ^ 64"

text \<open>\<open>n - 1\<close> in \<open>size_t\<close>.\<close>

definition size_dec :: "nat \<Rightarrow> nat" where
  "size_dec n = size_wrap (n + (2 ^ 64 - 1))"

definition get_slot :: "'x list \<Rightarrow> nat \<Rightarrow> 'x option" where
  "get_slot its i = (if i < length its then Some (its ! i) else None)"

definition put_slot :: "'x list \<Rightarrow> nat \<Rightarrow> 'x \<Rightarrow> 'x list option" where
  "put_slot its i x = (if i < length its then Some (its[i := x]) else None)"

definition ov_vector_list_create :: "'a ov_list_config \<Rightarrow> 'a VectorList" where
  "ov_vector_list_create conf =
    \<lparr>config = conf, item_freed = [], shrink = False, rate = VECTOR_DEFAULT_SIZE, vlast = 0, vsize = VECTOR_DEFAULT_SIZE,
      items = replicate VECTOR_DEFAULT_SIZE None\<rparr>"

definition ov_vector_list_set_shrink :: "'a VectorList option \<Rightarrow> bool \<Rightarrow> 'a VectorList option \<times> bool" where
  "ov_vector_list_set_shrink self b = (case self of None \<Rightarrow> (None, False) | Some l \<Rightarrow> (Some (l\<lparr>shrink := b\<rparr>), True))"

definition ov_vector_list_set_rate :: "'a VectorList option \<Rightarrow> nat \<Rightarrow> 'a VectorList option \<times> bool" where
  "ov_vector_list_set_rate self r =
    (case self of None \<Rightarrow> (None, False) | Some l \<Rightarrow> if r < 1 then (Some l, False) else (Some (l\<lparr>rate := r\<rparr>), True))"

subsection \<open>Memory\<close>

function zero_slots :: "'a option list \<Rightarrow> nat \<Rightarrow> nat \<Rightarrow> 'a option list option" where
  "zero_slots its i n = (if i \<le> n then do { its1 \<leftarrow> put_slot its i None; zero_slots its1 (Suc i) n } else Some its)"
  by auto
termination by (relation "measure (\<lambda>(its, i, n). Suc n - i)") auto

definition vector_resize :: "nat \<Rightarrow> 'a option \<Rightarrow> 'a VectorList \<Rightarrow> nat \<Rightarrow> ('a VectorList \<times> bool) option" where
  "vector_resize mem fill l slots =
    (if slots = 0 \<or> vlast l \<ge> slots - 1 then Some (l, False)
     else if vsize l = slots - 1 then Some (l, True)
     else let bytes = size_wrap (slots * 8); n = bytes div 8
          in if bytes = 0 then None
             else if mem < bytes then Some (l, False)
             else do { its \<leftarrow> zero_slots (take n (items l) @ replicate (n - length (items l)) fill) (vsize l) (slots - 1);
                       Some (l\<lparr>vsize := slots - 1, items := its\<rparr>, True) })"

definition vector_auto_adjust :: "nat \<Rightarrow> 'a option \<Rightarrow> 'a VectorList \<Rightarrow> ('a VectorList \<times> bool) option" where
  "vector_auto_adjust mem fill l =
    (if vlast l \<ge> vsize l then Some (l, False)
     else if vlast l = size_dec (vsize l) then vector_resize mem fill l (size_wrap (vsize l + rate l + 1))
     else if \<not> shrink l then Some (l, True)
     else if vsize l - vlast l > rate l then vector_resize mem fill l (size_wrap (vlast l + rate l + 1))
     else Some (l, True))"

definition vector_list_is_empty :: "'a VectorList \<Rightarrow> bool" where
  "vector_list_is_empty l \<longleftrightarrow> vlast l = 0"

subsection \<open>Operations\<close>

definition impl_vector_list_is_empty :: "'a VectorList option \<Rightarrow> bool option" where
  "impl_vector_list_is_empty self = (case self of None \<Rightarrow> Some False | Some l \<Rightarrow> Some (vlast l = 0))"

text \<open>The loop over the slots below \<open>n\<close>: the slots, and the items given to the free function, if there is one.\<close>

function clear_slots :: "bool \<Rightarrow> nat \<Rightarrow> nat \<Rightarrow> 'a option list \<Rightarrow> 'a option list \<Rightarrow> ('a option list \<times> 'a option list) option" where
  "clear_slots free i n its freed =
    (if i < n then
       do { x \<leftarrow> get_slot its i;
            its1 \<leftarrow> put_slot its i None;
            clear_slots free (Suc i) n its1 (if free then freed @ [x] else freed) }
     else Some (its, freed))"
  by auto
termination by (relation "measure (\<lambda>(free, i, n, its, freed). n - i)") auto

definition impl_vector_list_clear :: "'a VectorList option \<Rightarrow> ('a VectorList option \<times> bool) option" where
  "impl_vector_list_clear self =
    (case self of
       None \<Rightarrow> Some (None, False)
     | Some l \<Rightarrow>
         do { (its, freed) \<leftarrow> clear_slots (item_free (config l) \<noteq> None) 0 (vsize l) (items l) (item_freed l);
              Some (Some (l\<lparr>item_freed := freed, items := its, vlast := 0\<rparr>), True) })"

definition impl_vector_list_free :: "'a VectorList option \<Rightarrow> ('a option list \<times> 'a VectorList option) option" where
  "impl_vector_list_free self =
    (case self of
       None \<Rightarrow> Some ([], None)
     | Some l \<Rightarrow>
         do { (s, ok) \<leftarrow> impl_vector_list_clear (Some l);
              l1 \<leftarrow> s;
              Some (if ok then (item_freed l1, None) else ([], Some l1)) })"

function find_slot :: "'a option list \<Rightarrow> 'a option \<Rightarrow> nat \<Rightarrow> nat \<Rightarrow> nat option" where
  "find_slot its item i n =
    (if i \<le> n then do { x \<leftarrow> get_slot its i; if x = item then Some i else find_slot its item (Suc i) n } else Some 0)"
  by auto
termination by (relation "measure (\<lambda>(its, item, i, n). Suc n - i)") auto

definition impl_vector_list_get_pos :: "'a VectorList option \<Rightarrow> 'a option \<Rightarrow> nat option" where
  "impl_vector_list_get_pos self item =
    (case self of None \<Rightarrow> Some 0 | Some l \<Rightarrow> if item = None then Some 0 else find_slot (items l) item 0 (vlast l))"

definition impl_vector_list_get :: "'a VectorList option \<Rightarrow> nat \<Rightarrow> 'a option option" where
  "impl_vector_list_get self pos =
    (case self of None \<Rightarrow> Some None | Some l \<Rightarrow> if pos = 0 \<or> pos > vlast l then Some None else get_slot (items l) pos)"

text \<open>The third component is the value stored to \<open>*old\<close>, if any.\<close>

definition impl_vector_list_set ::
  "nat \<Rightarrow> 'a option \<Rightarrow> 'a VectorList option \<Rightarrow> nat \<Rightarrow> 'a option \<Rightarrow> ('a VectorList option \<times> bool \<times> 'a option option) option" where
  "impl_vector_list_set mem fill self pos item =
    (case self of
       None \<Rightarrow> Some (None, False, None)
     | Some l \<Rightarrow>
         if pos = 0 then Some (Some l, False, None)
         else do { (l1, ok) \<leftarrow> (if pos \<ge> vsize l then vector_resize mem fill l (size_wrap (pos + 2)) else Some (l, True));
                   if \<not> ok then Some (Some l1, False, None)
                   else do { old \<leftarrow> get_slot (items l1) pos;
                             its \<leftarrow> put_slot (items l1) pos item;
                             Some (Some (l1\<lparr>vlast := max pos (vlast l1), items := its\<rparr>), True, Some old) } })"

fun shift_up :: "'x list \<Rightarrow> nat \<Rightarrow> nat \<Rightarrow> 'x list option" where
  "shift_up its pos 0 = Some its"
| "shift_up its pos (Suc i) =
    (if pos < Suc i then do { x \<leftarrow> get_slot its i; its1 \<leftarrow> put_slot its (Suc i) x; shift_up its1 pos i } else Some its)"

definition impl_vector_list_insert ::
  "nat \<Rightarrow> 'a option \<Rightarrow> 'a VectorList option \<Rightarrow> nat \<Rightarrow> 'a option \<Rightarrow> ('a VectorList option \<times> bool) option" where
  "impl_vector_list_insert mem fill self pos item =
    (case self of
       None \<Rightarrow> Some (None, False)
     | Some l \<Rightarrow>
         if pos = 0 then Some (Some l, False)
         else if pos > vlast l then do { (s, ok, old) \<leftarrow> impl_vector_list_set mem fill (Some l) pos item; Some (s, ok) }
         else do { (l1, ok) \<leftarrow> (if vlast l = size_dec (vsize l) then vector_resize mem fill l (size_wrap (vsize l + rate l))
                                else Some (l, True));
                   if \<not> ok then Some (Some l1, False)
                   else do { let n = vlast l1 + 1;
                             its \<leftarrow> shift_up (items l1) pos (n + 1);
                             its1 \<leftarrow> put_slot its pos item;
                             Some (Some (l1\<lparr>vlast := n, items := its1\<rparr>), True) } })"

function shift_down :: "'x list \<Rightarrow> nat \<Rightarrow> nat \<Rightarrow> 'x list option" where
  "shift_down its i n =
    (if i \<le> n then do { x \<leftarrow> get_slot its (Suc i); its1 \<leftarrow> put_slot its i x; shift_down its1 (Suc i) n } else Some its)"
  by auto
termination by (relation "measure (\<lambda>(its, i, n). Suc n - i)") auto

definition impl_vector_list_remove ::
  "nat \<Rightarrow> 'a option \<Rightarrow> 'a VectorList option \<Rightarrow> nat \<Rightarrow> ('a VectorList option \<times> 'a option) option" where
  "impl_vector_list_remove mem fill self pos =
    (case self of
       None \<Rightarrow> Some (None, None)
     | Some l \<Rightarrow>
         if pos = 0 \<or> pos > vlast l then Some (Some l, None)
         else do { item \<leftarrow> get_slot (items l) pos;
                   its \<leftarrow> shift_down (items l) pos (vlast l);
                   its1 \<leftarrow> put_slot its (vlast l) None;
                   (l1, ok) \<leftarrow> vector_auto_adjust mem fill (l\<lparr>vlast := vlast l - 1, items := its1\<rparr>);
                   Some (Some l1, item) })"

definition impl_vector_list_push :: "nat \<Rightarrow> 'a option \<Rightarrow> 'a VectorList option \<Rightarrow> 'a option \<Rightarrow> ('a VectorList option \<times> bool) option" where
  "impl_vector_list_push mem fill self item =
    (case self of
       None \<Rightarrow> Some (None, False)
     | Some l \<Rightarrow>
         do { (l1, ok) \<leftarrow> (if vlast l = size_dec (vsize l) then vector_resize mem fill l (size_wrap (vsize l + rate l)) else Some (l, True));
              if \<not> ok then Some (Some l1, False)
              else do { its \<leftarrow> put_slot (items l1) (vlast l1 + 1) item;
                        Some (Some (l1\<lparr>vlast := vlast l1 + 1, items := its\<rparr>), True) } })"

definition impl_vector_list_pop :: "nat \<Rightarrow> 'a option \<Rightarrow> 'a VectorList option \<Rightarrow> ('a VectorList option \<times> 'a option) option" where
  "impl_vector_list_pop mem fill self =
    (case self of
       None \<Rightarrow> Some (None, None)
     | Some l \<Rightarrow>
         if vlast l = 0 then Some (Some l, None)
         else do { item \<leftarrow> get_slot (items l) (vlast l);
                   its \<leftarrow> put_slot (items l) (vlast l) None;
                   (l1, ok) \<leftarrow> vector_auto_adjust mem fill (l\<lparr>vlast := vlast l - 1, items := its\<rparr>);
                   Some (Some l1, item) })"

definition impl_vector_list_count :: "'a VectorList option \<Rightarrow> nat option" where
  "impl_vector_list_count self =
    (case self of
       None \<Rightarrow> Some 0
     | Some l \<Rightarrow> do { empty \<leftarrow> impl_vector_list_is_empty (Some l); Some (if empty then 0 else vlast l) })"

function run_slots :: "'a option list \<Rightarrow> ('a option \<Rightarrow> 's \<Rightarrow> bool \<times> 's) \<Rightarrow> nat \<Rightarrow> nat \<Rightarrow> 's \<Rightarrow> (bool \<times> 's) option" where
  "run_slots its f i n s =
    (if i \<le> n then
       do { x \<leftarrow> get_slot its i;
            case f x s of (ok, s') \<Rightarrow> if \<not> ok then Some (False, s') else run_slots its f (Suc i) n s' }
     else Some (True, s))"
  by auto
termination by (relation "measure (\<lambda>(its, f, i, n, s). Suc n - i)") auto

definition impl_vector_list_for_each ::
  "'a VectorList option \<Rightarrow> 's \<Rightarrow> ('a option \<Rightarrow> 's \<Rightarrow> bool \<times> 's) option \<Rightarrow> (bool \<times> 's) option" where
  "impl_vector_list_for_each self data function =
    (case (self, function) of
       (Some l, Some f) \<Rightarrow> if vector_list_is_empty l then Some (True, data) else run_slots (items l) f 1 (vlast l) data
     | _ \<Rightarrow> Some (False, data))"

text \<open>
  An iterator is the pointer in slot 0, which is NULL, moved by as many bytes as the position: the position itself, with 0
  for NULL. With another pointer in slot 0 there is no result.
\<close>

definition impl_vector_list_iter :: "'a VectorList option \<Rightarrow> nat option" where
  "impl_vector_list_iter self =
    (case self of
       None \<Rightarrow> Some 0
     | Some l \<Rightarrow>
         do { empty \<leftarrow> impl_vector_list_is_empty (Some l);
              if empty then Some 0 else do { base \<leftarrow> get_slot (items l) 0; if base = None then Some 1 else None } })"

definition impl_vector_list_next :: "'a VectorList option \<Rightarrow> nat \<Rightarrow> (nat \<times> 'a option) option" where
  "impl_vector_list_next self iter =
    (case self of
       None \<Rightarrow> Some (0, None)
     | Some l \<Rightarrow>
         if iter = 0 then Some (0, None)
         else do { base \<leftarrow> get_slot (items l) 0;
                   if base \<noteq> None then None
                   else if iter > vlast l then Some (0, None)
                   else do { x \<leftarrow> get_slot (items l) iter; Some (if iter = vlast l then 0 else iter + 1, x) } })"

subsection \<open>The default list\<close>

definition DEFAULT_LIST_ITEM_RATE :: nat where
  "DEFAULT_LIST_ITEM_RATE = 100"

definition DEFAULT_LIST_SHRINK :: bool where
  "DEFAULT_LIST_SHRINK = False"

text \<open>The operations on a list that exists do not fail.\<close>

definition ov_list_create :: "'a ov_list_config \<Rightarrow> 'a VectorList option" where
  "ov_list_create conf =
    (case ov_vector_list_set_shrink (Some (ov_vector_list_create conf)) DEFAULT_LIST_SHRINK of (l1, ok1) \<Rightarrow>
       if \<not> ok1 then None
       else case ov_vector_list_set_rate l1 DEFAULT_LIST_ITEM_RATE of (l2, ok2) \<Rightarrow> if ok2 then l2 else None)"

text \<open>The function pointers that \<open>ov_vector_list_create\<close> sets.\<close>

definition vector_list_ops :: "nat \<Rightarrow> 'a option \<Rightarrow> ('a, ('a, unit) VectorList_ext, 's) ov_list_ops" where
  "vector_list_ops mem fill =
    \<lparr>op_is_empty = impl_vector_list_is_empty, op_clear = impl_vector_list_clear, op_free = impl_vector_list_free,
      op_get_pos = impl_vector_list_get_pos, op_get = impl_vector_list_get, op_set = impl_vector_list_set mem fill,
      op_insert = impl_vector_list_insert mem fill, op_remove = impl_vector_list_remove mem fill,
      op_push = impl_vector_list_push mem fill, op_pop = impl_vector_list_pop mem fill,
      op_count = impl_vector_list_count, op_for_each = impl_vector_list_for_each\<rparr>"

text \<open>
  The copy of a list: \<open>destination\<close> is NULL, or the pointer behind it. The list behind it afterwards, and whether it is returned.
\<close>

definition ov_list_copy ::
  "('a, 'm, 'a VectorList option) ov_list_ops \<Rightarrow> nat \<Rightarrow> 'a option \<Rightarrow> 'a VectorList option option \<Rightarrow> ('a, 'm) ov_list_scheme option \<Rightarrow>
    ('a VectorList option \<times> bool) option" where
  "ov_list_copy ops mem fill destination source =
    (case (destination, source) of
       (Some d, Some orig) \<Rightarrow>
         (case d of
            Some copy \<Rightarrow> list_copy ops (vector_list_ops mem fill :: ('a, ('a, unit) VectorList_ext, unit) ov_list_ops) (Some orig) (Some copy)
          | None \<Rightarrow> list_copy ops (vector_list_ops mem fill :: ('a, ('a, unit) VectorList_ext, unit) ov_list_ops) (Some orig) (ov_list_create (config orig)))
     | (Some d, None) \<Rightarrow> Some (d, False)
     | (None, _) \<Rightarrow> Some (None, False))"

subsection \<open>The loops\<close>

declare zero_slots.simps [simp del] clear_slots.simps [simp del] find_slot.simps [simp del] shift_down.simps [simp del] run_slots.simps [simp del]

lemmas slot_defs = get_slot_def put_slot_def

lemma zero_slots_eq:
  "i \<le> Suc n \<Longrightarrow> n < length its \<Longrightarrow> zero_slots its i n = Some (take i its @ replicate (Suc n - i) None @ drop (Suc n) its)"
proof (induction its i n rule: zero_slots.induct)
  case (1 its i n)
  show ?case
  proof (cases "i \<le> n")
    case True
    with 1 have "zero_slots its i n = Some (take (Suc i) (its[i := None]) @ replicate (n - i) None @ drop (Suc n) (its[i := None]))"
      by (subst zero_slots.simps) (simp add: slot_defs)
    moreover have "take (Suc i) (its[i := None]) = take i its @ [None]" using True 1(3) by (simp add: take_Suc_conv_app_nth)
    ultimately show ?thesis using True by (simp add: Suc_diff_le)
  next
    case False
    with 1(2) have "i = Suc n" by simp
    then show ?thesis by (subst zero_slots.simps) simp
  qed
qed

lemma clear_slots_eq:
  "i \<le> n \<Longrightarrow> n \<le> length its \<Longrightarrow> clear_slots free i n its freed =
    Some (take i its @ replicate (n - i) None @ drop n its, freed @ (if free then take (n - i) (drop i its) else []))"
proof (induction free i n its freed rule: clear_slots.induct)
  case (1 free i n its freed)
  show ?case
  proof (cases "i < n")
    case True
    let ?freed = "if free then freed @ [its ! i] else freed"
    have "clear_slots free i n its freed = clear_slots free (Suc i) n (its[i := None]) ?freed"
      using True 1(3) by (subst clear_slots.simps) (simp add: slot_defs)
    also have "\<dots> = Some (take (Suc i) (its[i := None]) @ replicate (n - Suc i) None @ drop n (its[i := None]),
        ?freed @ (if free then take (n - Suc i) (drop (Suc i) (its[i := None])) else []))"
      using True 1(3) by (intro 1(1) [of "its ! i" "its[i := None]"]) (auto simp: slot_defs)
    finally have "clear_slots free i n its freed = Some (take (Suc i) (its[i := None]) @ replicate (n - Suc i) None @ drop n its,
        ?freed @ (if free then take (n - Suc i) (drop (Suc i) its) else []))" using True by simp
    moreover have "take (Suc i) (its[i := None]) = take i its @ [None]" using True 1(3) by (simp add: take_Suc_conv_app_nth)
    moreover have "take (n - i) (drop i its) = its ! i # take (n - Suc i) (drop (Suc i) its)"
      using True 1(3) by (metis Cons_nth_drop_Suc Suc_diff_Suc less_le_trans take_Suc_Cons)
    moreover have "replicate (n - i) y = y # replicate (n - Suc i) y" for y :: "'a option" using True by (metis Suc_diff_Suc replicate_Suc)
    ultimately show ?thesis by simp
  next
    case False
    with 1 show ?thesis by (subst clear_slots.simps) simp
  qed
qed

lemma find_slot_eq:
  "i \<le> Suc n \<Longrightarrow> n < length its \<Longrightarrow> find_slot its x i n =
    Some (let ys = drop i (take (Suc n) its) in if x \<in> set ys then i + length (takeWhile (\<lambda>y. y \<noteq> x) ys) else 0)"
proof (induction its x i n rule: find_slot.induct)
  case (1 its x i n)
  show ?case
  proof (cases "i \<le> n")
    case True
    then have "drop i (take (Suc n) its) = its ! i # drop (Suc i) (take (Suc n) its)"
      using 1(3) Cons_nth_drop_Suc [of i "take (Suc n) its"] by simp
    with 1 True show ?thesis by (subst find_slot.simps) (simp add: slot_defs Let_def)
  next
    case False
    with 1 show ?thesis by (subst find_slot.simps) simp
  qed
qed

lemma run_slots_eq:
  "i \<le> Suc n \<Longrightarrow> n < length its \<Longrightarrow> run_slots its f i n s = Some (run_items f (drop i (take (Suc n) its)) s)"
proof (induction its f i n s rule: run_slots.induct)
  case (1 its f i n s)
  show ?case
  proof (cases "i \<le> n")
    case True
    then have "drop i (take (Suc n) its) = its ! i # drop (Suc i) (take (Suc n) its)"
      using 1(3) Cons_nth_drop_Suc [of i "take (Suc n) its"] by simp
    with 1 True show ?thesis by (subst run_slots.simps) (simp add: slot_defs split: prod.split)
  next
    case False
    with 1 show ?thesis by (subst run_slots.simps) simp
  qed
qed

lemma shift_up_eq:
  "pos \<le> i \<Longrightarrow> i < length its \<Longrightarrow> shift_up its pos i = Some (take (Suc pos) its @ take (i - pos) (drop pos its) @ drop (Suc i) its)"
proof (induction its pos i rule: shift_up.induct)
  case (1 its pos)
  then show ?case by simp
next
  case (2 its pos i)
  show ?case
  proof (cases "pos < Suc i")
    case True
    let ?its = "its[Suc i := its ! i]"
    have "shift_up its pos (Suc i) = Some (take (Suc pos) ?its @ take (i - pos) (drop pos ?its) @ drop (Suc i) ?its)"
      using 2 True by (simp add: slot_defs)
    moreover have "take (Suc pos) ?its = take (Suc pos) its" "take (i - pos) (drop pos ?its) = take (i - pos) (drop pos its)"
      using True by (auto simp: take_update_cancel drop_update_swap)
    moreover have "drop (Suc i) ?its = its ! i # drop (Suc (Suc i)) its" using 2(3) by (simp add: Cons_nth_drop_Suc [symmetric])
    moreover have "take (Suc i - pos) (drop pos its) = take (i - pos) (drop pos its) @ [its ! i]"
      using True 2(3) by (simp add: Suc_diff_le take_Suc_conv_app_nth)
    ultimately show ?thesis by simp
  next
    case False
    with 2(2) have "pos = Suc i" by simp
    then show ?thesis by simp
  qed
qed

lemma shift_down_eq:
  "i \<le> Suc n \<Longrightarrow> Suc n < length its \<Longrightarrow> shift_down its i n = Some (take i its @ drop (Suc i) (take (Suc (Suc n)) its) @ drop (Suc n) its)"
proof (induction its i n rule: shift_down.induct)
  case (1 its i n)
  show ?case
  proof (cases "i \<le> n")
    case True
    let ?its = "its[i := its ! Suc i]"
    have "shift_down its i n = Some (take (Suc i) ?its @ drop (Suc (Suc i)) (take (Suc (Suc n)) ?its) @ drop (Suc n) ?its)"
      using True 1(2,3) 1(1) [OF True, of "its ! Suc i" ?its] by (subst shift_down.simps) (simp add: slot_defs)
    moreover have "take (Suc i) ?its = take i its @ [its ! Suc i]" using True 1(3) by (simp add: take_Suc_conv_app_nth)
    moreover have "drop (Suc (Suc i)) (take (Suc (Suc n)) ?its) = drop (Suc (Suc i)) (take (Suc (Suc n)) its)"
      using True by (simp add: drop_take)
    moreover have "drop (Suc i) (take (Suc (Suc n)) its) = its ! Suc i # drop (Suc (Suc i)) (take (Suc (Suc n)) its)"
      using True 1(3) Cons_nth_drop_Suc [of "Suc i" "take (Suc (Suc n)) its"] by simp
    ultimately show ?thesis using True by simp
  next
    case False
    with 1(2) have "i = Suc n" by simp
    with 1(3) show ?thesis by (subst shift_down.simps) simp
  qed
qed

subsection \<open>The items\<close>

text \<open>
  A vector that holds the items \<open>xs\<close>, the slots behind them empty. A new vector has as many slots as its size says, one
  that was resized has one more.
\<close>

definition vector_holds :: "'a VectorList \<Rightarrow> 'a option list \<Rightarrow> bool" where
  "vector_holds l xs \<longleftrightarrow> vlast l = length xs \<and> length xs < vsize l \<and> 8 * (vsize l + 1) < 2 ^ 64 \<and> 2 \<le> rate l \<and>
    (length (items l) = vsize l \<or> length (items l) = vsize l + 1) \<and> items l = None # padded xs (length (items l) - 1)"

definition vector_fits :: "nat \<Rightarrow> 'a VectorList \<Rightarrow> nat \<Rightarrow> bool" where
  "vector_fits mem l n \<longleftrightarrow> mem < 2 ^ 64 \<and> 8 * (n + rate l + 1) \<le> mem"

definition vector_shifts :: "'a VectorList \<Rightarrow> nat \<Rightarrow> bool" where
  "vector_shifts l n \<longleftrightarrow> length (items l) = vsize l + 1 \<or> n + 2 \<le> vsize l"

lemma fits_mono: "vector_fits mem l n \<Longrightarrow> k \<le> n \<Longrightarrow> vector_fits mem l k"
  by (auto simp: vector_fits_def)

lemma size_dec_eq: "0 < n \<Longrightarrow> n < 2 ^ 64 \<Longrightarrow> size_dec n = n - 1"
proof -
  assume "0 < n" "n < 2 ^ 64"
  then have "n + (2 ^ 64 - 1) = (n - 1) + 2 ^ 64" "n - 1 < (2 ^ 64 :: nat)" by linarith+
  then show ?thesis unfolding size_dec_def size_wrap_def by (metis mod_add_self2 mod_less)
qed

lemma size_wrap_eq: "n < 2 ^ 64 \<Longrightarrow> size_wrap n = n"
  by (simp add: size_wrap_def)

lemma vector_holdsD:
  assumes "vector_holds l xs"
  shows "vlast l = length xs" "length xs < vsize l" "vsize l \<le> length (items l)" "length (items l) \<le> vsize l + 1" "2 \<le> rate l"
    "items l = None # padded xs (length (items l) - 1)" "size_dec (vsize l) = vsize l - 1" "8 * (vsize l + 1) < 2 ^ 64"
  using assms size_dec_eq [of "vsize l"] by (auto simp: vector_holds_def)

lemma padded_nth: "i < max (length xs) n \<Longrightarrow> padded xs n ! i = (if i < length xs then xs ! i else None)"
  by (auto simp: padded_def nth_append)

lemma padded_set: "0 < pos \<Longrightarrow> pos \<le> n \<Longrightarrow> (padded xs n)[pos - 1 := x] = padded (items_set xs pos x) n"
  by (rule nth_equalityI) (auto simp: padded_nth items_set_def nth_list_update)

lemma items_set_last: "items_set xs (length xs + 1) x = xs @ [x]"
  by (simp add: items_set_behind) (simp add: padded_def)

lemma item_slot:
  assumes "vector_holds l xs" "0 < pos" "pos < length (items l)"
  shows "get_slot (items l) pos = Some (item_at xs pos)"
proof -
  have "items l ! pos = padded xs (length (items l) - 1) ! (pos - 1)"
    using vector_holdsD(6) [OF assms(1)] assms(2) by (metis nth_Cons_pos)
  moreover have "padded xs (length (items l) - 1) ! (pos - 1) = item_at xs pos"
    using assms(2,3) by (auto simp: item_at_def padded_nth)
  ultimately show ?thesis using assms(3) by (simp add: get_slot_def)
qed

lemma take_padded: "length xs \<le> k \<Longrightarrow> k \<le> n \<Longrightarrow> take k (padded xs n) = padded xs k"
  by (simp add: padded_def min_def)

lemma padded_more: "length xs \<le> k \<Longrightarrow> padded xs k @ replicate j None = padded xs (k + j)"
  by (simp add: padded_def replicate_add [symmetric] add.commute)

text \<open>The vector with another block.\<close>

lemma zero_block:
  assumes h: "vector_holds l xs" and m: "length xs < m" "vsize l \<noteq> m"
  shows "zero_slots (take (Suc m) (items l) @ replicate (Suc m - length (items l)) fill) (vsize l) m = Some (None # padded xs m)"
proof -
  note d = vector_holdsD [OF h]
  let ?its = "take (Suc m) (items l) @ replicate (Suc m - length (items l)) fill"
  have block: "take (Suc k) (items l) = None # padded xs k" if "length xs \<le> k" "Suc k \<le> length (items l)" for k
    using that take_padded [of xs k "length (items l) - 1"] by (subst d(6)) simp
  show ?thesis
  proof (cases "vsize l \<le> m")
    case True
    have "take (vsize l) ?its = take (vsize l) (items l)" using d(3) True by (simp add: min_def)
    also have "\<dots> = None # padded xs (vsize l - 1)" using block [of "vsize l - 1"] d(2,3) by simp
    finally have "take (vsize l) ?its @ replicate (Suc m - vsize l) None = None # padded xs m"
      using padded_more [of xs "vsize l - 1" "Suc m - vsize l"] d(2) True by simp
    moreover have "length ?its = Suc m" by simp
    ultimately show ?thesis using True zero_slots_eq [of "vsize l" m ?its] by simp
  next
    case False
    then have "?its = None # padded xs m" using block [of m] m(1) d(3) by simp
    with False show ?thesis by (subst zero_slots.simps) simp
  qed
qed

lemma resize_eq:
  assumes h: "vector_holds l xs" and m: "length xs < m" "8 * (m + 1) < 2 ^ 64" "vsize l \<noteq> m"
  shows "vector_resize mem fill l (Suc m) = Some (if mem < 8 * (m + 1) then (l, False)
      else (l\<lparr>vsize := m, items := None # padded xs m\<rparr>, True))"
    and "vector_holds (l\<lparr>vsize := m, items := None # padded xs m\<rparr>) xs"
proof -
  note d = vector_holdsD [OF h]
  have b: "size_wrap (Suc m * 8) = Suc m * 8" using m(2) by (intro size_wrap_eq) simp
  show "vector_resize mem fill l (Suc m) = Some (if mem < 8 * (m + 1) then (l, False)
      else (l\<lparr>vsize := m, items := None # padded xs m\<rparr>, True))"
    using d(1) m b zero_block [OF h m(1,3), of fill] by (simp add: vector_resize_def Let_def)
  show "vector_holds (l\<lparr>vsize := m, items := None # padded xs m\<rparr>) xs"
    using d m by (simp add: vector_holds_def)
qed

text \<open>Adjusting keeps the items, whether or not there is memory.\<close>

lemma auto_adjust_eq:
  assumes h: "vector_holds l xs" and n: "length xs + 2 \<le> vsize l"
  shows "\<exists>l' ok. vector_auto_adjust mem fill l = Some (l', ok) \<and> vector_holds l' xs \<and> same_config l l'"
proof (cases "shrink l \<and> vsize l - vlast l > rate l")
  case True
  note d = vector_holdsD [OF h]
  let ?m = "length xs + rate l"
  have "?m < vsize l" using True d(1) by auto
  then have m: "length xs < ?m" "8 * (?m + 1) < 2 ^ 64" "vsize l \<noteq> ?m" using d(5,8) by auto
  have "size_wrap (length xs + rate l + 1) = Suc ?m" using m(2) by (simp add: size_wrap_eq)
  moreover have "vlast l \<noteq> size_dec (vsize l)" "\<not> vsize l \<le> vlast l" using n d(1,2,7) by auto
  ultimately have "vector_auto_adjust mem fill l = vector_resize mem fill l (Suc ?m)" using True d(1) by (simp add: vector_auto_adjust_def)
  then show ?thesis using resize_eq [OF h m] h by (auto simp: same_config_def)
next
  case False
  then show ?thesis using vector_holdsD [OF h] h n by (auto simp: vector_auto_adjust_def)
qed

text \<open>A free slot behind the last item, after growing if need be.\<close>

lemma grow_eq:
  assumes h: "vector_holds l xs" and f: "vector_fits mem l (length xs + 1)"
  obtains l' where "(if vlast l = size_dec (vsize l) then vector_resize mem fill l (size_wrap (vsize l + rate l)) else Some (l, True)) = Some (l', True)"
    "vector_holds l' xs" "same_config l l'" "rate l' = rate l" "length xs + 1 < vsize l'" "\<forall>n. vector_shifts l n \<longrightarrow> vector_shifts l' n"
proof (cases "vlast l = size_dec (vsize l)")
  case True
  note d = vector_holdsD [OF h]
  let ?m = "vsize l + rate l - 1"
  have "?m = length xs + rate l" "vsize l = length xs + 1" using True d(1,2,7) by auto
  then have m: "length xs < ?m" "8 * (?m + 1) \<le> mem" "8 * (?m + 1) < 2 ^ 64" "vsize l \<noteq> ?m" "length xs + 1 < ?m"
    using d(5) f by (auto simp: vector_fits_def)
  have "size_wrap (vsize l + rate l) = Suc ?m" using m(3) d(2) by (simp add: size_wrap_eq)
  with True resize_eq [OF h m(1,3,4)] m show ?thesis
    by (intro that [of "l\<lparr>vsize := ?m, items := None # padded xs ?m\<rparr>"]) (simp_all add: same_config_def vector_shifts_def)
next
  case False
  then show ?thesis using vector_holdsD [OF h] h by (intro that [of l]) auto
qed

text \<open>Storing an item in a slot that exists.\<close>

lemma put_holds:
  assumes h: "vector_holds l xs" and p: "0 < pos" "pos < vsize l"
  shows "put_slot (items l) pos x = Some ((items l)[pos := x])"
    and "vector_holds (l\<lparr>vlast := max pos (vlast l), items := (items l)[pos := x]\<rparr>) (items_set xs pos x)"
proof -
  note d = vector_holdsD [OF h]
  show "put_slot (items l) pos x = Some ((items l)[pos := x])" using p d(3) by (simp add: put_slot_def)
  have "(items l)[pos := x] = None # (padded xs (length (items l) - 1))[pos - 1 := x]"
    using p(1) by (subst d(6)) (cases pos, simp_all)
  then have "(items l)[pos := x] = None # padded (items_set xs pos x) (length (items l) - 1)"
    using padded_set [of pos "length (items l) - 1" xs x] p d(3) by simp
  moreover have "max (max (length xs) pos) (length (items l) - 1) = length (items l) - 1" using p(2) d(2,3) by auto
  ultimately show "vector_holds (l\<lparr>vlast := max pos (vlast l), items := (items l)[pos := x]\<rparr>) (items_set xs pos x)"
    using p d(1-5,8) by (auto simp: vector_holds_def max.commute)
qed

lemma vector_push:
  assumes h: "vector_holds l xs" and f: "vector_fits mem l (length xs + 1)"
  shows "\<exists>l'. impl_vector_list_push mem fill (Some l) x = Some (Some l', True) \<and> vector_holds l' (xs @ [x]) \<and> same_config l l' \<and>
    rate l' = rate l \<and> (length xs + 1 < vsize l \<longrightarrow> vsize l' = vsize l \<and> length (items l') = length (items l))"
proof -
  obtain l1 where l1: "(if vlast l = size_dec (vsize l) then vector_resize mem fill l (size_wrap (vsize l + rate l)) else Some (l, True)) = Some (l1, True)"
    "vector_holds l1 xs" "same_config l l1" "rate l1 = rate l" "length xs + 1 < vsize l1"
    using grow_eq [OF h f, of fill] by blast
  have "l1 = l" if "length xs + 1 < vsize l" using l1(1) that vector_holdsD(1,7) [OF h] by (auto split: if_splits)
  note d = vector_holdsD [OF l1(2)] and p = put_holds [OF l1(2) _ l1(5), of x]
  have "impl_vector_list_push mem fill (Some l) x =
      Some (Some (l1\<lparr>vlast := max (length xs + 1) (vlast l1), items := (items l1)[length xs + 1 := x]\<rparr>), True)"
    using l1(1) d(1) p(1) by (simp add: impl_vector_list_push_def)
  with p(2) l1(3,4) \<open>length xs + 1 < vsize l \<Longrightarrow> l1 = l\<close> show ?thesis
    by (auto simp: items_set_last [unfolded Suc_eq_plus1 [symmetric]] same_config_def)
qed

lemma vector_set:
  assumes h: "vector_holds l xs" and p: "0 < pos" and f: "vector_fits mem l pos"
  shows "\<exists>l'. impl_vector_list_set mem fill (Some l) pos x = Some (Some l', True, Some (item_at xs pos)) \<and> vector_holds l' (items_set xs pos x) \<and>
    same_config l l' \<and> rate l' = rate l \<and> (\<forall>n. vector_shifts l n \<longrightarrow> vector_shifts l' n)"
proof -
  note d = vector_holdsD [OF h]
  obtain l1 where l1: "(if pos \<ge> vsize l then vector_resize mem fill l (size_wrap (pos + 2)) else Some (l, True)) = Some (l1, True)"
    "vector_holds l1 xs" "same_config l l1" "rate l1 = rate l" "pos < vsize l1" "\<forall>n. vector_shifts l n \<longrightarrow> vector_shifts l1 n"
  proof (cases "pos \<ge> vsize l")
    case True
    have m: "length xs < Suc pos" "8 * (Suc pos + 1) < 2 ^ 64" "vsize l \<noteq> Suc pos" "8 * (Suc pos + 1) \<le> mem"
      using True d(2,5) f by (auto simp: vector_fits_def)
    have "size_wrap (pos + 2) = Suc (Suc pos)" using m(2) by (simp add: size_wrap_eq)
    with True resize_eq [OF h m(1,2,3)] m(4) less_imp_le [OF m(1)] show ?thesis
      by (intro that [of "l\<lparr>vsize := Suc pos, items := None # padded xs (Suc pos)\<rparr>"]) (simp_all add: same_config_def vector_shifts_def max_absorb2)
  qed (use h in \<open>auto intro: that [of l]\<close>)
  note p1 = put_holds [OF l1(2) p l1(5), of x]
  have "get_slot (items l1) pos = Some (item_at xs pos)" using item_slot [OF l1(2) p] l1(5) vector_holdsD(3) [OF l1(2)] by simp
  then have "impl_vector_list_set mem fill (Some l) pos x =
      Some (Some (l1\<lparr>vlast := max pos (vlast l1), items := (items l1)[pos := x]\<rparr>), True, Some (item_at xs pos))"
    using l1(1) p p1(1) by (simp add: impl_vector_list_set_def)
  with p1(2) l1(3,4,6) show ?thesis by (auto simp: same_config_def vector_shifts_def)
qed

lemma vector_pop:
  assumes h: "vector_holds l xs"
  shows "\<exists>l'. impl_vector_list_pop mem fill (Some l) = Some (Some l', item_at xs (length xs)) \<and> vector_holds l' (butlast xs) \<and> same_config l l'"
proof (cases "xs = []")
  case True
  then show ?thesis using h vector_holdsD(1) [OF h] by (auto simp: impl_vector_list_pop_def item_at_def)
next
  case False
  note d = vector_holdsD [OF h]
  have n: "0 < length xs" "length xs < length (items l)" using False d(2,3) by auto
  let ?l = "l\<lparr>vlast := vlast l - 1, items := (items l)[vlast l := None]\<rparr>"
  have "(items l)[vlast l := None] = None # (padded xs (length (items l) - 1))[length xs - 1 := None]"
    using n(1) d(1) by (subst d(6)) (cases "length xs", simp_all)
  also have "(padded xs (length (items l) - 1))[length xs - 1 := None] = padded (butlast xs) (length (items l) - 1)"
    using n by (intro nth_equalityI) (auto simp: padded_nth nth_list_update nth_butlast)
  finally have h1: "vector_holds ?l (butlast xs)" using d by (auto simp: vector_holds_def)
  have "length (butlast xs) + 2 \<le> vsize ?l" using n d(2) by simp
  from auto_adjust_eq [OF h1 this] obtain l' ok where "vector_auto_adjust mem fill ?l = Some (l', ok)" "vector_holds l' (butlast xs)" "same_config ?l l'"
    by blast
  then show ?thesis
    using n d(1) item_slot [OF h n] by (auto simp: impl_vector_list_pop_def put_slot_def same_config_def)
qed

lemma shift_up_nth:
  assumes "pos \<le> k" "k < length its"
  obtains r where "shift_up its pos k = Some r" "length r = length its"
    "\<And>i. i < length its \<Longrightarrow> r ! i = (if i \<le> pos \<or> k < i then its ! i else its ! (i - 1))"
proof
  let ?r = "take (Suc pos) its @ take (k - pos) (drop pos its) @ drop (Suc k) its"
  show "shift_up its pos k = Some ?r" using assms by (rule shift_up_eq)
  show "length ?r = length its" using assms by auto
  fix i assume "i < length its"
  then show "?r ! i = (if i \<le> pos \<or> k < i then its ! i else its ! (i - 1))"
    using assms by (auto simp: nth_append min_def)
qed

lemma shift_down_nth:
  assumes "pos \<le> n" "Suc n < length its"
  obtains r where "shift_down its pos n = Some r" "length r = length its"
    "\<And>i. i < length its \<Longrightarrow> r ! i = (if i < pos \<or> n < i then its ! i else its ! Suc i)"
proof
  let ?r = "take pos its @ drop (Suc pos) (take (Suc (Suc n)) its) @ drop (Suc n) its"
  show "shift_down its pos n = Some ?r" using assms by (intro shift_down_eq) simp_all
  show "length ?r = length its" using assms by auto
  fix i assume "i < length its"
  then show "?r ! i = (if i < pos \<or> n < i then its ! i else its ! Suc i)"
    using assms Suc_leI [OF assms(2)] by (auto simp: nth_append min_absorb1 min_absorb2)
qed

lemma slot_nth:
  assumes "vector_holds l xs" "i < length (items l)"
  shows "items l ! i = item_at xs i"
  using vector_holdsD(6) [OF assms(1)] item_slot [OF assms(1) _ assms(2)] assms(2)
  by (cases "i = 0") (auto simp: item_at_def get_slot_def split: if_splits, metis nth_Cons_0)

lemma holds_nthI:
  assumes "vlast l = length xs" "length xs < vsize l" "8 * (vsize l + 1) < 2 ^ 64" "2 \<le> rate l"
    "length (items l) = vsize l \<or> length (items l) = vsize l + 1" "\<And>i. i < length (items l) \<Longrightarrow> items l ! i = item_at xs i"
  shows "vector_holds l xs"
proof -
  have "items l = None # padded xs (length (items l) - 1)"
    using assms(2,5,6) by (intro nth_equalityI) (auto simp: item_at_def nth_Cons padded_nth less_max_iff_disj split: nat.split)
  with assms show ?thesis by (simp add: vector_holds_def)
qed

lemma vector_remove:
  assumes h: "vector_holds l xs" and p: "0 < pos" "pos \<le> length xs" and s: "vector_shifts l (length xs)"
  shows "\<exists>l'. impl_vector_list_remove mem fill (Some l) pos = Some (Some l', item_at xs pos) \<and> vector_holds l' (items_remove xs pos) \<and> same_config l l'"
proof -
  note d = vector_holdsD [OF h]
  have n: "Suc (length xs) < length (items l)" using s d(2,3) by (auto simp: vector_shifts_def)
  obtain r where r: "shift_down (items l) pos (length xs) = Some r" "length r = length (items l)"
    "\<And>i. i < length (items l) \<Longrightarrow> r ! i = (if i < pos \<or> length xs < i then items l ! i else items l ! Suc i)"
    by (rule shift_down_nth [OF p(2) n]) blast
  let ?l = "l\<lparr>vlast := vlast l - 1, items := r[length xs := None]\<rparr>"
  have h1: "vector_holds ?l (items_remove xs pos)"
  proof (rule holds_nthI)
    show "items ?l ! i = item_at (items_remove xs pos) i" if "i < length (items ?l)" for i
      using that r(2,3) n p by (auto simp: slot_nth [OF h] nth_list_update item_at_def items_remove_def nth_append)
  qed (use d p r(2) in \<open>auto simp: items_remove_def\<close>)
  have "length (items_remove xs pos) + 2 \<le> vsize ?l" using p d(2) by (simp add: items_remove_def)
  from auto_adjust_eq [OF h1 this] obtain l' ok where
    "vector_auto_adjust mem fill ?l = Some (l', ok)" "vector_holds l' (items_remove xs pos)" "same_config ?l l'" by blast
  then show ?thesis
    using p d(1) item_slot [OF h p(1)] n r(1,2) by (auto simp: impl_vector_list_remove_def put_slot_def same_config_def)
qed

lemma vector_insert:
  assumes h: "vector_holds l xs" and p: "0 < pos" and f: "vector_fits mem l (max (length xs + 1) pos)" and s: "vector_shifts l (length xs + 1)"
  shows "\<exists>l'. impl_vector_list_insert mem fill (Some l) pos x = Some (Some l', True) \<and> vector_holds l' (items_insert xs pos x) \<and>
    same_config l l' \<and> rate l' = rate l \<and> (\<forall>n. vector_shifts l n \<longrightarrow> vector_shifts l' n)"
proof (cases "length xs < pos")
  case True
  have "vector_fits mem l pos" using fits_mono [OF f] by simp
  from vector_set [OF h p this, of fill x] True show ?thesis
    using vector_holdsD(1) [OF h] p by (auto simp: impl_vector_list_insert_def items_insert_behind)
next
  case False
  have "vector_fits mem l (length xs + 1)" using fits_mono [OF f] by simp
  then obtain l1 where l1: "(if vlast l = size_dec (vsize l) then vector_resize mem fill l (size_wrap (vsize l + rate l)) else Some (l, True)) = Some (l1, True)"
    "vector_holds l1 xs" "same_config l l1" "rate l1 = rate l" "length xs + 1 < vsize l1" "\<forall>n. vector_shifts l n \<longrightarrow> vector_shifts l1 n"
    using grow_eq [OF h, of mem fill] by blast
  note d = vector_holdsD [OF l1(2)]
  have "vector_shifts l1 (length xs + 1)" using s l1(6) by blast
  then have n: "length xs + 2 < length (items l1)" using l1(5) d(3) by (auto simp: vector_shifts_def)
  have pos: "pos \<le> length xs + 2" using False by simp
  obtain r where r: "shift_up (items l1) pos (length xs + 2) = Some r" "length r = length (items l1)"
    "\<And>i. i < length (items l1) \<Longrightarrow> r ! i = (if i \<le> pos \<or> length xs + 2 < i then items l1 ! i else items l1 ! (i - 1))"
    by (rule shift_up_nth [OF pos n]) blast
  let ?l = "l1\<lparr>vlast := vlast l1 + 1, items := r[pos := x]\<rparr>"
  have "vector_holds ?l (items_insert xs pos x)"
  proof (rule holds_nthI)
    show "items ?l ! i = item_at (items_insert xs pos x) i" if "i < length (items ?l)" for i
      using that r(2,3) n p False
      by (auto simp: slot_nth [OF l1(2)] nth_list_update item_at_def items_insert_def padded_def nth_append nth_Cons' Let_def numeral_2_eq_2)
  qed (use d p False r(2) l1(5) in \<open>auto simp: max_def\<close>)
  moreover have "impl_vector_list_insert mem fill (Some l) pos x = Some (Some ?l, True)"
    using l1(1) p False d(1) vector_holdsD(1) [OF h] r(1,2) n by (simp add: impl_vector_list_insert_def put_slot_def)
  ultimately show ?thesis using l1(3,4,6) r(2) by (auto simp: same_config_def vector_shifts_def)
qed

lemma vector_clear:
  assumes h: "vector_holds l xs"
  shows "\<exists>l'. impl_vector_list_clear (Some l) = Some (Some l', True) \<and> vector_holds l' [] \<and> config l' = config l \<and>
    not_null (item_freed l') = not_null (item_freed l @ (if item_free (config l) = None then [] else xs))"
proof -
  note d = vector_holdsD [OF h]
  define freed where "freed = item_freed l @ (if item_free (config l) \<noteq> None then take (vsize l) (items l) else [])"
  let ?l = "l\<lparr>item_freed := freed, items := replicate (length (items l)) None, vlast := 0\<rparr>"
  have drop: "drop (vsize l) (items l) = replicate (length (items l) - vsize l) None"
    using d(2,3) by (intro nth_equalityI) (auto simp: slot_nth [OF h] item_at_def)
  have "replicate (vsize l) None @ replicate (length (items l) - vsize l) None = replicate (length (items l)) (None :: 'a option)"
    using d(3) by (simp flip: replicate_add)
  then have "impl_vector_list_clear (Some l) = Some (Some ?l, True)"
    using clear_slots_eq [of 0 "vsize l" "items l" "item_free (config l) \<noteq> None" "item_freed l"] d(3)
    by (simp add: impl_vector_list_clear_def drop freed_def)
  moreover have "vector_holds ?l []" using d by (intro holds_nthI) (auto simp: item_at_def)
  moreover have "take (vsize l) (items l) = None # xs @ replicate (vsize l - 1 - length xs) None"
  proof -
    have "take (vsize l) (items l) = None # padded xs (vsize l - 1)"
      using take_padded [of xs "vsize l - 1" "length (items l) - 1"] d(2,3) by (subst d(6)) (cases "vsize l", simp_all)
    then show ?thesis by (simp add: padded_def)
  qed
  then have "not_null freed = not_null (item_freed l @ (if item_free (config l) = None then [] else xs))"
    by (auto simp: freed_def not_null_def)
  ultimately show ?thesis by auto
qed

lemma vector_free:
  assumes "vector_holds l xs"
  shows "\<exists>fs. impl_vector_list_free (Some l) = Some (fs, None) \<and> not_null fs = not_null (item_freed l @ (if item_free (config l) = None then [] else xs))"
  using vector_clear [OF assms] by (auto simp: impl_vector_list_free_def)

lemma vector_is_empty: "vector_holds l xs \<Longrightarrow> impl_vector_list_is_empty (Some l) = Some (xs = [])"
  by (simp add: impl_vector_list_is_empty_def vector_holdsD(1))

lemma vector_count: "vector_holds l xs \<Longrightarrow> impl_vector_list_count (Some l) = Some (length xs)"
  by (simp add: impl_vector_list_count_def vector_is_empty vector_holdsD(1))

lemma vector_get: "vector_holds l xs \<Longrightarrow> impl_vector_list_get (Some l) pos = Some (item_at xs pos)"
  using vector_holdsD(1-3) [of l xs] item_slot [of l xs pos] by (auto simp: impl_vector_list_get_def item_at_def)

lemma vector_block:
  assumes "vector_holds l xs"
  shows "take (Suc (length xs)) (items l) = None # xs" "length xs < length (items l)"
proof -
  show n: "length xs < length (items l)" using vector_holdsD(2,3) [OF assms] by simp
  show "take (Suc (length xs)) (items l) = None # xs"
    using take_padded [of xs "length xs" "length (items l) - 1"] n by (subst vector_holdsD(6) [OF assms]) (simp add: padded_def)
qed

lemma vector_get_pos: "vector_holds l xs \<Longrightarrow> impl_vector_list_get_pos (Some l) x = Some (item_pos xs x)"
  using find_slot_eq [of 0 "length xs" "items l" x] vector_block [of l xs]
  by (auto simp: impl_vector_list_get_pos_def vector_holdsD(1) item_pos_def Let_def)

lemma vector_for_each: "vector_holds l xs \<Longrightarrow> impl_vector_list_for_each (Some l) s (Some f) = Some (run_items f xs s)"
  using run_slots_eq [of 1 "length xs" "items l" f s] vector_block [of l xs]
  by (auto simp: impl_vector_list_for_each_def vector_holdsD(1) vector_list_is_empty_def)

lemma vector_iteration:
  assumes h: "vector_holds l xs"
  shows "\<exists>it. impl_vector_list_iter (Some l) = Some (it 0) \<and> it (length xs) = 0 \<and>
    (\<forall>i < length xs. it i \<noteq> 0 \<and> impl_vector_list_next (Some l) (it i) = Some (it (Suc i), xs ! i))"
proof -
  note d = vector_holdsD [OF h] and n = vector_block(2) [OF h]
  have "get_slot (items l) 0 = Some None" using slot_nth [OF h, of 0] n by (auto simp: get_slot_def item_at_def)
  moreover have "get_slot (items l) (Suc i) = Some (xs ! i)" if "i < length xs" for i
    using item_slot [OF h, of "Suc i"] that n by (simp add: item_at_def)
  ultimately show ?thesis
    using d(1) by (intro exI [of _ "\<lambda>i. if i < length xs then Suc i else 0"])
      (auto simp: impl_vector_list_iter_def impl_vector_list_next_def impl_vector_list_is_empty_def)
qed

subsection \<open>The contract\<close>

lemma vector_holds_config: "vector_holds (l\<lparr>config := c\<rparr>) xs = vector_holds l xs" "vector_holds (l\<lparr>item_freed := fs\<rparr>) xs = vector_holds l xs"
  by (simp_all add: vector_holds_def)

lemma vector_remove_none: "vector_holds l xs \<Longrightarrow> pos = 0 \<or> length xs < pos \<Longrightarrow> impl_vector_list_remove mem fill (Some l) pos = Some (Some l, None)"
  by (auto simp: impl_vector_list_remove_def vector_holdsD(1))

interpretation vl: ov_list_contract "vector_list_ops mem fill" vector_holds "vector_fits mem" vector_shifts for mem fill
proof unfold_locales
  show "\<exists>l'. op_push (vector_list_ops mem fill) (Some l) x = Some (Some l', True) \<and> vector_holds l' (xs @ [x]) \<and> same_config l l' \<and>
      (\<forall>n > length xs. vector_fits mem l n \<longrightarrow> vector_fits mem l' n)" if "vector_holds l xs" "vector_fits mem l (length xs + 1)" for l xs x
    using vector_push [OF that, of fill x] by (auto simp: vector_list_ops_def vector_fits_def)
  show "\<exists>l' old. op_set (vector_list_ops mem fill) (Some l) pos x = Some (Some l', True, old) \<and> vector_holds l' (items_set xs pos x) \<and> same_config l l' \<and>
      (pos \<le> length xs \<longrightarrow> old = Some (item_at xs pos)) \<and> (length xs < pos \<longrightarrow> old = None \<or> old = Some None)"
    if "vector_holds l xs" "0 < pos" "vector_fits mem l pos" for l xs pos x
    using vector_set [OF that, of fill x] by (auto simp: vector_list_ops_def item_at_def)
  show "\<exists>l'. op_insert (vector_list_ops mem fill) (Some l) pos x = Some (Some l', True) \<and> vector_holds l' (items_insert xs pos x) \<and> same_config l l' \<and>
      (\<forall>n \<ge> max (length xs + 1) pos. vector_fits mem l n \<longrightarrow> vector_fits mem l' n) \<and> (\<forall>n \<ge> max (length xs + 1) pos. vector_shifts l n \<longrightarrow> vector_shifts l' n)"
    if "vector_holds l xs" "0 < pos" "vector_fits mem l (max (length xs + 1) pos)" "vector_shifts l (length xs + 1)" for l xs pos x
    using vector_insert [OF that, of fill x] by (auto simp: vector_list_ops_def vector_fits_def)
  show "vector_fits mem l k" if "vector_fits mem l n" "k \<le> n" for l n k using that by (rule fits_mono)
  show "vector_shifts l k" if "vector_shifts l n" "k \<le> n" for l :: "'c VectorList" and n k using that by (auto simp: vector_shifts_def)
qed (simp_all add: vector_list_ops_def vector_holds_config vector_fits_def vector_is_empty vector_count vector_get vector_get_pos vector_for_each
  vector_pop vector_remove vector_remove_none vector_clear vector_free impl_vector_list_set_def impl_vector_list_insert_def)

subsection \<open>The new list\<close>

lemma create_vector_holds: "vector_holds (ov_vector_list_create conf) []"
  by (rule holds_nthI) (auto simp: ov_vector_list_create_def VECTOR_DEFAULT_SIZE_def item_at_def)

lemma ov_list_create_eq: "ov_list_create conf = Some (ov_vector_list_create conf)"
  by (simp add: ov_list_create_def ov_vector_list_set_shrink_def ov_vector_list_set_rate_def ov_vector_list_create_def DEFAULT_LIST_SHRINK_def
    DEFAULT_LIST_ITEM_RATE_def VECTOR_DEFAULT_SIZE_def)

text \<open>A list that has not grown keeps its size and its block.\<close>

lemma push_all_new:
  assumes "vector_holds l xs" "length xs + length ys < vsize l" "vector_fits mem l (length xs + length ys)"
  shows "\<exists>l'. push_all (vector_list_ops mem fill) l ys = Some l' \<and> vector_holds l' (xs @ ys) \<and> vsize l' = vsize l \<and> length (items l') = length (items l) \<and> rate l' = rate l"
  using assms
proof (induction ys arbitrary: l xs)
  case (Cons y ys)
  have "vector_fits mem l (length xs + 1)" using fits_mono [OF Cons.prems(3)] by simp
  from vector_push [OF Cons.prems(1) this, of fill y] Cons.prems(2) obtain l1 where
    l1: "impl_vector_list_push mem fill (Some l) y = Some (Some l1, True)" "vector_holds l1 (xs @ [y])" "rate l1 = rate l"
      "vsize l1 = vsize l" "length (items l1) = length (items l)" by auto
  from Cons.IH [OF l1(2)] Cons.prems l1 show ?case by (auto simp: ov_list_push_def vector_list_ops_def vector_fits_def)
qed simp

lemma shift_up_outside: "length its \<le> k \<Longrightarrow> pos < k \<Longrightarrow> shift_up its pos k = None"
  by (cases k) (auto simp: slot_defs)

lemma shift_down_outside: "i \<le> n \<Longrightarrow> length its = Suc n \<Longrightarrow> shift_down its i n = None"
proof (induction its i n rule: shift_down.induct)
  case (1 its i n)
  show ?case
  proof (cases "i = n")
    case True
    with 1(3) show ?thesis by (subst shift_down.simps) (simp add: slot_defs)
  next
    case False
    with 1 show ?thesis by (subst shift_down.simps) (simp add: slot_defs)
  qed
qed

lemma vector_insert_outside:
  assumes h: "vector_holds l xs" and s: "length (items l) = vsize l" "length xs + 2 = vsize l" and p: "0 < pos" "pos \<le> length xs"
  shows "impl_vector_list_insert mem fill (Some l) pos x = None"
proof -
  have "shift_up (items l) pos (length xs + 2) = None" "length xs \<noteq> vsize l - 1" using s p by (auto intro: shift_up_outside)
  then show ?thesis using vector_holdsD(1,7) [OF h] s(2) p by (simp add: impl_vector_list_insert_def Let_def del: shift_up.simps)
qed

lemma vector_remove_outside:
  assumes h: "vector_holds l xs" and s: "length (items l) = vsize l" "length xs + 1 = vsize l" and p: "0 < pos" "pos \<le> length xs"
  shows "impl_vector_list_remove mem fill (Some l) pos = None"
  using vector_holdsD(1) [OF h] s p shift_down_outside [of pos "length xs" "items l"] item_slot [OF h p(1)]
  by (simp add: impl_vector_list_remove_def)

lemma vector_push_outside:
  assumes h: "vector_holds l xs" and s: "length (items l) = vsize l" "length xs + 1 = vsize l"
  shows "impl_vector_list_push mem fill (fst (ov_vector_list_set_rate (Some l) 1)) x = None"
proof -
  note d = vector_holdsD [OF h]
  have "size_wrap (vsize l + 1) = vsize l + 1" using d(8) by (simp add: size_wrap_eq)
  then show ?thesis using d(1,2,7) s
    by (simp add: impl_vector_list_push_def ov_vector_list_set_rate_def vector_resize_def put_slot_def)
qed

subsection \<open>Properties\<close>

text \<open>
  C29: A vector list that holds the items \<open>xs\<close> behaves as the list of its items, as long as there is memory for the
  operation (\<open>vector_fits\<close>), and, where items are shifted, the slot behind the last item but one exists (\<open>vector_shifts\<close>): no slot outside
  of the block is read or written. The same positions, padding and results as of a linked list; clearing gives every item to
  the free function once, and NULL for the empty slots.
\<close>

theorem vector_list_refines_list:
  assumes "vector_holds l xs"
  shows "impl_vector_list_count (Some l) = Some (length xs) \<and>
    impl_vector_list_get (Some l) pos = Some (item_at xs pos) \<and>
    impl_vector_list_get_pos (Some l) x = Some (item_pos xs x) \<and>
    impl_vector_list_for_each (Some l) s (Some f) = Some (run_items f xs s) \<and>
    (vector_fits mem l (length xs + 1) \<longrightarrow>
      (\<exists>l'. impl_vector_list_push mem fill (Some l) x = Some (Some l', True) \<and> vector_holds l' (xs @ [x]))) \<and>
    (\<exists>l'. impl_vector_list_pop mem fill (Some l) = Some (Some l', item_at xs (length xs)) \<and> vector_holds l' (butlast xs)) \<and>
    (0 < pos \<and> vector_fits mem l pos \<longrightarrow>
      (\<exists>l'. impl_vector_list_set mem fill (Some l) pos x = Some (Some l', True, Some (item_at xs pos)) \<and> vector_holds l' (items_set xs pos x))) \<and>
    (0 < pos \<and> vector_fits mem l (max (length xs + 1) pos) \<and> vector_shifts l (length xs + 1) \<longrightarrow>
      (\<exists>l'. impl_vector_list_insert mem fill (Some l) pos x = Some (Some l', True) \<and> vector_holds l' (items_insert xs pos x))) \<and>
    (vector_shifts l (length xs) \<or> pos = 0 \<or> length xs < pos \<longrightarrow>
      (\<exists>l'. impl_vector_list_remove mem fill (Some l) pos = Some (Some l', item_at xs pos) \<and> vector_holds l' (items_remove xs pos))) \<and>
    (\<exists>l'. impl_vector_list_clear (Some l) = Some (Some l', True) \<and> vector_holds l' [] \<and>
      not_null (item_freed l') = not_null (item_freed l @ (if item_free (config l) = None then [] else xs))) \<and>
    (\<exists>it. impl_vector_list_iter (Some l) = Some (it 0) \<and> it (length xs) = 0 \<and>
      (\<forall>i < length xs. it i \<noteq> 0 \<and> impl_vector_list_next (Some l) (it i) = Some (it (Suc i), xs ! i)))"
proof (intro conjI impI)
  show "\<exists>l'. impl_vector_list_remove mem fill (Some l) pos = Some (Some l', item_at xs pos) \<and> vector_holds l' (items_remove xs pos)"
    if "vector_shifts l (length xs) \<or> pos = 0 \<or> length xs < pos"
    using that vector_remove [OF assms, of pos mem fill] vector_remove_none [OF assms, of pos mem fill] assms
    by (cases "0 < pos \<and> pos \<le> length xs") (auto simp: item_at_def items_remove_def)
qed (use vector_push [OF assms, of mem fill x] vector_pop [OF assms, of mem fill] vector_set [OF assms, of pos mem fill x]
    vector_insert [OF assms, of pos mem fill x] vector_clear [OF assms] vector_iteration [OF assms] in \<open>auto simp: vector_count [OF assms] vector_get [OF assms] vector_get_pos [OF assms] vector_for_each [OF assms]\<close>)

theorem vector_list_refines_list_witness:
  "\<exists>l1 l2. impl_vector_list_push 10000 None (Some (ov_vector_list_create \<lparr>item_free = None, item_copy = None\<rparr>)) (Some (7::nat)) = Some (Some l1, True) \<and>
    vector_holds l1 [Some 7] \<and> impl_vector_list_pop 10000 None (Some l1) = Some (Some l2, Some 7)"
proof -
  let ?l = "ov_vector_list_create \<lparr>item_free = None, item_copy = None\<rparr> :: nat VectorList"
  have "vector_fits 10000 ?l 1" by (simp add: vector_fits_def ov_vector_list_create_def VECTOR_DEFAULT_SIZE_def)
  then obtain l1 where l1: "impl_vector_list_push 10000 None (Some ?l) (Some 7) = Some (Some l1, True)" "vector_holds l1 [Some 7]"
    using vector_list_refines_list [OF create_vector_holds [of "\<lparr>item_free = None, item_copy = None\<rparr>"], of 0 "Some (7::nat)" "()" "\<lambda>_ s. (True, s)" 10000 None]
    by auto
  from vector_list_refines_list [OF l1(2), of 0 None "()" "\<lambda>_ s. (True, s)" 10000 None] l1 show ?thesis by (auto simp: item_at_def)
qed

text \<open>
  A new default list has as many slots as its size says, and shifting needs one more: with 98 items, inserting
  at any of their positions writes behind the block, and with 99 items, removing any of them reads behind it. With a rate of 1, which
  \<open>ov_vector_list_set_rate\<close> accepts, the push of the 100th item writes behind the block.
\<close>

theorem vector_list_overruns:
  assumes "ov_list_create conf = Some l" "length xs = 98" "0 < pos" "pos \<le> 98" "1600 \<le> mem" "mem < 2 ^ 64"
  shows "\<exists>l1 l2. push_all (vector_list_ops mem fill :: ('a, ('a, unit) VectorList_ext, unit) ov_list_ops) l xs = Some l1 \<and> vector_holds l1 xs \<and>
    impl_vector_list_insert mem fill (Some l1) pos x = None \<and>
    impl_vector_list_push mem fill (Some l1) x = Some (Some l2, True) \<and> vector_holds l2 (xs @ [x]) \<and>
    impl_vector_list_remove mem fill (Some l2) pos = None \<and>
    impl_vector_list_push mem fill (fst (ov_vector_list_set_rate (Some l2) 1)) y = None"
proof -
  have l: "l = ov_vector_list_create conf" using assms(1) by (simp add: ov_list_create_eq)
  then have h: "vector_holds l []" "vsize l = 100" "length (items l) = 100" "vector_fits mem l 99"
    using create_vector_holds [of conf] assms(5,6) by (simp_all add: ov_vector_list_create_def VECTOR_DEFAULT_SIZE_def vector_fits_def)
  have f: "vector_fits mem l (length [] + length xs)" using fits_mono [OF h(4)] assms(2) by simp
  obtain l1 where l1: "push_all (vector_list_ops mem fill :: ('a, ('a, unit) VectorList_ext, unit) ov_list_ops) l xs = Some l1"
      "vector_holds l1 xs" "vsize l1 = 100" "length (items l1) = 100" and "rate l1 = rate l"
    using push_all_new [OF h(1) _ f, where ?fill = fill] assms(2) h(2,3) by auto
  then have "vector_fits mem l1 (length xs + 1)" using h(4) assms(2) by (simp add: vector_fits_def)
  from vector_push [OF l1(2) this, of fill x] obtain l2 where l2: "impl_vector_list_push mem fill (Some l1) x = Some (Some l2, True)"
      "vector_holds l2 (xs @ [x])" "vsize l2 = 100" "length (items l2) = 100"
    using l1(3,4) assms(2) by auto
  have "impl_vector_list_insert mem fill (Some l1) pos x = None"
    using l1 assms(2-4) by (intro vector_insert_outside [OF l1(2)]) auto
  moreover have "impl_vector_list_remove mem fill (Some l2) pos = None"
    using l2 assms(2-4) by (intro vector_remove_outside [OF l2(2)]) auto
  moreover have "impl_vector_list_push mem fill (fst (ov_vector_list_set_rate (Some l2) 1)) y = None"
    using l2 assms(2) by (intro vector_push_outside [OF l2(2)]) auto
  ultimately show ?thesis using l1(1,2) l2(1,2) by blast
qed

theorem vector_list_overruns_witness:
  "\<exists>l l1 l2. ov_list_create \<lparr>item_free = None, item_copy = None\<rparr> = Some l \<and>
    push_all (vector_list_ops 1600 None :: (nat, (nat, unit) VectorList_ext, unit) ov_list_ops) l (replicate 98 (Some 7)) = Some l1 \<and>
    impl_vector_list_insert 1600 None (Some l1) 1 (Some 5) = None \<and>
    impl_vector_list_push 1600 None (Some l1) (Some 5) = Some (Some l2, True) \<and> impl_vector_list_remove 1600 None (Some l2) 1 = None"
proof -
  have "ov_list_create \<lparr>item_free = None, item_copy = None\<rparr> = Some (ov_vector_list_create \<lparr>item_free = None, item_copy = None\<rparr> :: nat VectorList)"
    by (rule ov_list_create_eq)
  from vector_list_overruns [OF this, of "replicate 98 (Some 7)" 1 1600 None "Some 5" None] this show ?thesis by fastforce
qed

end
