(* ===== verification/Ov_Lists.thy ===== *)
theory Ov_Lists
  imports Ov_Linked_List Ov_Vector_List
begin

text \<open>
  Lists as their clients use them: both implementations of the list interface satisfy its contract, so what the functions of
  \<^verbatim>\<open>ov_base/src/list/ov_list.c\<close> do with any list holds for both.
\<close>

interpretation lv: ov_list_copying linked_list_ops holds_items "\<lambda>l n. True" "\<lambda>l n. True" "vector_list_ops mem fill" vector_holds "vector_fits mem" vector_shifts
  for mem fill
  by (intro ov_list_copying.intro ll.ov_list_contract_axioms vl.ov_list_contract_axioms)

interpretation vv: ov_list_copying "vector_list_ops mem fill" vector_holds "vector_fits mem" vector_shifts "vector_list_ops mem fill" vector_holds "vector_fits mem"
  vector_shifts for mem fill
  by (intro ov_list_copying.intro vl.ov_list_contract_axioms)

lemma new_list:
  assumes "n \<le> 98" "8 * (n + 101) \<le> mem" "mem < 2 ^ 64"
  shows "vector_holds (ov_vector_list_create conf) []" "vector_fits mem (ov_vector_list_create conf) n" "vector_shifts (ov_vector_list_create conf) n"
  using assms create_vector_holds [of conf] by (simp_all add: vector_fits_def vector_shifts_def ov_vector_list_create_def VECTOR_DEFAULT_SIZE_def)

text \<open>
  A list used as a queue gives its items back in the order in which they were pushed: a new linked list for any number of
  items, and a new default list, a vector, for up to 98 (with one more item, a push writes behind the block).
\<close>

theorem list_queue_fifo:
  "(\<exists>l1 l2. queue_push_all (linked_list_ops :: ('a, ('a, unit) LinkedList_ext, unit) ov_list_ops) (ov_linked_list_create conf) xs = Some l1 \<and>
      queue_pop_n (linked_list_ops :: ('a, ('a, unit) LinkedList_ext, unit) ov_list_ops) l1 (length xs) = Some (l2, map Some xs) \<and> holds_items l2 []) \<and>
    (length xs \<le> 98 \<and> 8 * (length xs + 101) \<le> mem \<and> mem < 2 ^ 64 \<longrightarrow>
      (\<exists>l l1 l2. ov_list_create conf = Some l \<and>
        queue_push_all (vector_list_ops mem fill :: ('a, ('a, unit) VectorList_ext, unit) ov_list_ops) l xs = Some l1 \<and>
        queue_pop_n (vector_list_ops mem fill :: ('a, ('a, unit) VectorList_ext, unit) ov_list_ops) l1 (length xs) = Some (l2, map Some xs) \<and>
        vector_holds l2 []))"
proof (intro conjI impI)
  show "\<exists>l1 l2. queue_push_all (linked_list_ops :: ('a, ('a, unit) LinkedList_ext, unit) ov_list_ops) (ov_linked_list_create conf) xs = Some l1 \<and>
      queue_pop_n (linked_list_ops :: ('a, ('a, unit) LinkedList_ext, unit) ov_list_ops) l1 (length xs) = Some (l2, map Some xs) \<and> holds_items l2 []"
    using ll.queue_fifo [OF create_holds] by blast
  assume "length xs \<le> 98 \<and> 8 * (length xs + 101) \<le> mem \<and> mem < 2 ^ 64"
  then show "\<exists>l l1 l2. ov_list_create conf = Some l \<and>
        queue_push_all (vector_list_ops mem fill :: ('a, ('a, unit) VectorList_ext, unit) ov_list_ops) l xs = Some l1 \<and>
        queue_pop_n (vector_list_ops mem fill :: ('a, ('a, unit) VectorList_ext, unit) ov_list_ops) l1 (length xs) = Some (l2, map Some xs) \<and>
        vector_holds l2 []"
    using vl.queue_fifo [where l = "ov_vector_list_create conf" and xs = xs] new_list [of "length xs" mem conf] by (simp add: ov_list_create_eq)
qed

theorem list_queue_fifo_witness:
  "\<exists>l l1 l2. ov_list_create \<lparr>item_free = None, item_copy = None\<rparr> = Some l \<and>
    queue_push_all (vector_list_ops 2000 None :: (nat, (nat, unit) VectorList_ext, unit) ov_list_ops) l [3, 1, 2] = Some l1 \<and>
    queue_pop_n (vector_list_ops 2000 None :: (nat, (nat, unit) VectorList_ext, unit) ov_list_ops) l1 3 = Some (l2, [Some 3, Some 1, Some 2])"
  using list_queue_fifo [of "\<lparr>item_free = None, item_copy = None\<rparr>" "[3, 1, 2]" 2000 None]
  by (auto simp flip: numeral_3_eq_3 simp del: queue_push_all.simps queue_pop_n.simps)

text \<open>
  Copying a list, linked or vector, to a destination that is NULL makes a default list that holds copies of the items in their order, and
  NULL where the list holds NULL, provided that every item can be copied and there is memory.
\<close>

theorem list_copy_items:
  assumes f: "\<forall>x. Some x \<in> set xs \<longrightarrow> f x \<noteq> None" and mem: "8 * (length xs + 101) \<le> mem" "mem < 2 ^ 64"
  shows "(holds_items l xs \<and> item_copy (config l) = Some f \<longrightarrow>
      (\<exists>d. ov_list_copy linked_list_ops mem fill (Some None) (Some l) = Some (Some d, True) \<and> vector_holds d (map (\<lambda>x. Option.bind x f) xs))) \<and>
    (vector_holds v xs \<and> item_copy (config v) = Some f \<longrightarrow>
      (\<exists>d. ov_list_copy (vector_list_ops mem fill) mem fill (Some None) (Some v) = Some (Some d, True) \<and> vector_holds d (map (\<lambda>x. Option.bind x f) xs)))"
proof -
  have d: "vector_holds (ov_vector_list_create c) []" "vector_fits mem (ov_vector_list_create c) (length [] + length xs)" for c
    using mem create_vector_holds by (simp_all add: vector_fits_def ov_vector_list_create_def VECTOR_DEFAULT_SIZE_def)
  show ?thesis using lv.copy [OF _ d _ f, of l] vv.copy [OF _ d _ f] by (auto simp: ov_list_copy_def ov_list_create_eq)
qed

theorem list_copy_items_witness:
  "\<exists>l d. impl_linked_list_push (Some (ov_linked_list_create \<lparr>item_free = None, item_copy = Some (\<lambda>x. Some (Suc x))\<rparr>)) (Some (7::nat)) = Some (Some l, True) \<and>
    ov_list_copy linked_list_ops 2000 None (Some None) (Some l) = Some (Some d, True) \<and> vector_holds d [Some 8]"
proof -
  let ?l = "ov_linked_list_create \<lparr>item_free = None, item_copy = Some (\<lambda>x. Some (Suc x))\<rparr>"
  obtain l where l: "impl_linked_list_push (Some ?l) (Some 7) = Some (Some l, True)" "holds_items l [Some 7]" "same_config ?l l"
    using linked_push [OF create_holds] by fastforce
  then have "item_copy (config l) = Some (\<lambda>x. Some (Suc x))" by (simp add: same_config_def ov_linked_list_create_def)
  with l list_copy_items [of "[Some 7]" "\<lambda>x. Some (Suc x)" 2000 l None] show ?thesis by auto
qed

end
