(* ===== verification/Ov_Rtp_Frame_Buffer.thy ===== *)
theory Ov_Rtp_Frame_Buffer
  imports Ov_Rtp_Frame Ov_List
begin

text \<open>
  The buffer of RTP frames, \<open>ov_base/src/rtp/ov_rtp_frame_buffer.c\<close>, which puts the frames of each stream (SSRC) in the order of
  their sequence numbers.

  The buffer is a linked list of stages, each a linked list of frames. A linked list is the list of its items here, and its operations
  are those on the items, as the refinement of the linked list has them; a stage in the list of stages is not NULL. A result of
  \<open>None\<close> is an assertion that fails or NULL that is dereferenced. The marker \<open>ALREADY_PRESENT\<close>, NULL and
  a frame are the three results of an insertion.
\<close>

type_synonym stage = "ov_rtp_frame option list"

record ov_rtp_frame_buffer =
  stages :: "stage list"
  num_frames_to_buffer_per_stream :: nat

datatype insertion = Inserted | ALREADY_PRESENT | Remainder ov_rtp_frame

definition NUM_FRAMES_TO_BUFFER_DEFAULT :: nat where
  "NUM_FRAMES_TO_BUFFER_DEFAULT = 2"

subsection \<open>Stages\<close>

text \<open>The new list of stages, and whether there is a new stage, at its end.\<close>

definition add_stage :: "stage list \<Rightarrow> nat \<Rightarrow> stage list \<times> bool" where
  "add_stage sts max_stages = (if max_stages \<le> length sts then (sts, False) else (sts @ [[]], True))"

text \<open>The loop at position \<open>i\<close>, with the items from there on.\<close>

fun insert_loop :: "stage \<Rightarrow> ov_rtp_frame \<Rightarrow> nat \<Rightarrow> stage \<Rightarrow> stage \<times> insertion" where
  "insert_loop st frame i [] = (st @ [Some frame], Inserted)"
| "insert_loop st frame i (None # rest) = insert_loop st frame (Suc i) rest"
| "insert_loop st frame i (Some current # rest) =
    (if ssrc (expanded frame) > ssrc (expanded current) then insert_loop st frame (Suc i) rest
     else if ssrc (expanded frame) < ssrc (expanded current) then (items_insert st i (Some frame), Inserted)
     else if sequence_number (expanded frame) > sequence_number (expanded current) then (st, Remainder frame)
     else if sequence_number (expanded frame) = sequence_number (expanded current) then (st, ALREADY_PRESENT)
     else (items_set st i (Some frame), Remainder current))"

definition insert_into_stage :: "stage \<Rightarrow> ov_rtp_frame \<Rightarrow> stage \<times> insertion" where
  "insert_into_stage st frame = insert_loop st frame 1 st"

fun stages_loop :: "stage list \<Rightarrow> ov_rtp_frame \<Rightarrow> stage list \<times> insertion" where
  "stages_loop [] remainder = ([], Remainder remainder)"
| "stages_loop (st # rest) remainder =
    (case insert_into_stage st remainder of
       (st', Inserted) \<Rightarrow> (st' # rest, Inserted)
     | (st', ALREADY_PRESENT) \<Rightarrow> (st' # rest, ALREADY_PRESENT)
     | (st', Remainder r) \<Rightarrow> (case stages_loop rest r of (rest', res) \<Rightarrow> (st' # rest', res)))"

definition insert_into_stages :: "stage list \<Rightarrow> nat \<Rightarrow> ov_rtp_frame \<Rightarrow> stage list \<times> insertion" where
  "insert_into_stages sts max_stages frame =
    (if sts = [] then (case add_stage sts max_stages of (sts', added) \<Rightarrow> if added then stages_loop sts' frame else (sts', Inserted))
     else stages_loop sts frame)"

text \<open>The frame is \<open>None\<close> if there is no frame of that SSRC.\<close>

fun drop_loop :: "stage \<Rightarrow> u32 \<Rightarrow> nat \<Rightarrow> stage \<Rightarrow> (stage \<times> ov_rtp_frame option) option" where
  "drop_loop st ssid i [] = Some (st, None)"
| "drop_loop st ssid i (None # rest) = None"
| "drop_loop st ssid i (Some frame # rest) =
    (if ssid = ssrc (expanded frame) then Some (items_remove st i, item_at st i)
     else if ssid < ssrc (expanded frame) then Some (st, None)
     else drop_loop st ssid (Suc i) rest)"

definition drop_frame_from_stage :: "stage \<Rightarrow> u32 \<Rightarrow> (stage \<times> ov_rtp_frame option) option" where
  "drop_frame_from_stage st ssid = drop_loop st ssid 1 st"

fun shift_stages :: "u32 \<Rightarrow> stage \<Rightarrow> stage list \<Rightarrow> stage list option" where
  "shift_stages ssid prev [] = Some [prev]"
| "shift_stages ssid prev (current # rest) =
    do { (current', shifted) \<leftarrow> drop_frame_from_stage current ssid;
         frame_to_shift \<leftarrow> shifted;
         case insert_into_stage prev frame_to_shift of
           (prev', Inserted) \<Rightarrow> do { rest' \<leftarrow> shift_stages ssid current' rest; Some (prev' # rest') }
         | _ \<Rightarrow> None }"

definition drop_oldest_frame :: "stage list \<Rightarrow> ov_rtp_frame \<Rightarrow> (stage list \<times> ov_rtp_frame option) option" where
  "drop_oldest_frame sts frame =
    (case sts of
       [] \<Rightarrow> Some (sts, None)
     | prev # rest \<Rightarrow>
         do { (prev', dropped) \<leftarrow> drop_frame_from_stage prev (ssrc (expanded frame));
              remainder \<leftarrow> dropped;
              sts' \<leftarrow> shift_stages (ssrc (expanded frame)) prev' rest;
              Some (sts', Some remainder) })"

subsection \<open>Interface\<close>

definition ov_rtp_frame_buffer_create :: "nat \<Rightarrow> ov_rtp_frame_buffer" where
  "ov_rtp_frame_buffer_create num_frames =
    \<lparr>stages = [], num_frames_to_buffer_per_stream = (if num_frames = 0 then NUM_FRAMES_TO_BUFFER_DEFAULT else num_frames)\<rparr>"

definition ov_rtp_frame_buffer_add ::
  "ov_rtp_frame_buffer option \<Rightarrow> ov_rtp_frame option \<Rightarrow> (ov_rtp_frame_buffer option \<times> ov_rtp_frame option) option" where
  "ov_rtp_frame_buffer_add self frame =
    (case (self, frame) of
       (Some b, Some f) \<Rightarrow>
         (let max_stages = num_frames_to_buffer_per_stream b
          in case insert_into_stages (stages b) max_stages f of
               (sts, Inserted) \<Rightarrow> Some (Some (b\<lparr>stages := sts\<rparr>), None)
             | (sts, ALREADY_PRESENT) \<Rightarrow> Some (Some (b\<lparr>stages := sts\<rparr>), Some f)
             | (sts, Remainder remainder) \<Rightarrow>
                 (case add_stage sts max_stages of (sts1, added) \<Rightarrow>
                    (case (if added then insert_into_stage [] remainder else ([], Remainder remainder)) of
                       (new_stage, Inserted) \<Rightarrow> Some (Some (b\<lparr>stages := sts @ [new_stage]\<rparr>), None)
                     | _ \<Rightarrow>
                         do { (sts2, dropped) \<leftarrow> drop_oldest_frame sts1 remainder;
                              dropped_frame \<leftarrow> dropped;
                              Some (Some (b\<lparr>stages := fst (insert_into_stages sts2 max_stages remainder)\<rparr>), Some dropped_frame) })))
     | _ \<Rightarrow> Some (self, frame))"

definition ov_rtp_frame_buffer_get_current_frames :: "ov_rtp_frame_buffer option \<Rightarrow> ov_rtp_frame_buffer option \<times> stage option" where
  "ov_rtp_frame_buffer_get_current_frames self =
    (case self of
       None \<Rightarrow> (None, None)
     | Some b \<Rightarrow> (case stages b of [] \<Rightarrow> (Some b, None) | st # rest \<Rightarrow> (Some (b\<lparr>stages := rest\<rparr>), Some st)))"

subsection \<open>Stages as maps\<close>

text \<open>A stage has one frame for each of its streams, in the order of the SSRCs.\<close>

definition frame_of :: "stage \<Rightarrow> u32 \<Rightarrow> ov_rtp_frame option" where
  "frame_of st s = List.find (\<lambda>f. ssrc (expanded f) = s) (map the st)"

definition stage_ok :: "stage \<Rightarrow> bool" where
  "stage_ok st \<longleftrightarrow> None \<notin> set st \<and> sorted_wrt (\<lambda>f g. ssrc (expanded f) < ssrc (expanded g)) (map the st)"

lemma frame_of_Cons: "frame_of (Some f # st) s = (if ssrc (expanded f) = s then Some f else frame_of st s)" "frame_of [] s = None"
  by (simp_all add: frame_of_def)

lemma frame_of_append: "frame_of (xs @ ys) s = (case frame_of xs s of None \<Rightarrow> frame_of ys s | Some f \<Rightarrow> Some f)"
  by (induction xs) (auto simp: frame_of_def)

lemma frame_ofD: "frame_of st s = Some f \<Longrightarrow> ssrc (expanded f) = s"
  by (auto simp: frame_of_def find_Some_iff)

lemma frame_of_None: "\<forall>f \<in> set (map the st). ssrc (expanded f) \<noteq> s \<Longrightarrow> frame_of st s = None"
  by (auto simp: frame_of_def find_None_iff)

lemma stage_ok_Cons: "stage_ok (Some f # st) \<longleftrightarrow> stage_ok st \<and> (\<forall>g \<in> set (map the st). ssrc (expanded f) < ssrc (expanded g))"
  by (auto simp: stage_ok_def)

lemma stage_ok_append:
  "stage_ok (xs @ ys) \<longleftrightarrow> stage_ok xs \<and> stage_ok ys \<and> (\<forall>f \<in> set (map the xs). \<forall>g \<in> set (map the ys). ssrc (expanded f) < ssrc (expanded g))"
  by (auto simp: stage_ok_def sorted_wrt_append)

text \<open>What the insertion of a frame does to a stage.\<close>

definition stage_insert :: "stage \<Rightarrow> ov_rtp_frame \<Rightarrow> stage \<Rightarrow> insertion \<Rightarrow> bool" where
  "stage_insert st f st' res \<longleftrightarrow> stage_ok st' \<and>
    (case frame_of st (ssrc (expanded f)) of
       None \<Rightarrow> res = Inserted \<and> frame_of st' = (frame_of st)(ssrc (expanded f) := Some f)
     | Some g \<Rightarrow>
         if sequence_number (expanded f) > sequence_number (expanded g) then st' = st \<and> res = Remainder f
         else if sequence_number (expanded f) = sequence_number (expanded g) then st' = st \<and> res = ALREADY_PRESENT
         else res = Remainder g \<and> frame_of st' = (frame_of st)(ssrc (expanded f) := Some f))"

lemma insert_loop_correct:
  assumes "stage_ok (xs @ ys)" "\<forall>g \<in> set (map the xs). ssrc (expanded g) < ssrc (expanded f)"
  shows "stage_insert (xs @ ys) f (fst (insert_loop (xs @ ys) f (Suc (length xs)) ys)) (snd (insert_loop (xs @ ys) f (Suc (length xs)) ys))"
  using assms
proof (induction ys arbitrary: xs)
  case Nil
  then have "frame_of xs (ssrc (expanded f)) = None" by (intro frame_of_None) auto
  moreover have "stage_ok (xs @ [Some f])" using Nil by (auto simp: stage_ok_append stage_ok_Cons stage_ok_def [of "[]"])
  ultimately show ?case by (auto simp: stage_insert_def frame_of_append frame_of_Cons fun_eq_iff split: option.splits)
next
  case (Cons y ys)
  then obtain c where y: "y = Some c" by (cases y) (auto simp: stage_ok_def)
  have pre: "frame_of xs (ssrc (expanded f)) = None" using Cons.prems(2) by (intro frame_of_None) auto
  note ok = Cons.prems(1) [unfolded y stage_ok_append stage_ok_Cons]
  consider (gt) "ssrc (expanded f) > ssrc (expanded c)" | (lt) "ssrc (expanded f) < ssrc (expanded c)" | (eq) "ssrc (expanded f) = ssrc (expanded c)"
    by (meson linorder_neqE)
  then show ?case
  proof cases
    case gt
    then show ?thesis using Cons.IH [of "xs @ [y]"] Cons.prems y by auto
  next
    case lt
    then have later: "frame_of (y # ys) (ssrc (expanded f)) = None" using ok y by (intro frame_of_None) fastforce
    have "items_insert (xs @ y # ys) (Suc (length xs)) (Some f) = xs @ Some f # y # ys" by (simp add: items_insert_def padded_def Let_def)
    moreover have "stage_ok (xs @ Some f # y # ys)"
      using ok lt Cons.prems(2) unfolding y stage_ok_append stage_ok_Cons by fastforce
    ultimately show ?thesis using lt y pre later
      by (auto simp: stage_insert_def frame_of_append frame_of_Cons fun_eq_iff split: option.splits)
  next
    case eq
    have "items_set (xs @ y # ys) (Suc (length xs)) (Some f) = xs @ Some f # ys" by (simp add: items_set_def padded_def list_update_append)
    moreover have "stage_ok (xs @ Some f # ys)" using ok eq unfolding stage_ok_append stage_ok_Cons by fastforce
    ultimately show ?thesis using eq y pre Cons.prems(1)
      by (auto simp: stage_insert_def frame_of_append frame_of_Cons fun_eq_iff not_less_iff_gr_or_eq split: option.splits)
  qed
qed

lemma insert_into_stage_correct:
  assumes "stage_ok st" "insert_into_stage st f = (st', res)"
  shows "stage_insert st f st' res"
  using insert_loop_correct [of "[]" st f] assms by (simp add: insert_into_stage_def)

lemma drop_loop_correct:
  assumes "stage_ok (xs @ ys)" "\<forall>g \<in> set (map the xs). ssrc (expanded g) < s"
  shows "\<exists>st'. drop_loop (xs @ ys) s (Suc (length xs)) ys = Some (st', frame_of ys s) \<and> stage_ok st' \<and> frame_of st' = (frame_of (xs @ ys))(s := None)"
  using assms
proof (induction ys arbitrary: xs)
  case Nil
  then have "frame_of xs s = None" by (intro frame_of_None) auto
  then show ?case using Nil by (auto simp: frame_of_Cons fun_eq_iff)
next
  case (Cons y ys)
  then obtain c where y: "y = Some c" by (cases y) (auto simp: stage_ok_def)
  have pre: "frame_of xs s = None" using Cons.prems(2) by (intro frame_of_None) auto
  note ok = Cons.prems(1) [unfolded y stage_ok_append stage_ok_Cons]
  consider (gt) "s > ssrc (expanded c)" | (lt) "s < ssrc (expanded c)" | (eq) "s = ssrc (expanded c)"
    by (meson linorder_neqE)
  then show ?case
  proof cases
    case gt
    then show ?thesis using Cons.IH [of "xs @ [y]"] Cons.prems y by (auto simp: frame_of_Cons)
  next
    case lt
    then have later: "frame_of (y # ys) s = None" using ok y by (intro frame_of_None) fastforce
    with lt y pre Cons.prems(1) show ?thesis by (auto simp: frame_of_append fun_eq_iff split: option.splits)
  next
    case eq
    have "frame_of ys s = None" using ok eq by (intro frame_of_None) fastforce
    moreover have "items_remove (xs @ y # ys) (Suc (length xs)) = xs @ ys" "item_at (xs @ y # ys) (Suc (length xs)) = Some c"
      by (simp_all add: items_remove_def item_at_def nth_append y)
    moreover have "stage_ok (xs @ ys)" using ok unfolding stage_ok_append by fastforce
    ultimately show ?thesis using eq y pre by (auto simp: frame_of_append frame_of_Cons fun_eq_iff split: option.splits)
  qed
qed

lemma drop_frame_correct:
  assumes "stage_ok st"
  obtains st' where "drop_frame_from_stage st s = Some (st', frame_of st s)" "stage_ok st'" "frame_of st' = (frame_of st)(s := None)"
  using drop_loop_correct [of "[]" st s] assms by (auto simp: drop_frame_from_stage_def)

subsection \<open>Streams\<close>

text \<open>
  The frames of each stream, in the order of the stages: stage \<open>i\<close> holds the frames number \<open>i\<close> of the streams. So no stream
  has a hole.
\<close>

type_synonym streams = "u32 \<Rightarrow> ov_rtp_frame list"

definition heads :: "streams \<Rightarrow> u32 \<Rightarrow> ov_rtp_frame option" where
  "heads c s = (case c s of [] \<Rightarrow> None | f # fs \<Rightarrow> Some f)"

definition tails :: "streams \<Rightarrow> streams" where
  "tails c s = tl (c s)"

fun holds_streams :: "stage list \<Rightarrow> streams \<Rightarrow> bool" where
  "holds_streams [] c \<longleftrightarrow> c = (\<lambda>s. [])"
| "holds_streams (st # sts) c \<longleftrightarrow> stage_ok st \<and> frame_of st = heads c \<and> holds_streams sts (tails c)"

lemma heads_upd: "heads (c(s := [])) = (heads c)(s := None)" "heads (c(s := f # fs)) = (heads c)(s := Some f)"
  by (auto simp: heads_def fun_eq_iff)

lemma tails_upd: "tails (c(s := fs)) = (tails c)(s := tl fs)"
  by (auto simp: tails_def fun_eq_iff)

lemma heads_same: "c s = f # fs \<Longrightarrow> (heads c)(s := Some f) = heads c" "c s = [] \<Longrightarrow> (heads c)(s := None) = heads c"
  by (auto simp: heads_def fun_eq_iff)

lemma tails_same: "c s = f # fs \<Longrightarrow> (tails c)(s := fs) = tails c" "c s = [] \<Longrightarrow> (tails c)(s := []) = tails c"
  by (auto simp: tails_def fun_eq_iff)

lemmas stream_updates = heads_upd tails_upd heads_same tails_same

definition in_order :: "ov_rtp_frame list \<Rightarrow> bool" where
  "in_order fs \<longleftrightarrow> sorted_wrt (\<lambda>f g. sequence_number (expanded f) < sequence_number (expanded g)) fs"

fun insert_frame :: "ov_rtp_frame \<Rightarrow> ov_rtp_frame list \<Rightarrow> ov_rtp_frame list" where
  "insert_frame f [] = [f]"
| "insert_frame f (g # fs) = (if sequence_number (expanded f) < sequence_number (expanded g) then f # g # fs else g # insert_frame f fs)"

definition has_number :: "ov_rtp_frame \<Rightarrow> ov_rtp_frame list \<Rightarrow> bool" where
  "has_number f fs \<longleftrightarrow> (\<exists>g \<in> set fs. sequence_number (expanded g) = sequence_number (expanded f))"

text \<open>
  What adding a frame means: a number that its stream has already is refused, and a stream that is too long loses its oldest
  frame.
\<close>

definition streams_add :: "nat \<Rightarrow> streams \<Rightarrow> ov_rtp_frame \<Rightarrow> streams \<times> ov_rtp_frame option" where
  "streams_add n c f =
    (let s = ssrc (expanded f); fs = insert_frame f (c s)
     in if has_number f (c s) then (c, Some f)
        else if length fs \<le> n then (c(s := fs), None)
        else (c(s := tl fs), Some (hd fs)))"

lemma in_order_simps [simp]:
  "in_order []" "in_order (f # fs) \<longleftrightarrow> in_order fs \<and> (\<forall>g \<in> set fs. sequence_number (expanded f) < sequence_number (expanded g))"
  by (auto simp: in_order_def)

lemma insert_frame_facts [simp]:
  "length (insert_frame f fs) = Suc (length fs)" "set (insert_frame f fs) = insert f (set fs)" "insert_frame f fs \<noteq> []"
  by (induction fs) auto

lemma insert_in_order: "in_order fs \<Longrightarrow> \<not> has_number f fs \<Longrightarrow> in_order (insert_frame f fs)"
  by (induction fs) (auto simp: has_number_def not_less_iff_gr_or_eq)

lemma insert_first: "in_order (g # fs) \<Longrightarrow> insert_frame g fs = g # fs"
  by (cases fs) auto

lemma streams_length: "holds_streams sts c \<Longrightarrow> length (c s) \<le> length sts"
proof (induction sts arbitrary: c)
  case (Cons st sts)
  then have "length (tails c s) \<le> length sts" by auto
  then show ?case by (simp add: tails_def)
qed simp

lemma stages_loop_correct:
  assumes "holds_streams sts c" "\<forall>s. in_order (c s)" "stages_loop sts f = (sts', res)"
  shows "length sts' = length sts \<and>
    (if has_number f (c (ssrc (expanded f))) then sts' = sts \<and> res = ALREADY_PRESENT
     else holds_streams sts' (c(ssrc (expanded f) := take (length sts) (insert_frame f (c (ssrc (expanded f)))))) \<and>
       res = (if length (c (ssrc (expanded f))) < length sts then Inserted else Remainder (last (insert_frame f (c (ssrc (expanded f)))))))"
  using assms
proof (induction sts arbitrary: c f sts' res)
  case Nil
  then show ?case by (auto simp: has_number_def)
next
  case (Cons st sts)
  let ?s = "ssrc (expanded f)"
  obtain st1 res1 where ins: "insert_into_stage st f = (st1, res1)" by fastforce
  have st: "stage_ok st" "frame_of st = heads c" "holds_streams sts (tails c)" using Cons.prems(1) by auto
  note spec = insert_into_stage_correct [OF st(1) ins, unfolded stage_insert_def st(2)]
  have tl: "\<forall>s. in_order (tails c s)" using Cons.prems(2) by (metis in_order_simps(2) list.exhaust_sel list.sel(2) tails_def)
  show ?case
  proof (cases "c ?s")
    case Nil
    then have "res1 = Inserted" "frame_of st1 = (heads c)(?s := Some f)" "stage_ok st1" using spec by (auto simp: heads_def)
    then show ?thesis using Nil Cons.prems(3) ins st by (auto simp: has_number_def stream_updates simp del: fun_upd_apply)
  next
    case c: (Cons g gs)
    have h: "heads c ?s = Some g" "tails c ?s = gs" using c by (simp_all add: heads_def tails_def)
    have g: "ssrc (expanded g) = ?s" using frame_ofD [of st ?s g] st(2) h by simp
    have order: "in_order (g # gs)" using Cons.prems(2) c by metis
    consider (gt) "sequence_number (expanded f) > sequence_number (expanded g)" | (eq) "sequence_number (expanded f) = sequence_number (expanded g)"
      | (lt) "sequence_number (expanded f) < sequence_number (expanded g)" by (meson linorder_neqE)
    then show ?thesis
    proof cases
      case gt
      then have r: "st1 = st" "res1 = Remainder f" using spec h by auto
      obtain sts2 res2 where l: "stages_loop sts f = (sts2, res2)" by fastforce
      have n: "has_number f (c ?s) \<longleftrightarrow> has_number f gs" "insert_frame f (c ?s) = g # insert_frame f gs" using c gt by (auto simp: has_number_def)
      have "sts' = st # sts2" "res = res2" using Cons.prems(3) ins r l by auto
      with Cons.IH [OF st(3) tl l] n c h(2) st(1,2) show ?thesis by (auto simp: stream_updates simp del: fun_upd_apply)
    next
      case eq
      then show ?thesis using spec h c Cons.prems(3) ins by (auto simp: has_number_def)
    next
      case lt
      then have r: "stage_ok st1" "frame_of st1 = (heads c)(?s := Some f)" "res1 = Remainder g" using spec h by auto
      obtain sts2 res2 where l: "stages_loop sts g = (sts2, res2)" by fastforce
      have n: "\<not> has_number f (c ?s)" "insert_frame f (c ?s) = f # g # gs" "\<not> has_number g gs" "insert_frame g gs = g # gs"
        using c lt order insert_first [OF order] by (auto simp: has_number_def)
      have "sts' = st1 # sts2" "res = res2" using Cons.prems(3) ins r l by auto
      with Cons.IH [OF st(3) tl l] n c h(2) g r(1,2) show ?thesis by (auto simp: stream_updates simp del: fun_upd_apply)
    qed
  qed
qed

lemma shift_stages_correct:
  assumes "stage_ok prev" "frame_of prev = (heads c)(s := None)" "holds_streams sts ((tails c)(s := fs))" "length fs = length sts"
  shows "\<exists>sts'. shift_stages s prev sts = Some sts' \<and> holds_streams sts' (c(s := fs)) \<and> length sts' = Suc (length sts)"
  using assms
proof (induction sts arbitrary: prev c fs)
  case Nil
  then show ?case by (auto simp: stream_updates simp del: fun_upd_apply)
next
  case (Cons st sts)
  then obtain f gs where fs: "fs = f # gs" by (cases fs) auto
  have st: "stage_ok st" "frame_of st = (heads (tails c))(s := Some f)" "holds_streams sts ((tails (tails c))(s := gs))"
    using Cons.prems(3) fs by (simp_all add: stream_updates del: fun_upd_apply)
  obtain st' where d: "drop_frame_from_stage st s = Some (st', frame_of st s)" "stage_ok st'" "frame_of st' = (frame_of st)(s := None)"
    by (rule drop_frame_correct [OF st(1)])
  have f: "frame_of st s = Some f" "ssrc (expanded f) = s" using st(2) frame_ofD [of st s f] by auto
  obtain prev' res where i: "insert_into_stage prev f = (prev', res)" by fastforce
  then have p: "res = Inserted" "stage_ok prev'" "frame_of prev' = (frame_of prev)(s := Some f)"
    using insert_into_stage_correct [OF Cons.prems(1) i] f(2) Cons.prems(2) by (auto simp: stage_insert_def)
  have "frame_of st' = (heads (tails c))(s := None)" using d(3) st(2) by simp
  from Cons.IH [OF d(2) this st(3)] Cons.prems(4) fs obtain sts' where
    "shift_stages s st' sts = Some sts'" "holds_streams sts' ((tails c)(s := gs))" "length sts' = Suc (length sts)"
    by (auto simp del: fun_upd_apply)
  then show ?case using d(1) f(1) i p Cons.prems(2) fs by (auto simp: stream_updates simp del: fun_upd_apply)
qed

lemma drop_oldest_correct:
  assumes "holds_streams sts c" "length (c s) = length sts" "sts \<noteq> []" "ssrc (expanded f) = s"
  shows "\<exists>sts'. drop_oldest_frame sts f = Some (sts', Some (hd (c s))) \<and> holds_streams sts' (c(s := tl (c s))) \<and> length sts' = length sts"
proof -
  from assms(3) obtain st rest where sts: "sts = st # rest" by (cases sts) auto
  with assms(2) obtain g gs where c: "c s = g # gs" by (cases "c s") auto
  have st: "stage_ok st" "frame_of st = heads c" "holds_streams rest (tails c)" using assms(1) sts by auto
  obtain st' where d: "drop_frame_from_stage st s = Some (st', frame_of st s)" "stage_ok st'" "frame_of st' = (frame_of st)(s := None)"
    by (rule drop_frame_correct [OF st(1)])
  have "holds_streams rest ((tails c)(s := gs))" "frame_of st s = Some g" "length gs = length rest"
    using st(2,3) c assms(2) sts by (simp_all add: stream_updates heads_def del: fun_upd_apply)
  with shift_stages_correct [OF d(2) _ this(1)] d(1,3) st(2) c sts assms(4) show ?thesis
    by (auto simp: drop_oldest_frame_def simp del: fun_upd_apply)
qed

subsection \<open>The buffer\<close>

definition buffer_holds :: "ov_rtp_frame_buffer \<Rightarrow> streams \<Rightarrow> bool" where
  "buffer_holds b c \<longleftrightarrow> 0 < num_frames_to_buffer_per_stream b \<and> length (stages b) \<le> num_frames_to_buffer_per_stream b \<and>
    holds_streams (stages b) c \<and> (\<forall>s. in_order (c s))"

lemma holds_append:
  "holds_streams sts (c(s := take (length sts) fs)) \<Longrightarrow> length fs = Suc (length sts) \<Longrightarrow> ssrc (expanded (last fs)) = s \<Longrightarrow>
    holds_streams (sts @ [[Some (last fs)]]) (c(s := fs))"
proof (induction sts arbitrary: c fs)
  case Nil
  then obtain f where f: "fs = [f]" by (cases fs) auto
  have "c(s := fs) = (\<lambda>_. [])(s := [f])" using Nil.prems(1) f by (auto simp: fun_eq_iff split: if_splits)
  moreover have "heads (\<lambda>_. []) = (\<lambda>_. None)" "tails (\<lambda>_. []) = (\<lambda>_. [])" by (auto simp: heads_def tails_def)
  moreover have "frame_of [Some f] = (\<lambda>_. None)(s := Some f)" using Nil f by (auto simp: frame_of_def)
  ultimately show ?case using f by (simp add: heads_upd tails_upd stage_ok_def del: fun_upd_apply) auto
next
  case (Cons st sts)
  from Cons.prems(2) obtain f gs where fs: "fs = f # gs" "length gs = Suc (length sts)" by (cases fs) auto
  then have "gs \<noteq> []" by auto
  with fs Cons.prems Cons.IH [of "tails c" gs] show ?case by (auto simp: stream_updates simp del: fun_upd_apply)
qed

lemma streams_ssrc: "holds_streams sts c \<Longrightarrow> f \<in> set (c s) \<Longrightarrow> ssrc (expanded f) = s"
proof (induction sts arbitrary: c)
  case (Cons st sts)
  show ?case
  proof (cases "f \<in> set (tails c s)")
    case False
    with Cons.prems have "heads c s = Some f" by (cases "c s") (auto simp: heads_def tails_def)
    with Cons.prems(1) show ?thesis using frame_ofD [of st s f] by simp
  qed (use Cons in auto)
qed simp

lemma insert_last: "in_order (xs @ [r]) \<Longrightarrow> insert_frame r xs = xs @ [r]"
  by (induction xs) (auto simp: order_less_not_sym)

lemma in_order_butlast: "in_order fs \<Longrightarrow> in_order (butlast fs)"
  by (auto simp: in_order_def sorted_wrt_iff_nth_less nth_butlast)

lemma in_order_tl: "in_order fs \<Longrightarrow> in_order (tl fs)"
  by (cases fs) auto

text \<open>The first stage is there when a frame is inserted.\<close>

lemma insert_into_stages_eq:
  assumes "buffer_holds b c"
  obtains sts where "insert_into_stages (stages b) (num_frames_to_buffer_per_stream b) f = stages_loop sts f"
    "holds_streams sts c" "length sts \<le> num_frames_to_buffer_per_stream b" "sts \<noteq> []"
proof (cases "stages b = []")
  case True
  have "holds_streams [[]] c" using assms True by (auto simp: buffer_holds_def stage_ok_def frame_of_def heads_def tails_def)
  then show ?thesis using assms True
    by (intro that [of "[[]]"]) (simp_all add: insert_into_stages_def add_stage_def buffer_holds_def)
next
  case False
  then show ?thesis using assms by (intro that [of "stages b"]) (auto simp: insert_into_stages_def buffer_holds_def)
qed

text \<open>A frame too many in a full buffer: the oldest frame of the stream goes.\<close>

lemma drop_and_insert:
  assumes h: "holds_streams sts (c(s := butlast fs))" "\<forall>t. in_order ((c(s := butlast fs)) t)" and fs: "in_order fs" "length fs = Suc (length sts)"
    and s: "ssrc (expanded (last fs)) = s" "sts \<noteq> []"
  shows "\<exists>sts2. drop_oldest_frame sts (last fs) = Some (sts2, Some (hd fs)) \<and>
    holds_streams (fst (insert_into_stages sts2 n (last fs))) (c(s := tl fs)) \<and> length (fst (insert_into_stages sts2 n (last fs))) = length sts"
proof -
  let ?r = "last fs" and ?c = "c(s := tl (butlast fs))"
  from s(2) have "1 < length fs" using fs(2) by (cases sts) auto
  then obtain x y ys where e: "fs = x # y # ys" by (cases fs; cases "tl fs") auto
  then have split: "tl fs = tl (butlast fs) @ [?r]" "hd (butlast fs) = hd fs" by (cases ys rule: rev_cases; auto)+
  obtain sts2 where sts2: "drop_oldest_frame sts ?r = Some (sts2, Some (hd fs))" "holds_streams sts2 ?c" "length sts2 = length sts"
    using drop_oldest_correct [OF h(1) _ s(2,1)] fs(2) split(2) by auto
  have order: "in_order (tl (butlast fs) @ [?r])" using in_order_tl [OF fs(1)] split(1) by simp
  then have new: "\<not> has_number ?r (tl (butlast fs))" by (auto simp: has_number_def in_order_def sorted_wrt_append)
  have c: "\<forall>t. in_order (?c t)" using h(2) in_order_tl by (metis fun_upd_apply)
  obtain sts3 res where l: "stages_loop sts2 ?r = (sts3, res)" by fastforce
  have "insert_into_stages sts2 n ?r = (sts3, res)" using l s(2) sts2(3) by (auto simp: insert_into_stages_def)
  moreover have "holds_streams sts3 (c(s := tl fs)) \<and> length sts3 = length sts"
  proof -
    have "length (tl fs) = length sts" using fs(2) by simp
    moreover have "insert_frame ?r (tl (butlast fs)) = tl fs" using insert_last [OF order] split(1) by simp
    ultimately show ?thesis using stages_loop_correct [OF sts2(2) c l] new s(1) sts2(3) by simp
  qed
  ultimately show ?thesis using sts2(1) by simp
qed

lemma buffer_add_correct:
  assumes h: "buffer_holds b c" and a: "streams_add (num_frames_to_buffer_per_stream b) c f = (c', r)"
  shows "\<exists>b'. ov_rtp_frame_buffer_add (Some b) (Some f) = Some (Some b', r) \<and> buffer_holds b' c' \<and>
    num_frames_to_buffer_per_stream b' = num_frames_to_buffer_per_stream b"
proof -
  let ?n = "num_frames_to_buffer_per_stream b" and ?s = "ssrc (expanded f)"
  let ?fs = "insert_frame f (c ?s)"
  from insert_into_stages_eq [OF h, of f] obtain sts where
    sts: "insert_into_stages (stages b) ?n f = stages_loop sts f" "holds_streams sts c" "length sts \<le> ?n" "sts \<noteq> []" by blast
  have order: "\<forall>s. in_order (c s)" and n: "0 < ?n" using h by (auto simp: buffer_holds_def)
  obtain sts1 res where l: "stages_loop sts f = (sts1, res)" by fastforce
  note spec = stages_loop_correct [OF sts(2) order l]
  show ?thesis
  proof (cases "has_number f (c ?s)")
    case True
    with spec a l sts n order show ?thesis by (auto simp: ov_rtp_frame_buffer_add_def streams_add_def Let_def buffer_holds_def)
  next
    case False
    have fs: "in_order ?fs" by (rule insert_in_order [OF order [rule_format] False])
    show ?thesis
    proof (cases "length (c ?s) < length sts")
      case True
      with False spec a l sts n order fs show ?thesis
        by (auto simp: ov_rtp_frame_buffer_add_def streams_add_def Let_def buffer_holds_def)
    next
      case full: False
      with streams_length [OF sts(2), of ?s] have len: "length ?fs = Suc (length sts)" by simp
      then have but: "take (length sts) ?fs = butlast ?fs" by (simp add: butlast_conv_take)
      have h1: "res = Remainder (last ?fs)" "holds_streams sts1 (c(?s := butlast ?fs))" "length sts1 = length sts"
        using spec False full but by simp_all
      have s: "ssrc (expanded (last ?fs)) = ?s" using last_in_set [of ?fs] streams_ssrc [OF sts(2), of _ ?s] by auto
      have order1: "\<forall>t. in_order ((c(?s := butlast ?fs)) t)" using order in_order_butlast [OF fs] by simp
      show ?thesis
      proof (cases "length sts < ?n")
        case True
        have "insert_into_stage [] (last ?fs) = ([Some (last ?fs)], Inserted)" by (simp add: insert_into_stage_def)
        moreover have "holds_streams (sts1 @ [[Some (last ?fs)]]) (c(?s := ?fs))"
          using holds_append [of sts1 c ?s ?fs] h1(2,3) len s but by simp
        ultimately show ?thesis
          using True False a l sts(1) h1 len order fs n
          by (auto simp: ov_rtp_frame_buffer_add_def streams_add_def Let_def add_stage_def buffer_holds_def)
      next
        case max: False
        have ne: "sts1 \<noteq> []" "length ?fs = Suc (length sts1)" using h1(3) sts(4) len by auto
        from drop_and_insert [OF h1(2) order1 fs ne(2) s ne(1), of ?n] obtain sts2 where
          "drop_oldest_frame sts1 (last ?fs) = Some (sts2, Some (hd ?fs))" "holds_streams (fst (insert_into_stages sts2 ?n (last ?fs))) (c(?s := tl ?fs))"
          "length (fst (insert_into_stages sts2 ?n (last ?fs))) = length sts1" by blast
        then show ?thesis
          using max False a l sts(1,3) h1 len order in_order_tl [OF fs] n
          by (auto simp: ov_rtp_frame_buffer_add_def streams_add_def Let_def add_stage_def buffer_holds_def)
      qed
    qed
  qed
qed

lemma create_buffer_holds: "buffer_holds (ov_rtp_frame_buffer_create n) (\<lambda>_. [])"
  by (simp add: buffer_holds_def ov_rtp_frame_buffer_create_def NUM_FRAMES_TO_BUFFER_DEFAULT_def)

lemma get_current_correct:
  assumes "buffer_holds b c"
  shows "\<exists>b' cur. ov_rtp_frame_buffer_get_current_frames (Some b) = (Some b', cur) \<and> buffer_holds b' (tails c) \<and>
    num_frames_to_buffer_per_stream b' = num_frames_to_buffer_per_stream b \<and>
    (case cur of None \<Rightarrow> stages b = [] | Some st \<Rightarrow> stage_ok st \<and> frame_of st = heads c)"
proof (cases "stages b")
  case Nil
  then have "c = (\<lambda>s. [])" "tails c = c" using assms by (auto simp: buffer_holds_def tails_def)
  with Nil assms show ?thesis by (auto simp: ov_rtp_frame_buffer_get_current_frames_def)
next
  case (Cons st rest)
  then show ?thesis using assms in_order_tl
    by (auto simp: ov_rtp_frame_buffer_get_current_frames_def buffer_holds_def tails_def)
qed

text \<open>A run of the buffer: frames come in, and the current frames are taken out.\<close>

datatype buffer_step = Add ov_rtp_frame | Get_current

fun buffer_run :: "ov_rtp_frame_buffer option \<Rightarrow> buffer_step list \<Rightarrow> (ov_rtp_frame_buffer option \<times> ov_rtp_frame list \<times> stage option list) option" where
  "buffer_run b [] = Some (b, [], [])"
| "buffer_run b (Add f # ops) =
    do { (b1, r) \<leftarrow> ov_rtp_frame_buffer_add b (Some f);
         (b2, dropped, out) \<leftarrow> buffer_run b1 ops;
         Some (b2, (case r of None \<Rightarrow> dropped | Some g \<Rightarrow> g # dropped), out) }"
| "buffer_run b (Get_current # ops) =
    (case ov_rtp_frame_buffer_get_current_frames b of (b1, st) \<Rightarrow>
       do { (b2, dropped, out) \<leftarrow> buffer_run b1 ops; Some (b2, dropped, st # out) })"

fun streams_run :: "nat \<Rightarrow> streams \<Rightarrow> buffer_step list \<Rightarrow> streams \<times> ov_rtp_frame list" where
  "streams_run n c [] = (c, [])"
| "streams_run n c (Add f # ops) =
    (case streams_add n c f of (c1, r) \<Rightarrow> case streams_run n c1 ops of (c2, dropped) \<Rightarrow> (c2, case r of None \<Rightarrow> dropped | Some g \<Rightarrow> g # dropped))"
| "streams_run n c (Get_current # ops) = streams_run n (tails c) ops"

lemma buffer_run_correct:
  assumes "buffer_holds b c" "streams_run (num_frames_to_buffer_per_stream b) c ops = (c', dropped)"
  shows "\<exists>b' out. buffer_run (Some b) ops = Some (Some b', dropped, out) \<and> buffer_holds b' c' \<and>
    num_frames_to_buffer_per_stream b' = num_frames_to_buffer_per_stream b"
  using assms
proof (induction ops arbitrary: b c c' dropped)
  case (Cons op ops)
  show ?case
  proof (cases op)
    case (Add f)
    obtain c1 r where a: "streams_add (num_frames_to_buffer_per_stream b) c f = (c1, r)" by fastforce
    obtain c2 d where d: "streams_run (num_frames_to_buffer_per_stream b) c1 ops = (c2, d)" by fastforce
    from buffer_add_correct [OF Cons.prems(1) a] obtain b1 where
      b1: "ov_rtp_frame_buffer_add (Some b) (Some f) = Some (Some b1, r)" "buffer_holds b1 c1"
        "num_frames_to_buffer_per_stream b1 = num_frames_to_buffer_per_stream b" by blast
    from Cons.IH [OF b1(2)] d b1 obtain b2 out where "buffer_run (Some b1) ops = Some (Some b2, d, out)" "buffer_holds b2 c2"
        "num_frames_to_buffer_per_stream b2 = num_frames_to_buffer_per_stream b" by fastforce
    with Add a d b1 Cons.prems(2) show ?thesis by auto
  next
    case Get_current
    from get_current_correct [OF Cons.prems(1)] obtain b1 cur where
      b1: "ov_rtp_frame_buffer_get_current_frames (Some b) = (Some b1, cur)" "buffer_holds b1 (tails c)"
        "num_frames_to_buffer_per_stream b1 = num_frames_to_buffer_per_stream b" by blast
    from Cons.IH [OF b1(2)] Cons.prems(2) Get_current b1 show ?thesis by fastforce
  qed
qed simp

subsection \<open>Properties\<close>

text \<open>
  C31: The buffer implements ordered streams. In any sequence of frames that are added and of current frames that are taken from a new
  buffer, no assertion fails, and the frames given back are those the streams lose: a frame whose number its stream
  has already, or the oldest frame of a stream that has more than the configured number of frames. In the state reached, the next frames
  handed out are, for each SSRC, the frame with the lowest sequence number, in the order of the SSRCs.
\<close>

theorem frame_buffer_refines_streams:
  assumes "streams_run (if n = 0 then NUM_FRAMES_TO_BUFFER_DEFAULT else n) (\<lambda>_. []) ops = (c, dropped)"
  shows "\<exists>b out. buffer_run (Some (ov_rtp_frame_buffer_create n)) ops = Some (Some b, dropped, out) \<and> (\<forall>s. in_order (c s)) \<and>
    (\<exists>b' cur. ov_rtp_frame_buffer_get_current_frames (Some b) = (Some b', cur) \<and> buffer_holds b' (tails c) \<and>
      (case cur of None \<Rightarrow> c = (\<lambda>_. []) | Some st \<Rightarrow> stage_ok st \<and> frame_of st = heads c))"
proof -
  have "num_frames_to_buffer_per_stream (ov_rtp_frame_buffer_create n) = (if n = 0 then NUM_FRAMES_TO_BUFFER_DEFAULT else n)"
    by (simp add: ov_rtp_frame_buffer_create_def)
  with assms buffer_run_correct [OF create_buffer_holds, of n ops c dropped] obtain b out where
    b: "buffer_run (Some (ov_rtp_frame_buffer_create n)) ops = Some (Some b, dropped, out)" "buffer_holds b c" by auto
  have "\<forall>s. in_order (c s)" "stages b = [] \<Longrightarrow> c = (\<lambda>_. [])" using b(2) by (auto simp: buffer_holds_def)
  with get_current_correct [OF b(2)] b(1) show ?thesis by (fastforce split: option.splits)
qed

definition sample_frame :: "u32 \<Rightarrow> u16 \<Rightarrow> ov_rtp_frame" where
  "sample_frame s n = \<lparr>frame_bytes = [], expanded = (sample_rtp 0 0)\<lparr>ssrc := s, sequence_number := n\<rparr>\<rparr>"

theorem frame_buffer_refines_streams_witness:
  "\<exists>b out. buffer_run (Some (ov_rtp_frame_buffer_create 0)) [Add (sample_frame 7 2), Add (sample_frame 7 1), Add (sample_frame 7 3), Add (sample_frame 7 3)] =
    Some (Some b, [sample_frame 7 1, sample_frame 7 3], out)"
proof -
  have "streams_run (if (0::nat) = 0 then NUM_FRAMES_TO_BUFFER_DEFAULT else 0) (\<lambda>_. [])
      [Add (sample_frame 7 2), Add (sample_frame 7 1), Add (sample_frame 7 3), Add (sample_frame 7 3)] =
    ((\<lambda>_. [])(7 := [sample_frame 7 2, sample_frame 7 3]), [sample_frame 7 1, sample_frame 7 3])"
    by (simp add: NUM_FRAMES_TO_BUFFER_DEFAULT_def streams_add_def has_number_def sample_frame_def Let_def)
  from frame_buffer_refines_streams [OF this] show ?thesis by blast
qed

text \<open>
  Sequence numbers are compared as numbers: when a stream wraps around, the frame 0 that follows the frame 65535 counts as the
  oldest. It is handed out before the frame 65535, and a buffer that is full refuses it.
\<close>

theorem frame_buffer_wraps:
  assumes h: "buffer_holds b c" and f: "ssrc (expanded f) = s" "sequence_number (expanded f) = 0" and c: "c s \<noteq> []" "\<forall>g \<in> set (c s). 0 < sequence_number (expanded g)"
  shows "\<exists>b'. ov_rtp_frame_buffer_add (Some b) (Some f) =
      Some (Some b', if length (c s) < num_frames_to_buffer_per_stream b then None else Some f) \<and>
    (length (c s) < num_frames_to_buffer_per_stream b \<longrightarrow>
      (\<exists>b'' st. ov_rtp_frame_buffer_get_current_frames (Some b') = (Some b'', Some st) \<and> frame_of st s = Some f))"
proof -
  have n: "\<not> has_number f (c s)" "insert_frame f (c s) = f # c s" using f c by (auto simp: has_number_def neq_Nil_conv)
  let ?c = "if length (c s) < num_frames_to_buffer_per_stream b then c(s := f # c s) else c"
  have "streams_add (num_frames_to_buffer_per_stream b) c f = (?c, if length (c s) < num_frames_to_buffer_per_stream b then None else Some f)"
    using n f(1) by (auto simp: streams_add_def Let_def)
  from buffer_add_correct [OF h this] obtain b' where b': "ov_rtp_frame_buffer_add (Some b) (Some f) =
      Some (Some b', if length (c s) < num_frames_to_buffer_per_stream b then None else Some f)" "buffer_holds b' ?c" by blast
  from get_current_correct [OF b'(2)] obtain b'' cur where
    cur: "ov_rtp_frame_buffer_get_current_frames (Some b') = (Some b'', cur)" "case cur of None \<Rightarrow> stages b' = [] | Some st \<Rightarrow> stage_ok st \<and> frame_of st = heads ?c" by blast
  have "?c s \<noteq> []" using c by auto
  then have "stages b' \<noteq> []" using b'(2) by (auto simp: buffer_holds_def)
  with cur obtain st where "cur = Some st" "frame_of st = heads ?c" by (cases cur) auto
  with cur(1) b'(1) show ?thesis by (auto simp: heads_def)
qed

theorem frame_buffer_wraps_witness:
  "\<exists>b b' out. buffer_run (Some (ov_rtp_frame_buffer_create 0)) [Add (sample_frame 7 65534), Add (sample_frame 7 65535)] = Some (Some b, [], out) \<and>
    ov_rtp_frame_buffer_add (Some b) (Some (sample_frame 7 0)) = Some (Some b', Some (sample_frame 7 0))"
proof -
  let ?c = "(\<lambda>_. [])(7 := [sample_frame 7 65534, sample_frame 7 65535])"
  have "streams_run (num_frames_to_buffer_per_stream (ov_rtp_frame_buffer_create 0)) (\<lambda>_. []) [Add (sample_frame 7 65534), Add (sample_frame 7 65535)] = (?c, [])"
    by (simp add: ov_rtp_frame_buffer_create_def NUM_FRAMES_TO_BUFFER_DEFAULT_def streams_add_def has_number_def sample_frame_def Let_def)
  from buffer_run_correct [OF create_buffer_holds this] obtain b out where
    b: "buffer_run (Some (ov_rtp_frame_buffer_create 0)) [Add (sample_frame 7 65534), Add (sample_frame 7 65535)] = Some (Some b, [], out)"
      "buffer_holds b ?c" "num_frames_to_buffer_per_stream b = 2"
    by (auto simp: ov_rtp_frame_buffer_create_def NUM_FRAMES_TO_BUFFER_DEFAULT_def)
  from frame_buffer_wraps [OF b(2), of "sample_frame 7 0" 7] b(1,3) show ?thesis by (auto simp: sample_frame_def)
qed

end
