(* ===== verification/Ov_Dict.thy ===== *)
theory Ov_Dict
  imports Ov_Prelude "HOL-Library.Multiset"
begin

text \<open>
  The dictionary of \<open>ov_base/src/dict/ov_dict.c\<close>, on which JSON objects and most registries of the services are built, with the
  hash and match functions for its keys.

  Keys and values are pointers that may be NULL, so options. The C code gives every slot a dummy pair and links the used
  pairs behind it; here a slot is the list of its used pairs. \<open>calloc\<close> gives one slot more than configured, which is never used.
  Functions of the configuration that may be missing are options too. A call of the free function of the values is
  recorded: the operations that call it return the values it was called with. The free function of the keys only returns
  memory and has no counterpart.
\<close>

subsection \<open>Hash and match functions\<close>

definition PEARSON_PERMUTATION_TABLE :: "u8 list" where
  "PEARSON_PERMUTATION_TABLE =
    [98, 6, 85, 150, 36, 23, 112, 164, 135, 207, 169, 5, 26, 64, 165, 219,
     61, 20, 68, 89, 130, 63, 52, 102, 24, 229, 132, 245, 80, 216, 195, 115,
     90, 168, 156, 203, 177, 120, 2, 190, 188, 7, 100, 185, 174, 243, 162, 10,
     237, 18, 253, 225, 8, 208, 172, 244, 255, 126, 101, 79, 145, 235, 228, 121,
     123, 251, 67, 250, 161, 0, 107, 97, 241, 111, 181, 82, 249, 33, 69, 55,
     59, 153, 29, 9, 213, 167, 84, 93, 30, 46, 94, 75, 151, 114, 73, 222,
     197, 96, 210, 45, 16, 227, 248, 202, 51, 152, 252, 125, 81, 206, 215, 186,
     39, 158, 178, 187, 131, 136, 1, 49, 50, 17, 141, 91, 47, 129, 60, 99,
     154, 35, 86, 171, 105, 34, 38, 200, 147, 58, 77, 118, 173, 246, 76, 254,
     133, 232, 196, 144, 198, 124, 53, 4, 108, 74, 223, 234, 134, 230, 157, 139,
     189, 205, 199, 128, 176, 19, 211, 236, 127, 192, 231, 70, 233, 88, 146, 44,
     183, 201, 22, 83, 13, 214, 116, 109, 159, 32, 95, 226, 140, 220, 57, 12,
     221, 31, 209, 182, 143, 92, 149, 184, 148, 62, 113, 65, 37, 27, 106, 166,
     3, 14, 204, 72, 21, 41, 56, 66, 28, 193, 40, 217, 25, 54, 179, 117,
     238, 87, 240, 155, 180, 170, 242, 212, 191, 163, 78, 218, 137, 194, 175, 110,
     43, 119, 224, 71, 122, 142, 42, 160, 104, 48, 247, 103, 15, 11, 138, 239]"

unbundle bit_operations_syntax

fun pearson_loop :: "u8 \<Rightarrow> string \<Rightarrow> u8" where
  "pearson_loop h [] = h"
| "pearson_loop h (c # s) = pearson_loop (PEARSON_PERMUTATION_TABLE ! unat (h XOR of_char c)) s"

definition ov_hash_pearson_c_string :: "string option \<Rightarrow> u64" where
  "ov_hash_pearson_c_string c_string = (case c_string of None \<Rightarrow> 0 | Some s \<Rightarrow> ucast (pearson_loop 0 s))"

text \<open>A pointer as key: \<open>Some p\<close> is the pointer of the value \<open>p\<close>, NULL the value 0.\<close>

definition ov_hash_intptr :: "u64 option \<Rightarrow> u64" where
  "ov_hash_intptr intptr = (case intptr of None \<Rightarrow> 0 | Some p \<Rightarrow> p)"

text \<open>A pointer to a number.\<close>

definition ov_hash_uint64 :: "u64 option \<Rightarrow> u64" where
  "ov_hash_uint64 ptr = (case ptr of None \<Rightarrow> 0 | Some n \<Rightarrow> n)"

definition ov_match_c_string_strict :: "string option \<Rightarrow> string option \<Rightarrow> bool" where
  "ov_match_c_string_strict key s =
    (case (key, s) of (None, None) \<Rightarrow> True | (Some k, Some t) \<Rightarrow> k = t | _ \<Rightarrow> False)"

definition ov_match_intptr :: "u64 option \<Rightarrow> u64 option \<Rightarrow> bool" where
  "ov_match_intptr ptr1 ptr2 \<longleftrightarrow> ov_hash_intptr ptr1 = ov_hash_intptr ptr2"

definition ov_match_uint64 :: "u64 option \<Rightarrow> u64 option \<Rightarrow> bool" where
  "ov_match_uint64 ptr1 ptr2 = (case (ptr1, ptr2) of (Some a, Some b) \<Rightarrow> a = b | _ \<Rightarrow> False)"

subsection \<open>Dictionaries\<close>

record ('k, 'v) ov_dict_config =
  slots :: u64
  key_hash :: "('k option \<Rightarrow> u64) option"
  key_match :: "('k option \<Rightarrow> 'k option \<Rightarrow> bool) option"
  key_validate_input :: "('k option \<Rightarrow> bool) option"
  key_data_copy :: "('k \<Rightarrow> 'k option) option"
  key_data_dump :: bool
  value_validate_input :: "('v option \<Rightarrow> bool) option"
  value_data_copy :: "('v \<Rightarrow> 'v option) option"
  value_data_free :: bool

type_synonym ('k, 'v) dict_pair = "'k option \<times> 'v option"

record ('k, 'v) ov_dict =
  config :: "('k, 'v) ov_dict_config"
  items :: "('k, 'v) dict_pair list list"

definition ov_dict_config_is_valid :: "('k, 'v) ov_dict_config \<Rightarrow> bool" where
  "ov_dict_config_is_valid c \<longleftrightarrow> \<not> (slots c < 1 \<or> key_hash c = None \<or> key_match c = None)"

definition dict_calculate_slot :: "('k, 'v) ov_dict option \<Rightarrow> 'k option \<Rightarrow> nat option" where
  "dict_calculate_slot self key =
    (case self of
       None \<Rightarrow> None
     | Some d \<Rightarrow>
         if \<not> ov_dict_config_is_valid (config d) then None
         else Some (unat (the (key_hash (config d)) key mod slots (config d))))"

text \<open>
  One slot more than configured is allocated. The sum is in \<open>uint64_t\<close> and would wrap around for \<open>2 ^ 64 - 1\<close> slots alone, for which no memory
  could hold the slots; the model allocates them.
\<close>

definition ov_dict_create :: "('k, 'v) ov_dict_config \<Rightarrow> ('k, 'v) ov_dict option" where
  "ov_dict_create c =
    (if \<not> ov_dict_config_is_valid c then None
     else Some \<lparr>config = c, items = replicate (unat (slots c) + 1) []\<rparr>)"

text \<open>The pair with the key, in the chain behind the start pair.\<close>

fun scan_pairs :: "('k option \<Rightarrow> 'k option \<Rightarrow> bool) \<Rightarrow> 'k option \<Rightarrow> ('k, 'v) dict_pair list \<Rightarrow> ('k, 'v) dict_pair option" where
  "scan_pairs match key [] = None"
| "scan_pairs match key (p # ps) = (if match key (fst p) then Some p else scan_pairs match key ps)"

definition ov_dict_is_set :: "('k, 'v) ov_dict option \<Rightarrow> 'k option \<Rightarrow> bool" where
  "ov_dict_is_set self key =
    (case dict_calculate_slot self key of
       None \<Rightarrow> False
     | Some slot \<Rightarrow> scan_pairs (the (key_match (config (the self)))) key (items (the self) ! slot) \<noteq> None)"

definition impl_dict_get :: "('k, 'v) ov_dict option \<Rightarrow> 'k option \<Rightarrow> 'v option" where
  "impl_dict_get self key =
    (case dict_calculate_slot self key of
       None \<Rightarrow> None
     | Some slot \<Rightarrow>
         (case scan_pairs (the (key_match (config (the self)))) key (items (the self) ! slot) of
            None \<Rightarrow> None
          | Some pair \<Rightarrow> snd pair))"

definition freed :: "('k, 'v) ov_dict \<Rightarrow> 'v option \<Rightarrow> 'v list" where
  "freed d v = (if value_data_free (config d) then (case v of None \<Rightarrow> [] | Some x \<Rightarrow> [x]) else [])"

text \<open>The new chain, and the value of the pair that had the key.\<close>

fun set_pair ::
  "('k option \<Rightarrow> 'k option \<Rightarrow> bool) \<Rightarrow> 'k option \<Rightarrow> 'v option \<Rightarrow> ('k, 'v) dict_pair list \<Rightarrow> ('k, 'v) dict_pair list \<times> 'v option option" where
  "set_pair match key value [] = ([(key, value)], None)"
| "set_pair match key value (p # ps) =
    (if match key (fst p) then ((key, value) # ps, Some (snd p))
     else (case set_pair match key value ps of (ps', old) \<Rightarrow> (p # ps', old)))"

text \<open>\<open>replace\<close> tells if there is a place for the replaced value. The result is the dictionary, success, that value, and the freed values.\<close>

definition impl_dict_set ::
  "('k, 'v) ov_dict option \<Rightarrow> 'k option \<Rightarrow> 'v option \<Rightarrow> bool \<Rightarrow> ('k, 'v) ov_dict option \<times> bool \<times> 'v option \<times> 'v list" where
  "impl_dict_set self key value replace =
    (case self of
       None \<Rightarrow> (None, False, None, [])
     | Some d \<Rightarrow>
         if (case key_validate_input (config d) of None \<Rightarrow> False | Some f \<Rightarrow> \<not> f key) then (Some d, False, None, [])
         else if (case value_validate_input (config d) of None \<Rightarrow> False | Some f \<Rightarrow> \<not> f value) then (Some d, False, None, [])
         else (case dict_calculate_slot (Some d) key of
            None \<Rightarrow> (Some d, False, None, [])
          | Some slot \<Rightarrow>
              (case set_pair (the (key_match (config d))) key value (items d ! slot) of
                 (chain, old) \<Rightarrow>
                   (Some (d\<lparr>items := (items d)[slot := chain]\<rparr>), True,
                    if replace then Option.bind old id else None,
                    if replace then [] else freed d (Option.bind old id)))))"

fun remove_pair :: "('k option \<Rightarrow> 'k option \<Rightarrow> bool) \<Rightarrow> 'k option \<Rightarrow> ('k, 'v) dict_pair list \<Rightarrow> ('k, 'v) dict_pair list \<times> 'v option" where
  "remove_pair match key [] = ([], None)"
| "remove_pair match key (p # ps) =
    (if match key (fst p) then (ps, snd p)
     else (case remove_pair match key ps of (ps', value) \<Rightarrow> (p # ps', value)))"

definition impl_dict_remove :: "('k, 'v) ov_dict option \<Rightarrow> 'k option \<Rightarrow> ('k, 'v) ov_dict option \<times> 'v option" where
  "impl_dict_remove self key =
    (case dict_calculate_slot self key of
       None \<Rightarrow> (self, None)
     | Some slot \<Rightarrow>
         (case remove_pair (the (key_match (config (the self)))) key (items (the self) ! slot) of
            (chain, value) \<Rightarrow> (Some ((the self)\<lparr>items := (items (the self))[slot := chain]\<rparr>), value)))"

definition impl_dict_del :: "('k, 'v) ov_dict option \<Rightarrow> 'k option \<Rightarrow> ('k, 'v) ov_dict option \<times> bool \<times> 'v list" where
  "impl_dict_del self key =
    (case self of
       None \<Rightarrow> (None, False, [])
     | Some d \<Rightarrow> (case impl_dict_remove (Some d) key of (self', value) \<Rightarrow> (self', True, freed d value)))"

text \<open>The callback of an iteration works on the data behind its pointer, which is passed through; \<open>False\<close> ends the iteration.\<close>

fun for_each_pair ::
  "('k option \<Rightarrow> 'v option \<Rightarrow> 'a \<Rightarrow> 'a \<times> bool) \<Rightarrow> ('k, 'v) dict_pair list \<Rightarrow> 'a \<Rightarrow> 'a \<times> bool" where
  "for_each_pair function [] data = (data, True)"
| "for_each_pair function (p # ps) data =
    (case function (fst p) (snd p) data of (data', ok) \<Rightarrow> if ok then for_each_pair function ps data' else (data', False))"

fun for_each_slot ::
  "('k option \<Rightarrow> 'v option \<Rightarrow> 'a \<Rightarrow> 'a \<times> bool) \<Rightarrow> ('k, 'v) dict_pair list list \<Rightarrow> 'a \<Rightarrow> 'a \<times> bool" where
  "for_each_slot function [] data = (data, True)"
| "for_each_slot function (c # cs) data =
    (case for_each_pair function c data of (data', ok) \<Rightarrow> if ok then for_each_slot function cs data' else (data', False))"

definition impl_dict_for_each ::
  "('k, 'v) ov_dict option \<Rightarrow> 'a \<Rightarrow> ('k option \<Rightarrow> 'v option \<Rightarrow> 'a \<Rightarrow> 'a \<times> bool) option \<Rightarrow> 'a \<times> bool" where
  "impl_dict_for_each self data function =
    (case (self, function) of
       (Some d, Some f) \<Rightarrow> for_each_slot f (take (unat (slots (config d))) (items d)) data
     | _ \<Rightarrow> (data, False))"

definition count_keys :: "'k option \<Rightarrow> 'v option \<Rightarrow> int \<Rightarrow> int \<times> bool" where
  "count_keys key value counter =
    (if key = None then (counter, True) else if counter < 0 then (counter, False) else (counter + 1, True))"

definition ov_dict_count :: "('k, 'v) ov_dict option \<Rightarrow> int" where
  "ov_dict_count self =
    (case self of
       None \<Rightarrow> - 1
     | Some d \<Rightarrow> (case impl_dict_for_each (Some d) 0 (Some count_keys) of (counter, ok) \<Rightarrow> if ok then counter else - 1))"

definition key_is_empty :: "'k option \<Rightarrow> 'v option \<Rightarrow> unit \<Rightarrow> unit \<times> bool" where
  "key_is_empty key value data = (data, key = None)"

definition impl_dict_is_empty :: "('k, 'v) ov_dict option \<Rightarrow> bool" where
  "impl_dict_is_empty self =
    (case self of None \<Rightarrow> False | Some d \<Rightarrow> snd (impl_dict_for_each (Some d) () (Some key_is_empty)))"

definition impl_dict_clear :: "('k, 'v) ov_dict option \<Rightarrow> ('k, 'v) ov_dict option \<times> bool \<times> 'v list" where
  "impl_dict_clear self =
    (case self of
       None \<Rightarrow> (None, False, [])
     | Some d \<Rightarrow>
         let n = unat (slots (config d))
         in (Some (d\<lparr>items := replicate n [] @ drop n (items d)\<rparr>), True,
             concat (map (\<lambda>p. freed d (snd p)) (concat (take n (items d))))))"

definition impl_dict_free :: "('k, 'v) ov_dict option \<Rightarrow> ('k, 'v) ov_dict option \<times> 'v list" where
  "impl_dict_free self =
    (case self of
       None \<Rightarrow> (None, [])
     | Some d \<Rightarrow> (case impl_dict_clear (Some d) of (self', ok, vs) \<Rightarrow> if ok then (None, vs) else (self', vs)))"

definition check_value_at_key :: "'v \<Rightarrow> 'k option \<Rightarrow> 'v option \<Rightarrow> 'k list \<Rightarrow> 'k list \<times> bool" where
  "check_value_at_key val key value keys =
    (case (key, value) of (Some k, Some v) \<Rightarrow> (if v = val then keys @ [k] else keys, True) | _ \<Rightarrow> (keys, True))"

definition key_collector :: "'k option \<Rightarrow> 'v option \<Rightarrow> 'k list \<Rightarrow> 'k list \<times> bool" where
  "key_collector key value keys = (case (key, value) of (Some k, Some v) \<Rightarrow> (keys @ [k], True) | _ \<Rightarrow> (keys, True))"

definition impl_dict_get_keys :: "('k, 'v) ov_dict option \<Rightarrow> 'v option \<Rightarrow> 'k list option" where
  "impl_dict_get_keys self val =
    (case self of
       None \<Rightarrow> None
     | Some d \<Rightarrow>
         (case impl_dict_for_each (Some d) [] (Some (case val of None \<Rightarrow> key_collector | Some v \<Rightarrow> check_value_at_key v)) of
            (keys, ok) \<Rightarrow> if ok then Some keys else None))"

subsection \<open>Default configurations\<close>

definition IMPL_DEFAULT_SLOTS :: u64 where
  "IMPL_DEFAULT_SLOTS = 100"

text \<open>A fresh configuration has no functions for its values.\<close>

definition ov_dict_string_key_config :: "u64 \<Rightarrow> (string, 'v) ov_dict_config" where
  "ov_dict_string_key_config n =
    \<lparr>slots = (if n = 0 then IMPL_DEFAULT_SLOTS else n), key_hash = Some ov_hash_pearson_c_string, key_match = Some ov_match_c_string_strict,
     key_validate_input = None, key_data_copy = Some Some, key_data_dump = True,
     value_validate_input = None, value_data_copy = None, value_data_free = False\<rparr>"

definition ov_dict_intptr_key_config :: "u64 \<Rightarrow> (u64, 'v) ov_dict_config" where
  "ov_dict_intptr_key_config n =
    \<lparr>slots = (if n = 0 then IMPL_DEFAULT_SLOTS else n), key_hash = Some ov_hash_intptr, key_match = Some ov_match_intptr,
     key_validate_input = None, key_data_copy = None, key_data_dump = True,
     value_validate_input = None, value_data_copy = None, value_data_free = False\<rparr>"

definition ov_dict_uint64_key_config :: "u64 \<Rightarrow> (u64, 'v) ov_dict_config" where
  "ov_dict_uint64_key_config n =
    \<lparr>slots = (if n = 0 then IMPL_DEFAULT_SLOTS else n), key_hash = Some ov_hash_uint64, key_match = Some ov_match_uint64,
     key_validate_input = None, key_data_copy = Some Some, key_data_dump = True,
     value_validate_input = None, value_data_copy = None, value_data_free = False\<rparr>"

subsection \<open>Copies\<close>

text \<open>
  The state of the iteration is the copy and the values that were freed. \<open>None\<close>: without a dump function the C code jumps over the
  declaration of its two pointers and tests them unset.
\<close>

definition copy_dict_content :: "'k option \<Rightarrow> 'v option \<Rightarrow> (('k, 'v) ov_dict \<times> 'v list) option \<Rightarrow> (('k, 'v) ov_dict \<times> 'v list) option \<times> bool" where
  "copy_dict_content key value data =
    (case data of
       None \<Rightarrow> (None, False)
     | Some (dict, fs) \<Rightarrow>
         (case key of
            None \<Rightarrow> (data, True)
          | Some key' \<Rightarrow>
              if \<not> key_data_dump (config dict) \<or> value_data_copy (config dict) = None then (None, False)
              else (case the (key_data_copy (config dict)) key' of
                 None \<Rightarrow> (data, False)
               | Some k \<Rightarrow>
                   (case (case value of None \<Rightarrow> Some None | Some x \<Rightarrow> map_option Some (the (value_data_copy (config dict)) x)) of
                      None \<Rightarrow> (data, False)
                    | Some v \<Rightarrow>
                        (case impl_dict_set (Some dict) (Some k) v False of
                           (self', ok, replaced, vs) \<Rightarrow>
                             if ok then (Some (the self', fs @ vs), True) else (Some (dict, fs @ freed dict v), False))))))"

text \<open>The destination after the call, the result, and the freed values. The iteration reads the functions of the original.\<close>

definition ov_dict_copy ::
  "('k, 'v) ov_dict option option \<Rightarrow> ('k, 'v) ov_dict option \<Rightarrow> (('k, 'v) ov_dict option option \<times> bool \<times> 'v list) option" where
  "ov_dict_copy destination data =
    (case (data, destination) of
       (Some dict, Some dest) \<Rightarrow>
         if \<not> ov_dict_config_is_valid (config dict) \<or> key_data_copy (config dict) = None \<or> value_data_copy (config dict) = None
         then Some (destination, False, [])
         else (let created = (dest = None);
                   target = (case dest of None \<Rightarrow> the (ov_dict_create (config dict)) | Some t \<Rightarrow> t)
               in (case impl_dict_clear (Some target) of (self', ok, vs) \<Rightarrow>
                 (let copy = (the self')\<lparr>config := (config dict)\<lparr>slots := slots (config target)\<rparr>\<rparr>
                  in (case impl_dict_for_each (Some dict) (Some (copy, vs)) (Some copy_dict_content) of
                      (None, _) \<Rightarrow> None
                    | (Some (copy', fs), ok) \<Rightarrow>
                        if ok then Some (Some (Some copy'), True, fs)
                        else if created then (case impl_dict_free (Some copy') of (self'', ws) \<Rightarrow> Some (Some None, False, fs @ ws))
                        else Some (Some (Some copy'), False, fs)))))
     | _ \<Rightarrow> Some (destination, False, []))"

definition dict_load_factor :: "('k, 'v) ov_dict option \<Rightarrow> nat list option" where
  "dict_load_factor dict =
    (case dict of
       None \<Rightarrow> None
     | Some d \<Rightarrow> Some (map (\<lambda>chain. length (filter (\<lambda>p. fst p \<noteq> None) chain)) (take (unat (slots (config d))) (items d))))"

subsection \<open>Dictionaries as maps\<close>

definition slot_of :: "('k, 'v) ov_dict_config \<Rightarrow> 'k option \<Rightarrow> nat" where
  "slot_of c k = unat (the (key_hash c) k mod slots c)"

text \<open>Every pair is in the slot of its key, and no key occurs twice. \<open>ok\<close> is a property that all keys have.\<close>

definition dict_inv :: "('k option \<Rightarrow> bool) \<Rightarrow> ('k, 'v) ov_dict \<Rightarrow> bool" where
  "dict_inv ok d \<longleftrightarrow> length (items d) = unat (slots (config d)) + 1 \<and> items d ! unat (slots (config d)) = [] \<and>
    (\<forall>i < length (items d). distinct (map fst (items d ! i)) \<and>
      (\<forall>p \<in> set (items d ! i). slot_of (config d) (fst p) = i \<and> ok (fst p)))"

definition dict_map :: "('k, 'v) ov_dict \<Rightarrow> 'k option \<rightharpoonup> 'v option" where
  "dict_map d k = map_of (items d ! slot_of (config d) k) k"

text \<open>All pairs in the order of an iteration, and what the operations do with them: the pairs are in the order of their slots, and those of one slot in the order in which their keys came.\<close>

definition dict_entries :: "('k, 'v) ov_dict \<Rightarrow> ('k, 'v) dict_pair list" where
  "dict_entries d = concat (items d)"

fun put :: "('k \<Rightarrow> nat) \<Rightarrow> 'k \<Rightarrow> 'v \<Rightarrow> ('k \<times> 'v) list \<Rightarrow> ('k \<times> 'v) list" where
  "put slot k v [] = [(k, v)]"
| "put slot k v (p # ps) =
    (if fst p = k then (k, v) # ps else if slot k < slot (fst p) then (k, v) # p # ps else p # put slot k v ps)"

definition drop_key :: "'k \<Rightarrow> ('k \<times> 'v) list \<Rightarrow> ('k \<times> 'v) list" where
  "drop_key k ps = filter (\<lambda>p. fst p \<noteq> k) ps"

definition in_slots :: "('k \<Rightarrow> nat) \<Rightarrow> ('k \<times> 'v) list \<Rightarrow> bool" where
  "in_slots slot ps \<longleftrightarrow> sorted (map (slot \<circ> fst) ps) \<and> distinct (map fst ps)"

lemma in_slots_simps [simp]:
  "in_slots slot []"
  "in_slots slot (p # ps) \<longleftrightarrow> (\<forall>q \<in> set ps. slot (fst p) \<le> slot (fst q)) \<and> fst p \<notin> fst ` set ps \<and> in_slots slot ps"
  by (auto simp: in_slots_def)

lemma put_keys: "fst ` set (put slot k v ps) = insert k (fst ` set ps)"
  by (induction ps) auto

lemma put_slots: "in_slots slot ps \<Longrightarrow> in_slots slot (put slot k v ps)"
proof (induction ps)
  case (Cons p ps)
  have "\<forall>q \<in> set (put slot k v ps). slot (fst p) \<le> slot (fst q)" if "\<not> slot k < slot (fst p)"
  proof
    fix q assume "q \<in> set (put slot k v ps)"
    then have "fst q \<in> insert k (fst ` set ps)" using put_keys [of slot k v ps] by blast
    with that Cons.prems show "slot (fst p) \<le> slot (fst q)" by auto
  qed
  with Cons show ?case by (auto simp: put_keys)
qed simp

lemma map_of_put: "in_slots slot ps \<Longrightarrow> map_of (put slot k v ps) = (map_of ps)(k \<mapsto> v)"
proof (induction ps)
  case (Cons p ps)
  have "map_of ps k = None" if "slot k < slot (fst p)"
    using that Cons.prems by (force simp: map_of_eq_None_iff)
  with Cons show ?case by (cases p) (auto simp: fun_upd_twist)
qed auto

lemma drop_key_simps [simp]: "drop_key k [] = []" "drop_key k (p # ps) = (if fst p = k then drop_key k ps else p # drop_key k ps)"
  by (auto simp: drop_key_def)

lemma drop_key_append: "drop_key k (xs @ ys) = drop_key k xs @ drop_key k ys"
  by (simp add: drop_key_def)

lemma drop_key_absent: "k \<notin> fst ` set ps \<Longrightarrow> drop_key k ps = ps"
  by (induction ps) auto

lemma drop_key_keys: "fst ` set (drop_key k ps) = fst ` set ps - {k}"
  by (auto simp: drop_key_def)

lemma drop_key_slots: "in_slots slot ps \<Longrightarrow> in_slots slot (drop_key k ps)"
  by (induction ps) (auto simp: drop_key_def)

lemma map_of_drop_key: "map_of (drop_key k ps) = (map_of ps)(k := None)"
  by (induction ps) (auto simp: drop_key_def)

lemma put_last: "\<forall>p \<in> set ps. slot (fst p) \<le> slot k \<and> fst p \<noteq> k \<Longrightarrow> put slot k v ps = ps @ [(k, v)]"
  by (induction ps) auto

lemmas slot_lists = put_slots map_of_put put_keys drop_key_slots map_of_drop_key drop_key_keys

text \<open>The chain of a slot in the pairs of all slots.\<close>

lemma put_append_before: "\<forall>p \<in> set xs. slot (fst p) < slot k \<Longrightarrow> put slot k v (xs @ ys) = xs @ put slot k v ys"
  by (induction xs) auto

lemma put_append_after: "\<forall>p \<in> set ys. slot k < slot (fst p) \<Longrightarrow> \<forall>p \<in> set xs. slot (fst p) = slot k \<Longrightarrow> put slot k v (xs @ ys) = put slot k v xs @ ys"
proof (induction xs)
  case Nil
  then show ?case by (cases ys) auto
qed auto

lemma concat_update: "i < length xs \<Longrightarrow> concat (xs[i := c]) = concat (take i xs) @ c @ concat (drop (Suc i) xs)"
  by (simp add: upd_conv_take_nth_drop)

lemma concat_split: "i < length xs \<Longrightarrow> concat xs = concat (take i xs) @ xs ! i @ concat (drop (Suc i) xs)"
  using concat_update [of i xs "xs ! i"] by simp

lemma slot_of_less: "ov_dict_config_is_valid c \<Longrightarrow> slot_of c k < unat (slots c)"
  by (auto simp: ov_dict_config_is_valid_def slot_of_def unat_mod_distrib unat_gt_0)

lemma dict_invD:
  assumes "dict_inv ok d" "i < length (items d)"
  shows "distinct (map fst (items d ! i))" "p \<in> set (items d ! i) \<Longrightarrow> slot_of (config d) (fst p) = i"
    "p \<in> set (items d ! i) \<Longrightarrow> ok (fst p)"
  using assms by (auto simp: dict_inv_def)

lemma entries_before:
  assumes "dict_inv ok d" "p \<in> set (concat (take i (items d)))" "i < length (items d)"
  shows "slot_of (config d) (fst p) < i \<and> ok (fst p)"
proof -
  from assms(2,3) obtain j where "j < i" "p \<in> set (items d ! j)" by (auto simp: in_set_conv_nth [of _ "take i (items d)"])
  with dict_invD [OF assms(1), of j] assms(3) show ?thesis by simp
qed

lemma entries_behind:
  assumes "dict_inv ok d" "p \<in> set (concat (drop (Suc i) (items d)))"
  shows "i < slot_of (config d) (fst p) \<and> ok (fst p)"
proof -
  from assms obtain j where "i < j" "j < length (items d)" "p \<in> set (items d ! j)"
    by (auto simp: in_set_conv_nth [of _ "drop (Suc i) (items d)"]) (metis add_Suc less_add_Suc1 less_diff_conv add.commute)
  with dict_invD [OF assms(1), of j] show ?thesis by simp
qed

lemma entries_ok: "dict_inv ok d \<Longrightarrow> p \<in> set (dict_entries d) \<Longrightarrow> ok (fst p)"
  by (auto simp: dict_entries_def in_set_conv_nth) (metis dict_invD(3) fst_conv nth_mem)

lemma slots_chain: "distinct (map fst ps) \<Longrightarrow> \<forall>p \<in> set ps. slot (fst p) = i \<Longrightarrow> in_slots slot ps"
  by (induction ps) (auto simp: image_iff)

lemma in_slots_append: "in_slots slot (xs @ ys) \<longleftrightarrow> in_slots slot xs \<and> in_slots slot ys \<and> (\<forall>p \<in> set xs. \<forall>q \<in> set ys. slot (fst p) \<le> slot (fst q) \<and> fst p \<noteq> fst q)"
  by (induction xs) (auto simp: image_iff)

lemma slots_concat:
  assumes "dict_inv ok d" "n \<le> length (items d)"
  shows "in_slots (slot_of (config d)) (concat (take n (items d)))"
  using assms(2)
proof (induction n)
  case (Suc n)
  let ?s = "slot_of (config d)"
  have "in_slots ?s (items d ! n)" using Suc.prems dict_invD [OF assms(1), of n] by (intro slots_chain) auto
  moreover have "\<forall>p \<in> set (concat (take n (items d))). \<forall>q \<in> set (items d ! n). ?s (fst p) < ?s (fst q)"
    using Suc.prems entries_before [OF assms(1), of _ n] dict_invD(2) [OF assms(1), of n] by auto
  ultimately show ?case using Suc by (fastforce simp: take_Suc_conv_app_nth in_slots_append)
qed simp

lemma entries_slots: "dict_inv ok d \<Longrightarrow> in_slots (slot_of (config d)) (dict_entries d)"
  using slots_concat [of ok d "length (items d)"] by (simp add: dict_entries_def)

lemma dict_map_entries:
  assumes "dict_inv ok d" "ov_dict_config_is_valid (config d)"
  shows "map_of (dict_entries d) k = dict_map d k"
proof -
  let ?i = "slot_of (config d) k"
  have i: "?i < length (items d)" using assms slot_of_less [of "config d" k] by (simp add: dict_inv_def)
  have "map_of (concat (take ?i (items d))) k = None" "map_of (concat (drop (Suc ?i) (items d))) k = None"
    using entries_before [OF assms(1) _ i] entries_behind [OF assms(1), of _ ?i]
    by (force simp del: set_concat simp: map_of_eq_None_iff)+
  then show ?thesis unfolding dict_entries_def concat_split [OF i] by (simp add: dict_map_def map_add_def split: option.splits)
qed

lemma dict_inv_update:
  assumes "dict_inv ok d" "i < unat (slots (config d))" "distinct (map fst ps)" "\<forall>p \<in> set ps. slot_of (config d) (fst p) = i \<and> ok (fst p)"
  shows "dict_inv ok (d\<lparr>items := (items d)[i := ps]\<rparr>)"
  using assms by (auto simp: dict_inv_def nth_list_update)

lemma for_each_append:
  "for_each_pair f (xs @ ys) a = (case for_each_pair f xs a of (a', ok) \<Rightarrow> if ok then for_each_pair f ys a' else (a', False))"
  by (induction xs arbitrary: a) (auto split: prod.splits)

lemma for_each_slot_eq: "for_each_slot f cs a = for_each_pair f (concat cs) a"
  by (induction cs arbitrary: a) (auto simp: for_each_append split: prod.splits)

lemma entries_take: "dict_inv ok d \<Longrightarrow> concat (take (unat (slots (config d))) (items d)) = dict_entries d"
  by (simp add: dict_inv_def dict_entries_def concat_split [of "unat (slots (config d))" "items d"])

lemma dict_for_each_eq: "dict_inv ok d \<Longrightarrow> impl_dict_for_each (Some d) a (Some f) = for_each_pair f (dict_entries d) a"
  by (simp add: impl_dict_for_each_def for_each_slot_eq entries_take)

lemma dict_create_eq:
  "ov_dict_config_is_valid c \<Longrightarrow> \<exists>d. ov_dict_create c = Some d \<and> config d = c \<and> dict_inv ok d \<and> dict_entries d = []"
  by (simp add: ov_dict_create_def dict_inv_def dict_entries_def nth_append del: replicate_Suc)

lemma dict_clear_eq:
  assumes "dict_inv ok d"
  shows "\<exists>d'. impl_dict_clear (Some d) = (Some d', True, concat (map (\<lambda>p. freed d (snd p)) (dict_entries d))) \<and>
    config d' = config d \<and> dict_inv ok d' \<and> dict_entries d' = []"
proof -
  let ?n = "unat (slots (config d))"
  have "drop ?n (items d) = [[]]" using assms Cons_nth_drop_Suc [of ?n "items d"] by (simp add: dict_inv_def)
  moreover have "concat (take ?n (items d)) = dict_entries d" by (rule entries_take [OF assms])
  ultimately show ?thesis by (simp add: impl_dict_clear_def Let_def dict_inv_def dict_entries_def nth_append)
qed

text \<open>
  What a dictionary needs of its configuration, for the keys that are used with it: two of them match if and only if they are equal, and
  they pass the validation.
\<close>

locale dict_keys =
  fixes c :: "('k, 'v) ov_dict_config" and ok :: "'k option \<Rightarrow> bool"
  assumes valid: "ov_dict_config_is_valid c"
    and match_eq: "ok a \<Longrightarrow> ok b \<Longrightarrow> the (key_match c) a b \<longleftrightarrow> a = b"
    and keys_pass: "ok a \<Longrightarrow> (case key_validate_input c of None \<Rightarrow> True | Some f \<Rightarrow> f a)"
    and values_pass: "value_validate_input c = None"
begin

lemma calculate_slot_eq: "config d = c \<Longrightarrow> dict_calculate_slot (Some d) k = Some (slot_of c k)"
  by (simp add: dict_calculate_slot_def valid slot_of_def)

lemma slot_less: "config d = c \<Longrightarrow> dict_inv ok d \<Longrightarrow> slot_of c k < length (items d)"
  using slot_of_less [OF valid, of k] by (simp add: dict_inv_def)

lemma scan_pairs_eq: "ok k \<Longrightarrow> \<forall>p \<in> set ps. ok (fst p) \<Longrightarrow> map_option snd (scan_pairs (the (key_match c)) k ps) = map_of ps k"
  by (induction ps) (auto simp: match_eq)

lemma set_pair_eq:
  "ok k \<Longrightarrow> \<forall>p \<in> set ps. ok (fst p) \<and> slot (fst p) = slot k \<Longrightarrow> set_pair (the (key_match c)) k v ps = (put slot k v ps, map_of ps k)"
  by (induction ps) (auto simp: match_eq)

lemma remove_pair_eq:
  "ok k \<Longrightarrow> \<forall>p \<in> set ps. ok (fst p) \<Longrightarrow> distinct (map fst ps) \<Longrightarrow>
    remove_pair (the (key_match c)) k ps = (drop_key k ps, Option.bind (map_of ps k) id)"
  by (induction ps) (auto simp: match_eq drop_key_absent)

lemma chain_ok: "config d = c \<Longrightarrow> dict_inv ok d \<Longrightarrow> p \<in> set (items d ! slot_of c k) \<Longrightarrow> ok (fst p) \<and> slot_of c (fst p) = slot_of c k"
  using dict_invD [of ok d "slot_of c k"] slot_less [of d k] by auto

lemma get_eq:
  assumes "config d = c" "dict_inv ok d" "ok k"
  shows "impl_dict_get (Some d) k = Option.bind (dict_map d k) id" "ov_dict_is_set (Some d) k \<longleftrightarrow> dict_map d k \<noteq> None"
  using scan_pairs_eq [OF assms(3), of "items d ! slot_of c k", symmetric] chain_ok [OF assms(1,2)] assms(1)
  by (auto simp: impl_dict_get_def ov_dict_is_set_def calculate_slot_eq dict_map_def split: option.splits)

lemma set_eq:
  assumes d: "config d = c" "dict_inv ok d" and k: "ok k"
  defines "old \<equiv> Option.bind (dict_map d k) id"
  shows "\<exists>d'. impl_dict_set (Some d) k v r = (Some d', True, if r then old else None, if r then [] else freed d old) \<and>
    config d' = c \<and> dict_inv ok d' \<and> dict_entries d' = put (slot_of c) k v (dict_entries d)"
proof -
  let ?i = "slot_of c k"
  let ?ps = "items d ! ?i"
  let ?d = "d\<lparr>items := (items d)[?i := put (slot_of c) k v ?ps]\<rparr>"
  have i: "?i < length (items d)" by (rule slot_less [OF d])
  have ps: "\<forall>p \<in> set ?ps. ok (fst p) \<and> slot_of c (fst p) = ?i" using chain_ok [OF d] by blast
  have "in_slots (slot_of c) (put (slot_of c) k v ?ps)"
    using ps dict_invD(1) [OF d(2) i] by (intro put_slots slots_chain) auto
  moreover have "\<forall>p \<in> set (put (slot_of c) k v ?ps). slot_of c (fst p) = ?i \<and> ok (fst p)"
  proof
    fix p assume "p \<in> set (put (slot_of c) k v ?ps)"
    then have "fst p \<in> insert k (fst ` set ?ps)" using put_keys [of "slot_of c" k v ?ps] by blast
    with ps k show "slot_of c (fst p) = ?i \<and> ok (fst p)" by auto
  qed
  ultimately have inv: "dict_inv ok ?d"
    using d slot_of_less [OF valid, of k] by (intro dict_inv_update) (auto simp: in_slots_def)
  have "dict_entries ?d = put (slot_of c) k v (dict_entries d)"
    using ps entries_before [OF d(2) _ i] entries_behind [OF d(2), of _ ?i] d(1)
    by (simp add: dict_entries_def concat_update [OF i] concat_split [OF i] put_append_before put_append_after del: set_concat)
  moreover have "impl_dict_set (Some d) k v r = (Some ?d, True, if r then old else None, if r then [] else freed d old)"
    using d(1) keys_pass [OF k] values_pass set_pair_eq [OF k ps, of v]
    by (auto simp: impl_dict_set_def calculate_slot_eq old_def dict_map_def split: option.splits)
  ultimately show ?thesis using inv d(1) by auto
qed

lemma remove_eq:
  assumes d: "config d = c" "dict_inv ok d" and k: "ok k"
  defines "old \<equiv> Option.bind (dict_map d k) id"
  shows "\<exists>d'. impl_dict_remove (Some d) k = (Some d', old) \<and> impl_dict_del (Some d) k = (Some d', True, freed d old) \<and>
    config d' = c \<and> dict_inv ok d' \<and> dict_entries d' = drop_key k (dict_entries d)"
proof -
  let ?i = "slot_of c k"
  let ?ps = "items d ! ?i"
  let ?d = "d\<lparr>items := (items d)[?i := drop_key k ?ps]\<rparr>"
  have i: "?i < length (items d)" by (rule slot_less [OF d])
  have ps: "\<forall>p \<in> set ?ps. ok (fst p)" "\<forall>p \<in> set ?ps. slot_of c (fst p) = ?i" using chain_ok [OF d] by blast+
  have "dict_inv ok ?d"
    using d slot_of_less [OF valid, of k] ps dict_invD(1) [OF d(2) i]
    by (intro dict_inv_update) (auto simp: drop_key_def distinct_map_filter)
  moreover have "k \<notin> fst ` set (concat (take ?i (items d)))" "k \<notin> fst ` set (concat (drop (Suc ?i) (items d)))"
    using entries_before [OF d(2) _ i] entries_behind [OF d(2), of _ ?i] d(1) by (force simp del: set_concat)+
  then have "dict_entries ?d = drop_key k (dict_entries d)"
    by (simp add: dict_entries_def concat_update [OF i] concat_split [OF i] drop_key_append drop_key_absent del: set_concat)
  moreover have "impl_dict_remove (Some d) k = (Some ?d, old)"
    using d(1) remove_pair_eq [OF k ps(1) dict_invD(1) [OF d(2) i]]
    by (simp add: impl_dict_remove_def calculate_slot_eq old_def dict_map_def)
  ultimately show ?thesis using d(1) by (auto simp: impl_dict_del_def)
qed

end

lemma count_pairs: "0 \<le> n \<Longrightarrow> for_each_pair count_keys ps n = (n + int (length (filter (\<lambda>p. fst p \<noteq> None) ps)), True)"
  by (induction ps arbitrary: n) (auto simp: count_keys_def)

lemma empty_pairs: "for_each_pair key_is_empty ps () = ((), \<forall>p \<in> set ps. fst p = None)"
  by (induction ps) (auto simp: key_is_empty_def)

lemma collect_pairs:
  "for_each_pair key_collector ps ks = (ks @ [k. (Some k, Some v) \<leftarrow> ps], True)"
  "for_each_pair (check_value_at_key val) ps ks = (ks @ [k. (Some k, Some v) \<leftarrow> ps, v = val], True)"
  by (induction ps arbitrary: ks) (auto simp: key_collector_def check_value_at_key_def split: option.splits)

lemma count_eq:
  assumes "dict_inv ok d" "ov_dict_config_is_valid (config d)"
  shows "ov_dict_count (Some d) = int (card {k. Some k \<in> dom (dict_map d)})"
    "impl_dict_is_empty (Some d) \<longleftrightarrow> (\<forall>k. dict_map d (Some k) = None)"
proof -
  have m: "dict_map d = map_of (dict_entries d)" using dict_map_entries [OF assms] by (rule ext [OF sym])
  have ds: "distinct (map fst (filter (\<lambda>p. fst p \<noteq> None) (dict_entries d)))"
    using entries_slots [OF assms(1)] by (simp add: in_slots_def distinct_map_filter)
  have "length (filter (\<lambda>p. fst p \<noteq> None) (dict_entries d)) = card (fst ` set (filter (\<lambda>p. fst p \<noteq> None) (dict_entries d)))"
    using distinct_card [OF ds] by simp
  also have "fst ` set (filter (\<lambda>p. fst p \<noteq> None) (dict_entries d)) = Some ` {k. Some k \<in> dom (dict_map d)}"
    by (force simp: m dom_map_of_conv_image_fst)
  finally show "ov_dict_count (Some d) = int (card {k. Some k \<in> dom (dict_map d)})"
    by (simp add: ov_dict_count_def dict_for_each_eq [OF assms(1)] count_pairs card_image)
  show "impl_dict_is_empty (Some d) \<longleftrightarrow> (\<forall>k. dict_map d (Some k) = None)"
    by (auto simp: impl_dict_is_empty_def dict_for_each_eq [OF assms(1)] empty_pairs m map_of_eq_None_iff image_iff) (metis fst_conv not_None_eq)
qed

subsection \<open>Sequences of operations\<close>

datatype ('k, 'v) dict_op = Set "'k option" "'v option" bool | Del "'k option" | Remove "'k option" | Clear

text \<open>The values that are given back, one for each operation, and those that are freed.\<close>

fun dict_run :: "('k, 'v) ov_dict option \<Rightarrow> ('k, 'v) dict_op list \<Rightarrow> ('k, 'v) ov_dict option \<times> 'v option list \<times> 'v list" where
  "dict_run self [] = (self, [], [])"
| "dict_run self (op # ops) =
    (case (case op of
         Set k v r \<Rightarrow> (case impl_dict_set self k v r of (self', ok, old, fs) \<Rightarrow> (self', old, fs))
       | Del k \<Rightarrow> (case impl_dict_del self k of (self', ok, fs) \<Rightarrow> (self', None, fs))
       | Remove k \<Rightarrow> (case impl_dict_remove self k of (self', old) \<Rightarrow> (self', old, []))
       | Clear \<Rightarrow> (case impl_dict_clear self of (self', ok, fs) \<Rightarrow> (self', None, fs))) of
       (self', old, fs) \<Rightarrow> (case dict_run self' ops of (s, out, gs) \<Rightarrow> (s, old # out, fs @ gs)))"

fun map_run :: "('k option \<rightharpoonup> 'v option) \<Rightarrow> ('k, 'v) dict_op list \<Rightarrow> ('k option \<rightharpoonup> 'v option) \<times> 'v option list" where
  "map_run m [] = (m, [])"
| "map_run m (op # ops) =
    (case (case op of
         Set k v r \<Rightarrow> (m(k \<mapsto> v), if r then Option.bind (m k) id else None)
       | Del k \<Rightarrow> (m(k := None), None)
       | Remove k \<Rightarrow> (m(k := None), Option.bind (m k) id)
       | Clear \<Rightarrow> (Map.empty, None)) of
       (m', old) \<Rightarrow> (case map_run m' ops of (m'', out) \<Rightarrow> (m'', old # out)))"

fun op_keys :: "('k, 'v) dict_op \<Rightarrow> 'k option set" where
  "op_keys (Set k v r) = {k}"
| "op_keys (Del k) = {k}"
| "op_keys (Remove k) = {k}"
| "op_keys Clear = {}"

fun op_value :: "('k, 'v) dict_op \<Rightarrow> 'v option" where
  "op_value (Set k v r) = v"
| "op_value _ = None"

text \<open>The values that are not NULL.\<close>

definition val_of :: "'v option \<Rightarrow> 'v multiset" where
  "val_of v = (case v of None \<Rightarrow> {#} | Some x \<Rightarrow> {#x#})"

fun vals :: "'v option list \<Rightarrow> 'v multiset" where
  "vals [] = {#}"
| "vals (v # vs) = val_of v + vals vs"

lemma val_of_simps [simp]: "val_of None = {#}" "val_of (Some x) = {#x#}"
  by (auto simp: val_of_def)

lemma vals_put: "in_slots slot ps \<Longrightarrow> vals (map snd (put slot k v ps)) + val_of (Option.bind (map_of ps k) id) = vals (map snd ps) + val_of v"
proof (induction ps)
  case (Cons p ps)
  have "map_of ps k = None" if "slot k < slot (fst p)" using that Cons.prems by (force simp: map_of_eq_None_iff)
  with Cons show ?case by (cases p) (auto simp: ac_simps)
qed simp

lemma vals_drop: "distinct (map fst ps) \<Longrightarrow> vals (map snd (drop_key k ps)) + val_of (Option.bind (map_of ps k) id) = vals (map snd ps)"
  by (induction ps) (auto simp: ac_simps drop_key_absent)

lemma vals_freed: "value_data_free (config d) \<Longrightarrow> mset (freed d v) = val_of v"
  by (cases v) (auto simp: freed_def)

lemma vals_freed_all: "value_data_free (config d) \<Longrightarrow> mset (concat (map (\<lambda>p. freed d (snd p)) ps)) = vals (map snd ps)"
  by (induction ps) (auto simp: vals_freed)

context dict_keys
begin

lemma dict_run_correct:
  assumes "config d = c" "dict_inv ok d" "\<forall>op \<in> set ops. \<forall>k \<in> op_keys op. ok k" "map_run (dict_map d) ops = (m, out)"
  shows "\<exists>d' fs. dict_run (Some d) ops = (Some d', out, fs) \<and> config d' = c \<and> dict_inv ok d' \<and> dict_map d' = m \<and>
    (value_data_free c \<longrightarrow> mset fs + vals out + vals (map snd (dict_entries d')) = vals (map snd (dict_entries d)) + vals (map op_value ops))"
  using assms
proof (induction ops arbitrary: d m out)
  case (Cons op ops)
  note d = Cons.prems(1,2)
  have m: "dict_map d' = map_of (dict_entries d')" if "config d' = c" "dict_inv ok d'" for d'
    using dict_map_entries [OF that(2)] that(1) valid by (auto simp: fun_eq_iff)
  have es: "in_slots (slot_of c) (dict_entries d)" using entries_slots [OF d(2)] d(1) by simp
  have ex: "\<exists>d1 old fs. dict_run (Some d) [op] = (Some d1, [old], fs) \<and> config d1 = c \<and> dict_inv ok d1 \<and> map_run (dict_map d) [op] = (dict_map d1, [old]) \<and>
    (value_data_free c \<longrightarrow> mset fs + val_of old + vals (map snd (dict_entries d1)) = vals (map snd (dict_entries d)) + val_of (op_value op))"
  proof (cases op)
    case (Set k v r)
    then have "ok k" using Cons.prems(3) by simp
    from set_eq [OF d this, of v r] vals_put [OF es, of k v] es d(1) show ?thesis
      by (auto simp: Set m d map_of_put vals_freed ac_simps)
  next
    case (Del k)
    then have "ok k" using Cons.prems(3) by simp
    from remove_eq [OF d this] vals_drop [of "dict_entries d" k] es d(1) show ?thesis
      by (auto simp: Del m d map_of_drop_key vals_freed in_slots_def ac_simps)
  next
    case (Remove k)
    then have "ok k" using Cons.prems(3) by simp
    from remove_eq [OF d this] vals_drop [of "dict_entries d" k] es d(1) show ?thesis
      by (auto simp: Remove m d map_of_drop_key in_slots_def ac_simps)
  next
    case Clear
    from dict_clear_eq [OF d(2)] d(1) show ?thesis by (auto simp: Clear m d vals_freed_all)
  qed
  then obtain d1 old fs where one: "dict_run (Some d) [op] = (Some d1, [old], fs)" "config d1 = c" "dict_inv ok d1"
    "map_run (dict_map d) [op] = (dict_map d1, [old])"
    "value_data_free c \<Longrightarrow> mset fs + val_of old + vals (map snd (dict_entries d1)) = vals (map snd (dict_entries d)) + val_of (op_value op)" by blast
  obtain m' out' where rest: "map_run (dict_map d1) ops = (m', out')" by fastforce
  with one(4) Cons.prems(4) have "m' = m" "out = old # out'" by (auto split: prod.splits)
  moreover from Cons.IH [OF one(2,3) _ rest] Cons.prems(3) obtain d' gs where
    two: "dict_run (Some d1) ops = (Some d', out', gs)" "config d' = c" "dict_inv ok d'" "dict_map d' = m'"
    "value_data_free c \<longrightarrow> mset gs + vals out' + vals (map snd (dict_entries d')) = vals (map snd (dict_entries d1)) + vals (map op_value ops)" by auto
  moreover have "dict_run (Some d) (op # ops) = (Some d', old # out', fs @ gs)" using one(1) two(1) by (auto split: prod.splits)
  moreover have "mset (fs @ gs) + vals (old # out') + vals (map snd (dict_entries d')) = vals (map snd (dict_entries d)) + vals (map op_value (op # ops))"
    if "value_data_free c"
  proof -
    have "mset (fs @ gs) + vals (old # out') + vals (map snd (dict_entries d')) =
      mset fs + val_of old + (mset gs + vals out' + vals (map snd (dict_entries d')))" by (simp add: ac_simps)
    also have "\<dots> = mset fs + val_of old + vals (map snd (dict_entries d1)) + vals (map op_value ops)" using two(5) that by (simp add: ac_simps)
    also have "\<dots> = vals (map snd (dict_entries d)) + vals (map op_value (op # ops))" using one(5) that by (simp add: ac_simps)
    finally show ?thesis .
  qed
  ultimately show ?case by auto
qed auto

lemma dict_copy_correct:
  assumes d: "config d = c" "dict_inv ok d" and k: "key_data_copy c = Some Some" "key_data_dump c"
    and v: "value_data_copy c = Some cp" "\<forall>x. cp x = Some (g x)"
  shows "\<exists>d'. ov_dict_copy (Some None) (Some d) = Some (Some (Some d'), True, []) \<and> config d' = c \<and> dict_inv ok d' \<and>
    dict_entries d' = map (apsnd (map_option g)) (filter (\<lambda>p. fst p \<noteq> None) (dict_entries d))"
proof -
  have copies: "\<exists>e'. for_each_pair copy_dict_content ps (Some (e, [])) = (Some (e', []), True) \<and> config e' = c \<and> dict_inv ok e' \<and>
      dict_entries e' = dict_entries e @ map (apsnd (map_option g)) (filter (\<lambda>p. fst p \<noteq> None) ps)"
    if "config e = c" "dict_inv ok e" "in_slots (slot_of c) (dict_entries e @ ps)" "\<forall>p \<in> set ps. ok (fst p)" for e ps
    using that
  proof (induction ps arbitrary: e)
    case (Cons p ps)
    show ?case
    proof (cases "fst p")
      case None
      with Cons.prems(3) have "in_slots (slot_of c) (dict_entries e @ ps)" by (auto simp: in_slots_append)
      with Cons None show ?thesis by (auto simp: copy_dict_content_def)
    next
      case (Some a)
      have new: "map_of (dict_entries e) (Some a) = None" using Cons.prems(3) Some by (auto simp: in_slots_append map_of_eq_None_iff)
      then have old: "dict_map e (Some a) = None" using dict_map_entries [OF Cons.prems(2)] Cons.prems(1) valid by simp
      from set_eq [OF Cons.prems(1,2), of "Some a" "map_option g (snd p)" False] Some Cons.prems(4) old obtain e1 where
        e1: "impl_dict_set (Some e) (Some a) (map_option g (snd p)) False = (Some e1, True, None, freed e None)" "config e1 = c" "dict_inv ok e1"
          "dict_entries e1 = put (slot_of c) (Some a) (map_option g (snd p)) (dict_entries e)" by auto
      have es: "dict_entries e1 = dict_entries e @ [(Some a, map_option g (snd p))]"
        using e1(4) put_last [of "dict_entries e" "slot_of c" "Some a"] Cons.prems(3) Some by (auto simp: in_slots_append)
      have step: "copy_dict_content (fst p) (snd p) (Some (e, [])) = (Some (e1, []), True)"
        using k v Some e1(1) Cons.prems(1) by (cases "snd p") (auto simp: copy_dict_content_def freed_def)
      have "in_slots (slot_of c) (dict_entries e1 @ ps)" using Cons.prems(3) Some by (auto simp: es in_slots_append)
      from Cons.IH [OF e1(2,3) this] Cons.prems(4) step Some es show ?thesis by (cases p) (auto simp: apsnd_def map_prod_def)
    qed
  qed auto
  from dict_create_eq [OF valid, of ok] obtain e where e: "ov_dict_create c = Some e" "config e = c" "dict_inv ok e" "dict_entries e = []" by blast
  from dict_clear_eq [OF e(3)] e(2,4) obtain e0 where e0: "impl_dict_clear (Some e) = (Some e0, True, [])" "config e0 = c" "dict_inv ok e0" "dict_entries e0 = []" by auto
  have same: "e0\<lparr>config := config d\<rparr> = e0" using e0(2) d(1) by (cases e0) simp
  from copies [OF e0(2,3), of "dict_entries d"] e0(4) entries_slots [OF d(2)] d entries_ok [OF d(2)] k v e e0 valid show ?thesis
    by (auto simp: ov_dict_copy_def Let_def dict_for_each_eq [OF d(2)] same)
qed

end

interpretation sd: dict_keys "(ov_dict_string_key_config n)\<lparr>value_data_copy := cp, value_data_free := fr\<rparr>" "\<lambda>_. True"
  by unfold_locales
    (auto simp: ov_dict_string_key_config_def ov_dict_config_is_valid_def IMPL_DEFAULT_SLOTS_def ov_match_c_string_strict_def split: option.splits)

interpretation ip: dict_keys "(ov_dict_intptr_key_config n)\<lparr>value_data_copy := cp, value_data_free := fr\<rparr>" "\<lambda>k. k \<noteq> Some 0"
  by unfold_locales
    (auto simp: ov_dict_intptr_key_config_def ov_dict_config_is_valid_def IMPL_DEFAULT_SLOTS_def ov_match_intptr_def ov_hash_intptr_def split: option.splits)

interpretation up: dict_keys "(ov_dict_uint64_key_config n)\<lparr>value_data_copy := cp, value_data_free := fr\<rparr>" "\<lambda>k. k \<noteq> None"
  by unfold_locales
    (auto simp: ov_dict_uint64_key_config_def ov_dict_config_is_valid_def IMPL_DEFAULT_SLOTS_def ov_match_uint64_def split: option.splits)

lemma new_dict_run:
  assumes "map_run Map.empty ops = (m, out)"
  shows "\<exists>d fs. dict_run (ov_dict_create ((ov_dict_string_key_config n)\<lparr>value_data_copy := cp, value_data_free := fr\<rparr>)) ops = (Some d, out, fs) \<and>
    config d = (ov_dict_string_key_config n)\<lparr>value_data_copy := cp, value_data_free := fr\<rparr> \<and> dict_inv (\<lambda>_. True) d \<and>
    dict_map d = m \<and> map_of (dict_entries d) = m \<and> (fr \<longrightarrow> mset fs + vals out + vals (map snd (dict_entries d)) = vals (map op_value ops))"
proof -
  let ?c = "(ov_dict_string_key_config n)\<lparr>value_data_copy := cp, value_data_free := fr\<rparr>"
  have v: "ov_dict_config_is_valid ?c" by (rule sd.valid)
  then obtain d0 where d0: "ov_dict_create ?c = Some d0" "config d0 = ?c" "dict_inv (\<lambda>_. True) d0" "dict_entries d0 = []"
    using dict_create_eq by blast
  have "dict_map d0 = Map.empty" using dict_map_entries [OF d0(3)] d0(2,4) v by (auto simp: fun_eq_iff)
  with sd.dict_run_correct [OF d0(2,3), of ops m out] assms d0 obtain d fs where
    d: "dict_run (Some d0) ops = (Some d, out, fs)" "config d = ?c" "dict_inv (\<lambda>_. True) d" "dict_map d = m"
      "fr \<longrightarrow> mset fs + vals out + vals (map snd (dict_entries d)) = vals (map op_value ops)" by auto
  have "map_of (dict_entries d) = m" using dict_map_entries [OF d(3)] d(2,4) v by (auto simp: fun_eq_iff)
  with d d0(1) show ?thesis by auto
qed

subsection \<open>Properties\<close>

text \<open>
  C11: A dictionary with strings as keys implements a map. After any sequence of operations on a new dictionary, the
  values given back are those of the map, a lookup finds the value of the map, \<open>ov_dict_count\<close> is the number of
  keys, and an iteration visits each pair of the map exactly once.
\<close>

theorem dict_refines_map:
  "case map_run Map.empty ops of (m, out) \<Rightarrow>
    \<exists>d fs. dict_run (ov_dict_create ((ov_dict_string_key_config n)\<lparr>value_data_copy := cp, value_data_free := fr\<rparr>)) ops = (Some d, out, fs) \<and>
      (\<forall>k. impl_dict_get (Some d) k = Option.bind (m k) id \<and> ov_dict_is_set (Some d) k = (m k \<noteq> None)) \<and>
      ov_dict_count (Some d) = int (card {k. Some k \<in> dom m}) \<and>
      (\<exists>es. map_of es = m \<and> distinct (map fst es) \<and> (\<forall>f a. impl_dict_for_each (Some d) a (Some f) = for_each_pair f es a))"
proof -
  obtain m out where run: "map_run Map.empty ops = (m, out)" by fastforce
  from new_dict_run [OF run, where n = n and cp = cp and fr = fr] obtain d fs where
    d: "dict_run (ov_dict_create ((ov_dict_string_key_config n)\<lparr>value_data_copy := cp, value_data_free := fr\<rparr>)) ops = (Some d, out, fs)"
      "config d = (ov_dict_string_key_config n)\<lparr>value_data_copy := cp, value_data_free := fr\<rparr>" "dict_inv (\<lambda>_. True) d"
      "dict_map d = m" "map_of (dict_entries d) = m" by blast
  have "ov_dict_config_is_valid (config d)" unfolding d(2) by (rule sd.valid)
  moreover have "distinct (map fst (dict_entries d))" using entries_slots [OF d(3)] by (simp add: in_slots_def)
  ultimately show ?thesis
    using d run sd.get_eq [OF d(2,3)] count_eq(1) [OF d(3)] dict_for_each_eq [OF d(3)] by (auto intro!: exI [of _ "dict_entries d"])
qed

text \<open>
  C40: A dictionary that owns its values loses none of them and frees none twice: the values that were freed, those that were
  given back and those still in the dictionary are the values that were set.
\<close>

theorem dict_values_accounted:
  "case dict_run (ov_dict_create ((ov_dict_string_key_config n)\<lparr>value_data_copy := cp, value_data_free := True\<rparr>)) ops of (self, out, fs) \<Rightarrow>
    self \<noteq> None \<and> mset fs + vals out + vals (map snd (dict_entries (the self))) = vals (map op_value ops)"
proof -
  obtain m out where "map_run Map.empty ops = (m, out)" by fastforce
  from new_dict_run [OF this, where n = n and cp = cp and fr = True] show ?thesis by auto
qed

text \<open>
  A copy of a dictionary with strings as keys has, for each key, the copy of its value, as long as the values can be copied;
  nothing is freed.
\<close>

theorem dict_copy_equal:
  assumes "dict_run (ov_dict_create ((ov_dict_string_key_config n)\<lparr>value_data_copy := Some cp, value_data_free := fr\<rparr>)) ops = (Some d, out, fs)"
    and cp: "\<forall>x. cp x = Some (g x)"
  shows "\<exists>d'. ov_dict_copy (Some None) (Some d) = Some (Some (Some d'), True, []) \<and>
    (\<forall>k. impl_dict_get (Some d') (Some k) = map_option g (impl_dict_get (Some d) (Some k)))"
proof -
  let ?c = "(ov_dict_string_key_config n)\<lparr>value_data_copy := Some cp, value_data_free := fr\<rparr>"
  obtain m out' where "map_run Map.empty ops = (m, out')" by fastforce
  from new_dict_run [OF this, where n = n and cp = "Some cp" and fr = fr] assms(1) have d: "config d = ?c" "dict_inv (\<lambda>_. True) d" by auto
  have v: "ov_dict_config_is_valid ?c" by (rule sd.valid)
  have "key_data_copy ?c = Some Some" "key_data_dump ?c" "value_data_copy ?c = Some cp" by (simp_all add: ov_dict_string_key_config_def)
  from sd.dict_copy_correct [OF d this cp] obtain d' where
    d': "ov_dict_copy (Some None) (Some d) = Some (Some (Some d'), True, [])" "config d' = ?c" "dict_inv (\<lambda>_. True) d'"
      "dict_entries d' = map (apsnd (map_option g)) (filter (\<lambda>p. fst p \<noteq> None) (dict_entries d))" by blast
  have "map_of (map (apsnd (map_option g)) (filter (\<lambda>p. fst p \<noteq> None) ps)) (Some k) = map_option (map_option g) (map_of ps (Some k))"
    for ps :: "(string option \<times> 'a option) list" and k
    by (induction ps) (auto simp: apsnd_def)
  then have "dict_map d' (Some k) = map_option (map_option g) (dict_map d (Some k))" for k
    using dict_map_entries [OF d(2), of "Some k"] dict_map_entries [OF d'(3), of "Some k"] d(1) d'(2,4) v by simp
  then have "impl_dict_get (Some d') (Some k) = map_option g (impl_dict_get (Some d) (Some k))" for k
    using sd.get_eq(1) [OF d, of "Some k"] sd.get_eq(1) [OF d'(2,3), of "Some k"] by (cases "dict_map d (Some k)") auto
  with d'(1) show ?thesis by blast
qed

theorem dict_copy_equal_witness:
  "\<exists>d d' fs. dict_run (ov_dict_create ((ov_dict_string_key_config 3)\<lparr>value_data_copy := Some (\<lambda>x. Some (x + 1)), value_data_free := True\<rparr>))
      [Set (Some ''a'') (Some (1::nat)) False] = (Some d, [None], fs) \<and>
    ov_dict_copy (Some None) (Some d) = Some (Some (Some d'), True, []) \<and> impl_dict_get (Some d') (Some ''a'') = Some 2"
proof -
  have "map_run Map.empty [Set (Some ''a'') (Some (1::nat)) False] = ([Some ''a'' \<mapsto> Some 1], [None])" by simp
  from new_dict_run [OF this, where n = 3 and cp = "Some (\<lambda>x. Some (x + 1))" and fr = True] obtain d fs where
    d: "dict_run (ov_dict_create ((ov_dict_string_key_config 3)\<lparr>value_data_copy := Some (\<lambda>x. Some (x + 1)), value_data_free := True\<rparr>))
      [Set (Some ''a'') (Some (1::nat)) False] = (Some d, [None], fs)"
      "config d = (ov_dict_string_key_config 3)\<lparr>value_data_copy := Some (\<lambda>x. Some (x + 1)), value_data_free := True\<rparr>"
      "dict_inv (\<lambda>_. True) d" "dict_map d = [Some ''a'' \<mapsto> Some 1]" by blast
  have "impl_dict_get (Some d) (Some ''a'') = Some 1" using sd.get_eq(1) [OF d(2,3)] d(4) by simp
  with dict_copy_equal [OF d(1), of "\<lambda>x. x + 1"] d(1) show ?thesis by auto
qed

end
