(* ===== verification/Ov_Json.thy ===== *)
theory Ov_Json
  imports Complex_Main Ov_Dict "HOL-Library.Sublist"
begin

text \<open>
  JSON values, \<open>ov_base/src/json/ov_json_value.c\<close>, \<open>ov_json_object.c\<close>, \<open>ov_json_string.c\<close>, \<open>ov_json_number.c\<close> and
  \<open>ov_json_literal.c\<close>.

  An object is the list of its members in the order in which its dictionary iterates over them; what its operations do with
  that list is what the operations of a dictionary of 100 slots do with its pairs. A number is the rational a double
  stands for. Each value carries a tag, which tells values at the same place apart that were allocated one after the other.

  Values live in trees, and a pointer to a value of a tree is modelled by the path of keys that leads to it from the root: values
  do not move in a tree, and the parent of a value is the value at the path without its last key.
\<close>

subsection \<open>Values\<close>

datatype 'a json =
    JNull (tag: 'a)
  | JTrue (tag: 'a)
  | JFalse (tag: 'a)
  | JString (tag: 'a) "string option"
  | JNumber (tag: 'a) rat
  | JArray (tag: 'a) "'a json list"
  | JObject (tag: 'a) "(string \<times> 'a json) list"

definition DEFAULT_DICT_KEYS :: u64 where
  "DEFAULT_DICT_KEYS = 100"

definition json_dict_config :: "(string, 'v) ov_dict_config" where
  "json_dict_config = (ov_dict_string_key_config DEFAULT_DICT_KEYS)\<lparr>value_data_copy := Some Some, value_data_free := True\<rparr>"

definition json_slot :: "string \<Rightarrow> nat" where
  "json_slot k = slot_of (json_dict_config :: (string, unit) ov_dict_config) (Some k)"

fun ov_json_is_object :: "'a json option \<Rightarrow> bool" where
  "ov_json_is_object (Some (JObject a es)) = True"
| "ov_json_is_object _ = False"

fun ov_json_object_get :: "'a json option \<Rightarrow> string option \<Rightarrow> 'a json option" where
  "ov_json_object_get (Some (JObject a es)) (Some k) = map_of es k"
| "ov_json_object_get _ _ = None"

text \<open>The value that is set has no parent yet, and it is not the object itself. A value that was there is freed.\<close>

fun ov_json_object_set :: "'a json \<Rightarrow> string \<Rightarrow> 'a json \<Rightarrow> 'a json \<times> bool" where
  "ov_json_object_set (JObject a es) k v = (JObject a (put json_slot k v es), True)"
| "ov_json_object_set object k v = (object, False)"

fun ov_json_object_del :: "'a json \<Rightarrow> string \<Rightarrow> 'a json \<times> bool" where
  "ov_json_object_del (JObject a es) k = (JObject a (drop_key k es), True)"
| "ov_json_object_del object k = (object, False)"

fun ov_json_object_count :: "'a json option \<Rightarrow> nat" where
  "ov_json_object_count (Some (JObject a es)) = length es"
| "ov_json_object_count _ = 0"

text \<open>An iteration whose callback only reads the values, and one whose callback changes them.\<close>

fun members_for_each :: "(string \<Rightarrow> 'a json \<Rightarrow> 's \<Rightarrow> 's \<times> bool) \<Rightarrow> (string \<times> 'a json) list \<Rightarrow> 's \<Rightarrow> 's \<times> bool" where
  "members_for_each f [] s = (s, True)"
| "members_for_each f (e # es) s =
    (case f (fst e) (snd e) s of (s', ok) \<Rightarrow> if ok then members_for_each f es s' else (s', False))"

fun ov_json_object_for_each :: "'a json option \<Rightarrow> 's \<Rightarrow> (string \<Rightarrow> 'a json \<Rightarrow> 's \<Rightarrow> 's \<times> bool) \<Rightarrow> 's \<times> bool" where
  "ov_json_object_for_each (Some (JObject a es)) s f = members_for_each f es s"
| "ov_json_object_for_each _ s f = (s, False)"

fun members_modify_each :: "('a json \<Rightarrow> 'a json \<times> bool) \<Rightarrow> (string \<times> 'a json) list \<Rightarrow> (string \<times> 'a json) list" where
  "members_modify_each f [] = []"
| "members_modify_each f (e # es) =
    (case f (snd e) of (v, ok) \<Rightarrow> (fst e, v) # (if ok then members_modify_each f es else es))"

fun members_each_ok :: "('a json \<Rightarrow> 'a json \<times> bool) \<Rightarrow> (string \<times> 'a json) list \<Rightarrow> bool" where
  "members_each_ok f [] = True"
| "members_each_ok f (e # es) \<longleftrightarrow> snd (f (snd e)) \<and> members_each_ok f es"

fun json_object_modify_each :: "('a json \<Rightarrow> 'a json \<times> bool) \<Rightarrow> 'a json \<Rightarrow> 'a json \<times> bool" where
  "json_object_modify_each f (JObject a es) = (JObject a (members_modify_each f es), members_each_ok f es)"
| "json_object_modify_each f v = (v, False)"

fun ov_json_string_get :: "'a json option \<Rightarrow> string option" where
  "ov_json_string_get (Some (JString a s)) = s"
| "ov_json_string_get _ = None"

fun ov_json_number_get :: "'a json option \<Rightarrow> rat" where
  "ov_json_number_get (Some (JNumber a x)) = x"
| "ov_json_number_get _ = 0"

fun ov_json_is_true :: "'a json option \<Rightarrow> bool" where
  "ov_json_is_true (Some (JTrue a)) = True"
| "ov_json_is_true _ = False"

fun ov_json_is_false :: "'a json option \<Rightarrow> bool" where
  "ov_json_is_false (Some (JFalse a)) = True"
| "ov_json_is_false _ = False"

text \<open>A copy has all values with the tag of its allocation.\<close>

definition ov_json_value_copy :: "'b \<Rightarrow> 'a json \<Rightarrow> 'b json" where
  "ov_json_value_copy t v = map_json (\<lambda>_. t) v"

subsection \<open>Members and dictionaries\<close>

lemma put_map:
  assumes "inj g" "\<forall>k. slot' (g k) = slot k"
  shows "put slot' (g k) (h v) (map (map_prod g h) es) = map (map_prod g h) (put slot k v es)"
  using assms by (induction es) (auto simp: inj_eq)

lemma drop_key_map: "inj g \<Longrightarrow> drop_key (g k) (map (map_prod g h) es) = map (map_prod g h) (drop_key k es)"
  by (induction es) (auto simp: inj_eq)

lemma for_each_members:
  "for_each_pair (\<lambda>k v. f (the k) (the v)) (map (map_prod Some Some) es) s = members_for_each f es s"
  by (induction es arbitrary: s) (auto split: prod.splits)

text \<open>
  The members of an object are the pairs of its dictionary: setting, deleting and iterating over the dictionary of an object is what the model does with the members.
\<close>

definition object_dict :: "(string \<times> 'v) list \<Rightarrow> (string, 'v) ov_dict \<Rightarrow> bool" where
  "object_dict es d \<longleftrightarrow> config d = json_dict_config \<and> dict_inv (\<lambda>_. True) d \<and> dict_entries d = map (map_prod Some Some) es"

lemma json_slot_eq: "slot_of (json_dict_config :: (string, 'v) ov_dict_config) (Some k) = json_slot k"
  by (simp add: json_slot_def json_dict_config_def slot_of_def ov_dict_string_key_config_def)

lemma map_of_members: "map_of (map (map_prod Some Some) es) (Some k) = map_option Some (map_of es k)"
  by (induction es) auto

lemma object_dict_ops:
  fixes d :: "(string, 'a json) ov_dict"
  assumes "object_dict es d"
  shows "impl_dict_get (Some d) (Some k) = map_of es k"
    "\<exists>d' old. impl_dict_set (Some d) (Some k) (Some v) True = (Some d', True, old, []) \<and> object_dict (put json_slot k v es) d'"
    "\<exists>d' fs. impl_dict_del (Some d) (Some k) = (Some d', True, fs) \<and> object_dict (drop_key k es) d'"
    "impl_dict_for_each (Some d) s (Some (\<lambda>k v. f (the k) (the v))) = members_for_each f es s"
proof -
  let ?c = "(ov_dict_string_key_config DEFAULT_DICT_KEYS)\<lparr>value_data_copy := Some Some, value_data_free := True\<rparr> :: (string, 'a json) ov_dict_config"
  have d: "config d = ?c" "dict_inv (\<lambda>_. True) d" "dict_entries d = map (map_prod Some Some) es"
    using assms by (simp_all add: object_dict_def json_dict_config_def)
  have v: "ov_dict_config_is_valid (config d)" unfolding d(1) by (rule sd.valid)
  have "dict_map d (Some k) = map_option Some (map_of es k)"
    using dict_map_entries [OF d(2) v, of "Some k"] d(3) by (simp add: map_of_members)
  then show "impl_dict_get (Some d) (Some k) = map_of es k"
    using sd.get_eq(1) [OF d(1,2), of "Some k"] by (cases "map_of es k") auto
  from sd.set_eq [OF d(1,2), of "Some k" "Some v" True] obtain d' where
    "impl_dict_set (Some d) (Some k) (Some v) True = (Some d', True, Option.bind (dict_map d (Some k)) id, [])"
    "config d' = ?c" "dict_inv (\<lambda>_. True) d'" "dict_entries d' = put (slot_of ?c) (Some k) (Some v) (dict_entries d)" by auto
  moreover have "put (slot_of ?c) (Some k) (Some v) (dict_entries d) = map (map_prod Some Some) (put json_slot k v es)"
    unfolding d(3) using json_slot_eq by (intro put_map) (auto simp: json_dict_config_def)
  ultimately show "\<exists>d' old. impl_dict_set (Some d) (Some k) (Some v) True = (Some d', True, old, []) \<and> object_dict (put json_slot k v es) d'"
    by (auto simp: object_dict_def json_dict_config_def)
  from sd.remove_eq [OF d(1,2), of "Some k"] show "\<exists>d' fs. impl_dict_del (Some d) (Some k) = (Some d', True, fs) \<and> object_dict (drop_key k es) d'"
    by (auto simp: object_dict_def json_dict_config_def d(3) drop_key_map)
  show "impl_dict_for_each (Some d) s (Some (\<lambda>k v. f (the k) (the v))) = members_for_each f es s"
    by (simp add: dict_for_each_eq [OF d(2)] d(3) for_each_members)
qed

subsection \<open>Trees\<close>

type_synonym path = "string list"

fun lookup :: "'a json \<Rightarrow> path \<Rightarrow> 'a json option" where
  "lookup v [] = Some v"
| "lookup v (k # p) = (case ov_json_object_get (Some v) (Some k) of None \<Rightarrow> None | Some w \<Rightarrow> lookup w p)"

text \<open>The tree in which the value at a path has been changed in place.\<close>

fun upd :: "path \<Rightarrow> ('a json \<Rightarrow> 'a json) \<Rightarrow> 'a json \<Rightarrow> 'a json" where
  "upd [] f v = f v"
| "upd (k # p) f v =
    (case v of JObject a es \<Rightarrow> JObject a (map (\<lambda>(k', w). (k', if k' = k then upd p f w else w)) es) | _ \<Rightarrow> v)"

definition set_at :: "path \<Rightarrow> string \<Rightarrow> 'a json \<Rightarrow> 'a json \<Rightarrow> 'a json" where
  "set_at p k w v = upd p (\<lambda>u. fst (ov_json_object_set u k w)) v"

definition del_at :: "path \<Rightarrow> string \<Rightarrow> 'a json \<Rightarrow> 'a json" where
  "del_at p k v = upd p (\<lambda>u. fst (ov_json_object_del u k)) v"

lemma lookup_append: "lookup v (p @ q) = Option.bind (lookup v p) (\<lambda>w. lookup w q)"
  by (induction p arbitrary: v) (auto split: option.splits)

lemma map_of_upd:
  "map_of (map (\<lambda>(k', w). (k', if k' = k then f w else w)) es) j = map_option (if j = k then f else id) (map_of es j)"
  by (induction es) auto

lemma get_upd:
  "ov_json_object_get (Some (upd (k # p) f v)) (Some j) =
    map_option (if j = k then upd p f else id) (ov_json_object_get (Some v) (Some j))"
  by (cases v) (auto simp: map_of_upd)

lemma lookup_upd: "lookup (upd p f v) (p @ q) = Option.bind (lookup v p) (\<lambda>w. lookup (f w) q)"
  by (induction p arbitrary: v) (auto simp: get_upd simp del: upd.simps(2) split: option.splits)

lemma lookup_upd_above: "lookup (upd (p @ q) f v) p = map_option (upd q f) (lookup v p)"
  by (induction p arbitrary: v) (auto simp: get_upd simp del: upd.simps(2) split: option.splits)

lemma lookup_upd_other: "\<not> prefix p q \<Longrightarrow> \<not> prefix q p \<Longrightarrow> lookup (upd p f v) q = lookup v q"
proof (induction p arbitrary: v q)
  case (Cons k p)
  then show ?case by (cases q) (auto simp: get_upd simp del: upd.simps(2) split: option.splits)
qed simp

text \<open>The nodes of a tree, which tell where its values are, which allocation they come from, and which of them are objects.\<close>

definition node :: "'a json \<Rightarrow> path \<Rightarrow> ('a \<times> bool) option" where
  "node v p = map_option (\<lambda>w. (tag w, ov_json_is_object (Some w))) (lookup v p)"

definition object_at :: "'a json \<Rightarrow> path \<Rightarrow> bool" where
  "object_at v p \<longleftrightarrow> ov_json_is_object (lookup v p)"

text \<open>The members of all objects on paths are in the order of the dictionary.\<close>

definition tree_ok :: "'a json \<Rightarrow> bool" where
  "tree_ok v \<longleftrightarrow> (\<forall>p a es. lookup v p = Some (JObject a es) \<longrightarrow> in_slots json_slot es)"

lemma object_atE:
  assumes "object_at v p"
  obtains a es where "lookup v p = Some (JObject a es)"
  using assms by (cases "lookup v p") (auto simp: object_at_def elim: ov_json_is_object.elims)

lemma object_at_node: "object_at v p \<longleftrightarrow> (\<exists>a. node v p = Some (a, True))"
  by (auto simp: object_at_def node_def elim: ov_json_is_object.elims)

lemma node_upd_keeps: "node (upd (p @ q) f v) p = node v p" if "q \<noteq> []"
proof -
  have "tag (upd q f w) = tag w \<and> ov_json_is_object (Some (upd q f w)) = ov_json_is_object (Some w)" for w
    using that by (cases q; cases w) auto
  then show ?thesis by (simp add: node_def lookup_upd_above option.map_comp comp_def)
qed

lemma get_set: "in_slots json_slot es \<Longrightarrow> ov_json_object_get (Some (fst (ov_json_object_set (JObject a es) k w))) (Some j) = ((map_of es)(k \<mapsto> w)) j"
  by (simp add: map_of_put)

lemma lookup_under: "lookup v (p @ [k]) = ov_json_object_get (lookup v p) (Some k)"
  by (cases "lookup v p") (auto simp: lookup_append split: option.splits)

lemma lookup_set_at:
  assumes "tree_ok v" "object_at v p"
  shows "prefix (p @ [k]) q \<Longrightarrow> lookup (set_at p k w v) q = lookup w (drop (Suc (length p)) q)"
    "\<not> prefix (p @ [k]) q \<Longrightarrow> \<not> prefix q p \<Longrightarrow> lookup (set_at p k w v) q = lookup v q"
proof -
  obtain a es where v: "lookup v p = Some (JObject a es)" using assms(2) by (rule object_atE)
  with assms(1) have es: "in_slots json_slot es" by (auto simp: tree_ok_def)
  show "lookup (set_at p k w v) q = lookup w (drop (Suc (length p)) q)" if "prefix (p @ [k]) q"
  proof -
    from that obtain r where "q = p @ k # r" by (auto elim: prefixE)
    then show ?thesis using v es by (simp add: set_at_def lookup_upd map_of_put)
  qed
  show "lookup (set_at p k w v) q = lookup v q" if "\<not> prefix (p @ [k]) q" "\<not> prefix q p"
  proof (cases "prefix p q")
    case True
    then obtain r where q: "q = p @ r" by (auto elim: prefixE)
    with that obtain j s where "r = j # s" "j \<noteq> k" by (cases r) (auto simp: prefix_def)
    then show ?thesis using v es q by (simp add: set_at_def lookup_upd lookup_append [of v p] map_of_put)
  next
    case False
    then show ?thesis using that by (simp add: set_at_def lookup_upd_other)
  qed
qed

lemma lookup_del_at:
  "prefix (p @ [k]) q \<Longrightarrow> object_at v p \<Longrightarrow> lookup (del_at p k v) q = None"
  "\<not> prefix (p @ [k]) q \<Longrightarrow> \<not> prefix q p \<Longrightarrow> lookup (del_at p k v) q = lookup v q"
proof -
  show "lookup (del_at p k v) q = None" if "prefix (p @ [k]) q" "object_at v p"
  proof -
    from that(1) obtain r where q: "q = p @ k # r" by (auto elim: prefixE)
    from that(2) obtain a es where "lookup v p = Some (JObject a es)" by (rule object_atE)
    then show ?thesis by (simp add: q del_at_def lookup_upd map_of_drop_key)
  qed
  show "lookup (del_at p k v) q = lookup v q" if "\<not> prefix (p @ [k]) q" "\<not> prefix q p"
  proof (cases "prefix p q")
    case True
    then obtain r where q: "q = p @ r" by (auto elim: prefixE)
    with that obtain j s where "r = j # s" "j \<noteq> k" by (cases r) (auto simp: prefix_def)
    moreover have "ov_json_object_get (Some (fst (ov_json_object_del u k))) (Some j) = ov_json_object_get (Some u) (Some j)" if "j \<noteq> k" for u :: "'a json" and j
      using that by (cases u) (auto simp: map_of_drop_key)
    ultimately show ?thesis using q by (simp add: del_at_def lookup_upd lookup_append [of v p] cong: bind_option_cong)
  next
    case False
    then show ?thesis using that by (simp add: del_at_def lookup_upd_other)
  qed
qed

lemma node_set_at:
  assumes "tree_ok v" "object_at v p"
  shows "node (set_at p k w v) q = (if prefix (p @ [k]) q then node w (drop (Suc (length p)) q) else node v q)"
proof (cases "prefix (p @ [k]) q \<or> \<not> prefix q p")
  case True
  then show ?thesis using lookup_set_at [OF assms] by (auto simp: node_def)
next
  case False
  then obtain r where p: "p = q @ r" by (auto elim: prefixE)
  obtain a es where "lookup v p = Some (JObject a es)" using assms(2) by (rule object_atE)
  then show ?thesis using False node_upd_keeps [of r q _ v] lookup_upd [of p _ v "[]"]
    by (cases "r = []") (auto simp: p set_at_def node_def)
qed

lemma node_del_at:
  assumes "object_at v p"
  shows "node (del_at p k v) q = (if prefix (p @ [k]) q then None else node v q)"
proof (cases "prefix (p @ [k]) q \<or> \<not> prefix q p")
  case True
  then show ?thesis using lookup_del_at(1) [OF _ assms] lookup_del_at(2) [of p k q v] by (auto simp: node_def)
next
  case False
  then obtain r where p: "p = q @ r" by (auto elim: prefixE)
  obtain a es where "lookup v p = Some (JObject a es)" using assms by (rule object_atE)
  then show ?thesis using False node_upd_keeps [of r q _ v] lookup_upd [of p _ v "[]"]
    by (cases "r = []") (auto simp: p del_at_def node_def)
qed

lemma in_slots_keys: "map fst xs = map fst ys \<Longrightarrow> in_slots slot xs \<longleftrightarrow> in_slots slot ys"
  by (simp add: in_slots_def flip: map_map)

lemma tree_ok_upd:
  assumes v: "tree_ok v" and f: "\<And>w. lookup v p = Some w \<Longrightarrow> tree_ok (f w)"
  shows "tree_ok (upd p f v)"
  unfolding tree_ok_def
proof (intro allI impI)
  fix q a es assume q: "lookup (upd p f v) q = Some (JObject a es)"
  consider r where "q = p @ r" | r where "p = q @ r" "r \<noteq> []" | "\<not> prefix p q" "\<not> prefix q p" by (metis append_Nil2 prefixE)
  then show "in_slots json_slot es"
  proof cases
    case 1
    with q obtain w where "lookup v p = Some w" "lookup (f w) r = Some (JObject a es)" by (auto simp: lookup_upd bind_eq_Some_conv)
    then show ?thesis using f by (auto simp: tree_ok_def)
  next
    case 2
    then obtain k s where r: "r = k # s" by (cases r) auto
    from q 2 obtain w where w: "lookup v q = Some w" "upd r f w = JObject a es" by (auto simp: lookup_upd_above)
    then obtain es' where "w = JObject a es'" "es = map (\<lambda>(k', u). (k', if k' = k then upd s f u else u)) es'"
      by (cases w) (auto simp: r)
    moreover have "in_slots json_slot es'" using v w(1) calculation(1) by (auto simp: tree_ok_def)
    moreover have "map fst es = map fst es'" using calculation(2) by (simp add: comp_def case_prod_beta)
    ultimately show ?thesis using in_slots_keys by blast
  next
    case 3
    then show ?thesis using q v by (auto simp: lookup_upd_other tree_ok_def)
  qed
qed

lemma tree_ok_lookup: "tree_ok v \<Longrightarrow> lookup v p = Some w \<Longrightarrow> tree_ok w"
  by (auto simp: tree_ok_def) (metis lookup_append bind.bind_lunit)

lemma tree_ok_object: "tree_ok (JObject a es) \<longleftrightarrow> in_slots json_slot es \<and> (\<forall>k w. map_of es k = Some w \<longrightarrow> tree_ok w)"
proof
  assume t: "tree_ok (JObject a es)"
  show "in_slots json_slot es \<and> (\<forall>k w. map_of es k = Some w \<longrightarrow> tree_ok w)"
  proof (intro conjI allI impI)
    show "in_slots json_slot es" using t lookup.simps(1) [of "JObject a es"] unfolding tree_ok_def by blast
    show "tree_ok w" if "map_of es k = Some w" for k w
      using tree_ok_lookup [OF t, of "[k]" w] that by simp
  qed
next
  assume t: "in_slots json_slot es \<and> (\<forall>k w. map_of es k = Some w \<longrightarrow> tree_ok w)"
  show "tree_ok (JObject a es)" unfolding tree_ok_def
  proof (intro allI impI)
    fix p b fs assume "lookup (JObject a es) p = Some (JObject b fs)"
    then show "in_slots json_slot fs" using t by (cases p) (auto simp: tree_ok_def split: option.splits)
  qed
qed

lemma tree_ok_leaf: "\<not> ov_json_is_object (Some v) \<Longrightarrow> tree_ok v"
proof -
  assume "\<not> ov_json_is_object (Some v)"
  then have "lookup v p = Some (JObject a es) \<Longrightarrow> False" for p a es by (cases p; cases v) auto
  then show ?thesis by (auto simp: tree_ok_def)
qed

lemma tree_ok_set_at: "tree_ok v \<Longrightarrow> tree_ok w \<Longrightarrow> tree_ok (set_at p k w v)"
  unfolding set_at_def
proof (rule tree_ok_upd)
  fix u assume "tree_ok v" "tree_ok w" "lookup v p = Some u"
  then have "tree_ok u" by (blast intro: tree_ok_lookup)
  then show "tree_ok (fst (ov_json_object_set u k w))" using \<open>tree_ok w\<close>
    by (cases u) (auto simp: tree_ok_object put_slots map_of_put)
qed

lemma tree_ok_del_at: "tree_ok v \<Longrightarrow> tree_ok (del_at p k v)"
  unfolding del_at_def
proof (rule tree_ok_upd)
  fix u assume "tree_ok v" "lookup v p = Some u"
  then have "tree_ok u" by (blast intro: tree_ok_lookup)
  then show "tree_ok (fst (ov_json_object_del u k))"
    by (cases u) (auto simp: tree_ok_object drop_key_slots map_of_drop_key split: if_splits)
qed

end
