(* ===== verification/Ov_Vocs_Db.thy ===== *)
theory Ov_Vocs_Db
  imports Ov_Json "HOL-Library.Monad_Syntax"
begin

text \<open>
  The database of users, roles and loops of the vocs server, \<open>ov_vocs_db/src/ov_vocs_db.c\<close>, with the permissions of
  \<open>ov_vocs_permission.c\<close> and the helpers of \<open>ov_vocs_json.c\<close>.

  The data is a JSON tree: an object of domains, each with users, roles, loops and projects, where a project has users, roles and loops again. For
  each kind of entity the database keeps a dictionary from ids to pointers into that tree. A pointer of an index is the path to a
  value and the tag of its allocation: it dangles if there is no value at the path, or one of another allocation. Reading over a dangling
  pointer is undefined, and the result \<open>None\<close>. The order of an index is that of a dictionary of 255 slots.

  All functions lock the database. Whether that succeeds in time is the argument \<open>lk\<close> of the functions; unlocking succeeds.
  The pointers that a function rejects when they are NULL are not NULL here. A path \<open>"/key"\<close> of \<open>ov_json_get\<close> leads to the
  member \<open>key\<close> of an object, and nowhere in other values.
\<close>

subsection \<open>Permissions\<close>

datatype ov_vocs_permission = OV_VOCS_NONE | OV_VOCS_RECV | OV_VOCS_SEND

fun ov_vocs_permission_to_string :: "ov_vocs_permission \<Rightarrow> string" where
  "ov_vocs_permission_to_string OV_VOCS_RECV = ''recv''"
| "ov_vocs_permission_to_string OV_VOCS_SEND = ''send''"
| "ov_vocs_permission_to_string OV_VOCS_NONE = ''none''"

definition ov_vocs_permission_from_string :: "string option \<Rightarrow> ov_vocs_permission" where
  "ov_vocs_permission_from_string str =
    (case str of
       None \<Rightarrow> OV_VOCS_NONE
     | Some s \<Rightarrow>
         if length s \<noteq> 4 then OV_VOCS_NONE
         else if s = ''recv'' then OV_VOCS_RECV
         else if s = ''send'' then OV_VOCS_SEND
         else OV_VOCS_NONE)"

definition ov_vocs_permission_from_json :: "'a json option \<Rightarrow> ov_vocs_permission" where
  "ov_vocs_permission_from_json val = ov_vocs_permission_from_string (ov_json_string_get val)"

fun ov_vocs_permission_granted :: "ov_vocs_permission \<Rightarrow> ov_vocs_permission \<Rightarrow> bool" where
  "ov_vocs_permission_granted reference OV_VOCS_NONE = True"
| "ov_vocs_permission_granted reference OV_VOCS_RECV = (reference \<noteq> OV_VOCS_NONE)"
| "ov_vocs_permission_granted reference OV_VOCS_SEND = (reference = OV_VOCS_SEND)"

subsection \<open>Helpers on JSON\<close>

definition ov_vocs_json_get_id :: "'a json option \<Rightarrow> string option" where
  "ov_vocs_json_get_id val = ov_json_string_get (ov_json_object_get val (Some ''id''))"

definition ov_vocs_json_is_admin_user :: "'a json option \<Rightarrow> string \<Rightarrow> bool" where
  "ov_vocs_json_is_admin_user val user =
    (let roles = ov_json_object_get val (Some ''roles'');
         role = ov_json_object_get roles (Some ''admin'');
         users = ov_json_object_get role (Some ''users'')
     in ov_json_object_get users (Some user) \<noteq> None)"

subsection \<open>State\<close>

datatype ov_vocs_db_entity =
    OV_VOCS_DB_ENTITY_ERROR | OV_VOCS_DB_DOMAIN | OV_VOCS_DB_PROJECT | OV_VOCS_DB_LOOP | OV_VOCS_DB_ROLE | OV_VOCS_DB_USER

datatype ov_vocs_db_scope = OV_VOCS_DB_SCOPE_DOMAIN | OV_VOCS_DB_SCOPE_PROJECT

datatype ov_vocs_db_type = OV_VOCS_DB_TYPE_AUTH | OV_VOCS_DB_TYPE_STATE

type_synonym ptr = "path \<times> nat"

type_synonym index = "(string \<times> ptr) list"

record ov_vocs_db =
  index_domains :: index
  index_projects :: index
  index_users :: index
  index_roles :: index
  index_loops :: index
  data_domains :: "nat json option"
  data_state :: "nat json option"
  next_tag :: nat

definition index_slot :: "string \<Rightarrow> nat" where
  "index_slot k = slot_of (ov_dict_string_key_config 255 :: (string, unit) ov_dict_config) (Some k)"

definition ov_vocs_db_create :: ov_vocs_db where
  "ov_vocs_db_create =
    \<lparr>index_domains = [], index_projects = [], index_users = [], index_roles = [], index_loops = [],
     data_domains = None, data_state = None, next_tag = 0\<rparr>"

definition index_clear :: "ov_vocs_db \<Rightarrow> ov_vocs_db" where
  "index_clear db = db\<lparr>index_domains := [], index_projects := [], index_users := [], index_roles := [], index_loops := []\<rparr>"

fun ov_vocs_db_entity_from_string :: "string option \<Rightarrow> ov_vocs_db_entity" where
  "ov_vocs_db_entity_from_string None = OV_VOCS_DB_ENTITY_ERROR"
| "ov_vocs_db_entity_from_string (Some s) =
    (if s = ''user'' then OV_VOCS_DB_USER
     else if s = ''role'' then OV_VOCS_DB_ROLE
     else if s = ''loop'' then OV_VOCS_DB_LOOP
     else if s = ''project'' then OV_VOCS_DB_PROJECT
     else if s = ''domain'' then OV_VOCS_DB_DOMAIN
     else OV_VOCS_DB_ENTITY_ERROR)"

fun get_index_dict :: "ov_vocs_db \<Rightarrow> ov_vocs_db_entity \<Rightarrow> index option" where
  "get_index_dict db OV_VOCS_DB_DOMAIN = Some (index_domains db)"
| "get_index_dict db OV_VOCS_DB_PROJECT = Some (index_projects db)"
| "get_index_dict db OV_VOCS_DB_LOOP = Some (index_loops db)"
| "get_index_dict db OV_VOCS_DB_ROLE = Some (index_roles db)"
| "get_index_dict db OV_VOCS_DB_USER = Some (index_users db)"
| "get_index_dict db OV_VOCS_DB_ENTITY_ERROR = None"

text \<open>The change of the dictionary that \<open>get_index_dict\<close> returns.\<close>

fun change_index :: "ov_vocs_db_entity \<Rightarrow> (index \<Rightarrow> index) \<Rightarrow> ov_vocs_db \<Rightarrow> ov_vocs_db" where
  "change_index OV_VOCS_DB_DOMAIN f db = db\<lparr>index_domains := f (index_domains db)\<rparr>"
| "change_index OV_VOCS_DB_PROJECT f db = db\<lparr>index_projects := f (index_projects db)\<rparr>"
| "change_index OV_VOCS_DB_LOOP f db = db\<lparr>index_loops := f (index_loops db)\<rparr>"
| "change_index OV_VOCS_DB_ROLE f db = db\<lparr>index_roles := f (index_roles db)\<rparr>"
| "change_index OV_VOCS_DB_USER f db = db\<lparr>index_users := f (index_users db)\<rparr>"
| "change_index OV_VOCS_DB_ENTITY_ERROR f db = db"

definition index_get :: "index option \<Rightarrow> string option \<Rightarrow> ptr option" where
  "index_get dict eid = (case (dict, eid) of (Some d, Some k) \<Rightarrow> map_of d k | _ \<Rightarrow> None)"

text \<open>The value an index points to.\<close>

definition deref :: "ov_vocs_db \<Rightarrow> ptr \<Rightarrow> nat json option" where
  "deref db p =
    (case data_domains db of
       None \<Rightarrow> None
     | Some v \<Rightarrow> (case lookup v (fst p) of None \<Rightarrow> None | Some w \<Rightarrow> if tag w = snd p then Some w else None))"

text \<open>\<open>ov_json_object_set\<close> and \<open>ov_json_object_del\<close> on the value at a path of the domains.\<close>

definition dom_set :: "path \<Rightarrow> string \<Rightarrow> nat json \<Rightarrow> ov_vocs_db \<Rightarrow> ov_vocs_db \<times> bool" where
  "dom_set p k x db =
    (case data_domains db of
       None \<Rightarrow> (db, False)
     | Some v \<Rightarrow> if object_at v p then (db\<lparr>data_domains := Some (set_at p k x v)\<rparr>, True) else (db, False))"

definition dom_del :: "path \<Rightarrow> string \<Rightarrow> ov_vocs_db \<Rightarrow> ov_vocs_db \<times> bool" where
  "dom_del p k db =
    (case data_domains db of
       None \<Rightarrow> (db, False)
     | Some v \<Rightarrow> if object_at v p then (db\<lparr>data_domains := Some (del_at p k v)\<rparr>, True) else (db, False))"

definition dom_get :: "ov_vocs_db \<Rightarrow> path \<Rightarrow> nat json option" where
  "dom_get db p = Option.bind (data_domains db) (\<lambda>v. lookup v p)"

subsection \<open>Index\<close>

definition unindex_users :: "string \<Rightarrow> ov_vocs_db \<Rightarrow> ov_vocs_db \<times> bool" where
  "unindex_users key db = (db\<lparr>index_users := drop_key key (index_users db)\<rparr>, True)"

definition unindex_roles :: "string \<Rightarrow> ov_vocs_db \<Rightarrow> ov_vocs_db \<times> bool" where
  "unindex_roles key db = (db\<lparr>index_roles := drop_key key (index_roles db)\<rparr>, True)"

definition unindex_loops :: "string \<Rightarrow> ov_vocs_db \<Rightarrow> ov_vocs_db \<times> bool" where
  "unindex_loops key db = (db\<lparr>index_loops := drop_key key (index_loops db)\<rparr>, True)"

text \<open>The test \<open>old && !ov_json_object_for_each(old, self, f)\<close>, with the next step if it does not fail.\<close>

definition each_then ::
  "nat json option \<Rightarrow> (string \<Rightarrow> nat json \<Rightarrow> 's \<Rightarrow> 's \<times> bool) \<Rightarrow> ('s \<Rightarrow> 's \<times> bool) \<Rightarrow> 's \<Rightarrow> 's \<times> bool" where
  "each_then old f next s =
    (if old = None then next s
     else (case ov_json_object_for_each old s f of (s', ok) \<Rightarrow> if ok then next s' else (s', False)))"

definition unindex_project :: "ov_vocs_db \<Rightarrow> string \<Rightarrow> (ov_vocs_db \<times> bool) option" where
  "unindex_project db eid =
    (case index_get (Some (index_projects db)) (Some eid) of
       None \<Rightarrow> Some (db, True)
     | Some p \<Rightarrow>
         do { v \<leftarrow> deref db p;
              Some (each_then (ov_json_object_get (Some v) (Some ''users'')) (\<lambda>key val. unindex_users key)
                (each_then (ov_json_object_get (Some v) (Some ''roles'')) (\<lambda>key val. unindex_roles key)
                  (each_then (ov_json_object_get (Some v) (Some ''loops'')) (\<lambda>key val. unindex_loops key)
                    (\<lambda>s. (s\<lparr>index_projects := drop_key eid (index_projects s)\<rparr>, True)))) db) })"

text \<open>The state of an iteration that may be undefined.\<close>

definition unindex_projects :: "string \<Rightarrow> ov_vocs_db option \<Rightarrow> ov_vocs_db option \<times> bool" where
  "unindex_projects key s =
    (case Option.bind s (\<lambda>db. unindex_project db key) of None \<Rightarrow> (None, False) | Some (db, ok) \<Rightarrow> (Some db, ok))"

definition on_some :: "(ov_vocs_db \<Rightarrow> ov_vocs_db \<times> bool) \<Rightarrow> ov_vocs_db option \<Rightarrow> ov_vocs_db option \<times> bool" where
  "on_some f s = (case s of None \<Rightarrow> (None, False) | Some db \<Rightarrow> (case f db of (db', ok) \<Rightarrow> (Some db', ok)))"

definition unindex_domain :: "ov_vocs_db \<Rightarrow> string \<Rightarrow> (ov_vocs_db \<times> bool) option" where
  "unindex_domain db eid =
    (case ov_json_object_get (data_domains db) (Some eid) of
       None \<Rightarrow> Some (db, True)
     | Some domain \<Rightarrow>
         (case each_then (ov_json_object_get (Some domain) (Some ''projects'')) (\<lambda>key val. unindex_projects key)
                (each_then (ov_json_object_get (Some domain) (Some ''users'')) (\<lambda>key val. on_some (unindex_users key))
                  (each_then (ov_json_object_get (Some domain) (Some ''roles'')) (\<lambda>key val. on_some (unindex_roles key))
                    (each_then (ov_json_object_get (Some domain) (Some ''loops'')) (\<lambda>key val. on_some (unindex_loops key))
                      (\<lambda>s. (map_option (\<lambda>t. t\<lparr>index_domains := drop_key eid (index_domains t)\<rparr>) s, True))))) (Some db) of
            (None, _) \<Rightarrow> None
          | (Some db', ok) \<Rightarrow> Some (db', ok)))"

text \<open>The path is that of the object that is iterated over.\<close>

definition reindex :: "path \<Rightarrow> string \<Rightarrow> nat json \<Rightarrow> index \<Rightarrow> index" where
  "reindex p key val dict = put index_slot key (p @ [key], tag val) dict"

definition reindex_users :: "path \<Rightarrow> string \<Rightarrow> nat json \<Rightarrow> ov_vocs_db \<Rightarrow> ov_vocs_db \<times> bool" where
  "reindex_users p key val db = (db\<lparr>index_users := reindex p key val (index_users db)\<rparr>, True)"

definition reindex_roles :: "path \<Rightarrow> string \<Rightarrow> nat json \<Rightarrow> ov_vocs_db \<Rightarrow> ov_vocs_db \<times> bool" where
  "reindex_roles p key val db = (db\<lparr>index_roles := reindex p key val (index_roles db)\<rparr>, True)"

definition reindex_loops :: "path \<Rightarrow> string \<Rightarrow> nat json \<Rightarrow> ov_vocs_db \<Rightarrow> ov_vocs_db \<times> bool" where
  "reindex_loops p key val db = (db\<lparr>index_loops := reindex p key val (index_loops db)\<rparr>, True)"

definition reindex_projects :: "path \<Rightarrow> string \<Rightarrow> nat json \<Rightarrow> ov_vocs_db \<Rightarrow> ov_vocs_db \<times> bool" where
  "reindex_projects p key val =
    each_then (ov_json_object_get (Some val) (Some ''loops'')) (reindex_loops (p @ [key, ''loops'']))
      (each_then (ov_json_object_get (Some val) (Some ''roles'')) (reindex_roles (p @ [key, ''roles'']))
        (each_then (ov_json_object_get (Some val) (Some ''users'')) (reindex_users (p @ [key, ''users'']))
          (\<lambda>db. (db\<lparr>index_projects := reindex p key val (index_projects db)\<rparr>, True))))"

definition reindex_domains :: "path \<Rightarrow> string \<Rightarrow> nat json \<Rightarrow> ov_vocs_db \<Rightarrow> ov_vocs_db \<times> bool" where
  "reindex_domains p key val =
    each_then (ov_json_object_get (Some val) (Some ''loops'')) (reindex_loops (p @ [key, ''loops'']))
      (each_then (ov_json_object_get (Some val) (Some ''roles'')) (reindex_roles (p @ [key, ''roles'']))
        (each_then (ov_json_object_get (Some val) (Some ''users'')) (reindex_users (p @ [key, ''users'']))
          (each_then (ov_json_object_get (Some val) (Some ''projects'')) (reindex_projects (p @ [key, ''projects'']))
            (\<lambda>db. (db\<lparr>index_domains := reindex p key val (index_domains db)\<rparr>, True)))))"

definition reindex_auth :: "ov_vocs_db \<Rightarrow> ov_vocs_db \<times> bool" where
  "reindex_auth db = ov_json_object_for_each (data_domains db) db (reindex_domains [])"

subsection \<open>Deletion\<close>

definition db_delete :: "ov_vocs_db \<Rightarrow> string \<Rightarrow> ov_vocs_db_entity \<Rightarrow> (ov_vocs_db \<times> bool) option" where
  "db_delete db eid entity =
    (case index_get (get_index_dict db entity) (Some eid) of
       None \<Rightarrow> Some (db, True)
     | Some src \<Rightarrow>
         do { (db1, result) \<leftarrow> (case entity of
                  OV_VOCS_DB_DOMAIN \<Rightarrow> unindex_domain db eid
                | OV_VOCS_DB_PROJECT \<Rightarrow> unindex_project db eid
                | OV_VOCS_DB_LOOP \<Rightarrow> Some (unindex_loops eid db)
                | OV_VOCS_DB_ROLE \<Rightarrow> Some (unindex_roles eid db)
                | OV_VOCS_DB_USER \<Rightarrow> Some (unindex_users eid db)
                | OV_VOCS_DB_ENTITY_ERROR \<Rightarrow> Some (db, False));
              val \<leftarrow> deref db1 src;
              if fst src = [] then None
              else (case dom_del (butlast (fst src)) eid db1 of (db2, ok) \<Rightarrow> Some (db2, result \<and> ok)) })"

fun index_for_each :: "(ptr \<Rightarrow> ov_vocs_db \<Rightarrow> (ov_vocs_db \<times> bool) option) \<Rightarrow> index \<Rightarrow> ov_vocs_db \<Rightarrow> (ov_vocs_db \<times> bool) option" where
  "index_for_each f [] db = Some (db, True)"
| "index_for_each f (e # es) db =
    do { (db', ok) \<leftarrow> f (snd e) db; if ok then index_for_each f es db' else Some (db', False) }"

definition delete_in_parent :: "string \<Rightarrow> string \<Rightarrow> ptr \<Rightarrow> ov_vocs_db \<Rightarrow> (ov_vocs_db \<times> bool) option" where
  "delete_in_parent item eid val db =
    do { v \<leftarrow> deref db val;
         case ov_json_object_get (Some v) (Some item) of
           None \<Rightarrow> Some (db, True)
         | Some entry \<Rightarrow> Some (dom_del (fst val @ [item]) eid db) }"

definition delete_loop_in_parent :: "string \<Rightarrow> ptr \<Rightarrow> ov_vocs_db \<Rightarrow> (ov_vocs_db \<times> bool) option" where
  "delete_loop_in_parent = delete_in_parent ''loops''"

definition delete_role_in_parent :: "string \<Rightarrow> ptr \<Rightarrow> ov_vocs_db \<Rightarrow> (ov_vocs_db \<times> bool) option" where
  "delete_role_in_parent = delete_in_parent ''roles''"

definition delete_user_in_parent :: "string \<Rightarrow> ptr \<Rightarrow> ov_vocs_db \<Rightarrow> (ov_vocs_db \<times> bool) option" where
  "delete_user_in_parent = delete_in_parent ''users''"

definition delete_project_in_parent :: "string \<Rightarrow> ptr \<Rightarrow> ov_vocs_db \<Rightarrow> (ov_vocs_db \<times> bool) option" where
  "delete_project_in_parent = delete_in_parent ''projects''"

definition ov_vocs_db_delete_entity :: "ov_vocs_db \<Rightarrow> bool \<Rightarrow> ov_vocs_db_entity \<Rightarrow> string \<Rightarrow> (ov_vocs_db \<times> bool) option" where
  "ov_vocs_db_delete_entity db lk entity eid =
    (if \<not> lk then Some (db, False)
     else do { (db1, result) \<leftarrow> db_delete db eid entity;
               case entity of
                 OV_VOCS_DB_DOMAIN \<Rightarrow>
                   do { (db2, ok) \<leftarrow> unindex_domain db1 eid; Some (db2, result \<and> ok) }
               | OV_VOCS_DB_PROJECT \<Rightarrow>
                   do { (db2, ok) \<leftarrow> index_for_each (delete_project_in_parent eid) (index_domains db1) db1; Some (db2, result \<and> ok) }
               | OV_VOCS_DB_LOOP \<Rightarrow>
                   do { (db2, ok) \<leftarrow> index_for_each (delete_loop_in_parent eid) (index_domains db1) db1;
                        (db3, ok') \<leftarrow> index_for_each (delete_loop_in_parent eid) (index_projects db2) db2; Some (db3, result \<and> ok \<and> ok') }
               | OV_VOCS_DB_ROLE \<Rightarrow>
                   do { (db2, ok) \<leftarrow> index_for_each (delete_role_in_parent eid) (index_domains db1) db1;
                        (db3, ok') \<leftarrow> index_for_each (delete_role_in_parent eid) (index_projects db2) db2; Some (db3, result \<and> ok \<and> ok') }
               | OV_VOCS_DB_USER \<Rightarrow>
                   do { (db2, ok) \<leftarrow> index_for_each (delete_user_in_parent eid) (index_roles db1) db1; Some (db2, result \<and> ok) }
               | OV_VOCS_DB_ENTITY_ERROR \<Rightarrow> Some (db1, False) })"

subsection \<open>Creation\<close>

definition get_create_parent :: "path \<Rightarrow> string \<Rightarrow> ov_vocs_db \<Rightarrow> ov_vocs_db \<times> path option" where
  "get_create_parent p key db =
    (if ov_json_object_get (dom_get db p) (Some key) \<noteq> None then (db, Some (p @ [key]))
     else (case dom_set p key (JObject (next_tag db) []) (db\<lparr>next_tag := Suc (next_tag db)\<rparr>) of
       (db', ok) \<Rightarrow> (db', if ok then Some (p @ [key]) else None)))"

fun parent_key :: "ov_vocs_db_entity \<Rightarrow> string option" where
  "parent_key OV_VOCS_DB_PROJECT = Some ''projects''"
| "parent_key OV_VOCS_DB_USER = Some ''users''"
| "parent_key OV_VOCS_DB_LOOP = Some ''loops''"
| "parent_key OV_VOCS_DB_ROLE = Some ''roles''"
| "parent_key _ = None"

text \<open>The parent of a new entity is an object of the tree; there is none in case of an error.\<close>

definition get_parent ::
  "ov_vocs_db \<Rightarrow> ov_vocs_db_entity \<Rightarrow> ov_vocs_db_scope \<Rightarrow> string option \<Rightarrow> (ov_vocs_db \<times> path option) option" where
  "get_parent db entity scope scope_id =
    (if entity = OV_VOCS_DB_DOMAIN then
       (if scope \<noteq> OV_VOCS_DB_SCOPE_DOMAIN then Some (db, None)
        else if data_domains db = None
        then Some (db\<lparr>data_domains := Some (JObject (next_tag db) []), next_tag := Suc (next_tag db)\<rparr>, Some [])
        else Some (db, Some []))
     else (case scope of
         OV_VOCS_DB_SCOPE_PROJECT \<Rightarrow>
           (case index_get (Some (index_projects db)) scope_id of
              None \<Rightarrow> Some (db, None)
            | Some data \<Rightarrow>
                if entity = OV_VOCS_DB_PROJECT then Some (db, None)
                else (case parent_key entity of
                   None \<Rightarrow> Some (db, None)
                 | Some key \<Rightarrow> do { v \<leftarrow> deref db data; Some (get_create_parent (fst data) key db) }))
       | OV_VOCS_DB_SCOPE_DOMAIN \<Rightarrow>
           (case ov_json_object_get (data_domains db) scope_id of
              None \<Rightarrow> Some (db, None)
            | Some data \<Rightarrow>
                (case parent_key entity of
                   None \<Rightarrow> Some (db, None)
                 | Some key \<Rightarrow> Some (get_create_parent [the scope_id] key db)))))"

definition ov_vocs_db_create_entity ::
  "ov_vocs_db \<Rightarrow> bool \<Rightarrow> ov_vocs_db_entity \<Rightarrow> string \<Rightarrow> ov_vocs_db_scope \<Rightarrow> string option \<Rightarrow> (ov_vocs_db \<times> bool) option" where
  "ov_vocs_db_create_entity db lk entity eid scope scope_id =
    (if \<not> lk then Some (db, False)
     else if \<not> (entity = OV_VOCS_DB_ROLE \<and> eid = ''admin'') \<and> index_get (get_index_dict db entity) (Some eid) \<noteq> None
     then Some (db, False)
     else do { (db1, parent) \<leftarrow> get_parent db entity scope scope_id;
               case parent of
                 None \<Rightarrow> Some (db1, False)
               | Some p \<Rightarrow>
                   (let t = next_tag db1; out = fst (ov_json_object_set (JObject t []) ''id'' (JString t (Some eid)))
                    in (case dom_set p eid out (db1\<lparr>next_tag := Suc t\<rparr>) of
                          (db2, ok) \<Rightarrow>
                            if \<not> ok then Some (db2, False)
                            else if entity = OV_VOCS_DB_ROLE \<and> eid = ''admin'' then Some (db2, True)
                            else Some (change_index entity (reindex p eid out) db2, True))) })"

subsection \<open>Parents of an entity\<close>

text \<open>The value at the parent of the parent of a pointer. A pointer has a parent that is not NULL.\<close>

definition second_up :: "ov_vocs_db \<Rightarrow> path \<Rightarrow> nat json option" where
  "second_up db p = (if length p < 2 then None else dom_get db (butlast (butlast p)))"

definition ov_vocs_db_get_parent ::
  "ov_vocs_db \<Rightarrow> bool \<Rightarrow> ov_vocs_db_entity \<Rightarrow> string \<Rightarrow> (ov_vocs_db_scope \<times> string option) option" where
  "ov_vocs_db_get_parent db lk entity eid =
    (if \<not> lk then Some (OV_VOCS_DB_SCOPE_DOMAIN, None)
     else (case index_get (get_index_dict db entity) (Some eid) of
       None \<Rightarrow> Some (OV_VOCS_DB_SCOPE_DOMAIN, None)
     | Some item \<Rightarrow>
         if entity = OV_VOCS_DB_DOMAIN then Some (OV_VOCS_DB_SCOPE_DOMAIN, Some eid)
         else do { v \<leftarrow> deref db item;
                   if fst item = [] then None
                   else (let up = second_up db (fst item) in
                     Some (if ov_json_object_get up (Some ''projects'') \<noteq> None then OV_VOCS_DB_SCOPE_DOMAIN else OV_VOCS_DB_SCOPE_PROJECT,
                       ov_vocs_json_get_id up)) }))"

definition ov_vocs_db_get_entity_domain ::
  "ov_vocs_db \<Rightarrow> bool \<Rightarrow> ov_vocs_db_entity \<Rightarrow> string \<Rightarrow> unit json option option" where
  "ov_vocs_db_get_entity_domain db lk entity eid =
    (if \<not> lk then Some None
     else (case index_get (get_index_dict db entity) (Some eid) of
       None \<Rightarrow> Some None
     | Some src \<Rightarrow>
         do { v \<leftarrow> deref db src;
              let p = fst src in
              if length p < 3 then Some None
              else if length p = 3
              then Some (Some (fst (ov_json_object_set (JObject () []) ''domain'' (JString () (ov_vocs_json_get_id (second_up db p))))))
              else (let project_id = ov_vocs_json_get_id (second_up db p);
                        domain_id = ov_vocs_json_get_id (second_up db (butlast (butlast p)));
                        out = fst (ov_json_object_set (JObject () []) ''domain'' (JString () domain_id))
                    in Some (Some (if project_id = None then out else fst (ov_json_object_set out ''project'' (JString () project_id))))) }))"

subsection \<open>Import and export\<close>

definition inject_auth :: "ov_vocs_db \<Rightarrow> bool \<Rightarrow> unit json \<Rightarrow> ov_vocs_db \<times> bool" where
  "inject_auth db lk data =
    (if \<not> lk then (db, False)
     else reindex_auth (index_clear (db\<lparr>data_domains := Some (ov_json_value_copy (next_tag db) data), next_tag := Suc (next_tag db)\<rparr>)))"

definition inject_state :: "ov_vocs_db \<Rightarrow> bool \<Rightarrow> unit json \<Rightarrow> ov_vocs_db \<times> bool" where
  "inject_state db lk data =
    (if \<not> lk then (db, False)
     else (db\<lparr>data_state := Some (ov_json_value_copy (next_tag db) data), next_tag := Suc (next_tag db)\<rparr>, True))"

fun ov_vocs_db_inject :: "ov_vocs_db \<Rightarrow> bool \<Rightarrow> ov_vocs_db_type \<Rightarrow> unit json \<Rightarrow> ov_vocs_db \<times> bool" where
  "ov_vocs_db_inject db lk OV_VOCS_DB_TYPE_AUTH data = inject_auth db lk data"
| "ov_vocs_db_inject db lk OV_VOCS_DB_TYPE_STATE data = inject_state db lk data"

definition ov_vocs_db_eject :: "ov_vocs_db \<Rightarrow> bool \<Rightarrow> ov_vocs_db_type \<Rightarrow> unit json option" where
  "ov_vocs_db_eject db lk type =
    (if \<not> lk then None
     else map_option (ov_json_value_copy ())
       (case type of OV_VOCS_DB_TYPE_AUTH \<Rightarrow> data_domains db | OV_VOCS_DB_TYPE_STATE \<Rightarrow> data_state db))"

text \<open>Changes of a copy, in place, as the callbacks of iterations.\<close>

definition delete_password_for_export :: "'a json \<Rightarrow> 'a json \<times> bool" where
  "delete_password_for_export val = ov_json_object_del val ''password''"

definition delete_password_in_project :: "'a json \<Rightarrow> 'a json \<times> bool" where
  "delete_password_in_project val =
    (case ov_json_object_get (Some val) (Some ''users'') of
       None \<Rightarrow> (val, True)
     | Some users \<Rightarrow>
         (upd [''users''] (\<lambda>u. fst (json_object_modify_each delete_password_for_export u)) val,
          snd (json_object_modify_each delete_password_for_export users)))"

definition lock_db_get :: "ov_vocs_db \<Rightarrow> bool \<Rightarrow> string \<Rightarrow> index option \<Rightarrow> unit json option option" where
  "lock_db_get db lk eid dict =
    (if dict = None \<or> \<not> lk then Some None
     else (case index_get dict (Some eid) of
       None \<Rightarrow> Some None
     | Some src \<Rightarrow>
         do { v \<leftarrow> deref db src;
              let cpy = fst (ov_json_object_del (ov_json_value_copy () v) ''password'');
                  cpy1 = upd [''users''] (\<lambda>u. fst (json_object_modify_each delete_password_for_export u)) cpy
              in Some (Some (upd [''projects''] (\<lambda>u. fst (json_object_modify_each delete_password_in_project u)) cpy1)) }))"

definition ov_vocs_db_get_entity :: "ov_vocs_db \<Rightarrow> bool \<Rightarrow> ov_vocs_db_entity \<Rightarrow> string \<Rightarrow> unit json option option" where
  "ov_vocs_db_get_entity db lk entity eid = lock_db_get db lk eid (get_index_dict db entity)"

definition ov_vocs_db_get_entity_key ::
  "ov_vocs_db \<Rightarrow> bool \<Rightarrow> ov_vocs_db_entity \<Rightarrow> string \<Rightarrow> string \<Rightarrow> unit json option option" where
  "ov_vocs_db_get_entity_key db lk entity eid key =
    (if \<not> lk then Some None
     else if key = ''password'' then Some (Some (JNull ()))
     else (case index_get (get_index_dict db entity) (Some eid) of
       None \<Rightarrow> Some (Some (JNull ()))
     | Some item \<Rightarrow>
         do { v \<leftarrow> deref db item;
              case ov_json_object_get (Some v) (Some key) of
                None \<Rightarrow> Some (Some (JNull ()))
              | Some data \<Rightarrow> Some (Some (ov_json_value_copy () data)) }))"

subsection \<open>Authentication and authorization\<close>

text \<open>
  The hash of a password and its test come from \<open>ov_password.c\<close>, over salted hashes of OpenSSL, and are parameters.
\<close>

definition ov_vocs_db_set_password ::
  "(string \<Rightarrow> unit json option) \<Rightarrow> ov_vocs_db \<Rightarrow> bool \<Rightarrow> string \<Rightarrow> string \<Rightarrow> (ov_vocs_db \<times> bool) option" where
  "ov_vocs_db_set_password password_hash db lk user pass =
    (if \<not> lk then Some (db, False)
     else (case index_get (Some (index_users db)) (Some user) of
       None \<Rightarrow> Some (db, False)
     | Some data \<Rightarrow>
         do { v \<leftarrow> deref db data;
              case password_hash pass of
                None \<Rightarrow> Some (db, False)
              | Some hash \<Rightarrow>
                  Some (dom_set (fst data) ''password'' (ov_json_value_copy (next_tag db) hash) (db\<lparr>next_tag := Suc (next_tag db)\<rparr>)) }))"

definition ov_vocs_db_authenticate ::
  "(string \<Rightarrow> unit json option \<Rightarrow> bool) \<Rightarrow> ov_vocs_db \<Rightarrow> bool \<Rightarrow> string \<Rightarrow> string \<Rightarrow> bool option" where
  "ov_vocs_db_authenticate password_is_valid db lk user pass =
    (if \<not> lk then Some False
     else (case index_get (Some (index_users db)) (Some user) of
       None \<Rightarrow> Some False
     | Some data \<Rightarrow>
         do { v \<leftarrow> deref db data;
              Some (password_is_valid pass (map_option (ov_json_value_copy ()) (ov_json_object_get (Some v) (Some ''password'')))) }))"

definition ov_vocs_db_authorize :: "ov_vocs_db \<Rightarrow> bool \<Rightarrow> string \<Rightarrow> string \<Rightarrow> bool option" where
  "ov_vocs_db_authorize db lk user role =
    (if \<not> lk then Some False
     else if index_get (Some (index_users db)) (Some user) = None then Some False
     else (case index_get (Some (index_roles db)) (Some role) of
       None \<Rightarrow> Some False
     | Some role_data \<Rightarrow>
         do { v \<leftarrow> deref db role_data;
              Some (ov_json_object_get (ov_json_object_get (Some v) (Some ''users'')) (Some user) \<noteq> None) }))"

definition ov_vocs_db_get_permission :: "ov_vocs_db \<Rightarrow> bool \<Rightarrow> string \<Rightarrow> string \<Rightarrow> ov_vocs_permission option" where
  "ov_vocs_db_get_permission db lk role loop =
    (if \<not> lk then Some OV_VOCS_NONE
     else (case index_get (Some (index_loops db)) (Some loop) of
       None \<Rightarrow> Some OV_VOCS_NONE
     | Some loop_data \<Rightarrow>
         do { v \<leftarrow> deref db loop_data;
              let data = ov_json_object_get (ov_json_object_get (Some v) (Some ''roles'')) (Some role)
              in Some (if ov_json_is_true data then OV_VOCS_SEND else if ov_json_is_false data then OV_VOCS_RECV else OV_VOCS_NONE) }))"

definition authorize_domain_admin :: "ov_vocs_db \<Rightarrow> string \<Rightarrow> string option \<Rightarrow> bool option" where
  "authorize_domain_admin db user eid =
    (case index_get (Some (index_domains db)) eid of
       None \<Rightarrow> Some False
     | Some domain \<Rightarrow> do { v \<leftarrow> deref db domain; Some (ov_vocs_json_is_admin_user (Some v) user) })"

definition ov_vocs_db_authorize_domain_admin :: "ov_vocs_db \<Rightarrow> bool \<Rightarrow> string \<Rightarrow> string \<Rightarrow> bool option" where
  "ov_vocs_db_authorize_domain_admin db lk user eid = (if \<not> lk then Some False else authorize_domain_admin db user (Some eid))"

definition authorize_project_admin :: "ov_vocs_db \<Rightarrow> string \<Rightarrow> string \<Rightarrow> bool option" where
  "authorize_project_admin db user eid =
    (case index_get (Some (index_projects db)) (Some eid) of
       None \<Rightarrow> Some False
     | Some project \<Rightarrow>
         do { v \<leftarrow> deref db project;
              if ov_vocs_json_is_admin_user (Some v) user then Some True
              else if length (fst project) < 2 then Some False
              else authorize_domain_admin db user (ov_vocs_json_get_id (second_up db (fst project))) })"

definition ov_vocs_db_authorize_project_admin :: "ov_vocs_db \<Rightarrow> bool \<Rightarrow> string \<Rightarrow> string \<Rightarrow> bool option" where
  "ov_vocs_db_authorize_project_admin db lk user eid = (if \<not> lk then Some False else authorize_project_admin db user eid)"

text \<open>
  The member of an object, which is created if there is none; without path, the object is not part of the tree. The code does not test
  if the new member could be set, and a new object that is not part of the tree is lost.
\<close>

definition ensure_member :: "string \<Rightarrow> ov_vocs_db \<times> path option \<Rightarrow> ov_vocs_db \<times> path option" where
  "ensure_member key s =
    (case s of
       (db, None) \<Rightarrow> (db, None)
     | (db, Some p) \<Rightarrow> get_create_parent p key db)"

definition add_admin :: "path \<Rightarrow> string \<Rightarrow> ov_vocs_db \<Rightarrow> ov_vocs_db \<times> bool" where
  "add_admin p eid db =
    (case ensure_member ''users'' (ensure_member ''admin'' (ensure_member ''roles'' (db, Some p))) of
       (db', None) \<Rightarrow> (db', True)
     | (db', Some users) \<Rightarrow> dom_set users eid (JNull (next_tag db')) (db'\<lparr>next_tag := Suc (next_tag db')\<rparr>))"

definition ov_vocs_db_add_project_admin :: "ov_vocs_db \<Rightarrow> bool \<Rightarrow> string \<Rightarrow> string \<Rightarrow> (ov_vocs_db \<times> bool) option" where
  "ov_vocs_db_add_project_admin db lk project eid =
    (if \<not> lk then Some (db, False)
     else (case index_get (Some (index_projects db)) (Some project) of
       None \<Rightarrow> Some (db, False)
     | Some project_obj \<Rightarrow> do { v \<leftarrow> deref db project_obj; Some (add_admin (fst project_obj) eid db) }))"

definition ov_vocs_db_add_domain_admin :: "ov_vocs_db \<Rightarrow> bool \<Rightarrow> string \<Rightarrow> string \<Rightarrow> (ov_vocs_db \<times> bool) option" where
  "ov_vocs_db_add_domain_admin db lk domain eid =
    (if \<not> lk then Some (db, False)
     else (case index_get (Some (index_domains db)) (Some domain) of
       None \<Rightarrow> Some (db, False)
     | Some domain_obj \<Rightarrow> do { v \<leftarrow> deref db domain_obj; Some (add_admin (fst domain_obj) eid db) }))"

fun admin_domains :: "ov_vocs_db \<Rightarrow> string \<Rightarrow> index \<Rightarrow> string list option" where
  "admin_domains db user [] = Some []"
| "admin_domains db user (e # es) =
    do { ok \<leftarrow> authorize_domain_admin db user (Some (fst e));
         ids \<leftarrow> admin_domains db user es;
         Some (if ok then fst e # ids else ids) }"

definition ov_vocs_db_get_admin_domains :: "ov_vocs_db \<Rightarrow> bool \<Rightarrow> string \<Rightarrow> unit json option option" where
  "ov_vocs_db_get_admin_domains db lk user =
    (if \<not> lk then Some None
     else do { ids \<leftarrow> admin_domains db user (index_domains db); Some (Some (JArray () (map (\<lambda>i. JString () (Some i)) ids))) })"

subsection \<open>State of the users\<close>

text \<open>Members of the objects of the state, which are created if there are none.\<close>

definition state_ensure :: "string \<Rightarrow> ov_vocs_db \<times> path option \<Rightarrow> ov_vocs_db \<times> path option" where
  "state_ensure key s =
    (case s of
       (db, Some p) \<Rightarrow>
         (case data_state db of
            None \<Rightarrow> (db, None)
          | Some v \<Rightarrow>
              if ov_json_object_get (lookup v p) (Some key) \<noteq> None then (db, Some (p @ [key]))
              else if object_at v p
              then (db\<lparr>data_state := Some (set_at p key (JObject (next_tag db) []) v), next_tag := Suc (next_tag db)\<rparr>, Some (p @ [key]))
              else (db, None))
     | (db, None) \<Rightarrow> (db, None))"

definition get_set_loop :: "ov_vocs_db \<Rightarrow> string \<Rightarrow> string \<Rightarrow> string \<Rightarrow> ov_vocs_db \<times> path option" where
  "get_set_loop db user role loop =
    (let db0 = (if data_state db = None then db\<lparr>data_state := Some (JObject (next_tag db) []), next_tag := Suc (next_tag db)\<rparr> else db)
     in state_ensure loop (state_ensure role (state_ensure user (db0, Some []))))"

definition get_loop_settings :: "ov_vocs_db \<Rightarrow> string \<Rightarrow> string \<Rightarrow> string \<Rightarrow> nat json option" where
  "get_loop_settings db user role loop =
    ov_json_object_get (ov_json_object_get (ov_json_object_get (data_state db) (Some user)) (Some role)) (Some loop)"

definition state_set :: "path \<Rightarrow> string \<Rightarrow> (nat \<Rightarrow> nat json) \<Rightarrow> ov_vocs_db \<Rightarrow> ov_vocs_db \<times> bool" where
  "state_set p key x db =
    (case data_state db of
       None \<Rightarrow> (db, False)
     | Some v \<Rightarrow>
         if object_at v p then (db\<lparr>data_state := Some (set_at p key (x (next_tag db)) v), next_tag := Suc (next_tag db)\<rparr>, True)
         else (db, False))"

definition ov_vocs_db_set_state ::
  "ov_vocs_db \<Rightarrow> bool \<Rightarrow> string \<Rightarrow> string \<Rightarrow> string \<Rightarrow> ov_vocs_permission \<Rightarrow> ov_vocs_db \<times> bool" where
  "ov_vocs_db_set_state db lk user role loop state =
    (if \<not> lk then (db, False)
     else (case get_set_loop db user role loop of
       (db', None) \<Rightarrow> (db', False)
     | (db', Some obj) \<Rightarrow> state_set obj ''state'' (\<lambda>t. JString t (Some (ov_vocs_permission_to_string state))) db'))"

definition ov_vocs_db_get_state :: "ov_vocs_db \<Rightarrow> bool \<Rightarrow> string \<Rightarrow> string \<Rightarrow> string \<Rightarrow> ov_vocs_permission" where
  "ov_vocs_db_get_state db lk user role loop =
    (if \<not> lk then OV_VOCS_NONE
     else (case get_loop_settings db user role loop of
       None \<Rightarrow> OV_VOCS_NONE
     | Some obj \<Rightarrow> ov_vocs_permission_from_json (ov_json_object_get (Some obj) (Some ''state''))))"

definition ov_vocs_db_set_volume ::
  "ov_vocs_db \<Rightarrow> bool \<Rightarrow> string \<Rightarrow> string \<Rightarrow> string \<Rightarrow> u8 \<Rightarrow> ov_vocs_db \<times> bool" where
  "ov_vocs_db_set_volume db lk user role loop volume =
    (if volume > 100 then (db, False)
     else if \<not> lk then (db, False)
     else (case get_set_loop db user role loop of
       (db', None) \<Rightarrow> (db', False)
     | (db', Some obj) \<Rightarrow> state_set obj ''volume'' (\<lambda>t. JNumber t (of_nat (unat volume))) db'))"

text \<open>The conversion of a double to \<open>uint8_t\<close> truncates; it is undefined if the result does not fit.\<close>

definition double_to_u8 :: "rat \<Rightarrow> u8 option" where
  "double_to_u8 x = (if - 1 < x \<and> x < 256 then Some (of_int (if x < 0 then 0 else \<lfloor>x\<rfloor>)) else None)"

definition ov_vocs_db_get_volume :: "ov_vocs_db \<Rightarrow> bool \<Rightarrow> string \<Rightarrow> string \<Rightarrow> string \<Rightarrow> u8 option" where
  "ov_vocs_db_get_volume db lk user role loop =
    (if \<not> lk then Some 0
     else (case get_loop_settings db user role loop of
       None \<Rightarrow> Some 0
     | Some obj \<Rightarrow> double_to_u8 (ov_json_number_get (ov_json_object_get (Some obj) (Some ''volume'')))))"

definition ov_vocs_db_get_layout :: "ov_vocs_db \<Rightarrow> bool \<Rightarrow> string \<Rightarrow> unit json option option" where
  "ov_vocs_db_get_layout db lk role =
    (if \<not> lk then Some None
     else (case index_get (Some (index_roles db)) (Some role) of
       None \<Rightarrow> Some None
     | Some role_data \<Rightarrow>
         do { v \<leftarrow> deref db role_data;
              Some (Some (case ov_json_object_get (Some v) (Some ''layout'') of
                 None \<Rightarrow> JObject () []
               | Some layout \<Rightarrow> ov_json_value_copy () layout)) }))"

definition ov_vocs_db_set_layout :: "ov_vocs_db \<Rightarrow> bool \<Rightarrow> string \<Rightarrow> unit json \<Rightarrow> (ov_vocs_db \<times> bool) option" where
  "ov_vocs_db_set_layout db lk role layout =
    (if \<not> lk then Some (db, False)
     else (case index_get (Some (index_roles db)) (Some role) of
       None \<Rightarrow> Some (db, False)
     | Some role_data \<Rightarrow>
         do { v \<leftarrow> deref db role_data;
              Some (dom_set (fst role_data) ''layout'' (ov_json_value_copy (next_tag db) layout) (db\<lparr>next_tag := Suc (next_tag db)\<rparr>)) }))"

definition ov_vocs_db_check_id_exists :: "ov_vocs_db \<Rightarrow> bool \<Rightarrow> string \<Rightarrow> bool" where
  "ov_vocs_db_check_id_exists db lk eid =
    (if \<not> lk then True
     else if map_of (index_domains db) eid \<noteq> None then True
     else if map_of (index_projects db) eid \<noteq> None then True
     else if map_of (index_users db) eid \<noteq> None then True
     else if map_of (index_roles db) eid \<noteq> None then True
     else map_of (index_loops db) eid \<noteq> None)"

definition ov_vocs_db_check_entity_id_exists :: "ov_vocs_db \<Rightarrow> bool \<Rightarrow> ov_vocs_db_entity \<Rightarrow> string \<Rightarrow> bool" where
  "ov_vocs_db_check_entity_id_exists db lk entity eid =
    (case get_index_dict db entity of
       None \<Rightarrow> True
     | Some dict \<Rightarrow> if \<not> lk then True else map_of dict eid \<noteq> None)"

end
