(* ===== verification/Ov_Vocs_Db_Inv.thy ===== *)
theory Ov_Vocs_Db_Inv
  imports Ov_Vocs_Db
begin

text \<open>
  The invariant of the vocs database and its preservation by the operations: the indexes and the tree of the domains agree.
\<close>

subsection \<open>Entities of a tree\<close>

text \<open>The paths at which an entity of a kind and an id can be.\<close>

fun entity_at :: "ov_vocs_db_entity \<Rightarrow> path \<Rightarrow> string \<Rightarrow> bool" where
  "entity_at OV_VOCS_DB_DOMAIN p i \<longleftrightarrow> p = [i]"
| "entity_at OV_VOCS_DB_PROJECT p i \<longleftrightarrow> (\<exists>d. p = [d, ''projects'', i])"
| "entity_at OV_VOCS_DB_LOOP p i \<longleftrightarrow> (\<exists>d. p = [d, ''loops'', i]) \<or> (\<exists>d x. p = [d, ''projects'', x, ''loops'', i])"
| "entity_at OV_VOCS_DB_ROLE p i \<longleftrightarrow> (\<exists>d. p = [d, ''roles'', i]) \<or> (\<exists>d x. p = [d, ''projects'', x, ''roles'', i])"
| "entity_at OV_VOCS_DB_USER p i \<longleftrightarrow> (\<exists>d. p = [d, ''users'', i]) \<or> (\<exists>d x. p = [d, ''projects'', x, ''users'', i])"
| "entity_at OV_VOCS_DB_ENTITY_ERROR p i \<longleftrightarrow> False"

text \<open>Every domain and every project may have a role with the name admin. New ones are not put into the index.\<close>

definition admin_role :: "ov_vocs_db_entity \<Rightarrow> string \<Rightarrow> bool" where
  "admin_role K i \<longleftrightarrow> K = OV_VOCS_DB_ROLE \<and> i = ''admin''"

text \<open>The objects that hold entities.\<close>

definition container :: "path \<Rightarrow> bool" where
  "container p \<longleftrightarrow> (\<exists>d k. p = [d, k] \<and> k \<in> {''users'', ''roles'', ''loops'', ''projects''}) \<or>
    (\<exists>d x k. p = [d, ''projects'', x, k] \<and> k \<in> {''users'', ''roles'', ''loops''})"

definition dnode :: "ov_vocs_db \<Rightarrow> path \<Rightarrow> (nat \<times> bool) option" where
  "dnode db p = Option.bind (data_domains db) (\<lambda>v. node v p)"

definition idx :: "ov_vocs_db \<Rightarrow> ov_vocs_db_entity \<Rightarrow> string \<Rightarrow> ptr option" where
  "idx db K i = index_get (get_index_dict db K) (Some i)"

text \<open>
  Each entry of an index points to an entity of the tree, and the entities of the tree are in the index, but for the roles with the name admin. So
  each id is used once in the tree, but for that name.
\<close>

definition sound_index :: "ov_vocs_db \<Rightarrow> bool" where
  "sound_index db \<longleftrightarrow> (\<forall>K i p t. idx db K i = Some (p, t) \<longrightarrow> entity_at K p i \<and> (\<exists>b. dnode db p = Some (t, b)))"

definition complete_index :: "ov_vocs_db \<Rightarrow> bool" where
  "complete_index db \<longleftrightarrow> (\<forall>K i p t b. entity_at K p i \<longrightarrow> \<not> admin_role K i \<longrightarrow> dnode db p = Some (t, b) \<longrightarrow> idx db K i = Some (p, t))"

definition consistent :: "ov_vocs_db \<Rightarrow> bool" where
  "consistent db \<longleftrightarrow> sound_index db \<and> complete_index db"

definition indexes_ok :: "ov_vocs_db \<Rightarrow> bool" where
  "indexes_ok db \<longleftrightarrow> (\<forall>K es. get_index_dict db K = Some es \<longrightarrow> in_slots index_slot es)"

definition domains_ok :: "ov_vocs_db \<Rightarrow> bool" where
  "domains_ok db \<longleftrightarrow> (\<forall>v. data_domains db = Some v \<longrightarrow> tree_ok v \<and> object_at v []) \<and>
    (\<forall>p t b. container p \<longrightarrow> dnode db p = Some (t, b) \<longrightarrow> b)"

definition vocs_db_inv :: "ov_vocs_db \<Rightarrow> bool" where
  "vocs_db_inv db \<longleftrightarrow> consistent db \<and> indexes_ok db \<and> domains_ok db"

lemma soundD: "consistent db \<Longrightarrow> idx db K i = Some p \<Longrightarrow> entity_at K (fst p) i \<and> (\<exists>b. dnode db (fst p) = Some (snd p, b))"
  by (cases p) (auto simp: consistent_def sound_index_def)

lemma completeD: "consistent db \<Longrightarrow> entity_at K p i \<Longrightarrow> \<not> admin_role K i \<Longrightarrow> dnode db p = Some (t, b) \<Longrightarrow> idx db K i = Some (p, t)"
  by (auto simp: consistent_def complete_index_def)

subsection \<open>Paths\<close>

lemma entity_at_nonempty [simp]: "\<not> entity_at K [] i"
  by (cases K) auto

lemma entity_at_last: "entity_at K p i \<Longrightarrow> p = butlast p @ [i]"
  by (cases K) auto

lemma entity_at_inj: "entity_at K p i \<Longrightarrow> entity_at K' p i' \<Longrightarrow> K = K' \<and> i = i'"
  by (cases K; cases K') auto

lemma leaf_entity:
  assumes "entity_at K p i" "K \<in> {OV_VOCS_DB_LOOP, OV_VOCS_DB_ROLE, OV_VOCS_DB_USER}" "prefix p q" "entity_at K' q i'"
  shows "q = p"
  using assms by (cases K; cases K') (auto simp: prefix_def)

lemma entity_inside:
  assumes "entity_at K p i" "k \<notin> {''users'', ''roles'', ''loops'', ''projects''}" "prefix (p @ [k]) q"
  shows "\<not> entity_at K' q i'" "\<not> container q"
  using assms by (cases K; cases K'; auto simp: prefix_def container_def)+

subsection \<open>Databases as trees of nodes\<close>

lemma idx_simps:
  "idx db OV_VOCS_DB_DOMAIN i = map_of (index_domains db) i"
  "idx db OV_VOCS_DB_PROJECT i = map_of (index_projects db) i"
  "idx db OV_VOCS_DB_LOOP i = map_of (index_loops db) i"
  "idx db OV_VOCS_DB_ROLE i = map_of (index_roles db) i"
  "idx db OV_VOCS_DB_USER i = map_of (index_users db) i"
  "idx db OV_VOCS_DB_ENTITY_ERROR i = None"
  by (auto simp: idx_def index_get_def)

lemma idx_cong: "get_index_dict db = get_index_dict db' \<Longrightarrow> idx db = idx db'"
  by (simp add: idx_def fun_eq_iff)

lemma get_index_cong [simp]:
  "get_index_dict (db\<lparr>data_domains := x\<rparr>) K = get_index_dict db K"
  "get_index_dict (db\<lparr>data_state := y\<rparr>) K = get_index_dict db K"
  "get_index_dict (db\<lparr>next_tag := n\<rparr>) K = get_index_dict db K"
  by (cases K; simp)+

lemma dnode_cong [simp]:
  "dnode (db\<lparr>data_state := y\<rparr>) = dnode db" "dnode (db\<lparr>next_tag := n\<rparr>) = dnode db"
  "dnode (db\<lparr>index_domains := a\<rparr>) = dnode db" "dnode (db\<lparr>index_projects := a\<rparr>) = dnode db" "dnode (db\<lparr>index_users := a\<rparr>) = dnode db"
  "dnode (db\<lparr>index_roles := a\<rparr>) = dnode db" "dnode (db\<lparr>index_loops := a\<rparr>) = dnode db"
  by (auto simp: dnode_def fun_eq_iff)

lemma deref_node: "dnode db (fst p) = Some (snd p, b) \<Longrightarrow> \<exists>v. deref db p = Some v \<and> dom_get db (fst p) = Some v \<and> ov_json_is_object (Some v) = b"
  by (auto simp: dnode_def deref_def dom_get_def node_def bind_eq_Some_conv)

lemma deref_inv:
  assumes "consistent db" "idx db K i = Some p"
  shows "\<exists>v. deref db p = Some v \<and> dom_get db (fst p) = Some v"
proof -
  from soundD [OF assms] obtain b where "dnode db (fst p) = Some (snd p, b)" by blast
  from deref_node [OF this] show ?thesis by blast
qed

lemma dom_get_object: "ov_json_is_object (dom_get db p) \<longleftrightarrow> (\<exists>t. dnode db p = Some (t, True))"
  by (cases "data_domains db") (auto simp: dom_get_def dnode_def node_def elim: ov_json_is_object.elims)

lemma dnode_under: "dnode db (p @ [k]) \<noteq> None \<longleftrightarrow> ov_json_object_get (dom_get db p) (Some k) \<noteq> None"
  by (cases "data_domains db") (auto simp: dnode_def dom_get_def node_def lookup_under)

lemma dnode_prefix: "prefix p q \<Longrightarrow> dnode db p = None \<Longrightarrow> dnode db q = None"
  by (cases "data_domains db") (auto simp: dnode_def node_def lookup_append elim!: prefixE)

lemma dom_set_dnode:
  assumes "domains_ok db" "dom_set p k x db = (db', ok)" "tree_ok x"
  shows "get_index_dict db' = get_index_dict db" "data_state db' = data_state db" "next_tag db' = next_tag db"
    "ok \<longleftrightarrow> (\<exists>t. dnode db p = Some (t, True))" "\<not> ok \<Longrightarrow> db' = db"
    "ok \<Longrightarrow> dnode db' q = (if prefix (p @ [k]) q then node x (drop (Suc (length p)) q) else dnode db q)"
    "ok \<Longrightarrow> data_domains db' = Some v' \<Longrightarrow> tree_ok v' \<and> object_at v' []"
proof -
  show "get_index_dict db' = get_index_dict db" "data_state db' = data_state db" "next_tag db' = next_tag db" "\<not> ok \<Longrightarrow> db' = db"
    "ok \<longleftrightarrow> (\<exists>t. dnode db p = Some (t, True))"
    using assms(2) by (auto simp: dom_set_def object_at_node dnode_def fun_eq_iff split: option.splits if_splits)
  assume ok
  then obtain v where v: "data_domains db = Some v" "object_at v p" "db' = db\<lparr>data_domains := Some (set_at p k x v)\<rparr>"
    using assms(2) by (auto simp: dom_set_def split: option.splits if_splits)
  then have t: "tree_ok v" "object_at v []" using assms(1) by (auto simp: domains_ok_def)
  from v node_set_at [OF t(1) v(2)] show "dnode db' q = (if prefix (p @ [k]) q then node x (drop (Suc (length p)) q) else dnode db q)"
    by (simp add: dnode_def)
  show "data_domains db' = Some v' \<Longrightarrow> tree_ok v' \<and> object_at v' []"
    using v t assms(3) tree_ok_set_at node_set_at [OF t(1) v(2), of k x "[]"] by (auto simp: object_at_node)
qed

lemma dom_del_dnode:
  assumes "domains_ok db" "dom_del p k db = (db', ok)"
  shows "get_index_dict db' = get_index_dict db" "data_state db' = data_state db" "next_tag db' = next_tag db"
    "ok \<longleftrightarrow> (\<exists>t. dnode db p = Some (t, True))" "\<not> ok \<Longrightarrow> db' = db"
    "ok \<Longrightarrow> dnode db' q = (if prefix (p @ [k]) q then None else dnode db q)"
    "ok \<Longrightarrow> data_domains db' = Some v' \<Longrightarrow> tree_ok v' \<and> object_at v' []"
proof -
  show "get_index_dict db' = get_index_dict db" "data_state db' = data_state db" "next_tag db' = next_tag db" "\<not> ok \<Longrightarrow> db' = db"
    "ok \<longleftrightarrow> (\<exists>t. dnode db p = Some (t, True))"
    using assms(2) by (auto simp: dom_del_def object_at_node dnode_def fun_eq_iff split: option.splits if_splits)
  assume ok
  then obtain v where v: "data_domains db = Some v" "object_at v p" "db' = db\<lparr>data_domains := Some (del_at p k v)\<rparr>"
    using assms(2) by (auto simp: dom_del_def split: option.splits if_splits)
  then have t: "tree_ok v" "object_at v []" using assms(1) by (auto simp: domains_ok_def)
  from v node_del_at [OF v(2)] show "dnode db' q = (if prefix (p @ [k]) q then None else dnode db q)"
    by (simp add: dnode_def)
  show "data_domains db' = Some v' \<Longrightarrow> tree_ok v' \<and> object_at v' []"
    using v t tree_ok_del_at node_del_at [OF v(2), of k "[]"] by (auto simp: object_at_node)
qed

subsection \<open>Changes that keep the invariant\<close>

lemma inv_cong:
  assumes "vocs_db_inv db" "get_index_dict db' = get_index_dict db" "data_domains db' = data_domains db"
  shows "vocs_db_inv db'"
proof -
  have d: "dnode db' = dnode db" using assms(3) by (simp add: dnode_def fun_eq_iff)
  show ?thesis using assms(1)
    unfolding vocs_db_inv_def consistent_def sound_index_def complete_index_def indexes_ok_def domains_ok_def d assms(2,3) idx_cong [OF assms(2)] .
qed

lemma inv_tag: "vocs_db_inv db \<Longrightarrow> vocs_db_inv (db\<lparr>next_tag := n\<rparr>)"
  by (rule inv_cong) (auto simp: fun_eq_iff)

lemma inv_set_inside:
  assumes inv: "vocs_db_inv db" and set: "dom_set p k x db = (db', ok)" and x: "tree_ok x"
    and ents: "\<And>q K i. prefix (p @ [k]) q \<Longrightarrow> entity_at K q i \<Longrightarrow> \<not> admin_role K i \<or> (\<exists>t. idx db K i = Some (q, t)) \<Longrightarrow>
      dnode db q = None \<and> node x (drop (Suc (length p)) q) = None"
    and conts: "\<And>q t b. prefix (p @ [k]) q \<Longrightarrow> container q \<Longrightarrow> node x (drop (Suc (length p)) q) = Some (t, b) \<Longrightarrow> b"
  shows "vocs_db_inv db'"
proof (cases ok)
  case True
  have dom: "domains_ok db" using inv by (simp add: vocs_db_inv_def)
  note set_node = dom_set_dnode [OF dom set x]
  have i: "idx db' = idx db" by (rule idx_cong [OF set_node(1)])
  have "dnode db' q = dnode db q" if "entity_at K q j" "\<not> admin_role K j \<or> (\<exists>t. idx db K j = Some (q, t))" for q K j
    using ents [OF _ that] set_node(6) [OF True, of q] by auto
  note keep = this
  have con: "consistent db" using inv by (simp add: vocs_db_inv_def)
  have "sound_index db'" unfolding sound_index_def i
  proof (intro allI impI)
    fix K j q t assume "idx db K j = Some (q, t)"
    with soundD [OF con this] keep [of K q j] show "entity_at K q j \<and> (\<exists>b. dnode db' q = Some (t, b))" by auto
  qed
  moreover have "complete_index db'" unfolding complete_index_def i
  proof (intro allI impI)
    fix K j q t b assume a: "entity_at K q j" "\<not> admin_role K j" "dnode db' q = Some (t, b)"
    then have "dnode db q = Some (t, b)" using keep [of K q j] by simp
    then show "idx db K j = Some (q, t)" by (rule completeD [OF con a(1,2)])
  qed
  ultimately have "consistent db'" by (simp add: consistent_def)
  moreover have "indexes_ok db'" using inv by (simp add: vocs_db_inv_def indexes_ok_def set_node(1))
  moreover have "domains_ok db'"
    using dom conts set_node(6,7) [OF True] by (auto simp: domains_ok_def split: if_splits)
  ultimately show ?thesis by (simp add: vocs_db_inv_def)
next
  case False
  then show ?thesis using inv dom_set_dnode(5) [OF _ set x] by (simp add: vocs_db_inv_def)
qed

lemma inv_set_member:
  assumes "vocs_db_inv db" "dom_set p k x db = (db', ok)" "tree_ok x" "entity_at K p i" "k \<notin> {''users'', ''roles'', ''loops'', ''projects''}"
  shows "vocs_db_inv db'"
  using entity_inside [OF assms(4,5)] by (intro inv_set_inside [OF assms(1-3)]) blast+

lemma get_change [simp]: "get_index_dict (change_index K f db) K' = (if K = K' then map_option f (get_index_dict db K) else get_index_dict db K')"
  by (cases K; cases K') auto

lemma get_index_None: "get_index_dict db K = None \<longleftrightarrow> K = OV_VOCS_DB_ENTITY_ERROR"
  by (cases K) auto

lemma idx_change: "idx (change_index K (put index_slot k p) db) K' i = (if K' = K \<and> i = k \<and> K \<noteq> OV_VOCS_DB_ENTITY_ERROR then Some p else idx db K' i)"
  if "indexes_ok db"
  using that get_index_None [of db K] by (cases "get_index_dict db K") (auto simp: indexes_ok_def idx_def index_get_def map_of_put)

lemma indexes_change: "indexes_ok db \<Longrightarrow> indexes_ok (change_index K (put index_slot k p) db)"
  by (auto simp: indexes_ok_def intro: put_slots)

lemma change_tree [simp]: "data_domains (change_index K f db) = data_domains db" "dnode (change_index K f db) = dnode db"
  by (cases K; simp)+

lemma inv_create:
  assumes inv: "vocs_db_inv db" and set: "dom_set p k x db = (db', True)" and x: "tree_ok x" "node x [] = Some (t, b)"
    and new: "entity_at K (p @ [k]) k" "\<not> admin_role K k" "idx db K k = None"
    and inside: "\<And>q K i. q \<noteq> [] \<Longrightarrow> entity_at K (p @ k # q) i \<or> container (p @ k # q) \<Longrightarrow> node x q = None"
  shows "vocs_db_inv (change_index K (put index_slot k (p @ [k], t)) db')"
proof -
  have c: "consistent db" "indexes_ok db" "domains_ok db" using inv by (auto simp: vocs_db_inv_def)
  note set_node = dom_set_dnode [OF c(3) set x(1)]
  have i: "idx db' = idx db" "indexes_ok db'" using idx_cong [OF set_node(1)] c(2) by (auto simp: indexes_ok_def set_node(1))
  have K: "K \<noteq> OV_VOCS_DB_ENTITY_ERROR" using new(1) by auto
  have old: "dnode db q = None" if "prefix (p @ [k]) q" for q
  proof -
    have "dnode db (p @ [k]) = None" using completeD [OF c(1) new(1,2)] new(3) by (cases "dnode db (p @ [k])") auto
    then show ?thesis using that by (rule dnode_prefix [rotated])
  qed
  let ?db = "change_index K (put index_slot k (p @ [k], t)) db'"
  have "(idx ?db K' j = Some (q, u) \<longrightarrow> entity_at K' q j \<and> (\<exists>b. dnode ?db q = Some (u, b))) \<and>
    (entity_at K' q j \<longrightarrow> \<not> admin_role K' j \<longrightarrow> (\<exists>b. dnode ?db q = Some (u, b)) \<longrightarrow> idx ?db K' j = Some (q, u))" for K' j q u
  proof (cases "prefix (p @ [k]) q")
    case False
    then have "dnode ?db q = dnode db q" using set_node(6) [of q] by simp
    moreover have "idx ?db K' j = Some (q, u) \<longleftrightarrow> idx db K' j = Some (q, u)"
      using False new K by (auto simp: idx_change [OF i(2)] i(1))
    ultimately show ?thesis using soundD [OF c(1), of K' j "(q, u)"] completeD [OF c(1)] by auto
  next
    case True
    then obtain r where q: "q = p @ k # r" by (auto elim: prefixE)
    have n: "dnode ?db q = node x r" using True set_node(6) [of q] by (simp add: q)
    have none: "idx db K' j \<noteq> Some (q, u)" using soundD [OF c(1), of K' j "(q, u)"] old [OF True] by auto
    show ?thesis
    proof (cases "r = []")
      case True
      then have q': "q = p @ [k]" "dnode ?db q = Some (t, b)" using q n x(2) by auto
      show ?thesis
      proof (cases "K' = K \<and> j = k")
        case True
        then have "idx ?db K' j = Some (p @ [k], t)" using K by (simp add: idx_change [OF i(2)])
        then show ?thesis using q' new True by auto
      next
        case False
        then have "idx ?db K' j \<noteq> Some (q, u)" using none i(1) by (auto simp: idx_change [OF i(2)])
        then show ?thesis using False q'(1) entity_at_inj [OF new(1), of K' j] by blast
      qed
    next
      case False
      have "idx ?db K' j \<noteq> Some (q, u)" using none i(1) q False by (simp add: idx_change [OF i(2)])
      then show ?thesis using n q inside [OF False, of K' j] by auto
    qed
  qed
  then have "consistent ?db" unfolding consistent_def sound_index_def complete_index_def by blast
  moreover have "domains_ok ?db"
  proof -
    have "b" if "container q" "dnode ?db q = Some (u, b)" for q u b
    proof (cases "prefix (p @ [k]) q")
      case True
      then obtain r where q: "q = p @ k # r" by (auto elim: prefixE)
      have "r \<noteq> []" using new(1) that(1) q by (cases K) (auto simp: container_def)
      then show ?thesis using inside [of r] that q True set_node(6) [of q] by auto
    next
      case False
      then show ?thesis using c(3) that set_node(6) [of q] by (auto simp: domains_ok_def)
    qed
    then show ?thesis using c(3) set_node(7) unfolding domains_ok_def by auto
  qed
  ultimately show ?thesis using indexes_change [OF i(2)] by (simp add: vocs_db_inv_def)
qed

subsection \<open>Creation\<close>

lemma node_empty [simp]: "node (JObject t []) q = (if q = [] then Some (t, True) else None)"
  by (cases q) (auto simp: node_def)

lemma tree_ok_empty [simp]: "tree_ok (JObject t [])"
  by (simp add: tree_ok_object)

lemma container_entity: "container p \<Longrightarrow> \<not> entity_at K p i"
  by (cases K) (auto simp: container_def)

lemma get_create_parent_inv:
  assumes inv: "vocs_db_inv db" and c: "container (p @ [key])" and get: "get_create_parent p key db = (db', r)"
  shows "vocs_db_inv db'" "get_index_dict db' = get_index_dict db"
    "r = Some q \<Longrightarrow> q = p @ [key] \<and> (\<exists>t. dnode db' q = Some (t, True))"
proof -
  have dom: "domains_ok db" using inv by (simp add: vocs_db_inv_def)
  have "vocs_db_inv db' \<and> get_index_dict db' = get_index_dict db \<and> (r = Some q \<longrightarrow> q = p @ [key] \<and> (\<exists>t. dnode db' q = Some (t, True)))"
  proof (cases "dnode db (p @ [key])")
    case None
    let ?db = "db\<lparr>next_tag := Suc (next_tag db)\<rparr>"
    have inv': "vocs_db_inv ?db" by (rule inv_tag [OF inv])
    then have dom': "domains_ok ?db" by (simp add: vocs_db_inv_def)
    obtain ok where set: "dom_set p key (JObject (next_tag db) []) ?db = (db', ok)" "r = (if ok then Some (p @ [key]) else None)"
      using get None dnode_under [of db p key] by (auto simp: get_create_parent_def split: prod.splits)
    have "dnode ?db q = None \<and> node (JObject (next_tag db) []) (drop (Suc (length p)) q) = None"
      if "prefix (p @ [key]) q" "entity_at K q i" for q K i
    proof
      show "dnode ?db q = None" using dnode_prefix [OF that(1) None] by simp
      from that container_entity [OF c] show "node (JObject (next_tag db) []) (drop (Suc (length p)) q) = None"
        by (auto elim!: prefixE)
    qed
    then have "vocs_db_inv db'"
      by (intro inv_set_inside [OF inv' set(1)]) (auto split: if_splits)
    moreover have "\<exists>t. dnode db' (p @ [key]) = Some (t, True)" if ok
      using dom_set_dnode(6) [OF dom' set(1) _ that, of "p @ [key]"] by simp
    ultimately show ?thesis using set dom_set_dnode(1) [OF dom' set(1)] by (auto simp: fun_eq_iff split: if_splits)
  next
    case (Some n)
    then have "db' = db" "r = Some (p @ [key])" using get dnode_under [of db p key] by (auto simp: get_create_parent_def)
    moreover have "\<exists>t. dnode db (p @ [key]) = Some (t, True)" using Some dom c by (cases n) (auto simp: domains_ok_def)
    ultimately show ?thesis using inv by auto
  qed
  then show "vocs_db_inv db'" "get_index_dict db' = get_index_dict db"
    "r = Some q \<Longrightarrow> q = p @ [key] \<and> (\<exists>t. dnode db' q = Some (t, True))" by auto
qed

lemma parent_key_container:
  "parent_key K = Some key \<Longrightarrow> container ([d] @ [key]) \<and> entity_at K ([d] @ [key] @ [i]) i"
  "parent_key K = Some key \<Longrightarrow> K \<noteq> OV_VOCS_DB_PROJECT \<Longrightarrow> container ([d, ''projects'', x] @ [key]) \<and> entity_at K ([d, ''projects'', x] @ [key] @ [i]) i"
  by (cases K; auto simp: container_def)+

lemma dom_get_root: "ov_json_object_get (data_domains db) (Some k) = dom_get db [k]"
  by (cases "data_domains db") (auto simp: dom_get_def split: option.splits)

definition parent_ok :: "ov_vocs_db \<Rightarrow> ov_vocs_db_entity \<Rightarrow> ov_vocs_db \<Rightarrow> path option \<Rightarrow> bool" where
  "parent_ok db K db' r \<longleftrightarrow> vocs_db_inv db' \<and> get_index_dict db' = get_index_dict db \<and>
    (\<forall>p. r = Some p \<longrightarrow> (\<forall>i. entity_at K (p @ [i]) i) \<and> (\<exists>t. dnode db' p = Some (t, True)))"

lemma parent_ok_container:
  assumes inv: "vocs_db_inv db" and c: "container (p @ [key])" "\<And>i. entity_at K (p @ [key] @ [i]) i" and get: "get_create_parent p key db = (db', r)"
  shows "parent_ok db K db' r"
  using get_create_parent_inv [OF inv c(1) get] c(2) by (auto simp: parent_ok_def)

lemma get_parent_inv:
  assumes inv: "vocs_db_inv db"
  shows "\<exists>db' r. get_parent db K scope sid = Some (db', r) \<and> parent_ok db K db' r"
proof -
  have same: "parent_ok db K db None" using inv by (simp add: parent_ok_def)
  show ?thesis
  proof (cases "K = OV_VOCS_DB_DOMAIN")
    case True
    show ?thesis
    proof (cases "data_domains db")
      case None
      let ?db = "db\<lparr>data_domains := Some (JObject (next_tag db) []), next_tag := Suc (next_tag db)\<rparr>"
      have n: "dnode ?db q = (if q = [] then Some (next_tag db, True) else None)" "dnode db q = None" for q using None by (auto simp: dnode_def)
      have i: "get_index_dict ?db = get_index_dict db" by (auto simp: fun_eq_iff)
      have "vocs_db_inv ?db" using inv n idx_cong [OF i] by (auto simp: vocs_db_inv_def consistent_def sound_index_def complete_index_def indexes_ok_def domains_ok_def object_at_node container_def i)
      then show ?thesis using True None n i same by (auto simp: get_parent_def parent_ok_def)
    next
      case (Some v)
      then have "\<exists>t. dnode db [] = Some (t, True)" using inv by (auto simp: vocs_db_inv_def domains_ok_def object_at_node dnode_def)
      then show ?thesis using True Some same inv by (auto simp: get_parent_def parent_ok_def)
    qed
  next
    case False
    note K = this
    show ?thesis
    proof (cases scope)
      case OV_VOCS_DB_SCOPE_DOMAIN
      have "\<exists>db' r. get_create_parent [d] key db = (db', r) \<and> parent_ok db K db' r" if "parent_key K = Some key" for d key
        using parent_ok_container [OF inv, of "[d]" key K] parent_key_container(1) [OF that] by (cases "get_create_parent [d] key db") auto
      then show ?thesis using OV_VOCS_DB_SCOPE_DOMAIN K same by (auto simp: get_parent_def split: option.splits)
    next
      case OV_VOCS_DB_SCOPE_PROJECT
      show ?thesis
      proof (cases "index_get (Some (index_projects db)) sid")
        case None
        then show ?thesis using OV_VOCS_DB_SCOPE_PROJECT K same by (auto simp: get_parent_def)
      next
        case (Some data)
        then obtain x where x: "idx db OV_VOCS_DB_PROJECT x = Some data" by (cases sid) (auto simp: index_get_def idx_simps)
        have con: "consistent db" using inv by (simp add: vocs_db_inv_def)
        from deref_inv [OF con x] obtain v where v: "deref db data = Some v" by blast
        from soundD [OF con x] obtain d where d: "fst data = [d, ''projects'', x]" by auto
        have "\<exists>db' r. get_create_parent (fst data) key db = (db', r) \<and> parent_ok db K db' r" if "parent_key K = Some key" "K \<noteq> OV_VOCS_DB_PROJECT" for key
          using parent_ok_container [OF inv, of "fst data" key K] parent_key_container(2) [OF that] d
          by (cases "get_create_parent (fst data) key db") auto
        then show ?thesis using OV_VOCS_DB_SCOPE_PROJECT K same Some v by (auto simp: get_parent_def split: option.splits)
      qed
    qed
  qed
qed

lemma new_entity_node: "node (JObject t [(''id'', JString t s)]) q = (if q = [] then Some (t, True) else if q = [''id''] then Some (t, False) else None)"
  by (cases q rule: remdups_adj.cases) (auto simp: node_def split: option.splits)

lemma new_entity_ok: "tree_ok (JObject t [(''id'', JString t s)])"
  by (auto simp: tree_ok_object intro!: tree_ok_leaf split: if_splits)

lemma create_entity_inv:
  assumes inv: "vocs_db_inv db" and admin: "admin_role K i \<Longrightarrow> idx db K i = None"
  shows "\<exists>db' ok. ov_vocs_db_create_entity db lk K i scope sid = Some (db', ok) \<and> vocs_db_inv db'"
proof (cases "lk \<and> (admin_role K i \<or> idx db K i = None)")
  case False
  then show ?thesis using inv by (auto simp: ov_vocs_db_create_entity_def idx_def admin_role_def)
next
  case True
  from get_parent_inv [OF inv, of K scope sid] obtain db1 r where
    get: "get_parent db K scope sid = Some (db1, r)" and ok1: "parent_ok db K db1 r" by blast
  show ?thesis
  proof (cases r)
    case None
    then show ?thesis using True get ok1 by (auto simp: ov_vocs_db_create_entity_def idx_def admin_role_def parent_ok_def)
  next
    case (Some p)
    let ?t = "next_tag db1" and ?x = "JObject (next_tag db1) [(''id'', JString (next_tag db1) (Some i))]"
    let ?db = "db1\<lparr>next_tag := Suc ?t\<rparr>"
    have inv1: "vocs_db_inv ?db" "get_index_dict ?db = get_index_dict db" using ok1 inv_tag by (auto simp: parent_ok_def fun_eq_iff)
    obtain db2 ok where set: "dom_set p i ?x ?db = (db2, ok)" by fastforce
    have ent: "entity_at K (p @ [i]) i" using ok1 Some by (auto simp: parent_ok_def)
    have inside: "node ?x q = None" if "q \<noteq> []" "entity_at K' (p @ i # q) j \<or> container (p @ i # q)" for q K' j
      using that entity_inside(1) [OF ent, of "''id''" "p @ i # q" K' j] entity_inside(2) [OF ent, of "''id''" "p @ i # q"] by (auto simp: new_entity_node)
    have db2: "vocs_db_inv db2" if "admin_role K i \<or> \<not> ok"
    proof (cases ok)
      case True
      with that have adm: "admin_role K i" by blast
      have same: "q = p @ [i]" if "prefix (p @ [i]) q" "entity_at K' q j" for q K' j
        using leaf_entity [OF ent _ that] adm by (auto simp: admin_role_def)
      have "\<not> (prefix (p @ [i]) q \<and> entity_at K' q j \<and> (\<not> admin_role K' j \<or> (\<exists>t. idx ?db K' j = Some (q, t))))" for q K' j
      proof
        assume a: "prefix (p @ [i]) q \<and> entity_at K' q j \<and> (\<not> admin_role K' j \<or> (\<exists>t. idx ?db K' j = Some (q, t)))"
        then have "q = p @ [i]" using same by blast
        with a entity_at_inj [OF ent, of K' j] have "K' = K" "j = i" by auto
        with a adm admin [OF adm] idx_cong [OF inv1(2)] show False by auto
      qed
      moreover have "node ?x (drop (Suc (length p)) q) = None \<or> \<not> container q" if "prefix (p @ [i]) q" for q
      proof -
        from that obtain r where q: "q = p @ i # r" by (auto elim: prefixE)
        then show ?thesis using inside [of r K i] container_entity [of q K i] ent by (cases "r = []") auto
      qed
      ultimately show ?thesis by (intro inv_set_inside [OF inv1(1) set new_entity_ok]) force+
    next
      case False
      then show ?thesis using dom_set_dnode(5) [OF _ set new_entity_ok] inv1(1) by (simp add: vocs_db_inv_def)
    qed
    have "vocs_db_inv (change_index K (put index_slot i (p @ [i], ?t)) db2)" if "\<not> admin_role K i" ok
    proof (rule inv_create [OF inv1(1) _ new_entity_ok _ ent that(1)])
      show "dom_set p i ?x ?db = (db2, True)" using set that by simp
      show "node ?x [] = Some (?t, True)" by (simp add: new_entity_node)
      show "idx ?db K i = None" using that True idx_cong [OF inv1(2)] by simp
    qed (rule inside)
    moreover have "reindex p i ?x = put index_slot i (p @ [i], ?t)" by (simp add: reindex_def fun_eq_iff)
    ultimately show ?thesis using db2 True get Some set
      by (auto simp: ov_vocs_db_create_entity_def idx_def admin_role_def Let_def)
  qed
qed

subsection \<open>Deletion\<close>

text \<open>An index without the entries that point to one of the given paths or below.\<close>

definition minus_paths :: "path set \<Rightarrow> (ov_vocs_db_entity \<Rightarrow> string \<Rightarrow> ptr option) \<Rightarrow> ov_vocs_db_entity \<Rightarrow> string \<Rightarrow> ptr option" where
  "minus_paths S f K i = (case f K i of None \<Rightarrow> None | Some q \<Rightarrow> if \<exists>s \<in> S. prefix s (fst q) then None else Some q)"

text \<open>The entry of the name admin may be lost earlier.\<close>

definition without :: "path set \<Rightarrow> (ov_vocs_db_entity \<Rightarrow> string \<Rightarrow> ptr option) \<Rightarrow> (ov_vocs_db_entity \<Rightarrow> string \<Rightarrow> ptr option) \<Rightarrow> bool" where
  "without S f g \<longleftrightarrow> (\<forall>K i. g K i = minus_paths S f K i \<or> admin_role K i \<and> g K i = None)"

lemma withoutD: "without S f g \<Longrightarrow> g K i = Some q \<Longrightarrow> f K i = Some q \<and> (\<forall>s \<in> S. \<not> prefix s (fst q))"
  "without S f g \<Longrightarrow> \<not> admin_role K i \<Longrightarrow> g K i = minus_paths S f K i"
proof -
  assume w: "without S f g"
  show "f K i = Some q \<and> (\<forall>s \<in> S. \<not> prefix s (fst q))" if "g K i = Some q"
    using w [unfolded without_def, rule_format, of K i] that by (auto simp: minus_paths_def split: option.splits if_splits)
  show "g K i = minus_paths S f K i" if "\<not> admin_role K i"
    using w [unfolded without_def, rule_format, of K i] that by simp
qed

lemma without_Some: "without S f g \<Longrightarrow> f K i = Some q \<Longrightarrow> g K i = (if \<exists>s \<in> S. prefix s (fst q) then None else Some q) \<or> admin_role K i \<and> g K i = None"
  unfolding without_def minus_paths_def by (drule spec2 [of _ K i]) simp

lemma without_cases:
  assumes "\<And>K i q. f K i = Some q \<Longrightarrow> g K i = (if \<exists>s \<in> S. prefix s (fst q) then None else Some q) \<or> admin_role K i \<and> g K i = None"
    and "\<And>K i. f K i = None \<Longrightarrow> g K i = None"
  shows "without S f g"
  unfolding without_def minus_paths_def using assms by (auto split: option.splits)

lemma inv_delete:
  assumes inv: "vocs_db_inv db" and db1: "data_domains db1 = data_domains db" "indexes_ok db1" "without {p @ [k]} (idx db) (idx db1)"
    and del: "dom_del p k db1 = (db2, ok)" and obj: "dnode db p = Some (t, True)"
  shows "ok" "vocs_db_inv db2" "idx db2 = idx db1"
proof -
  have c: "consistent db" "domains_ok db" using inv by (auto simp: vocs_db_inv_def)
  have n1: "dnode db1 = dnode db" using db1(1) by (auto simp: dnode_def)
  have dom: "domains_ok db1" using c(2) db1(1) n1 by (auto simp: domains_ok_def)
  note del_node = dom_del_dnode [OF dom del]
  show ok: ok using del_node(4) obj n1 by auto
  show i: "idx db2 = idx db1" by (rule idx_cong [OF del_node(1)])
  have "sound_index db2" unfolding sound_index_def
  proof (intro allI impI)
    fix K j q u assume "idx db2 K j = Some (q, u)"
    with withoutD(1) [OF db1(3)] i have "idx db K j = Some (q, u)" "\<not> prefix (p @ [k]) q" by auto
    then show "entity_at K q j \<and> (\<exists>b. dnode db2 q = Some (u, b))"
      using soundD [OF c(1), of K j "(q, u)"] del_node(6) [OF ok, of q] n1 by auto
  qed
  moreover have "complete_index db2" unfolding complete_index_def
  proof (intro allI impI)
    fix K j q u b assume a: "entity_at K q j" "\<not> admin_role K j" "dnode db2 q = Some (u, b)"
    then have "\<not> prefix (p @ [k]) q" "dnode db q = Some (u, b)" using del_node(6) [OF ok, of q] n1 by (auto split: if_splits)
    with completeD [OF c(1) a(1,2)] withoutD(2) [OF db1(3) a(2)] i show "idx db2 K j = Some (q, u)" by (auto simp: minus_paths_def)
  qed
  ultimately have "consistent db2" by (simp add: consistent_def)
  moreover have "indexes_ok db2" using db1(2) del_node(1) by (simp add: indexes_ok_def)
  moreover have "domains_ok db2" using dom del_node(6,7) [OF ok] by (auto simp: domains_ok_def split: if_splits)
  ultimately show "vocs_db_inv db2" by (simp add: vocs_db_inv_def)
qed

lemma inv_delete_none:
  assumes inv: "vocs_db_inv db" and del: "dom_del p k db = (db', ok)"
    and none: "\<And>q K i. prefix (p @ [k]) q \<Longrightarrow> entity_at K q i \<Longrightarrow> \<not> admin_role K i \<or> (\<exists>t. idx db K i = Some (q, t)) \<Longrightarrow> dnode db q = None"
  shows "vocs_db_inv db'" "get_index_dict db' = get_index_dict db"
proof -
  have dom: "domains_ok db" using inv by (simp add: vocs_db_inv_def)
  show "get_index_dict db' = get_index_dict db" by (rule dom_del_dnode(1) [OF dom del])
  show "vocs_db_inv db'"
  proof (cases ok)
    case True
    then obtain t where t: "dnode db p = Some (t, True)" using dom_del_dnode(4) [OF dom del] by auto
    have "without {p @ [k]} (idx db) (idx db)"
    proof (rule without_cases)
      fix K i q assume q: "idx db K i = Some q"
      with soundD [of db K i q] inv none [of "fst q" K i] show "idx db K i = (if \<exists>s \<in> {p @ [k]}. prefix s (fst q) then None else Some q) \<or> admin_role K i \<and> idx db K i = None"
        by (cases q) (auto simp: vocs_db_inv_def)
    qed
    then show ?thesis using inv_delete(2) [OF inv refl _ _ del t] inv by (simp add: vocs_db_inv_def)
  next
    case False
    then show ?thesis using dom_del_dnode(5) [OF dom del] inv by simp
  qed
qed

definition keys_at :: "ov_vocs_db \<Rightarrow> path \<Rightarrow> string set" where
  "keys_at db p = {i. dnode db (p @ [i]) \<noteq> None}"

definition drop_keys :: "string set \<Rightarrow> index \<Rightarrow> index" where
  "drop_keys S es = filter (\<lambda>e. fst e \<notin> S) es"

lemma map_of_drop_keys: "map_of (drop_keys S es) i = (if i \<in> S then None else map_of es i)"
  by (induction es) (auto simp: drop_keys_def)

lemma drop_keys_slots: "in_slots slot es \<Longrightarrow> in_slots slot (drop_keys S es)"
  by (induction es) (auto simp: drop_keys_def)

lemma drop_keys_empty [simp]: "drop_keys {} es = es"
  by (simp add: drop_keys_def)

lemma drop_key_single: "drop_key k es = drop_keys {k} es"
  by (simp add: drop_key_def drop_keys_def)

lemma change_fields [simp]: "data_state (change_index K f db) = data_state db" "next_tag (change_index K f db) = next_tag db"
  by (cases K; simp)+

lemma change_change: "change_index K f (change_index K g db) = change_index K (\<lambda>es. f (g es)) db"
  by (cases K) auto

lemma change_id: "change_index K (\<lambda>es. es) db = db" "change_index K (drop_keys {}) db = db"
  by (cases K; auto)+

lemma idx_drop: "idx (change_index K (drop_keys S) db) K' i = (if K' = K \<and> i \<in> S then None else idx db K' i)"
  by (cases "get_index_dict db K") (auto simp: idx_def index_get_def map_of_drop_keys)

lemma indexes_drop: "indexes_ok db \<Longrightarrow> indexes_ok (change_index K (drop_keys S) db)"
  by (auto simp: indexes_ok_def intro: drop_keys_slots)

definition unindex_key :: "ov_vocs_db_entity \<Rightarrow> string \<Rightarrow> ov_vocs_db \<Rightarrow> ov_vocs_db \<times> bool" where
  "unindex_key K k db = (change_index K (drop_keys {k}) db, True)"

lemma unindex_eqs:
  "unindex_users k = unindex_key OV_VOCS_DB_USER k" "unindex_roles k = unindex_key OV_VOCS_DB_ROLE k" "unindex_loops k = unindex_key OV_VOCS_DB_LOOP k"
  by (auto simp: fun_eq_iff unindex_users_def unindex_roles_def unindex_loops_def unindex_key_def drop_key_single)

declare change_index.simps [simp del]

lemma unindex_members: "members_for_each (\<lambda>k v. unindex_key K k) es db = (change_index K (drop_keys (fst ` set es)) db, True)"
proof (induction es arbitrary: db)
  case Nil
  then show ?case by (simp add: change_id)
next
  case (Cons e es)
  have "(\<lambda>f. drop_keys (fst ` set es) (drop_keys {fst e} f)) = drop_keys (fst ` set (e # es))"
    by (auto simp: fun_eq_iff drop_keys_def intro!: filter_cong)
  with Cons show ?case by (simp add: unindex_key_def change_change)
qed

lemma keys_at_members:
  assumes "dom_get db p = Some (JObject a es)"
  shows "keys_at db p = fst ` set es"
proof -
  have "i \<in> keys_at db p \<longleftrightarrow> map_of es i \<noteq> None" for i using dnode_under [of db p i] assms by (simp add: keys_at_def)
  then show ?thesis by (auto simp: map_of_eq_None_iff)
qed

lemma keys_at_none: "dom_get db p = None \<Longrightarrow> keys_at db p = {}"
  using dnode_under [of db p] by (auto simp: keys_at_def)

lemma dom_get_under: "dom_get db (p @ [k]) = ov_json_object_get (dom_get db p) (Some k)"
  by (cases "data_domains db") (auto simp: dom_get_def lookup_under)

text \<open>An iteration over the object of a container that takes each of its keys out of an index.\<close>

lemma container_cases:
  assumes "domains_ok db" "container p"
  obtains "dom_get db p = None" | a es where "dom_get db p = Some (JObject a es)"
proof (cases "dom_get db p")
  case (Some v)
  then obtain t b where n: "dnode db p = Some (t, b)" by (cases "data_domains db") (auto simp: dom_get_def dnode_def node_def)
  with assms have b by (auto simp: domains_ok_def)
  with n dom_get_object [of db p] Some have "ov_json_is_object (Some v)" by auto
  with Some that(2) show thesis by (cases v) auto
qed (rule that(1))

lemma each_unindex:
  assumes "domains_ok db" "container (p @ [key])" "dom_get db p = Some v"
  shows "each_then (ov_json_object_get (Some v) (Some key)) (\<lambda>k v. unindex_key K k) nx s =
    nx (change_index K (drop_keys (keys_at db (p @ [key]))) s)"
proof -
  have g: "dom_get db (p @ [key]) = ov_json_object_get (Some v) (Some key)" using assms(3) by (simp add: dom_get_under)
  from assms(1,2) show ?thesis
  proof (cases rule: container_cases)
    case 1
    then show ?thesis using g by (simp add: each_then_def keys_at_none change_id)
  next
    case (2 a es)
    with g have "ov_json_object_get (Some v) (Some key) = Some (JObject a es)" by simp
    then show ?thesis using 2 by (simp add: each_then_def unindex_members keys_at_members del: ov_json_object_get.simps)
  qed
qed

lemma unindex_project_eq:
  assumes "domains_ok db" "idx db OV_VOCS_DB_PROJECT x = Some (p, t)" "dnode db p = Some (t, b)" "p = [d, ''projects'', x]"
  shows "unindex_project db x =
    Some (change_index OV_VOCS_DB_PROJECT (drop_keys {x})
      (change_index OV_VOCS_DB_LOOP (drop_keys (keys_at db (p @ [''loops''])))
        (change_index OV_VOCS_DB_ROLE (drop_keys (keys_at db (p @ [''roles''])))
          (change_index OV_VOCS_DB_USER (drop_keys (keys_at db (p @ [''users'']))) db))), True)"
proof -
  from deref_node [of db "(p, t)"] assms(3) obtain v where v: "deref db (p, t) = Some v" "dom_get db p = Some v" by auto
  have "container (p @ [''users''])" "container (p @ [''roles''])" "container (p @ [''loops''])" by (auto simp: assms(4) container_def)
  note each = this [THEN each_unindex [OF assms(1) _ v(2)]]
  show ?thesis using assms(2) v(1) by (simp add: unindex_project_def idx_simps index_get_def unindex_eqs each drop_key_single change_index.simps)
qed

fun kind_key :: "ov_vocs_db_entity \<Rightarrow> string" where
  "kind_key OV_VOCS_DB_LOOP = ''loops''"
| "kind_key OV_VOCS_DB_ROLE = ''roles''"
| "kind_key OV_VOCS_DB_USER = ''users''"
| "kind_key _ = ''projects''"

abbreviation leaf_kinds :: "ov_vocs_db_entity set" where
  "leaf_kinds \<equiv> {OV_VOCS_DB_LOOP, OV_VOCS_DB_ROLE, OV_VOCS_DB_USER}"

lemma under_project:
  assumes "entity_at K q i" "prefix [d, ''projects'', x] q"
  shows "(K = OV_VOCS_DB_PROJECT \<and> i = x \<and> q = [d, ''projects'', x]) \<or> (K \<in> leaf_kinds \<and> q = [d, ''projects'', x, kind_key K, i])"
  using assms by (cases K) (auto simp: prefix_def)

lemma minus_project:
  assumes con: "consistent db0" and i: "without S (idx db0) (idx db)" and n: "dnode db = dnode db0"
    and x: "idx db OV_VOCS_DB_PROJECT x = Some (p, t)" "p = [d, ''projects'', x]"
  shows "without (insert p S) (idx db0)
    (\<lambda>K j. if K = OV_VOCS_DB_PROJECT \<and> j = x \<or> K \<in> leaf_kinds \<and> j \<in> keys_at db (p @ [kind_key K]) then None else idx db K j)"
proof (rule without_cases)
  fix K j q assume Some: "idx db0 K j = Some q"
  have q: "entity_at K (fst q) j" "dnode db0 (fst q) \<noteq> None" using soundD [OF con Some] by auto
  have under: "K = OV_VOCS_DB_PROJECT \<and> j = x \<or> K \<in> leaf_kinds \<and> j \<in> keys_at db (p @ [kind_key K])" if "prefix p (fst q)"
  proof -
    from that under_project [OF q(1), of d x] x(2) have "(K = OV_VOCS_DB_PROJECT \<and> j = x) \<or> (K \<in> leaf_kinds \<and> fst q = p @ [kind_key K] @ [j])" by auto
    then show ?thesis using q(2) n by (auto simp: keys_at_def)
  qed
  have above: "prefix p (fst q)" if "\<not> admin_role K j" "K = OV_VOCS_DB_PROJECT \<and> j = x \<or> K \<in> leaf_kinds \<and> j \<in> keys_at db (p @ [kind_key K])"
    using that(2)
  proof
    assume k: "K = OV_VOCS_DB_PROJECT \<and> j = x"
    have "idx db0 OV_VOCS_DB_PROJECT x = Some (p, t)" using withoutD(1) [OF i x(1)] by simp
    then show ?thesis using Some k by auto
  next
    assume k: "K \<in> leaf_kinds \<and> j \<in> keys_at db (p @ [kind_key K])"
    then obtain u b where "dnode db0 (p @ [kind_key K] @ [j]) = Some (u, b)" using n by (auto simp: keys_at_def)
    moreover have "entity_at K (p @ [kind_key K] @ [j]) j" using k x(2) by auto
    ultimately have "idx db0 K j = Some (p @ [kind_key K] @ [j], u)" using completeD [OF con _ that(1)] by blast
    then show ?thesis using Some by auto
  qed
  have "idx db K j = (if \<exists>s \<in> S. prefix s (fst q) then None else Some q) \<or> admin_role K j \<and> idx db K j = None"
    by (rule without_Some [OF i Some])
  with under above show "(if K = OV_VOCS_DB_PROJECT \<and> j = x \<or> K \<in> leaf_kinds \<and> j \<in> keys_at db (p @ [kind_key K]) then None else idx db K j) =
      (if \<exists>s \<in> insert p S. prefix s (fst q) then None else Some q) \<or>
    admin_role K j \<and> (if K = OV_VOCS_DB_PROJECT \<and> j = x \<or> K \<in> leaf_kinds \<and> j \<in> keys_at db (p @ [kind_key K]) then None else idx db K j) = None"
    by (cases "admin_role K j"; cases "prefix p (fst q)") auto
next
  fix K j assume "idx db0 K j = None"
  then show "(if K = OV_VOCS_DB_PROJECT \<and> j = x \<or> K \<in> leaf_kinds \<and> j \<in> keys_at db (p @ [kind_key K]) then None else idx db K j) = None"
    using withoutD(1) [OF i, of K j] by (cases "idx db K j") auto
qed

text \<open>The state between the steps of a deletion: the tree is unchanged, and the index lost the entries below the paths.\<close>

definition unindexed :: "ov_vocs_db \<Rightarrow> path set \<Rightarrow> ov_vocs_db \<Rightarrow> bool" where
  "unindexed db0 S db \<longleftrightarrow> data_domains db = data_domains db0 \<and> data_state db = data_state db0 \<and> next_tag db = next_tag db0 \<and>
    indexes_ok db \<and> without S (idx db0) (idx db)"

lemma unindexed_tree: "unindexed db0 S db \<Longrightarrow> dnode db = dnode db0" "unindexed db0 S db \<Longrightarrow> dom_get db = dom_get db0"
  "unindexed db0 S db \<Longrightarrow> domains_ok db0 \<Longrightarrow> domains_ok db"
  by (auto simp: unindexed_def dnode_def dom_get_def domains_ok_def fun_eq_iff)

lemma unindex_project_step:
  assumes inv: "vocs_db_inv db0" and u: "unindexed db0 S db" and x: "idx db OV_VOCS_DB_PROJECT x = Some (p, t)" "p = [d, ''projects'', x]"
  shows "\<exists>db'. unindex_project db x = Some (db', True) \<and> unindexed db0 (insert p S) db'"
proof -
  have con: "consistent db0" "domains_ok db" using inv unindexed_tree(3) [OF u] by (auto simp: vocs_db_inv_def)
  have wo: "without S (idx db0) (idx db)" using u by (simp add: unindexed_def)
  have "idx db0 OV_VOCS_DB_PROJECT x = Some (p, t)" using withoutD(1) [OF wo x(1)] by simp
  then obtain b where "dnode db p = Some (t, b)" using soundD [OF con(1)] unindexed_tree(1) [OF u] by fastforce
  note eq = unindex_project_eq [OF con(2) x(1) this x(2)]
  let ?db = "change_index OV_VOCS_DB_PROJECT (drop_keys {x})
      (change_index OV_VOCS_DB_LOOP (drop_keys (keys_at db (p @ [''loops''])))
        (change_index OV_VOCS_DB_ROLE (drop_keys (keys_at db (p @ [''roles''])))
          (change_index OV_VOCS_DB_USER (drop_keys (keys_at db (p @ [''users'']))) db)))"
  have "idx ?db = (\<lambda>K j. if K = OV_VOCS_DB_PROJECT \<and> j = x \<or> K \<in> leaf_kinds \<and> j \<in> keys_at db (p @ [kind_key K]) then None else idx db K j)"
    by (auto simp: fun_eq_iff idx_drop)
  with minus_project [OF con(1) wo unindexed_tree(1) [OF u] x] have "without (insert p S) (idx db0) (idx ?db)" by simp
  then have "unindexed db0 (insert p S) ?db" using u by (auto simp: unindexed_def intro!: indexes_drop)
  with eq show ?thesis by blast
qed

lemma unindex_projects_step:
  assumes inv: "vocs_db_inv db0" and u: "unindexed db0 S db" and S: "\<forall>s \<in> S. \<exists>y. s = [d, ''projects'', y] \<and> y \<notin> fst ` set es"
    and es: "distinct (map fst es)" "\<forall>x \<in> fst ` set es. dnode db0 [d, ''projects'', x] \<noteq> None"
  shows "\<exists>db'. members_for_each (\<lambda>k v. unindex_projects k) es (Some db) = (Some db', True) \<and>
    unindexed db0 (S \<union> (\<lambda>x. [d, ''projects'', x]) ` fst ` set es) db'"
  using u S es
proof (induction es arbitrary: db S)
  case (Cons e es)
  let ?p = "[d, ''projects'', fst e]"
  obtain t b where "dnode db0 ?p = Some (t, b)" using Cons.prems(4) by auto
  then have "idx db0 OV_VOCS_DB_PROJECT (fst e) = Some (?p, t)" using inv completeD [of db0 OV_VOCS_DB_PROJECT ?p] by (simp add: vocs_db_inv_def admin_role_def)
  moreover have "without S (idx db0) (idx db)" using Cons.prems(1) by (simp add: unindexed_def)
  ultimately have "idx db OV_VOCS_DB_PROJECT (fst e) = Some (?p, t)" using withoutD(2) [of S "idx db0" "idx db" OV_VOCS_DB_PROJECT "fst e"] Cons.prems(2)
    by (auto simp: admin_role_def minus_paths_def)
  from unindex_project_step [OF inv Cons.prems(1) this refl] obtain db1 where
    db1: "unindex_project db (fst e) = Some (db1, True)" "unindexed db0 (insert ?p S) db1" by blast
  have "\<forall>s \<in> insert ?p S. \<exists>y. s = [d, ''projects'', y] \<and> y \<notin> fst ` set es" using Cons.prems(2,3) by auto
  from Cons.IH [OF db1(2) this] Cons.prems(3,4) obtain db' where
    "members_for_each (\<lambda>k v. unindex_projects k) es (Some db1) = (Some db', True)"
    "unindexed db0 (insert ?p S \<union> (\<lambda>x. [d, ''projects'', x]) ` fst ` set es) db'" by auto
  moreover have "unindex_projects (fst e) (Some db) = (Some db1, True)" by (simp add: unindex_projects_def db1(1))
  ultimately show ?case by auto
qed simp

lemma each_unindex_some:
  assumes "domains_ok db" "container (p @ [key])" "dom_get db p = Some v"
  shows "each_then (ov_json_object_get (Some v) (Some key)) (\<lambda>k v. on_some (unindex_key K k)) nx (Some s) =
    nx (Some (change_index K (drop_keys (keys_at db (p @ [key]))) s))"
proof -
  have m: "members_for_each (\<lambda>k v. on_some (unindex_key K k)) es (Some s) = (Some (fst (members_for_each (\<lambda>k v. unindex_key K k) es s)), True)"
    for es :: "(string \<times> nat json) list" and s
    by (induction es arbitrary: s) (auto simp: on_some_def unindex_key_def)
  from each_unindex [OF assms, where nx = "\<lambda>s. (s, True)" and s = s and K = K] show ?thesis
    by (cases "ov_json_object_get (Some v) (Some key)" rule: ov_json_is_object.cases) (auto simp: each_then_def m unindex_members change_id split: if_splits)
qed

lemma under_domain:
  assumes "entity_at K q i" "prefix [d] q"
  shows "(K = OV_VOCS_DB_DOMAIN \<and> i = d \<and> q = [d]) \<or> (\<exists>x. prefix [d, ''projects'', x] q) \<or> (K \<in> leaf_kinds \<and> q = [d, kind_key K, i])"
  using assms by (cases K) (auto simp: prefix_def)

lemma unindex_domain_inv:
  assumes inv: "vocs_db_inv db0" and d: "dnode db0 [d] = Some (t, b)"
  shows "\<exists>db'. unindex_domain db0 d = Some (db', True) \<and> unindexed db0 {[d]} db'"
proof -
  have con: "consistent db0" "domains_ok db0" "indexes_ok db0" using inv by (auto simp: vocs_db_inv_def)
  from deref_node [of db0 "([d], t)"] d obtain v where v: "dom_get db0 [d] = Some v" by auto
  have sub: "dom_get db0 [d, k] = ov_json_object_get (Some v) (Some k)" for k using dom_get_under [of db0 "[d]" k] v by simp
  have conts: "container ([d] @ [''projects''])" "container ([d] @ [''users''])" "container ([d] @ [''roles''])" "container ([d] @ [''loops''])"
    by (auto simp: container_def)
  let ?S = "(\<lambda>x. [d, ''projects'', x]) ` keys_at db0 [d, ''projects'']"
  have u0: "unindexed db0 {} db0" using con by (simp add: unindexed_def without_def minus_paths_def split: option.splits)
  have "\<exists>db1. unindexed db0 ?S db1 \<and> (\<forall>nx. each_then (ov_json_object_get (Some v) (Some ''projects'')) (\<lambda>k v. unindex_projects k) nx (Some db0) = nx (Some db1))"
    using con(2) conts(1)
  proof (cases rule: container_cases)
    case 1
    with u0 sub [of "''projects''"] show ?thesis by (auto simp: each_then_def keys_at_none intro!: exI [of _ db0])
  next
    case (2 a es)
    then have k: "keys_at db0 [d, ''projects''] = fst ` set es" by (simp add: keys_at_members)
    obtain w where w: "data_domains db0 = Some w" "lookup w [d, ''projects''] = Some (JObject a es)"
      using 2 by (cases "data_domains db0") (auto simp: dom_get_def)
    then have "tree_ok w" using con(2) by (auto simp: domains_ok_def)
    with w(2) have "distinct (map fst es)" unfolding tree_ok_def in_slots_def by blast
    moreover have "\<forall>x \<in> fst ` set es. dnode db0 [d, ''projects'', x] \<noteq> None" unfolding k [symmetric] by (simp add: keys_at_def)
    ultimately obtain db1 where "members_for_each (\<lambda>k v. unindex_projects k) es (Some db0) = (Some db1, True)" "unindexed db0 ?S db1"
      using unindex_projects_step [OF inv u0, of d es] k by auto
    moreover have "ov_json_object_get (Some v) (Some ''projects'') = Some (JObject a es)" using 2 sub [of "''projects''"] by simp
    ultimately show ?thesis by (auto simp: each_then_def)
  qed
  then obtain db1 where u1: "unindexed db0 ?S db1"
    and each1: "\<And>nx. each_then (ov_json_object_get (Some v) (Some ''projects'')) (\<lambda>k v. unindex_projects k) nx (Some db0) = nx (Some db1)" by blast
  note tree = unindexed_tree [OF u1]
  have each: "each_then (ov_json_object_get (Some v) (Some key)) (\<lambda>k v. on_some (unindex_key K k)) nx (Some s) =
    nx (Some (change_index K (drop_keys (keys_at db0 ([d] @ [key]))) s))" if "container ([d] @ [key])" for K key nx s
    by (rule each_unindex_some [OF con(2) that v])
  let ?db = "change_index OV_VOCS_DB_DOMAIN (drop_keys {d})
      (change_index OV_VOCS_DB_LOOP (drop_keys (keys_at db0 ([d] @ [''loops''])))
        (change_index OV_VOCS_DB_ROLE (drop_keys (keys_at db0 ([d] @ [''roles''])))
          (change_index OV_VOCS_DB_USER (drop_keys (keys_at db0 ([d] @ [''users'']))) db1)))"
  have "unindex_domain db0 d = Some (?db, True)"
    using v by (simp add: unindex_domain_def dom_get_root each1 unindex_eqs each [OF conts(2)] each [OF conts(3)] each [OF conts(4)] drop_key_single change_index.simps)
  moreover have "without {[d]} (idx db0) (idx ?db)"
  proof (rule without_cases)
    have wo: "without ?S (idx db0) (idx db1)" using u1 by (simp add: unindexed_def)
    have eq: "idx ?db K j = (if K = OV_VOCS_DB_DOMAIN \<and> j = d \<or> K \<in> leaf_kinds \<and> j \<in> keys_at db0 ([d] @ [kind_key K]) then None else idx db1 K j)" for K j
      by (auto simp: idx_drop)
    show "idx ?db K j = None" if "idx db0 K j = None" for K j
      unfolding eq using that withoutD(1) [OF wo, of K j] by (cases "idx db1 K j") auto
    fix K j q assume Some: "idx db0 K j = Some q"
    have q: "entity_at K (fst q) j" "dnode db0 (fst q) \<noteq> None" using soundD [OF con(1) Some] by auto
    have under: "K = OV_VOCS_DB_DOMAIN \<and> j = d \<or> K \<in> leaf_kinds \<and> j \<in> keys_at db0 ([d] @ [kind_key K]) \<or> (\<exists>s \<in> ?S. prefix s (fst q))" if "prefix [d] (fst q)"
    proof -
      have "x \<in> keys_at db0 [d, ''projects'']" if "prefix [d, ''projects'', x] (fst q)" for x
        using dnode_prefix [OF that, of db0] q(2) by (cases "dnode db0 [d, ''projects'', x]") (auto simp: keys_at_def)
      then have "\<exists>s \<in> ?S. prefix s (fst q)" if "prefix [d, ''projects'', x] (fst q)" for x using that by blast
      moreover have "j \<in> keys_at db0 ([d] @ [kind_key K])" if "fst q = [d, kind_key K, j]" using q(2) that by (simp add: keys_at_def)
      ultimately show ?thesis using under_domain [OF q(1) that] by blast
    qed
    have above: "prefix [d] (fst q)" if "\<not> admin_role K j" "K = OV_VOCS_DB_DOMAIN \<and> j = d \<or> K \<in> leaf_kinds \<and> j \<in> keys_at db0 ([d] @ [kind_key K])"
      using that(2)
    proof
      assume "K = OV_VOCS_DB_DOMAIN \<and> j = d"
      then show ?thesis using q(1) by simp
    next
      assume k: "K \<in> leaf_kinds \<and> j \<in> keys_at db0 ([d] @ [kind_key K])"
      then obtain u b where n: "dnode db0 [d, kind_key K, j] = Some (u, b)" by (auto simp: keys_at_def)
      moreover have "entity_at K [d, kind_key K, j] j" using k by auto
      ultimately have "idx db0 K j = Some ([d, kind_key K, j], u)" using completeD [OF con(1) _ that(1)] by blast
      then show ?thesis using Some by auto
    qed
    have S: "prefix [d] (fst q)" if "s \<in> ?S" "prefix s (fst q)" for s using that by (auto simp: prefix_def)
    have "idx db1 K j = (if \<exists>s \<in> ?S. prefix s (fst q) then None else Some q) \<or> admin_role K j \<and> idx db1 K j = None"
      by (rule without_Some [OF wo Some])
    with under above S show "idx ?db K j = (if \<exists>s \<in> {[d]}. prefix s (fst q) then None else Some q) \<or> admin_role K j \<and> idx ?db K j = None"
      unfolding eq by (cases "admin_role K j"; cases "prefix [d] (fst q)"; cases "\<exists>s \<in> ?S. prefix s (fst q)") (auto split: if_splits)
  qed
  then have "unindexed db0 {[d]} ?db" using u1 by (auto simp: unindexed_def intro!: indexes_drop)
  ultimately show ?thesis by blast
qed

lemma dnode_parent: "dnode db (p @ [k]) \<noteq> None \<Longrightarrow> \<exists>t. dnode db p = Some (t, True)"
proof -
  assume "dnode db (p @ [k]) \<noteq> None"
  then have "ov_json_object_get (dom_get db p) (Some k) \<noteq> None" unfolding dnode_under .
  then have "ov_json_is_object (dom_get db p)" by (auto elim: ov_json_object_get.elims)
  then show ?thesis by (simp add: dom_get_object)
qed

lemma unindexed_start: "vocs_db_inv db \<Longrightarrow> unindexed db {} db"
  by (simp add: unindexed_def vocs_db_inv_def without_def minus_paths_def split: option.splits)

lemma unindex_leaf:
  assumes inv: "vocs_db_inv db" and K: "K \<in> leaf_kinds" "idx db K i = Some (p, t)"
  shows "unindexed db {p} (change_index K (drop_keys {i}) db)"
proof -
  have con: "consistent db" "indexes_ok db" using inv by (auto simp: vocs_db_inv_def)
  have p: "entity_at K p i" using soundD [OF con(1) K(2)] by simp
  have "idx (change_index K (drop_keys {i}) db) K' j = minus_paths {p} (idx db) K' j" for K' j
  proof (cases "idx db K' j")
    case (Some q)
    have q: "entity_at K' (fst q) j" using soundD [OF con(1) Some] by simp
    have "prefix p (fst q) \<longleftrightarrow> K' = K \<and> j = i"
    proof
      assume "prefix p (fst q)"
      from leaf_entity [OF p K(1) this q] entity_at_inj [OF p, of K' j] q show "K' = K \<and> j = i" by auto
    next
      assume "K' = K \<and> j = i"
      then show "prefix p (fst q)" using Some K(2) by auto
    qed
    then show ?thesis using Some by (auto simp: idx_drop minus_paths_def)
  qed (auto simp: idx_drop minus_paths_def)
  then show ?thesis using con(2) by (auto simp: unindexed_def without_def intro!: indexes_drop)
qed

lemma db_delete_inv:
  assumes inv: "vocs_db_inv db"
  shows "\<exists>db'. db_delete db i K = Some (db', True) \<and> vocs_db_inv db' \<and> idx db' K i = None \<and>
    (\<forall>K' j. idx db' K' j \<noteq> None \<longrightarrow> idx db' K' j = idx db K' j) \<and>
    (\<forall>q. dnode db' q = (case idx db K i of None \<Rightarrow> dnode db q | Some p \<Rightarrow> if prefix (fst p) q then None else dnode db q))"
proof (cases "idx db K i")
  case None
  then show ?thesis using inv by (auto simp: db_delete_def idx_def)
next
  case (Some src)
  obtain p t where src: "src = (p, t)" by (cases src)
  have con: "consistent db" "domains_ok db" using inv by (auto simp: vocs_db_inv_def)
  obtain b where p: "entity_at K p i" "dnode db p = Some (t, b)" using soundD [OF con(1) Some] src by auto
  have last: "p = butlast p @ [i]" by (rule entity_at_last [OF p(1)])
  then obtain u where obj: "dnode db (butlast p) = Some (u, True)" using dnode_parent [of db "butlast p" i] p(2) by auto
  have "\<exists>db1. (case K of
                  OV_VOCS_DB_DOMAIN \<Rightarrow> unindex_domain db i
                | OV_VOCS_DB_PROJECT \<Rightarrow> unindex_project db i
                | OV_VOCS_DB_LOOP \<Rightarrow> Some (unindex_loops i db)
                | OV_VOCS_DB_ROLE \<Rightarrow> Some (unindex_roles i db)
                | OV_VOCS_DB_USER \<Rightarrow> Some (unindex_users i db)
                | OV_VOCS_DB_ENTITY_ERROR \<Rightarrow> Some (db, False)) = Some (db1, True) \<and> unindexed db {p} db1"
  proof (cases "K \<in> leaf_kinds")
    case True
    with unindex_leaf [OF inv this, of i p t] Some src show ?thesis by (auto simp: unindex_eqs unindex_key_def)
  next
    case False
    with p(1) consider "K = OV_VOCS_DB_DOMAIN" "p = [i]" | d where "K = OV_VOCS_DB_PROJECT" "p = [d, ''projects'', i]" by (cases K) auto
    then show ?thesis
    proof cases
      case 1
      then show ?thesis using unindex_domain_inv [OF inv, of i] p(2) by auto
    next
      case 2
      then show ?thesis using unindex_project_step [OF inv unindexed_start [OF inv], of i p t] Some src by auto
    qed
  qed
  then obtain db1 where db1: "(case K of
                  OV_VOCS_DB_DOMAIN \<Rightarrow> unindex_domain db i
                | OV_VOCS_DB_PROJECT \<Rightarrow> unindex_project db i
                | OV_VOCS_DB_LOOP \<Rightarrow> Some (unindex_loops i db)
                | OV_VOCS_DB_ROLE \<Rightarrow> Some (unindex_roles i db)
                | OV_VOCS_DB_USER \<Rightarrow> Some (unindex_users i db)
                | OV_VOCS_DB_ENTITY_ERROR \<Rightarrow> Some (db, False)) = Some (db1, True)" "unindexed db {p} db1" by blast
  obtain db2 ok where del: "dom_del (butlast p) i db1 = (db2, ok)" by fastforce
  have u: "data_domains db1 = data_domains db" "indexes_ok db1" "without {butlast p @ [i]} (idx db) (idx db1)"
    using db1(2) last by (auto simp: unindexed_def)
  note fin = inv_delete [OF inv u del obj]
  have n1: "dnode db1 = dnode db" by (rule unindexed_tree(1) [OF db1(2)])
  then obtain v where v: "deref db1 (p, t) = Some v" using deref_node [of db1 "(p, t)"] p(2) by auto
  have dom1: "domains_ok db1" by (rule unindexed_tree(3) [OF db1(2) con(2)])
  have "db_delete db i K = Some (db2, True)"
    using Some src db1(1) v del fin(1) last by (auto simp: db_delete_def idx_def)
  moreover have "dnode db2 q = (if prefix p q then None else dnode db q)" for q
    using dom_del_dnode(6) [OF dom1 del fin(1), of q] last n1 by simp
  moreover have "idx db2 K i = None" "\<forall>K' j. idx db2 K' j \<noteq> None \<longrightarrow> idx db2 K' j = idx db K' j"
    using fin(3) withoutD(1) [OF u(3)] Some src last by (cases "idx db1 K i"; fastforce)+
  ultimately show ?thesis using fin(2) Some src by auto
qed

lemma db_delete_keeps:
  assumes inv: "vocs_db_inv db" and del: "db_delete db i K = Some (db', ok)" and q: "idx db K' j = Some q" "\<not> admin_role K' j"
    and other: "\<And>p. idx db K i = Some p \<Longrightarrow> \<not> prefix (fst p) (fst q)"
  shows "idx db' K' j = Some q"
proof -
  from db_delete_inv [OF inv, of i K] del have db': "vocs_db_inv db'"
    "\<And>r. dnode db' r = (case idx db K i of None \<Rightarrow> dnode db r | Some p \<Rightarrow> if prefix (fst p) r then None else dnode db r)" by auto
  from soundD [OF _ q(1)] inv obtain b where e: "entity_at K' (fst q) j" "dnode db (fst q) = Some (snd q, b)" by (auto simp: vocs_db_inv_def)
  then have "dnode db' (fst q) = Some (snd q, b)" using db'(2) [of "fst q"] other by (auto split: option.splits)
  from completeD [OF _ e(1) q(2) this] db'(1) show ?thesis by (simp add: vocs_db_inv_def)
qed

lemma gone:
  assumes "vocs_db_inv db" "idx db K i = None" "\<not> admin_role K i" "entity_at K p i"
  shows "dnode db p = None"
  using assms completeD [of db K p i] by (cases "dnode db p") (auto simp: vocs_db_inv_def)

lemma index_for_each_inv:
  assumes inv: "vocs_db_inv db" and es: "\<forall>e \<in> set es. idx db KD (fst e) = Some (snd e)"
    and none: "\<And>db' e q K j. vocs_db_inv db' \<Longrightarrow> get_index_dict db' = get_index_dict db \<Longrightarrow> e \<in> set es \<Longrightarrow>
      prefix (fst (snd e) @ [item, i]) q \<Longrightarrow> entity_at K q j \<Longrightarrow> \<not> admin_role K j \<or> (\<exists>t. idx db' K j = Some (q, t)) \<Longrightarrow> dnode db' q = None"
  shows "\<exists>db' ok. index_for_each (delete_in_parent item i) es db = Some (db', ok) \<and> vocs_db_inv db' \<and> get_index_dict db' = get_index_dict db"
  using inv es none
proof (induction es arbitrary: db)
  case (Cons e es)
  have con: "consistent db" using Cons.prems(1) by (simp add: vocs_db_inv_def)
  have "idx db KD (fst e) = Some (snd e)" using Cons.prems(2) by simp
  from deref_inv [OF con this] obtain v where v: "deref db (snd e) = Some v" by blast
  have one: "\<exists>db1 ok. delete_in_parent item i (snd e) db = Some (db1, ok) \<and> vocs_db_inv db1 \<and> get_index_dict db1 = get_index_dict db"
  proof (cases "ov_json_object_get (Some v) (Some item)")
    case None
    then show ?thesis using v Cons.prems(1) by (auto simp: delete_in_parent_def)
  next
    case (Some entry)
    obtain db1 ok where del: "dom_del (fst (snd e) @ [item]) i db = (db1, ok)" by fastforce
    have none1: "dnode db q = None"
      if "prefix ((fst (snd e) @ [item]) @ [i]) q" "entity_at K q j" "\<not> admin_role K j \<or> (\<exists>t. idx db K j = Some (q, t))" for q K j
      using Cons.prems(3) [OF Cons.prems(1) refl, of e q K j] that by simp
    have "vocs_db_inv db1" "get_index_dict db1 = get_index_dict db"
      using inv_delete_none [OF Cons.prems(1) del none1] by auto
    then show ?thesis using v Some del by (auto simp: delete_in_parent_def)
  qed
  then obtain db1 ok where db1: "delete_in_parent item i (snd e) db = Some (db1, ok)" "vocs_db_inv db1" "get_index_dict db1 = get_index_dict db" by blast
  show ?case
  proof (cases ok)
    case True
    have "\<forall>e' \<in> set es. idx db1 KD (fst e') = Some (snd e')" using Cons.prems(2) idx_cong [OF db1(3)] by auto
    moreover have "dnode db' q = None" if "vocs_db_inv db'" "get_index_dict db' = get_index_dict db1" "e' \<in> set es"
      "prefix (fst (snd e') @ [item, i]) q" "entity_at K q j" "\<not> admin_role K j \<or> (\<exists>t. idx db' K j = Some (q, t))" for db' q K j e'
      using Cons.prems(3) [OF that(1), of e' q K j] that db1(3) by simp
    ultimately have
      "\<exists>db' ok. index_for_each (delete_in_parent item i) es db1 = Some (db', ok) \<and> vocs_db_inv db' \<and> get_index_dict db' = get_index_dict db1"
      by (rule Cons.IH [OF db1(2)])
    then show ?thesis using db1 True by auto
  next
    case False
    then show ?thesis using db1 by auto
  qed
qed auto

lemma index_entries: "vocs_db_inv db \<Longrightarrow> get_index_dict db K = Some es \<Longrightarrow> \<forall>e \<in> set es. idx db K (fst e) = Some (snd e)"
  by (auto simp: vocs_db_inv_def indexes_ok_def in_slots_def idx_def index_get_def intro: map_of_is_SomeI)

lemma delete_entity_inv:
  assumes inv: "vocs_db_inv db"
  shows "\<exists>db' ok. ov_vocs_db_delete_entity db lk K i = Some (db', ok) \<and> vocs_db_inv db' \<and>
    (lk \<longrightarrow> idx db' K i = None \<and> (\<exists>db1. db_delete db i K = Some (db1, True) \<and> get_index_dict db' = get_index_dict db1)) \<and>
    (\<forall>K' j. idx db' K' j \<noteq> None \<longrightarrow> idx db' K' j = idx db K' j)"
proof (cases lk)
  case True
  from db_delete_inv [OF inv, of i K] obtain db1 where
    db1: "db_delete db i K = Some (db1, True)" "vocs_db_inv db1" "idx db1 K i = None"
      "\<forall>K' j. idx db1 K' j \<noteq> None \<longrightarrow> idx db1 K' j = idx db K' j" by blast
  have es: "\<forall>e \<in> set es. idx db' KD (fst e) = Some (snd e)" if "vocs_db_inv db'" "get_index_dict db' KD = Some es" for db' KD es
    by (rule index_entries [OF that])
  have ent: "entity_at KD (fst (snd e)) (fst e)" if "vocs_db_inv db'" "idx db' KD (fst e) = Some (snd e)" for db' KD and e :: "string \<times> ptr"
    using that soundD [of db' KD "fst e" "snd e"] by (simp add: vocs_db_inv_def)
  have none: "dnode db' q = None" if "vocs_db_inv db'" "idx db' K i = None" "entity_at K p i" "K \<noteq> OV_VOCS_DB_DOMAIN" "prefix p q" "entity_at K' q j" "\<not> admin_role K' j \<or> (\<exists>t. idx db' K' j = Some (q, t))"
    for db' p q K' j
  proof (cases "K = OV_VOCS_DB_PROJECT")
    case True
    then have "dnode db' p = None" using gone [OF that(1,2) _ that(3)] by (simp add: admin_role_def)
    then show ?thesis by (rule dnode_prefix [OF that(5)])
  next
    case False
    with that(3,4) have "K \<in> leaf_kinds" by (cases K) auto
    from leaf_entity [OF that(3) this that(5,6)] have "q = p" .
    with that entity_at_inj [OF that(3), of K' j] show ?thesis using gone [OF that(1,2) _ that(3)] by auto
  qed
  have step: "\<exists>db3 ok. index_for_each (delete_in_parent item i) es db2 = Some (db3, ok) \<and> vocs_db_inv db3 \<and> get_index_dict db3 = get_index_dict db2"
    if "vocs_db_inv db2" "get_index_dict db2 = get_index_dict db1" "get_index_dict db2 KD = Some es"
      "\<And>p j. entity_at KD p j \<Longrightarrow> entity_at K (p @ [item, i]) i" "K \<noteq> OV_VOCS_DB_DOMAIN" for db2 KD es item
  proof (rule index_for_each_inv [OF that(1) es [OF that(1,3)]])
    fix db' q K' j and e :: "string \<times> ptr"
    assume a: "vocs_db_inv db'" "get_index_dict db' = get_index_dict db2" "e \<in> set es" "prefix (fst (snd e) @ [item, i]) q" "entity_at K' q j" "\<not> admin_role K' j \<or> (\<exists>t. idx db' K' j = Some (q, t))"
    have "idx db' K i = None" using idx_cong [OF a(2)] idx_cong [OF that(2)] db1(3) by simp
    moreover have "entity_at K (fst (snd e) @ [item, i]) i" using that(4) [OF ent [OF that(1)]] es [OF that(1,3)] a(3) by blast
    ultimately show "dnode db' q = None" using none [OF a(1) _ _ that(5) a(4,5,6)] by blast
  qed
  have two: "\<exists>db3 ok. index_for_each (delete_in_parent item i) (index_domains db1) db1 = Some (db3, ok) \<and> vocs_db_inv db3 \<and> get_index_dict db3 = get_index_dict db1 \<and>
    (\<exists>db4 ok'. index_for_each (delete_in_parent item i) (index_projects db3) db3 = Some (db4, ok') \<and> vocs_db_inv db4 \<and> get_index_dict db4 = get_index_dict db1)"
    if "K \<in> leaf_kinds" "item = kind_key K" for item
  proof -
    have d: "\<exists>db3 ok. index_for_each (delete_in_parent item i) (index_domains db1) db1 = Some (db3, ok) \<and> vocs_db_inv db3 \<and> get_index_dict db3 = get_index_dict db1"
      using that by (intro step [OF db1(2) refl, of OV_VOCS_DB_DOMAIN]) auto
    then obtain db3 ok where db3: "index_for_each (delete_in_parent item i) (index_domains db1) db1 = Some (db3, ok)" "vocs_db_inv db3" "get_index_dict db3 = get_index_dict db1" by blast
    have "\<exists>db4 ok'. index_for_each (delete_in_parent item i) (index_projects db3) db3 = Some (db4, ok') \<and> vocs_db_inv db4 \<and> get_index_dict db4 = get_index_dict db3"
      using that by (intro step [OF db3(2,3), of OV_VOCS_DB_PROJECT]) auto
    with db3 show ?thesis by auto
  qed
  have keep: "idx db' K i = None \<and> (\<forall>K' j. idx db' K' j \<noteq> None \<longrightarrow> idx db' K' j = idx db K' j)" if "get_index_dict db' = get_index_dict db1" for db'
    using idx_cong [OF that] db1(3,4) by simp
  show ?thesis
  proof (cases K)
    case OV_VOCS_DB_DOMAIN
    have "dnode db1 [i] = None" using gone [OF db1(2,3), of "[i]"] OV_VOCS_DB_DOMAIN by (simp add: admin_role_def)
    then have "ov_json_object_get (data_domains db1) (Some i) = None" using dnode_under [of db1 "[]" i] dom_get_root [of db1 i] dom_get_under [of db1 "[]" i] by simp
    then have "unindex_domain db1 i = Some (db1, True)" by (simp add: unindex_domain_def)
    then show ?thesis using True db1 OV_VOCS_DB_DOMAIN by (auto simp: ov_vocs_db_delete_entity_def)
  next
    case OV_VOCS_DB_PROJECT
    have "\<exists>db3 ok. index_for_each (delete_in_parent ''projects'' i) (index_domains db1) db1 = Some (db3, ok) \<and> vocs_db_inv db3 \<and> get_index_dict db3 = get_index_dict db1"
      using OV_VOCS_DB_PROJECT by (intro step [OF db1(2) refl, of OV_VOCS_DB_DOMAIN]) auto
    then show ?thesis using True db1(1) keep OV_VOCS_DB_PROJECT by (auto simp: ov_vocs_db_delete_entity_def delete_project_in_parent_def)
  next
    case OV_VOCS_DB_LOOP
    then show ?thesis using two [of "''loops''"] True db1(1) keep by (auto simp: ov_vocs_db_delete_entity_def delete_loop_in_parent_def)
  next
    case OV_VOCS_DB_ROLE
    then show ?thesis using two [of "''roles''"] True db1(1) keep by (auto simp: ov_vocs_db_delete_entity_def delete_role_in_parent_def)
  next
    case OV_VOCS_DB_USER
    have "\<exists>db3 ok. index_for_each (delete_in_parent ''users'' i) (index_roles db1) db1 = Some (db3, ok) \<and> vocs_db_inv db3 \<and> get_index_dict db3 = get_index_dict db1"
    proof (rule index_for_each_inv [OF db1(2) es [OF db1(2), of OV_VOCS_DB_ROLE]])
      fix db' q K' j and e :: "string \<times> ptr"
      assume a: "e \<in> set (index_roles db1)" "prefix (fst (snd e) @ [''users'', i]) q" "entity_at K' q j"
      have "entity_at OV_VOCS_DB_ROLE (fst (snd e)) (fst e)" using ent [OF db1(2), of OV_VOCS_DB_ROLE e] es [OF db1(2), of OV_VOCS_DB_ROLE] a(1) by simp
      from leaf_entity [OF this _ _ a(3)] a(2) show "dnode db' q = None" by (auto simp: prefix_def)
    qed simp
    then show ?thesis using OV_VOCS_DB_USER True db1(1) keep by (auto simp: ov_vocs_db_delete_entity_def delete_user_in_parent_def)
  next
    case OV_VOCS_DB_ENTITY_ERROR
    then show ?thesis using True db1 by (auto simp: ov_vocs_db_delete_entity_def)
  qed
qed (use inv in \<open>auto simp: ov_vocs_db_delete_entity_def\<close>)

end
