(* ===== verification/Ov_Vocs_Db_Ops.thy ===== *)
theory Ov_Vocs_Db_Ops
  imports Ov_Vocs_Db_Inv
begin

text \<open>
  The invariant of the vocs database for the operations that change other data than the entities, for the import of data.
\<close>

subsection \<open>Members of entities\<close>

lemma leaf_inside:
  assumes "entity_at K p i" "K \<in> leaf_kinds" "prefix p q" "q \<noteq> p"
  shows "\<not> entity_at K' q j" "\<not> container q"
proof -
  show "\<not> entity_at K' q j" using leaf_entity [OF assms(1-3), of K' j] assms(4) by auto
  show "\<not> container q" using assms by (cases K) (auto simp: prefix_def container_def)
qed

lemma inv_set_leaf:
  assumes inv: "vocs_db_inv db" and set: "dom_set (p @ r) k x db = (db', ok)" and x: "tree_ok x" and p: "entity_at K p i" "K \<in> leaf_kinds"
  shows "vocs_db_inv db'"
proof (rule inv_set_inside [OF inv set x])
  fix q assume "prefix ((p @ r) @ [k]) q"
  then have "prefix p q" "q \<noteq> p" by (auto simp: prefix_def)
  note in_leaf = leaf_inside [OF p this]
  show "dnode db q = None \<and> node x (drop (Suc (length (p @ r))) q) = None" if "entity_at K' q j" for K' j using in_leaf that by blast
  show b if "container q" for b using in_leaf that by blast
qed

text \<open>A new object at a place where only roles with the name admin can be.\<close>

lemma get_create_free:
  assumes inv: "vocs_db_inv db" and get: "get_create_parent p key db = (db', r)"
    and free: "\<And>q K i. prefix (p @ [key]) q \<Longrightarrow> entity_at K q i \<Longrightarrow> admin_role K i" "\<And>q. prefix (p @ [key]) q \<Longrightarrow> \<not> container q"
  shows "vocs_db_inv db'" "get_index_dict db' = get_index_dict db" "r = Some q \<Longrightarrow> q = p @ [key]"
proof -
  have con: "consistent db" using inv by (simp add: vocs_db_inv_def)
  have "vocs_db_inv db' \<and> get_index_dict db' = get_index_dict db"
  proof (cases "dnode db (p @ [key])")
    case None
    let ?db = "db\<lparr>next_tag := Suc (next_tag db)\<rparr>"
    have inv': "vocs_db_inv ?db" by (rule inv_tag [OF inv])
    obtain ok where set: "dom_set p key (JObject (next_tag db) []) ?db = (db', ok)"
      using get None dnode_under [of db p key] by (auto simp: get_create_parent_def split: prod.splits)
    have "idx db K i \<noteq> Some (q, t)" if "prefix (p @ [key]) q" for q K i t
      using soundD [OF con, of K i "(q, t)"] dnode_prefix [OF that None] by auto
    moreover have "idx ?db = idx db" by (rule idx_cong) (simp add: fun_eq_iff)
    ultimately have "vocs_db_inv db'" using free by (intro inv_set_inside [OF inv' set]) auto
    moreover have "get_index_dict db' = get_index_dict ?db" using dom_set_dnode(1) [OF _ set] inv' by (simp add: vocs_db_inv_def)
    ultimately show ?thesis by (auto simp: fun_eq_iff)
  next
    case (Some n)
    then show ?thesis using get dnode_under [of db p key] inv by (auto simp: get_create_parent_def)
  qed
  then show "vocs_db_inv db'" "get_index_dict db' = get_index_dict db" by auto
  show "r = Some q \<Longrightarrow> q = p @ [key]" using get by (auto simp: get_create_parent_def split: if_splits prod.splits)
qed

lemma add_admin_inv:
  assumes inv: "vocs_db_inv db" and p: "entity_at K p i" "K = OV_VOCS_DB_DOMAIN \<or> K = OV_VOCS_DB_PROJECT" and add: "add_admin p u db = (db', ok)"
  shows "vocs_db_inv db'" "get_index_dict db' = get_index_dict db"
proof -
  have role: "entity_at OV_VOCS_DB_ROLE (p @ [''roles''] @ [''admin'']) ''admin''" and roles: "container (p @ [''roles''])"
    using p by (auto simp: container_def)
  obtain db1 r1 where s1: "get_create_parent p ''roles'' db = (db1, r1)" by fastforce
  note i1 = get_create_parent_inv [OF inv roles s1]
  have "vocs_db_inv db' \<and> get_index_dict db' = get_index_dict db"
  proof (cases r1)
    case None
    then show ?thesis using add s1 i1 by (auto simp: add_admin_def ensure_member_def)
  next
    case (Some q1)
    then have q1: "r1 = Some (p @ [''roles''])" using i1(3) by simp
    obtain db2 r2 where s2: "get_create_parent (p @ [''roles'']) ''admin'' db1 = (db2, r2)" by fastforce
    have free: "admin_role K' j" if "prefix ((p @ [''roles'']) @ [''admin'']) q" "entity_at K' q j" for q K' j
      using leaf_entity [OF role _ _ that(2)] that entity_at_inj [OF role, of K' j] by (auto simp: admin_role_def)
    have nc: "\<not> container q" if "prefix ((p @ [''roles'']) @ [''admin'']) q" for q
      using leaf_inside(2) [OF role, of q] container_entity [of q OV_VOCS_DB_ROLE "''admin''"] role that by auto
    note i2 = get_create_free [OF i1(1) s2 free nc]
    show ?thesis
    proof (cases r2)
      case None
      then show ?thesis using add s1 s2 q1 i1(2) i2(1,2) by (auto simp: add_admin_def ensure_member_def)
    next
      case (Some q2)
      then have q2: "r2 = Some (p @ [''roles'', ''admin''])" using i2(3) by simp
      obtain db3 r3 where s3: "get_create_parent (p @ [''roles'', ''admin'']) ''users'' db2 = (db3, r3)" by fastforce
      have nob: "\<not> entity_at K' q j" "\<not> container q" if "prefix ((p @ [''roles'', ''admin'']) @ [''users'']) q" for q K' j
      proof -
        from that have "prefix (p @ [''roles''] @ [''admin'']) q" "q \<noteq> p @ [''roles''] @ [''admin'']" by (auto simp: prefix_def)
        from leaf_inside [OF role _ this] show "\<not> entity_at K' q j" "\<not> container q" by auto
      qed
      note i3 = get_create_free [OF i2(1) s3 notE [OF nob(1)] nob(2)]
      show ?thesis
      proof (cases r3)
        case None
        then show ?thesis using add s1 s2 s3 q1 q2 i1(2) i2(2) i3(1,2) by (auto simp: add_admin_def ensure_member_def)
      next
        case (Some q3)
        then have q3: "r3 = Some ((p @ [''roles''] @ [''admin'']) @ [''users''])" using i3(3) by simp
        have set: "dom_set ((p @ [''roles''] @ [''admin'']) @ [''users'']) u (JNull (next_tag db3)) (db3\<lparr>next_tag := Suc (next_tag db3)\<rparr>) = (db', ok)"
          using add s1 s2 s3 q1 q2 q3 by (simp add: add_admin_def ensure_member_def)
        have "vocs_db_inv db'" by (rule inv_set_leaf [OF inv_tag [OF i3(1)] set _ role]) (auto intro: tree_ok_leaf)
        moreover have "get_index_dict db' = get_index_dict db"
          using dom_set_dnode(1) [OF _ set] inv_tag [OF i3(1)] i1(2) i2(2) i3(2) by (auto simp: vocs_db_inv_def tree_ok_leaf fun_eq_iff)
        ultimately show ?thesis by blast
      qed
    qed
  qed
  then show "vocs_db_inv db'" "get_index_dict db' = get_index_dict db" by auto
qed

text \<open>The steps that all operations on the data of an entity share: the entry of the index is read and is not dangling.\<close>

lemma with_entity:
  assumes "vocs_db_inv db" "idx db K i = Some p"
  shows "\<exists>v. deref db p = Some v \<and> dom_get db (fst p) = Some v \<and> entity_at K (fst p) i"
  using assms deref_inv [of db K i p] soundD [of db K i p] by (auto simp: vocs_db_inv_def)

lemma add_domain_admin_inv:
  assumes inv: "vocs_db_inv db"
  shows "\<exists>db' ok. ov_vocs_db_add_domain_admin db lk d u = Some (db', ok) \<and> vocs_db_inv db' \<and> get_index_dict db' = get_index_dict db"
proof (cases "lk \<and> idx db OV_VOCS_DB_DOMAIN d \<noteq> None")
  case True
  then obtain p where p: "idx db OV_VOCS_DB_DOMAIN d = Some p" by auto
  from with_entity [OF inv p] obtain v where v: "deref db p = Some v" "entity_at OV_VOCS_DB_DOMAIN (fst p) d" by blast
  obtain db' ok where add: "add_admin (fst p) u db = (db', ok)" by fastforce
  from add_admin_inv [OF inv v(2) _ add] True p v(1) add show ?thesis by (auto simp: ov_vocs_db_add_domain_admin_def idx_def)
qed (use inv in \<open>auto simp: ov_vocs_db_add_domain_admin_def idx_def split: option.splits\<close>)

lemma add_project_admin_inv:
  assumes inv: "vocs_db_inv db"
  shows "\<exists>db' ok. ov_vocs_db_add_project_admin db lk x u = Some (db', ok) \<and> vocs_db_inv db' \<and> get_index_dict db' = get_index_dict db"
proof (cases "lk \<and> idx db OV_VOCS_DB_PROJECT x \<noteq> None")
  case True
  then obtain p where p: "idx db OV_VOCS_DB_PROJECT x = Some p" by auto
  from with_entity [OF inv p] obtain v where v: "deref db p = Some v" "entity_at OV_VOCS_DB_PROJECT (fst p) x" by blast
  obtain db' ok where add: "add_admin (fst p) u db = (db', ok)" by fastforce
  from add_admin_inv [OF inv v(2) _ add] True p v(1) add show ?thesis by (auto simp: ov_vocs_db_add_project_admin_def idx_def)
qed (use inv in \<open>auto simp: ov_vocs_db_add_project_admin_def idx_def split: option.splits\<close>)

subsection \<open>Copies\<close>

lemma copy_simps [simp]:
  "ov_json_value_copy t (JObject a es) = JObject t (map (map_prod id (ov_json_value_copy t)) es)"
  "tag (ov_json_value_copy t v) = t"
  "ov_json_is_object (Some (ov_json_value_copy t v)) = ov_json_is_object (Some v)"
  by (simp_all add: ov_json_value_copy_def map_prod_def comp_def) (cases v; simp)+

lemma map_of_copy: "map_of (map (map_prod id f) es) k = map_option f (map_of es k)"
  by (induction es) auto

lemma get_copy: "ov_json_object_get (Some (ov_json_value_copy t v)) k = map_option (ov_json_value_copy t) (ov_json_object_get (Some v) k)"
  by (cases v; cases k) (auto simp: map_of_copy, auto simp: ov_json_value_copy_def)

lemma lookup_copy: "lookup (ov_json_value_copy t v) p = map_option (ov_json_value_copy t) (lookup v p)"
  by (induction p arbitrary: v) (auto simp: get_copy split: option.splits)

lemma node_copy: "node (ov_json_value_copy t v) p = map_option (\<lambda>n. (t, snd n)) (node v p)"
  by (cases "lookup v p") (auto simp: node_def lookup_copy)

lemma copy_object: "ov_json_value_copy t w = JObject a es \<longleftrightarrow> a = t \<and> (\<exists>b fs. w = JObject b fs \<and> es = map (map_prod id (ov_json_value_copy t)) fs)"
  by (cases w) (auto simp: ov_json_value_copy_def map_prod_def comp_def)

lemma tree_ok_copy: "tree_ok (ov_json_value_copy t v) \<longleftrightarrow> tree_ok v"
proof -
  have es: "in_slots json_slot (map (map_prod id (ov_json_value_copy t)) es) \<longleftrightarrow> in_slots json_slot es" for es :: "(string \<times> 'b json) list"
    by (rule in_slots_keys) (simp add: comp_def)
  show ?thesis
  proof
    assume v: "tree_ok v"
    show "tree_ok (ov_json_value_copy t v)" unfolding tree_ok_def lookup_copy
    proof (intro allI impI)
      fix p a fs assume "map_option (ov_json_value_copy t) (lookup v p) = Some (JObject a fs)"
      then obtain b es where "lookup v p = Some (JObject b es)" "fs = map (map_prod id (ov_json_value_copy t)) es"
        by (auto simp: copy_object)
      then show "in_slots json_slot fs" using v es by (auto simp: tree_ok_def)
    qed
  next
    assume v: "tree_ok (ov_json_value_copy t v)"
    show "tree_ok v" unfolding tree_ok_def
    proof (intro allI impI)
      fix p a fs assume "lookup v p = Some (JObject a fs)"
      then have "lookup (ov_json_value_copy t v) p = Some (JObject t (map (map_prod id (ov_json_value_copy t)) fs))" by (simp add: lookup_copy)
      then show "in_slots json_slot fs" using v es unfolding tree_ok_def by blast
    qed
  qed
qed

lemma copy_copy: "ov_json_value_copy s (ov_json_value_copy t v) = ov_json_value_copy s v" "ov_json_value_copy () (v :: unit json) = v"
  by (simp_all add: ov_json_value_copy_def json.map_comp comp_def) (metis (full_types, lifting) old.unit.exhaust json.map_id0 id_apply json.map_cong)

lemma set_copy_inv:
  assumes inv: "vocs_db_inv db" and i: "idx db K i = Some p" and x: "tree_ok x" "k \<notin> {''users'', ''roles'', ''loops'', ''projects''}"
    and set: "dom_set (fst p) k (ov_json_value_copy t x) (db\<lparr>next_tag := n\<rparr>) = (db', ok)"
  shows "vocs_db_inv db'" "get_index_dict db' = get_index_dict db"
proof -
  from with_entity [OF inv i] have "entity_at K (fst p) i" by blast
  from inv_set_member [OF inv_tag [OF inv] set _ this x(2)] x(1) show "vocs_db_inv db'" by (simp add: tree_ok_copy)
  from dom_set_dnode(1) [OF _ set] inv_tag [OF inv] x(1) show "get_index_dict db' = get_index_dict db"
    by (auto simp: vocs_db_inv_def tree_ok_copy fun_eq_iff)
qed

lemma set_password_inv:
  assumes inv: "vocs_db_inv db" and h: "\<And>x. password_hash pass = Some x \<Longrightarrow> tree_ok x"
  shows "\<exists>db' ok. ov_vocs_db_set_password password_hash db lk u pass = Some (db', ok) \<and> vocs_db_inv db' \<and> get_index_dict db' = get_index_dict db"
proof (cases "lk \<and> idx db OV_VOCS_DB_USER u \<noteq> None \<and> password_hash pass \<noteq> None")
  case True
  then obtain p x where p: "idx db OV_VOCS_DB_USER u = Some p" and x: "password_hash pass = Some x" by auto
  from with_entity [OF inv p] obtain v where v: "deref db p = Some v" by blast
  obtain db' ok where set: "dom_set (fst p) ''password'' (ov_json_value_copy (next_tag db) x) (db\<lparr>next_tag := Suc (next_tag db)\<rparr>) = (db', ok)" by fastforce
  from set_copy_inv [OF inv p h [OF x] _ set] True p v x set show ?thesis by (auto simp: ov_vocs_db_set_password_def idx_def)
next
  case False
  then have "ov_vocs_db_set_password password_hash db lk u pass = Some (db, False)" using with_entity [OF inv, of OV_VOCS_DB_USER u]
    by (cases "idx db OV_VOCS_DB_USER u") (auto simp: ov_vocs_db_set_password_def idx_def)
  then show ?thesis using inv by blast
qed

lemma set_layout_inv:
  assumes inv: "vocs_db_inv db" and x: "tree_ok x"
  shows "\<exists>db' ok. ov_vocs_db_set_layout db lk r x = Some (db', ok) \<and> vocs_db_inv db' \<and> get_index_dict db' = get_index_dict db"
proof (cases "lk \<and> idx db OV_VOCS_DB_ROLE r \<noteq> None")
  case True
  then obtain p where p: "idx db OV_VOCS_DB_ROLE r = Some p" by auto
  from with_entity [OF inv p] obtain v where v: "deref db p = Some v" by blast
  obtain db' ok where set: "dom_set (fst p) ''layout'' (ov_json_value_copy (next_tag db) x) (db\<lparr>next_tag := Suc (next_tag db)\<rparr>) = (db', ok)" by fastforce
  from set_copy_inv [OF inv p x _ set] True p v set show ?thesis by (auto simp: ov_vocs_db_set_layout_def idx_def)
qed (use inv in \<open>auto simp: ov_vocs_db_set_layout_def idx_def split: option.splits\<close>)

subsection \<open>State of the users\<close>

definition same_auth :: "ov_vocs_db \<Rightarrow> ov_vocs_db \<Rightarrow> bool" where
  "same_auth db db' \<longleftrightarrow> get_index_dict db' = get_index_dict db \<and> data_domains db' = data_domains db"

lemma same_auth_inv: "vocs_db_inv db \<Longrightarrow> same_auth db db' \<Longrightarrow> vocs_db_inv db'"
  by (rule inv_cong) (auto simp: same_auth_def)

lemma state_ensure_same: "same_auth db (fst s) \<Longrightarrow> same_auth db (fst (state_ensure k s))"
  by (cases s) (auto simp: state_ensure_def same_auth_def fun_eq_iff split: option.splits)

lemma get_set_loop_same: "same_auth db (fst (get_set_loop db u r l))"
  unfolding get_set_loop_def Let_def by (intro state_ensure_same) (auto simp: same_auth_def fun_eq_iff)

lemma state_set_same: "same_auth db db1 \<Longrightarrow> same_auth db (fst (state_set p k x db1))"
  by (auto simp: state_set_def same_auth_def fun_eq_iff split: option.splits)

lemma set_state_same: "same_auth db (fst (ov_vocs_db_set_state db lk u r l st))"
  using get_set_loop_same [of db u r l] state_set_same
  by (auto simp: ov_vocs_db_set_state_def same_auth_def [of db db] split: prod.splits option.splits)

lemma set_volume_same: "same_auth db (fst (ov_vocs_db_set_volume db lk u r l vol))"
  using get_set_loop_same [of db u r l] state_set_same
  by (auto simp: ov_vocs_db_set_volume_def same_auth_def [of db db] split: prod.splits option.splits)

lemma inject_state_same: "same_auth db (fst (inject_state db lk x))"
  by (auto simp: inject_state_def same_auth_def fun_eq_iff)

subsection \<open>Import\<close>

text \<open>
  Data that may be imported: an object of domains whose containers are objects, and in which no id is used twice for the same kind of entity, except
  for roles with the name admin.
\<close>

definition dataset_ok :: "'a json \<Rightarrow> bool" where
  "dataset_ok v \<longleftrightarrow> tree_ok v \<and> object_at v [] \<and> (\<forall>p. container p \<longrightarrow> lookup v p \<noteq> None \<longrightarrow> object_at v p) \<and>
    (\<forall>K i p q. entity_at K p i \<longrightarrow> entity_at K q i \<longrightarrow> \<not> admin_role K i \<longrightarrow> lookup v p \<noteq> None \<longrightarrow> lookup v q \<noteq> None \<longrightarrow> p = q)"

text \<open>Indexes into which the entities \<open>E\<close> have been put, some of them perhaps twice.\<close>

definition reindexed :: "nat \<Rightarrow> (ov_vocs_db_entity \<times> string \<times> path) set \<Rightarrow> ov_vocs_db \<Rightarrow> ov_vocs_db \<Rightarrow> bool" where
  "reindexed t E db db' \<longleftrightarrow> data_domains db' = data_domains db \<and> indexes_ok db' \<and>
    (\<forall>K i. (\<exists>p. (K, i, p) \<in> E \<and> idx db' K i = Some (p, t)) \<or> (\<forall>p. (K, i, p) \<notin> E) \<and> idx db' K i = idx db K i)"

lemma reindexed_refl: "indexes_ok db \<Longrightarrow> reindexed t {} db db"
  by (simp add: reindexed_def)

lemma reindexed_trans:
  assumes "reindexed t E db db1" "reindexed t F db1 db2"
  shows "reindexed t (E \<union> F) db db2"
  unfolding reindexed_def
proof (intro conjI allI)
  fix K i
  have "(\<exists>p. (K, i, p) \<in> E \<and> idx db1 K i = Some (p, t)) \<or> (\<forall>p. (K, i, p) \<notin> E) \<and> idx db1 K i = idx db K i"
    "(\<exists>p. (K, i, p) \<in> F \<and> idx db2 K i = Some (p, t)) \<or> (\<forall>p. (K, i, p) \<notin> F) \<and> idx db2 K i = idx db1 K i"
    using assms by (auto simp: reindexed_def)
  then show "(\<exists>p. (K, i, p) \<in> E \<union> F \<and> idx db2 K i = Some (p, t)) \<or> (\<forall>p. (K, i, p) \<notin> E \<union> F) \<and> idx db2 K i = idx db K i" by auto
qed (use assms in \<open>auto simp: reindexed_def\<close>)

lemma reindexed_put:
  assumes "indexes_ok db" "K \<noteq> OV_VOCS_DB_ENTITY_ERROR" "tag v = t"
  shows "reindexed t {(K, k, p @ [k])} db (change_index K (reindex p k v) db)"
proof -
  have r: "reindex p k v = put index_slot k (p @ [k], t)" using assms(3) by (simp add: reindex_def fun_eq_iff)
  show ?thesis unfolding r using assms indexes_change [OF assms(1)] by (auto simp: reindexed_def idx_change [OF assms(1)])
qed

lemma reindex_eqs:
  "reindex_users p = (\<lambda>k v db. (change_index OV_VOCS_DB_USER (reindex p k v) db, True))"
  "reindex_roles p = (\<lambda>k v db. (change_index OV_VOCS_DB_ROLE (reindex p k v) db, True))"
  "reindex_loops p = (\<lambda>k v db. (change_index OV_VOCS_DB_LOOP (reindex p k v) db, True))"
  by (simp_all add: fun_eq_iff reindex_users_def reindex_roles_def reindex_loops_def change_index.simps)

lemma reindexed_members:
  assumes "\<And>k v db. (k, v) \<in> set es \<Longrightarrow> indexes_ok db \<Longrightarrow> \<exists>db'. f k v db = (db', True) \<and> reindexed t (E k) db db'" "indexes_ok db"
  shows "\<exists>db'. members_for_each f es db = (db', True) \<and> reindexed t (\<Union>e \<in> set es. E (fst e)) db db'"
  using assms
proof (induction es arbitrary: db)
  case Nil
  then show ?case by (simp add: reindexed_refl)
next
  case (Cons e es)
  obtain db1 where db1: "f (fst e) (snd e) db = (db1, True)" "reindexed t (E (fst e)) db db1" using Cons.prems(1) [of "fst e" "snd e" db] Cons.prems(2) by auto
  then have "indexes_ok db1" by (simp add: reindexed_def)
  from Cons.IH [OF Cons.prems(1) this] obtain db2 where "members_for_each f es db1 = (db2, True)" "reindexed t (\<Union>e \<in> set es. E (fst e)) db1 db2" by auto
  then show ?case using db1 reindexed_trans [OF db1(2)] by auto
qed

text \<open>The entities of a tree at a path and below.\<close>

definition entities :: "'a json \<Rightarrow> path \<Rightarrow> (ov_vocs_db_entity \<times> string \<times> path) set" where
  "entities v p = {(K, i, q). entity_at K q i \<and> prefix p q \<and> lookup v q \<noteq> None}"

definition keys_below :: "'a json \<Rightarrow> path \<Rightarrow> string set" where
  "keys_below v p = {k. lookup v (p @ [k]) \<noteq> None}"

lemma keys_below_members: "lookup v p = Some (JObject a es) \<Longrightarrow> keys_below v p = fst ` set es"
  by (auto simp: keys_below_def lookup_under map_of_eq_None_iff image_iff)

lemma keys_below_none: "lookup v p = None \<Longrightarrow> keys_below v p = {}"
  by (auto simp: keys_below_def lookup_append)

text \<open>A tree that has just been copied.\<close>

definition fresh_tree :: "nat \<Rightarrow> nat json \<Rightarrow> bool" where
  "fresh_tree t v \<longleftrightarrow> tree_ok v \<and> (\<forall>p w. lookup v p = Some w \<longrightarrow> tag w = t) \<and> object_at v [] \<and> (\<forall>p. container p \<longrightarrow> lookup v p \<noteq> None \<longrightarrow> object_at v p)"

lemma each_reindex:
  assumes v: "fresh_tree t v" "lookup v p = Some val" "container (p @ [key])"
    and f: "\<And>k w db. lookup v (p @ [key, k]) = Some w \<Longrightarrow> indexes_ok db \<Longrightarrow> \<exists>db'. f k w db = (db', True) \<and> reindexed t (E k) db db'"
    and db: "indexes_ok db"
  shows "\<exists>db'. (\<forall>nx. each_then (ov_json_object_get (Some val) (Some key)) f nx db = nx db') \<and> reindexed t (\<Union>k \<in> keys_below v (p @ [key]). E k) db db'"
proof (cases "lookup v (p @ [key])")
  case None
  then have "ov_json_object_get (Some val) (Some key) = None" using v(2) lookup_under [of v p key] by simp
  then show ?thesis using None db by (auto simp: each_then_def keys_below_none reindexed_refl)
next
  case (Some w)
  then have "object_at v (p @ [key])" using v by (auto simp: fresh_tree_def)
  then obtain a es where es: "lookup v (p @ [key]) = Some (JObject a es)" by (rule object_atE)
  then have get: "ov_json_object_get (Some val) (Some key) = Some (JObject a es)" using v(2) lookup_under [of v p key] by simp
  have slots: "in_slots json_slot es" using v(1) es by (auto simp: fresh_tree_def tree_ok_def)
  have mem: "lookup v (p @ [key, k]) = Some u" if "(k, u) \<in> set es" for k u
    using that slots lookup_under [of v "p @ [key]" k] es by (auto simp: in_slots_def intro: map_of_is_SomeI)
  have "\<exists>db'. members_for_each f es db = (db', True) \<and> reindexed t (\<Union>e \<in> set es. E (fst e)) db db'"
    by (rule reindexed_members [OF _ db]) (use f mem in blast)
  then obtain db' where
    "members_for_each f es db = (db', True)" "reindexed t (\<Union>e \<in> set es. E (fst e)) db db'" by blast
  moreover have "(\<Union>e \<in> set es. E (fst e)) = (\<Union>k \<in> keys_below v (p @ [key]). E k)" using keys_below_members [OF es] by auto
  ultimately show ?thesis using get by (auto simp: each_then_def)
qed

lemma each_reindex_leaf:
  assumes v: "fresh_tree t v" "lookup v p = Some val" "container (p @ [key])" and K: "K \<in> leaf_kinds" and db: "indexes_ok db"
  shows "\<exists>db'. (\<forall>nx. each_then (ov_json_object_get (Some val) (Some key)) (\<lambda>k w db. (change_index K (reindex (p @ [key]) k w) db, True)) nx db = nx db') \<and>
    reindexed t ((\<lambda>k. (K, k, p @ [key, k])) ` keys_below v (p @ [key])) db db'"
proof -
  have f: "\<exists>db'. (change_index K (reindex (p @ [key]) k w) db, True) = (db', True) \<and> reindexed t {(K, k, p @ [key, k])} db db'"
    if "lookup v (p @ [key, k]) = Some w" "indexes_ok db" for k w db
    using reindexed_put [OF that(2), of K w t k "p @ [key]"] that(1) v(1) K by (auto simp: fresh_tree_def)
  from each_reindex [OF v f db] show ?thesis by (simp add: UNION_singleton_eq_range)
qed

text \<open>The entities that are no containers, of a domain or a project.\<close>

definition leaves :: "'a json \<Rightarrow> path \<Rightarrow> ov_vocs_db_entity \<Rightarrow> (ov_vocs_db_entity \<times> string \<times> path) set" where
  "leaves v p K = (\<lambda>k. (K, k, p @ [kind_key K, k])) ` keys_below v (p @ [kind_key K])"

lemma reindex_leaves:
  assumes v: "fresh_tree t v" "lookup v p = Some val" and c: "\<And>k. k \<in> {''loops'', ''roles'', ''users''} \<Longrightarrow> container (p @ [k])" and db: "indexes_ok db"
  shows "\<exists>db'. (\<forall>nx. each_then (ov_json_object_get (Some val) (Some ''loops'')) (reindex_loops (p @ [''loops'']))
      (each_then (ov_json_object_get (Some val) (Some ''roles'')) (reindex_roles (p @ [''roles'']))
        (each_then (ov_json_object_get (Some val) (Some ''users'')) (reindex_users (p @ [''users''])) nx)) db = nx db') \<and>
    reindexed t (leaves v p OV_VOCS_DB_LOOP \<union> (leaves v p OV_VOCS_DB_ROLE \<union> leaves v p OV_VOCS_DB_USER)) db db'"
proof -
  note leaf = each_reindex_leaf [OF v c]
  obtain db1 where db1: "\<forall>nx. each_then (ov_json_object_get (Some val) (Some ''loops'')) (reindex_loops (p @ [''loops''])) nx db = nx db1"
    "reindexed t (leaves v p OV_VOCS_DB_LOOP) db db1"
    using leaf [of "''loops''", OF _ _ db, of OV_VOCS_DB_LOOP] unfolding reindex_eqs leaves_def by auto
  then have ok1: "indexes_ok db1" by (simp add: reindexed_def)
  obtain db2 where db2: "\<forall>nx. each_then (ov_json_object_get (Some val) (Some ''roles'')) (reindex_roles (p @ [''roles''])) nx db1 = nx db2"
    "reindexed t (leaves v p OV_VOCS_DB_ROLE) db1 db2"
    using leaf [of "''roles''", OF _ _ ok1, of OV_VOCS_DB_ROLE] unfolding reindex_eqs leaves_def by auto
  then have ok2: "indexes_ok db2" by (simp add: reindexed_def)
  obtain db3 where db3: "\<forall>nx. each_then (ov_json_object_get (Some val) (Some ''users'')) (reindex_users (p @ [''users''])) nx db2 = nx db3"
    "reindexed t (leaves v p OV_VOCS_DB_USER) db2 db3"
    using leaf [of "''users''", OF _ _ ok2, of OV_VOCS_DB_USER] unfolding reindex_eqs leaves_def by auto
  from reindexed_trans [OF db1(2) reindexed_trans [OF db2(2) db3(2)]] db1(1) db2(1) db3(1) show ?thesis by auto
qed

lemma lookup_prefix: "prefix p q \<Longrightarrow> lookup v q \<noteq> None \<Longrightarrow> lookup v p \<noteq> None"
  by (cases "lookup v p") (auto simp: lookup_append elim!: prefixE)

lemma entities_project:
  assumes "lookup v [d, ''projects'', x] \<noteq> None"
  shows "entities v [d, ''projects'', x] =
    leaves v [d, ''projects'', x] OV_VOCS_DB_LOOP \<union> (leaves v [d, ''projects'', x] OV_VOCS_DB_ROLE \<union> leaves v [d, ''projects'', x] OV_VOCS_DB_USER) \<union>
    {(OV_VOCS_DB_PROJECT, x, [d, ''projects'', x])}"
proof (intro set_eqI iffI)
  fix e assume "e \<in> entities v [d, ''projects'', x]"
  then obtain K i q where e: "e = (K, i, q)" "entity_at K q i" "prefix [d, ''projects'', x] q" "lookup v q \<noteq> None" by (auto simp: entities_def)
  from under_project [OF e(2,3)] e show "e \<in> leaves v [d, ''projects'', x] OV_VOCS_DB_LOOP \<union> (leaves v [d, ''projects'', x] OV_VOCS_DB_ROLE \<union> leaves v [d, ''projects'', x] OV_VOCS_DB_USER) \<union>
    {(OV_VOCS_DB_PROJECT, x, [d, ''projects'', x])}" by (auto simp: leaves_def keys_below_def image_iff simp del: lookup.simps)
qed (use assms in \<open>auto simp: entities_def leaves_def keys_below_def simp del: lookup.simps\<close>)

lemma entities_domain:
  assumes "lookup v [d] \<noteq> None"
  shows "entities v [d] = leaves v [d] OV_VOCS_DB_LOOP \<union> (leaves v [d] OV_VOCS_DB_ROLE \<union> leaves v [d] OV_VOCS_DB_USER) \<union>
    ((\<Union>x \<in> keys_below v [d, ''projects'']. entities v [d, ''projects'', x]) \<union> {(OV_VOCS_DB_DOMAIN, d, [d])})"
proof (intro set_eqI iffI)
  fix e assume "e \<in> entities v [d]"
  then obtain K i q where e: "e = (K, i, q)" "entity_at K q i" "prefix [d] q" "lookup v q \<noteq> None" by (auto simp: entities_def)
  have "lookup v [d, ''projects'', x] \<noteq> None" if "prefix [d, ''projects'', x] q" for x
    by (rule lookup_prefix [OF that e(4)])
  then show "e \<in> leaves v [d] OV_VOCS_DB_LOOP \<union> (leaves v [d] OV_VOCS_DB_ROLE \<union> leaves v [d] OV_VOCS_DB_USER) \<union>
    ((\<Union>x \<in> keys_below v [d, ''projects'']. entities v [d, ''projects'', x]) \<union> {(OV_VOCS_DB_DOMAIN, d, [d])})"
    using under_domain [OF e(2,3)] e by (auto simp: entities_def leaves_def keys_below_def image_iff simp del: lookup.simps)
qed (use assms in \<open>auto simp: entities_def leaves_def keys_below_def prefix_def simp del: lookup.simps\<close>)

lemma reindex_projects_entities:
  assumes v: "fresh_tree t v" "lookup v [d, ''projects'', x] = Some val" and db: "indexes_ok db"
  shows "\<exists>db'. reindex_projects [d, ''projects''] x val db = (db', True) \<and> reindexed t (entities v [d, ''projects'', x]) db db'"
proof -
  have c: "container ([d, ''projects'', x] @ [k])" if "k \<in> {''loops'', ''roles'', ''users''}" for k
    using that by (auto simp: container_def)
  from reindex_leaves [OF v c db] obtain db1 where
    db1: "\<forall>nx. each_then (ov_json_object_get (Some val) (Some ''loops'')) (reindex_loops ([d, ''projects'', x] @ [''loops'']))
      (each_then (ov_json_object_get (Some val) (Some ''roles'')) (reindex_roles ([d, ''projects'', x] @ [''roles'']))
        (each_then (ov_json_object_get (Some val) (Some ''users'')) (reindex_users ([d, ''projects'', x] @ [''users''])) nx)) db = nx db1"
    "reindexed t (leaves v [d, ''projects'', x] OV_VOCS_DB_LOOP \<union> (leaves v [d, ''projects'', x] OV_VOCS_DB_ROLE \<union> leaves v [d, ''projects'', x] OV_VOCS_DB_USER)) db db1"
    by blast
  let ?db = "change_index OV_VOCS_DB_PROJECT (reindex [d, ''projects''] x val) db1"
  have "tag val = t" using v unfolding fresh_tree_def by blast
  then have "reindexed t {(OV_VOCS_DB_PROJECT, x, [d, ''projects'', x])} db1 ?db"
    using reindexed_put [of db1 OV_VOCS_DB_PROJECT val t x "[d, ''projects'']"] db1(2) by (simp add: reindexed_def)
  from reindexed_trans [OF db1(2) this] entities_project [of v d x] v(2) have "reindexed t (entities v [d, ''projects'', x]) db ?db" by simp
  moreover have "reindex_projects [d, ''projects''] x val db = (?db, True)" using db1(1) by (simp add: reindex_projects_def change_index.simps)
  ultimately show ?thesis by blast
qed

lemma reindex_domains_entities:
  assumes v: "fresh_tree t v" "lookup v [d] = Some val" and db: "indexes_ok db"
  shows "\<exists>db'. reindex_domains [] d val db = (db', True) \<and> reindexed t (entities v [d]) db db'"
proof -
  have c: "container ([d] @ [k])" if "k \<in> {''loops'', ''roles'', ''users''}" for k
    using that by (auto simp: container_def)
  from reindex_leaves [OF v c db] obtain db1 where
    db1: "\<forall>nx. each_then (ov_json_object_get (Some val) (Some ''loops'')) (reindex_loops ([d] @ [''loops'']))
      (each_then (ov_json_object_get (Some val) (Some ''roles'')) (reindex_roles ([d] @ [''roles'']))
        (each_then (ov_json_object_get (Some val) (Some ''users'')) (reindex_users ([d] @ [''users''])) nx)) db = nx db1"
    "reindexed t (leaves v [d] OV_VOCS_DB_LOOP \<union> (leaves v [d] OV_VOCS_DB_ROLE \<union> leaves v [d] OV_VOCS_DB_USER)) db db1"
    by blast
  then have ok1: "indexes_ok db1" by (simp add: reindexed_def)
  have "\<exists>db'. (\<forall>nx. each_then (ov_json_object_get (Some val) (Some ''projects'')) (reindex_projects [d, ''projects'']) nx db1 = nx db') \<and>
    reindexed t (\<Union>x \<in> keys_below v ([d] @ [''projects'']). entities v [d, ''projects'', x]) db1 db'"
    by (rule each_reindex [OF v _ _ ok1]) (use reindex_projects_entities [OF v(1), of d] in \<open>auto simp: container_def simp del: lookup.simps\<close>)
  then obtain db2 where db2: "\<forall>nx. each_then (ov_json_object_get (Some val) (Some ''projects'')) (reindex_projects [d, ''projects'']) nx db1 = nx db2"
    "reindexed t (\<Union>x \<in> keys_below v [d, ''projects'']. entities v [d, ''projects'', x]) db1 db2" by auto
  let ?db = "change_index OV_VOCS_DB_DOMAIN (reindex [] d val) db2"
  have "tag val = t" using v unfolding fresh_tree_def by blast
  then have "reindexed t {(OV_VOCS_DB_DOMAIN, d, [d])} db2 ?db"
    using reindexed_put [of db2 OV_VOCS_DB_DOMAIN val t d "[]"] db2(2) by (simp add: reindexed_def)
  from reindexed_trans [OF db1(2) reindexed_trans [OF db2(2) this]] entities_domain [of v d] v(2) have "reindexed t (entities v [d]) db ?db" by simp
  moreover have "reindex_domains [] d val db = (?db, True)" using db1(1) db2(1) by (simp add: reindex_domains_def change_index.simps)
  ultimately show ?thesis by blast
qed

lemma reindex_auth_entities:
  assumes v: "fresh_tree t v" "data_domains db = Some v" and db: "indexes_ok db"
  shows "\<exists>db'. reindex_auth db = (db', True) \<and> reindexed t (entities v []) db db'"
proof -
  from v(1) obtain a es where es: "v = JObject a es" by (auto simp: fresh_tree_def elim: object_atE)
  then have slots: "in_slots json_slot es" using v(1) by (simp add: fresh_tree_def tree_ok_object)
  have "\<exists>db'. members_for_each (reindex_domains []) es db = (db', True) \<and> reindexed t (\<Union>e \<in> set es. entities v [fst e]) db db'"
  proof (rule reindexed_members [OF _ db])
    fix d w db1 assume d: "(d, w) \<in> set es" "indexes_ok db1"
    then have "lookup v [d] = Some w" using slots es by (simp add: in_slots_def)
    from reindex_domains_entities [OF v(1) this d(2)] show "\<exists>db'. reindex_domains [] d w db1 = (db', True) \<and> reindexed t (entities v [d]) db1 db'" .
  qed
  moreover have "(\<Union>e \<in> set es. entities v [fst e]) = entities v []"
  proof (intro set_eqI iffI)
    fix e assume "e \<in> entities v []"
    then obtain K i q where e: "e = (K, i, q)" "entity_at K q i" "lookup v q \<noteq> None" by (auto simp: entities_def)
    then obtain d r where q: "q = d # r" by (cases q) auto
    with e(3) es have "d \<in> fst ` set es" by (auto split: option.splits dest!: map_of_SomeD intro: rev_image_eqI)
    then show "e \<in> (\<Union>e \<in> set es. entities v [fst e])" using e q by (auto simp: entities_def)
  qed (auto simp: entities_def)
  ultimately show ?thesis using v(2) es by (simp add: reindex_auth_def)
qed

lemma inject_auth_inv:
  assumes x: "dataset_ok x" and inv: "vocs_db_inv db"
  shows "vocs_db_inv (fst (inject_auth db lk x))" "snd (inject_auth db lk x) = lk"
    "lk \<Longrightarrow> data_domains (fst (inject_auth db lk x)) = Some (ov_json_value_copy (next_tag db) x)"
proof -
  let ?t = "next_tag db" and ?v = "ov_json_value_copy (next_tag db) x"
  let ?db = "index_clear (db\<lparr>data_domains := Some ?v, next_tag := Suc ?t\<rparr>)"
  have "vocs_db_inv (fst (reindex_auth ?db)) \<and> snd (reindex_auth ?db) \<and> data_domains (fst (reindex_auth ?db)) = Some ?v"
  proof -
    have v: "fresh_tree ?t ?v" using x
      by (auto simp: fresh_tree_def dataset_ok_def tree_ok_copy lookup_copy object_at_def)
    have "indexes_ok ?db" unfolding indexes_ok_def
    proof (intro allI impI)
      fix K es assume "get_index_dict ?db K = Some es"
      then show "in_slots index_slot es" by (cases K) (auto simp: index_clear_def)
    qed
    from reindex_auth_entities [OF v _ this] obtain db' where db': "reindex_auth ?db = (db', True)" "reindexed ?t (entities ?v []) ?db db'"
      by (auto simp: index_clear_def)
    have none: "idx ?db K i = None" for K i by (cases K) (auto simp: idx_simps index_clear_def)
    have data: "data_domains db' = Some ?v" using db'(2) by (simp add: reindexed_def index_clear_def)
    have n: "dnode db' p = Some (t, b) \<longleftrightarrow> t = ?t \<and> (\<exists>w. lookup x p = Some w \<and> b = ov_json_is_object (Some w))" for p t b
      using data by (cases "lookup x p") (auto simp: dnode_def node_def lookup_copy)
    have found: "(\<exists>p. (K, i, p) \<in> entities ?v [] \<and> idx db' K i = Some (p, ?t)) \<or> (\<forall>p. (K, i, p) \<notin> entities ?v []) \<and> idx db' K i = None" for K i
      using db'(2) none by (simp add: reindexed_def)
    have ent: "(K, i, p) \<in> entities ?v [] \<longleftrightarrow> entity_at K p i \<and> lookup x p \<noteq> None" for K i p by (auto simp: entities_def lookup_copy)
    have "sound_index db'" unfolding sound_index_def
    proof (intro allI impI)
      fix K i p t assume "idx db' K i = Some (p, t)"
      with found [of K i] ent show "entity_at K p i \<and> (\<exists>b. dnode db' p = Some (t, b))" by (auto simp: n)
    qed
    moreover have "complete_index db'" unfolding complete_index_def
    proof (intro allI impI)
      fix K i p t b assume a: "entity_at K p i" "\<not> admin_role K i" "dnode db' p = Some (t, b)"
      then have p: "(K, i, p) \<in> entities ?v []" "t = ?t" by (auto simp: ent n)
      with found [of K i] obtain q where q: "(K, i, q) \<in> entities ?v []" "idx db' K i = Some (q, ?t)" by blast
      then have "q = p" using x a(1,2) p unfolding dataset_ok_def ent by blast
      then show "idx db' K i = Some (p, t)" using q p by simp
    qed
    moreover have "indexes_ok db'" using db'(2) by (simp add: reindexed_def)
    moreover have "domains_ok db'" using x v data n
      by (auto simp: domains_ok_def dataset_ok_def object_at_def tree_ok_copy lookup_copy)
    ultimately show ?thesis using db'(1) data by (simp add: vocs_db_inv_def consistent_def)
  qed
  then show "vocs_db_inv (fst (inject_auth db lk x))" "snd (inject_auth db lk x) = lk"
    "lk \<Longrightarrow> data_domains (fst (inject_auth db lk x)) = Some (ov_json_value_copy (next_tag db) x)" using inv by (auto simp: inject_auth_def)
qed

end
