(* ===== verification/Ov_Vocs_Db_Update.thy ===== *)
theory Ov_Vocs_Db_Update
  imports Ov_Vocs_Db_Ops
begin

text \<open>
  Changes of single members and of whole entities of the vocs database from JSON documents, with the tests that go before them, and
  what they keep of the invariant.

  The code collects changes of SIP permissions in a message for other services, which is not part of the database and not modelled; of
  that only the cases are, in which it makes an update fail.
\<close>

subsection \<open>Update of containers\<close>

fun ov_json_is_array :: "'a json option \<Rightarrow> bool" where
  "ov_json_is_array (Some (JArray a vs)) = True"
| "ov_json_is_array _ = False"

definition add_sip_permission_for_loop :: "'a json \<Rightarrow> bool" where
  "add_sip_permission_for_loop loop =
    (let whitelist = ov_json_object_get (ov_json_object_get (Some loop) (Some ''sip'')) (Some ''whitelist'')
     in if whitelist = None then True else ov_json_is_array whitelist)"

definition check_for_sip_update :: "'a json \<Rightarrow> 'b json option \<Rightarrow> bool" where
  "check_for_sip_update new_loops old_loops =
    (if old_loops = None then snd (ov_json_object_for_each (Some new_loops) () (\<lambda>key val s. (s, add_sip_permission_for_loop val))) else True)"

definition check_sip_processing :: "'b json option \<Rightarrow> 'a json \<Rightarrow> bool" where
  "check_sip_processing old new = snd (ov_json_object_for_each (Some new) () (\<lambda>key val s. (s, check_for_sip_update new old)))"

definition user_already_set :: "ov_vocs_db \<Rightarrow> nat json option \<Rightarrow> string \<Rightarrow> bool" where
  "user_already_set db parent key = (if map_of (index_users db) key \<noteq> None then ov_json_object_get parent (Some key) \<noteq> None else True)"

definition role_already_set :: "ov_vocs_db \<Rightarrow> nat json option \<Rightarrow> string \<Rightarrow> bool" where
  "role_already_set db parent key =
    (if key = ''admin'' then True
     else if map_of (index_roles db) key \<noteq> None then ov_json_object_get parent (Some key) \<noteq> None
     else True)"

definition loop_already_set :: "ov_vocs_db \<Rightarrow> nat json option \<Rightarrow> string \<Rightarrow> bool" where
  "loop_already_set db parent key = (if map_of (index_loops db) key \<noteq> None then ov_json_object_get parent (Some key) \<noteq> None else True)"

text \<open>An iteration of a test over the members of an object.\<close>

definition all_members :: "(string \<Rightarrow> bool) \<Rightarrow> 'a json \<Rightarrow> bool" where
  "all_members f v = snd (ov_json_object_for_each (Some v) () (\<lambda>key val s. (s, f key)))"

definition add_user_to_drop :: "unit json \<Rightarrow> string \<Rightarrow> nat json \<Rightarrow> string list \<Rightarrow> string list \<times> bool" where
  "add_user_to_drop users key val list = (if ov_json_object_get (Some users) (Some key) \<noteq> None then (list, True) else (list @ [key], True))"

fun drop_users :: "path \<Rightarrow> string list \<Rightarrow> ov_vocs_db \<Rightarrow> ov_vocs_db \<times> bool" where
  "drop_users p [] db = (db, True)"
| "drop_users p (u # us) db = (case dom_del p u db of (db', ok) \<Rightarrow> if ok then drop_users p us db' else (db', False))"

definition add_new_user :: "path \<Rightarrow> string \<Rightarrow> unit json \<Rightarrow> ov_vocs_db \<Rightarrow> ov_vocs_db \<times> bool" where
  "add_new_user p key val db =
    (if ov_json_object_get (dom_get db p) (Some key) \<noteq> None then (db, True)
     else dom_set p key (ov_json_value_copy (next_tag db) val) (db\<lparr>next_tag := Suc (next_tag db)\<rparr>))"

text \<open>
  If the parent is not an object, the new object for the users is not part of the tree, and the index gets pointers to values outside of
  it. Paths cannot stand for those, and the result is \<open>None\<close> as well.
\<close>

definition update_users :: "path \<Rightarrow> unit json \<Rightarrow> ov_vocs_db \<Rightarrow> (ov_vocs_db \<times> bool) option" where
  "update_users p users db =
    (if \<not> ov_json_is_object (Some users) then Some (db, False)
     else (case get_create_parent p ''users'' db of
       (db1, None) \<Rightarrow>
         if \<not> all_members (user_already_set db1 None) users then Some (db1, False)
         else if ov_json_object_count (Some users) = 0 then Some (db1, True)
         else None
     | (db1, Some q) \<Rightarrow>
         if \<not> all_members (user_already_set db1 (dom_get db1 q)) users then Some (db1, False)
         else (case ov_json_object_for_each (dom_get db1 q) db1 (\<lambda>key val. unindex_users key) of (db2, ok2) \<Rightarrow>
           if \<not> ok2 then Some (db2, False)
           else (case ov_json_object_for_each (dom_get db2 q) [] (add_user_to_drop users) of (list, ok3) \<Rightarrow>
             if \<not> ok3 then Some (db2, False)
             else (case drop_users q list db2 of (db3, ok4) \<Rightarrow>
               if \<not> ok4 then Some (db3, False)
               else (case ov_json_object_for_each (Some users) db3 (add_new_user q) of (db4, ok5) \<Rightarrow>
                 if \<not> ok5 then Some (db4, False)
                 else Some (ov_json_object_for_each (dom_get db4 q) db4 (reindex_users q))))))))"

text \<open>
  Roles and loops are replaced. The place of the old ones is created if there is none; that it could not be is seen when the new ones are set.
\<close>

definition replace_members ::
  "string \<Rightarrow> (string \<Rightarrow> ov_vocs_db \<Rightarrow> ov_vocs_db \<times> bool) \<Rightarrow> (path \<Rightarrow> string \<Rightarrow> nat json \<Rightarrow> ov_vocs_db \<Rightarrow> ov_vocs_db \<times> bool) \<Rightarrow>
   path \<Rightarrow> unit json \<Rightarrow> ov_vocs_db \<Rightarrow> ov_vocs_db \<times> bool" where
  "replace_members key unindex_f reindex_f p new_vals db =
    (let cpy = ov_json_value_copy (next_tag db) new_vals in
     case each_then (dom_get db (p @ [key])) (\<lambda>k val. unindex_f k)
            (\<lambda>s. dom_set p key cpy (s\<lparr>next_tag := Suc (next_tag s)\<rparr>)) db of
       (db1, ok) \<Rightarrow> if \<not> ok then (db1, False) else ov_json_object_for_each (Some cpy) db1 (reindex_f (p @ [key])))"

definition update_roles :: "path \<Rightarrow> unit json \<Rightarrow> ov_vocs_db \<Rightarrow> ov_vocs_db \<times> bool" where
  "update_roles p roles db =
    (if \<not> ov_json_is_object (Some roles) then (db, False)
     else (case get_create_parent p ''roles'' db of (db1, _) \<Rightarrow>
       if \<not> all_members (role_already_set db1 (dom_get db1 (p @ [''roles'']))) roles then (db1, False)
       else replace_members ''roles'' unindex_roles reindex_roles p roles db1))"

definition update_loops :: "path \<Rightarrow> unit json \<Rightarrow> ov_vocs_db \<Rightarrow> ov_vocs_db \<times> bool" where
  "update_loops p loops db =
    (if \<not> ov_json_is_object (Some loops) then (db, False)
     else (case get_create_parent p ''loops'' db of (db1, _) \<Rightarrow>
       if \<not> all_members (loop_already_set db1 (dom_get db1 (p @ [''loops'']))) loops then (db1, False)
       else if \<not> check_sip_processing (Some (case dom_get db1 (p @ [''loops'']) of None \<Rightarrow> JObject (next_tag db1) [] | Some data \<Rightarrow> data)) loops then (db1, False)
       else replace_members ''loops'' unindex_loops reindex_loops p loops db1))"

definition update_domain_projects :: "path \<Rightarrow> unit json \<Rightarrow> ov_vocs_db \<Rightarrow> (ov_vocs_db \<times> bool) option" where
  "update_domain_projects p projects db =
    (if \<not> ov_json_is_object (Some projects) then Some (db, False)
     else let cpy = ov_json_value_copy (next_tag db) projects; old = dom_get db (p @ [''projects'']) in
       (case each_then old (\<lambda>key val. unindex_projects key)
               (\<lambda>s. (map_option (\<lambda>t. t\<lparr>next_tag := Suc (next_tag t)\<rparr>) s, check_sip_processing old projects)) (Some db) of
          (None, _) \<Rightarrow> None
        | (Some db1, ok) \<Rightarrow>
            if \<not> ok then Some (db1, False)
            else (case dom_set p ''projects'' cpy db1 of (db2, ok2) \<Rightarrow>
              if \<not> ok2 then Some (db2, False)
              else Some (ov_json_object_for_each (Some cpy) db2 (reindex_projects (p @ [''projects'']))))))"

subsection \<open>Update of entities\<close>

definition set_copy :: "path \<Rightarrow> string \<Rightarrow> unit json \<Rightarrow> ov_vocs_db \<Rightarrow> ov_vocs_db \<times> bool" where
  "set_copy p key val db = dom_set p key (ov_json_value_copy (next_tag db) val) (db\<lparr>next_tag := Suc (next_tag db)\<rparr>)"

definition update_domain :: "path \<Rightarrow> string \<Rightarrow> unit json \<Rightarrow> ov_vocs_db \<Rightarrow> (ov_vocs_db \<times> bool) option" where
  "update_domain p key val db =
    (if key = ''projects'' then update_domain_projects p val db
     else if key = ''users'' then update_users p val db
     else if key = ''roles'' then Some (update_roles p val db)
     else if key = ''loops'' then Some (update_loops p val db)
     else if key = ''id'' then Some (db, True)
     else Some (set_copy p key val db))"

definition update_project :: "path \<Rightarrow> string \<Rightarrow> unit json \<Rightarrow> ov_vocs_db \<Rightarrow> (ov_vocs_db \<times> bool) option" where
  "update_project p key val db =
    (if key = ''users'' then update_users p val db
     else if key = ''roles'' then Some (update_roles p val db)
     else if key = ''loops'' then Some (update_loops p val db)
     else if key = ''id'' then Some (db, True)
     else Some (set_copy p key val db))"

definition update_entity :: "path \<Rightarrow> string \<Rightarrow> unit json \<Rightarrow> ov_vocs_db \<Rightarrow> (ov_vocs_db \<times> bool) option" where
  "update_entity p key val db = Some (set_copy p key val db)"

fun update_function :: "ov_vocs_db_entity \<Rightarrow> path \<Rightarrow> string \<Rightarrow> unit json \<Rightarrow> ov_vocs_db \<Rightarrow> (ov_vocs_db \<times> bool) option" where
  "update_function OV_VOCS_DB_DOMAIN = update_domain"
| "update_function OV_VOCS_DB_PROJECT = update_project"
| "update_function OV_VOCS_DB_USER = update_entity"
| "update_function OV_VOCS_DB_LOOP = update_entity"
| "update_function OV_VOCS_DB_ROLE = update_entity"
| "update_function OV_VOCS_DB_ENTITY_ERROR = (\<lambda>p key val db. Some (db, False))"

definition ov_vocs_db_update_entity_key ::
  "ov_vocs_db \<Rightarrow> bool \<Rightarrow> ov_vocs_db_entity \<Rightarrow> string \<Rightarrow> string \<Rightarrow> unit json \<Rightarrow> (ov_vocs_db \<times> bool) option" where
  "ov_vocs_db_update_entity_key db lk entity eid key val =
    (if key = ''id'' then Some (db, False)
     else if \<not> lk then Some (db, False)
     else (case index_get (get_index_dict db entity) (Some eid) of
       None \<Rightarrow> Some (db, False)
     | Some data \<Rightarrow> do { v \<leftarrow> deref db data; update_function entity (fst data) key val db }))"

subsection \<open>Deletion of members\<close>

definition delete_project_key :: "path \<Rightarrow> string \<Rightarrow> ov_vocs_db \<Rightarrow> ov_vocs_db \<times> bool" where
  "delete_project_key p key db =
    (let content = dom_get db (p @ [key]) in
     case (if key = ''users'' then ov_json_object_for_each content db (\<lambda>k val. unindex_users k)
           else if key = ''roles'' then ov_json_object_for_each content db (\<lambda>k val. unindex_roles k)
           else if key = ''loops'' then ov_json_object_for_each content db (\<lambda>k val. unindex_loops k)
           else (db, True)) of
       (db1, result) \<Rightarrow> (case dom_del p key db1 of (db2, ok) \<Rightarrow> (db2, result \<and> ok)))"

definition delete_domain_key :: "path \<Rightarrow> string \<Rightarrow> ov_vocs_db \<Rightarrow> (ov_vocs_db \<times> bool) option" where
  "delete_domain_key p key db =
    (let content = dom_get db (p @ [key]) in
     case (if key = ''projects'' then ov_json_object_for_each content (Some db) (\<lambda>k val. unindex_projects k)
           else if key = ''users'' then ov_json_object_for_each content (Some db) (\<lambda>k val. on_some (unindex_users k))
           else if key = ''roles'' then ov_json_object_for_each content (Some db) (\<lambda>k val. on_some (unindex_roles k))
           else if key = ''loops'' then ov_json_object_for_each content (Some db) (\<lambda>k val. on_some (unindex_loops k))
           else (Some db, True)) of
       (None, _) \<Rightarrow> None
     | (Some db1, result) \<Rightarrow> (case dom_del p key db1 of (db2, ok) \<Rightarrow> Some (db2, result \<and> ok)))"

definition ov_vocs_db_delete_entity_key :: "ov_vocs_db \<Rightarrow> bool \<Rightarrow> ov_vocs_db_entity \<Rightarrow> string \<Rightarrow> string \<Rightarrow> (ov_vocs_db \<times> bool) option" where
  "ov_vocs_db_delete_entity_key db lk entity eid key =
    (if key = ''id'' then Some (db, False)
     else if \<not> lk then Some (db, False)
     else (case index_get (get_index_dict db entity) (Some eid) of
       None \<Rightarrow> Some (db, False)
     | Some data \<Rightarrow>
         do { v \<leftarrow> deref db data;
              case entity of
                OV_VOCS_DB_DOMAIN \<Rightarrow> delete_domain_key (fst data) key db
              | OV_VOCS_DB_PROJECT \<Rightarrow> Some (delete_project_key (fst data) key db)
              | OV_VOCS_DB_ENTITY_ERROR \<Rightarrow> Some (db, False)
              | _ \<Rightarrow> Some (dom_del (fst data) key db) }))"

subsection \<open>Tests before an update\<close>

text \<open>The result and the errors. The id that is set is compared with \<open>strcmp\<close>, which is undefined if the member is no string.\<close>

definition id_error :: "unit json" where
  "id_error = fst (ov_json_object_set (JObject () []) ''id'' (JString () (Some ''id does not match'')))"

definition verify_role :: "string \<Rightarrow> unit json \<Rightarrow> (bool \<times> unit json option) option" where
  "verify_role eid val =
    (if ov_json_object_get (Some val) (Some ''id'') = None then Some (True, None)
     else (case ov_json_string_get (ov_json_object_get (Some val) (Some ''id'')) of
       None \<Rightarrow> None
     | Some id_set \<Rightarrow> if id_set \<noteq> eid then Some (False, Some id_error) else Some (True, None)))"

definition verify_loop :: "string \<Rightarrow> unit json \<Rightarrow> (bool \<times> unit json option) option" where
  "verify_loop eid val =
    (if ov_json_object_get (Some val) (Some ''id'') = None then Some (True, None)
     else (case ov_json_string_get (ov_json_object_get (Some val) (Some ''id'')) of
       None \<Rightarrow> None
     | Some id_set \<Rightarrow> if id_set \<noteq> eid then Some (False, Some id_error) else Some (True, None)))"

definition verify_password :: "unit json \<Rightarrow> bool \<times> unit json option" where
  "verify_password val =
    (if ov_json_object_get (Some val) (Some ''password'') \<noteq> None
     then (False, Some (fst (ov_json_object_set (JObject () []) ''password'' (JString () (Some ''user password contained.'')))))
     else (True, None))"

definition verify_user :: "string \<Rightarrow> unit json \<Rightarrow> (bool \<times> unit json option) option" where
  "verify_user eid val =
    (if ov_json_object_get (Some val) (Some ''id'') = None then Some (verify_password val)
     else (case ov_json_string_get (ov_json_object_get (Some val) (Some ''id'')) of
       None \<Rightarrow> None
     | Some id_set \<Rightarrow> if id_set \<noteq> eid then Some (False, Some id_error) else Some (verify_password val)))"

definition verify_id :: "nat json option \<Rightarrow> index \<Rightarrow> string \<Rightarrow> string \<Rightarrow> unit json option \<Rightarrow> unit json option \<times> bool" where
  "verify_id data dict msg key err =
    (if ov_json_object_get data (Some key) \<noteq> None then (err, True)
     else if map_of dict key \<noteq> None
     then (Some (fst (ov_json_object_set (case err of None \<Rightarrow> JObject () [] | Some e \<Rightarrow> e) key (JString () (Some msg)))), False)
     else (err, True))"

text \<open>The tests for the users, roles and loops of a project or a domain. The state is the error.\<close>

definition verify_members :: "ov_vocs_db \<Rightarrow> nat json option \<Rightarrow> unit json \<Rightarrow> (unit json option \<Rightarrow> unit json option \<times> bool) \<Rightarrow> unit json option \<times> bool" where
  "verify_members db entity val nx =
    (let each = \<lambda>key dict msg nx err.
       (case ov_json_object_get (Some val) (Some key) of
          None \<Rightarrow> nx err
        | Some data \<Rightarrow>
            (case ov_json_object_for_each (Some data) err (\<lambda>k w. verify_id (ov_json_object_get entity (Some key)) dict msg k) of
               (err', ok) \<Rightarrow> if ok then nx err' else (err', False)))
     in each ''users'' (index_users db) ''user id already in use.''
          (each ''roles'' (index_roles db) ''role id already in use.''
            (each ''loops'' (index_loops db) ''loop id already in use.'' nx)) None)"

definition verify_project :: "ov_vocs_db \<Rightarrow> string \<Rightarrow> unit json \<Rightarrow> (unit json option \<times> bool) option" where
  "verify_project db eid val =
    (case index_get (Some (index_projects db)) (Some eid) of
       None \<Rightarrow> Some (verify_members db None val (\<lambda>err. (err, True)))
     | Some data \<Rightarrow> do { v \<leftarrow> deref db data; Some (verify_members db (Some v) val (\<lambda>err. (err, True))) })"

text \<open>
  The errors of a project replace those found before. Then the id of the project is looked for among the loops.
\<close>

definition verify_project_id :: "ov_vocs_db \<Rightarrow> nat json option \<Rightarrow> string \<Rightarrow> unit json \<Rightarrow> unit json option option \<Rightarrow> unit json option option \<times> bool" where
  "verify_project_id db data key val err =
    (case verify_project db key val of
       None \<Rightarrow> (None, False)
     | Some (err', ok) \<Rightarrow>
         if \<not> ok then (Some err', False)
         else (case verify_id data (index_loops db) ''project id already in use.'' key err' of (err'', ok') \<Rightarrow> (Some err'', ok')))"

definition verify_domain :: "ov_vocs_db \<Rightarrow> string \<Rightarrow> unit json \<Rightarrow> (unit json option \<times> bool) option" where
  "verify_domain db eid val =
    do { domain \<leftarrow> (case index_get (Some (index_domains db)) (Some eid) of None \<Rightarrow> Some None | Some data \<Rightarrow> do { v \<leftarrow> deref db data; Some (Some v) });
         case verify_members db domain val (\<lambda>err. (err, True)) of
           (err, False) \<Rightarrow> Some (err, False)
         | (err, True) \<Rightarrow>
             (case ov_json_object_get (Some val) (Some ''projects'') of
                None \<Rightarrow> Some (err, True)
              | Some projects \<Rightarrow>
                  (case ov_json_object_for_each (Some projects) (Some err) (verify_project_id db (ov_json_object_get domain (Some ''projects''))) of
                     (None, _) \<Rightarrow> None
                   | (Some err', ok) \<Rightarrow> Some (err', ok))) }"

definition ov_vocs_db_verify_entity_item ::
  "ov_vocs_db \<Rightarrow> bool \<Rightarrow> ov_vocs_db_entity \<Rightarrow> string \<Rightarrow> unit json \<Rightarrow> (bool \<times> unit json option) option" where
  "ov_vocs_db_verify_entity_item db lk entity eid val =
    (if \<not> lk then Some (False, None)
     else (case entity of
         OV_VOCS_DB_DOMAIN \<Rightarrow> do { (err, ok) \<leftarrow> verify_domain db eid val; Some (ok, err) }
       | OV_VOCS_DB_PROJECT \<Rightarrow> do { (err, ok) \<leftarrow> verify_project db eid val; Some (ok, err) }
       | OV_VOCS_DB_USER \<Rightarrow> verify_user eid val
       | OV_VOCS_DB_LOOP \<Rightarrow> verify_loop eid val
       | OV_VOCS_DB_ROLE \<Rightarrow> verify_role eid val
       | OV_VOCS_DB_ENTITY_ERROR \<Rightarrow> Some (False, None)))"

definition update_key_val ::
  "(path \<Rightarrow> string \<Rightarrow> unit json \<Rightarrow> ov_vocs_db \<Rightarrow> (ov_vocs_db \<times> bool) option) \<Rightarrow> path \<Rightarrow> string \<Rightarrow> unit json \<Rightarrow> ov_vocs_db option \<Rightarrow> ov_vocs_db option \<times> bool" where
  "update_key_val func p key val s =
    (case Option.bind s (func p key val) of None \<Rightarrow> (None, False) | Some (db, ok) \<Rightarrow> (Some db, ok))"

text \<open>The two locks of the update, one of the test and one of the change, are got or not.\<close>

definition ov_vocs_db_update_entity_item ::
  "ov_vocs_db \<Rightarrow> bool \<Rightarrow> bool \<Rightarrow> ov_vocs_db_entity \<Rightarrow> string \<Rightarrow> unit json \<Rightarrow> (ov_vocs_db \<times> bool \<times> unit json option) option" where
  "ov_vocs_db_update_entity_item db lk lk2 entity eid val =
    do { (ok, errors) \<leftarrow> ov_vocs_db_verify_entity_item db lk entity eid val;
         if \<not> ok then Some (db, False, errors)
         else if \<not> lk2 then Some (db, False, errors)
         else (case index_get (get_index_dict db entity) (Some eid) of
             None \<Rightarrow> Some (db, False, Some (fst (ov_json_object_set (JObject () []) eid (JString () (Some ''ID not found.'')))))
           | Some data \<Rightarrow>
               do { v \<leftarrow> deref db data;
                    case (if entity = OV_VOCS_DB_ENTITY_ERROR then (Some db, False)
                          else ov_json_object_for_each (Some val) (Some db) (update_key_val (update_function entity) (fst data))) of
                      (None, _) \<Rightarrow> None
                    | (Some db', result) \<Rightarrow> Some (db', result, errors) }) }"

subsection \<open>Containers that are changed\<close>

lemma Ex_bool [simp]: "Ex Not" "\<exists>b. b"
  by blast+

lemma all_members_iff: "all_members f v \<longleftrightarrow> (\<exists>a es. v = JObject a es \<and> (\<forall>k \<in> fst ` set es. f k))"
proof -
  have "snd (members_for_each (\<lambda>key val s. (s, f key)) es ()) \<longleftrightarrow> (\<forall>k \<in> fst ` set es. f k)" for es :: "(string \<times> 'a json) list"
    by (induction es) auto
  then show ?thesis by (cases v) (auto simp: all_members_def)
qed

text \<open>The place of entities of a kind that have no entities inside.\<close>

definition leaf_container :: "ov_vocs_db_entity \<Rightarrow> path \<Rightarrow> bool" where
  "leaf_container K c \<longleftrightarrow> container c \<and> K \<in> leaf_kinds \<and> (\<forall>i. entity_at K (c @ [i]) i)"

lemma leaf_containerI:
  assumes "entity_at K' p i" "K' = OV_VOCS_DB_DOMAIN \<or> K' = OV_VOCS_DB_PROJECT" "K \<in> leaf_kinds"
  shows "leaf_container K (p @ [kind_key K])"
  using assms by (cases K) (auto simp: leaf_container_def container_def)

lemma under_container:
  assumes c: "leaf_container K c" and q: "prefix c q" "entity_at K' q j"
  shows "K' = K \<and> q = c @ [j]"
proof -
  have con: "container c" "K \<in> leaf_kinds" "\<And>i. entity_at K (c @ [i]) i" using c by (auto simp: leaf_container_def)
  from q(1) obtain zs where zs: "q = c @ zs" by (auto elim: prefixE)
  with q(2) container_entity [OF con(1)] obtain i r where i: "q = c @ i # r" by (cases zs) auto
  have "q = c @ [i]" using leaf_entity [OF con(3) con(2) _ q(2), of i] i by (simp add: prefix_def)
  with entity_at_inj [OF con(3) [of i], of K' j] q(2) show ?thesis by auto
qed

lemma container_inside: "leaf_container K c \<Longrightarrow> prefix (c @ [k]) q \<Longrightarrow> \<not> container q"
  using leaf_inside(2) [of K "c @ [k]" k q] container_entity [of q K k] by (auto simp: leaf_container_def)

lemma inv_replace:
  assumes inv: "vocs_db_inv db" and c: "leaf_container K c" and ok: "domains_ok db'" "indexes_ok db'"
    and out: "\<And>q. \<not> prefix c q \<Longrightarrow> dnode db' q = dnode db q"
    and i: "\<And>K' j. idx db' K' j = (if K' = K \<and> dnode db' (c @ [j]) \<noteq> None then Some (c @ [j], fst (the (dnode db' (c @ [j]))))
      else if K' = K \<and> j \<in> keys_at db c then None else idx db K' j)"
    and new: "\<And>j. dnode db' (c @ [j]) \<noteq> None \<Longrightarrow> admin_role K j \<or> idx db K j = None \<or> j \<in> keys_at db c"
  shows "vocs_db_inv db'"
proof -
  have con: "consistent db" using inv by (simp add: vocs_db_inv_def)
  have ent: "entity_at K (c @ [j]) j" for j using c by (simp add: leaf_container_def)
  have "sound_index db'" unfolding sound_index_def
  proof (intro allI impI)
    fix K' j q t assume a: "idx db' K' j = Some (q, t)"
    show "entity_at K' q j \<and> (\<exists>b. dnode db' q = Some (t, b))"
    proof (cases "K' = K \<and> dnode db' (c @ [j]) \<noteq> None")
      case True
      with a i [of K' j] ent show ?thesis by auto
    next
      case False
      with a i [of K' j] have old: "idx db K' j = Some (q, t)" "\<not> (K' = K \<and> j \<in> keys_at db c)" by (auto split: if_splits)
      with soundD [OF con old(1)] have q: "entity_at K' q j" "\<exists>b. dnode db q = Some (t, b)" by auto
      with under_container [OF c _ q(1)] old(2) have "\<not> prefix c q" by (auto simp: keys_at_def)
      with out q show ?thesis by auto
    qed
  qed
  moreover have "complete_index db'" unfolding complete_index_def
  proof (intro allI impI)
    fix K' j q t b assume a: "entity_at K' q j" "\<not> admin_role K' j" "dnode db' q = Some (t, b)"
    show "idx db' K' j = Some (q, t)"
    proof (cases "prefix c q")
      case True
      with under_container [OF c True a(1)] a(3) i [of K' j] show ?thesis by auto
    next
      case False
      with out a(3) have "dnode db q = Some (t, b)" by simp
      from completeD [OF con a(1,2) this] have old: "idx db K' j = Some (q, t)" .
      have "j \<notin> keys_at db c" if "K' = K"
      proof
        assume "j \<in> keys_at db c"
        then obtain t' b' where "dnode db (c @ [j]) = Some (t', b')" by (auto simp: keys_at_def)
        from completeD [OF con ent _ this] a(2) that old have "q = c @ [j]" by simp
        with False show False by simp
      qed
      with new [of j] old a(2) i [of K' j] show ?thesis by auto
    qed
  qed
  ultimately show ?thesis using ok by (simp add: vocs_db_inv_def consistent_def)
qed

text \<open>An iteration that puts the members of an object into an index.\<close>

lemma reindex_members:
  assumes "distinct (map fst es)" "indexes_ok db" "K \<noteq> OV_VOCS_DB_ENTITY_ERROR"
  shows "\<exists>db'. members_for_each (\<lambda>k v db. (change_index K (reindex c k v) db, True)) es db = (db', True) \<and> indexes_ok db' \<and>
    data_domains db' = data_domains db \<and>
    (\<forall>K' j. idx db' K' j = (case map_of es j of None \<Rightarrow> idx db K' j | Some v \<Rightarrow> if K' = K then Some (c @ [j], tag v) else idx db K' j))"
  using assms(1,2)
proof (induction es arbitrary: db)
  case (Cons e es)
  let ?db = "change_index K (reindex c (fst e) (snd e)) db"
  have r: "reindex c (fst e) (snd e) = put index_slot (fst e) (c @ [fst e], tag (snd e))" by (simp add: reindex_def fun_eq_iff)
  have ok: "indexes_ok ?db" unfolding r by (rule indexes_change [OF Cons.prems(2)])
  have i: "idx ?db K' j = (if K' = K \<and> j = fst e then Some (c @ [j], tag (snd e)) else idx db K' j)" for K' j
    unfolding r using assms(3) by (auto simp: idx_change [OF Cons.prems(2)])
  from Cons.IH [OF _ ok] Cons.prems(1) obtain db' where db': "members_for_each (\<lambda>k v db. (change_index K (reindex c k v) db, True)) es ?db = (db', True)"
    "indexes_ok db'" "data_domains db' = data_domains ?db"
    "\<forall>K' j. idx db' K' j = (case map_of es j of None \<Rightarrow> idx ?db K' j | Some v \<Rightarrow> if K' = K then Some (c @ [j], tag v) else idx ?db K' j)" by auto
  have "map_of es (fst e) = None" using Cons.prems(1) by (auto simp: map_of_eq_None_iff)
  with db' i show ?case by (cases e) (auto split: option.splits)
qed simp

lemma container_rebuilt:
  assumes inv: "vocs_db_inv db" and c: "leaf_container K c"
    and tree: "domains_ok db1" "\<And>q. \<not> prefix c q \<Longrightarrow> dnode db1 q = dnode db q" "dom_get db1 c = Some (JObject a es)"
    and i: "get_index_dict db1 = get_index_dict (change_index K (drop_keys (keys_at db c)) db)"
    and new: "\<forall>j \<in> fst ` set es. admin_role K j \<or> idx db K j = None \<or> j \<in> keys_at db c"
  shows "\<exists>db2. ov_json_object_for_each (dom_get db1 c) db1 (\<lambda>k v db. (change_index K (reindex c k v) db, True)) = (db2, True) \<and> vocs_db_inv db2 \<and>
    data_domains db2 = data_domains db1"
proof -
  have ok: "indexes_ok db" using inv by (simp add: vocs_db_inv_def)
  have ok1: "indexes_ok db1" using indexes_drop [OF ok] by (simp add: indexes_ok_def i)
  have K: "K \<noteq> OV_VOCS_DB_ENTITY_ERROR" using c by (auto simp: leaf_container_def)
  obtain w where w: "data_domains db1 = Some w" "lookup w c = Some (JObject a es)" using tree(3) by (auto simp: dom_get_def bind_eq_Some_conv)
  then have "tree_ok w" using tree(1) by (simp add: domains_ok_def)
  with w(2) have "distinct (map fst es)" unfolding tree_ok_def in_slots_def by blast
  from reindex_members [OF this ok1 K, of c] obtain db2 where
    r: "members_for_each (\<lambda>k v db. (change_index K (reindex c k v) db, True)) es db1 = (db2, True)" "indexes_ok db2" "data_domains db2 = data_domains db1"
      "\<And>K' j. idx db2 K' j = (case map_of es j of None \<Rightarrow> idx db1 K' j | Some v \<Rightarrow> if K' = K then Some (c @ [j], tag v) else idx db1 K' j)" by blast
  have n: "dnode db2 = dnode db1" "dom_get db2 = dom_get db1" using r(3) by (auto simp: dnode_def dom_get_def fun_eq_iff)
  have i1: "idx db1 K' j = (if K' = K \<and> j \<in> keys_at db c then None else idx db K' j)" for K' j
    using idx_cong [OF i] by (simp add: idx_drop)
  have m: "dnode db1 (c @ [j]) = map_option (\<lambda>v. (tag v, ov_json_is_object (Some v))) (map_of es j)" for j
    using w lookup_under [of w c j] by (simp add: dnode_def node_def)
  have "vocs_db_inv db2"
  proof (rule inv_replace [OF inv c])
    show "domains_ok db2" using tree(1) unfolding domains_ok_def r(3) n .
    show "dnode db2 q = dnode db q" if "\<not> prefix c q" for q using tree(2) [OF that] n by simp
    show "idx db2 K' j = (if K' = K \<and> dnode db2 (c @ [j]) \<noteq> None then Some (c @ [j], fst (the (dnode db2 (c @ [j]))))
      else if K' = K \<and> j \<in> keys_at db c then None else idx db K' j)" for K' j
      unfolding n m r(4) i1 by (cases "map_of es j") auto
    show "admin_role K j \<or> idx db K j = None \<or> j \<in> keys_at db c" if "dnode db2 (c @ [j]) \<noteq> None" for j
    proof -
      from that have "map_of es j \<noteq> None" by (simp add: n m)
      then have "j \<in> fst ` set es" by (simp add: map_of_eq_None_iff)
      from bspec [OF new this] show ?thesis .
    qed
  qed (rule r(2))
  with r(1,3) tree(3) show ?thesis by simp
qed

lemma each_unindex_get:
  assumes "domains_ok db" "container c"
  shows "each_then (dom_get db c) (\<lambda>k v. unindex_key K k) nx s = nx (change_index K (drop_keys (keys_at db c)) s)"
  using assms
proof (cases rule: container_cases)
  case 1
  then show ?thesis by (simp add: each_then_def keys_at_none change_id)
next
  case (2 a es)
  then show ?thesis by (simp add: each_then_def unindex_members keys_at_members)
qed

lemma dom_set_get:
  assumes dom: "domains_ok db" and set: "dom_set p k x db = (db', True)"
  shows "dom_get db' (p @ [k]) = Some x" "\<not> prefix (p @ [k]) q \<Longrightarrow> \<not> prefix q p \<Longrightarrow> dom_get db' q = dom_get db q"
proof -
  obtain v where v: "data_domains db = Some v" "object_at v p" "db' = db\<lparr>data_domains := Some (set_at p k x v)\<rparr>"
    using set by (auto simp: dom_set_def split: option.splits if_splits)
  have t: "tree_ok v" using dom v(1) by (simp add: domains_ok_def)
  show "dom_get db' (p @ [k]) = Some x" using lookup_set_at(1) [OF t v(2), of k "p @ [k]" x] v(3) by (simp add: dom_get_def)
  show "dom_get db' q = dom_get db q" if "\<not> prefix (p @ [k]) q" "\<not> prefix q p"
    using lookup_set_at(2) [OF t v(2) that] v by (simp add: dom_get_def)
qed

text \<open>Entities that were not there before are those of the new value \<open>x\<close> at \<open>c\<close>.\<close>

definition new_at :: "path \<Rightarrow> 'a json \<Rightarrow> ov_vocs_db \<Rightarrow> ov_vocs_db \<Rightarrow> bool" where
  "new_at c x db db' \<longleftrightarrow> (\<forall>K q j. entity_at K q j \<longrightarrow> dnode db' q \<noteq> None \<longrightarrow> dnode db q \<noteq> None \<or> (\<exists>r. q = c @ r \<and> lookup x r \<noteq> None))"

lemma new_at_refl: "new_at c x db db" "new_at c x db (db\<lparr>next_tag := n\<rparr>)"
  by (auto simp: new_at_def)

lemma new_at_set:
  assumes "dom_set p k (ov_json_value_copy t x) db = (db', ok)" "domains_ok db" "tree_ok x"
  shows "new_at (p @ [k]) x db db'"
proof (cases ok)
  case True
  have x: "tree_ok (ov_json_value_copy t x)" using assms(3) by (simp add: tree_ok_copy)
  note n = dom_set_dnode(6) [OF assms(2,1) x True]
  show ?thesis unfolding new_at_def
  proof (intro allI impI)
    fix K q j assume a: "entity_at K q j" "dnode db' q \<noteq> None"
    show "dnode db q \<noteq> None \<or> (\<exists>r. q = (p @ [k]) @ r \<and> lookup x r \<noteq> None)"
    proof (cases "prefix (p @ [k]) q")
      case True
      then obtain r where r: "q = (p @ [k]) @ r" by (auto elim: prefixE)
      with a(2) n [of q] show ?thesis by (cases "lookup x r") (auto simp: node_copy node_def lookup_copy)
    next
      case False
      with a(2) n [of q] show ?thesis by simp
    qed
  qed
next
  case False
  then show ?thesis using dom_set_dnode(5) [OF assms(2,1)] assms(3) by (simp add: tree_ok_copy new_at_refl)
qed

lemma get_create_keeps:
  assumes "get_create_parent p key db = (db', r)" "container (p @ [key])" "domains_ok db" "entity_at K q j" "dnode db' q \<noteq> None"
  shows "dnode db q \<noteq> None"
proof (cases "db' = db")
  case False
  let ?db = "db\<lparr>next_tag := Suc (next_tag db)\<rparr>"
  from False assms(1) obtain ok where set: "dom_set p key (JObject (next_tag db) []) ?db = (db', ok)"
    by (auto simp: get_create_parent_def Let_def split: option.splits if_splits prod.splits)
  have dom: "domains_ok ?db" using assms(3) by (auto simp: domains_ok_def)
  note n = dom_set_dnode [OF dom set tree_ok_empty]
  show ?thesis
  proof (cases ok)
    case True
    have "q \<noteq> p @ [key]" using container_entity [OF assms(2)] assms(4) by blast
    then show ?thesis using n(6) [OF True, of q] assms(5) by (auto simp: prefix_def split: if_splits)
  next
    case False
    then show ?thesis using n(5) assms(5) by simp
  qed
qed (use assms(5) in simp)

lemma new_at_create: "get_create_parent p key db = (db1, r) \<Longrightarrow> container (p @ [key]) \<Longrightarrow> domains_ok db \<Longrightarrow> new_at c x db1 db' \<Longrightarrow> new_at c x db db'"
  unfolding new_at_def using get_create_keeps by blast

lemma replace_members_inv:
  assumes inv: "vocs_db_inv db" and c: "leaf_container K (p @ [key])" and f: "unindex_f = unindex_key K"
    "reindex_f = (\<lambda>c k v db. (change_index K (reindex c k v) db, True))" and x: "tree_ok x"
    and new: "\<forall>j \<in> fst ` set es. admin_role K j \<or> idx db K j = None \<or> j \<in> keys_at db (p @ [key])" "x = JObject a es"
  shows "vocs_db_inv (fst (replace_members key unindex_f reindex_f p x db)) \<and> new_at (p @ [key]) x db (fst (replace_members key unindex_f reindex_f p x db))"
proof -
  let ?c = "p @ [key]" and ?x = "ov_json_value_copy (next_tag db) x" and ?s = "change_index K (drop_keys (keys_at db (p @ [key]))) db"
  have dom: "domains_ok db" and con: "container ?c" using inv c by (auto simp: vocs_db_inv_def leaf_container_def)
  have dom1: "domains_ok (?s\<lparr>next_tag := Suc (next_tag ?s)\<rparr>)" using dom by (auto simp: domains_ok_def)
  obtain db1 ok where set: "dom_set p key ?x (?s\<lparr>next_tag := Suc (next_tag ?s)\<rparr>) = (db1, ok)" by fastforce
  have x': "tree_ok ?x" using x by (simp add: tree_ok_copy)
  note n = dom_set_dnode [OF dom1 set x']
  have r: "replace_members key unindex_f reindex_f p x db =
    (if \<not> ok then (db1, False) else ov_json_object_for_each (Some ?x) db1 (\<lambda>k v db. (change_index K (reindex ?c k v) db, True)))"
    using set by (simp add: replace_members_def f each_unindex_get [OF dom con] Let_def)
  show ?thesis
  proof (cases ok)
    case True
    have g: "dom_get db1 ?c = Some ?x" using dom_set_get(1) [OF dom1] set True by simp
    have d1: "domains_ok db1" unfolding domains_ok_def
    proof (intro conjI allI impI)
      show "data_domains db1 = Some v \<Longrightarrow> tree_ok v" "data_domains db1 = Some v \<Longrightarrow> object_at v []" for v using n(7) [OF True] by auto
      fix q t b assume q: "container q" "dnode db1 q = Some (t, b)"
      show b
      proof (cases "prefix ?c q")
        case True
        then obtain z where z: "q = ?c @ z" by (auto elim: prefixE)
        have "z = []" using container_inside [OF c, of "hd z" q] q(1) z by (cases z) (auto simp: prefix_def)
        then show ?thesis using q(2) g z new(2) by (auto simp: dnode_def node_def dom_get_def bind_eq_Some_conv)
      next
        case False
        then have "dnode db q = Some (t, b)" using n(6) [OF \<open>ok\<close>, of q] q(2) by simp
        then show ?thesis using q(1) dom unfolding domains_ok_def by blast
      qed
    qed
    have g': "dom_get db1 ?c = Some (JObject (next_tag db) (map (map_prod id (ov_json_value_copy (next_tag db))) es))" using g new(2) by simp
    have out: "dnode db1 q = dnode db q" if "\<not> prefix ?c q" for q using n(6) [OF True, of q] that by simp
    have i: "get_index_dict db1 = get_index_dict ?s" using n(1) by (auto simp: fun_eq_iff)
    have "\<forall>j \<in> fst ` set (map (map_prod id (ov_json_value_copy (next_tag db) :: unit json \<Rightarrow> nat json)) es). admin_role K j \<or> idx db K j = None \<or> j \<in> keys_at db ?c"
      using new(1) by (auto simp: image_image)
    from container_rebuilt [OF inv c d1 out g' i this] obtain db2 where
      db2: "replace_members key unindex_f reindex_f p x db = (db2, True)" "vocs_db_inv db2" "data_domains db2 = data_domains db1" using r True g by auto
    have "new_at ?c x (?s\<lparr>next_tag := Suc (next_tag ?s)\<rparr>) db1" by (rule new_at_set [OF set dom1 x])
    then have "new_at ?c x db db2" unfolding new_at_def by (simp add: dnode_def db2(3))
    with db2 show ?thesis by simp
  next
    case False
    have "dnode db ?c = None" by (rule ccontr) (use n(4) False dnode_parent [of db p key] in auto)
    then have "dnode db (?c @ [x]) = None" for x by (rule dnode_prefix [rotated]) simp
    then have "keys_at db ?c = {}" by (simp add: keys_at_def)
    then have "db1 = db\<lparr>next_tag := Suc (next_tag db)\<rparr>" using n(5) [OF False] by (simp add: change_id)
    then show ?thesis using r False inv_tag [OF inv] by (simp add: new_at_refl)
  qed
qed

lemma already_set_iff:
  "user_already_set db parent k \<longleftrightarrow> map_of (index_users db) k = None \<or> ov_json_object_get parent (Some k) \<noteq> None"
  "role_already_set db parent k \<longleftrightarrow> k = ''admin'' \<or> map_of (index_roles db) k = None \<or> ov_json_object_get parent (Some k) \<noteq> None"
  "loop_already_set db parent k \<longleftrightarrow> map_of (index_loops db) k = None \<or> ov_json_object_get parent (Some k) \<noteq> None"
  unfolding user_already_set_def role_already_set_def loop_already_set_def by argo+

lemma keys_at_get: "j \<in> keys_at db c \<longleftrightarrow> ov_json_object_get (dom_get db c) (Some j) \<noteq> None"
  unfolding keys_at_def mem_Collect_eq dnode_under ..

lemma update_roles_inv:
  assumes inv: "vocs_db_inv db" and p: "entity_at K p i" "K = OV_VOCS_DB_DOMAIN \<or> K = OV_VOCS_DB_PROJECT" and x: "tree_ok x"
  shows "vocs_db_inv (fst (update_roles p x db)) \<and> new_at (p @ [''roles'']) x db (fst (update_roles p x db))"
proof -
  have c: "leaf_container OV_VOCS_DB_ROLE (p @ [''roles''])" using leaf_containerI [OF p, of OV_VOCS_DB_ROLE] by simp
  obtain db1 r where g: "get_create_parent p ''roles'' db = (db1, r)" by fastforce
  have inv1: "vocs_db_inv db1" using get_create_parent_inv(1) [OF inv _ g] c by (simp add: leaf_container_def)
  have make: "new_at q x db db'" if "new_at q x db1 db'" for q db'
    using new_at_create [OF g _ _ that] c inv by (simp add: leaf_container_def vocs_db_inv_def)
  show ?thesis
  proof (cases "ov_json_is_object (Some x) \<and> all_members (role_already_set db1 (dom_get db1 (p @ [''roles'']))) x")
    case True
    then obtain a es where es: "x = JObject a es" "\<forall>k \<in> fst ` set es. role_already_set db1 (dom_get db1 (p @ [''roles''])) k" by (auto simp: all_members_iff)
    have "admin_role OV_VOCS_DB_ROLE j \<or> idx db1 OV_VOCS_DB_ROLE j = None \<or> j \<in> keys_at db1 (p @ [''roles''])" if "j \<in> fst ` set es" for j
      using bspec [OF es(2) that] unfolding already_set_iff keys_at_get idx_simps admin_role_def by argo
    then have "\<forall>j \<in> fst ` set es. admin_role OV_VOCS_DB_ROLE j \<or> idx db1 OV_VOCS_DB_ROLE j = None \<or> j \<in> keys_at db1 (p @ [''roles''])" ..
    from replace_members_inv [OF inv1 c _ _ x this es(1)] make True g show ?thesis
      by (simp add: update_roles_def unindex_eqs reindex_eqs fun_eq_iff)
  next
    case False
    then show ?thesis using g inv inv1 make [OF new_at_refl(1)] by (auto simp: update_roles_def new_at_refl)
  qed
qed

lemma update_loops_inv:
  assumes inv: "vocs_db_inv db" and p: "entity_at K p i" "K = OV_VOCS_DB_DOMAIN \<or> K = OV_VOCS_DB_PROJECT" and x: "tree_ok x"
  shows "vocs_db_inv (fst (update_loops p x db)) \<and> new_at (p @ [''loops'']) x db (fst (update_loops p x db))"
proof -
  have c: "leaf_container OV_VOCS_DB_LOOP (p @ [''loops''])" using leaf_containerI [OF p, of OV_VOCS_DB_LOOP] by simp
  obtain db1 r where g: "get_create_parent p ''loops'' db = (db1, r)" by fastforce
  have inv1: "vocs_db_inv db1" using get_create_parent_inv(1) [OF inv _ g] c by (simp add: leaf_container_def)
  have make: "new_at q x db db'" if "new_at q x db1 db'" for q db'
    using new_at_create [OF g _ _ that] c inv by (simp add: leaf_container_def vocs_db_inv_def)
  show ?thesis
  proof (cases "ov_json_is_object (Some x) \<and> all_members (loop_already_set db1 (dom_get db1 (p @ [''loops'']))) x")
    case True
    then obtain a es where es: "x = JObject a es" "\<forall>k \<in> fst ` set es. loop_already_set db1 (dom_get db1 (p @ [''loops''])) k" by (auto simp: all_members_iff)
    have "admin_role OV_VOCS_DB_LOOP j \<or> idx db1 OV_VOCS_DB_LOOP j = None \<or> j \<in> keys_at db1 (p @ [''loops''])" if "j \<in> fst ` set es" for j
      using bspec [OF es(2) that] unfolding already_set_iff keys_at_get idx_simps by argo
    then have "\<forall>j \<in> fst ` set es. admin_role OV_VOCS_DB_LOOP j \<or> idx db1 OV_VOCS_DB_LOOP j = None \<or> j \<in> keys_at db1 (p @ [''loops''])" ..
    from replace_members_inv [OF inv1 c _ _ x this es(1)] make [OF new_at_refl(1)] make True g inv1 show ?thesis
      by (simp add: update_loops_def unindex_eqs reindex_eqs fun_eq_iff)
  next
    case False
    then show ?thesis using g inv inv1 make [OF new_at_refl(1)] by (auto simp: update_loops_def new_at_refl)
  qed
qed

subsection \<open>Update of users\<close>

text \<open>Changes inside of a container: the indexes and the tree outside stay as they are.\<close>

definition inside_only :: "path \<Rightarrow> ov_vocs_db \<Rightarrow> ov_vocs_db \<Rightarrow> bool" where
  "inside_only c db db' \<longleftrightarrow> get_index_dict db' = get_index_dict db \<and> domains_ok db' \<and> (\<forall>q. \<not> prefix c q \<longrightarrow> dnode db' q = dnode db q) \<and>
    (\<exists>t. dnode db' c = Some (t, True))"

lemma inside_only_trans: "inside_only c db db1 \<Longrightarrow> inside_only c db1 db2 \<Longrightarrow> inside_only c db db2"
  by (auto simp: inside_only_def)

lemma inside_del:
  assumes c: "leaf_container K c" and dom: "domains_ok db" and obj: "dnode db c = Some (t, True)"
  shows "\<exists>db'. dom_del c k db = (db', True) \<and> inside_only c db db' \<and> (\<forall>q. dnode db' q \<noteq> None \<longrightarrow> dnode db q \<noteq> None)"
proof -
  obtain db' ok where del: "dom_del c k db = (db', ok)" by fastforce
  note n = dom_del_dnode [OF dom del]
  have ok: ok using n(4) obj by simp
  have d: "dnode db' q = (if prefix (c @ [k]) q then None else dnode db q)" for q by (rule n(6) [OF ok])
  have "domains_ok db'" using dom n(7) [OF ok] d by (auto simp: domains_ok_def split: if_splits)
  moreover have "dnode db' c = Some (t, True)" using d obj by (simp add: prefix_def)
  moreover have "dnode db' q = dnode db q" if "\<not> prefix c q" for q using d [of q] that by (auto simp: prefix_def)
  ultimately have "inside_only c db db'" using n(1) by (auto simp: inside_only_def)
  with del ok d show ?thesis by auto
qed

lemma inside_set:
  assumes c: "leaf_container K c" and dom: "domains_ok db" and obj: "dnode db c = Some (t, True)" and x: "tree_ok x"
  shows "\<exists>db'. dom_set c k x db = (db', True) \<and> inside_only c db db' \<and> (\<forall>j. dnode db' (c @ [j]) \<noteq> None \<longrightarrow> dnode db (c @ [j]) \<noteq> None \<or> j = k)"
proof -
  obtain db' ok where set: "dom_set c k x db = (db', ok)" by fastforce
  note n = dom_set_dnode [OF dom set x]
  have ok: ok using n(4) obj by simp
  have d: "dnode db' q = (if prefix (c @ [k]) q then node x (drop (Suc (length c)) q) else dnode db q)" for q by (rule n(6) [OF ok])
  have "b" if "container q" "dnode db' q = Some (u, b)" for q u b
    using that container_inside [OF c, of k q] d [of q] dom by (auto simp: domains_ok_def split: if_splits)
  then have "domains_ok db'" using n(7) [OF ok] unfolding domains_ok_def by blast
  moreover have "dnode db' c = Some (t, True)" using d obj by (simp add: prefix_def)
  moreover have "dnode db' q = dnode db q" if "\<not> prefix c q" for q using d [of q] that by (auto simp: prefix_def)
  ultimately have "inside_only c db db'" using n(1) by (auto simp: inside_only_def)
  moreover have "dnode db (c @ [j]) \<noteq> None \<or> j = k" if "dnode db' (c @ [j]) \<noteq> None" for j using d [of "c @ [j]"] that by (auto split: if_splits)
  moreover have "dom_set c k x db = (db', True)" using set ok by simp
  ultimately show ?thesis by blast
qed

lemma drop_users_inside:
  assumes c: "leaf_container K c" and "domains_ok db" "dnode db c = Some (t, True)"
  shows "\<exists>db'. drop_users c us db = (db', True) \<and> inside_only c db db' \<and> (\<forall>j. dnode db' (c @ [j]) \<noteq> None \<longrightarrow> dnode db (c @ [j]) \<noteq> None)"
  using assms(2,3)
proof (induction us arbitrary: db t)
  case Nil
  then show ?case by (auto simp: inside_only_def)
next
  case (Cons u us)
  from inside_del [OF c Cons.prems, of u] obtain db1 where
    db1: "dom_del c u db = (db1, True)" "inside_only c db db1" "\<forall>q. dnode db1 q \<noteq> None \<longrightarrow> dnode db q \<noteq> None" by blast
  then obtain t1 where "domains_ok db1" "dnode db1 c = Some (t1, True)" by (auto simp: inside_only_def)
  from Cons.IH [OF this] obtain db2 where
    db2: "drop_users c us db1 = (db2, True)" "inside_only c db1 db2" "\<forall>j. dnode db2 (c @ [j]) \<noteq> None \<longrightarrow> dnode db1 (c @ [j]) \<noteq> None" by blast
  have "drop_users c (u # us) db = (db2, True)" using db1(1) db2(1) by simp
  with db1 db2 inside_only_trans [OF db1(2) db2(2)] show ?case by blast
qed

lemma add_users_inside:
  assumes c: "leaf_container K c" and "domains_ok db" "dnode db c = Some (t, True)" "\<forall>e \<in> set es. tree_ok (snd e)"
  shows "\<exists>db'. members_for_each (add_new_user c) es db = (db', True) \<and> inside_only c db db' \<and>
    (\<forall>j. dnode db' (c @ [j]) \<noteq> None \<longrightarrow> dnode db (c @ [j]) \<noteq> None \<or> j \<in> fst ` set es)"
  using assms(2-)
proof (induction es arbitrary: db t)
  case Nil
  then show ?case by (auto simp: inside_only_def)
next
  case (Cons e es)
  have "\<exists>db1. add_new_user c (fst e) (snd e) db = (db1, True) \<and> inside_only c db db1 \<and> (\<forall>j. dnode db1 (c @ [j]) \<noteq> None \<longrightarrow> dnode db (c @ [j]) \<noteq> None \<or> j = fst e)"
  proof (cases "ov_json_object_get (dom_get db c) (Some (fst e))")
    case None
    let ?db = "db\<lparr>next_tag := Suc (next_tag db)\<rparr>"
    have dom: "domains_ok ?db" using Cons.prems(1) by (auto simp: domains_ok_def)
    have obj: "dnode ?db c = Some (t, True)" using Cons.prems(2) by simp
    have x: "tree_ok (ov_json_value_copy (next_tag db) (snd e))" using Cons.prems(3) by (simp add: tree_ok_copy)
    from inside_set [OF c dom obj x, of "fst e"] obtain db1 where
      "dom_set c (fst e) (ov_json_value_copy (next_tag db) (snd e)) ?db = (db1, True)" "inside_only c ?db db1"
      "\<forall>j. dnode db1 (c @ [j]) \<noteq> None \<longrightarrow> dnode ?db (c @ [j]) \<noteq> None \<or> j = fst e" by blast
    moreover have "inside_only c db ?db" using dom obj by (auto simp: inside_only_def fun_eq_iff)
    ultimately show ?thesis using None inside_only_trans by (auto simp: add_new_user_def)
  next
    case (Some v)
    then show ?thesis using Cons.prems by (auto simp: add_new_user_def inside_only_def)
  qed
  then obtain db1 where db1: "add_new_user c (fst e) (snd e) db = (db1, True)" "inside_only c db db1"
    "\<forall>j. dnode db1 (c @ [j]) \<noteq> None \<longrightarrow> dnode db (c @ [j]) \<noteq> None \<or> j = fst e" by blast
  then obtain t1 where "domains_ok db1" "dnode db1 c = Some (t1, True)" by (auto simp: inside_only_def)
  from Cons.IH [OF this] Cons.prems(3) obtain db2 where
    db2: "members_for_each (add_new_user c) es db1 = (db2, True)" "inside_only c db1 db2"
      "\<forall>j. dnode db2 (c @ [j]) \<noteq> None \<longrightarrow> dnode db1 (c @ [j]) \<noteq> None \<or> j \<in> fst ` set es" by auto
  have "members_for_each (add_new_user c) (e # es) db = (db2, True)" using db1(1) db2(1) by simp
  moreover have "dnode db (c @ [j]) \<noteq> None \<or> j \<in> fst ` set (e # es)" if "dnode db2 (c @ [j]) \<noteq> None" for j
    using that db1(3) db2(3) by (metis insert_iff list.simps(15) image_insert)
  ultimately show ?case using inside_only_trans [OF db1(2) db2(2)] by blast
qed

lemma add_to_drop: "members_for_each (add_user_to_drop users) es xs = (xs @ filter (\<lambda>k. ov_json_object_get (Some users) (Some k) = None) (map fst es), True)"
  by (induction es arbitrary: xs) (auto simp: add_user_to_drop_def)

lemma update_users_inv:
  assumes inv: "vocs_db_inv db" and p: "entity_at K p i" "K = OV_VOCS_DB_DOMAIN \<or> K = OV_VOCS_DB_PROJECT" and x: "tree_ok x"
    and up: "update_users p x db = Some (db', ok)"
  shows "vocs_db_inv db' \<and> new_at (p @ [''users'']) x db db'"
proof -
  let ?c = "p @ [''users'']"
  have c: "leaf_container OV_VOCS_DB_USER ?c" using leaf_containerI [OF p, of OV_VOCS_DB_USER] by simp
  then have con: "container ?c" by (simp add: leaf_container_def)
  obtain db1 r where g: "get_create_parent p ''users'' db = (db1, r)" by fastforce
  note g1 = get_create_parent_inv [OF inv con g]
  have make: "new_at ?c x db db'" if "new_at ?c x db1 db'" for db'
    using new_at_create [OF g con _ that] inv by (simp add: vocs_db_inv_def)
  show ?thesis
  proof (cases "ov_json_is_object (Some x) \<and> r = Some ?c \<and> all_members (user_already_set db1 (dom_get db1 ?c)) x")
    case True
    then obtain a es where es: "x = JObject a es" "\<forall>k \<in> fst ` set es. user_already_set db1 (dom_get db1 ?c) k" by (auto simp: all_members_iff)
    have dom1: "domains_ok db1" using g1(1) by (simp add: vocs_db_inv_def)
    obtain t1 where t1: "dnode db1 ?c = Some (t1, True)" using g1(3) True by blast
    then obtain fs where fs: "dom_get db1 ?c = Some (JObject t1 fs)" by (auto simp: dnode_def node_def dom_get_def bind_eq_Some_conv elim: ov_json_is_object.elims)
    let ?db2 = "change_index OV_VOCS_DB_USER (drop_keys (keys_at db1 ?c)) db1"
    let ?list = "filter (\<lambda>k. ov_json_object_get (Some x) (Some k) = None) (map fst fs)"
    have dom2: "domains_ok ?db2" "dnode ?db2 ?c = Some (t1, True)" using dom1 t1 by (auto simp: domains_ok_def)
    from drop_users_inside [OF c dom2, of ?list] obtain db3 where
      db3: "drop_users ?c ?list ?db2 = (db3, True)" "inside_only ?c ?db2 db3" "\<forall>j. dnode db3 (?c @ [j]) \<noteq> None \<longrightarrow> dnode ?db2 (?c @ [j]) \<noteq> None" by blast
    then obtain t3 where dom3: "domains_ok db3" "dnode db3 ?c = Some (t3, True)" by (auto simp: inside_only_def)
    have "distinct (map fst es)" using x es(1) by (simp add: tree_ok_object in_slots_def)
    then have vals_ok: "\<forall>e \<in> set es. tree_ok (snd e)" using x es(1) by (auto simp: tree_ok_object intro: map_of_is_SomeI)
    from add_users_inside [OF c dom3 vals_ok] obtain db4 where
      db4: "members_for_each (add_new_user ?c) es db3 = (db4, True)" "inside_only ?c db3 db4"
        "\<forall>j. dnode db4 (?c @ [j]) \<noteq> None \<longrightarrow> dnode db3 (?c @ [j]) \<noteq> None \<or> j \<in> fst ` set es" by blast
    from inside_only_trans [OF db3(2) db4(2)] obtain t4 where
      all: "get_index_dict db4 = get_index_dict ?db2" "domains_ok db4" "\<And>q. \<not> prefix ?c q \<Longrightarrow> dnode db4 q = dnode db1 q" "dnode db4 ?c = Some (t4, True)"
      by (auto simp: inside_only_def)
    then obtain gs where gs: "dom_get db4 ?c = Some (JObject t4 gs)" by (auto simp: dnode_def node_def dom_get_def bind_eq_Some_conv elim: ov_json_is_object.elims)
    have new: "\<forall>j \<in> fst ` set gs. admin_role OV_VOCS_DB_USER j \<or> idx db1 OV_VOCS_DB_USER j = None \<or> j \<in> keys_at db1 ?c"
    proof
      fix j assume "j \<in> fst ` set gs"
      then have "j \<in> keys_at db4 ?c" unfolding keys_at_members [OF gs] .
      then have "dnode db4 (?c @ [j]) \<noteq> None" by (simp add: keys_at_def)
      then have "dnode ?db2 (?c @ [j]) \<noteq> None \<or> j \<in> fst ` set es" using db3(3) db4(3) by blast
      then have "j \<in> keys_at db1 ?c \<or> j \<in> fst ` set es" by (simp add: keys_at_def)
      moreover have "idx db1 OV_VOCS_DB_USER j = None \<or> j \<in> keys_at db1 ?c" if "j \<in> fst ` set es"
        using bspec [OF es(2) that] unfolding already_set_iff keys_at_get idx_simps .
      ultimately show "admin_role OV_VOCS_DB_USER j \<or> idx db1 OV_VOCS_DB_USER j = None \<or> j \<in> keys_at db1 ?c" by argo
    qed
    from container_rebuilt [OF g1(1) c all(2,3) gs all(1) new] obtain db5 where
      db5: "ov_json_object_for_each (dom_get db4 ?c) db4 (reindex_users ?c) = (db5, True)" "vocs_db_inv db5" "data_domains db5 = data_domains db4" unfolding reindex_eqs by blast
    have n5: "dnode db5 = dnode db4" using db5(3) by (simp add: dnode_def fun_eq_iff)
    have "new_at ?c x db1 db5" unfolding new_at_def n5
    proof (intro allI impI)
      fix K' q j assume a: "entity_at K' q j" "dnode db4 q \<noteq> None"
      show "dnode db1 q \<noteq> None \<or> (\<exists>r. q = ?c @ r \<and> lookup x r \<noteq> None)"
      proof (cases "prefix ?c q")
        case True
        then have q: "q = ?c @ [j]" using under_container [OF c _ a(1)] by blast
        then have "dnode ?db2 q \<noteq> None \<or> j \<in> fst ` set es" using a(2) db3(3) db4(3) by blast
        moreover have "lookup x [j] \<noteq> None" if "j \<in> fst ` set es" using that es(1) by (cases "map_of es j") (auto simp: map_of_eq_None_iff)
        ultimately show ?thesis using q by auto
      next
        case False
        with all(3) a(2) show ?thesis by simp
      qed
    qed
    from make [OF this] have new5: "new_at ?c x db db5" .
    have un: "ov_json_object_for_each (dom_get db1 ?c) db1 (\<lambda>key val. unindex_users key) = (?db2, True)"
      by (simp add: fs unindex_eqs unindex_members keys_at_members [OF fs])
    have fs2: "dom_get ?db2 ?c = Some (JObject t1 fs)" using fs by (simp add: dom_get_def)
    have "update_users p x db = Some (db5, True)"
      using True g un db3(1) db4(1) db5(1) fs2 es(1) by (simp add: update_users_def add_to_drop)
    then show ?thesis using up db5(2) new5 by simp
  next
    case False
    have "r = None \<or> r = Some ?c" using g1(3) by (cases r) auto
    with False have "\<not> ov_json_is_object (Some x) \<or> r = None \<or> r = Some ?c \<and> \<not> all_members (user_already_set db1 (dom_get db1 ?c)) x" by argo
    then have "db' = db \<or> db' = db1"
      using up g by (elim disjE conjE) (simp_all add: update_users_def split: if_splits)
    then show ?thesis using inv g1(1) make [OF new_at_refl(1)] new_at_refl(1) by blast
  qed
qed

lemma update_users_some:
  assumes inv: "vocs_db_inv db" and p: "dnode db p = Some (t, True)"
  shows "update_users p x db \<noteq> None"
proof -
  obtain db1 r where g: "get_create_parent p ''users'' db = (db1, r)" by fastforce
  have dom: "domains_ok (db\<lparr>next_tag := Suc (next_tag db)\<rparr>)" using inv_tag [OF inv] by (simp add: vocs_db_inv_def)
  have "r \<noteq> None" using g dom_set_dnode(4) [OF dom _ tree_ok_empty, of p "''users''"] p
    by (auto simp: get_create_parent_def split: if_splits prod.splits)
  then show ?thesis using g by (auto simp: update_users_def split: option.splits prod.splits)
qed

subsection \<open>Members that are no containers\<close>

definition free_member :: "ov_vocs_db_entity \<Rightarrow> string \<Rightarrow> bool" where
  "free_member K k \<longleftrightarrow> K \<in> leaf_kinds \<or> k \<notin> {''users'', ''roles'', ''loops'', ''projects''} \<or> K = OV_VOCS_DB_PROJECT \<and> k = ''projects''"

lemma free_inside:
  assumes "entity_at K p i" "free_member K k" "prefix (p @ [k]) q"
  shows "\<not> entity_at K' q j" "\<not> container q"
proof -
  from assms(2) consider "K \<in> leaf_kinds" | "k \<notin> {''users'', ''roles'', ''loops'', ''projects''}" | "K = OV_VOCS_DB_PROJECT" "k = ''projects''"
    by (auto simp: free_member_def)
  then have "\<not> entity_at K' q j \<and> \<not> container q"
  proof cases
    case 1
    have "prefix p q" "q \<noteq> p" using assms(3) by (auto simp: prefix_def)
    with leaf_inside [OF assms(1) 1] show ?thesis by blast
  next
    case 2
    with entity_inside [OF assms(1) _ assms(3)] show ?thesis by blast
  next
    case 3
    with assms(1,3) show ?thesis by (cases K') (auto simp: prefix_def container_def)
  qed
  then show "\<not> entity_at K' q j" "\<not> container q" by auto
qed

lemma set_copy_inv_free:
  assumes inv: "vocs_db_inv db" and p: "entity_at K p i" "free_member K k" and x: "tree_ok x"
  shows "vocs_db_inv (fst (set_copy p k x db))"
proof -
  obtain db' ok where set: "dom_set p k (ov_json_value_copy (next_tag db) x) (db\<lparr>next_tag := Suc (next_tag db)\<rparr>) = (db', ok)" by fastforce
  have "vocs_db_inv db'" by (rule inv_set_inside [OF inv_tag [OF inv] set]) (use x free_inside [OF p] in \<open>auto simp: tree_ok_copy\<close>)
  with set show ?thesis by (simp add: set_copy_def)
qed

lemma del_inv_free:
  assumes inv: "vocs_db_inv db" and p: "entity_at K p i" "free_member K k" and del: "dom_del p k db = (db', ok)"
  shows "vocs_db_inv db'"
  by (rule inv_delete_none [OF inv del]) (use free_inside [OF p] in blast)

subsection \<open>Deletion of containers\<close>

lemma without_leaf:
  assumes inv: "vocs_db_inv db" and c: "leaf_container K c"
  shows "without {c} (idx db) (idx (change_index K (drop_keys (keys_at db c)) db))"
proof (rule without_cases)
  have con: "consistent db" using inv by (simp add: vocs_db_inv_def)
  have ent: "entity_at K (c @ [j]) j" for j using c by (simp add: leaf_container_def)
  fix K' j q assume q: "idx db K' j = Some q"
  have e: "entity_at K' (fst q) j" "dnode db (fst q) \<noteq> None" using soundD [OF con q] by auto
  have "K' = K \<and> j \<in> keys_at db c" if "prefix c (fst q)" using under_container [OF c that e(1)] e(2) by (auto simp: keys_at_def)
  moreover have "prefix c (fst q)" if "K' = K" "j \<in> keys_at db c" "\<not> admin_role K' j"
  proof -
    from that(2) obtain t b where "dnode db (c @ [j]) = Some (t, b)" by (auto simp: keys_at_def)
    from completeD [OF con ent _ this] that q show ?thesis by auto
  qed
  ultimately show "idx (change_index K (drop_keys (keys_at db c)) db) K' j = (if \<exists>s \<in> {c}. prefix s (fst q) then None else Some q) \<or>
    admin_role K' j \<and> idx (change_index K (drop_keys (keys_at db c)) db) K' j = None"
    using q by (auto simp: idx_drop)
next
  fix K' j assume "idx db K' j = None"
  then show "idx (change_index K (drop_keys (keys_at db c)) db) K' j = None" by (simp add: idx_drop)
qed

lemma delete_container_inv:
  assumes inv: "vocs_db_inv db" and u: "data_domains db1 = data_domains db" "indexes_ok db1" "without {p @ [k]} (idx db) (idx db1)"
    and del: "dom_del p k db1 = (db2, ok)"
  shows "vocs_db_inv db2"
proof (cases "\<exists>t. dnode db p = Some (t, True)")
  case True
  then show ?thesis using inv_delete(2) [OF inv u del] by blast
next
  case False
  have c: "consistent db" "domains_ok db" using inv by (auto simp: vocs_db_inv_def)
  have n1: "dnode db1 = dnode db" using u(1) by (auto simp: dnode_def)
  have dom1: "domains_ok db1" using c(2) unfolding domains_ok_def u(1) n1 .
  have "db2 = db1" using dom_del_dnode(4,5) [OF dom1 del] False n1 by auto
  moreover have "sound_index db1" unfolding sound_index_def n1
  proof (intro allI impI)
    fix K j q t assume "idx db1 K j = Some (q, t)"
    with withoutD(1) [OF u(3)] have "idx db K j = Some (q, t)" by blast
    from soundD [OF c(1) this] show "entity_at K q j \<and> (\<exists>b. dnode db q = Some (t, b))" by simp
  qed
  moreover have "complete_index db1" unfolding complete_index_def n1
  proof (intro allI impI)
    fix K j q t b assume a: "entity_at K q j" "\<not> admin_role K j" "dnode db q = Some (t, b)"
    have "dnode db (p @ [k]) = None" by (rule ccontr) (use False dnode_parent [of db p k] in auto)
    then have "\<not> prefix (p @ [k]) q" using dnode_prefix [of "p @ [k]" q db] a(3) by auto
    with completeD [OF c(1) a] withoutD(2) [OF u(3) a(2)] show "idx db1 K j = Some (q, t)" by (simp add: minus_paths_def)
  qed
  ultimately show ?thesis using u(2) dom1 by (simp add: vocs_db_inv_def consistent_def)
qed

lemma for_each_unindex_get:
  assumes "domains_ok db" "container c"
  shows "ov_json_object_for_each (dom_get db c) s (\<lambda>k v. unindex_key K k) = (change_index K (drop_keys (keys_at db c)) s, dom_get db c \<noteq> None)"
    "ov_json_object_for_each (dom_get db c) (Some s) (\<lambda>k v. on_some (unindex_key K k)) = (Some (change_index K (drop_keys (keys_at db c)) s), dom_get db c \<noteq> None)"
proof -
  have m: "members_for_each (\<lambda>k v. on_some (unindex_key K k)) es (Some s) = (Some (fst (members_for_each (\<lambda>k v. unindex_key K k) es s)), True)"
    for es :: "(string \<times> nat json) list" and s
    by (induction es arbitrary: s) (auto simp: on_some_def unindex_key_def)
  have "ov_json_object_for_each (dom_get db c) s (\<lambda>k v. unindex_key K k) = (change_index K (drop_keys (keys_at db c)) s, dom_get db c \<noteq> None) \<and>
    ov_json_object_for_each (dom_get db c) (Some s) (\<lambda>k v. on_some (unindex_key K k)) = (Some (change_index K (drop_keys (keys_at db c)) s), dom_get db c \<noteq> None)"
    using assms
  proof (cases rule: container_cases)
    case 1
    then show ?thesis by (simp add: keys_at_none change_id)
  next
    case (2 a es)
    then show ?thesis by (simp add: unindex_members keys_at_members m)
  qed
  then show "ov_json_object_for_each (dom_get db c) s (\<lambda>k v. unindex_key K k) = (change_index K (drop_keys (keys_at db c)) s, dom_get db c \<noteq> None)"
    "ov_json_object_for_each (dom_get db c) (Some s) (\<lambda>k v. on_some (unindex_key K k)) = (Some (change_index K (drop_keys (keys_at db c)) s), dom_get db c \<noteq> None)" by auto
qed

lemma unindex_all_projects:
  assumes inv: "vocs_db_inv db"
  shows "\<exists>db1. ov_json_object_for_each (dom_get db [d, ''projects'']) (Some db) (\<lambda>k v. unindex_projects k) = (Some db1, dom_get db [d, ''projects''] \<noteq> None) \<and>
    unindexed db {[d, ''projects'']} db1"
proof -
  have con: "consistent db" "domains_ok db" using inv by (auto simp: vocs_db_inv_def)
  have c: "container [d, ''projects'']" by (simp add: container_def)
  have below: "\<exists>x \<in> keys_at db [d, ''projects'']. prefix [d, ''projects'', x] (fst q)" if "idx db K j = Some q" "prefix [d, ''projects''] (fst q)" for K j q
  proof -
    have q: "entity_at K (fst q) j" "dnode db (fst q) \<noteq> None" using soundD [OF con(1) that(1)] by auto
    from that(2) obtain z where z: "fst q = [d, ''projects''] @ z" by (auto elim: prefixE)
    with q(1) container_entity [OF c] obtain x r where "fst q = [d, ''projects'', x] @ r" by (cases z) auto
    then have "prefix [d, ''projects'', x] (fst q)" by (simp add: prefix_def)
    with dnode_prefix [OF this, of db] q(2) show ?thesis by (cases "dnode db [d, ''projects'', x]") (auto simp: keys_at_def)
  qed
  have weaken: "unindexed db {[d, ''projects'']} db1" if u: "unindexed db ((\<lambda>x. [d, ''projects'', x]) ` keys_at db [d, ''projects'']) db1" for db1
  proof -
    have wo: "without ((\<lambda>x. [d, ''projects'', x]) ` keys_at db [d, ''projects'']) (idx db) (idx db1)" using u by (simp add: unindexed_def)
    have "without {[d, ''projects'']} (idx db) (idx db1)"
    proof (rule without_cases)
      fix K j q assume q: "idx db K j = Some q"
      have "(\<exists>s \<in> (\<lambda>x. [d, ''projects'', x]) ` keys_at db [d, ''projects'']. prefix s (fst q)) \<longleftrightarrow> (\<exists>s \<in> {[d, ''projects'']}. prefix s (fst q))"
        using below [OF q] by (auto simp: prefix_def)
      with without_Some [OF wo q] show "idx db1 K j = (if \<exists>s \<in> {[d, ''projects'']}. prefix s (fst q) then None else Some q) \<or> admin_role K j \<and> idx db1 K j = None"
        by simp
    next
      fix K j assume "idx db K j = None"
      then show "idx db1 K j = None" using withoutD(1) [OF wo, of K j] by (cases "idx db1 K j") auto
    qed
    then show ?thesis using u by (simp add: unindexed_def)
  qed
  from con(2) c show ?thesis
  proof (cases rule: container_cases)
    case 1
    then show ?thesis using weaken [of db] unindexed_start [OF inv] by (simp add: keys_at_none)
  next
    case (2 a es)
    obtain w where w: "data_domains db = Some w" "lookup w [d, ''projects''] = Some (JObject a es)" using 2 by (auto simp: dom_get_def bind_eq_Some_conv)
    then have "tree_ok w" using con(2) by (auto simp: domains_ok_def)
    with w(2) have "distinct (map fst es)" unfolding tree_ok_def in_slots_def by blast
    moreover have "\<forall>x \<in> fst ` set es. dnode db [d, ''projects'', x] \<noteq> None" unfolding keys_at_members [OF 2, symmetric] by (simp add: keys_at_def)
    ultimately obtain db1 where "members_for_each (\<lambda>k v. unindex_projects k) es (Some db) = (Some db1, True)"
      "unindexed db ((\<lambda>x. [d, ''projects'', x]) ` fst ` set es) db1"
      using unindex_projects_step [OF inv unindexed_start [OF inv], of d es] by auto
    then show ?thesis using weaken [of db1] 2 by (simp add: keys_at_members)
  qed
qed

subsection \<open>The operations\<close>

lemma delete_leaf_key_inv:
  assumes inv: "vocs_db_inv db" and c: "leaf_container K (p @ [k])"
    and del: "dom_del p k (change_index K (drop_keys (keys_at db (p @ [k]))) db) = (db2, ok)"
  shows "vocs_db_inv db2"
  using delete_container_inv [OF inv _ _ without_leaf [OF inv c] del] indexes_drop inv by (simp add: vocs_db_inv_def)

lemma delete_project_key_inv:
  assumes inv: "vocs_db_inv db" and p: "entity_at OV_VOCS_DB_PROJECT p i"
  shows "vocs_db_inv (fst (delete_project_key p k db))"
proof -
  have dom: "domains_ok db" using inv by (simp add: vocs_db_inv_def)
  note leaf = leaf_containerI [OF p]
  consider (users) "k = ''users''" | (roles) "k = ''roles''" | (loops) "k = ''loops''" | (other) "k \<notin> {''users'', ''roles'', ''loops''}" by blast
  then show ?thesis
  proof cases
    case users
    then have c: "leaf_container OV_VOCS_DB_USER (p @ [k])" using leaf [of OV_VOCS_DB_USER] by simp
    then have "container (p @ [k])" by (simp add: leaf_container_def)
    with delete_leaf_key_inv [OF inv c] users show ?thesis
      by (simp add: delete_project_key_def unindex_eqs for_each_unindex_get(1) [OF dom] split: prod.split)
  next
    case roles
    then have c: "leaf_container OV_VOCS_DB_ROLE (p @ [k])" using leaf [of OV_VOCS_DB_ROLE] by simp
    then have "container (p @ [k])" by (simp add: leaf_container_def)
    with delete_leaf_key_inv [OF inv c] roles show ?thesis
      by (simp add: delete_project_key_def unindex_eqs for_each_unindex_get(1) [OF dom] split: prod.split)
  next
    case loops
    then have c: "leaf_container OV_VOCS_DB_LOOP (p @ [k])" using leaf [of OV_VOCS_DB_LOOP] by simp
    then have "container (p @ [k])" by (simp add: leaf_container_def)
    with delete_leaf_key_inv [OF inv c] loops show ?thesis
      by (simp add: delete_project_key_def unindex_eqs for_each_unindex_get(1) [OF dom] split: prod.split)
  next
    case other
    then have "free_member OV_VOCS_DB_PROJECT k" by (auto simp: free_member_def)
    with del_inv_free [OF inv p] other show ?thesis by (cases "dom_del p k db") (auto simp: delete_project_key_def Let_def)
  qed
qed

lemma delete_domain_key_inv:
  assumes inv: "vocs_db_inv db" and p: "entity_at OV_VOCS_DB_DOMAIN p i"
  shows "\<exists>db' ok. delete_domain_key p k db = Some (db', ok) \<and> vocs_db_inv db'"
proof -
  have dom: "domains_ok db" using inv by (simp add: vocs_db_inv_def)
  note leaf = leaf_containerI [OF p]
  consider (users) "k = ''users''" | (roles) "k = ''roles''" | (loops) "k = ''loops''" | (projects) "k = ''projects''" | (other) "k \<notin> {''users'', ''roles'', ''loops'', ''projects''}" by blast
  then show ?thesis
  proof cases
    case users
    then have c: "leaf_container OV_VOCS_DB_USER (p @ [k])" using leaf [of OV_VOCS_DB_USER] by simp
    then have "container (p @ [k])" by (simp add: leaf_container_def)
    with delete_leaf_key_inv [OF inv c] users show ?thesis
      by (simp add: delete_domain_key_def unindex_eqs for_each_unindex_get(2) [OF dom] split: prod.split)
  next
    case roles
    then have c: "leaf_container OV_VOCS_DB_ROLE (p @ [k])" using leaf [of OV_VOCS_DB_ROLE] by simp
    then have "container (p @ [k])" by (simp add: leaf_container_def)
    with delete_leaf_key_inv [OF inv c] roles show ?thesis
      by (simp add: delete_domain_key_def unindex_eqs for_each_unindex_get(2) [OF dom] split: prod.split)
  next
    case loops
    then have c: "leaf_container OV_VOCS_DB_LOOP (p @ [k])" using leaf [of OV_VOCS_DB_LOOP] by simp
    then have "container (p @ [k])" by (simp add: leaf_container_def)
    with delete_leaf_key_inv [OF inv c] loops show ?thesis
      by (simp add: delete_domain_key_def unindex_eqs for_each_unindex_get(2) [OF dom] split: prod.split)
  next
    case projects
    have p': "p = [i]" using p by simp
    from unindex_all_projects [OF inv, of i] obtain db1 ok where
      db1: "ov_json_object_for_each (dom_get db [i, ''projects'']) (Some db) (\<lambda>k v. unindex_projects k) = (Some db1, ok)" "unindexed db {[i] @ [''projects'']} db1" by auto
    obtain db2 ok2 where del: "dom_del [i] ''projects'' db1 = (db2, ok2)" by fastforce
    have "vocs_db_inv db2" using delete_container_inv [OF inv _ _ _ del] db1(2) by (simp add: unindexed_def)
    with db1(1) del projects p' show ?thesis by (simp add: delete_domain_key_def)
  next
    case other
    then have "free_member OV_VOCS_DB_DOMAIN k" by (auto simp: free_member_def)
    with del_inv_free [OF inv p] other show ?thesis by (cases "dom_del p k db") (auto simp: delete_domain_key_def Let_def)
  qed
qed

lemma delete_entity_key_inv:
  assumes inv: "vocs_db_inv db"
  shows "\<exists>db' ok. ov_vocs_db_delete_entity_key db lk K i k = Some (db', ok) \<and> vocs_db_inv db'"
proof (cases "k \<noteq> ''id'' \<and> lk \<and> idx db K i \<noteq> None")
  case True
  then obtain p where p: "idx db K i = Some p" by auto
  from with_entity [OF inv p] obtain v where v: "deref db p = Some v" "entity_at K (fst p) i" by blast
  have leaf: "\<exists>db' ok. dom_del (fst p) k db = (db', ok) \<and> vocs_db_inv db'" if "K \<in> leaf_kinds"
    using del_inv_free [OF inv v(2)] that by (cases "dom_del (fst p) k db") (auto simp: free_member_def)
  have start: "ov_vocs_db_delete_entity_key db lk K i k =
    (case K of
       OV_VOCS_DB_DOMAIN \<Rightarrow> delete_domain_key (fst p) k db
     | OV_VOCS_DB_PROJECT \<Rightarrow> Some (delete_project_key (fst p) k db)
     | OV_VOCS_DB_ENTITY_ERROR \<Rightarrow> Some (db, False)
     | _ \<Rightarrow> Some (dom_del (fst p) k db))"
    using True p v(1) by (simp add: ov_vocs_db_delete_entity_key_def idx_def)
  show ?thesis
  proof (cases K)
    case OV_VOCS_DB_DOMAIN
    then show ?thesis using start delete_domain_key_inv [OF inv, of "fst p" i k] v(2) by simp
  next
    case OV_VOCS_DB_PROJECT
    then have "vocs_db_inv (fst (delete_project_key (fst p) k db))" using delete_project_key_inv [OF inv] v(2) by blast
    then show ?thesis using start OV_VOCS_DB_PROJECT by (cases "delete_project_key (fst p) k db") auto
  qed (use start leaf v(2) in auto)
next
  case False
  then have "ov_vocs_db_delete_entity_key db lk K i k = Some (db, False)"
    by (cases "idx db K i") (auto simp: ov_vocs_db_delete_entity_key_def idx_def)
  then show ?thesis using inv by blast
qed

lemma unindex_projects_then:
  assumes inv: "vocs_db_inv db"
  shows "\<exists>db1. unindexed db {[d, ''projects'']} db1 \<and> (\<forall>nx. each_then (dom_get db [d, ''projects'']) (\<lambda>k v. unindex_projects k) nx (Some db) = nx (Some db1))"
proof -
  from unindex_all_projects [OF inv, of d] obtain db1 where
    db1: "ov_json_object_for_each (dom_get db [d, ''projects'']) (Some db) (\<lambda>k v. unindex_projects k) = (Some db1, dom_get db [d, ''projects''] \<noteq> None)"
      "unindexed db {[d, ''projects'']} db1" by blast
  moreover have "db1 = db" if "dom_get db [d, ''projects''] = None" using db1(1) that by simp
  ultimately show ?thesis by (auto simp: each_then_def)
qed

text \<open>
  The new projects of a domain that may be set: their containers are objects, each id in them is used once, and none is used at one of the
  places \<open>taken\<close> outside of the projects of the domain. The code has no test of that.
\<close>

definition projects_ok :: "path set \<Rightarrow> string \<Rightarrow> unit json \<Rightarrow> bool" where
  "projects_ok taken d x \<longleftrightarrow> tree_ok x \<and> (\<forall>p. container ([d, ''projects''] @ p) \<longrightarrow> lookup x p \<noteq> None \<longrightarrow> object_at x p) \<and>
    (\<forall>K i p q. entity_at K ([d, ''projects''] @ p) i \<longrightarrow> \<not> admin_role K i \<longrightarrow> lookup x p \<noteq> None \<longrightarrow> entity_at K q i \<longrightarrow>
      (if prefix [d, ''projects''] q then lookup x (drop 2 q) \<noteq> None else q \<in> taken) \<longrightarrow> q = [d, ''projects''] @ p)"

lemma projects_okD:
  assumes "projects_ok taken d x" "entity_at K ([d, ''projects''] @ p) i" "\<not> admin_role K i" "lookup x p \<noteq> None" "entity_at K q i"
    "if prefix [d, ''projects''] q then lookup x (drop 2 q) \<noteq> None else q \<in> taken"
  shows "q = [d, ''projects''] @ p"
  using assms unfolding projects_ok_def by blast

lemma unindexed_none:
  assumes inv: "vocs_db_inv db" and u: "unindexed db {c} db1" and none: "dnode db c = None"
  shows "vocs_db_inv db1"
proof -
  have c: "consistent db" "domains_ok db" using inv by (auto simp: vocs_db_inv_def)
  have u3: "without {c} (idx db) (idx db1)" "indexes_ok db1" using u by (simp_all add: unindexed_def)
  note n1 = unindexed_tree [OF u]
  have "sound_index db1" unfolding sound_index_def n1(1)
  proof (intro allI impI)
    fix K j q t assume "idx db1 K j = Some (q, t)"
    with withoutD(1) [OF u3(1)] have "idx db K j = Some (q, t)" by blast
    from soundD [OF c(1) this] show "entity_at K q j \<and> (\<exists>b. dnode db q = Some (t, b))" by simp
  qed
  moreover have "complete_index db1" unfolding complete_index_def n1(1)
  proof (intro allI impI)
    fix K j q t b assume a: "entity_at K q j" "\<not> admin_role K j" "dnode db q = Some (t, b)"
    then have "\<not> prefix c q" using dnode_prefix [of c q db] none by auto
    with completeD [OF c(1) a] withoutD(2) [OF u3(1) a(2)] show "idx db1 K j = Some (q, t)" by (simp add: minus_paths_def)
  qed
  ultimately show ?thesis using u3(2) n1(3) [OF c(2)] by (simp add: vocs_db_inv_def consistent_def)
qed

lemma check_sip_old: "check_sip_processing (Some old) (JObject a es)"
proof -
  have "snd (members_for_each (\<lambda>key val s. (s, True)) es ())" for es :: "(string \<times> 'b json) list" by (induction es) auto
  then show ?thesis by (simp add: check_sip_processing_def check_for_sip_update_def)
qed

text \<open>A tree that has nothing but the new projects.\<close>

definition projects_only :: "nat \<Rightarrow> string \<Rightarrow> nat json \<Rightarrow> nat json" where
  "projects_only t d y = JObject t [(d, JObject t [(''projects'', y)])]"

lemma lookup_projects_only: "lookup (projects_only t d y) ([d, ''projects''] @ r) = lookup y r"
  "lookup (projects_only t d y) [] = Some (projects_only t d y)"
  "lookup (projects_only t d y) [d] = Some (JObject t [(''projects'', y)])"
  by (simp_all add: projects_only_def)

lemma projects_only_fresh:
  assumes "projects_ok taken d x"
  shows "fresh_tree t (projects_only t d (ov_json_value_copy t x))"
proof -
  let ?y = "ov_json_value_copy t x" let ?v = "projects_only t d ?y"
  have y: "tree_ok ?y" using assms by (simp add: projects_ok_def tree_ok_copy)
  then have "tree_ok ?v" by (simp add: projects_only_def tree_ok_object in_slots_def)
  moreover have paths: "p = [] \<or> p = [d] \<or> (\<exists>r. p = [d, ''projects''] @ r \<and> lookup x r \<noteq> None)" if "lookup ?v p \<noteq> None" for p
  proof (cases p rule: remdups_adj.cases)
    case (3 a b r)
    with that show ?thesis by (auto simp: projects_only_def lookup_copy split: if_splits)
  qed (use that in \<open>auto simp: projects_only_def split: if_splits\<close>)
  moreover have "tag w = t" if "lookup ?v p = Some w" for p w
  proof -
    from that consider "p = []" | "p = [d]" | r where "p = [d, ''projects''] @ r" using paths [of p] by blast
    then show ?thesis
      by cases (use that in \<open>auto simp only: lookup_projects_only lookup_copy\<close>, auto simp: projects_only_def)
  qed
  moreover have "object_at ?v p" if "container p" "lookup ?v p \<noteq> None" for p
  proof -
    from that(1) have "p \<noteq> []" "p \<noteq> [d]" by (auto simp: container_def)
    with paths [OF that(2)] obtain r where r: "p = [d, ''projects''] @ r" "lookup x r \<noteq> None" by blast
    then have "object_at x r" using that(1) assms unfolding projects_ok_def by blast
    then show ?thesis unfolding r(1) object_at_def lookup_projects_only lookup_copy
      by (cases "lookup x r") (auto simp: object_at_def)
  qed
  moreover have "object_at ?v []" by (simp add: object_at_def projects_only_def)
  ultimately show ?thesis unfolding fresh_tree_def by blast
qed


lemma reindex_new_projects:
  assumes x: "projects_ok taken d x" and y: "ov_json_value_copy t x = JObject t es" and db: "indexes_ok db"
  shows "\<exists>db'. members_for_each (reindex_projects [d, ''projects'']) es db = (db', True) \<and>
    reindexed t (entities (projects_only t d (JObject t es)) [d, ''projects'']) db db'"
proof -
  let ?v = "projects_only t d (JObject t es)" and ?c = "[d, ''projects'']"
  have fresh: "fresh_tree t ?v" using projects_only_fresh [OF x, of t] unfolding y .
  have g: "lookup ?v ?c = Some (JObject t es)" using lookup_projects_only(1) [of t d "JObject t es" "[]"] by simp
  have slots: "in_slots json_slot es" using fresh g unfolding fresh_tree_def tree_ok_def by blast
  have "\<exists>db'. members_for_each (reindex_projects ?c) es db = (db', True) \<and> reindexed t (\<Union>e \<in> set es. entities ?v [d, ''projects'', fst e]) db db'"
  proof (rule reindexed_members [OF _ db])
    fix k w db1 assume k: "(k, w) \<in> set es" "indexes_ok db1"
    then have "lookup ?v (?c @ [k]) = Some w" using slots unfolding lookup_under g by (simp add: in_slots_def)
    then show "\<exists>db'. reindex_projects ?c k w db1 = (db', True) \<and> reindexed t (entities ?v [d, ''projects'', k]) db1 db'"
      using reindex_projects_entities [OF fresh _ k(2)] by simp
  qed
  moreover have "(\<Union>e \<in> set es. entities ?v [d, ''projects'', fst e]) = entities ?v ?c"
  proof (intro set_eqI iffI)
    fix e assume "e \<in> entities ?v ?c"
    then obtain K i q where e: "e = (K, i, q)" "entity_at K q i" "prefix ?c q" "lookup ?v q \<noteq> None" by (auto simp: entities_def)
    from e(3) obtain z where z: "q = ?c @ z" by (auto elim: prefixE)
    have "z \<noteq> []" using container_entity [of ?c K i] e(2) z by (auto simp: container_def)
    then obtain k r where q: "q = (?c @ [k]) @ r" using z by (cases z) auto
    then have "lookup ?v (?c @ [k]) \<noteq> None" using lookup_prefix [of "?c @ [k]" q ?v] e(4) by simp
    then have "k \<in> keys_below ?v ?c" by (simp add: keys_below_def)
    then have "k \<in> fst ` set es" unfolding keys_below_members [OF g] .
    with e q show "e \<in> (\<Union>e \<in> set es. entities ?v [d, ''projects'', fst e])" by (auto simp: entities_def)
  qed (auto simp: entities_def prefix_def)
  ultimately show ?thesis by simp
qed

lemma update_domain_projects_inv:
  assumes inv: "vocs_db_inv db" and x: "projects_ok taken d x" and taken: "\<And>K q i. entity_at K q i \<Longrightarrow> dnode db q \<noteq> None \<Longrightarrow> \<not> prefix [d, ''projects''] q \<Longrightarrow> q \<in> taken"
    and up: "update_domain_projects [d] x db = Some (db', ok)"
  shows "vocs_db_inv db' \<and> (\<forall>q. \<not> prefix [d, ''projects''] q \<longrightarrow> dnode db' q = dnode db q)"
proof (cases "ov_json_is_object (Some x)")
  case False
  then show ?thesis using up inv by (simp add: update_domain_projects_def)
next
  case True
  let ?c = "[d, ''projects'']" and ?t = "next_tag db"
  from True obtain a fs where x': "x = JObject a fs" by (auto elim: ov_json_is_object.elims)
  obtain es where y: "ov_json_value_copy ?t x = JObject ?t es" using x' by simp
  obtain db1 where u: "unindexed db {?c} db1" and then_:
    "\<And>nx. each_then (dom_get db ?c) (\<lambda>k v. unindex_projects k) nx (Some db) = nx (Some db1)" using unindex_projects_then [OF inv] by blast
  let ?db1 = "db1\<lparr>next_tag := Suc ?t\<rparr>"
  have tag1: "next_tag db1 = ?t" using u by (simp add: unindexed_def)
  have dom: "domains_ok db" "consistent db" using inv by (simp_all add: vocs_db_inv_def)
  have dom1: "domains_ok ?db1" using unindexed_tree(3) [OF u dom(1)] by (auto simp: domains_ok_def)
  have n1: "dnode ?db1 = dnode db" using unindexed_tree(1) [OF u] by (simp add: dnode_def fun_eq_iff)
  have inv1: "vocs_db_inv ?db1" if "dnode db ?c = None" by (rule inv_tag [OF unindexed_none [OF inv u that]])
  obtain db2 ok2 where set: "dom_set [d] ''projects'' (JObject ?t es) ?db1 = (db2, ok2)" by fastforce
  have y_ok: "tree_ok (JObject ?t es)" unfolding y [symmetric] using x by (simp add: projects_ok_def tree_ok_copy)
  note n = dom_set_dnode [OF dom1 set y_ok]
  have res: "update_domain_projects [d] x db = (if \<not> check_sip_processing (dom_get db ?c) x then Some (?db1, False)
    else if \<not> ok2 then Some (db2, False) else Some (members_for_each (reindex_projects ?c) es db2))"
    using True set y tag1 by (simp add: update_domain_projects_def Let_def then_)
  have none_iff: "dnode db ?c = None \<longleftrightarrow> dom_get db ?c = None"
    by (cases "data_domains db") (simp_all add: dnode_def dom_get_def node_def del: lookup.simps)
  consider "\<not> check_sip_processing (dom_get db ?c) x" "dnode db ?c = None" | "check_sip_processing (dom_get db ?c) x" "\<not> ok2" | "check_sip_processing (dom_get db ?c) x" ok2
    using none_iff check_sip_old [of _ a fs] x' by (cases "dom_get db ?c"; cases ok2) auto
  then show ?thesis
  proof cases
    case 1
    then show ?thesis using up res inv1 n1 by simp
  next
    case 2
    then have "dnode db ?c = None" using n(4) dnode_parent [of db "[d]" "''projects''"] n1 by fastforce
    then show ?thesis using 2 up res inv1 n(5) n1 by simp
  next
    case 3
    let ?v = "projects_only ?t d (JObject ?t es)"
    have "indexes_ok db2" using u n(1) by (simp add: unindexed_def indexes_ok_def)
    from reindex_new_projects [OF x y this] obtain db3 where
      r: "members_for_each (reindex_projects ?c) es db2 = (db3, True)" "reindexed ?t (entities ?v ?c) db2 db3" by blast
    have db': "db' = db3" using 3 up res r(1) by simp
    have n3: "dnode db3 = dnode db2" using r(2) by (simp add: reindexed_def dnode_def fun_eq_iff)
    have node_in: "dnode db3 (?c @ z) = node (JObject ?t es) z" for z unfolding n3 by (subst n(6)) (use 3 in simp_all)
    have node_out: "dnode db3 q = dnode db q" if "\<not> prefix ?c q" for q unfolding n3 by (subst n(6)) (use 3 that n1 in simp_all)
    have copy: "lookup (JObject ?t es) z = map_option (ov_json_value_copy ?t) (lookup x z)" for z unfolding y [symmetric] by (rule lookup_copy)
    have node_y: "node (JObject ?t es) z = map_option (\<lambda>w. (?t, ov_json_is_object (Some w))) (lookup x z)" for z
      unfolding y [symmetric] node_copy by (cases "lookup x z") (auto simp: node_def)
    have E: "(K, i, ?c @ z) \<in> entities ?v ?c \<longleftrightarrow> entity_at K (?c @ z) i \<and> lookup x z \<noteq> None" for K i z
      unfolding entities_def mem_Collect_eq prod.case lookup_projects_only(1) copy by simp
    have E_in: "\<exists>z. q = ?c @ z" if "(K, i, q) \<in> entities ?v ?c" for K i q using that by (auto simp: entities_def elim: prefixE)
    have "get_index_dict ?db1 = get_index_dict db1" by (simp add: fun_eq_iff)
    then have i2: "idx db2 = idx db1" using idx_cong [of db2 db1] n(1) by simp
    have found: "(\<exists>p. (K, i, p) \<in> entities ?v ?c \<and> idx db3 K i = Some (p, ?t)) \<or> (\<forall>p. (K, i, p) \<notin> entities ?v ?c) \<and> idx db3 K i = idx db1 K i" for K i
      using r(2) unfolding reindexed_def i2 by simp
    have u3: "without {?c} (idx db) (idx db1)" using u by (simp add: unindexed_def)
    have "sound_index db3" unfolding sound_index_def
    proof (intro allI impI)
      fix K i q s assume a: "idx db3 K i = Some (q, s)"
      from found [of K i] show "entity_at K q i \<and> (\<exists>b. dnode db3 q = Some (s, b))"
      proof
        assume "\<exists>p. (K, i, p) \<in> entities ?v ?c \<and> idx db3 K i = Some (p, ?t)"
        with a have e: "(K, i, q) \<in> entities ?v ?c" "s = ?t" by auto
        from E_in [OF e(1)] obtain z where z: "q = ?c @ z" by blast
        with e show ?thesis unfolding z node_in node_y E by auto
      next
        assume "(\<forall>p. (K, i, p) \<notin> entities ?v ?c) \<and> idx db3 K i = idx db1 K i"
        with a withoutD(1) [OF u3, of K i] have "idx db K i = Some (q, s)" "\<not> prefix ?c q" by auto
        with soundD [OF dom(2) this(1)] node_out show ?thesis by auto
      qed
    qed
    moreover have "complete_index db3" unfolding complete_index_def
    proof (intro allI impI)
      fix K i q s b assume a: "entity_at K q i" "\<not> admin_role K i" "dnode db3 q = Some (s, b)"
      show "idx db3 K i = Some (q, s)"
      proof (cases "prefix ?c q")
        case True
        then obtain z where z: "q = ?c @ z" by (auto elim: prefixE)
        with a(3) have l: "lookup x z \<noteq> None" "s = ?t" unfolding z node_in node_y by auto
        then have "(K, i, q) \<in> entities ?v ?c" using a(1) unfolding z E by simp
        with found [of K i] obtain p where p: "(K, i, p) \<in> entities ?v ?c" "idx db3 K i = Some (p, ?t)" by blast
        from E_in [OF p(1)] obtain z' where z': "p = ?c @ z'" by blast
        have e: "entity_at K (?c @ z') i" "lookup x z' \<noteq> None" using p(1) unfolding z' E by auto
        have "q = ?c @ z'" by (rule projects_okD [OF x e(1) a(2) e(2) a(1)]) (use True l(1) z in simp)
        then show ?thesis using p(2) z' l(2) by simp
      next
        case False
        then have d: "dnode db q = Some (s, b)" using a(3) node_out by simp
        have "idx db K i = Some (q, s)" by (rule completeD [OF dom(2) a(1,2) d])
        then have "idx db1 K i = Some (q, s)" using withoutD(2) [OF u3 a(2)] False by (simp add: minus_paths_def)
        moreover have "(K, i, p) \<notin> entities ?v ?c" for p
        proof
          assume p: "(K, i, p) \<in> entities ?v ?c"
          from E_in [OF p] obtain z' where z': "p = ?c @ z'" by blast
          have e: "entity_at K (?c @ z') i" "lookup x z' \<noteq> None" using p unfolding z' E by auto
          have "q \<in> taken" by (rule taken [OF a(1) _ False]) (simp add: d)
          then have "q = ?c @ z'" by (intro projects_okD [OF x e(1) a(2) e(2) a(1)]) (use False in simp)
          with False show False by simp
        qed
        ultimately show ?thesis using found [of K i] by auto
      qed
    qed
    moreover have "indexes_ok db3" using r(2) by (simp add: reindexed_def)
    moreover have "domains_ok db3" unfolding domains_ok_def
    proof (intro conjI allI impI)
      have "data_domains db3 = data_domains db2" using r(2) by (simp add: reindexed_def)
      then show "data_domains db3 = Some v \<Longrightarrow> tree_ok v" "data_domains db3 = Some v \<Longrightarrow> object_at v []" for v using n(7) 3 by auto
      fix q s b assume q: "container q" "dnode db3 q = Some (s, b)"
      show b
      proof (cases "prefix ?c q")
        case True
        then obtain z where z: "q = ?c @ z" by (auto elim: prefixE)
        with q(2) obtain w where w: "lookup x z = Some w" "b = ov_json_is_object (Some w)" unfolding z node_in node_y by auto
        then have "object_at x z" using x q(1) z unfolding projects_ok_def by auto
        then show ?thesis using w by (simp add: object_at_def)
      next
        case False
        with q node_out dom(1) show ?thesis unfolding domains_ok_def by metis
      qed
    qed
    ultimately show ?thesis unfolding db' using node_out by (simp add: vocs_db_inv_def consistent_def)
  qed
qed

subsection \<open>All updates\<close>

lemma update_function_inv:
  assumes inv: "vocs_db_inv db" and p: "entity_at K p i" and x: "tree_ok x" and k: "\<not> (K = OV_VOCS_DB_DOMAIN \<and> k = ''projects'')"
    and up: "update_function K p k x db = Some (db', ok)"
  shows "vocs_db_inv db' \<and> new_at (p @ [k]) x db db'"
proof (cases "(K = OV_VOCS_DB_DOMAIN \<or> K = OV_VOCS_DB_PROJECT) \<and> k \<in> {''users'', ''roles'', ''loops'', ''id''}")
  case True
  then have K: "K = OV_VOCS_DB_DOMAIN \<or> K = OV_VOCS_DB_PROJECT" by simp
  from True up K update_users_inv [OF inv p K x] update_roles_inv [OF inv p K x] update_loops_inv [OF inv p K x] inv new_at_refl(1) show ?thesis
    by (auto simp: update_domain_def update_project_def split: if_splits)
next
  case False
  with k p have free: "free_member K k" by (cases K) (auto simp: free_member_def)
  have "update_function K p k x db = Some (set_copy p k x db)" using False k p
    by (cases K) (auto simp: update_domain_def update_project_def update_entity_def)
  with up have set: "set_copy p k x db = (db', ok)" by simp
  have "domains_ok (db\<lparr>next_tag := Suc (next_tag db)\<rparr>)" using inv_tag [OF inv] by (simp add: vocs_db_inv_def)
  from new_at_set [OF set [unfolded set_copy_def] this x] have "new_at (p @ [k]) x db db'" by (simp add: new_at_def)
  with set_copy_inv_free [OF inv p free x] set show ?thesis by simp
qed

lemma dnode_None: "dnode db p = None \<longleftrightarrow> dom_get db p = None"
  by (cases "data_domains db") (simp_all add: dnode_def dom_get_def node_def del: lookup.simps)

text \<open>What is in use before and what the update of a domain brings with it.\<close>

definition taken_paths :: "ov_vocs_db \<Rightarrow> string \<Rightarrow> unit json \<Rightarrow> path set" where
  "taken_paths db d x = {q. dom_get db q \<noteq> None} \<union> {d # r | r. lookup x r \<noteq> None}"

lemma update_entity_key_inv:
  assumes inv: "vocs_db_inv db" and x: "tree_ok x" and k: "K = OV_VOCS_DB_DOMAIN \<Longrightarrow> k = ''projects'' \<Longrightarrow> projects_ok {q. dom_get db q \<noteq> None} i x"
    and up: "ov_vocs_db_update_entity_key db lk K i k x = Some (db', ok)"
  shows "vocs_db_inv db'"
proof (cases "db' = db")
  case False
  then obtain p v where p: "idx db K i = Some p" "deref db p = Some v" "update_function K (fst p) k x db = Some (db', ok)"
    using up by (auto simp: ov_vocs_db_update_entity_key_def idx_def bind_eq_Some_conv split: if_splits option.splits)
  from with_entity [OF inv p(1)] have ent: "entity_at K (fst p) i" by blast
  show ?thesis
  proof (cases "K = OV_VOCS_DB_DOMAIN \<and> k = ''projects''")
    case True
    then have "projects_ok {q. dom_get db q \<noteq> None} i x" "update_domain_projects [i] x db = Some (db', ok)"
      using k p(3) ent by (auto simp: update_domain_def)
    from update_domain_projects_inv [OF inv this(1) _ this(2)] show ?thesis by (simp add: dnode_None)
  qed (use update_function_inv [OF inv ent x _ p(3)] in blast)
qed (use inv in simp)

lemma update_entity_key_some:
  assumes inv: "vocs_db_inv db" and i: "idx db K i = Some (p, t)" and obj: "ov_json_is_object (dom_get db p)"
  shows "ov_vocs_db_update_entity_key db lk K i k x \<noteq> None"
proof -
  have ent: "entity_at K p i" "deref db (p, t) \<noteq> None" using with_entity [OF inv i] by auto
  from obj obtain s where s: "dnode db p = Some (s, True)" by (auto simp: dom_get_object)
  have "update_domain_projects [i] x db \<noteq> None"
  proof -
    obtain db1 where "\<And>nx. each_then (dom_get db [i, ''projects'']) (\<lambda>k v. unindex_projects k) nx (Some db) = nx (Some db1)"
      using unindex_projects_then [OF inv] by blast
    then show ?thesis by (auto simp: update_domain_projects_def Let_def split: prod.splits)
  qed
  then have "update_function K p k x db \<noteq> None" using update_users_some [OF inv s, of x] ent(1)
    by (cases K) (auto simp: update_domain_def update_project_def update_entity_def)
  then show ?thesis using i ent(2) by (auto simp: ov_vocs_db_update_entity_key_def idx_def)
qed

lemma update_members_inv:
  assumes "vocs_db_inv db" "entity_at K p i" "\<forall>e \<in> set es. tree_ok (snd e)"
    "\<forall>e \<in> set es. K = OV_VOCS_DB_DOMAIN \<longrightarrow> (if fst e = ''projects'' then projects_ok T i (snd e) else \<forall>r. lookup (snd e) r \<noteq> None \<longrightarrow> i # fst e # r \<in> T)"
    "K = OV_VOCS_DB_DOMAIN \<longrightarrow> (\<forall>K' q j. entity_at K' q j \<longrightarrow> dnode db q \<noteq> None \<longrightarrow> \<not> prefix [i, ''projects''] q \<longrightarrow> q \<in> T)"
    "members_for_each (update_key_val (update_function K) p) es (Some db) = (Some db', ok)"
  shows "vocs_db_inv db'"
  using assms
proof (induction es arbitrary: db)
  case (Cons e es)
  show ?case
  proof (cases "update_function K p (fst e) (snd e) db")
    case None
    then show ?thesis using Cons.prems(6) by (simp add: update_key_val_def)
  next
    case (Some r)
    obtain db1 ok1 where r: "r = (db1, ok1)" by (cases r)
    have "vocs_db_inv db1 \<and> (K = OV_VOCS_DB_DOMAIN \<longrightarrow> (\<forall>K' q j. entity_at K' q j \<longrightarrow> dnode db1 q \<noteq> None \<longrightarrow> \<not> prefix [i, ''projects''] q \<longrightarrow> q \<in> T))"
    proof (cases "K = OV_VOCS_DB_DOMAIN \<and> fst e = ''projects''")
      case True
      then have "projects_ok T i (snd e)" "update_domain_projects [i] (snd e) db = Some (db1, ok1)"
        using Cons.prems(2,4) Some r by (auto simp: update_domain_def)
      from update_domain_projects_inv [OF Cons.prems(1) this(1) _ this(2)] Cons.prems(5) True show ?thesis by metis
    next
      case False
      have "tree_ok (snd e)" using Cons.prems(3) by simp
      from update_function_inv [OF Cons.prems(1,2) this False Some [unfolded r]]
      have u: "vocs_db_inv db1" "new_at (p @ [fst e]) (snd e) db db1" by auto
      have "q \<in> T" if d: "K = OV_VOCS_DB_DOMAIN" and q: "entity_at K' q j" "dnode db1 q \<noteq> None" "\<not> prefix [i, ''projects''] q" for K' q j
      proof -
        from u(2) q(1,2) have "dnode db q \<noteq> None \<or> (\<exists>r. q = (p @ [fst e]) @ r \<and> lookup (snd e) r \<noteq> None)" unfolding new_at_def by blast
        then show ?thesis
        proof
          assume "dnode db q \<noteq> None"
          then show ?thesis using Cons.prems(5) d q by blast
        next
          assume "\<exists>r. q = (p @ [fst e]) @ r \<and> lookup (snd e) r \<noteq> None"
          then show ?thesis using Cons.prems(2,4) d False by auto
        qed
      qed
      with u(1) show ?thesis by blast
    qed
    with Cons.IH [of db1] Cons.prems Some r show ?thesis by (auto simp: update_key_val_def split: if_splits)
  qed
qed simp

lemma update_entity_item_inv:
  assumes inv: "vocs_db_inv db" and x: "tree_ok x"
    and k: "\<And>y. K = OV_VOCS_DB_DOMAIN \<Longrightarrow> ov_json_object_get (Some x) (Some ''projects'') = Some y \<Longrightarrow> projects_ok (taken_paths db i x) i y"
    and up: "ov_vocs_db_update_entity_item db lk lk2 K i x = Some (db', ok, err)"
  shows "vocs_db_inv db'"
proof (cases "db' = db")
  case False
  then obtain p v r where p: "idx db K i = Some p" "deref db p = Some v"
    and f: "ov_json_object_for_each (Some x) (Some db) (update_key_val (update_function K) (fst p)) = (Some db', r)"
    using up by (auto simp: ov_vocs_db_update_entity_item_def idx_def bind_eq_Some_conv split: if_splits option.splits prod.splits)
  from f False obtain a es where es: "x = JObject a es" "members_for_each (update_key_val (update_function K) (fst p)) es (Some db) = (Some db', r)"
    by (cases x) auto
  have "distinct (map fst es)" using x es(1) by (simp add: tree_ok_object in_slots_def)
  then have m: "map_of es (fst e) = Some (snd e)" if "e \<in> set es" for e using that by simp
  have ent: "entity_at K (fst p) i" using with_entity [OF inv p(1)] by blast
  show ?thesis
  proof (rule update_members_inv [OF inv ent _ _ _ es(2), where T = "taken_paths db i x"])
    show "\<forall>e \<in> set es. tree_ok (snd e)" using m x es(1) by (auto simp: tree_ok_object)
    show "\<forall>e \<in> set es. K = OV_VOCS_DB_DOMAIN \<longrightarrow>
      (if fst e = ''projects'' then projects_ok (taken_paths db i x) i (snd e) else \<forall>r. lookup (snd e) r \<noteq> None \<longrightarrow> i # fst e # r \<in> taken_paths db i x)"
      using m k es(1) by (auto simp: taken_paths_def)
    show "K = OV_VOCS_DB_DOMAIN \<longrightarrow> (\<forall>K' q j. entity_at K' q j \<longrightarrow> dnode db q \<noteq> None \<longrightarrow> \<not> prefix [i, ''projects''] q \<longrightarrow> q \<in> taken_paths db i x)"
      by (simp add: taken_paths_def dnode_None)
  qed
qed (use inv in simp)

end
