(* ===== verification/Ov_Vocs_Db_Reach.thy ===== *)
theory Ov_Vocs_Db_Reach
  imports Ov_Vocs_Db_Update
begin

text \<open>
  The databases that the operations can reach from the empty one, and the invariant in all of them.
\<close>

subsection \<open>Reachable databases\<close>

text \<open>
  The databases that the operations reach from the empty one, under conditions on the callers which the code does not test:

  \<^item> a value that is passed is a proper JSON value (\<open>tree_ok\<close>: its objects are dictionaries);
  \<^item> imported data has objects as containers and no id twice, except for roles named admin (\<open>dataset_ok\<close>);
  \<^item> when the projects of a domain are replaced as a whole, their containers are objects, and their ids are used once and nowhere else, neither in
    the database nor in the rest of the document (\<open>projects_ok\<close>), again except for roles named admin;
  \<^item> a role named admin is created only while the index of the roles has none.

  Theorem \<open>vocs_db_unchecked_ids\<close> of \<open>Ov_Vocs_Db_Change\<close> and theorem \<open>vocs_db_admin_dangling\<close> of \<open>Ov_Vocs_Db_Access\<close> show what happens without.
\<close>

inductive vocs_db_reach :: "ov_vocs_db \<Rightarrow> bool" where
  reach_create_db: "vocs_db_reach ov_vocs_db_create"
| reach_create: "vocs_db_reach db \<Longrightarrow> \<not> (K = OV_VOCS_DB_ROLE \<and> i = ''admin'' \<and> map_of (index_roles db) i \<noteq> None) \<Longrightarrow>
    ov_vocs_db_create_entity db lk K i scope sid = Some (db', ok) \<Longrightarrow> vocs_db_reach db'"
| reach_delete: "vocs_db_reach db \<Longrightarrow> ov_vocs_db_delete_entity db lk K i = Some (db', ok) \<Longrightarrow> vocs_db_reach db'"
| reach_inject_auth: "vocs_db_reach db \<Longrightarrow> dataset_ok x \<Longrightarrow> ov_vocs_db_inject db lk OV_VOCS_DB_TYPE_AUTH x = (db', ok) \<Longrightarrow> vocs_db_reach db'"
| reach_inject_state: "vocs_db_reach db \<Longrightarrow> ov_vocs_db_inject db lk OV_VOCS_DB_TYPE_STATE x = (db', ok) \<Longrightarrow> vocs_db_reach db'"
| reach_set_password: "vocs_db_reach db \<Longrightarrow> (\<forall>x. password_hash pass = Some x \<longrightarrow> tree_ok x) \<Longrightarrow>
    ov_vocs_db_set_password password_hash db lk u pass = Some (db', ok) \<Longrightarrow> vocs_db_reach db'"
| reach_set_layout: "vocs_db_reach db \<Longrightarrow> tree_ok x \<Longrightarrow> ov_vocs_db_set_layout db lk r x = Some (db', ok) \<Longrightarrow> vocs_db_reach db'"
| reach_domain_admin: "vocs_db_reach db \<Longrightarrow> ov_vocs_db_add_domain_admin db lk d u = Some (db', ok) \<Longrightarrow> vocs_db_reach db'"
| reach_project_admin: "vocs_db_reach db \<Longrightarrow> ov_vocs_db_add_project_admin db lk d u = Some (db', ok) \<Longrightarrow> vocs_db_reach db'"
| reach_set_state: "vocs_db_reach db \<Longrightarrow> ov_vocs_db_set_state db lk u r l st = (db', ok) \<Longrightarrow> vocs_db_reach db'"
| reach_set_volume: "vocs_db_reach db \<Longrightarrow> ov_vocs_db_set_volume db lk u r l vol = (db', ok) \<Longrightarrow> vocs_db_reach db'"
| reach_update_key: "vocs_db_reach db \<Longrightarrow> tree_ok x \<Longrightarrow>
    (K = OV_VOCS_DB_DOMAIN \<Longrightarrow> k = ''projects'' \<Longrightarrow> projects_ok {q. dom_get db q \<noteq> None} i x) \<Longrightarrow>
    ov_vocs_db_update_entity_key db lk K i k x = Some (db', ok) \<Longrightarrow> vocs_db_reach db'"
| reach_update_item: "vocs_db_reach db \<Longrightarrow> tree_ok x \<Longrightarrow>
    (\<And>y. K = OV_VOCS_DB_DOMAIN \<Longrightarrow> ov_json_object_get (Some x) (Some ''projects'') = Some y \<Longrightarrow> projects_ok (taken_paths db i x) i y) \<Longrightarrow>
    ov_vocs_db_update_entity_item db lk lk2 K i x = Some (db', ok, err) \<Longrightarrow> vocs_db_reach db'"
| reach_delete_key: "vocs_db_reach db \<Longrightarrow> ov_vocs_db_delete_entity_key db lk K i k = Some (db', ok) \<Longrightarrow> vocs_db_reach db'"

lemma create_inv: "vocs_db_inv ov_vocs_db_create"
proof -
  have "idx ov_vocs_db_create K i = None" for K i by (cases K) (auto simp: idx_simps ov_vocs_db_create_def)
  moreover have "dnode ov_vocs_db_create p = None" for p by (simp add: dnode_def ov_vocs_db_create_def)
  moreover have "get_index_dict ov_vocs_db_create K = Some es \<Longrightarrow> es = []" for K es by (cases K) (auto simp: ov_vocs_db_create_def)
  ultimately show ?thesis
    by (fastforce simp: vocs_db_inv_def consistent_def sound_index_def complete_index_def indexes_ok_def domains_ok_def ov_vocs_db_create_def)
qed

lemma vocs_db_reach_inv: "vocs_db_reach db \<Longrightarrow> vocs_db_inv db"
proof (induction rule: vocs_db_reach.induct)
  case (reach_create db K i lk scope sid db' ok)
  then have "admin_role K i \<Longrightarrow> idx db K i = None" by (cases "map_of (index_roles db) ''admin''") (auto simp: admin_role_def idx_simps)
  from create_entity_inv [OF reach_create.IH this, of lk scope sid] reach_create.hyps show ?case by auto
next
  case (reach_delete db lk K i db' ok)
  then show ?case using delete_entity_inv [of db lk K i] by auto
next
  case (reach_inject_auth db x lk db' ok)
  then show ?case using inject_auth_inv(1) [of x db lk] by simp
next
  case (reach_inject_state db lk x db' ok)
  then show ?case using same_auth_inv [OF _ inject_state_same, of db lk x] by simp
next
  case (reach_set_password db password_hash pass lk u db' ok)
  then show ?case using set_password_inv [of db password_hash pass lk u] by auto
next
  case (reach_set_layout db x lk r db' ok)
  then show ?case using set_layout_inv [of db x lk r] by auto
next
  case (reach_domain_admin db lk d u db' ok)
  then show ?case using add_domain_admin_inv [of db lk d u] by auto
next
  case (reach_project_admin db lk d u db' ok)
  then show ?case using add_project_admin_inv [of db lk d u] by auto
next
  case (reach_set_state db lk u r l st db' ok)
  then show ?case using same_auth_inv [OF _ set_state_same, of db lk u r l st] by simp
next
  case (reach_set_volume db lk u r l vol db' ok)
  then show ?case using same_auth_inv [OF _ set_volume_same, of db lk u r l vol] by simp
next
  case (reach_update_key db x K k lk i db' ok)
  show ?case by (rule update_entity_key_inv [OF reach_update_key.IH reach_update_key.hyps(2-4)])
next
  case (reach_update_item db x K lk lk2 i db' ok err)
  show ?case by (rule update_entity_item_inv [OF reach_update_item.IH reach_update_item.hyps(2-4)])
next
  case (reach_delete_key db lk K i k db' ok)
  then show ?case using delete_entity_key_inv [of db lk K i k] by auto
qed (rule create_inv)

end
