(* ===== verification/Ov_Vocs_Db_Props.thy ===== *)
theory Ov_Vocs_Db_Props
  imports Ov_Vocs_Db_Reach
begin

text \<open>
  What the vocs database promises: the indexes and the tree agree, no operation follows a dangling pointer, who is authorized for what, and what
  creation, deletion, import and export do.
\<close>

subsection \<open>Indexes, paths and values\<close>

lemma reach_consistent: "vocs_db_reach db \<Longrightarrow> consistent db"
  using vocs_db_reach_inv by (simp add: vocs_db_inv_def)

lemma dnode_get: "dnode db p = Some (t, b) \<longleftrightarrow> (\<exists>v. dom_get db p = Some v \<and> tag v = t \<and> ov_json_is_object (Some v) = b)"
  by (cases "data_domains db") (auto simp: dnode_def dom_get_def node_def)

lemma get_get: "dom_get db p = Some v \<Longrightarrow>
  ov_json_object_get (ov_json_object_get (Some v) (Some j)) (Some k) = dom_get db (p @ [j, k])"
  using dom_get_under [of db p j] dom_get_under [of db "p @ [j]" k] by simp

text \<open>
  The entry of an entity in its index, for an entity that is found by its path in the tree.
\<close>

lemma find_entity:
  assumes "vocs_db_reach db" "entity_at K p i" "\<not> admin_role K i" "dom_get db p = Some v"
  shows "index_get (get_index_dict db K) (Some i) = Some (p, tag v)" "deref db (p, tag v) = Some v"
proof -
  have n: "dnode db p = Some (tag v, ov_json_is_object (Some v))" using assms(4) by (simp add: dnode_get)
  from completeD [OF reach_consistent [OF assms(1)] assms(2,3) n] show "index_get (get_index_dict db K) (Some i) = Some (p, tag v)" by (simp add: idx_def)
  from deref_node [of db "(p, tag v)"] n assms(4) show "deref db (p, tag v) = Some v" by auto
qed

lemma index_entity:
  assumes "vocs_db_reach db" "index_get (get_index_dict db K) (Some i) = Some p"
  shows "entity_at K (fst p) i" "\<exists>v. deref db p = Some v \<and> dom_get db (fst p) = Some v"
  using soundD [OF reach_consistent [OF assms(1)], of K i p] deref_inv [OF reach_consistent [OF assms(1)], of K i p] assms(2) by (auto simp: idx_def)

lemma indexed_iff:
  assumes "vocs_db_reach db" "\<not> admin_role K i"
  shows "index_get (get_index_dict db K) (Some i) \<noteq> None \<longleftrightarrow> (\<exists>p. entity_at K p i \<and> dom_get db p \<noteq> None)"
proof
  assume "index_get (get_index_dict db K) (Some i) \<noteq> None"
  then obtain p where "index_get (get_index_dict db K) (Some i) = Some p" by blast
  from index_entity [OF assms(1) this] show "\<exists>p. entity_at K p i \<and> dom_get db p \<noteq> None" by blast
next
  assume "\<exists>p. entity_at K p i \<and> dom_get db p \<noteq> None"
  then obtain p v where "entity_at K p i" "dom_get db p = Some v" by blast
  from find_entity(1) [OF assms(1) this(1) assms(2) this(2)] show "index_get (get_index_dict db K) (Some i) \<noteq> None" by simp
qed

text \<open>An example: a domain with a project, two users, a role and a loop.\<close>

definition new_entity :: "ov_vocs_db_entity \<Rightarrow> string \<Rightarrow> ov_vocs_db_scope \<Rightarrow> string \<Rightarrow> ov_vocs_db \<Rightarrow> ov_vocs_db" where
  "new_entity K i scope sid db = fst (the (ov_vocs_db_create_entity db True K i scope (Some sid)))"

definition example_db :: ov_vocs_db where
  "example_db =
    new_entity OV_VOCS_DB_LOOP ''l'' OV_VOCS_DB_SCOPE_PROJECT ''p''
    (new_entity OV_VOCS_DB_ROLE ''r'' OV_VOCS_DB_SCOPE_PROJECT ''p''
    (new_entity OV_VOCS_DB_USER ''v'' OV_VOCS_DB_SCOPE_PROJECT ''p''
    (new_entity OV_VOCS_DB_USER ''u'' OV_VOCS_DB_SCOPE_DOMAIN ''d''
    (new_entity OV_VOCS_DB_PROJECT ''p'' OV_VOCS_DB_SCOPE_DOMAIN ''d''
    (new_entity OV_VOCS_DB_DOMAIN ''d'' OV_VOCS_DB_SCOPE_DOMAIN '''' ov_vocs_db_create)))))"

lemma reach_new: "vocs_db_reach db \<Longrightarrow> \<not> admin_role K i \<Longrightarrow> vocs_db_reach (new_entity K i scope sid db)"
  using create_entity_inv [OF vocs_db_reach_inv, of db K i True scope "Some sid"]
  by (fastforce simp: new_entity_def admin_role_def intro: reach_create)

lemma example_reach: "vocs_db_reach example_db"
  unfolding example_db_def by (intro reach_new reach_create_db) (simp_all add: admin_role_def)

subsection \<open>Consistency\<close>

text \<open>
  C1: Under the conditions on callers that \<open>vocs_db_reach\<close> states, which the code does not test (JSON values are proper; data that is imported and projects that
  replace those of a domain use each id once, the latter no id that is used elsewhere; a role named admin is created only while the index has
  none), the index of a kind of entities has exactly the entities of the tree after any operations: an entry points to a value that is there, at a place where such
  an entity belongs, and was not freed, and each entity of the tree is found under its id, except for roles named admin, of which there can be many
  and of which the index has at most one.
\<close>

theorem vocs_db_index_exact:
  assumes "vocs_db_reach db"
  shows "(\<forall>K i p t. index_get (get_index_dict db K) (Some i) = Some (p, t) \<longrightarrow> entity_at K p i \<and> (\<exists>v. dom_get db p = Some v \<and> tag v = t)) \<and>
    (\<forall>K i p v. entity_at K p i \<longrightarrow> \<not> admin_role K i \<longrightarrow> dom_get db p = Some v \<longrightarrow> index_get (get_index_dict db K) (Some i) = Some (p, tag v))"
proof (intro conjI allI impI)
  fix K i p t assume "index_get (get_index_dict db K) (Some i) = Some (p, t)"
  with soundD [OF reach_consistent [OF assms], of K i "(p, t)"] show "entity_at K p i" "\<exists>v. dom_get db p = Some v \<and> tag v = t"
    by (auto simp: idx_def dnode_get)
qed (rule find_entity(1) [OF assms])

theorem vocs_db_index_exact_witness:
  "index_get (get_index_dict example_db OV_VOCS_DB_USER) (Some ''v'') = Some ([''d'', ''projects'', ''p'', ''users'', ''v''], 7) \<and>
   (\<exists>v. dom_get example_db [''d'', ''projects'', ''p'', ''users'', ''v''] = Some v \<and> tag v = 7)"
proof -
  have "index_get (get_index_dict example_db OV_VOCS_DB_USER) (Some ''v'') = Some ([''d'', ''projects'', ''p'', ''users'', ''v''], 7)" by code_simp
  with vocs_db_index_exact [OF example_reach] show ?thesis by blast
qed

text \<open>
  C4: Under the same conditions on callers (\<open>vocs_db_reach\<close>: proper JSON values, each id once in imported data and in projects that replace those of a domain, no
  role named admin created while the index has one), none of these operations and queries reads over a dangling pointer, or over the parent of a value
  that has none: all have a result. Excepted are the creation of a role named admin while the index has one, and
  the update of a member of an entity that is not an object.
\<close>

theorem vocs_db_no_dangling:
  assumes "vocs_db_reach db"
  shows "ov_vocs_db_delete_entity db lk K i \<noteq> None \<and>
    (\<not> (admin_role K i \<and> idx db K i \<noteq> None) \<longrightarrow> ov_vocs_db_create_entity db lk K i scope sid \<noteq> None) \<and>
    ov_vocs_db_get_entity db lk K i \<noteq> None \<and> ov_vocs_db_get_entity_key db lk K i key \<noteq> None \<and>
    ov_vocs_db_get_parent db lk K i \<noteq> None \<and> ov_vocs_db_get_entity_domain db lk K i \<noteq> None \<and>
    ov_vocs_db_set_password password_hash db lk u pass \<noteq> None \<and> ov_vocs_db_authenticate password_is_valid db lk u pass \<noteq> None \<and>
    ov_vocs_db_authorize db lk u r \<noteq> None \<and> ov_vocs_db_get_permission db lk r l \<noteq> None \<and>
    ov_vocs_db_authorize_domain_admin db lk u i \<noteq> None \<and> ov_vocs_db_authorize_project_admin db lk u i \<noteq> None \<and>
    ov_vocs_db_add_domain_admin db lk i u \<noteq> None \<and> ov_vocs_db_add_project_admin db lk i u \<noteq> None \<and>
    ov_vocs_db_get_admin_domains db lk u \<noteq> None \<and> ov_vocs_db_get_layout db lk r \<noteq> None \<and> ov_vocs_db_set_layout db lk r x \<noteq> None \<and>
    ov_vocs_db_delete_entity_key db lk K i key \<noteq> None \<and>
    (\<forall>p t. idx db K i = Some (p, t) \<longrightarrow> ov_json_is_object (dom_get db p) \<longrightarrow> ov_vocs_db_update_entity_key db lk K i key y \<noteq> None)"
proof -
  note inv = vocs_db_reach_inv [OF assms]
  note ent = index_entity(2) [OF assms]
  have "ov_vocs_db_get_entity db lk K i \<noteq> None" using ent [of K i]
    by (cases "index_get (get_index_dict db K) (Some i)") (auto simp: ov_vocs_db_get_entity_def lock_db_get_def Let_def)
  moreover have "ov_vocs_db_get_entity_key db lk K i key \<noteq> None" using ent [of K i]
    by (cases "index_get (get_index_dict db K) (Some i)") (auto simp: ov_vocs_db_get_entity_key_def split: option.splits)
  moreover have "ov_vocs_db_get_parent db lk K i \<noteq> None" using ent [of K i] index_entity(1) [OF assms, of K i]
    by (cases "index_get (get_index_dict db K) (Some i)") (auto simp: ov_vocs_db_get_parent_def Let_def split: option.splits)
  moreover have "ov_vocs_db_get_entity_domain db lk K i \<noteq> None" using ent [of K i]
    by (cases "index_get (get_index_dict db K) (Some i)") (auto simp: ov_vocs_db_get_entity_domain_def Let_def)
  moreover have "ov_vocs_db_set_password password_hash db lk u pass \<noteq> None" using ent [of OV_VOCS_DB_USER u]
    by (cases "password_hash pass") (auto simp: ov_vocs_db_set_password_def split: option.splits)
  moreover have "ov_vocs_db_authenticate password_is_valid db lk u pass \<noteq> None" using ent [of OV_VOCS_DB_USER u]
    by (auto simp: ov_vocs_db_authenticate_def split: option.splits)
  moreover have "ov_vocs_db_authorize db lk u r \<noteq> None" using ent [of OV_VOCS_DB_ROLE r]
    by (auto simp: ov_vocs_db_authorize_def split: option.splits)
  moreover have "ov_vocs_db_get_permission db lk r l \<noteq> None" using ent [of OV_VOCS_DB_LOOP l]
    by (auto simp: ov_vocs_db_get_permission_def Let_def split: option.splits)
  moreover have adm: "authorize_domain_admin db u d \<noteq> None" for d using ent [of OV_VOCS_DB_DOMAIN "the d"]
    by (cases d) (auto simp: authorize_domain_admin_def index_get_def split: option.splits)
  moreover have "ov_vocs_db_authorize_project_admin db lk u i \<noteq> None" using ent [of OV_VOCS_DB_PROJECT i] adm
    by (auto simp: ov_vocs_db_authorize_project_admin_def authorize_project_admin_def split: option.splits)
  moreover have all: "admin_domains db u es \<noteq> None" for es
  proof (induction es)
    case (Cons e es)
    from adm [of "Some (fst e)"] Cons.IH obtain ok ids where "authorize_domain_admin db u (Some (fst e)) = Some ok" "admin_domains db u es = Some ids" by blast
    then show ?case by simp
  qed simp
  moreover have "ov_vocs_db_get_layout db lk r \<noteq> None" using ent [of OV_VOCS_DB_ROLE r]
    by (auto simp: ov_vocs_db_get_layout_def split: option.splits)
  moreover have "ov_vocs_db_set_layout db lk r x \<noteq> None" using ent [of OV_VOCS_DB_ROLE r]
    by (auto simp: ov_vocs_db_set_layout_def split: option.splits)
  moreover have "ov_vocs_db_authorize_domain_admin db lk u i \<noteq> None" using adm by (simp add: ov_vocs_db_authorize_domain_admin_def)
  moreover have "ov_vocs_db_get_admin_domains db lk u \<noteq> None" using all [of "index_domains db"] by (auto simp: ov_vocs_db_get_admin_domains_def)
  moreover have "ov_vocs_db_delete_entity db lk K i \<noteq> None" using delete_entity_inv [OF inv, of lk K i] by force
  moreover have "ov_vocs_db_create_entity db lk K i scope sid \<noteq> None" if "\<not> (admin_role K i \<and> idx db K i \<noteq> None)"
    using create_entity_inv [OF inv, of K i lk scope sid] that by force
  moreover have "ov_vocs_db_add_domain_admin db lk i u \<noteq> None" "ov_vocs_db_add_project_admin db lk i u \<noteq> None"
    using add_domain_admin_inv [OF inv, of lk i u] add_project_admin_inv [OF inv, of lk i u] by force+
  moreover have "ov_vocs_db_delete_entity_key db lk K i key \<noteq> None" using delete_entity_key_inv [OF inv, of lk K i key] by force
  moreover have "ov_vocs_db_update_entity_key db lk K i key y \<noteq> None" if "idx db K i = Some (p, t)" "ov_json_is_object (dom_get db p)" for p t
    by (rule update_entity_key_some [OF inv that])
  ultimately show ?thesis by blast
qed

theorem vocs_db_no_dangling_witness:
  "ov_vocs_db_authorize (fst (the (ov_vocs_db_delete_entity example_db True OV_VOCS_DB_PROJECT ''p''))) True ''v'' ''r'' \<noteq> None"
proof -
  have "ov_vocs_db_delete_entity example_db True OV_VOCS_DB_PROJECT ''p'' \<noteq> None" using vocs_db_no_dangling [OF example_reach] by blast
  then obtain db ok where "ov_vocs_db_delete_entity example_db True OV_VOCS_DB_PROJECT ''p'' = Some (db, ok)" by auto
  with vocs_db_no_dangling [OF reach_delete [OF example_reach this]] show ?thesis by simp
qed

subsection \<open>Authorization\<close>

text \<open>Somewhere in the tree there are the user and a role with the name, and this role lists the user.\<close>

definition role_lists :: "ov_vocs_db \<Rightarrow> string \<Rightarrow> string \<Rightarrow> bool" where
  "role_lists db r u \<longleftrightarrow> (\<exists>pu pr. entity_at OV_VOCS_DB_USER pu u \<and> dom_get db pu \<noteq> None \<and>
    entity_at OV_VOCS_DB_ROLE pr r \<and> dom_get db (pr @ [''users'', u]) \<noteq> None)"

lemma authorize_lists:
  assumes "vocs_db_reach db" "r \<noteq> ''admin''"
  shows "ov_vocs_db_authorize db True u r = Some (role_lists db r u)"
  unfolding role_lists_def
proof -
  have user: "index_get (Some (index_users db)) (Some u) \<noteq> None \<longleftrightarrow> (\<exists>pu. entity_at OV_VOCS_DB_USER pu u \<and> dom_get db pu \<noteq> None)"
    using indexed_iff [OF assms(1), of OV_VOCS_DB_USER u] by (simp add: admin_role_def)
  show "ov_vocs_db_authorize db True u r = Some (\<exists>pu pr. entity_at OV_VOCS_DB_USER pu u \<and> dom_get db pu \<noteq> None \<and> entity_at OV_VOCS_DB_ROLE pr r \<and> dom_get db (pr @ [''users'', u]) \<noteq> None)"
  proof (cases "\<exists>pr. entity_at OV_VOCS_DB_ROLE pr r \<and> dom_get db pr \<noteq> None")
    case True
    then obtain pr v where r: "entity_at OV_VOCS_DB_ROLE pr r" "dom_get db pr = Some v" by blast
    have "\<not> admin_role OV_VOCS_DB_ROLE r" using assms(2) by (simp add: admin_role_def)
    note f = find_entity [OF assms(1) r(1) this]
    have uniq: "q = pr" if "entity_at OV_VOCS_DB_ROLE q r" "dom_get db (q @ [''users'', u]) \<noteq> None" for q
    proof -
      have "dom_get db q \<noteq> None" using that(2) dnode_prefix [of q "q @ [''users'', u]" db] by (simp only: dnode_None) auto
      then obtain w where "dom_get db q = Some w" by auto
      with find_entity(1) [OF assms(1) that(1) \<open>\<not> admin_role OV_VOCS_DB_ROLE r\<close> this] f(1) [OF r(2)] show ?thesis by simp
    qed
    have "ov_vocs_db_authorize db True u r = Some (index_get (Some (index_users db)) (Some u) \<noteq> None \<and> dom_get db (pr @ [''users'', u]) \<noteq> None)"
      using f [OF r(2)] get_get [OF r(2), of "''users''" u] by (simp add: ov_vocs_db_authorize_def)
    moreover have "(\<exists>pu. entity_at OV_VOCS_DB_USER pu u \<and> dom_get db pu \<noteq> None) \<and> dom_get db (pr @ [''users'', u]) \<noteq> None \<longleftrightarrow>
      (\<exists>pu pr. entity_at OV_VOCS_DB_USER pu u \<and> dom_get db pu \<noteq> None \<and> entity_at OV_VOCS_DB_ROLE pr r \<and> dom_get db (pr @ [''users'', u]) \<noteq> None)"
      using r(1) uniq by blast
    ultimately show ?thesis unfolding user by simp
  next
    case False
    have "\<not> admin_role OV_VOCS_DB_ROLE r" using assms(2) by (simp add: admin_role_def)
    from indexed_iff [OF assms(1) this] False have "index_get (Some (index_roles db)) (Some r) = None" unfolding get_index_dict.simps by blast
    moreover have "dom_get db (q @ [''users'', u]) = None" if "entity_at OV_VOCS_DB_ROLE q r" for q
    proof -
      from False that have "dom_get db q = None" by blast
      then show ?thesis using dnode_prefix [of q "q @ [''users'', u]" db] by (simp add: dnode_None)
    qed
    ultimately show ?thesis by (simp add: ov_vocs_db_authorize_def del: entity_at.simps)
  qed
qed

lemma authorize_sound:
  assumes "vocs_db_reach db" "ov_vocs_db_authorize db True u r = Some True"
  shows "role_lists db r u"
proof -
  obtain p q where i: "index_get (Some (index_roles db)) (Some r) = Some p" "index_get (Some (index_users db)) (Some u) = Some q"
    using assms(2) by (auto simp: ov_vocs_db_authorize_def split: if_splits option.splits)
  from index_entity [OF assms(1), of OV_VOCS_DB_ROLE r p] i(1) obtain v where
    v: "entity_at OV_VOCS_DB_ROLE (fst p) r" "deref db p = Some v" "dom_get db (fst p) = Some v" by auto
  have "dom_get db (fst p @ [''users'', u]) \<noteq> None"
    using assms(2) i v(2) get_get [OF v(3), of "''users''" u] by (auto simp: ov_vocs_db_authorize_def)
  moreover obtain w where "entity_at OV_VOCS_DB_USER (fst q) u" "dom_get db (fst q) = Some w"
    using index_entity [OF assms(1), of OV_VOCS_DB_USER u q] i(2) by auto
  ultimately show ?thesis using v(1) unfolding role_lists_def by blast
qed

text \<open>
  C6: Under the conditions on callers of \<open>vocs_db_reach\<close>, a user is authorized for a role only if there are both, somewhere in the tree, and the role lists
  the user; for a role not named admin this is also enough. (Roles named admin that were created are not in the index, so a user they list may be refused.) A role, admin
  or not, may talk on a loop if the loop has it as true, and only listen if the loop has it as false; without loop, without entry and for
  other entries there is no permission.
\<close>

theorem vocs_db_authorize_tree:
  assumes "vocs_db_reach db"
  shows "(\<exists>a. ov_vocs_db_authorize db True u r = Some a \<and> (a \<longrightarrow> role_lists db r u) \<and> (r \<noteq> ''admin'' \<longrightarrow> role_lists db r u \<longrightarrow> a)) \<and>
    (\<forall>pl. entity_at OV_VOCS_DB_LOOP pl l \<longrightarrow> dom_get db pl \<noteq> None \<longrightarrow>
      ov_vocs_db_get_permission db True r l =
        Some (case dom_get db (pl @ [''roles'', r]) of Some (JTrue t) \<Rightarrow> OV_VOCS_SEND | Some (JFalse t) \<Rightarrow> OV_VOCS_RECV | _ \<Rightarrow> OV_VOCS_NONE)) \<and>
    ((\<forall>pl. entity_at OV_VOCS_DB_LOOP pl l \<longrightarrow> dom_get db pl = None) \<longrightarrow> ov_vocs_db_get_permission db True r l = Some OV_VOCS_NONE)"
proof (intro conjI allI impI)
  have "ov_vocs_db_authorize db True u r \<noteq> None"
    using index_entity(2) [OF assms, of OV_VOCS_DB_ROLE r] by (auto simp: ov_vocs_db_authorize_def split: option.splits)
  then show "\<exists>a. ov_vocs_db_authorize db True u r = Some a \<and> (a \<longrightarrow> role_lists db r u) \<and> (r \<noteq> ''admin'' \<longrightarrow> role_lists db r u \<longrightarrow> a)"
    using authorize_sound [OF assms, of u r] authorize_lists [OF assms, of r u] by auto
  show "ov_vocs_db_get_permission db True r l =
        Some (case dom_get db (pl @ [''roles'', r]) of Some (JTrue t) \<Rightarrow> OV_VOCS_SEND | Some (JFalse t) \<Rightarrow> OV_VOCS_RECV | _ \<Rightarrow> OV_VOCS_NONE)"
    if "entity_at OV_VOCS_DB_LOOP pl l" "dom_get db pl \<noteq> None" for pl
  proof -
    from that(2) obtain v where v: "dom_get db pl = Some v" by auto
    from find_entity [OF assms that(1) _ v] get_get [OF v, of "''roles''" r] show ?thesis
      by (auto simp: ov_vocs_db_get_permission_def admin_role_def split: option.splits json.splits)
  qed
  show "ov_vocs_db_get_permission db True r l = Some OV_VOCS_NONE" if "\<forall>pl. entity_at OV_VOCS_DB_LOOP pl l \<longrightarrow> dom_get db pl = None"
    using that index_entity [OF assms, of OV_VOCS_DB_LOOP l]
    by (cases "index_get (Some (index_loops db)) (Some l)") (auto simp: ov_vocs_db_get_permission_def)
qed

text \<open>Data to import: two users, of which one is in the role, and two loops, on one of which the role may talk.\<close>

definition example_data :: "unit json" where
  "example_data = JObject () [(''d'', JObject ()
    [(''id'', JString () (Some ''d'')),
     (''users'', JObject () [(''v'', JObject () []), (''u'', JObject () [(''password'', JString () (Some ''secret''))])]),
     (''roles'', JObject () [(''r'', JObject () [(''users'', JObject () [(''u'', JNull ())])])]),
     (''loops'', JObject () [(''l'', JObject () [(''roles'', JObject () [(''r'', JTrue ())])])]),
     (''projects'', JObject () [(''p'', JObject () [(''loops'', JObject () [(''m'', JObject () [(''roles'', JObject () [(''r'', JFalse ())])])])])])])]"

lemma example_slots:
  "json_slot ''d'' = 16" "json_slot ''id'' = 15" "json_slot ''users'' = 27" "json_slot ''roles'' = 45" "json_slot ''loops'' = 50" "json_slot ''projects'' = 91"
  "json_slot ''u'' = 36" "json_slot ''v'' = 1"
  by code_simp+

lemma tree_ok_members: "in_slots json_slot es \<Longrightarrow> (\<And>k w. (k, w) \<in> set es \<Longrightarrow> tree_ok w) \<Longrightarrow> tree_ok (JObject a es)"
  by (auto simp: tree_ok_object dest: map_of_SomeD)

fun json_paths :: "'a json \<Rightarrow> path list" where
  "json_paths (JObject a es) = [] # concat (map (\<lambda>(k, w). map ((#) k) (json_paths w)) es)"
| "json_paths v = [[]]"

lemma lookup_paths: "lookup v p \<noteq> None \<Longrightarrow> p \<in> set (json_paths v)"
proof (induction p arbitrary: v)
  case Nil
  show ?case by (cases v) auto
next
  case (Cons k p)
  then obtain a es w where v: "v = JObject a es" "map_of es k = Some w" "lookup w p \<noteq> None" by (cases v) (auto split: option.splits)
  from Cons.IH [OF v(3)] map_of_SomeD [OF v(2)] show ?case by (force simp: v(1))
qed

lemma example_paths: "json_paths example_data =
  [[], [''d''], [''d'', ''id''], [''d'', ''users''], [''d'', ''users'', ''v''], [''d'', ''users'', ''u''], [''d'', ''users'', ''u'', ''password''],
   [''d'', ''roles''], [''d'', ''roles'', ''r''], [''d'', ''roles'', ''r'', ''users''], [''d'', ''roles'', ''r'', ''users'', ''u''],
   [''d'', ''loops''], [''d'', ''loops'', ''l''], [''d'', ''loops'', ''l'', ''roles''], [''d'', ''loops'', ''l'', ''roles'', ''r''],
   [''d'', ''projects''], [''d'', ''projects'', ''p''], [''d'', ''projects'', ''p'', ''loops''], [''d'', ''projects'', ''p'', ''loops'', ''m''],
   [''d'', ''projects'', ''p'', ''loops'', ''m'', ''roles''], [''d'', ''projects'', ''p'', ''loops'', ''m'', ''roles'', ''r'']]"
  by (simp add: example_data_def)

lemma example_entities: "entity_at K p i \<Longrightarrow> lookup example_data p \<noteq> None \<Longrightarrow>
  (K, i, p) \<in> {(OV_VOCS_DB_DOMAIN, ''d'', [''d'']), (OV_VOCS_DB_USER, ''u'', [''d'', ''users'', ''u'']), (OV_VOCS_DB_USER, ''v'', [''d'', ''users'', ''v'']),
    (OV_VOCS_DB_ROLE, ''r'', [''d'', ''roles'', ''r'']), (OV_VOCS_DB_LOOP, ''l'', [''d'', ''loops'', ''l'']),
    (OV_VOCS_DB_PROJECT, ''p'', [''d'', ''projects'', ''p'']), (OV_VOCS_DB_LOOP, ''m'', [''d'', ''projects'', ''p'', ''loops'', ''m''])}"
proof -
  assume "lookup example_data p \<noteq> None"
  from lookup_paths [OF this] show "entity_at K p i \<Longrightarrow> ?thesis" unfolding example_paths by (cases K) auto
qed

lemma example_data_ok: "dataset_ok example_data"
proof -
  have "tree_ok example_data" unfolding example_data_def by (intro tree_ok_members) (auto simp: example_slots tree_ok_leaf intro!: tree_ok_members)
  moreover have "object_at example_data p" if "container p" "lookup example_data p \<noteq> None" for p
    using lookup_paths [OF that(2)] that(1) unfolding example_paths by (auto simp: container_def object_at_def example_data_def)
  moreover have "p = q" if "entity_at K p i" "entity_at K q i" "lookup example_data p \<noteq> None" "lookup example_data q \<noteq> None" for K i p q
    using example_entities [OF that(1,3)] example_entities [OF that(2,4)] by auto
  ultimately show ?thesis by (auto simp: dataset_ok_def object_at_def example_data_def)
qed

definition imported_db :: ov_vocs_db where
  "imported_db = fst (ov_vocs_db_inject ov_vocs_db_create True OV_VOCS_DB_TYPE_AUTH example_data)"

lemma imported_reach: "vocs_db_reach imported_db"
  using reach_inject_auth [OF reach_create_db example_data_ok, of True] by (simp add: imported_db_def prod_eq_iff)

theorem vocs_db_authorize_tree_witness:
  "ov_vocs_db_authorize imported_db True ''u'' ''r'' = Some True \<and> ov_vocs_db_authorize imported_db True ''v'' ''r'' = Some False \<and>
   ov_vocs_db_get_permission imported_db True ''r'' ''l'' = Some OV_VOCS_SEND \<and>
   (\<exists>pr. entity_at OV_VOCS_DB_ROLE pr ''r'' \<and> dom_get imported_db (pr @ [''users'', ''u'']) \<noteq> None)"
proof -
  note tree = vocs_db_authorize_tree [OF imported_reach, of _ "''r''"]
  have a: "ov_vocs_db_authorize imported_db True ''u'' ''r'' = Some True" by code_simp
  with tree [of "''u''"] have "\<exists>pr. entity_at OV_VOCS_DB_ROLE pr ''r'' \<and> dom_get imported_db (pr @ [''users'', ''u'']) \<noteq> None" unfolding role_lists_def by force
  moreover have "ov_vocs_db_authorize imported_db True ''v'' ''r'' = Some False" "ov_vocs_db_get_permission imported_db True ''r'' ''l'' = Some OV_VOCS_SEND"
    by code_simp+
  ultimately show ?thesis using a by blast
qed

subsection \<open>Creation and deletion\<close>

text \<open>What the steps of a creation add to the tree.\<close>

lemma get_create_nodes:
  assumes inv: "vocs_db_inv db" and get: "get_create_parent p key db = (db', r)" and q: "dnode db' q \<noteq> dnode db q"
  shows "q = p @ [key] \<and> dnode db q = None"
proof -
  have dom: "domains_ok (db\<lparr>next_tag := Suc (next_tag db)\<rparr>)" using inv_tag [OF inv] by (simp add: vocs_db_inv_def)
  show ?thesis
  proof (cases "ov_json_object_get (dom_get db p) (Some key)")
    case None
    obtain ok where set: "dom_set p key (JObject (next_tag db) []) (db\<lparr>next_tag := Suc (next_tag db)\<rparr>) = (db', ok)"
      using get None by (auto simp: get_create_parent_def split: prod.splits)
    have none: "dnode db (p @ [key]) = None" using None dnode_under [of db p key] by blast
    note n = dom_set_dnode [OF dom set tree_ok_empty]
    have ok by (rule ccontr) (use n(5) q in auto)
    have u: "prefix (p @ [key]) q" using n(6) [OF \<open>ok\<close>, of q] q by (auto split: if_splits)
    then obtain s where s: "q = p @ key # s" by (auto elim: prefixE)
    have "dnode db q = None" by (rule dnode_prefix [OF u none])
    moreover have "s = []" using n(6) [OF \<open>ok\<close>, of q] q u s calculation by (auto split: if_splits)
    ultimately show ?thesis using s by simp
  next
    case (Some v)
    then show ?thesis using get q by (simp add: get_create_parent_def)
  qed
qed

lemma get_parent_nodes:
  assumes inv: "vocs_db_inv db" and get: "get_parent db K scope sid = Some (db', r)" and q: "dnode db' q \<noteq> dnode db q"
  shows "(q = [] \<or> container q) \<and> dnode db q = None"
proof (cases "K = OV_VOCS_DB_DOMAIN")
  case True
  then show ?thesis using get q by (auto simp: get_parent_def dnode_def split: if_splits)
next
  case False
  show ?thesis
  proof (cases scope)
    case OV_VOCS_DB_SCOPE_DOMAIN
    then obtain key where k: "parent_key K = Some key" "get_create_parent [the sid] key db = (db', r)"
      using get q False by (auto simp: get_parent_def split: option.splits)
    from get_create_nodes [OF inv k(2) q] parent_key_container(1) [OF k(1), of "the sid"] show ?thesis by auto
  next
    case OV_VOCS_DB_SCOPE_PROJECT
    then obtain data key v where d: "index_get (Some (index_projects db)) sid = Some data" "parent_key K = Some key" "K \<noteq> OV_VOCS_DB_PROJECT"
      "get_create_parent (fst data) key db = (db', r)"
      using get q False by (auto simp: get_parent_def bind_eq_Some_conv split: option.splits if_splits)
    then obtain x where x: "idx db OV_VOCS_DB_PROJECT x = Some data" by (cases sid) (auto simp: index_get_def idx_simps)
    from with_entity [OF inv x] obtain e where "fst data = [e, ''projects'', x]" by auto
    then show ?thesis using get_create_nodes [OF inv d(4) q] parent_key_container(2) [OF d(2,3), of e x] by auto
  qed
qed

lemma change_get [simp]: "dom_get (change_index K f db) = dom_get db"
  by (simp add: dom_get_def fun_eq_iff)

lemma reindex_eq: "reindex p k v = put index_slot k (p @ [k], tag v)"
  by (simp add: reindex_def fun_eq_iff)

text \<open>The entity with the value \<open>{"id": i}\<close> is at the path, and only its containers are new besides.\<close>

definition created :: "ov_vocs_db \<Rightarrow> ov_vocs_db_entity \<Rightarrow> string \<Rightarrow> ov_vocs_db \<Rightarrow> path \<Rightarrow> bool" where
  "created db K i db' p \<longleftrightarrow> entity_at K p i \<and> (\<exists>t. idx db' K i = Some (p, t) \<and> dom_get db' p = Some (JObject t [(''id'', JString t (Some i))])) \<and>
    (\<forall>K' j. K' \<noteq> K \<or> j \<noteq> i \<longrightarrow> idx db' K' j = idx db K' j) \<and>
    (\<forall>q. dnode db' q \<noteq> dnode db q \<longrightarrow> dnode db q = None \<and> (q = [] \<or> container q \<or> prefix p q))"

lemma create_entity_created:
  assumes inv: "vocs_db_inv db" and create: "ov_vocs_db_create_entity db lk K i scope sid = Some (db', True)" and adm: "\<not> admin_role K i"
  shows "idx db K i = None \<and> (\<exists>p. created db K i db' p)"
proof -
  have none: "idx db K i = None" "lk"
    using create adm by (cases "idx db K i"; auto simp: ov_vocs_db_create_entity_def idx_def admin_role_def split: if_splits)+
  from get_parent_inv [OF inv, of K scope sid] obtain db1 r where
    get: "get_parent db K scope sid = Some (db1, r)" and ok1: "parent_ok db K db1 r" by blast
  let ?t = "next_tag db1" and ?x = "JObject (next_tag db1) [(''id'', JString (next_tag db1) (Some i))]"
  let ?db = "db1\<lparr>next_tag := Suc ?t\<rparr>"
  from create get none adm obtain p db2 where p: "r = Some p" and set: "dom_set p i ?x ?db = (db2, True)"
    and db': "db' = change_index K (put index_slot i (p @ [i], ?t)) db2"
    by (auto simp: ov_vocs_db_create_entity_def Let_def idx_def admin_role_def reindex_eq split: option.splits prod.splits if_splits)
  have inv1: "vocs_db_inv ?db" "get_index_dict ?db = get_index_dict db" using ok1 inv_tag by (auto simp: parent_ok_def fun_eq_iff)
  have dom: "domains_ok ?db" using inv1 by (simp add: vocs_db_inv_def)
  have ent: "entity_at K (p @ [i]) i" using ok1 p by (auto simp: parent_ok_def)
  note n = dom_set_dnode [OF dom set new_entity_ok]
  have i2: "idx db2 = idx db" "indexes_ok db2" using idx_cong [OF n(1)] idx_cong [OF inv1(2)] inv1 n(1) by (auto simp: vocs_db_inv_def indexes_ok_def)
  have "K \<noteq> OV_VOCS_DB_ENTITY_ERROR" using ent by auto
  moreover have "dom_get db2 (p @ [i]) = Some ?x"
  proof -
    obtain v where v: "data_domains db1 = Some v" "object_at v p" "db2 = ?db\<lparr>data_domains := Some (set_at p i ?x v)\<rparr>"
      using set by (auto simp: dom_set_def split: option.splits if_splits)
    then have "tree_ok v" using dom by (auto simp: domains_ok_def)
    then show ?thesis using lookup_set_at(1) [OF _ v(2), of i "p @ [i]" ?x] v(3) by (simp add: dom_get_def)
  qed
  moreover have "dnode db q = None \<and> (q = [] \<or> container q \<or> prefix (p @ [i]) q)" if q: "dnode db' q \<noteq> dnode db q" for q
  proof (cases "prefix (p @ [i]) q")
    case True
    have "dnode db (p @ [i]) = None" by (rule gone [OF inv none(1) adm ent])
    from dnode_prefix [OF True this] True show ?thesis by simp
  next
    case False
    then have "dnode db1 q \<noteq> dnode db q" using q n(6) [of q] db' by simp
    from get_parent_nodes [OF inv get this] show ?thesis by blast
  qed
  ultimately have "created db K i db' (p @ [i])" using ent i2 db' by (auto simp: created_def idx_change)
  with none show ?thesis by blast
qed

text \<open>
  C8: Under the conditions on callers of \<open>vocs_db_reach\<close>, an entity other than a role named admin is created only if its id is not in use for its kind. It is then found under its id with nothing but its id as
  data, no second one can be created, and the entries of all other entities stay as they were. (A role named admin may be created under an id in use.)
\<close>

theorem vocs_db_create_entity_new:
  assumes "vocs_db_reach db" "ov_vocs_db_create_entity db lk K i scope sid = Some (db', True)" "\<not> (K = OV_VOCS_DB_ROLE \<and> i = ''admin'')"
  shows "ov_vocs_db_check_entity_id_exists db True K i = False \<and>
    ov_vocs_db_get_entity db' True K i = Some (Some (JObject () [(''id'', JString () (Some i))])) \<and>
    (\<forall>scope' sid'. ov_vocs_db_create_entity db' True K i scope' sid' = Some (db', False)) \<and>
    (\<forall>K' j. K' \<noteq> K \<or> j \<noteq> i \<longrightarrow> index_get (get_index_dict db' K') (Some j) = index_get (get_index_dict db K') (Some j))"
proof -
  have adm: "\<not> admin_role K i" using assms(3) by (simp add: admin_role_def)
  from create_entity_created [OF vocs_db_reach_inv [OF assms(1)] assms(2) adm] obtain p t where
    none: "idx db K i = None" and p: "idx db' K i = Some (p, t)" "dom_get db' p = Some (JObject t [(''id'', JString t (Some i))])" "entity_at K p i"
    and keep: "\<forall>K' j. K' \<noteq> K \<or> j \<noteq> i \<longrightarrow> idx db' K' j = idx db K' j" by (auto simp: created_def)
  have ref: "deref db' (p, t) = Some (JObject t [(''id'', JString t (Some i))])"
    using p(2) by (auto simp: deref_def dom_get_def bind_eq_Some_conv)
  have K: "get_index_dict db' K \<noteq> None" using get_index_None [of db' K] p(3) by auto
  have "ov_vocs_db_get_entity db' True K i = Some (Some (JObject () [(''id'', JString () (Some i))]))"
    using p(1) ref K by (auto simp: ov_vocs_db_get_entity_def lock_db_get_def idx_def ov_json_value_copy_def drop_key_def)
  moreover have "ov_vocs_db_create_entity db' True K i scope' sid' = Some (db', False)" for scope' sid'
    using p(1) adm by (auto simp: ov_vocs_db_create_entity_def idx_def admin_role_def)
  moreover have "ov_vocs_db_check_entity_id_exists db True K i = False"
    using none get_index_None [of db K] p(3) by (auto simp: ov_vocs_db_check_entity_id_exists_def idx_def index_get_def split: option.splits)
  ultimately show ?thesis using keep by (auto simp: idx_def)
qed

theorem vocs_db_create_entity_new_witness:
  "ov_vocs_db_get_entity (new_entity OV_VOCS_DB_LOOP ''n'' OV_VOCS_DB_SCOPE_DOMAIN ''d'' example_db) True OV_VOCS_DB_LOOP ''n'' =
     Some (Some (JObject () [(''id'', JString () (Some ''n''))]))"
proof -
  have "ov_vocs_db_create_entity example_db True OV_VOCS_DB_LOOP ''n'' OV_VOCS_DB_SCOPE_DOMAIN (Some ''d'') =
    Some (new_entity OV_VOCS_DB_LOOP ''n'' OV_VOCS_DB_SCOPE_DOMAIN ''d'' example_db, True)" by code_simp
  from vocs_db_create_entity_new [OF example_reach this] show ?thesis by simp
qed

text \<open>
  C7: Under the conditions on callers of \<open>vocs_db_reach\<close>, the deletion of an entity other than a role named admin removes it with everything below it from the tree and from all indexes: all
  entries that are left were there before and are not below it, and all entries not below it are left, except that the entry of the name
  admin in the index of the roles may be lost.
\<close>

theorem vocs_db_delete_entity_gone:
  assumes "vocs_db_reach db" "\<not> (K = OV_VOCS_DB_ROLE \<and> i = ''admin'')" "index_get (get_index_dict db K) (Some i) = Some (p, t)"
  shows "\<exists>db' ok. ov_vocs_db_delete_entity db True K i = Some (db', ok) \<and> (\<forall>q. prefix p q \<longrightarrow> dom_get db' q = None) \<and>
    (\<forall>K' j q. index_get (get_index_dict db' K') (Some j) = Some q \<longrightarrow> index_get (get_index_dict db K') (Some j) = Some q \<and> \<not> prefix p (fst q)) \<and>
    (\<forall>K' j q. \<not> (K' = OV_VOCS_DB_ROLE \<and> j = ''admin'') \<longrightarrow> index_get (get_index_dict db K') (Some j) = Some q \<longrightarrow> \<not> prefix p (fst q) \<longrightarrow>
      index_get (get_index_dict db' K') (Some j) = Some q)"
proof -
  have inv: "vocs_db_inv db" and adm: "\<not> admin_role K i" and i: "idx db K i = Some (p, t)"
    using vocs_db_reach_inv [OF assms(1)] assms by (auto simp: admin_role_def idx_def)
  from delete_entity_inv [OF inv, of True K i] obtain db' ok db1 where
    del: "ov_vocs_db_delete_entity db True K i = Some (db', ok)" "vocs_db_inv db'" "idx db' K i = None"
      "db_delete db i K = Some (db1, True)" "get_index_dict db' = get_index_dict db1"
      "\<And>K' j. idx db' K' j \<noteq> None \<Longrightarrow> idx db' K' j = idx db K' j" by blast
  have p: "entity_at K p i" using index_entity(1) [OF assms(1,3)] by simp
  have below: "dnode db' q = None" if "prefix p q" for q by (rule dnode_prefix [OF that gone [OF del(2,3) adm p]])
  have "idx db K' j = Some q \<and> \<not> prefix p (fst q)" if "idx db' K' j = Some q" for K' j q
  proof -
    have "\<exists>b. dnode db' (fst q) = Some (snd q, b)" using soundD [OF _ that] del(2) by (simp add: vocs_db_inv_def)
    then have "\<not> prefix p (fst q)" using below by auto
    moreover have "idx db K' j = Some q" using del(6) [of K' j] that by simp
    ultimately show ?thesis by simp
  qed
  moreover have "idx db' K' j = Some q" if "\<not> admin_role K' j" "idx db K' j = Some q" "\<not> prefix p (fst q)" for K' j q
    using db_delete_keeps [OF inv del(4) that(2,1)] i that(3) del(6) [of K' j] idx_cong [OF del(5)] that(2) by (cases "idx db' K' j") auto
  ultimately show ?thesis using del(1) below unfolding dnode_None admin_role_def idx_def by blast
qed

theorem vocs_db_delete_entity_gone_witness:
  "\<exists>db' ok. ov_vocs_db_delete_entity example_db True OV_VOCS_DB_PROJECT ''p'' = Some (db', ok) \<and>
    index_get (get_index_dict db' OV_VOCS_DB_USER) (Some ''v'') = None \<and>
    index_get (get_index_dict db' OV_VOCS_DB_USER) (Some ''u'') = Some ([''d'', ''users'', ''u''], 5)"
proof -
  have i: "index_get (get_index_dict example_db OV_VOCS_DB_PROJECT) (Some ''p'') = Some ([''d'', ''projects'', ''p''], 3)"
    "index_get (get_index_dict example_db OV_VOCS_DB_USER) (Some ''v'') = Some ([''d'', ''projects'', ''p'', ''users'', ''v''], 7)"
    "index_get (get_index_dict example_db OV_VOCS_DB_USER) (Some ''u'') = Some ([''d'', ''users'', ''u''], 5)" by code_simp+
  from vocs_db_delete_entity_gone [OF example_reach _ i(1)] obtain db' ok where
    d: "ov_vocs_db_delete_entity example_db True OV_VOCS_DB_PROJECT ''p'' = Some (db', ok)"
      "\<And>K' j q. index_get (get_index_dict db' K') (Some j) = Some q \<Longrightarrow>
        index_get (get_index_dict example_db K') (Some j) = Some q \<and> \<not> prefix [''d'', ''projects'', ''p''] (fst q)"
      "\<And>K' j q. \<not> (K' = OV_VOCS_DB_ROLE \<and> j = ''admin'') \<Longrightarrow> index_get (get_index_dict example_db K') (Some j) = Some q \<Longrightarrow>
        \<not> prefix [''d'', ''projects'', ''p''] (fst q) \<Longrightarrow> index_get (get_index_dict db' K') (Some j) = Some q"
    by blast
  have "index_get (get_index_dict db' OV_VOCS_DB_USER) (Some ''v'') = None"
    using d(2) [of OV_VOCS_DB_USER "''v''"] i(2) by (cases "index_get (get_index_dict db' OV_VOCS_DB_USER) (Some ''v'')") auto
  moreover have "index_get (get_index_dict db' OV_VOCS_DB_USER) (Some ''u'') = Some ([''d'', ''users'', ''u''], 5)"
    by (rule d(3) [OF _ i(3)]) simp_all
  ultimately show ?thesis using d(1) by blast
qed

text \<open>The roles of the index from which a user has been deleted do not list the user any more.\<close>

lemma delete_users_loop:
  assumes "vocs_db_inv db" "\<forall>e \<in> set es. idx db OV_VOCS_DB_ROLE (fst e) = Some (snd e)"
    "index_for_each (delete_in_parent ''users'' u) es db = Some (db', True)"
  shows "\<forall>e \<in> set es. dnode db' (fst (snd e) @ [''users'', u]) = None" "\<forall>q. dnode db q = None \<longrightarrow> dnode db' q = None"
proof -
  have "(\<forall>e \<in> set es. dnode db' (fst (snd e) @ [''users'', u]) = None) \<and> (\<forall>q. dnode db q = None \<longrightarrow> dnode db' q = None)"
    using assms
  proof (induction es arbitrary: db)
    case (Cons e es)
    have e: "idx db OV_VOCS_DB_ROLE (fst e) = Some (snd e)" using Cons.prems(2) by simp
    obtain v where v: "deref db (snd e) = Some v" "dom_get db (fst (snd e)) = Some v" "entity_at OV_VOCS_DB_ROLE (fst (snd e)) (fst e)"
      using with_entity [OF Cons.prems(1) e] by blast
    obtain db1 where one: "delete_in_parent ''users'' u (snd e) db = Some (db1, True)" "index_for_each (delete_in_parent ''users'' u) es db1 = Some (db', True)"
      using Cons.prems(3) by (auto simp: bind_eq_Some_conv split: if_splits)
    have db1: "vocs_db_inv db1 \<and> get_index_dict db1 = get_index_dict db \<and> dnode db1 (fst (snd e) @ [''users'', u]) = None \<and> (\<forall>q. dnode db q = None \<longrightarrow> dnode db1 q = None)"
    proof (cases "ov_json_object_get (Some v) (Some ''users'')")
      case None
      then have "db1 = db" using one(1) v(1) by (simp add: delete_in_parent_def)
      moreover have "dnode db (fst (snd e) @ [''users'', u]) = None" using None get_get [OF v(2), of "''users''" u] by (simp add: dnode_None)
      ultimately show ?thesis using Cons.prems(1) by simp
    next
      case (Some w)
      then have del: "dom_del (fst (snd e) @ [''users'']) u db = (db1, True)" using one(1) v(1) by (simp add: delete_in_parent_def)
      have inside: "\<not> entity_at K q j" if "prefix ((fst (snd e) @ [''users'']) @ [u]) q" for K q j
        using leaf_inside(1) [OF v(3), of q K j] that by (auto simp: prefix_def)
      have dom: "domains_ok db" using Cons.prems(1) by (simp add: vocs_db_inv_def)
      note inv1 = inv_delete_none [OF Cons.prems(1) del notE [OF inside]]
      show ?thesis using inv1 dom_del_dnode(6) [OF dom del] by simp
    qed
    have "\<forall>e \<in> set es. idx db1 OV_VOCS_DB_ROLE (fst e) = Some (snd e)" using Cons.prems(2) db1 idx_cong [of db1 db] by simp
    from Cons.IH [OF _ this one(2)] db1 show ?case by auto
  qed simp
  then show "\<forall>e \<in> set es. dnode db' (fst (snd e) @ [''users'', u]) = None" "\<forall>q. dnode db q = None \<longrightarrow> dnode db' q = None" by auto
qed

end
