(* ===== verification/Ov_Vocs_Db_State.thy ===== *)
theory Ov_Vocs_Db_State
  imports Ov_Vocs_Db_Props
begin

text \<open>
  The passwords of the users, import and export, and the state of the users of the vocs database.
\<close>

subsection \<open>Passwords\<close>

lemma modify_each_ok: "\<forall>e \<in> set es. snd (f (snd e)) \<Longrightarrow> members_modify_each f es = map (map_prod id (\<lambda>v. fst (f v))) es"
  by (induction es) (auto split: prod.splits)

lemma each_ok: "members_each_ok f es \<longleftrightarrow> (\<forall>e \<in> set es. snd (f (snd e)))"
  by (induction es) auto

lemma lookup_modify:
  assumes "\<And>k w. lookup v [k] = Some w \<Longrightarrow> snd (f w)" "tree_ok v"
  shows "lookup (fst (json_object_modify_each f v)) (k # p) = Option.bind (lookup v [k]) (\<lambda>w. lookup (fst (f w)) p)"
proof (cases v)
  case (JObject a es)
  have "snd (f (snd e))" if "e \<in> set es" for e
  proof -
    have "map_of es (fst e) = Some (snd e)" using that assms(2) JObject by (simp add: tree_ok_object in_slots_def)
    then show ?thesis using assms(1) [of "fst e" "snd e"] JObject by simp
  qed
  then show ?thesis using JObject by (simp add: modify_each_ok map_of_copy) (cases "map_of es k"; simp)
qed auto

lemma no_password_user: "lookup (fst (delete_password_for_export v)) [''password''] = None"
  by (cases v) (auto simp: delete_password_for_export_def map_of_drop_key)

lemma export_object: "snd (delete_password_for_export v) \<longleftrightarrow> ov_json_is_object (Some v)"
  by (cases v) (auto simp: delete_password_for_export_def)

lemma no_password_users:
  assumes "tree_ok v" "\<forall>u w. lookup v [u] = Some w \<longrightarrow> ov_json_is_object (Some w)"
  shows "lookup (fst (json_object_modify_each delete_password_for_export v)) [u, ''password''] = None"
    "ov_json_is_object (Some v) \<Longrightarrow> snd (json_object_modify_each delete_password_for_export v)"
proof -
  show "lookup (fst (json_object_modify_each delete_password_for_export v)) [u, ''password''] = None"
    using lookup_modify [of v delete_password_for_export u "[''password'']"] assms no_password_user
    by (cases "lookup v [u]") (auto simp: export_object simp del: lookup.simps)
  show "snd (json_object_modify_each delete_password_for_export v)" if "ov_json_is_object (Some v)"
  proof -
    from that obtain a es where v: "v = JObject a es" by (auto elim: ov_json_is_object.elims)
    have "ov_json_is_object (Some (snd e))" if "e \<in> set es" for e
    proof -
      have "map_of es (fst e) = Some (snd e)" using that assms(1) v by (simp add: tree_ok_object in_slots_def)
      then show ?thesis using assms(2) [rule_format, of "fst e" "snd e"] v by simp
    qed
    then show ?thesis by (simp add: v each_ok export_object)
  qed
qed

lemma no_password_project:
  assumes v: "tree_ok v" "\<And>w. lookup v [''users''] = Some w \<Longrightarrow> ov_json_is_object (Some w)" "\<And>u w. lookup v [''users'', u] = Some w \<Longrightarrow> ov_json_is_object (Some w)"
  shows "lookup (fst (delete_password_in_project v)) [''users'', u, ''password''] = None" "snd (delete_password_in_project v)"
proof -
  have "lookup (fst (delete_password_in_project v)) [''users'', u, ''password''] = None \<and> snd (delete_password_in_project v)"
  proof (cases "lookup v [''users'']")
    case None
    then have "ov_json_object_get (Some v) (Some ''users'') = None" by (auto split: option.splits)
    then show ?thesis by (simp add: delete_password_in_project_def)
  next
    case (Some w)
    then have get: "ov_json_object_get (Some v) (Some ''users'') = Some w" by (auto split: option.splits)
    have w: "tree_ok w" by (rule tree_ok_lookup [OF v(1) Some])
    have "\<forall>i x. lookup w [i] = Some x \<longrightarrow> ov_json_is_object (Some x)" using v(3) get by simp
    note users = no_password_users [OF w this]
    from users(1) [of u] users(2) v(2) [OF Some] get show ?thesis
      by (auto simp: delete_password_in_project_def get_upd simp del: upd.simps(2))
  qed
  then show "lookup (fst (delete_password_in_project v)) [''users'', u, ''password''] = None" "snd (delete_password_in_project v)" by auto
qed

lemma user_below:
  assumes "entity_at K p i" "entity_at OV_VOCS_DB_USER (p @ q) u"
  shows "q = [] \<or> q = [''users'', u] \<and> container (p @ [''users'']) \<or> (\<exists>x. q = [''projects'', x, ''users'', u] \<and> p = [i])"
  using assms by (cases K) (auto simp: container_def)

lemma container_users: "container (p @ [''users'']) \<Longrightarrow> entity_at OV_VOCS_DB_USER (p @ [''users'', x]) x"
  by (auto simp: container_def)

lemma lookup_trans: "lookup v p = Some w \<Longrightarrow> lookup v (p @ q) = lookup w q"
  by (simp add: lookup_append)

lemma stripped_user: "lookup (upd [''projects''] g (upd [''users''] f (fst (ov_json_object_del v ''password'')))) [''password''] = None"
  by (cases v) (auto simp: get_upd map_of_drop_key simp del: upd.simps(2))

lemma get_del: "k \<noteq> j \<Longrightarrow> ov_json_object_get (Some (fst (ov_json_object_del v j))) (Some k) = ov_json_object_get (Some v) (Some k)"
  by (cases v) (auto simp: map_of_drop_key)

lemma stripped_users:
  "lookup (upd [''projects''] g (upd [''users''] f (fst (ov_json_object_del v ''password'')))) (''users'' # p) = Option.bind (lookup v [''users'']) (\<lambda>w. lookup (f w) p)"
  "lookup (upd [''projects''] g (upd [''users''] f (fst (ov_json_object_del v ''password'')))) (''projects'' # p) = Option.bind (lookup v [''projects'']) (\<lambda>w. lookup (g w) p)"
  by (cases "ov_json_object_get (Some v) (Some ''users'')"; cases "ov_json_object_get (Some v) (Some ''projects'')"; simp add: get_upd get_del del: upd.simps(2))+

text \<open>
  C16: If all users of the database are objects, what is returned for an entity does not have the password of any user, of the entity itself or of those in it. (The iteration that
  clears the passwords stops at the first user that is not an object; then those behind it keep theirs.)
\<close>

theorem vocs_db_get_entity_no_password:
  assumes reach: "vocs_db_reach db" and get: "ov_vocs_db_get_entity db lk K i = Some (Some j)" and p: "index_get (get_index_dict db K) (Some i) = Some (p, t)"
    and users: "\<forall>q u v. entity_at OV_VOCS_DB_USER q u \<longrightarrow> dom_get db q = Some v \<longrightarrow> ov_json_is_object (Some v)"
    and q: "entity_at OV_VOCS_DB_USER (p @ q) u"
  shows "lookup j (q @ [''password'']) = None"
proof -
  from index_entity [OF reach p] obtain v where v: "entity_at K p i" "deref db (p, t) = Some v" "dom_get db p = Some v" by auto
  let ?c = "ov_json_value_copy () v"
  let ?f = "\<lambda>u. fst (json_object_modify_each delete_password_for_export u)" and ?g = "\<lambda>u. fst (json_object_modify_each delete_password_in_project u)"
  have j: "j = upd [''projects''] ?g (upd [''users''] ?f (fst (ov_json_object_del ?c ''password'')))"
    using get p v by (auto simp: ov_vocs_db_get_entity_def lock_db_get_def Let_def split: if_splits)
  have dom: "domains_ok db" using vocs_db_reach_inv [OF reach] by (simp add: vocs_db_inv_def)
  have c: "lookup ?c r = map_option (ov_json_value_copy ()) (dom_get db (p @ r))" for r
    using v(3) by (cases "data_domains db") (auto simp: dom_get_def lookup_copy lookup_append)
  have ok: "tree_ok ?c"
    using v(3) dom by (cases "data_domains db") (auto simp: dom_get_def domains_ok_def tree_ok_copy intro: tree_ok_lookup)
  have obj: "ov_json_is_object (Some w)" if "lookup ?c r = Some w" "container (p @ r) \<or> entity_at OV_VOCS_DB_USER (p @ r) x" for r w x
  proof -
    from that(1) obtain w' where w': "dom_get db (p @ r) = Some w'" "w = ov_json_value_copy () w'" by (auto simp: c)
    have "ov_json_is_object (Some w')" using that(2)
    proof
      assume "container (p @ r)"
      then show ?thesis using dom w'(1) dnode_get [of db "p @ r" "tag w'" "ov_json_is_object (Some w')"] unfolding domains_ok_def by blast
    next
      assume "entity_at OV_VOCS_DB_USER (p @ r) x"
      then show ?thesis using users w'(1) by blast
    qed
    then show ?thesis using w'(2) by simp
  qed
  consider "q = []" | "q = [''users'', u]" "container (p @ [''users''])" | x where "q = [''projects'', x, ''users'', u]" "p = [i]"
    using user_below [OF v(1) q] by blast
  then show ?thesis
  proof cases
    case 1
    then show ?thesis by (simp only: j append_Nil stripped_user)
  next
    case 2
    have "lookup (?f w) [u, ''password''] = None" if w: "lookup ?c [''users''] = Some w" for w
    proof (rule no_password_users(1) [OF tree_ok_lookup [OF ok w]])
      show "\<forall>x w'. lookup w [x] = Some w' \<longrightarrow> ov_json_is_object (Some w')"
      proof (intro allI impI)
        fix x w' assume "lookup w [x] = Some w'"
        then have "lookup ?c [''users'', x] = Some w'" using lookup_trans [OF w, of "[x]"] by simp
        with obj show "ov_json_is_object (Some w')" using container_users [OF 2(2), of x] by blast
      qed
    qed
    then show ?thesis unfolding 2(1) j append_Cons append_Nil stripped_users by (cases "lookup ?c [''users'']") simp_all
  next
    case 3
    have "lookup (?g w) [x, ''users'', u, ''password''] = None" if w: "lookup ?c [''projects''] = Some w" for w
    proof -
      have project: "lookup (fst (delete_password_in_project w')) [''users'', u, ''password''] = None \<and> snd (delete_password_in_project w')" if "lookup w [k] = Some w'" for k w'
      proof -
        from that w have k: "lookup ?c [''projects'', k] = Some w'" using lookup_trans [OF w, of "[k]"] by simp
        have c3: "container (p @ [''projects'', k, ''users''])" by (simp add: 3(2) container_def)
        have "ov_json_is_object (Some y)" if "lookup w' [''users''] = Some y" for y
          using obj [of "[''projects'', k, ''users'']" y] c3 lookup_trans [OF k, of "[''users'']"] that by simp
        moreover have "ov_json_is_object (Some y)" if "lookup w' [''users'', z] = Some y" for y z
          using obj [of "[''projects'', k, ''users'', z]" y z] lookup_trans [OF k, of "[''users'', z]"] that by (simp add: 3(2))
        ultimately show ?thesis using no_password_project [OF tree_ok_lookup [OF ok k]] by blast
      qed
      have "lookup (?g w) (x # [''users'', u, ''password'']) = Option.bind (lookup w [x]) (\<lambda>w'. lookup (fst (delete_password_in_project w')) [''users'', u, ''password''])"
        by (rule lookup_modify [OF _ tree_ok_lookup [OF ok w]]) (use project in blast)
      then show ?thesis using project by (cases "lookup w [x]") (simp_all del: lookup.simps)
    qed
    then show ?thesis unfolding 3(1) j append_Cons append_Nil stripped_users by (cases "lookup ?c [''projects'']") simp_all
  qed
qed

theorem vocs_db_get_entity_no_password_witness:
  "\<exists>j. ov_vocs_db_get_entity imported_db True OV_VOCS_DB_DOMAIN ''d'' = Some (Some j) \<and> lookup j [''users'', ''u'', ''password''] = None \<and>
    dom_get imported_db [''d'', ''users'', ''u'', ''password''] \<noteq> None"
proof -
  have "ov_vocs_db_get_entity imported_db True OV_VOCS_DB_DOMAIN ''d'' = Some (Some (the (the (ov_vocs_db_get_entity imported_db True OV_VOCS_DB_DOMAIN ''d''))))"
    by code_simp
  moreover have i: "index_get (get_index_dict imported_db OV_VOCS_DB_DOMAIN) (Some ''d'') = Some ([''d''], 0)" by code_simp
  moreover have "dom_get imported_db [''d'', ''users'', ''u'', ''password''] \<noteq> None" by code_simp
  moreover have "ov_json_is_object (Some v)" if e: "entity_at OV_VOCS_DB_USER q u" "dom_get imported_db q = Some v" for q u v
  proof -
    have data: "data_domains imported_db = Some (ov_json_value_copy 0 example_data)" by code_simp
    then obtain w where w: "lookup example_data q = Some w" "v = ov_json_value_copy 0 w" using e(2) by (auto simp: dom_get_def lookup_copy)
    with example_entities [OF e(1)] have "q = [''d'', ''users'', ''u''] \<or> q = [''d'', ''users'', ''v'']" by auto
    then show ?thesis using w by (auto simp: example_data_def)
  qed
  ultimately show ?thesis using vocs_db_get_entity_no_password [OF imported_reach _ i, of True _ "[''users'', ''u'']" "''u''"] by force
qed

text \<open>
  A single member of an entity is returned as it is, unless it is the member \<open>password\<close> itself: the users of a domain come with their passwords.
\<close>

theorem vocs_db_get_entity_key_password:
  "\<exists>j. ov_vocs_db_get_entity_key imported_db True OV_VOCS_DB_DOMAIN ''d'' ''users'' = Some (Some j) \<and>
    lookup j [''u'', ''password''] = Some (JString () (Some ''secret''))"
proof -
  let ?j = "the (the (ov_vocs_db_get_entity_key imported_db True OV_VOCS_DB_DOMAIN ''d'' ''users''))"
  have "ov_vocs_db_get_entity_key imported_db True OV_VOCS_DB_DOMAIN ''d'' ''users'' = Some (Some ?j)"
    "lookup ?j [''u'', ''password''] = Some (JString () (Some ''secret''))" by code_simp+
  then show ?thesis by blast
qed

text \<open>
  C17: If the test of a password accepts the hash that was made of it, a user is authenticated with the password that was set last, and the
  passwords of all other users stay valid or invalid as they were.
\<close>

theorem vocs_db_password_roundtrip:
  assumes reach: "vocs_db_reach db" and set: "ov_vocs_db_set_password password_hash db lk u pass = Some (db', True)"
    and hash: "\<forall>x. password_hash pass = Some x \<longrightarrow> tree_ok x \<and> password_is_valid pass (Some x)"
  shows "ov_vocs_db_authenticate password_is_valid db' True u pass = Some True \<and>
    (\<forall>u' pass'. u' \<noteq> u \<longrightarrow> ov_vocs_db_authenticate password_is_valid db' True u' pass' = ov_vocs_db_authenticate password_is_valid db True u' pass')"
proof -
  from set obtain p v x where p: "index_get (Some (index_users db)) (Some u) = Some p" and v: "deref db p = Some v" and x: "password_hash pass = Some x"
    and dset: "dom_set (fst p) ''password'' (ov_json_value_copy (next_tag db) x) (db\<lparr>next_tag := Suc (next_tag db)\<rparr>) = (db', True)"
    by (auto simp: ov_vocs_db_set_password_def bind_eq_Some_conv split: option.splits if_splits)
  have inv: "vocs_db_inv db" by (rule vocs_db_reach_inv [OF reach])
  have dom: "domains_ok (db\<lparr>next_tag := Suc (next_tag db)\<rparr>)" using inv_tag [OF inv] by (simp add: vocs_db_inv_def)
  have same: "get_index_dict db' = get_index_dict db" using set_password_inv [OF inv, of password_hash pass lk u] hash set by auto
  have reach': "vocs_db_reach db'" by (rule reach_set_password [OF reach _ set]) (use hash in blast)
  have i: "index_get (Some (index_users db')) u' = index_get (Some (index_users db)) u'" for u'
    using fun_cong [OF same, of OV_VOCS_DB_USER] by simp
  have u: "entity_at OV_VOCS_DB_USER (fst p) u" using index_entity(1) [OF reach, of OV_VOCS_DB_USER u p] p by simp
  note get = dom_set_get [OF dom dset]
  obtain w where w: "deref db' p = Some w" "dom_get db' (fst p) = Some w" using index_entity(2) [OF reach', of OV_VOCS_DB_USER u p] p i by auto
  have "ov_json_object_get (Some w) (Some ''password'') = Some (ov_json_value_copy (next_tag db) x)"
    using get(1) dom_get_under [of db' "fst p" "''password''"] w(2) by simp
  then have "ov_vocs_db_authenticate password_is_valid db' True u pass = Some True"
    using p i w hash x by (simp add: ov_vocs_db_authenticate_def copy_copy)
  moreover have "ov_vocs_db_authenticate password_is_valid db' True u' pass' = ov_vocs_db_authenticate password_is_valid db True u' pass'" if "u' \<noteq> u" for u' pass'
  proof (cases "index_get (Some (index_users db)) (Some u')")
    case None
    then show ?thesis using i by (simp add: ov_vocs_db_authenticate_def)
  next
    case (Some q)
    have q: "entity_at OV_VOCS_DB_USER (fst q) u'" using index_entity(1) [OF reach, of OV_VOCS_DB_USER u' q] Some by simp
    have "fst q \<noteq> fst p" using entity_at_inj [OF u, of OV_VOCS_DB_USER u'] q that by metis
    then have "\<not> prefix (fst p) (fst q)" "\<not> prefix (fst q) (fst p)"
      using leaf_entity [OF u _ _ q] leaf_entity [OF q _ _ u] by auto
    moreover from this(1) have "\<not> prefix (fst p @ [''password'']) (fst q)" by (auto simp: prefix_def)
    ultimately have "dom_get db' (fst q) = dom_get (db\<lparr>next_tag := Suc (next_tag db)\<rparr>) (fst q)" by (intro get(2))
    then have "dom_get db' (fst q) = dom_get db (fst q)" by (simp add: dom_get_def)
    then show ?thesis using Some i index_entity(2) [OF reach', of OV_VOCS_DB_USER u' q] index_entity(2) [OF reach, of OV_VOCS_DB_USER u' q]
      by (auto simp: ov_vocs_db_authenticate_def)
  qed
  ultimately show ?thesis by blast
qed

text \<open>A hash that is the password itself, as an instance of the parameters.\<close>

definition plain_hash :: "string \<Rightarrow> unit json option" where
  "plain_hash pass = Some (JString () (Some pass))"

definition plain_valid :: "string \<Rightarrow> unit json option \<Rightarrow> bool" where
  "plain_valid pass x \<longleftrightarrow> ov_json_string_get x = Some pass"

theorem vocs_db_password_roundtrip_witness:
  "ov_vocs_db_authenticate plain_valid (fst (the (ov_vocs_db_set_password plain_hash example_db True ''u'' ''pw''))) True ''u'' ''pw'' = Some True"
proof -
  have "ov_vocs_db_set_password plain_hash example_db True ''u'' ''pw'' = Some (fst (the (ov_vocs_db_set_password plain_hash example_db True ''u'' ''pw'')), True)"
    by code_simp
  from vocs_db_password_roundtrip [OF example_reach this, of plain_valid] show ?thesis by (simp add: plain_hash_def plain_valid_def tree_ok_leaf)
qed

subsection \<open>Import and export\<close>

text \<open>
  C20: Data with containers that are objects and without double ids is imported, whatever was in the database before, and exported
  as it was; the same holds for any state.
\<close>

theorem vocs_db_inject_eject:
  assumes "vocs_db_reach db" "dataset_ok x"
  shows "\<exists>db'. ov_vocs_db_inject db True OV_VOCS_DB_TYPE_AUTH x = (db', True) \<and> ov_vocs_db_eject db' True OV_VOCS_DB_TYPE_AUTH = Some x \<and>
    (\<exists>db''. ov_vocs_db_inject db' True OV_VOCS_DB_TYPE_STATE y = (db'', True) \<and> ov_vocs_db_eject db'' True OV_VOCS_DB_TYPE_STATE = Some y \<and>
      ov_vocs_db_eject db'' True OV_VOCS_DB_TYPE_AUTH = Some x)"
proof -
  obtain db' ok where i: "inject_auth db True x = (db', ok)" by fastforce
  from inject_auth_inv(2,3) [OF assms(2) vocs_db_reach_inv [OF assms(1)], of True] i have
    "ok" "data_domains db' = Some (ov_json_value_copy (next_tag db) x)" by simp_all
  then show ?thesis using i by (auto simp: ov_vocs_db_eject_def inject_state_def copy_copy)
qed

theorem vocs_db_inject_eject_witness:
  "\<exists>db'. ov_vocs_db_inject example_db True OV_VOCS_DB_TYPE_AUTH example_data = (db', True) \<and> ov_vocs_db_eject db' True OV_VOCS_DB_TYPE_AUTH = Some example_data"
  using vocs_db_inject_eject [OF example_reach example_data_ok] by blast

subsection \<open>State of the users\<close>

lemma permission_roundtrip: "ov_vocs_permission_from_string (Some (ov_vocs_permission_to_string p)) = p"
  by (cases p) (simp_all add: ov_vocs_permission_from_string_def)

definition sget :: "ov_vocs_db \<Rightarrow> path \<Rightarrow> nat json option" where
  "sget db q = Option.bind (data_state db) (\<lambda>v. lookup v q)"

definition state_ok :: "ov_vocs_db \<Rightarrow> bool" where
  "state_ok db \<longleftrightarrow> (\<forall>v. data_state db = Some v \<longrightarrow> tree_ok v)"

lemma get_loop_settings_path: "get_loop_settings db u r l = sget db [u, r, l]"
  by (cases "data_state db") (auto simp: get_loop_settings_def sget_def split: option.splits)

lemma sget_under: "sget db (p @ [k]) = ov_json_object_get (sget db p) (Some k)"
  by (cases "data_state db") (auto simp: sget_def lookup_under)

lemma state_ensure_get:
  assumes ok: "state_ok db" and e: "state_ensure k (db, Some p) = (db', r)"
  shows "state_ok db'" "\<not> prefix q (p @ [k]) \<Longrightarrow> sget db' q = sget db q" "r = Some p' \<Longrightarrow> p' = p @ [k]"
proof -
  have "state_ok db' \<and> (\<not> prefix q (p @ [k]) \<longrightarrow> sget db' q = sget db q)"
  proof (cases "db' = db")
    case False
    then obtain v where v: "data_state db = Some v" "ov_json_object_get (lookup v p) (Some k) = None" "object_at v p"
      "db' = db\<lparr>data_state := Some (set_at p k (JObject (next_tag db) []) v), next_tag := Suc (next_tag db)\<rparr>"
      using e by (auto simp: state_ensure_def split: option.splits if_splits)
    have t: "tree_ok v" using ok v(1) by (simp add: state_ok_def)
    have "lookup (set_at p k (JObject (next_tag db) []) v) q = lookup v q" if q: "\<not> prefix q (p @ [k])"
    proof (cases "prefix (p @ [k]) q")
      case True
      then obtain s where s: "q = p @ k # s" by (auto elim!: prefixE)
      then have ne: "s \<noteq> []" using q by auto
      have "lookup v q = None" using v(2) lookup_append [of v "p @ [k]" s] lookup_under [of v p k] s by simp
      then show ?thesis using lookup_set_at(1) [OF t v(3) True] s ne by (cases s) auto
    next
      case False
      then show ?thesis using lookup_set_at(2) [OF t v(3) False] q by auto
    qed
    then show ?thesis using v t tree_ok_set_at [OF t tree_ok_empty] by (auto simp: state_ok_def sget_def)
  qed (use ok in simp)
  then show "state_ok db'" "\<not> prefix q (p @ [k]) \<Longrightarrow> sget db' q = sget db q" by auto
  show "r = Some p' \<Longrightarrow> p' = p @ [k]" using e by (auto simp: state_ensure_def split: option.splits if_splits)
qed

lemma state_ensure_stays: "state_ensure k (db, None) = (db, None)"
  by (simp add: state_ensure_def)

lemma get_set_loop_get:
  assumes ok: "state_ok db" and g: "get_set_loop db u r l = (db', x)"
  shows "state_ok db'" "length q > 3 \<Longrightarrow> sget db' q = sget db q" "x = Some p \<Longrightarrow> p = [u, r, l]"
proof -
  let ?db = "if data_state db = None then db\<lparr>data_state := Some (JObject (next_tag db) []), next_tag := Suc (next_tag db)\<rparr> else db"
  have ok0: "state_ok ?db" using ok by (auto simp: state_ok_def)
  have q0: "sget ?db q = sget db q" if "length q > 3" using that by (cases q) (auto simp: sget_def)
  obtain db1 r1 where s1: "state_ensure u (?db, Some []) = (db1, r1)" by fastforce
  note e1 = state_ensure_get [OF ok0 s1]
  have np: "\<not> prefix q s" if "length q > 3" "length s \<le> 3" for s using that prefix_length_le [of q s] by linarith
  show "state_ok db'" "length q > 3 \<Longrightarrow> sget db' q = sget db q" "x = Some p \<Longrightarrow> p = [u, r, l]"
  proof -
    have "state_ok db' \<and> (length q > 3 \<longrightarrow> sget db' q = sget db q) \<and> (x = Some p \<longrightarrow> p = [u, r, l])"
    proof (cases r1)
      case None
      then show ?thesis using g s1 e1(1,2) np q0 by (auto simp: get_set_loop_def Let_def state_ensure_stays)
    next
      case (Some p1)
      then have p1: "r1 = Some [u]" using e1(3) by simp
      obtain db2 r2 where s2: "state_ensure r (db1, Some [u]) = (db2, r2)" by fastforce
      note e2 = state_ensure_get [OF e1(1) s2]
      show ?thesis
      proof (cases r2)
        case None
        then show ?thesis using g s1 s2 p1 e1(2) e2(1,2) np q0 by (auto simp: get_set_loop_def Let_def state_ensure_stays)
      next
        case (Some p2)
        then have p2: "r2 = Some [u, r]" using e2(3) by simp
        have s3: "state_ensure l (db2, Some [u, r]) = (db', x)" using g s1 s2 p1 p2 by (simp add: get_set_loop_def Let_def)
        note e3 = state_ensure_get [OF e2(1) s3]
        show ?thesis using e1(2) e2(2) e3 np q0 by auto
      qed
    qed
    then show "state_ok db'" "length q > 3 \<Longrightarrow> sget db' q = sget db q" "x = Some p \<Longrightarrow> p = [u, r, l]" by auto
  qed
qed

lemma state_set_get:
  assumes ok: "state_ok db" and s: "state_set p k x db = (db', True)"
  shows "sget db' (p @ [k]) = Some (x (next_tag db))" "\<not> prefix (p @ [k]) q \<Longrightarrow> \<not> prefix q p \<Longrightarrow> sget db' q = sget db q"
proof -
  obtain v where v: "data_state db = Some v" "object_at v p" "data_state db' = Some (set_at p k (x (next_tag db)) v)"
    using s by (auto simp: state_set_def split: option.splits if_splits)
  have t: "tree_ok v" using ok v(1) by (simp add: state_ok_def)
  show "sget db' (p @ [k]) = Some (x (next_tag db))" using lookup_set_at(1) [OF t v(2), of k "p @ [k]"] v(3) by (simp add: sget_def)
  show "\<not> prefix (p @ [k]) q \<Longrightarrow> \<not> prefix q p \<Longrightarrow> sget db' q = sget db q" using lookup_set_at(2) [OF t v(2)] v by (simp add: sget_def)
qed

lemma double_small: "n < 256 \<Longrightarrow> double_to_u8 (of_nat n) = Some (of_nat n)"
  by (simp add: double_to_u8_def)

lemma get_state_path: "ov_vocs_db_get_state db True u r l = ov_vocs_permission_from_json (sget db [u, r, l, ''state''])"
  using sget_under [of db "[u, r, l]" "''state''"]
  by (cases "sget db [u, r, l]") (auto simp: ov_vocs_db_get_state_def get_loop_settings_path ov_vocs_permission_from_json_def ov_vocs_permission_from_string_def)

lemma get_volume_path: "ov_vocs_db_get_volume db True u r l = double_to_u8 (ov_json_number_get (sget db [u, r, l, ''volume'']))"
  using sget_under [of db "[u, r, l]" "''volume''"] double_small [of 0]
  by (cases "sget db [u, r, l]") (auto simp: ov_vocs_db_get_volume_def get_loop_settings_path)

text \<open>A member of the settings of a loop is set: it is read back, and all other settings stay as they were.\<close>

lemma settings_set:
  assumes ok: "state_ok db" and g: "get_set_loop db u r l = (db1, Some p)" and s: "state_set p k x db1 = (db', True)"
  shows "sget db' [u, r, l, k] = Some (x (next_tag db1))" "[u', r', l', k'] \<noteq> [u, r, l, k] \<Longrightarrow> sget db' [u', r', l', k'] = sget db [u', r', l', k']"
proof -
  have p: "p = [u, r, l]" using get_set_loop_get(3) [OF ok g refl] .
  note set = state_set_get [OF get_set_loop_get(1) [OF ok g] s]
  show "sget db' [u, r, l, k] = Some (x (next_tag db1))" using set(1) by (simp add: p)
  show "sget db' [u', r', l', k'] = sget db [u', r', l', k']" if "[u', r', l', k'] \<noteq> [u, r, l, k]"
    using set(2) [of "[u', r', l', k']"] that get_set_loop_get(2) [OF ok g, of "[u', r', l', k']"] by (auto simp: p)
qed

text \<open>
  C21: The state of a loop for a user in a role is read back as it was set, and setting it changes neither the state of other users, roles and loops nor any volume.
\<close>

theorem vocs_db_state_roundtrip:
  assumes "\<forall>v. data_state db = Some v \<longrightarrow> tree_ok v" "ov_vocs_db_set_state db lk u r l st = (db', True)"
  shows "ov_vocs_db_get_state db' True u r l = st \<and>
    (\<forall>u' r' l'. (u', r', l') \<noteq> (u, r, l) \<longrightarrow> ov_vocs_db_get_state db' True u' r' l' = ov_vocs_db_get_state db True u' r' l') \<and>
    (\<forall>u' r' l'. ov_vocs_db_get_volume db' True u' r' l' = ov_vocs_db_get_volume db True u' r' l')"
proof -
  from assms(2) obtain db1 p where s: "get_set_loop db u r l = (db1, Some p)"
    "state_set p ''state'' (\<lambda>t. JString t (Some (ov_vocs_permission_to_string st))) db1 = (db', True)"
    by (auto simp: ov_vocs_db_set_state_def split: if_splits prod.splits option.splits)
  have "state_ok db" using assms(1) by (simp add: state_ok_def)
  note set = settings_set [OF this s]
  have "ov_vocs_db_get_state db' True u r l = st" using set(1) by (simp add: get_state_path ov_vocs_permission_from_json_def permission_roundtrip)
  moreover have "ov_vocs_db_get_state db' True u' r' l' = ov_vocs_db_get_state db True u' r' l'" if "(u', r', l') \<noteq> (u, r, l)" for u' r' l'
    using set(2) [of u' r' l' "''state''"] that by (simp add: get_state_path)
  moreover have "ov_vocs_db_get_volume db' True u' r' l' = ov_vocs_db_get_volume db True u' r' l'" for u' r' l'
    using set(2) [of u' r' l' "''volume''"] by (simp add: get_volume_path)
  ultimately show ?thesis by blast
qed

theorem vocs_db_state_roundtrip_witness:
  "ov_vocs_db_get_state (fst (ov_vocs_db_set_state example_db True ''u'' ''r'' ''l'' OV_VOCS_SEND)) True ''u'' ''r'' ''l'' = OV_VOCS_SEND"
proof -
  have "data_state example_db = None" "ov_vocs_db_set_state example_db True ''u'' ''r'' ''l'' OV_VOCS_SEND = (fst (ov_vocs_db_set_state example_db True ''u'' ''r'' ''l'' OV_VOCS_SEND), True)"
    by code_simp+
  with vocs_db_state_roundtrip [OF _ this(2)] show ?thesis by simp
qed

text \<open>
  C22: A volume of up to 100 is read back as it was set, although it is stored as a double, without a change to other volumes and any state; a larger volume is rejected and changes nothing.
\<close>

theorem vocs_db_volume_roundtrip:
  assumes "\<forall>v. data_state db = Some v \<longrightarrow> tree_ok v" "ov_vocs_db_set_volume db lk u r l vol = (db', ok)"
  shows "(vol > 100 \<longrightarrow> db' = db \<and> \<not> ok) \<and>
    (ok \<longrightarrow> vol \<le> 100 \<and> ov_vocs_db_get_volume db' True u r l = Some vol \<and>
      (\<forall>u' r' l'. (u', r', l') \<noteq> (u, r, l) \<longrightarrow> ov_vocs_db_get_volume db' True u' r' l' = ov_vocs_db_get_volume db True u' r' l') \<and>
      (\<forall>u' r' l'. ov_vocs_db_get_state db' True u' r' l' = ov_vocs_db_get_state db True u' r' l'))"
proof (intro conjI impI)
  show "db' = db" "\<not> ok" if "vol > 100" using assms(2) that by (auto simp: ov_vocs_db_set_volume_def)
  assume ok
  with assms(2) obtain db1 p where s: "get_set_loop db u r l = (db1, Some p)"
    "state_set p ''volume'' (\<lambda>t. JNumber t (of_nat (unat vol))) db1 = (db', True)"
    by (auto simp: ov_vocs_db_set_volume_def split: if_splits prod.splits option.splits)
  show "vol \<le> 100" using assms(2) \<open>ok\<close> by (auto simp: ov_vocs_db_set_volume_def split: if_splits)
  have "state_ok db" using assms(1) by (simp add: state_ok_def)
  note set = settings_set [OF this s]
  have "unat vol < 256" using unsigned_less [of vol] by simp
  from double_small [OF this] have "double_to_u8 (unsigned vol) = Some vol" by simp
  then show "ov_vocs_db_get_volume db' True u r l = Some vol" using set(1) by (simp add: get_volume_path)
  show "\<forall>u' r' l'. (u', r', l') \<noteq> (u, r, l) \<longrightarrow> ov_vocs_db_get_volume db' True u' r' l' = ov_vocs_db_get_volume db True u' r' l'"
    using set(2) [of _ _ _ "''volume''"] by (simp add: get_volume_path)
  show "\<forall>u' r' l'. ov_vocs_db_get_state db' True u' r' l' = ov_vocs_db_get_state db True u' r' l'"
    using set(2) [of _ _ _ "''state''"] by (simp add: get_state_path)
qed

theorem vocs_db_volume_roundtrip_witness:
  "ov_vocs_db_get_volume (fst (ov_vocs_db_set_volume example_db True ''u'' ''r'' ''l'' 100)) True ''u'' ''r'' ''l'' = Some 100 \<and>
   ov_vocs_db_set_volume example_db True ''u'' ''r'' ''l'' 101 = (example_db, False)"
proof -
  have none: "data_state example_db = None" and ok: "snd (ov_vocs_db_set_volume example_db True ''u'' ''r'' ''l'' 100)" by code_simp+
  from none have t: "\<forall>v. data_state example_db = Some v \<longrightarrow> tree_ok v" by simp
  show ?thesis using vocs_db_volume_roundtrip [OF t, of True "''u''" "''r''" "''l''" 100] vocs_db_volume_roundtrip [OF t, of True "''u''" "''r''" "''l''" 101] ok
    by (auto simp: prod_eq_iff)
qed

end
