(* ===== verification/Ov_Vocs_Db_Access.thy ===== *)
theory Ov_Vocs_Db_Access
  imports Ov_Vocs_Db_Props
begin

text \<open>
  Administrators, revoked users, passwords, the state of the users, and import and export of the vocs database.
\<close>

subsection \<open>Revoked users\<close>

lemma role_user_path: "entity_at OV_VOCS_DB_ROLE p r \<Longrightarrow> p @ [''users'', u] \<noteq> [] \<and> \<not> container (p @ [''users'', u]) \<and>
  (entity_at OV_VOCS_DB_USER q i \<longrightarrow> \<not> prefix q (p @ [''users'', u]))"
  by (auto simp: container_def)

text \<open>
  C9: A user that is deleted and then created anew is not authorized for any role: deletion leaves no trace of the user in a role
  that can be authorized.
\<close>

theorem vocs_db_recreated_user:
  assumes reach: "vocs_db_reach db" and del: "ov_vocs_db_delete_entity db True OV_VOCS_DB_USER u = Some (db1, True)"
    and create: "ov_vocs_db_create_entity db1 True OV_VOCS_DB_USER u scope sid = Some (db2, True)"
  shows "ov_vocs_db_authorize db2 True u r = Some False"
proof -
  note reach1 = reach_delete [OF reach del]
  have reach2: "vocs_db_reach db2" by (rule reach_create [OF reach1 _ create]) simp
  have inv: "vocs_db_inv db" by (rule vocs_db_reach_inv [OF reach])
  from db_delete_inv [OF inv, of u OV_VOCS_DB_USER] obtain dbx where dbx: "db_delete db u OV_VOCS_DB_USER = Some (dbx, True)" "vocs_db_inv dbx" by blast
  with del have loop: "index_for_each (delete_in_parent ''users'' u) (index_roles dbx) dbx = Some (db1, True)"
    by (auto simp: ov_vocs_db_delete_entity_def delete_user_in_parent_def bind_eq_Some_conv)
  from delete_entity_inv [OF inv, of True OV_VOCS_DB_USER u] del dbx(1) have same: "get_index_dict db1 = get_index_dict dbx" by auto
  have roles: "\<forall>e \<in> set (index_roles dbx). idx dbx OV_VOCS_DB_ROLE (fst e) = Some (snd e)" by (rule index_entries [OF dbx(2)]) simp
  from create_entity_created [OF vocs_db_reach_inv [OF reach1] create] obtain p where new: "created db1 OV_VOCS_DB_USER u db2 p"
    by (auto simp: admin_role_def)
  show ?thesis
  proof (cases "index_get (Some (index_roles db2)) (Some r)")
    case None
    then show ?thesis by (simp add: ov_vocs_db_authorize_def)
  next
    case (Some q)
    have "idx db2 OV_VOCS_DB_ROLE r = idx db1 OV_VOCS_DB_ROLE r" using new by (simp add: created_def)
    then have "(r, q) \<in> set (index_roles dbx)" using Some idx_cong [OF same] by (auto simp: idx_def index_get_def dest: map_of_SomeD)
    then have none: "dnode db1 (fst q @ [''users'', u]) = None" using delete_users_loop(1) [OF dbx(2) roles loop] by auto
    from index_entity [OF reach2, of OV_VOCS_DB_ROLE r q] Some obtain v where
      q: "entity_at OV_VOCS_DB_ROLE (fst q) r" "deref db2 q = Some v" "dom_get db2 (fst q) = Some v" by auto
    have "dnode db2 (fst q @ [''users'', u]) = None"
      using new none role_user_path [OF q(1), of u p u] unfolding created_def by metis
    then show ?thesis using Some q get_get [OF q(3), of "''users''" u] by (simp add: ov_vocs_db_authorize_def dnode_None)
  qed
qed

definition deleted_db :: ov_vocs_db where
  "deleted_db = fst (the (ov_vocs_db_delete_entity imported_db True OV_VOCS_DB_USER ''u''))"

theorem vocs_db_recreated_user_witness:
  "ov_vocs_db_authorize imported_db True ''u'' ''r'' = Some True \<and>
   ov_vocs_db_authorize (new_entity OV_VOCS_DB_USER ''u'' OV_VOCS_DB_SCOPE_PROJECT ''p'' deleted_db) True ''u'' ''r'' = Some False"
proof -
  have "ov_vocs_db_authorize imported_db True ''u'' ''r'' = Some True" by code_simp
  moreover have "ov_vocs_db_delete_entity imported_db True OV_VOCS_DB_USER ''u'' = Some (deleted_db, True)" by code_simp
  moreover have "ov_vocs_db_create_entity deleted_db True OV_VOCS_DB_USER ''u'' OV_VOCS_DB_SCOPE_PROJECT (Some ''p'') =
    Some (new_entity OV_VOCS_DB_USER ''u'' OV_VOCS_DB_SCOPE_PROJECT ''p'' deleted_db, True)" by code_simp
  ultimately show ?thesis using vocs_db_recreated_user [OF imported_reach] by blast
qed

text \<open>
  Roles with the name admin are not in the index, and deletion does not look for the user there: a user who is created with the id of a deleted administrator
  is administrator.
\<close>

theorem vocs_db_recreated_admin:
  "\<exists>db1 db2. ov_vocs_db_delete_entity (fst (the (ov_vocs_db_add_domain_admin example_db True ''d'' ''u''))) True OV_VOCS_DB_USER ''u'' = Some (db1, True) \<and>
    ov_vocs_db_create_entity db1 True OV_VOCS_DB_USER ''u'' OV_VOCS_DB_SCOPE_PROJECT (Some ''p'') = Some (db2, True) \<and>
    ov_vocs_db_authorize_domain_admin db2 True ''u'' ''d'' = Some True"
proof -
  let ?a = "fst (the (ov_vocs_db_add_domain_admin example_db True ''d'' ''u''))"
  let ?b = "fst (the (ov_vocs_db_delete_entity ?a True OV_VOCS_DB_USER ''u''))"
  let ?c = "fst (the (ov_vocs_db_create_entity ?b True OV_VOCS_DB_USER ''u'' OV_VOCS_DB_SCOPE_PROJECT (Some ''p'')))"
  have "ov_vocs_db_delete_entity ?a True OV_VOCS_DB_USER ''u'' = Some (?b, True)" by code_simp
  moreover have "ov_vocs_db_create_entity ?b True OV_VOCS_DB_USER ''u'' OV_VOCS_DB_SCOPE_PROJECT (Some ''p'') = Some (?c, True)" by code_simp
  moreover have "ov_vocs_db_authorize_domain_admin ?c True ''u'' ''d'' = Some True" by code_simp
  ultimately show ?thesis by blast
qed

subsection \<open>Administrators\<close>



text \<open>The steps of adding an administrator succeed on objects.\<close>

lemma get_create_object:
  assumes dom: "domains_ok db" and p: "dnode db p = Some (t, True)" and old: "\<forall>t b. dnode db (p @ [key]) = Some (t, b) \<longrightarrow> b"
  shows "\<exists>db'. get_create_parent p key db = (db', Some (p @ [key])) \<and> domains_ok db' \<and> get_index_dict db' = get_index_dict db \<and>
    (\<exists>t. dnode db' (p @ [key]) = Some (t, True)) \<and> (\<forall>q. q \<noteq> p @ [key] \<longrightarrow> dnode db' q = dnode db q)"
proof (cases "dnode db (p @ [key])")
  case None
  let ?db = "db\<lparr>next_tag := Suc (next_tag db)\<rparr>"
  have dom': "domains_ok ?db" using dom by (auto simp: domains_ok_def)
  obtain db' ok where set: "dom_set p key (JObject (next_tag db) []) ?db = (db', ok)" by fastforce
  note n = dom_set_dnode [OF dom' set tree_ok_empty]
  have ok: ok using n(4) p by simp
  have new: "dnode db' q = (if q = p @ [key] then Some (next_tag db, True) else dnode db q)" for q
    using n(6) [OF ok, of q] dnode_prefix [of "p @ [key]" q db] None by (auto elim!: prefixE)
  have "domains_ok db'" using dom n(7) [OF ok] new by (auto simp: domains_ok_def)
  moreover have "get_create_parent p key db = (db', Some (p @ [key]))"
    using set ok None dnode_under [of db p key] by (auto simp: get_create_parent_def)
  ultimately show ?thesis using new n(1) by (auto simp: fun_eq_iff)
next
  case (Some n)
  then have "get_create_parent p key db = (db, Some (p @ [key]))" using dnode_under [of db p key] by (auto simp: get_create_parent_def)
  then show ?thesis using Some old dom by (cases n) auto
qed

lemma add_admin_nodes:
  assumes dom: "domains_ok db" and p: "dnode db p = Some (t, True)" "container (p @ [''roles''])"
    and obj: "\<forall>t b. dnode db (p @ [''roles'', ''admin'']) = Some (t, b) \<longrightarrow> b"
      "\<forall>t b. dnode db (p @ [''roles'', ''admin'', ''users'']) = Some (t, b) \<longrightarrow> b"
  shows "\<exists>db'. add_admin p u db = (db', True) \<and> get_index_dict db' = get_index_dict db \<and> dnode db' (p @ [''roles'', ''admin'', ''users'', u]) \<noteq> None"
proof -
  have "\<forall>t b. dnode db (p @ [''roles'']) = Some (t, b) \<longrightarrow> b" using dom p(2) by (auto simp: domains_ok_def)
  from get_create_object [OF dom p(1) this] obtain db1 t1 where
    s1: "get_create_parent p ''roles'' db = (db1, Some (p @ [''roles'']))" "domains_ok db1" "get_index_dict db1 = get_index_dict db"
      "dnode db1 (p @ [''roles'']) = Some (t1, True)" "\<And>q. q \<noteq> p @ [''roles''] \<Longrightarrow> dnode db1 q = dnode db q" by blast
  have "\<forall>t b. dnode db1 ((p @ [''roles'']) @ [''admin'']) = Some (t, b) \<longrightarrow> b" using s1(5) [of "p @ [''roles'', ''admin'']"] obj(1) by simp
  from get_create_object [OF s1(2,4) this] obtain db2 t2 where
    s2: "get_create_parent (p @ [''roles'']) ''admin'' db1 = (db2, Some ((p @ [''roles'']) @ [''admin'']))" "domains_ok db2" "get_index_dict db2 = get_index_dict db1"
      "dnode db2 ((p @ [''roles'']) @ [''admin'']) = Some (t2, True)" "\<And>q. q \<noteq> (p @ [''roles'']) @ [''admin''] \<Longrightarrow> dnode db2 q = dnode db1 q" by blast
  have "\<forall>t b. dnode db2 (((p @ [''roles'']) @ [''admin'']) @ [''users'']) = Some (t, b) \<longrightarrow> b"
    using s2(5) [of "p @ [''roles'', ''admin'', ''users'']"] s1(5) [of "p @ [''roles'', ''admin'', ''users'']"] obj(2) by simp
  from get_create_object [OF s2(2,4) this] obtain db3 t3 where
    s3: "get_create_parent ((p @ [''roles'']) @ [''admin'']) ''users'' db2 = (db3, Some (p @ [''roles'', ''admin'', ''users'']))" "domains_ok db3"
      "get_index_dict db3 = get_index_dict db2" "dnode db3 (p @ [''roles'', ''admin'', ''users'']) = Some (t3, True)" by auto
  let ?db = "db3\<lparr>next_tag := Suc (next_tag db3)\<rparr>"
  have dom': "domains_ok ?db" using s3(2) by (auto simp: domains_ok_def)
  have x: "tree_ok (JNull (next_tag db3))" by (simp add: tree_ok_leaf)
  obtain db' ok where set: "dom_set (p @ [''roles'', ''admin'', ''users'']) u (JNull (next_tag db3)) ?db = (db', ok)" by fastforce
  note n = dom_set_dnode [OF dom' set x]
  have ok: ok using n(4) s3(4) by simp
  have "dnode db' (p @ [''roles'', ''admin'', ''users'', u]) \<noteq> None" using n(6) [OF ok, of "p @ [''roles'', ''admin'', ''users'', u]"] by (simp add: node_def)
  moreover have "get_index_dict db' = get_index_dict db" using n(1) s1(3) s2(3) s3(3) by (auto simp: fun_eq_iff)
  moreover have "add_admin p u db = (db', True)" using s1(1) s2(1) s3(1) set ok by (simp add: add_admin_def ensure_member_def)
  ultimately show ?thesis by blast
qed

text \<open>
  C19: If a domain is an object, and so are its role for administrators and the users of that role where they exist, adding an administrator to the domain has the
  effect that the user is authorized as administrator of the domain, whether or not there was such a role. (For a domain that is not an object true is returned, and nothing is stored.)
\<close>

theorem vocs_db_add_domain_admin:
  assumes reach: "vocs_db_reach db" and d: "ov_json_is_object (dom_get db [d])"
    and obj: "\<forall>p \<in> {[d, ''roles'', ''admin''], [d, ''roles'', ''admin'', ''users'']}. dom_get db p \<noteq> None \<longrightarrow> ov_json_is_object (dom_get db p)"
  shows "\<exists>db'. ov_vocs_db_add_domain_admin db True d u = Some (db', True) \<and> ov_vocs_db_authorize_domain_admin db' True u d = Some True"
proof -
  from d obtain v where v: "dom_get db [d] = Some v" by (cases "dom_get db [d]") auto
  have dom: "domains_ok db" using vocs_db_reach_inv [OF reach] by (simp add: vocs_db_inv_def)
  have n: "dnode db [d] = Some (tag v, True)" using v d by (simp add: dnode_get)
  have o1: "\<forall>t b. dnode db ([d] @ [''roles'', ''admin'']) = Some (t, b) \<longrightarrow> b" using obj by (auto simp: dnode_get)
  have o2: "\<forall>t b. dnode db ([d] @ [''roles'', ''admin'', ''users'']) = Some (t, b) \<longrightarrow> b" using obj by (auto simp: dnode_get)
  have "container ([d] @ [''roles''])" by (simp add: container_def)
  from add_admin_nodes [OF dom n this o1 o2, of u] obtain db' where
    db': "add_admin [d] u db = (db', True)" "get_index_dict db' = get_index_dict db" "dnode db' ([d] @ [''roles'', ''admin'', ''users'', u]) \<noteq> None" by blast
  have "\<not> admin_role OV_VOCS_DB_DOMAIN d" "entity_at OV_VOCS_DB_DOMAIN [d] d" by (auto simp: admin_role_def)
  note f = find_entity [OF reach this(2,1) v]
  have add: "ov_vocs_db_add_domain_admin db True d u = Some (db', True)" using f db'(1) by (simp add: ov_vocs_db_add_domain_admin_def)
  note reach' = reach_domain_admin [OF reach add]
  have i: "index_get (get_index_dict db' OV_VOCS_DB_DOMAIN) (Some d) = Some ([d], tag v)" using f(1) db'(2) by simp
  from index_entity(2) [OF reach' i] obtain w where w: "deref db' ([d], tag v) = Some w" "dom_get db' [d] = Some w" by auto
  have "ov_vocs_json_is_admin_user (Some w) u"
    using db'(3) get_get [OF w(2), of "''roles''" "''admin''"] dom_get_under [of db' "[d, ''roles'', ''admin'']" "''users''"]
      dom_get_under [of db' "[d, ''roles'', ''admin'', ''users'']" u] unfolding dnode_None ov_vocs_json_is_admin_user_def Let_def by simp
  then show ?thesis using add i w by (auto simp: ov_vocs_db_authorize_domain_admin_def authorize_domain_admin_def)
qed

theorem vocs_db_add_domain_admin_witness:
  "\<exists>db'. ov_vocs_db_add_domain_admin example_db True ''d'' ''u'' = Some (db', True) \<and> ov_vocs_db_authorize_domain_admin db' True ''u'' ''d'' = Some True"
proof -
  have "ov_json_is_object (dom_get example_db [''d''])" "dom_get example_db [''d'', ''roles'', ''admin''] = None" by code_simp+
  moreover have "dom_get example_db [''d'', ''roles'', ''admin'', ''users''] = None" by code_simp
  ultimately show ?thesis by (intro vocs_db_add_domain_admin [OF example_reach]) simp_all
qed

text \<open>
  Import puts the roles with the name admin into the index. Creating such a role again replaces the old one in the tree, which is freed, but leaves the index
  as it is: the next authorization for the role follows the dangling pointer.
\<close>

definition admin_data :: "unit json" where
  "admin_data = JObject () [(''d'', JObject ()
    [(''id'', JString () (Some ''d'')),
     (''users'', JObject () [(''u'', JObject () [])]),
     (''roles'', JObject () [(''admin'', JObject () [(''users'', JObject () [(''u'', JNull ())])])])])]"

theorem vocs_db_admin_dangling:
  "\<exists>db db'. ov_vocs_db_inject ov_vocs_db_create True OV_VOCS_DB_TYPE_AUTH admin_data = (db, True) \<and>
    ov_vocs_db_authorize db True ''u'' ''admin'' = Some True \<and>
    ov_vocs_db_create_entity db True OV_VOCS_DB_ROLE ''admin'' OV_VOCS_DB_SCOPE_DOMAIN (Some ''d'') = Some (db', True) \<and>
    ov_vocs_db_authorize db' True ''u'' ''admin'' = None"
proof -
  let ?a = "fst (ov_vocs_db_inject ov_vocs_db_create True OV_VOCS_DB_TYPE_AUTH admin_data)"
  let ?b = "fst (the (ov_vocs_db_create_entity ?a True OV_VOCS_DB_ROLE ''admin'' OV_VOCS_DB_SCOPE_DOMAIN (Some ''d'')))"
  have "ov_vocs_db_inject ov_vocs_db_create True OV_VOCS_DB_TYPE_AUTH admin_data = (?a, True)" by code_simp
  moreover have "ov_vocs_db_authorize ?a True ''u'' ''admin'' = Some True" by code_simp
  moreover have "ov_vocs_db_create_entity ?a True OV_VOCS_DB_ROLE ''admin'' OV_VOCS_DB_SCOPE_DOMAIN (Some ''d'') = Some (?b, True)" by code_simp
  moreover have "ov_vocs_db_authorize ?b True ''u'' ''admin'' = None" by code_simp
  ultimately show ?thesis by blast
qed

end
