(* ===== verification/Ov_Vocs_Db_Change.thy ===== *)
theory Ov_Vocs_Db_Change
  imports Ov_Vocs_Db_Access
begin

text \<open>
  What updates promise: what was set is read back, and users that stay keep their data. What happens when the conditions on callers, under which a database
  counts as reachable, are not kept.
\<close>

subsection \<open>Values after a change\<close>

lemma dom_del_get:
  assumes del: "dom_del p k db = (db', True)"
  shows "prefix (p @ [k]) q \<Longrightarrow> dom_get db' q = None" "\<not> prefix (p @ [k]) q \<Longrightarrow> \<not> prefix q p \<Longrightarrow> dom_get db' q = dom_get db q"
proof -
  obtain v where v: "data_domains db = Some v" "object_at v p" "db' = db\<lparr>data_domains := Some (del_at p k v)\<rparr>"
    using del by (auto simp: dom_del_def split: option.splits if_splits)
  show "dom_get db' q = None" if "prefix (p @ [k]) q" using lookup_del_at(1) [OF that v(2)] v(3) by (simp add: dom_get_def)
  show "dom_get db' q = dom_get db q" if "\<not> prefix (p @ [k]) q" "\<not> prefix q p"
    using lookup_del_at(2) [OF that] v by (simp add: dom_get_def)
qed

lemma reindex_keeps_tree:
  "snd (members_for_each (\<lambda>k v db. (change_index K (f k v) db, True)) es db) \<and>
   data_domains (fst (members_for_each (\<lambda>k v db. (change_index K (f k v) db, True)) es db)) = data_domains db"
  by (induction es arbitrary: db) auto

lemma dom_get_cong: "data_domains db' = data_domains db \<Longrightarrow> dom_get db' = dom_get db"
  by (simp add: dom_get_def fun_eq_iff)

lemma reindex_get:
  "\<exists>db'. ov_json_object_for_each (Some (JObject a es)) db (\<lambda>k v db. (change_index K (f k v) db, True)) = (db', True) \<and> dom_get db' = dom_get db"
  using reindex_keeps_tree [of K f es db]
  by (cases "members_for_each (\<lambda>k v db. (change_index K (f k v) db, True)) es db") (auto intro: dom_get_cong)

text \<open>The place of entities is there after \<^const>\<open>get_create_parent\<close>, if its parent is an object, and nothing else changes.\<close>

lemma get_create_parent_get:
  assumes dom: "domains_ok db" and p: "dnode db p = Some (t, True)" and g: "get_create_parent p key db = (db', r)"
  shows "r = Some (p @ [key])" "dnode db' p = Some (t, True)"
    "dom_get db' (p @ [key]) = (if dom_get db (p @ [key]) = None then Some (JObject (next_tag db) []) else dom_get db (p @ [key]))"
    "\<not> prefix (p @ [key]) q \<Longrightarrow> \<not> prefix q p \<Longrightarrow> dom_get db' q = dom_get db q"
proof -
  let ?db = "db\<lparr>next_tag := Suc (next_tag db)\<rparr>"
  have dom': "domains_ok ?db" using dom by (auto simp: domains_ok_def)
  have get: "dom_get ?db = dom_get db" by (rule dom_get_cong) simp
  have "r = Some (p @ [key]) \<and> dnode db' p = Some (t, True) \<and>
    dom_get db' (p @ [key]) = (if dom_get db (p @ [key]) = None then Some (JObject (next_tag db) []) else dom_get db (p @ [key])) \<and>
    (\<forall>q. \<not> prefix (p @ [key]) q \<longrightarrow> \<not> prefix q p \<longrightarrow> dom_get db' q = dom_get db q)"
  proof (cases "dom_get db (p @ [key])")
    case None
    then obtain ok where set: "dom_set p key (JObject (next_tag db) []) ?db = (db', ok)" "r = (if ok then Some (p @ [key]) else None)"
      using g by (auto simp: get_create_parent_def dom_get_under split: prod.splits)
    note n = dom_set_dnode [OF dom' set(1) tree_ok_empty]
    have ok: ok using n(4) p by simp
    have "dnode db' p = Some (t, True)" using n(6) [OF ok, of p] p by (simp add: prefix_def)
    moreover have "dom_get db' (p @ [key]) = Some (JObject (next_tag db) [])" using dom_set_get(1) [OF dom'] set(1) ok by simp
    moreover have "dom_get db' q = dom_get db q" if "\<not> prefix (p @ [key]) q" "\<not> prefix q p" for q
      using dom_set_get(2) [OF dom' _ that] set(1) ok get by metis
    ultimately show ?thesis using set(2) ok None by simp
  next
    case (Some v)
    then show ?thesis using g p by (auto simp: get_create_parent_def dom_get_under)
  qed
  then show "r = Some (p @ [key])" "dnode db' p = Some (t, True)"
    "dom_get db' (p @ [key]) = (if dom_get db (p @ [key]) = None then Some (JObject (next_tag db) []) else dom_get db (p @ [key]))"
    "\<not> prefix (p @ [key]) q \<Longrightarrow> \<not> prefix q p \<Longrightarrow> dom_get db' q = dom_get db q" by blast+
qed

lemma set_copy_get:
  assumes dom: "domains_ok db" and p: "dnode db p = Some (t, True)" and x: "tree_ok x"
  shows "\<exists>db'. set_copy p k x db = (db', True) \<and> dom_get db' (p @ [k]) = Some (ov_json_value_copy (next_tag db) x) \<and>
    (\<forall>q. \<not> prefix (p @ [k]) q \<longrightarrow> \<not> prefix q p \<longrightarrow> dom_get db' q = dom_get db q)"
proof -
  let ?db = "db\<lparr>next_tag := Suc (next_tag db)\<rparr>" and ?x = "ov_json_value_copy (next_tag db) x"
  have dom': "domains_ok ?db" using dom by (auto simp: domains_ok_def)
  obtain db' ok where set: "dom_set p k ?x ?db = (db', ok)" by fastforce
  have ok using dom_set_dnode(4) [OF dom' set] x p by (simp add: tree_ok_copy)
  with set have set': "dom_set p k ?x ?db = (db', True)" by simp
  from dom_set_get [OF dom' set'] have "dom_get db' (p @ [k]) = Some ?x" "\<And>q. \<not> prefix (p @ [k]) q \<Longrightarrow> \<not> prefix q p \<Longrightarrow> dom_get db' q = dom_get db q"
    by (simp_all add: dom_get_def)
  with set' show ?thesis by (auto simp: set_copy_def)
qed

lemma replace_members_get:
  assumes dom: "domains_ok db" and c: "container (p @ [key])" and p: "dnode db p = Some (t, True)" and x: "tree_ok x" "x = JObject a es"
    and f: "unindex_f = unindex_key K" "reindex_f = (\<lambda>c k v db. (change_index K (reindex c k v) db, True))"
  shows "\<exists>db' s. replace_members key unindex_f reindex_f p x db = (db', True) \<and> dom_get db' (p @ [key]) = Some (ov_json_value_copy s x) \<and>
    (\<forall>q. \<not> prefix (p @ [key]) q \<longrightarrow> \<not> prefix q p \<longrightarrow> dom_get db' q = dom_get db q)"
proof -
  let ?s = "change_index K (drop_keys (keys_at db (p @ [key]))) db"
  have dom': "domains_ok ?s" and p': "dnode ?s p = Some (t, True)" using dom p by (auto simp: domains_ok_def)
  have n: "next_tag ?s = next_tag db" "dom_get ?s = dom_get db" by (simp, rule dom_get_cong, simp)
  from set_copy_get [OF dom' p' x(1), of key] obtain db1 where
    db1: "dom_set p key (ov_json_value_copy (next_tag db) x) (?s\<lparr>next_tag := Suc (next_tag ?s)\<rparr>) = (db1, True)"
      "dom_get db1 (p @ [key]) = Some (ov_json_value_copy (next_tag db) x)"
      "\<forall>q. \<not> prefix (p @ [key]) q \<longrightarrow> \<not> prefix q p \<longrightarrow> dom_get db1 q = dom_get db q" by (auto simp: set_copy_def n)
  from reindex_get [of "next_tag db" "map (map_prod id (ov_json_value_copy (next_tag db))) es" db1 K "reindex (p @ [key])"] obtain db2 where
    db2: "ov_json_object_for_each (Some (ov_json_value_copy (next_tag db) x)) db1 (reindex_f (p @ [key])) = (db2, True)" "dom_get db2 = dom_get db1"
    by (auto simp: x(2) f(2))
  have "replace_members key unindex_f reindex_f p x db = (db2, True)"
    using db1(1) db2(1) by (simp add: replace_members_def f(1) each_unindex_get [OF dom c] Let_def)
  with db1 db2(2) show ?thesis by auto
qed

subsection \<open>What was set is read back\<close>

text \<open>The ids in a document for a place of entities: each is of a role with the name admin, or unused, or used at this place.\<close>

definition ids_free :: "ov_vocs_db \<Rightarrow> ov_vocs_db_entity \<Rightarrow> path \<Rightarrow> unit json \<Rightarrow> bool" where
  "ids_free db K c x \<longleftrightarrow> (\<forall>j. ov_json_object_get (Some x) (Some j) \<noteq> None \<longrightarrow>
    admin_role K j \<or> index_get (get_index_dict db K) (Some j) = None \<or> dom_get db (c @ [j]) \<noteq> None)"

lemma created_members:
  assumes "domains_ok db" "dnode db p = Some (t, True)" "get_create_parent p key db = (db1, r)"
  shows "dom_get db1 (p @ [key, j]) = dom_get db (p @ [key, j])"
  using get_create_parent_get(3) [OF assms] dom_get_under [of db1 "p @ [key]" j] dom_get_under [of db "p @ [key]" j] by simp

lemma ids_free_all:
  assumes free: "ids_free db K (p @ [key]) (JObject a es)" and i: "get_index_dict db1 = get_index_dict db"
    and g: "\<And>j. dom_get db1 (p @ [key, j]) = dom_get db (p @ [key, j])"
  shows "j \<in> fst ` set es \<Longrightarrow> admin_role K j \<or> idx db1 K j = None \<or> ov_json_object_get (dom_get db1 (p @ [key])) (Some j) \<noteq> None"
proof -
  assume "j \<in> fst ` set es"
  then have "map_of es j \<noteq> None" by (simp add: map_of_eq_None_iff)
  with free have "admin_role K j \<or> index_get (get_index_dict db K) (Some j) = None \<or> dom_get db (p @ [key, j]) \<noteq> None" by (simp add: ids_free_def)
  then show ?thesis using g [of j] dom_get_under [of db1 "p @ [key]" j] by (simp add: idx_def i)
qed

lemma update_roles_get:
  assumes inv: "vocs_db_inv db" and p: "dnode db p = Some (t, True)" "container (p @ [''roles''])" and x: "tree_ok x" "x = JObject a es"
    and free: "ids_free db OV_VOCS_DB_ROLE (p @ [''roles'']) x"
  shows "\<exists>db' s. update_roles p x db = (db', True) \<and> dom_get db' (p @ [''roles'']) = Some (ov_json_value_copy s x) \<and>
    (\<forall>q. \<not> prefix (p @ [''roles'']) q \<longrightarrow> \<not> prefix q p \<longrightarrow> dom_get db' q = dom_get db q)"
proof -
  have dom: "domains_ok db" using inv by (simp add: vocs_db_inv_def)
  obtain db1 r where g: "get_create_parent p ''roles'' db = (db1, r)" by fastforce
  note g1 = get_create_parent_inv [OF inv p(2) g] and g2 = get_create_parent_get [OF dom p(1) g]
  have dom1: "domains_ok db1" using g1(1) by (simp add: vocs_db_inv_def)
  have "role_already_set db1 (dom_get db1 (p @ [''roles''])) j" if "j \<in> fst ` set es" for j
    using ids_free_all [OF free [unfolded x(2)] g1(2) created_members [OF dom p(1) g] that]
    unfolding already_set_iff admin_role_def idx_simps by argo
  then have all: "all_members (role_already_set db1 (dom_get db1 (p @ [''roles'']))) x" by (simp add: all_members_iff x(2))
  from replace_members_get [OF dom1 p(2) g2(2) x, of unindex_roles OV_VOCS_DB_ROLE reindex_roles] obtain db' s where
    "replace_members ''roles'' unindex_roles reindex_roles p x db1 = (db', True)" "dom_get db' (p @ [''roles'']) = Some (ov_json_value_copy s x)"
    "\<forall>q. \<not> prefix (p @ [''roles'']) q \<longrightarrow> \<not> prefix q p \<longrightarrow> dom_get db' q = dom_get db1 q" by (auto simp: unindex_eqs reindex_eqs fun_eq_iff)
  with all g g2(4) x(2) show ?thesis by (auto simp: update_roles_def)
qed

lemma update_loops_get:
  assumes inv: "vocs_db_inv db" and p: "dnode db p = Some (t, True)" "container (p @ [''loops''])" and x: "tree_ok x" "x = JObject a es"
    and free: "ids_free db OV_VOCS_DB_LOOP (p @ [''loops'']) x"
  shows "\<exists>db' s. update_loops p x db = (db', True) \<and> dom_get db' (p @ [''loops'']) = Some (ov_json_value_copy s x) \<and>
    (\<forall>q. \<not> prefix (p @ [''loops'']) q \<longrightarrow> \<not> prefix q p \<longrightarrow> dom_get db' q = dom_get db q)"
proof -
  have dom: "domains_ok db" using inv by (simp add: vocs_db_inv_def)
  obtain db1 r where g: "get_create_parent p ''loops'' db = (db1, r)" by fastforce
  note g1 = get_create_parent_inv [OF inv p(2) g] and g2 = get_create_parent_get [OF dom p(1) g]
  have dom1: "domains_ok db1" using g1(1) by (simp add: vocs_db_inv_def)
  have "loop_already_set db1 (dom_get db1 (p @ [''loops''])) j" if "j \<in> fst ` set es" for j
    using ids_free_all [OF free [unfolded x(2)] g1(2) created_members [OF dom p(1) g] that]
    unfolding already_set_iff admin_role_def idx_simps by (metis ov_vocs_db_entity.distinct)
  then have all: "all_members (loop_already_set db1 (dom_get db1 (p @ [''loops'']))) x" by (simp add: all_members_iff x(2))
  from replace_members_get [OF dom1 p(2) g2(2) x, of unindex_loops OV_VOCS_DB_LOOP reindex_loops] obtain db' s where
    "replace_members ''loops'' unindex_loops reindex_loops p x db1 = (db', True)" "dom_get db' (p @ [''loops'']) = Some (ov_json_value_copy s x)"
    "\<forall>q. \<not> prefix (p @ [''loops'']) q \<longrightarrow> \<not> prefix q p \<longrightarrow> dom_get db' q = dom_get db1 q" by (auto simp: unindex_eqs reindex_eqs fun_eq_iff)
  with all g g2(4) x(2) show ?thesis by (auto simp: update_loops_def check_sip_old)
qed

lemma update_function_get:
  assumes inv: "vocs_db_inv db" and p: "entity_at K p i" "dnode db p = Some (t, True)" and x: "tree_ok x"
    and k: "k \<noteq> ''id''" "K \<in> leaf_kinds \<or> k \<noteq> ''users''" "\<not> (K = OV_VOCS_DB_DOMAIN \<and> k = ''projects'')"
    and free: "\<forall>K' \<in> {OV_VOCS_DB_ROLE, OV_VOCS_DB_LOOP}. K \<notin> leaf_kinds \<and> k = kind_key K' \<longrightarrow> ov_json_is_object (Some x) \<and> ids_free db K' (p @ [k]) x"
  shows "\<exists>db' s. update_function K p k x db = Some (db', True) \<and> dom_get db' (p @ [k]) = Some (ov_json_value_copy s x) \<and>
    (\<forall>q. \<not> prefix (p @ [k]) q \<longrightarrow> \<not> prefix q p \<longrightarrow> dom_get db' q = dom_get db q)"
proof -
  have dom: "domains_ok db" using inv by (simp add: vocs_db_inv_def)
  have K: "K = OV_VOCS_DB_DOMAIN \<or> K = OV_VOCS_DB_PROJECT \<or> K \<in> leaf_kinds" using p(1) by (cases K) auto
  consider (roles) "K \<notin> leaf_kinds" "k = ''roles''" | (loops) "K \<notin> leaf_kinds" "k = ''loops''" | (other) "K \<in> leaf_kinds \<or> k \<notin> {''roles'', ''loops''}" by blast
  then show ?thesis
  proof cases
    case roles
    then have c: "container (p @ [''roles''])" using K p(1) leaf_containerI [OF p(1), of OV_VOCS_DB_ROLE] by (auto simp: leaf_container_def)
    obtain a es where "x = JObject a es" using free roles by (cases x) auto
    from update_roles_get [OF inv p(2) c x this] roles free K show ?thesis
      by (auto simp: update_domain_def update_project_def)
  next
    case loops
    then have c: "container (p @ [''loops''])" using K p(1) leaf_containerI [OF p(1), of OV_VOCS_DB_LOOP] by (auto simp: leaf_container_def)
    obtain a es where "x = JObject a es" using free loops by (cases x) auto
    from update_loops_get [OF inv p(2) c x this] loops free K show ?thesis
      by (auto simp: update_domain_def update_project_def)
  next
    case other
    have "update_function K p k x db = Some (set_copy p k x db)" using other K k by (auto simp: update_domain_def update_project_def update_entity_def)
    with set_copy_get [OF dom p(2) x, of k] show ?thesis by auto
  qed
qed

lemma get_entity_key_tree:
  assumes "vocs_db_reach db" "entity_at K p i" "\<not> admin_role K i" "dom_get db p \<noteq> None" "k \<noteq> ''password''"
  shows "ov_vocs_db_get_entity_key db True K i k = Some (Some (case dom_get db (p @ [k]) of None \<Rightarrow> JNull () | Some v \<Rightarrow> ov_json_value_copy () v))"
proof -
  from assms(4) obtain v where v: "dom_get db p = Some v" by blast
  from find_entity [OF assms(1-3) v] assms(5) v dom_get_under [of db p k] show ?thesis
    by (simp add: ov_vocs_db_get_entity_key_def split: option.splits)
qed

text \<open>
  A member of an entity that is set by an update is read back as it was set, and the other members of the entity stay as they
  are. This holds for roles and loops of a domain or project as well, if the document has no ids that are used elsewhere. (Other than that: the id
  cannot be set, the password is not read, users who stay keep their data, and the projects of a domain bring entities with them.)
\<close>

theorem vocs_db_update_roundtrip:
  assumes reach: "vocs_db_reach db" and i: "index_get (get_index_dict db K) (Some i) = Some p" "\<not> admin_role K i" "ov_json_is_object (dom_get db (fst p))"
    and x: "tree_ok x" and k: "k \<notin> {''id'', ''password''}" "K \<in> leaf_kinds \<or> k \<noteq> ''users''" "\<not> (K = OV_VOCS_DB_DOMAIN \<and> k = ''projects'')"
    and free: "\<forall>K' \<in> {OV_VOCS_DB_ROLE, OV_VOCS_DB_LOOP}. K \<notin> leaf_kinds \<and> k = kind_key K' \<longrightarrow> ov_json_is_object (Some x) \<and> ids_free db K' (fst p @ [k]) x"
  shows "\<exists>db'. ov_vocs_db_update_entity_key db True K i k x = Some (db', True) \<and> ov_vocs_db_get_entity_key db' True K i k = Some (Some x) \<and>
    (\<forall>k'. k' \<noteq> k \<longrightarrow> ov_vocs_db_get_entity_key db' True K i k' = ov_vocs_db_get_entity_key db True K i k')"
proof -
  from index_entity [OF reach i(1)] obtain v where v: "entity_at K (fst p) i" "deref db p = Some v" "dom_get db (fst p) = Some v" by blast
  obtain t where t: "dnode db (fst p) = Some (t, True)" using i(3) by (auto simp: dom_get_object)
  have k': "k \<noteq> ''id''" "k \<noteq> ''password''" using k(1) by auto
  from update_function_get [OF vocs_db_reach_inv [OF reach] v(1) t x k'(1) k(2,3) free] obtain db' s where
    db': "update_function K (fst p) k x db = Some (db', True)" "dom_get db' (fst p @ [k]) = Some (ov_json_value_copy s x)"
      "\<forall>q. \<not> prefix (fst p @ [k]) q \<longrightarrow> \<not> prefix q (fst p) \<longrightarrow> dom_get db' q = dom_get db q" by blast
  have up: "ov_vocs_db_update_entity_key db True K i k x = Some (db', True)"
    using db'(1) i(1) v(2) k'(1) by (simp add: ov_vocs_db_update_entity_key_def)
  have reach': "vocs_db_reach db'" by (rule reach_update_key [OF reach x _ up]) (use k(3) in blast)
  have there: "dom_get db' (fst p) \<noteq> None" using db'(2) dom_get_under [of db' "fst p" k] by (cases "dom_get db' (fst p)") auto
  note get = get_entity_key_tree [OF reach' v(1) i(2) there]
  have "ov_vocs_db_get_entity_key db' True K i k'' = ov_vocs_db_get_entity_key db True K i k''" if "k'' \<noteq> k" for k''
  proof (cases "k'' = ''password''")
    case False
    have "dom_get db' (fst p @ [k'']) = dom_get db (fst p @ [k''])" using that by (intro db'(3) [rule_format]) (auto simp: prefix_def)
    then show ?thesis using get [OF False] get_entity_key_tree [OF reach v(1) i(2) _ False] v(3) by simp
  qed (simp add: ov_vocs_db_get_entity_key_def)
  with up get [OF k'(2)] db'(2) show ?thesis by (simp add: copy_copy)
qed

definition new_roles :: "unit json" where
  "new_roles = JObject () [(''r'', JObject () [(''users'', JObject () [(''v'', JNull ())])]), (''s'', JObject () [])]"

lemma new_roles_ok: "tree_ok new_roles"
proof -
  have "json_slot ''r'' \<le> json_slot ''s''" by code_simp
  then show ?thesis unfolding new_roles_def by (auto simp: tree_ok_object tree_ok_leaf in_slots_def)
qed

theorem vocs_db_update_roundtrip_witness:
  "\<exists>db'. ov_vocs_db_update_entity_key example_db True OV_VOCS_DB_PROJECT ''p'' ''roles'' new_roles = Some (db', True) \<and>
    ov_vocs_db_get_entity_key db' True OV_VOCS_DB_PROJECT ''p'' ''roles'' = Some (Some new_roles)"
proof -
  have p: "index_get (get_index_dict example_db OV_VOCS_DB_PROJECT) (Some ''p'') = Some ([''d'', ''projects'', ''p''], 3)"
    "ov_json_is_object (dom_get example_db [''d'', ''projects'', ''p''])" by code_simp+
  have "index_get (get_index_dict example_db OV_VOCS_DB_ROLE) (Some ''s'') = None" by code_simp
  moreover have "dom_get example_db [''d'', ''projects'', ''p'', ''roles'', ''r''] \<noteq> None" by code_simp
  ultimately have free: "ids_free example_db OV_VOCS_DB_ROLE [''d'', ''projects'', ''p'', ''roles''] new_roles"
    by (auto simp: ids_free_def new_roles_def split: if_splits)
  have "ov_json_is_object (Some new_roles)" by (simp add: new_roles_def)
  with p free show ?thesis using new_roles_ok vocs_db_update_roundtrip [OF example_reach, of OV_VOCS_DB_PROJECT "''p''" "([''d'', ''projects'', ''p''], 3)" new_roles "''roles''"]
    by (auto simp: admin_role_def)
qed

subsection \<open>Update of users\<close>

lemma drop_users_get:
  assumes "drop_users c us db = (db', True)"
  shows "dom_get db' (c @ [j]) = (if j \<in> set us then None else dom_get db (c @ [j]))"
    "\<not> prefix c q \<Longrightarrow> \<not> prefix q c \<Longrightarrow> dom_get db' q = dom_get db q"
proof -
  have "dom_get db' (c @ [j]) = (if j \<in> set us then None else dom_get db (c @ [j])) \<and> (\<forall>q. \<not> prefix c q \<longrightarrow> \<not> prefix q c \<longrightarrow> dom_get db' q = dom_get db q)"
    using assms
  proof (induction us arbitrary: db)
    case (Cons u us)
    then obtain db1 where db1: "dom_del c u db = (db1, True)" "drop_users c us db1 = (db', True)" by (auto split: prod.splits if_splits)
    have "dom_get db1 (c @ [j]) = (if j = u then None else dom_get db (c @ [j]))" using dom_del_get [OF db1(1), of "c @ [j]"] by (auto simp: prefix_def)
    moreover have "dom_get db1 q = dom_get db q" if "\<not> prefix c q" "\<not> prefix q c" for q
      using dom_del_get(2) [OF db1(1) _ that(2)] that(1) by (auto simp: prefix_def)
    ultimately show ?case using Cons.IH [OF db1(2)] by auto
  qed simp
  then show "dom_get db' (c @ [j]) = (if j \<in> set us then None else dom_get db (c @ [j]))"
    "\<not> prefix c q \<Longrightarrow> \<not> prefix q c \<Longrightarrow> dom_get db' q = dom_get db q" by blast+
qed

lemma add_users_get:
  assumes c: "leaf_container K c" and "domains_ok db" "dnode db c = Some (t, True)" "\<forall>e \<in> set es. tree_ok (snd e)" "distinct (map fst es)"
    "members_for_each (add_new_user c) es db = (db', True)"
  shows "case dom_get db (c @ [j]) of
      Some v \<Rightarrow> dom_get db' (c @ [j]) = Some v
    | None \<Rightarrow> (case map_of es j of None \<Rightarrow> dom_get db' (c @ [j]) = None | Some v \<Rightarrow> \<exists>s. dom_get db' (c @ [j]) = Some (ov_json_value_copy s v))"
    "\<not> prefix c q \<Longrightarrow> \<not> prefix q c \<Longrightarrow> dom_get db' q = dom_get db q"
proof -
  have "(case dom_get db (c @ [j]) of
      Some v \<Rightarrow> dom_get db' (c @ [j]) = Some v
    | None \<Rightarrow> (case map_of es j of None \<Rightarrow> dom_get db' (c @ [j]) = None | Some v \<Rightarrow> \<exists>s. dom_get db' (c @ [j]) = Some (ov_json_value_copy s v))) \<and>
    (\<forall>q. \<not> prefix c q \<longrightarrow> \<not> prefix q c \<longrightarrow> dom_get db' q = dom_get db q)"
    using assms(2-)
  proof (induction es arbitrary: db t)
    case Nil
    then show ?case by (auto split: option.splits)
  next
    case (Cons e es)
    from Cons.prems(5) obtain db1 where db1: "add_new_user c (fst e) (snd e) db = (db1, True)" "members_for_each (add_new_user c) es db1 = (db', True)"
      by (auto split: prod.splits if_splits)
    from add_users_inside [OF c Cons.prems(1,2), of "[e]"] Cons.prems(3) db1(1) have in1: "inside_only c db db1" by auto
    then obtain t1 where d1: "domains_ok db1" "dnode db1 c = Some (t1, True)" by (auto simp: inside_only_def)
    have IH: "case dom_get db1 (c @ [j]) of
      Some v \<Rightarrow> dom_get db' (c @ [j]) = Some v
    | None \<Rightarrow> (case map_of es j of None \<Rightarrow> dom_get db' (c @ [j]) = None | Some v \<Rightarrow> \<exists>s. dom_get db' (c @ [j]) = Some (ov_json_value_copy s v))"
      "\<forall>q. \<not> prefix c q \<longrightarrow> \<not> prefix q c \<longrightarrow> dom_get db' q = dom_get db1 q"
      using Cons.IH [OF d1 _ _ db1(2)] Cons.prems(3,4) by auto
    show ?case
    proof (cases "dom_get db (c @ [fst e])")
      case None
      then have set: "set_copy c (fst e) (snd e) db = (db1, True)" using db1(1) by (simp add: add_new_user_def set_copy_def dom_get_under)
      from set_copy_get [OF Cons.prems(1,2), of "snd e" "fst e"] Cons.prems(3) set have
        s: "dom_get db1 (c @ [fst e]) = Some (ov_json_value_copy (next_tag db) (snd e))"
        "\<forall>q. \<not> prefix (c @ [fst e]) q \<longrightarrow> \<not> prefix q c \<longrightarrow> dom_get db1 q = dom_get db q" by auto
      have "dom_get db1 q = dom_get db q" if "\<not> prefix c q" "\<not> prefix q c" for q
        using s(2) that by (auto simp: prefix_def)
      moreover have "dom_get db1 (c @ [j]) = dom_get db (c @ [j])" if "j \<noteq> fst e" using s(2) that by (auto simp: prefix_def)
      moreover have "map_of es (fst e) = None" using Cons.prems(4) by (auto simp: map_of_eq_None_iff)
      ultimately show ?thesis using IH s(1) None by (cases e; cases "j = fst e") (auto split: option.splits)
    next
      case (Some v)
      then have "db1 = db" using db1(1) by (simp add: add_new_user_def dom_get_under)
      with IH Some show ?thesis by (cases e; cases "j = fst e") (auto split: option.splits)
    qed
  qed
  then show "case dom_get db (c @ [j]) of
      Some v \<Rightarrow> dom_get db' (c @ [j]) = Some v
    | None \<Rightarrow> (case map_of es j of None \<Rightarrow> dom_get db' (c @ [j]) = None | Some v \<Rightarrow> \<exists>s. dom_get db' (c @ [j]) = Some (ov_json_value_copy s v))"
    "\<not> prefix c q \<Longrightarrow> \<not> prefix q c \<Longrightarrow> dom_get db' q = dom_get db q" by blast+
qed



lemma update_users_get:
  assumes inv: "vocs_db_inv db" and p: "entity_at K p i" "K = OV_VOCS_DB_DOMAIN \<or> K = OV_VOCS_DB_PROJECT" "dnode db p = Some (t, True)"
    and x: "tree_ok x" "x = JObject a es" and up: "update_users p x db = Some (db', True)"
  shows "case map_of es j of
      None \<Rightarrow> dom_get db' (p @ [''users'', j]) = None
    | Some v \<Rightarrow> (case dom_get db (p @ [''users'', j]) of
        Some w \<Rightarrow> dom_get db' (p @ [''users'', j]) = Some w
      | None \<Rightarrow> \<exists>s. dom_get db' (p @ [''users'', j]) = Some (ov_json_value_copy s v))"
proof -
  let ?c = "p @ [''users'']"
  have c: "leaf_container OV_VOCS_DB_USER ?c" using leaf_containerI [OF p(1,2), of OV_VOCS_DB_USER] by simp
  then have con: "container ?c" by (simp add: leaf_container_def)
  have dom: "domains_ok db" using inv by (simp add: vocs_db_inv_def)
  obtain db1 r where g: "get_create_parent p ''users'' db = (db1, r)" by fastforce
  note g1 = get_create_parent_inv [OF inv con g] and g2 = get_create_parent_get [OF dom p(3) g]
  note kept = created_members [OF dom p(3) g]
  have dom1: "domains_ok db1" using g1(1) by (simp add: vocs_db_inv_def)
  obtain t1 where t1: "dnode db1 ?c = Some (t1, True)" using g1(3) g2(1) by blast
  then obtain fs where fs: "dom_get db1 ?c = Some (JObject t1 fs)" by (auto simp: dnode_get elim: ov_json_is_object.elims)
  let ?db2 = "change_index OV_VOCS_DB_USER (drop_keys (keys_at db1 ?c)) db1"
  let ?list = "filter (\<lambda>k. ov_json_object_get (Some x) (Some k) = None) (map fst fs)"
  have un: "ov_json_object_for_each (dom_get db1 ?c) db1 (\<lambda>key val. unindex_users key) = (?db2, True)"
    by (simp add: fs unindex_eqs unindex_members keys_at_members [OF fs])
  have get2: "dom_get ?db2 = dom_get db1" by (rule dom_get_cong) simp
  have dom2: "domains_ok ?db2" "dnode ?db2 ?c = Some (t1, True)" using dom1 t1 by (auto simp: domains_ok_def)
  from drop_users_inside [OF c dom2, of ?list] obtain db3 where db3: "drop_users ?c ?list ?db2 = (db3, True)" "inside_only ?c ?db2 db3" by blast
  then obtain t3 where dom3: "domains_ok db3" "dnode db3 ?c = Some (t3, True)" by (auto simp: inside_only_def)
  have dis: "distinct (map fst es)" using x by (simp add: tree_ok_object in_slots_def)
  then have vals_ok: "\<forall>e \<in> set es. tree_ok (snd e)" using x by (auto simp: tree_ok_object intro: map_of_is_SomeI)
  from add_users_inside [OF c dom3 vals_ok] obtain db4 where db4: "members_for_each (add_new_user ?c) es db3 = (db4, True)" "inside_only ?c db3 db4" by blast
  then obtain t4 gs where gs: "dom_get db4 ?c = Some (JObject t4 gs)" by (auto simp: inside_only_def dnode_get elim!: ov_json_is_object.elims)
  from reindex_get [of t4 gs db4 OV_VOCS_DB_USER "reindex ?c"] obtain db5 where
    db5: "ov_json_object_for_each (dom_get db4 ?c) db4 (reindex_users ?c) = (db5, True)" "dom_get db5 = dom_get db4" unfolding gs reindex_eqs by blast
  have "db' = db5"
    using up g g2(1) un db3(1) db4(1) db5(1) get2 fs x(2) by (auto simp: update_users_def add_to_drop split: if_splits)
  moreover have "dom_get db3 (?c @ [j]) = (if j \<in> set ?list then None else dom_get db1 (?c @ [j]))"
    using drop_users_get(1) [OF db3(1), of j] unfolding get2 .
  moreover have "j \<in> set ?list \<longleftrightarrow> map_of es j = None \<and> dom_get db1 (?c @ [j]) \<noteq> None"
    using x(2) dom_get_under [of db1 ?c j] fs by (auto simp: map_of_eq_None_iff)
  ultimately show ?thesis
    using add_users_get(1) [OF c dom3 vals_ok dis db4(1), of j] kept [of j] db5(2) by (auto split: option.splits)
qed

text \<open>
  When the users of a domain or project are updated, those who are in the new document and were there before stay as they are, whatever the document has for them, so
  that the passwords they have are kept; new ones are taken from the document, and the others are gone.
\<close>

theorem vocs_db_update_users:
  assumes reach: "vocs_db_reach db" and K: "K = OV_VOCS_DB_DOMAIN \<or> K = OV_VOCS_DB_PROJECT" and x: "tree_ok x"
    and i: "index_get (get_index_dict db K) (Some i) = Some p" "ov_json_is_object (dom_get db (fst p))"
    and up: "ov_vocs_db_update_entity_key db True K i ''users'' x = Some (db', True)"
  shows "case ov_json_object_get (Some x) (Some j) of
      None \<Rightarrow> dom_get db' (fst p @ [''users'', j]) = None
    | Some v \<Rightarrow> (case dom_get db (fst p @ [''users'', j]) of
        Some w \<Rightarrow> dom_get db' (fst p @ [''users'', j]) = Some w
      | None \<Rightarrow> \<exists>s. dom_get db' (fst p @ [''users'', j]) = Some (ov_json_value_copy s v))"
proof -
  from index_entity [OF reach i(1)] obtain v where v: "entity_at K (fst p) i" "deref db p = Some v" by blast
  obtain t where t: "dnode db (fst p) = Some (t, True)" using i(2) by (auto simp: dom_get_object)
  have "update_users (fst p) x db = Some (db', True)"
    using up K i(1) v(2) by (auto simp: ov_vocs_db_update_entity_key_def update_domain_def update_project_def)
  moreover from this obtain a es where "x = JObject a es" by (cases x) (auto simp: update_users_def)
  ultimately show ?thesis using update_users_get [OF vocs_db_reach_inv [OF reach] v(1) K t x, of a es db' j] by simp
qed

subsection \<open>What the conditions on callers are for\<close>

text \<open>
  Two domains, of which one has a user, and projects for the other one with a user of the same id; data for import with a user of one id in two domains.
\<close>

definition two_domains :: ov_vocs_db where
  "two_domains = new_entity OV_VOCS_DB_DOMAIN ''e'' OV_VOCS_DB_SCOPE_DOMAIN '''' example_db"

definition clash :: "unit json" where
  "clash = JObject () [(''q'', JObject () [(''users'', JObject () [(''u'', JObject () [])])])]"

definition twice_data :: "unit json" where
  "twice_data = JObject () [(''d'', JObject () [(''users'', JObject () [(''u'', JObject () [])])]), (''e'', JObject () [(''users'', JObject () [(''u'', JObject () [])])])]"

text \<open>Where a user is found by the index.\<close>

definition found :: "ov_vocs_db \<Rightarrow> path option" where
  "found db = map_option fst (index_get (get_index_dict db OV_VOCS_DB_USER) (Some ''u''))"

text \<open>
  The ids are not tested. Projects that bring an id of another domain replace those of a domain: the index leads from the user of the other domain
  to the new one, and when its domain is deleted, the first one, still in the tree, is not found any more. An import takes data with the id twice, and one user is not found.
\<close>

theorem vocs_db_unchecked_ids:
  "\<exists>db db'. ov_vocs_db_update_entity_key two_domains True OV_VOCS_DB_DOMAIN ''e'' ''projects'' clash = Some (db, True) \<and>
    found two_domains = Some [''d'', ''users'', ''u''] \<and> found db = Some [''e'', ''projects'', ''q'', ''users'', ''u''] \<and>
    dom_get db [''d'', ''users'', ''u''] \<noteq> None \<and>
    ov_vocs_db_delete_entity db True OV_VOCS_DB_DOMAIN ''e'' = Some (db', True) \<and>
    found db' = None \<and> dom_get db' [''d'', ''users'', ''u''] \<noteq> None"
  "\<exists>db. ov_vocs_db_inject ov_vocs_db_create True OV_VOCS_DB_TYPE_AUTH twice_data = (db, True) \<and>
    found db = Some [''e'', ''users'', ''u''] \<and> dom_get db [''d'', ''users'', ''u''] \<noteq> None"
proof -
  let ?a = "fst (the (ov_vocs_db_update_entity_key two_domains True OV_VOCS_DB_DOMAIN ''e'' ''projects'' clash))"
  let ?b = "fst (the (ov_vocs_db_delete_entity ?a True OV_VOCS_DB_DOMAIN ''e''))"
  have "ov_vocs_db_update_entity_key two_domains True OV_VOCS_DB_DOMAIN ''e'' ''projects'' clash = Some (?a, True)" by code_simp
  moreover have "found two_domains = Some [''d'', ''users'', ''u'']" by code_simp
  moreover have "found ?a = Some [''e'', ''projects'', ''q'', ''users'', ''u'']" "dom_get ?a [''d'', ''users'', ''u''] \<noteq> None" by code_simp+
  moreover have "ov_vocs_db_delete_entity ?a True OV_VOCS_DB_DOMAIN ''e'' = Some (?b, True)" by code_simp
  moreover have "found ?b = None" "dom_get ?b [''d'', ''users'', ''u''] \<noteq> None" by code_simp+
  ultimately show "\<exists>db db'. ov_vocs_db_update_entity_key two_domains True OV_VOCS_DB_DOMAIN ''e'' ''projects'' clash = Some (db, True) \<and>
    found two_domains = Some [''d'', ''users'', ''u''] \<and> found db = Some [''e'', ''projects'', ''q'', ''users'', ''u''] \<and>
    dom_get db [''d'', ''users'', ''u''] \<noteq> None \<and>
    ov_vocs_db_delete_entity db True OV_VOCS_DB_DOMAIN ''e'' = Some (db', True) \<and>
    found db' = None \<and> dom_get db' [''d'', ''users'', ''u''] \<noteq> None" by blast
  let ?c = "fst (ov_vocs_db_inject ov_vocs_db_create True OV_VOCS_DB_TYPE_AUTH twice_data)"
  have "ov_vocs_db_inject ov_vocs_db_create True OV_VOCS_DB_TYPE_AUTH twice_data = (?c, True)" by code_simp
  moreover have "found ?c = Some [''e'', ''users'', ''u'']" "dom_get ?c [''d'', ''users'', ''u''] \<noteq> None" by code_simp+
  ultimately show "\<exists>db. ov_vocs_db_inject ov_vocs_db_create True OV_VOCS_DB_TYPE_AUTH twice_data = (db, True) \<and>
    found db = Some [''e'', ''users'', ''u''] \<and> dom_get db [''d'', ''users'', ''u''] \<noteq> None" by blast
qed

text \<open>
  Projects that keep to the conditions: the projects of the example are replaced by a new one.
\<close>

definition good_projects :: "unit json" where
  "good_projects = JObject () [(''q'', JObject () [(''users'', JObject () [(''w'', JObject () [])])])]"

lemma example_db_entities:
  assumes "entity_at K p i" "dom_get example_db p \<noteq> None"
  shows "(K, i) \<in> {(OV_VOCS_DB_DOMAIN, ''d''), (OV_VOCS_DB_USER, ''u''), (OV_VOCS_DB_PROJECT, ''p''), (OV_VOCS_DB_USER, ''v''), (OV_VOCS_DB_ROLE, ''r''), (OV_VOCS_DB_LOOP, ''l'')}"
proof -
  have "p \<in> set (case data_domains example_db of Some v \<Rightarrow> json_paths v | None \<Rightarrow> [])"
    using lookup_paths assms(2) by (cases "data_domains example_db") (auto simp: dom_get_def)
  also have "(case data_domains example_db of Some v \<Rightarrow> json_paths v | None \<Rightarrow> []) =
    [[], [''d''], [''d'', ''id''], [''d'', ''users''], [''d'', ''users'', ''u''], [''d'', ''users'', ''u'', ''id''],
      [''d'', ''projects''], [''d'', ''projects'', ''p''], [''d'', ''projects'', ''p'', ''id''],
      [''d'', ''projects'', ''p'', ''users''], [''d'', ''projects'', ''p'', ''users'', ''v''], [''d'', ''projects'', ''p'', ''users'', ''v'', ''id''],
      [''d'', ''projects'', ''p'', ''roles''], [''d'', ''projects'', ''p'', ''roles'', ''r''], [''d'', ''projects'', ''p'', ''roles'', ''r'', ''id''],
      [''d'', ''projects'', ''p'', ''loops''], [''d'', ''projects'', ''p'', ''loops'', ''l''], [''d'', ''projects'', ''p'', ''loops'', ''l'', ''id'']]"
    by code_simp
  finally show ?thesis using assms(1) by (cases K) auto
qed

lemma good_projects_paths: "lookup good_projects p \<noteq> None \<Longrightarrow> p \<in> {[], [''q''], [''q'', ''users''], [''q'', ''users'', ''w'']}"
  using lookup_paths [of good_projects p] by (simp add: good_projects_def)

lemma good_projects_ok: "projects_ok {q. dom_get example_db q \<noteq> None} ''d'' good_projects"
proof -
  have "tree_ok good_projects" by (simp add: good_projects_def tree_ok_object in_slots_def)
  moreover have "object_at good_projects p" if "container ([''d'', ''projects''] @ p)" "lookup good_projects p \<noteq> None" for p
    using good_projects_paths [OF that(2)] that(1) by (auto simp: container_def object_at_def good_projects_def)
  moreover have "q = [''d'', ''projects''] @ p" if e: "entity_at K ([''d'', ''projects''] @ p) i" "lookup good_projects p \<noteq> None" "entity_at K q i"
      "if prefix [''d'', ''projects''] q then lookup good_projects (drop 2 q) \<noteq> None else q \<in> {q. dom_get example_db q \<noteq> None}" for K p q i
  proof (cases "prefix [''d'', ''projects''] q")
    case True
    then obtain r where r: "q = [''d'', ''projects''] @ r" by (auto elim: prefixE)
    with e(4) have "lookup good_projects r \<noteq> None" by simp
    from good_projects_paths [OF this] good_projects_paths [OF e(2)] e(1,3) r show ?thesis by (cases K) auto
  next
    case False
    with e(4) have "dom_get example_db q \<noteq> None" by simp
    from example_db_entities [OF e(3) this] good_projects_paths [OF e(2)] e(1) show ?thesis by (cases K) auto
  qed
  ultimately show ?thesis unfolding projects_ok_def by blast
qed

theorem vocs_db_replace_projects:
  "\<exists>db'. ov_vocs_db_update_entity_key example_db True OV_VOCS_DB_DOMAIN ''d'' ''projects'' good_projects = Some (db', True) \<and> vocs_db_reach db' \<and>
    ov_vocs_db_get_entity db' True OV_VOCS_DB_USER ''v'' = Some None \<and> ov_vocs_db_get_entity db' True OV_VOCS_DB_USER ''w'' = Some (Some (JObject () []))"
proof -
  let ?a = "fst (the (ov_vocs_db_update_entity_key example_db True OV_VOCS_DB_DOMAIN ''d'' ''projects'' good_projects))"
  have up: "ov_vocs_db_update_entity_key example_db True OV_VOCS_DB_DOMAIN ''d'' ''projects'' good_projects = Some (?a, True)" by code_simp
  have "tree_ok good_projects" using good_projects_ok by (simp add: projects_ok_def)
  then have "vocs_db_reach ?a" by (rule reach_update_key [OF example_reach _ _ up]) (rule good_projects_ok)
  moreover have "ov_vocs_db_get_entity ?a True OV_VOCS_DB_USER ''v'' = Some None" by code_simp
  moreover have "ov_vocs_db_get_entity ?a True OV_VOCS_DB_USER ''w'' = Some (Some (JObject () []))" by code_simp
  ultimately show ?thesis using up by blast
qed

end
