(* ===== verification/Spec2Isabelle.thy ===== *)
theory Spec2Isabelle
  imports Ov_Utf8 Ov_Base64 Ov_Hashtable Ov_Vm_Exec Ov_Ringbuffer Ov_Stun Ov_Rtp_Frame Ov_Websocket Ov_Lists Ov_Rtp_Frame_Buffer Ov_Dict Ov_Vocs_Db_State Ov_Vocs_Db_Change
begin

text \<open>
  Verification of core libraries of openvocs, a voice conferencing system for mission control.

  \<^bold>\<open>The program.\<close> openvocs is a set of C libraries under \<^verbatim>\<open>src/src/lib\<close> and of services that put
  them together. A frontend (ICE proxy) takes audio from web browsers, a backend mixes the
  voice loops, and the vocs server keeps users, roles and loops and drives both. \<^verbatim>\<open>ov_base\<close> holds
  what all of them use: encodings, containers, caches, RTP, JSON and event loops. Requests that need
  answers of several services are run as programs of a small virtual machine, \<^verbatim>\<open>ov_vm\<close>: a program is
  a list of instructions, each with a handler and an inverse handler, that can wait for an
  answer, be continued, and be rolled back when a step fails or the answer takes too long. STUN messages
  (\<^verbatim>\<open>ov_stun\<close>) establish the audio connections, and RTP frames carry the audio.

  \<^bold>\<open>The theories\<close>, in the order in which they build on each other.

  \<^item> \<^verbatim>\<open>Ov_Prelude\<close>: words of the widths of the C code, bit by bit reasoning on them, buffers as lists of
    bytes, network byte order. All components use it.
  \<^item> \<^verbatim>\<open>Ov_Utf8\<close> (\<^verbatim>\<open>encodings/ov_utf8.c\<close>): validation, encoding and decoding of code points.
    Decoding inverts encoding on every code point the encoder accepts, the decoder accepts only canonical sequences, and
    the validator is equivalent to a grammar of UTF-8 and finds the longest valid prefix.
  \<^item> \<^verbatim>\<open>Ov_Base64\<close> (\<^verbatim>\<open>encodings/ov_base64.c\<close>): both alphabets, behind the locale \<^verbatim>\<open>b64_alphabet\<close> that is
    interpreted on both tables. Decoding inverts encoding.
  \<^item> \<^verbatim>\<open>Ov_Hashtable\<close> (\<^verbatim>\<open>hashtable/ov_hashtable.c\<close>): buckets with chains, for arbitrary functions on keys. The locale
    \<^verbatim>\<open>key_funcs\<close> states what a table needs of them; it is interpreted on the C string functions. The
    table implements a map.
  \<^item> \<^verbatim>\<open>Ov_Vm_Prog\<close> (\<^verbatim>\<open>ov_vm/src/ov_vm_prog.c\<close>, \<^verbatim>\<open>result/ov_result.c\<close>): one program: its instructions, counter,
    state and result.
  \<^item> \<^verbatim>\<open>Ov_Vm_Prog_Db\<close> (\<^verbatim>\<open>ov_vm/src/ov_vm_prog_db.c\<close>): the fixed pool of program slots, with a hash table
    from ids to slots and another from aliases to ids; a client of the hash table's lemmas. The invariant \<^verbatim>\<open>db_inv\<close>
    holds in all databases the operations reach (\<^verbatim>\<open>db_reach\<close>); insertion, aliasing, removal and the search for
    overdue programs are shown against lookups; no slot and no program data is lost.
  \<^item> \<^verbatim>\<open>Ov_Vm\<close> (\<^verbatim>\<open>ov_vm/src/ov_vm.c\<close>): the machine. \<^verbatim>\<open>Ov_Vm_Exec\<close>: its correctness. Programs run in order
    to the end, to a wait or to an error; an abortion calls the inverse handlers of the completed instructions in
    reverse order; a program that ends releases its slot and its data exactly once; the timer aborts
    overdue programs only.
  \<^item> \<^verbatim>\<open>Ov_Cache\<close> (\<^verbatim>\<open>cache/ov_registered_cache.c\<close>): a cache of objects, also with interleaved threads as a
    step relation: the spin lock excludes, and no object is lost or handed out twice.
  \<^item> \<^verbatim>\<open>Ov_Ringbuffer\<close> (\<^verbatim>\<open>ringbuffer/ov_ringbuffer.c\<close>): the ring buffer, whose memory comes from a cache. It refines a
    bounded queue that drops its oldest element; the locale \<^verbatim>\<open>bounded_queue\<close> states that contract, and the
    order of elements is proved in it.
  \<^item> \<^verbatim>\<open>Ov_Stun\<close> (\<^verbatim>\<open>ov_stun/src/ov_stun_frame.c\<close>, \<^verbatim>\<open>ov_stun_attribute.c\<close>): header fields, message classes, and the
    attributes. Attributes that are encoded one behind the other are found again by slicing; slicing is equivalent
    to a specification of well-formed messages.
  \<^item> \<^verbatim>\<open>Ov_Rtp_Frame\<close> (\<^verbatim>\<open>rtp/ov_rtp_frame.c\<close>): the encoder and the decoder of RTP frames. Both round trips hold, up to the
    limits where the two disagree, which are proved as such.
  \<^item> \<^verbatim>\<open>Ov_Buffer\<close> (\<^verbatim>\<open>buffer/ov_buffer.c\<close>): growing buffers of bytes. They refine the list of their bytes.
  \<^item> \<^verbatim>\<open>Ov_Websocket\<close> (\<^verbatim>\<open>ov_core/src/ov_websocket_pointer.c\<close>): the frames of web sockets over these buffers. Parsing inverts
    encoding for all lengths and masks, a parser that is fed a prefix asks for more, and the limits of both are
    proved as such.
  \<^item> \<^verbatim>\<open>Ov_List\<close> (\<^verbatim>\<open>list/ov_list.c\<close>): the interface of lists, a record of operations as in C, and its
    clients. The locales \<^verbatim>\<open>ov_list_contract\<close> and \<^verbatim>\<open>ov_list_copying\<close> state what a list promises, and the clients
    are verified in them once. \<^verbatim>\<open>Ov_Linked_List\<close> (\<^verbatim>\<open>list/ov_linked_list.c\<close>) implements it on a heap of doubly linked
    entities, \<^verbatim>\<open>Ov_Vector_List\<close> (\<^verbatim>\<open>list/ov_vector_list.c\<close>) in a block that is reallocated. Both refine the list of
    their items, the vector list as long as it stays inside its block, and where it does not is a theorem of its own.
    \<^verbatim>\<open>Ov_Lists\<close> interprets the locales on both.
  \<^item> \<^verbatim>\<open>Ov_Dict\<close> (\<^verbatim>\<open>dict/ov_dict.c\<close>): dictionaries with arbitrary keys. The locale \<^verbatim>\<open>dict_keys\<close> states what a dictionary needs of the
    functions on its keys; it is interpreted on the three configurations of the code. A dictionary implements a map, loses and
    frees no value twice, and can be copied.
  \<^item> \<^verbatim>\<open>Ov_Rtp_Frame_Buffer\<close> (\<^verbatim>\<open>rtp/ov_rtp_frame_buffer.c\<close>): the jitter buffer of RTP frames, on lists. It refines
    streams that are ordered by sequence number; what happens when the numbers wrap around is a theorem.
  \<^item> \<^verbatim>\<open>Ov_Json\<close> (\<^verbatim>\<open>json/ov_json_object.c\<close> and its siblings): JSON values. An object is the list of its members, which is shown to be
    what a dictionary of \<^verbatim>\<open>Ov_Dict\<close> holds. Trees of values, with a path of keys for a pointer to a value.
  \<^item> \<^verbatim>\<open>Ov_Vocs_Db\<close> (\<^verbatim>\<open>ov_vocs_db/src/ov_vocs_db.c\<close>, \<^verbatim>\<open>ov_vocs_permission.c\<close>, \<^verbatim>\<open>ov_vocs_json.c\<close>): the database that decides who may
    talk on a loop. A tree of domains, projects, users, roles and loops, and five indexes with pointers into it.
    \<^verbatim>\<open>Ov_Vocs_Db_Inv\<close>: the invariant, that indexes and tree agree, for creation and deletion. \<^verbatim>\<open>Ov_Vocs_Db_Ops\<close>: the invariant for
    administrators, passwords, layouts and the import of data. \<^verbatim>\<open>Ov_Vocs_Db_Update\<close>: the update and deletion of members of entities, the update of
    entities from JSON documents with its verification of the document, and the invariant for them. \<^verbatim>\<open>Ov_Vocs_Db_Reach\<close>: the relation
    \<^verbatim>\<open>vocs_db_reach\<close> of the databases that the operations reach. \<^verbatim>\<open>Ov_Vocs_Db_Props\<close>: no operation follows a dangling pointer, authorization is
    decided by the tree, creation and deletion do what they promise. \<^verbatim>\<open>Ov_Vocs_Db_Access\<close>: revoked users and administrators.
    \<^verbatim>\<open>Ov_Vocs_Db_State\<close>: passwords, import and export, states and volumes. \<^verbatim>\<open>Ov_Vocs_Db_Change\<close>: updates are read back, users who stay keep
    their data, and what happens when callers break the conditions below.

  \<^bold>\<open>How C is modelled.\<close> A struct is a record, an enum a datatype, an integer a word of its width where
  its bounds matter. A pointer that may be NULL is an option, a pointer into a pool or a buffer an
  index. Each operation is one definition that takes and returns the state. An assertion that fails
  (the process ends) and undefined behaviour, such as an access outside of a block or over NULL, are results of their
  own: \<^verbatim>\<open>None\<close> around the result in the containers, the buffers, the web socket frames and the database, \<^verbatim>\<open>Undefined\<close> in the machine. Calls of callbacks that only observe are recorded
  as events in their order. \<^verbatim>\<open>malloc\<close> and its relatives succeed, but for \<^verbatim>\<open>realloc\<close> in the
  vector list, whose success and whose new content are parameters, \<^verbatim>\<open>mem\<close> and \<^verbatim>\<open>fill\<close>. C strings are the characters before
  the terminating zero.

  A pointer of an index of the vocs database is a path and the tag of an allocation, so that a pointer to a value that was
  freed and replaced is seen to dangle; reading over it is undefined. The database locks itself in each operation: whether the lock is got is the
  argument \<^verbatim>\<open>lk\<close>. Hashes of passwords come from OpenSSL: the functions that make and test them are parameters.

  \<^bold>\<open>Fuel and hypotheses.\<close> Only the execution loop of the machine may run forever; it takes fuel, one unit
  for each instruction. For a program of \<^verbatim>\<open>n\<close> instructions, \<^verbatim>\<open>2 * n + 2\<close> units are shown to be enough for
  \<^verbatim>\<open>ov_vm_trigger\<close> and \<^verbatim>\<open>ov_vm_continue\<close> (at most \<^verbatim>\<open>n\<close> steps forward, then at most \<^verbatim>\<open>n\<close> back) and \<^verbatim>\<open>n + 1\<close> for
  \<^verbatim>\<open>ov_vm_abort_with\<close>, so the theorems on the machine say that it returns. The handlers are code of the clients of
  the machine and a parameter, \<^verbatim>\<open>sem\<close>. The theorems assume \<^verbatim>\<open>handlers_local\<close>: a handler works on its own
  program's error and on the aliases and keeps the database invariant, but does not trigger or remove programs
  while it runs; and \<^verbatim>\<open>inverse_ok\<close>: an inverse handler does not ask to be repeated. The witnesses run a
  machine with handlers that have both. A program to trigger satisfies \<^verbatim>\<open>program_ok\<close>: it ends with \<^verbatim>\<open>OP_END\<close> and its opcodes are in the table of the
  machine. Nothing is assumed of the success of handlers: when the first instruction of a program fails, when it fails after it waited, or when a
  program is aborted before its first instruction is completed, the abortion reads \<^verbatim>\<open>instructions[-1]\<close>, and the theorems give
  \<^verbatim>\<open>Undefined\<close> as the result of exactly these cases.

  The reachable vocs databases, \<^verbatim>\<open>vocs_db_reach\<close>, are those of callers that keep to four conditions, which the code does not test: JSON values are proper
  (\<^verbatim>\<open>tree_ok\<close>: objects are dictionaries); imported data (\<^verbatim>\<open>dataset_ok\<close>) has objects as containers and no id twice; projects that replace those of a domain
  as a whole (\<^verbatim>\<open>projects_ok\<close>) have objects as containers, no id twice and no id that is used elsewhere; and a role with the name admin is created only
  while the index of the roles has none. Roles named admin, of which each domain and project may have one, are exempt from the second and third, and from the completeness of the
  index. That the conditions are needed is shown by the theorems \<^verbatim>\<open>vocs_db_unchecked_ids\<close> and \<^verbatim>\<open>vocs_db_admin_dangling\<close>.

  \<^bold>\<open>Not modelled.\<close> Sockets, event loops, TLS, threads and files (operating system interfaces); SQLite
  (vendored); ICE, DTLS and SRTP sessions (state of external libraries); audio processing (floating
  point). Of the components above: log output, dumps to streams, JSON reports of the caches, random generators
  and the memory of RTP frames. Of JSON: arrays, the parser and the printer. Of the vocs database:
  the reports for clients, SIP, recording and multicast settings, persistence. The registry of caches, strings and the chunker are next in size.
\<close>

end
